(* ===== verification/Prelude.thy ===== *)
theory Prelude
  imports Main "HOL-Library.Word"
begin

text \<open>
  Shared vocabulary of the development.

  \<^item> The outcome of an operation: the error codes of \<open>include/flecs/addons/log.h\<close> as a
    datatype, and the type \<open>'a res\<close> of results that are either a value or a failure.  A
    failure is a fired \<open>ecs_assert\<close> / \<open>ecs_check\<close> (the process aborts with the error code)
    or an access that C leaves undefined (out of the bounds of an allocation, a null
    dereference, the use of an indeterminate value).
  \<^item> The sequencing of such operations (\<open>bindr\<close>), the assertion macro, and the two loop
    shapes of the sources: a fold over a range that may fail, and a search for the first
    index with a property.
  \<^item> Generic facts about lists and machine words that the components use.
\<close>

unbundle bit_operations_syntax

section \<open>Outcomes\<close>

text \<open>The error codes of the log addon that the modelled operations raise.\<close>

datatype ecs_error =
    ECS_INVALID_OPERATION
  | ECS_INVALID_PARAMETER
  | ECS_CONSTRAINT_VIOLATED
  | ECS_OUT_OF_MEMORY
  | ECS_OUT_OF_RANGE
  | ECS_UNSUPPORTED
  | ECS_INTERNAL_ERROR
  | ECS_ALREADY_DEFINED
  | ECS_MISSING_OS_API
  | ECS_OPERATION_FAILED
  | ECS_INVALID_CONVERSION
  | ECS_CYCLE_DETECTED
  | ECS_LEAK_DETECTED
  | ECS_DOUBLE_FREE
  | ECS_INCONSISTENT_COMPONENT_ACTION
  | ECS_LOCKED_STORAGE
  | ECS_ALREADY_IN_USE

datatype failure = Abort ecs_error | Undefined

type_synonym 'a res = "failure + 'a"

definition bindr :: "'a res \<Rightarrow> ('a \<Rightarrow> 'b res) \<Rightarrow> 'b res" where
  "bindr m f = (case m of Inl e \<Rightarrow> Inl e | Inr x \<Rightarrow> f x)"

text \<open>\<open>ecs_assert(condition, error_code)\<close> of an assertion-enabled build.\<close>

definition ecs_assert :: "bool \<Rightarrow> ecs_error \<Rightarrow> unit res" where
  "ecs_assert b e = (if b then Inr () else Inl (Abort e))"

text \<open>An access that is defined only when the condition holds.\<close>

definition defined_if :: "bool \<Rightarrow> unit res" where
  "defined_if b = (if b then Inr () else Inl Undefined)"

definition returns :: "'a res \<Rightarrow> bool" where
  "returns m = (case m of Inl _ \<Rightarrow> False | Inr _ \<Rightarrow> True)"

lemma bindr_Inr [simp]: "bindr (Inr x) f = f x"
  and bindr_Inl [simp]: "bindr (Inl e) f = Inl e"
  by (simp_all add: bindr_def)

lemma bindr_eq_Inr [simp]: "bindr m f = Inr y \<longleftrightarrow> (\<exists>x. m = Inr x \<and> f x = Inr y)"
  by (cases m) simp_all

lemma bindr_assoc: "bindr (bindr m f) g = bindr m (\<lambda>x. bindr (f x) g)"
  by (cases m) simp_all

lemma ecs_assert_simps [simp]:
  "b \<Longrightarrow> ecs_assert b e = Inr ()"
  "\<not> b \<Longrightarrow> ecs_assert b e = Inl (Abort e)"
  "ecs_assert b e = Inr u \<longleftrightarrow> b"
  by (simp_all add: ecs_assert_def)

lemma defined_if_simps [simp]:
  "b \<Longrightarrow> defined_if b = Inr ()"
  "\<not> b \<Longrightarrow> defined_if b = Inl Undefined"
  "defined_if b = Inr u \<longleftrightarrow> b"
  by (simp_all add: defined_if_def)

lemma returns_simps [simp]:
  "returns (Inr x)" "\<not> returns (Inl e)"
  by (simp_all add: returns_def)

lemma returns_iff: "returns m \<longleftrightarrow> (\<exists>x. m = Inr x)"
  by (cases m) simp_all

section \<open>Loops\<close>

text \<open>
  A \<open>for\<close> loop whose body updates a state and may fail, over the list of the values that
  the loop variable takes.
\<close>

primrec for_each :: "'x list \<Rightarrow> ('x \<Rightarrow> 's \<Rightarrow> 's res) \<Rightarrow> 's \<Rightarrow> 's res" where
  "for_each [] body s = Inr s"
| "for_each (x # xs) body s = bindr (body x s) (for_each xs body)"

lemma for_each_append:
  "for_each (xs @ ys) body s = bindr (for_each xs body s) (for_each ys body)"
  by (induction xs arbitrary: s) (simp_all add: bindr_assoc bindr_def split: sum.split)

text \<open>
  Total correctness of a loop over \<open>[a..<b]\<close>: an invariant indexed by the loop variable
  that the body keeps without failing holds at the end, and the loop returns.
\<close>

lemma for_each_upt_rule:
  assumes "a \<le> b" and "I a s"
    and body: "\<And>i s. a \<le> i \<Longrightarrow> i < b \<Longrightarrow> I i s \<Longrightarrow> \<exists>s'. body i s = Inr s' \<and> I (Suc i) s'"
  shows "\<exists>s'. for_each [a..<b] body s = Inr s' \<and> I b s'"
  using assms(1)
proof (induction b rule: dec_induct)
  case base
  with assms(2) show ?case by simp
next
  case (step n)
  then obtain s' where "for_each [a..<n] body s = Inr s'" and "I n s'" by blast
  moreover obtain s'' where "body n s' = Inr s''" and "I (Suc n) s''"
    using body [OF \<open>a \<le> n\<close> \<open>n < b\<close> \<open>I n s'\<close>] by blast
  ultimately show ?case
    using \<open>a \<le> n\<close> by (simp add: for_each_append)
qed

text \<open>
  The search loop \<open>for (i = a; i < n; i ++) if (P(i)) return i;\<close>: the first index of the
  range that satisfies the test.
\<close>

function find_from :: "nat \<Rightarrow> nat \<Rightarrow> (nat \<Rightarrow> bool) \<Rightarrow> nat option" where
  "find_from a n P = (if a < n then (if P a then Some a else find_from (Suc a) n P) else None)"
  by pat_completeness auto
termination
  by (relation "measure (\<lambda>(a, n, P). n - a)") auto

declare find_from.simps [simp del]

lemma find_from_Some:
  "find_from a n P = Some i \<Longrightarrow> a \<le> i \<and> i < n \<and> P i \<and> (\<forall>j. a \<le> j \<and> j < i \<longrightarrow> \<not> P j)"
proof (induction a n P rule: find_from.induct)
  case (1 a n P)
  show ?case
  proof (cases "a < n \<and> \<not> P a")
    case True
    with "1.prems" have "find_from (Suc a) n P = Some i" by (simp add: find_from.simps [of a])
    with "1.IH" True have *: "Suc a \<le> i \<and> i < n \<and> P i \<and> (\<forall>j. Suc a \<le> j \<and> j < i \<longrightarrow> \<not> P j)"
      by simp
    have "\<not> P j" if "a \<le> j" "j < i" for j
      using that * True by (cases "j = a") auto
    with * show ?thesis by auto
  next
    case False
    with "1.prems" show ?thesis by (auto simp: find_from.simps [of a] split: if_splits)
  qed
qed

lemma find_from_None: "find_from a n P = None \<longleftrightarrow> (\<forall>j. a \<le> j \<and> j < n \<longrightarrow> \<not> P j)"
proof (induction a n P rule: find_from.induct)
  case (1 a n P)
  show ?case
  proof (cases "a < n \<and> \<not> P a")
    case True
    with "1.IH" have "find_from a n P = None \<longleftrightarrow> (\<forall>j. Suc a \<le> j \<and> j < n \<longrightarrow> \<not> P j)"
      by (simp add: find_from.simps [of a])
    also have "\<dots> \<longleftrightarrow> (\<forall>j. a \<le> j \<and> j < n \<longrightarrow> \<not> P j)"
      using True by (auto simp: Suc_le_eq) (metis le_neq_implies_less)
    finally show ?thesis .
  next
    case False
    then show ?thesis by (auto simp: find_from.simps [of a])
  qed
qed

section \<open>Lists\<close>

lemma nth_list_update_if:
  "i < length xs \<Longrightarrow> xs[j := v] ! i = (if i = j then v else xs ! i)"
  by simp

lemma take_Suc_snoc: "n < length xs \<Longrightarrow> take (Suc n) xs = take n xs @ [xs ! n]"
  by (rule take_Suc_conv_app_nth)

section \<open>Machine words\<close>

text \<open>Bits of numerals are rewritten by the layout lemmas of the components, not unfolded.\<close>

declare bit_numeral_word_iff [simp del]

type_synonym u64 = "64 word"
type_synonym u32 = "32 word"

text \<open>The cast \<open>(uint32_t)x\<close> of a 64-bit value keeps the low half.\<close>

abbreviation lo32 :: "u64 \<Rightarrow> u32" where
  "lo32 x \<equiv> ucast x"

abbreviation to64 :: "u32 \<Rightarrow> u64" where
  "to64 x \<equiv> ucast x"

lemma lo32_to64 [simp]: "lo32 (to64 x) = x"
  by (rule bit_word_eqI) (simp add: bit_ucast_iff)

lemma bit_lo32: "bit (lo32 x) n \<longleftrightarrow> n < 32 \<and> bit x n"
  by (simp add: bit_ucast_iff)

lemma lo32_eq_iff: "lo32 x = lo32 y \<longleftrightarrow> (\<forall>n < 32. bit x n = bit y n)"
  by (auto simp: bit_eq_iff bit_lo32)

lemma unat_of_nat_32: "n < 2 ^ 32 \<Longrightarrow> unat (word_of_nat n :: u32) = n"
  by (simp add: unsigned_of_nat take_bit_nat_eq_self)

lemma u32_le_max [simp]: "(c :: u32) \<le> 0xFFFFFFFF"
proof -
  have "unat c < 2 ^ LENGTH(32)" by (rule unsigned_less)
  then show ?thesis by (simp add: word_le_nat_alt)
qed

lemma sint_eq_unat_32: "unat (w :: u32) < 2 ^ 31 \<Longrightarrow> sint w = int (unat w)"
proof -
  assume "unat w < 2 ^ 31"
  then have "uint w < 2 ^ 31" by (simp add: nat_less_iff flip: nat_uint_eq)
  moreover have "0 \<le> uint w" by simp
  ultimately have "signed_take_bit 31 (uint w) = uint w"
    by (intro signed_take_bit_int_eq_self) linarith+
  then show ?thesis by (simp add: sint_uint)
qed

text \<open>A number in pages of \<open>2 ^ k\<close>: its page and its offset in the page determine it.\<close>

lemma page_offset_inj:
  fixes a b :: "'a :: len word"
  assumes "unat (drop_bit k a) = unat (drop_bit k b)" and "unat (a AND (2 ^ k - 1)) = unat (b AND (2 ^ k - 1))"
  shows "a = b"
proof (rule bit_word_eqI)
  fix n
  have "drop_bit k a = drop_bit k b" by (rule unsigned_word_eqI) (rule assms(1))
  then have hi: "bit (drop_bit k a) m = bit (drop_bit k b) m" for m by simp
  have "a AND mask k = b AND mask k"
    unfolding mask_eq_exp_minus_1 by (rule unsigned_word_eqI) (rule assms(2))
  then have lo: "bit (a AND mask k) m = bit (b AND mask k) m" for m by simp
  assume "n < LENGTH('a)"
  then show "bit a n = bit b n"
    using lo [of n] hi [of "n - k"] by (cases "n < k") (simp_all add: bit_and_iff bit_mask_iff bit_drop_bit_eq)
qed

end
