(* ===== verification/Ids.thy ===== *)
theory Ids
  imports Prelude
begin

text \<open>
  Entity and component identifiers: the bit layout of a 64-bit id
  (\<open>include/flecs/private/api_defines.h\<close>, the flag constants of \<open>src/world.c\<close>) and the id
  utilities of \<open>src/id.c\<close>.

  An entity id keeps the entity index in bits 0--31 and its generation in bits 32--47; a
  pair keeps the second element in bits 0--31 and the first in bits 32--59; bits 60--63 are
  flags.  The lemmas show how the macros read and write these fields, that the generation
  counter has period \<open>2 ^ 16\<close> and leaves the index alone, and what \<open>ecs_id_match\<close> decides.
\<close>

section \<open>Layout\<close>

definition ECS_PAIR :: u64 where "ECS_PAIR = push_bit 63 1"
definition ECS_AUTO_OVERRIDE :: u64 where "ECS_AUTO_OVERRIDE = push_bit 62 1"
definition ECS_TOGGLE :: u64 where "ECS_TOGGLE = push_bit 61 1"
definition ECS_VALUE_PAIR :: u64 where "ECS_VALUE_PAIR = push_bit 60 1 OR push_bit 63 1"

definition FLECS_HI_COMPONENT_ID :: u64 where "FLECS_HI_COMPONENT_ID = 256"
definition EcsFlag :: u64 where "EcsFlag = FLECS_HI_COMPONENT_ID + 13"
definition EcsWildcard :: u64 where "EcsWildcard = FLECS_HI_COMPONENT_ID + 14"
definition EcsAny :: u64 where "EcsAny = FLECS_HI_COMPONENT_ID + 15"

definition ECS_ID_FLAGS_MASK :: u64 where "ECS_ID_FLAGS_MASK = push_bit 60 0xFF"
definition ECS_GENERATION_MASK :: u64 where "ECS_GENERATION_MASK = push_bit 32 0xFFFF"
definition ECS_COMPONENT_MASK :: u64 where "ECS_COMPONENT_MASK = NOT ECS_ID_FLAGS_MASK"

definition ECS_GENERATION :: "u64 \<Rightarrow> u64" where
  "ECS_GENERATION e = drop_bit 32 (e AND ECS_GENERATION_MASK)"

definition ECS_GENERATION_INC :: "u64 \<Rightarrow> u64" where
  "ECS_GENERATION_INC e =
     (e AND NOT ECS_GENERATION_MASK) OR push_bit 32 (0xFFFF AND (ECS_GENERATION e + 1))"

definition ECS_HAS_ID_FLAG :: "u64 \<Rightarrow> u64 \<Rightarrow> bool" where
  "ECS_HAS_ID_FLAG e flag \<longleftrightarrow> e AND flag \<noteq> 0"

definition ECS_IS_VALUE_PAIR :: "u64 \<Rightarrow> bool" where
  "ECS_IS_VALUE_PAIR cid \<longleftrightarrow> cid AND ECS_ID_FLAGS_MASK = ECS_VALUE_PAIR"

definition ECS_IS_PAIR :: "u64 \<Rightarrow> bool" where
  "ECS_IS_PAIR cid \<longleftrightarrow> cid AND ECS_ID_FLAGS_MASK = ECS_PAIR \<or> ECS_IS_VALUE_PAIR cid"

definition ecs_entity_t_lo :: "u64 \<Rightarrow> u32" where
  "ecs_entity_t_lo v = lo32 v"

definition ecs_entity_t_hi :: "u64 \<Rightarrow> u32" where
  "ecs_entity_t_hi v = lo32 (drop_bit 32 v)"

definition ecs_entity_t_comb :: "u64 \<Rightarrow> u64 \<Rightarrow> u64" where
  "ecs_entity_t_comb lo hi = push_bit 32 hi + to64 (lo32 lo)"

text \<open>The two element accessors, widened to \<open>ecs_entity_t\<close> as every use of them does.\<close>

definition ECS_PAIR_FIRST :: "u64 \<Rightarrow> u64" where
  "ECS_PAIR_FIRST e = to64 (ecs_entity_t_hi (e AND ECS_COMPONENT_MASK))"

definition ECS_PAIR_SECOND :: "u64 \<Rightarrow> u64" where
  "ECS_PAIR_SECOND e = to64 (ecs_entity_t_lo e)"

definition ecs_pair :: "u64 \<Rightarrow> u64 \<Rightarrow> u64" where
  "ecs_pair rel tgt = ECS_PAIR OR ecs_entity_t_comb tgt rel"

definition ecs_value_pair :: "u64 \<Rightarrow> u64 \<Rightarrow> u64" where
  "ecs_value_pair rel val = ECS_VALUE_PAIR OR ecs_entity_t_comb val rel"

lemmas id_const_defs =
  ECS_PAIR_def ECS_AUTO_OVERRIDE_def ECS_TOGGLE_def ECS_VALUE_PAIR_def
  FLECS_HI_COMPONENT_ID_def EcsFlag_def EcsWildcard_def EcsAny_def
  ECS_ID_FLAGS_MASK_def ECS_GENERATION_MASK_def ECS_COMPONENT_MASK_def

lemmas id_macro_defs =
  ECS_GENERATION_def ECS_GENERATION_INC_def ECS_HAS_ID_FLAG_def ECS_IS_VALUE_PAIR_def
  ECS_IS_PAIR_def ecs_entity_t_lo_def ecs_entity_t_hi_def ecs_entity_t_comb_def
  ECS_PAIR_FIRST_def ECS_PAIR_SECOND_def ecs_pair_def ecs_value_pair_def

section \<open>Operations of \<open>id.c\<close>\<close>

definition ecs_id_match :: "u64 \<Rightarrow> u64 \<Rightarrow> bool res" where
  "ecs_id_match cid pattern =
     (if cid = pattern then Inr True
      else if ECS_HAS_ID_FLAG pattern ECS_PAIR then
        (if \<not> ECS_HAS_ID_FLAG cid ECS_PAIR then Inr False
         else
           let id_first = ECS_PAIR_FIRST cid; id_second = ECS_PAIR_SECOND cid;
               pattern_first = ECS_PAIR_FIRST pattern; pattern_second = ECS_PAIR_SECOND pattern
           in
           bindr (ecs_assert (id_first \<noteq> 0) ECS_INVALID_PARAMETER) (\<lambda>_.
           bindr (ecs_assert (ECS_IS_VALUE_PAIR cid \<or> id_second \<noteq> 0) ECS_INVALID_PARAMETER) (\<lambda>_.
           bindr (ecs_assert (pattern_first \<noteq> 0) ECS_INVALID_PARAMETER) (\<lambda>_.
           bindr (ecs_assert (ECS_IS_VALUE_PAIR pattern \<or> pattern_second \<noteq> 0)
                    ECS_INVALID_PARAMETER) (\<lambda>_.
           if ECS_IS_VALUE_PAIR pattern \<and> \<not> ECS_IS_VALUE_PAIR cid then Inr False
           else
             let pattern_first_wildcard =
                   (if ECS_IS_VALUE_PAIR pattern then False else pattern_first = EcsWildcard);
                 pattern_second_wc =
                   (if ECS_IS_VALUE_PAIR pattern then False else pattern_second = EcsWildcard)
             in
             Inr (if pattern_first_wildcard then pattern_second_wc \<or> pattern_second = id_second
                  else if pattern_first = EcsFlag then
                    ECS_HAS_ID_FLAG cid ECS_PAIR \<and> \<not> ECS_IS_PAIR cid \<and>
                      (ECS_PAIR_FIRST cid = pattern_second \<or> ECS_PAIR_SECOND cid = pattern_second)
                  else pattern_second = EcsWildcard \<and> pattern_first = id_first))))))
      else if cid AND ECS_ID_FLAGS_MASK \<noteq> pattern AND ECS_ID_FLAGS_MASK then Inr False
      else Inr (ECS_COMPONENT_MASK AND pattern = EcsWildcard))"

definition ecs_id_is_pair :: "u64 \<Rightarrow> bool" where
  "ecs_id_is_pair cid \<longleftrightarrow> ECS_HAS_ID_FLAG cid ECS_PAIR"

definition ecs_id_is_wildcard :: "u64 \<Rightarrow> bool" where
  "ecs_id_is_wildcard cid =
     (if cid = EcsWildcard \<or> cid = EcsAny then True
      else if \<not> ECS_IS_PAIR cid then False
      else
        let first = ECS_PAIR_FIRST cid in
        if ECS_IS_VALUE_PAIR cid then first = EcsWildcard \<or> first = EcsAny
        else
          let second = ECS_PAIR_SECOND cid in
          first = EcsWildcard \<or> second = EcsWildcard \<or> first = EcsAny \<or> second = EcsAny)"

definition ecs_id_is_any :: "u64 \<Rightarrow> bool" where
  "ecs_id_is_any cid =
     (if cid = EcsAny then True
      else if \<not> ECS_IS_PAIR cid then False
      else ECS_PAIR_FIRST cid = EcsAny \<or> ECS_PAIR_SECOND cid = EcsAny)"

text \<open>
  The reason why an id cannot be added, \<open>None\<close> for a valid id.  The test \<open>ecs_is_valid\<close>
  reads the world and is an argument.
\<close>

definition flecs_id_invalid_reason :: "(u64 \<Rightarrow> bool) \<Rightarrow> u64 \<Rightarrow> string option res" where
  "flecs_id_invalid_reason ecs_is_valid cid =
     (if cid = 0 then Inr (Some ''components cannot be 0 (is the component registered?)'')
      else if ecs_id_is_wildcard cid then Inr (Some ''cannot add wildcards'')
      else if ECS_IS_VALUE_PAIR cid then
        (if ECS_PAIR_FIRST cid = 0
         then Inr (Some ''invalid value pair: first element is 0 (is the relationship registered?)'')
         else Inr None)
      else if ECS_HAS_ID_FLAG cid ECS_PAIR then
        (if ECS_PAIR_FIRST cid = 0 \<and> ECS_PAIR_SECOND cid = 0
         then Inr (Some ''invalid pair: both elements are 0'')
         else if ECS_PAIR_FIRST cid = 0
         then Inr (Some ''invalid pair: first element is 0 (is the relationship registered?)'')
         else if ECS_PAIR_SECOND cid = 0
         then Inr (Some ''invalid pair: second element is 0'')
         else Inr None)
      else if cid AND ECS_ID_FLAGS_MASK \<noteq> 0 then
        (if \<not> ecs_is_valid (cid AND ECS_COMPONENT_MASK) then Inl (Abort ECS_INTERNAL_ERROR)
         else Inr None)
      else Inr None)"

definition ecs_id_is_valid :: "(u64 \<Rightarrow> bool) \<Rightarrow> u64 \<Rightarrow> bool res" where
  "ecs_id_is_valid ecs_is_valid cid =
     bindr (flecs_id_invalid_reason ecs_is_valid cid) (\<lambda>r. Inr (r = None))"

definition ecs_id_flag_str :: "u64 \<Rightarrow> string" where
  "ecs_id_flag_str entity =
     (if ECS_IS_VALUE_PAIR entity then ''VALUE_PAIR''
      else if ECS_HAS_ID_FLAG entity ECS_PAIR then ''PAIR''
      else if ECS_HAS_ID_FLAG entity ECS_TOGGLE then ''TOGGLE''
      else if ECS_HAS_ID_FLAG entity ECS_AUTO_OVERRIDE then ''AUTO_OVERRIDE''
      else ''UNKNOWN'')"

definition ecs_make_pair :: "u64 \<Rightarrow> u64 \<Rightarrow> u64 res" where
  "ecs_make_pair relationship target =
     bindr (ecs_assert (\<not> ECS_IS_PAIR relationship \<and> \<not> ECS_IS_PAIR target)
              ECS_INVALID_PARAMETER) (\<lambda>_.
     Inr (ecs_pair relationship target))"

section \<open>Bits of the layout\<close>

lemma bit_ones_16: "bit (0xFFFF :: u64) n \<longleftrightarrow> n < 16"
proof -
  have "(0xFFFF :: u64) = mask 16" by (simp add: mask_eq_exp_minus_1)
  then have "bit (0xFFFF :: u64) n \<longleftrightarrow> bit (mask 16 :: u64) n" by (simp only:)
  also have "\<dots> \<longleftrightarrow> n < 16" by (simp only: bit_mask_iff) auto
  finally show ?thesis .
qed

lemma bit_ones_8: "bit (0xFF :: u64) n \<longleftrightarrow> n < 8"
proof -
  have "(0xFF :: u64) = mask 8" by (simp add: mask_eq_exp_minus_1)
  then have "bit (0xFF :: u64) n \<longleftrightarrow> bit (mask 8 :: u64) n" by (simp only:)
  also have "\<dots> \<longleftrightarrow> n < 8" by (simp only: bit_mask_iff) auto
  finally show ?thesis .
qed

lemma bit_ECS_GENERATION_MASK: "bit ECS_GENERATION_MASK n \<longleftrightarrow> 32 \<le> n \<and> n < 48"
  unfolding ECS_GENERATION_MASK_def bit_push_bit_iff bit_ones_16 by auto

lemma bit_ECS_ID_FLAGS_MASK: "bit ECS_ID_FLAGS_MASK n \<longleftrightarrow> 60 \<le> n \<and> n < 64"
  unfolding ECS_ID_FLAGS_MASK_def bit_push_bit_iff bit_ones_8 by auto

lemma bit_ECS_COMPONENT_MASK: "bit ECS_COMPONENT_MASK n \<longleftrightarrow> n < 60"
  unfolding ECS_COMPONENT_MASK_def by (auto simp: bit_ECS_ID_FLAGS_MASK bit_not_iff)

lemma bit_ECS_PAIR: "bit ECS_PAIR n \<longleftrightarrow> n = 63"
  unfolding ECS_PAIR_def bit_push_bit_iff bit_1_iff by auto

lemma bit_ECS_VALUE_PAIR: "bit ECS_VALUE_PAIR n \<longleftrightarrow> n = 63 \<or> n = 60"
  unfolding ECS_VALUE_PAIR_def bit_push_bit_iff bit_1_iff bit_or_iff by auto

lemmas id_bits =
  bit_ECS_GENERATION_MASK bit_ECS_ID_FLAGS_MASK bit_ECS_COMPONENT_MASK bit_ECS_PAIR
  bit_ECS_VALUE_PAIR bit_ones_16 bit_ones_8 bit_and_iff bit_or_iff bit_not_iff
  bit_push_bit_iff bit_drop_bit_eq bit_ucast_iff

section \<open>The generation counter\<close>

lemma bit_ECS_GENERATION: "bit (ECS_GENERATION e) n \<longleftrightarrow> n < 16 \<and> bit e (n + 32)"
  unfolding ECS_GENERATION_def by (auto simp: id_bits add.commute)

lemma and_ones_16: "(0xFFFF :: u64) AND x = take_bit 16 x"
  by (rule bit_word_eqI) (auto simp: id_bits bit_take_bit_iff)

lemma unat_and_ones_16: "unat (0xFFFF AND x :: u64) = unat x mod 65536"
  unfolding and_ones_16 by (simp add: unsigned_take_bit_eq) (simp add: take_bit_eq_mod)

lemma unat_ECS_GENERATION_less: "unat (ECS_GENERATION e) < 65536"
proof -
  have "0xFFFF AND ECS_GENERATION e = ECS_GENERATION e"
    by (rule bit_word_eqI) (auto simp: id_bits bit_ECS_GENERATION)
  then have "unat (ECS_GENERATION e) = unat (ECS_GENERATION e) mod 65536"
    by (metis unat_and_ones_16)
  then show ?thesis by (metis mod_less_divisor zero_less_numeral)
qed

lemma bit_ECS_GENERATION_INC:
  "bit (ECS_GENERATION_INC e) n \<longleftrightarrow>
     (if 32 \<le> n \<and> n < 48 then bit (ECS_GENERATION e + 1) (n - 32) else n < 64 \<and> bit e n)"
  unfolding ECS_GENERATION_INC_def and_ones_16
  by (auto simp: id_bits bit_take_bit_iff dest: bit_imp_le_length)

lemma lo32_ECS_GENERATION_INC [simp]: "lo32 (ECS_GENERATION_INC e) = lo32 e"
  by (auto simp: lo32_eq_iff bit_ECS_GENERATION_INC)

lemma unat_ECS_GENERATION_INC:
  "unat (ECS_GENERATION (ECS_GENERATION_INC e)) = (unat (ECS_GENERATION e) + 1) mod 65536"
proof -
  have "ECS_GENERATION (ECS_GENERATION_INC e) = 0xFFFF AND (ECS_GENERATION e + 1)"
    by (rule bit_word_eqI) (auto simp: bit_ECS_GENERATION bit_ECS_GENERATION_INC id_bits)
  moreover have "unat (ECS_GENERATION e + 1) = unat (ECS_GENERATION e) + 1"
    using unat_ECS_GENERATION_less [of e] by (simp add: unat_word_ariths)
  ultimately show ?thesis by (simp add: unat_and_ones_16)
qed

lemma ECS_GENERATION_INC_frame:
  "ECS_GENERATION_INC e AND NOT ECS_GENERATION_MASK = e AND NOT ECS_GENERATION_MASK"
  by (rule bit_word_eqI) (auto simp: bit_ECS_GENERATION_INC id_bits)

lemma id_eqI_generation:
  assumes "ECS_GENERATION x = ECS_GENERATION y"
    and "x AND NOT ECS_GENERATION_MASK = y AND NOT ECS_GENERATION_MASK"
  shows "x = y"
proof (rule bit_word_eqI)
  fix n :: nat assume n: "n < LENGTH(64)"
  show "bit x n = bit y n"
  proof (cases "32 \<le> n \<and> n < 48")
    case True
    then show ?thesis
      using arg_cong [where f = "\<lambda>w. bit w (n - 32)", OF assms(1)]
      by (simp add: bit_ECS_GENERATION less_diff_conv2)
  next
    case False
    then show ?thesis
      using arg_cong [where f = "\<lambda>w. bit w n", OF assms(2)] n by (auto simp: id_bits)
  qed
qed

lemma funpow_ECS_GENERATION_INC:
  "unat (ECS_GENERATION ((ECS_GENERATION_INC ^^ k) e)) = (unat (ECS_GENERATION e) + k) mod 65536"
  "(ECS_GENERATION_INC ^^ k) e AND NOT ECS_GENERATION_MASK = e AND NOT ECS_GENERATION_MASK"
  "lo32 ((ECS_GENERATION_INC ^^ k) e) = lo32 e"
proof (induction k)
  case 0
  { case 1 show ?case using unat_ECS_GENERATION_less by simp
  next
    case 2 show ?case by simp
  next
    case 3 show ?case by simp }
next
  case (Suc k)
  { case 1 show ?case using Suc by (simp add: unat_ECS_GENERATION_INC mod_Suc_eq)
  next
    case 2 show ?case using Suc by (simp add: ECS_GENERATION_INC_frame)
  next
    case 3 show ?case using Suc by simp }
qed

lemma generation_period: "(ECS_GENERATION_INC ^^ k) e = e \<longleftrightarrow> 65536 dvd k"
proof
  assume "(ECS_GENERATION_INC ^^ k) e = e"
  then have "(unat (ECS_GENERATION e) + k) mod 65536 = unat (ECS_GENERATION e) mod 65536"
    using funpow_ECS_GENERATION_INC(1) [of k e] unat_ECS_GENERATION_less [of e] by simp
  then show "65536 dvd k"
    by (metis add_diff_cancel_left' le_add1 mod_eq_dvd_iff_nat)
next
  assume "65536 dvd k"
  then have "unat (ECS_GENERATION ((ECS_GENERATION_INC ^^ k) e)) = unat (ECS_GENERATION e)"
    using unat_ECS_GENERATION_less [of e]
    by (auto simp only: funpow_ECS_GENERATION_INC mod_mult_self2 mod_less elim!: dvdE)
  then have "ECS_GENERATION ((ECS_GENERATION_INC ^^ k) e) = ECS_GENERATION e"
    by (simp only: word_unat_eq_iff)
  then show "(ECS_GENERATION_INC ^^ k) e = e"
    using funpow_ECS_GENERATION_INC(2) by (rule id_eqI_generation)
qed

lemma ECS_GENERATION_INC_neq [simp]: "ECS_GENERATION_INC e \<noteq> e"
  using generation_period [of 1 e] by simp

section \<open>Pairs\<close>

lemma bit_ecs_entity_t_comb:
  "bit (ecs_entity_t_comb lo hi) n \<longleftrightarrow>
     (if n < 32 then bit lo n else n < 64 \<and> bit hi (n - 32))"
proof -
  have "push_bit 32 hi AND to64 (lo32 lo) = 0"
    by (rule bit_word_eqI) (auto simp: id_bits)
  then have "ecs_entity_t_comb lo hi = push_bit 32 hi OR to64 (lo32 lo)"
    unfolding ecs_entity_t_comb_def by (rule disjunctive_add_eq_or)
  then show ?thesis by (auto simp: id_bits)
qed

lemma ECS_PAIR_SECOND_ecs_pair: "ECS_PAIR_SECOND (ecs_pair rel tgt) = to64 (lo32 tgt)"
  unfolding ECS_PAIR_SECOND_def ecs_pair_def ecs_entity_t_lo_def
  by (rule bit_word_eqI) (auto simp: id_bits bit_ecs_entity_t_comb)

lemma ECS_PAIR_FIRST_ecs_pair:
  "ECS_PAIR_FIRST (ecs_pair rel tgt) = take_bit 28 rel"
  unfolding ECS_PAIR_FIRST_def ecs_pair_def ecs_entity_t_hi_def
  by (rule bit_word_eqI) (auto simp: id_bits bit_ecs_entity_t_comb bit_take_bit_iff)

lemma take_bit_28_id: "rel < 0x10000000 \<Longrightarrow> take_bit 28 rel = (rel :: u64)"
  by (simp add: word_less_nat_alt take_bit_nat_eq_self_iff unsigned_take_bit_eq word_unat_eq_iff)

lemma less_28_bit: "rel < 0x10000000 \<Longrightarrow> 28 \<le> n \<Longrightarrow> \<not> bit (rel :: u64) n"
  by (metis bit_take_bit_iff linorder_not_le take_bit_28_id)

lemma ECS_IS_PAIR_ecs_pair: "rel < 0x10000000 \<Longrightarrow> ECS_IS_PAIR (ecs_pair rel tgt)"
proof -
  assume "rel < 0x10000000"
  then have "ecs_pair rel tgt AND ECS_ID_FLAGS_MASK = ECS_PAIR"
    unfolding ecs_pair_def
    by (intro bit_word_eqI) (auto simp: id_bits bit_ecs_entity_t_comb less_28_bit)
  then show ?thesis by (simp add: ECS_IS_PAIR_def)
qed

lemma to64_lo32_less: "(x :: u64) < 0x100000000 \<Longrightarrow> to64 (lo32 x) = x"
proof -
  assume "x < 0x100000000"
  then have "take_bit 32 x = x"
    by (simp add: word_less_nat_alt take_bit_nat_eq_self_iff unsigned_take_bit_eq word_unat_eq_iff)
  moreover have "to64 (lo32 x) = take_bit 32 x"
    by (rule bit_word_eqI) (auto simp: id_bits bit_take_bit_iff)
  ultimately show ?thesis by simp
qed

lemma less_32_bit: "(x :: u64) < 0x100000000 \<Longrightarrow> 32 \<le> n \<Longrightarrow> \<not> bit x n"
proof -
  assume "x < 0x100000000" and n: "32 \<le> n"
  then have "bit x n \<longleftrightarrow> bit (to64 (lo32 x)) n" by (simp add: to64_lo32_less)
  with n show ?thesis by (simp add: bit_ucast_iff)
qed

lemma ecs_pair_flags:
  assumes "rel < 0x10000000"
  shows "ecs_pair rel tgt AND ECS_ID_FLAGS_MASK = ECS_PAIR"
    and "\<not> ECS_IS_VALUE_PAIR (ecs_pair rel tgt)"
    and "ECS_HAS_ID_FLAG (ecs_pair rel tgt) ECS_PAIR"
proof -
  show *: "ecs_pair rel tgt AND ECS_ID_FLAGS_MASK = ECS_PAIR"
    using assms unfolding ecs_pair_def
    by (intro bit_word_eqI) (auto simp: id_bits bit_ecs_entity_t_comb less_28_bit)
  have "bit ECS_PAIR 60 \<noteq> bit ECS_VALUE_PAIR 60"
    by (simp add: id_bits)
  with * show "\<not> ECS_IS_VALUE_PAIR (ecs_pair rel tgt)"
    by (auto simp: ECS_IS_VALUE_PAIR_def)
  have "bit (ecs_pair rel tgt AND ECS_PAIR) 63"
    unfolding ecs_pair_def by (simp add: id_bits)
  then show "ECS_HAS_ID_FLAG (ecs_pair rel tgt) ECS_PAIR"
    by (auto simp: ECS_HAS_ID_FLAG_def)
qed

lemma ecs_pair_elements:
  assumes "rel < 0x10000000" and "tgt < 0x100000000"
  shows "ECS_PAIR_FIRST (ecs_pair rel tgt) = rel" and "ECS_PAIR_SECOND (ecs_pair rel tgt) = tgt"
  using assms
  by (simp_all add: ECS_PAIR_FIRST_ecs_pair ECS_PAIR_SECOND_ecs_pair take_bit_28_id to64_lo32_less)

lemma ecs_pair_eq_iff:
  assumes "r < 0x10000000" "t < 0x100000000" "r' < 0x10000000" "t' < 0x100000000"
  shows "ecs_pair r t = ecs_pair r' t' \<longleftrightarrow> r = r' \<and> t = t'"
  using assms by (metis ecs_pair_elements)

lemma id_match_pairs:
  assumes "0 < r" "r < 0x10000000" "0 < t" "t < 0x100000000"
    and "0 < pr" "pr < 0x10000000" "0 < pt" "pt < 0x100000000"
    and "pr \<noteq> EcsFlag"
  shows "ecs_id_match (ecs_pair r t) (ecs_pair pr pt) =
    Inr ((pr = EcsWildcard \<or> pr = r) \<and> (pt = EcsWildcard \<or> pt = t))"
  using assms
  by (auto simp: ecs_id_match_def Let_def ecs_pair_elements ecs_pair_flags ecs_pair_eq_iff)

text \<open>The numeric value of a pair: pairs sort by relationship first, then by target.\<close>

lemma unat_ecs_pair:
  assumes "r < 0x10000000" and "t < 0x100000000"
  shows "unat (ecs_pair r t) = 2 ^ 63 + unat r * 2 ^ 32 + unat t"
proof -
  have "ECS_PAIR AND ecs_entity_t_comb t r = 0"
    using assms by (intro bit_word_eqI) (auto simp: id_bits bit_ecs_entity_t_comb less_28_bit)
  then have "ecs_pair r t = ECS_PAIR + (push_bit 32 r + t)"
    using assms
    by (simp add: ecs_pair_def disjunctive_add_eq_or ecs_entity_t_comb_def to64_lo32_less
        flip: disjunctive_add_eq_or)
  moreover have "unat ECS_PAIR = 2 ^ 63" by (simp add: ECS_PAIR_def)
  moreover have "unat (push_bit 32 r) = unat r * 2 ^ 32"
    using assms(1) by (simp add: push_bit_eq_mult unat_word_ariths word_less_nat_alt)
  ultimately show ?thesis
    using assms by (simp add: unat_word_ariths word_less_nat_alt)
qed

lemma has_pair_flag_iff: "ECS_HAS_ID_FLAG c ECS_PAIR \<longleftrightarrow> 2 ^ 63 \<le> unat c"
proof -
  have "ECS_HAS_ID_FLAG c ECS_PAIR \<longleftrightarrow> bit c 63"
  proof
    assume "ECS_HAS_ID_FLAG c ECS_PAIR"
    then obtain n where "bit (c AND ECS_PAIR) n"
      unfolding ECS_HAS_ID_FLAG_def by (auto simp: bit_eq_iff)
    then show "bit c 63" by (auto simp: id_bits)
  next
    assume "bit c 63"
    then have "bit (c AND ECS_PAIR) 63" by (simp add: id_bits)
    then show "ECS_HAS_ID_FLAG c ECS_PAIR" by (auto simp: ECS_HAS_ID_FLAG_def)
  qed
  also have "\<dots> \<longleftrightarrow> bit (unat c) 63" by (simp add: bit_unsigned_iff)
  also have "\<dots> \<longleftrightarrow> 2 ^ 63 \<le> unat c"
  proof -
    have "unat c < 2 ^ 64" using unsigned_less [of c] by simp
    then have "unat c div 2 ^ 63 = (if 2 ^ 63 \<le> unat c then 1 else 0)"
      by (auto intro!: div_nat_eqI)
    then show ?thesis by (simp add: bit_iff_odd)
  qed
  finally show ?thesis .
qed

section \<open>Properties\<close>

text \<open>
  Removing and recycling an entity id \<open>k\<close> times gives back the same 64-bit handle exactly
  when \<open>k\<close> is a multiple of \<open>2 ^ 16\<close>: a stale handle is told apart from the recycled ones
  for 65535 generations, and the entity index part of the handle never changes.
\<close>

theorem generation_inc_period:
  "((ECS_GENERATION_INC ^^ k) e = e \<longleftrightarrow> 65536 dvd k) \<and>
   lo32 ((ECS_GENERATION_INC ^^ k) e) = lo32 e"
  by (simp only: generation_period funpow_ECS_GENERATION_INC(3))

text \<open>
  A pair made from a relationship below \<open>2 ^ 28\<close> and a target below \<open>2 ^ 32\<close> reads back
  both elements, is recognised as a pair and not as a value pair.
\<close>

theorem ecs_make_pair_roundtrip:
  assumes "rel < 0x10000000" and "tgt < 0x100000000"
  shows "\<exists>p. ecs_make_pair rel tgt = Inr p \<and> ECS_PAIR_FIRST p = rel \<and> ECS_PAIR_SECOND p = tgt \<and>
    ECS_IS_PAIR p \<and> \<not> ECS_IS_VALUE_PAIR p"
proof -
  have not_pair: "\<not> ECS_IS_PAIR x" if "x < 0x100000000" for x :: u64
  proof -
    have "\<not> bit x 63" using less_32_bit [OF that, of 63] by simp
    then have "\<not> bit (x AND ECS_ID_FLAGS_MASK) 63" by (simp add: id_bits)
    then show ?thesis
      by (auto simp: ECS_IS_PAIR_def ECS_IS_VALUE_PAIR_def bit_ECS_PAIR bit_ECS_VALUE_PAIR)
  qed
  have "rel < 0x100000000" using assms(1) by (rule order_less_trans) simp
  with assms not_pair show ?thesis
    by (simp add: ecs_make_pair_def ecs_pair_elements ECS_IS_PAIR_ecs_pair ecs_pair_flags)
qed

theorem ecs_make_pair_roundtrip_witness:
  "\<exists>p. ecs_make_pair 300 400 = Inr p \<and> ECS_PAIR_FIRST p = 300 \<and> ECS_PAIR_SECOND p = 400 \<and>
    ECS_IS_PAIR p \<and> \<not> ECS_IS_VALUE_PAIR p"
  by (rule ecs_make_pair_roundtrip) simp_all

text \<open>
  For pairs, \<open>ecs_id_match\<close> is the componentwise match against a pattern whose elements
  may be the wildcard: it raises no error and answers whether each element of the pattern is
  the wildcard or the element of the id.
\<close>

theorem ecs_id_match_pairs:
  assumes "0 < r" "r < 0x10000000" "0 < t" "t < 0x100000000"
    and "0 < pr" "pr < 0x10000000" "0 < pt" "pt < 0x100000000"
    and "pr \<noteq> EcsFlag"
  shows "ecs_id_match (ecs_pair r t) (ecs_pair pr pt) =
    Inr ((pr = EcsWildcard \<or> pr = r) \<and> (pt = EcsWildcard \<or> pt = t))"
  using assms by (rule id_match_pairs)

theorem ecs_id_match_pairs_witness:
  "ecs_id_match (ecs_pair 300 400) (ecs_pair 300 EcsWildcard) = Inr True \<and>
   ecs_id_match (ecs_pair 300 400) (ecs_pair 301 EcsWildcard) = Inr False"
  using ecs_id_match_pairs [of 300 400 300 EcsWildcard] ecs_id_match_pairs [of 300 400 301 EcsWildcard]
  by (simp add: EcsFlag_def EcsWildcard_def FLECS_HI_COMPONENT_ID_def)

end
