(* ===== verification/Misc.thy ===== *)
theory Misc
  imports Prelude
begin

text \<open>
  Utilities of \<open>src/misc.c\<close> that the data structures rely on.  \<open>flecs_next_pow_of_2\<close> is the
  bit-smearing loop on a signed 32-bit integer; the lemmas show that for arguments from 1 to
  \<open>2 ^ 30\<close> it is the least power of two that is not smaller than the argument, and that it is
  0 for 0, which the growth policy of the vectors and the maps depends on.
\<close>

section \<open>Rounding up to a power of two\<close>

type_synonym i32 = "32 word"

definition flecs_next_pow_of_2 :: "i32 \<Rightarrow> i32" where
  "flecs_next_pow_of_2 n =
     (let n = n - 1;
          n = n OR signed_drop_bit 1 n;
          n = n OR signed_drop_bit 2 n;
          n = n OR signed_drop_bit 4 n;
          n = n OR signed_drop_bit 8 n;
          n = n OR signed_drop_bit 16 n
      in n + 1)"

lemma bit_smear_step:
  fixes w w' :: i32
  assumes "\<not> bit w 31" and "0 < d" and "d < 32"
    and w': "\<And>i. bit w' i \<longleftrightarrow> (\<exists>j < d. bit w (i + j))"
  shows "bit (w' OR signed_drop_bit d w') i \<longleftrightarrow> (\<exists>j < 2 * d. bit w (i + j))"
proof -
  have "k < 31" if "bit w k" for k
  proof -
    from that have "k < 32" by (auto dest: bit_imp_le_length)
    moreover from that assms(1) have "k \<noteq> 31" by metis
    ultimately show ?thesis by simp
  qed
  note bnd = this
  have hi: "\<not> bit w' k" if "31 \<le> k" for k
    using that bnd by (auto simp: w' dest!: bnd)
  have "bit (signed_drop_bit d w') i \<longleftrightarrow> bit w' (d + i)"
  proof (cases "32 - d \<le> i")
    case True
    with assms(2,3) have "31 \<le> d + i" by simp
    with hi [of 31] hi [of "d + i"] show ?thesis by (auto simp: bit_signed_drop_bit_iff)
  next
    case False
    then show ?thesis by (auto simp: bit_signed_drop_bit_iff)
  qed
  then have "bit (w' OR signed_drop_bit d w') i \<longleftrightarrow>
      (\<exists>j < d. bit w (i + j)) \<or> (\<exists>j < d. bit w (i + (d + j)))"
    by (simp add: bit_or_iff w' ac_simps)
  also have "\<dots> \<longleftrightarrow> (\<exists>j < 2 * d. bit w (i + j))"
  proof
    assume "\<exists>j < 2 * d. bit w (i + j)"
    then obtain j where "j < 2 * d" "bit w (i + j)" by blast
    moreover have "j - d < d" and "d + (j - d) = j" if "\<not> j < d"
      using that \<open>j < 2 * d\<close> by auto
    ultimately show "(\<exists>j < d. bit w (i + j)) \<or> (\<exists>j < d. bit w (i + (d + j)))"
      by metis
  next
    assume "(\<exists>j < d. bit w (i + j)) \<or> (\<exists>j < d. bit w (i + (d + j)))"
    then show "\<exists>j < 2 * d. bit w (i + j)"
    proof
      assume "\<exists>j < d. bit w (i + j)"
      then show ?thesis by (metis mult_2 trans_less_add1)
    next
      assume "\<exists>j < d. bit w (i + (d + j))"
      then show ?thesis by (metis mult_2 nat_add_left_cancel_less)
    qed
  qed
  finally show ?thesis .
qed

lemma flecs_next_pow_of_2_bits:
  assumes "\<not> bit (n - 1) 31"
  shows "\<exists>m. flecs_next_pow_of_2 n = m + 1 \<and> (\<forall>i. bit m i \<longleftrightarrow> (\<exists>j < 32. bit (n - 1) (i + j)))"
proof -
  let ?w = "n - 1"
  let ?w1 = "?w OR signed_drop_bit 1 ?w"
  let ?w2 = "?w1 OR signed_drop_bit 2 ?w1"
  let ?w4 = "?w2 OR signed_drop_bit 4 ?w2"
  let ?w8 = "?w4 OR signed_drop_bit 8 ?w4"
  let ?w16 = "?w8 OR signed_drop_bit 16 ?w8"
  have 0: "bit ?w i \<longleftrightarrow> (\<exists>j < 1. bit ?w (i + j))" for i by simp
  note step = bit_smear_step [OF assms]
  have 1: "bit ?w1 i \<longleftrightarrow> (\<exists>j < 2. bit ?w (i + j))" for i
    using step [OF _ _ 0, of i] by simp
  have 2: "bit ?w2 i \<longleftrightarrow> (\<exists>j < 4. bit ?w (i + j))" for i
    using step [OF _ _ 1, of i] by simp
  have 4: "bit ?w4 i \<longleftrightarrow> (\<exists>j < 8. bit ?w (i + j))" for i
    using step [OF _ _ 2, of i] by simp
  have 8: "bit ?w8 i \<longleftrightarrow> (\<exists>j < 16. bit ?w (i + j))" for i
    using step [OF _ _ 4, of i] by simp
  have 16: "bit ?w16 i \<longleftrightarrow> (\<exists>j < 32. bit ?w (i + j))" for i
    using step [OF _ _ 8, of i] by simp
  have "flecs_next_pow_of_2 n = ?w16 + 1"
    by (simp only: flecs_next_pow_of_2_def Let_def)
  with 16 show ?thesis by blast
qed

lemma bit_word_less_exp: "unat (w :: i32) < 2 ^ k \<Longrightarrow> k \<le> i \<Longrightarrow> \<not> bit w i"
proof -
  assume "unat w < 2 ^ k" and "k \<le> i"
  then have "unat w < 2 ^ i" by (meson less_le_trans one_le_numeral power_increasing)
  then have "\<not> bit (unat w) i" by (simp add: bit_iff_odd)
  then show ?thesis by (auto simp: bit_unsigned_iff dest: bit_imp_le_length)
qed

lemma bit_word_top:
  assumes "2 ^ k \<le> unat (w :: i32)" and "unat w < 2 ^ Suc k"
  shows "bit w k"
proof -
  have "unat w div 2 ^ k = 1"
    using assms by (intro div_nat_eqI) auto
  then have "bit (unat w) k" by (simp add: bit_iff_odd)
  then show ?thesis by (simp add: bit_unsigned_iff)
qed

text \<open>The least \<open>k\<close> such that a positive number is at most \<open>2 ^ k\<close>.\<close>

lemma least_exp:
  assumes "(m :: nat) < 2 ^ 30"
  obtains k where "k \<le> 30" and "m < 2 ^ k" and "k = 0 \<or> 2 ^ (k - 1) \<le> m"
proof -
  define k where "k = (LEAST k. m < 2 ^ k)"
  have "m < 2 ^ k" unfolding k_def by (rule LeastI [of _ 30]) (rule assms)
  moreover have "k \<le> 30" unfolding k_def by (rule Least_le) (rule assms)
  moreover have "k = 0 \<or> 2 ^ (k - 1) \<le> m"
  proof (cases k)
    case (Suc j)
    then have "\<not> m < 2 ^ j" unfolding k_def by (intro not_less_Least) simp
    with Suc show ?thesis by simp
  qed simp
  ultimately show ?thesis using that by blast
qed

lemma flecs_next_pow_of_2_exp:
  assumes "0 < unat n" and "unat n \<le> 2 ^ 30"
  shows "\<exists>k \<le> 30. unat (flecs_next_pow_of_2 n) = 2 ^ k \<and> unat n \<le> 2 ^ k \<and>
    (k = 0 \<or> 2 ^ (k - 1) < unat n)"
proof -
  have un: "unat (n - 1) = unat n - 1"
    using assms(1) by (metis One_nat_def Suc_le_eq unat_1 unat_sub word_le_nat_alt)
  with assms have "unat (n - 1) < 2 ^ 30" by simp
  then obtain k where k: "k \<le> 30" "unat (n - 1) < 2 ^ k" "k = 0 \<or> 2 ^ (k - 1) \<le> unat (n - 1)"
    by (rule least_exp)
  have "\<not> bit (n - 1) 31"
    using k(1,2) by (intro bit_word_less_exp [of _ k]) auto
  then obtain m where m: "flecs_next_pow_of_2 n = m + 1"
    "\<And>i. bit m i \<longleftrightarrow> (\<exists>j < 32. bit (n - 1) (i + j))"
    using flecs_next_pow_of_2_bits by blast
  have "m = mask k"
  proof (rule bit_word_eqI)
    fix i :: nat assume "i < LENGTH(32)"
    have "bit m i \<longleftrightarrow> i < k"
    proof
      assume "bit m i"
      then obtain j where "bit (n - 1) (i + j)" by (auto simp: m(2))
      with k(2) show "i < k" by (meson bit_word_less_exp le_add1 linorder_not_le order_trans)
    next
      assume i: "i < k"
      with k have "2 ^ (k - 1) \<le> unat (n - 1)" "unat (n - 1) < 2 ^ Suc (k - 1)" by auto
      then have "bit (n - 1) (k - 1)" by (rule bit_word_top)
      with i k(1) show "bit m i"
        unfolding m(2) by (intro exI [of _ "k - 1 - i"]) auto
    qed
    with k(1) show "bit m i = bit (mask k :: i32) i" by (auto simp: bit_mask_iff)
  qed
  then have "flecs_next_pow_of_2 n = 2 ^ k"
    using m(1) by (simp add: mask_eq_exp_minus_1)
  moreover have "unat (2 ^ k :: i32) = 2 ^ k"
  proof -
    have "(2 :: nat) ^ k < 2 ^ 32" using k(1) by (intro power_strict_increasing) auto
    then have "unat (word_of_nat (2 ^ k) :: i32) = 2 ^ k" by (rule unat_of_nat_32)
    then show ?thesis by simp
  qed
  ultimately show ?thesis
    using k assms(1) un by (intro exI [of _ k]) auto
qed

lemma next_pow_sint:
  assumes "0 < c" "c \<le> 2 ^ 30"
  shows "\<exists>k \<le> 30. sint (flecs_next_pow_of_2 (word_of_nat c)) = 2 ^ k \<and> c \<le> 2 ^ k \<and> (k = 0 \<or> 2 ^ (k - 1) < c)"
proof -
  have u: "unat (word_of_nat c :: i32) = c" using assms(2) by (intro unat_of_nat_32) simp
  obtain k where k: "k \<le> 30" "unat (flecs_next_pow_of_2 (word_of_nat c)) = 2 ^ k" "c \<le> 2 ^ k" "k = 0 \<or> 2 ^ (k - 1) < c"
    using flecs_next_pow_of_2_exp [of "word_of_nat c"] assms unfolding u by auto
  have "(2 :: nat) ^ k \<le> 2 ^ 30" using k(1) by (intro power_increasing) auto
  then have "sint (flecs_next_pow_of_2 (word_of_nat c)) = int (2 ^ k)"
    using sint_eq_unat_32 [of "flecs_next_pow_of_2 (word_of_nat c)"] k(2) by simp
  with k show ?thesis by auto
qed

lemma flecs_next_pow_of_2_0 [simp]: "flecs_next_pow_of_2 0 = 0"
  by (simp add: flecs_next_pow_of_2_def)

end
