(* ===== verification/Vec.thy ===== *)
theory Vec
  imports Misc
begin

text \<open>
  The growable array \<open>ecs_vec_t\<close> of \<open>src/datastructures/vec.c\<close>.

  A vector is its buffer, the number of elements in use and the number of elements allocated.
  A cell of the buffer is \<open>None\<close> while its content is indeterminate (memory fresh from the
  allocator); an empty buffer is the null pointer.  Element sizes in bytes and the choice of
  allocator do not appear: the cells are typed, and an allocation is taken to succeed.
  \<open>elem_count\<close> arguments are non-negative.  The growth policy goes through the signed 32-bit
  \<open>flecs_next_pow_of_2\<close>, so a vector behaves as a list only up to \<open>2 ^ 30\<close> elements, and the
  lemmas say so.

  The locale \<open>dyn_array\<close> at the end states what the clients (sparse set, entity index,
  hashmap buckets, ordered children) rely on; it is interpreted on the operations here.
\<close>

section \<open>State\<close>

record 'a ecs_vec_t =
  vec_array :: "'a option list"
  vec_count :: nat
  vec_size :: nat

text \<open>Reading and writing a cell through a pointer into the buffer.\<close>

definition vec_read :: "'a ecs_vec_t \<Rightarrow> nat \<Rightarrow> 'a res" where
  "vec_read v i =
     (if i < length (vec_array v)
      then (case vec_array v ! i of None \<Rightarrow> Inl Undefined | Some x \<Rightarrow> Inr x)
      else Inl Undefined)"

definition vec_write :: "'a ecs_vec_t \<Rightarrow> nat \<Rightarrow> 'a \<Rightarrow> 'a ecs_vec_t res" where
  "vec_write v i x =
     (if i < length (vec_array v) then Inr (v\<lparr>vec_array := (vec_array v)[i := Some x]\<rparr>)
      else Inl Undefined)"

section \<open>Operations\<close>

definition flecs_vec_alloc :: "nat \<Rightarrow> 'a option list" where
  "flecs_vec_alloc elem_count = (if elem_count \<noteq> 0 then replicate elem_count None else [])"

definition ecs_vec_init_w_dbg_info :: "nat \<Rightarrow> 'a ecs_vec_t" where
  "ecs_vec_init_w_dbg_info elem_count =
     \<lparr>vec_array = flecs_vec_alloc elem_count, vec_count = 0, vec_size = elem_count\<rparr>"

definition ecs_vec_init :: "nat \<Rightarrow> 'a ecs_vec_t" where
  "ecs_vec_init elem_count = ecs_vec_init_w_dbg_info elem_count"

definition ecs_vec_fini :: "'a ecs_vec_t \<Rightarrow> 'a ecs_vec_t" where
  "ecs_vec_fini v =
     (if vec_array v \<noteq> [] then \<lparr>vec_array = [], vec_count = 0, vec_size = 0\<rparr> else v)"

definition ecs_vec_clear :: "'a ecs_vec_t \<Rightarrow> 'a ecs_vec_t" where
  "ecs_vec_clear vec = vec\<lparr>vec_count := 0\<rparr>"

definition ecs_vec_reset :: "'a ecs_vec_t \<Rightarrow> 'a ecs_vec_t" where
  "ecs_vec_reset v = (if vec_size v = 0 then ecs_vec_init 0 else ecs_vec_clear v)"

definition ecs_vec_copy :: "'a ecs_vec_t \<Rightarrow> 'a ecs_vec_t" where
  "ecs_vec_copy v =
     \<lparr>vec_array = take (vec_size v) (vec_array v), vec_count = vec_count v, vec_size = vec_size v\<rparr>"

definition ecs_vec_copy_shrink :: "'a ecs_vec_t \<Rightarrow> 'a ecs_vec_t" where
  "ecs_vec_copy_shrink v =
     (let count = vec_count v;
          array = (if count \<noteq> 0 then take count (vec_array v) else [])
      in \<lparr>vec_array = array, vec_count = count, vec_size = count\<rparr>)"

definition ecs_vec_reclaim :: "'a ecs_vec_t \<Rightarrow> 'a ecs_vec_t" where
  "ecs_vec_reclaim v =
     (let count = vec_count v in
      if count < vec_size v then
        (if count \<noteq> 0 then v\<lparr>vec_array := take count (vec_array v), vec_size := count\<rparr>
         else ecs_vec_fini v)
      else v)"

definition vec_realloc :: "nat \<Rightarrow> 'a option list \<Rightarrow> 'a option list" where
  "vec_realloc n xs = take n xs @ replicate (n - length xs) None"

definition ecs_vec_set_size :: "'a ecs_vec_t \<Rightarrow> nat \<Rightarrow> 'a ecs_vec_t" where
  "ecs_vec_set_size v elem_count =
     (if vec_size v \<noteq> elem_count then
        let elem_count = (if elem_count < vec_count v then vec_count v else elem_count);
            pow = sint (flecs_next_pow_of_2 (word_of_nat elem_count));
            elem_count = (if pow < 2 then 2 else nat pow)
        in if elem_count \<noteq> vec_size v
           then v\<lparr>vec_array := vec_realloc elem_count (vec_array v), vec_size := elem_count\<rparr>
           else v
      else v)"

definition ecs_vec_set_min_size :: "'a ecs_vec_t \<Rightarrow> nat \<Rightarrow> 'a ecs_vec_t" where
  "ecs_vec_set_min_size vec elem_count =
     (if elem_count > vec_size vec then ecs_vec_set_size vec elem_count else vec)"

definition ecs_vec_set_min_count :: "'a ecs_vec_t \<Rightarrow> nat \<Rightarrow> 'a ecs_vec_t" where
  "ecs_vec_set_min_count vec elem_count =
     (let vec = ecs_vec_set_min_size vec elem_count in
      if vec_count vec < elem_count then vec\<lparr>vec_count := elem_count\<rparr> else vec)"

text \<open>\<open>zero\<close> is the value whose bytes are all 0.\<close>

definition ecs_vec_set_min_count_zeromem :: "'a \<Rightarrow> 'a ecs_vec_t \<Rightarrow> nat \<Rightarrow> 'a ecs_vec_t" where
  "ecs_vec_set_min_count_zeromem zero vec elem_count =
     (let count = vec_count vec in
      if count < elem_count then
        let vec = ecs_vec_set_min_count vec elem_count in
        vec\<lparr>vec_array := take count (vec_array vec) @ replicate (elem_count - count) (Some zero)
              @ drop elem_count (vec_array vec)\<rparr>
      else vec)"

definition ecs_vec_set_count :: "'a ecs_vec_t \<Rightarrow> nat \<Rightarrow> 'a ecs_vec_t" where
  "ecs_vec_set_count v elem_count =
     (if vec_count v \<noteq> elem_count then
        let v = (if vec_size v < elem_count then ecs_vec_set_size v elem_count else v)
        in v\<lparr>vec_count := elem_count\<rparr>
      else v)"

text \<open>
  The lifecycle hooks of a component type: \<open>None\<close> when \<open>ctor_move_dtor\<close> is null (a trivial
  type), otherwise the value that the constructor gives.  Destructor calls are recorded: the
  second component of the result lists the cells that were destructed, in order.
\<close>

definition ecs_vec_set_count_w_type_info ::
  "'a option \<Rightarrow> 'a ecs_vec_t \<Rightarrow> nat \<Rightarrow> 'a ecs_vec_t \<times> 'a option list" where
  "ecs_vec_set_count_w_type_info ti v elem_count =
     (if vec_count v = elem_count then (v, [])
      else case ti of
        None \<Rightarrow> (ecs_vec_set_count v elem_count, [])
      | Some ctor \<Rightarrow>
          if vec_size v > elem_count then
            let arr = (if elem_count > vec_count v
                       then take (vec_count v) (vec_array v)
                              @ replicate (elem_count - vec_count v) (Some ctor)
                              @ drop elem_count (vec_array v)
                       else vec_array v);
                dtor = (if elem_count < vec_count v
                        then take (vec_count v - elem_count) (drop elem_count (vec_array v))
                        else [])
            in (v\<lparr>vec_array := arr, vec_count := elem_count\<rparr>, dtor)
          else
            let pow = sint (flecs_next_pow_of_2 (word_of_nat elem_count));
                new_size = nat pow;
                array = flecs_vec_alloc new_size;
                move_count = (if elem_count > vec_count v then vec_count v else elem_count);
                array = take move_count (vec_array v) @ drop move_count array;
                dtor = (if move_count < vec_count v
                        then take (vec_count v - move_count) (drop move_count (vec_array v))
                        else []);
                array = (if move_count < elem_count
                         then take move_count array
                                @ replicate (elem_count - move_count) (Some ctor)
                                @ drop elem_count array
                         else array)
            in (\<lparr>vec_array = array, vec_count = elem_count, vec_size = new_size\<rparr>, dtor))"

definition ecs_vec_set_min_count_w_type_info ::
  "'a option \<Rightarrow> 'a ecs_vec_t \<Rightarrow> nat \<Rightarrow> 'a ecs_vec_t \<times> 'a option list" where
  "ecs_vec_set_min_count_w_type_info ti vec elem_count =
     (if vec_count vec < elem_count then ecs_vec_set_count_w_type_info ti vec elem_count
      else (vec, []))"

definition ecs_vec_grow :: "'a ecs_vec_t \<Rightarrow> nat \<Rightarrow> 'a ecs_vec_t \<times> nat" where
  "ecs_vec_grow v elem_count =
     (let count = vec_count v in (ecs_vec_set_count v (count + elem_count), count))"

text \<open>The appended cell is returned as its index.\<close>

definition ecs_vec_append :: "'a ecs_vec_t \<Rightarrow> 'a ecs_vec_t \<times> nat" where
  "ecs_vec_append v =
     (let count = vec_count v;
          v = (if vec_size v = count then ecs_vec_set_size v (count + 1) else v)
      in (v\<lparr>vec_count := count + 1\<rparr>, count))"

definition ecs_vec_remove :: "'a ecs_vec_t \<Rightarrow> nat \<Rightarrow> 'a ecs_vec_t res" where
  "ecs_vec_remove v index =
     bindr (ecs_assert (index < vec_count v) ECS_OUT_OF_RANGE) (\<lambda>_.
     let v = v\<lparr>vec_count := vec_count v - 1\<rparr> in
     if index = vec_count v then Inr v
     else
       bindr (defined_if (vec_count v < length (vec_array v))) (\<lambda>_.
       Inr (v\<lparr>vec_array := (vec_array v)[index := vec_array v ! vec_count v]\<rparr>)))"

definition ecs_vec_remove_last :: "'a ecs_vec_t \<Rightarrow> 'a ecs_vec_t res" where
  "ecs_vec_remove_last v =
     bindr (defined_if (0 < vec_count v)) (\<lambda>_. Inr (v\<lparr>vec_count := vec_count v - 1\<rparr>))"

definition ecs_vec_remove_ordered :: "'a ecs_vec_t \<Rightarrow> nat \<Rightarrow> 'a ecs_vec_t res" where
  "ecs_vec_remove_ordered v index =
     bindr (ecs_assert (index < vec_count v) ECS_OUT_OF_RANGE) (\<lambda>_.
     let new_count = vec_count v - 1; v = v\<lparr>vec_count := new_count\<rparr> in
     if index = new_count then Inr v
     else
       bindr (defined_if (new_count < length (vec_array v))) (\<lambda>_.
       Inr (v\<lparr>vec_array := take index (vec_array v)
                 @ take (new_count - index) (drop (index + 1) (vec_array v))
                 @ drop new_count (vec_array v)\<rparr>)))"

definition ecs_vec_count :: "'a ecs_vec_t \<Rightarrow> nat" where
  "ecs_vec_count v = vec_count v"

definition ecs_vec_size :: "'a ecs_vec_t \<Rightarrow> nat" where
  "ecs_vec_size v = vec_size v"

definition ecs_vec_get :: "'a ecs_vec_t \<Rightarrow> nat \<Rightarrow> 'a res" where
  "ecs_vec_get v index =
     bindr (ecs_assert (index < vec_count v) ECS_OUT_OF_RANGE) (\<lambda>_. vec_read v index)"

definition ecs_vec_last :: "'a ecs_vec_t \<Rightarrow> 'a res" where
  "ecs_vec_last v =
     bindr (defined_if (0 < vec_count v)) (\<lambda>_. vec_read v (vec_count v - 1))"

text \<open>\<open>ecs_vec_get_t(v, T, index)[0] = x\<close> and \<open>ecs_vec_append_t(a, v, T)[0] = x\<close>.\<close>

definition ecs_vec_put :: "'a ecs_vec_t \<Rightarrow> nat \<Rightarrow> 'a \<Rightarrow> 'a ecs_vec_t res" where
  "ecs_vec_put v index x =
     bindr (ecs_assert (index < vec_count v) ECS_OUT_OF_RANGE) (\<lambda>_. vec_write v index x)"

definition ecs_vec_push :: "'a ecs_vec_t \<Rightarrow> 'a \<Rightarrow> 'a ecs_vec_t res" where
  "ecs_vec_push v x = (case ecs_vec_append v of (v', i) \<Rightarrow> vec_write v' i x)"

section \<open>Well-formedness and the list that a vector stands for\<close>

definition vec_wf :: "'a ecs_vec_t \<Rightarrow> bool" where
  "vec_wf v \<longleftrightarrow> length (vec_array v) = vec_size v \<and> vec_count v \<le> vec_size v"

text \<open>Every element in use has been written.\<close>

definition vec_ok :: "'a ecs_vec_t \<Rightarrow> bool" where
  "vec_ok v \<longleftrightarrow> vec_wf v \<and> None \<notin> set (take (vec_count v) (vec_array v))"

definition vec_elems :: "'a ecs_vec_t \<Rightarrow> 'a list" where
  "vec_elems v = map the (take (vec_count v) (vec_array v))"

lemma vec_okD: "vec_ok v \<Longrightarrow> vec_wf v"
  by (simp add: vec_ok_def)

lemma vec_wf_bounds: "vec_wf v \<Longrightarrow> vec_count v \<le> length (vec_array v)"
  by (simp add: vec_wf_def)

lemma length_vec_elems [simp]: "vec_ok v \<Longrightarrow> length (vec_elems v) = vec_count v"
  by (simp add: vec_elems_def vec_ok_def vec_wf_def)

lemma vec_ok_cell:
  assumes "vec_ok v" and "i < vec_count v"
  shows "vec_array v ! i = Some (vec_elems v ! i)"
proof -
  have "i < length (take (vec_count v) (vec_array v))"
    using assms by (simp add: vec_ok_def vec_wf_def)
  then have "take (vec_count v) (vec_array v) ! i \<in> set (take (vec_count v) (vec_array v))"
    by (rule nth_mem)
  with assms show ?thesis
    by (auto simp: vec_elems_def vec_ok_def vec_wf_def in_set_conv_nth)
qed

lemma vec_okI:
  assumes "vec_wf v" and "\<And>i. i < vec_count v \<Longrightarrow> vec_array v ! i = Some (xs ! i)"
    and "length xs = vec_count v"
  shows "vec_ok v \<and> vec_elems v = xs"
proof -
  have "take (vec_count v) (vec_array v) = map Some xs"
    using assms by (intro nth_equalityI) (auto simp: vec_wf_def)
  then show ?thesis
    using assms(1) by (auto simp: vec_ok_def vec_elems_def)
qed

text \<open>Growing keeps the cells in use and makes room for the requested number of elements.\<close>

lemma vec_pow_bounds:
  assumes "c \<le> 2 ^ 30"
  defines "p \<equiv> sint (flecs_next_pow_of_2 (word_of_nat c))"
  shows "int c \<le> p" and "p \<le> 2 ^ 30"
proof -
  have "int c \<le> p \<and> p \<le> 2 ^ 30"
  proof (cases "c = 0")
    case True
    then show ?thesis by (simp add: p_def)
  next
    case False
    have u: "unat (word_of_nat c :: i32) = c"
      using assms(1) by (intro unat_of_nat_32) simp
    obtain k where k: "k \<le> 30" "unat (flecs_next_pow_of_2 (word_of_nat c)) = 2 ^ k" "c \<le> 2 ^ k"
      using flecs_next_pow_of_2_exp [of "word_of_nat c"] False assms(1) unfolding u by auto
    have "(2 :: nat) ^ k \<le> 2 ^ 30" using k(1) by (intro power_increasing) auto
    moreover from this have "p = int (2 ^ k)"
      unfolding p_def using sint_eq_unat_32 [of "flecs_next_pow_of_2 (word_of_nat c)"] k(2) by simp
    ultimately show ?thesis using k(3) by (simp flip: of_nat_power)
  qed
  then show "int c \<le> p" and "p \<le> 2 ^ 30" by simp_all
qed

section \<open>Capacity\<close>

lemma ecs_vec_set_size_wf:
  assumes "vec_wf v" and "n \<le> 2 ^ 30" and "vec_count v \<le> 2 ^ 30"
  shows "vec_wf (ecs_vec_set_size v n)"
    and "n \<le> vec_size (ecs_vec_set_size v n)"
    and "vec_count (ecs_vec_set_size v n) = vec_count v"
    and "i < vec_count v \<Longrightarrow> vec_array (ecs_vec_set_size v n) ! i = vec_array v ! i"
proof -
  define c where "c = (if n < vec_count v then vec_count v else n)"
  define p where "p = sint (flecs_next_pow_of_2 (word_of_nat c))"
  define m where "m = (if p < 2 then 2 else nat p)"
  have "c \<le> 2 ^ 30" using assms(2,3) by (simp add: c_def)
  from vec_pow_bounds [OF this] have "c \<le> m" by (auto simp: m_def p_def)
  moreover have "n \<le> c" "vec_count v \<le> c" by (auto simp: c_def)
  ultimately have b: "n \<le> m" "vec_count v \<le> m" by auto
  have eq: "ecs_vec_set_size v n =
      (if vec_size v \<noteq> n \<and> m \<noteq> vec_size v
       then v\<lparr>vec_array := vec_realloc m (vec_array v), vec_size := m\<rparr> else v)"
    by (simp add: ecs_vec_set_size_def Let_def c_def p_def m_def)
  show "vec_wf (ecs_vec_set_size v n)" "n \<le> vec_size (ecs_vec_set_size v n)"
    "vec_count (ecs_vec_set_size v n) = vec_count v"
    using assms(1) b by (auto simp: eq vec_wf_def vec_realloc_def)
  show "vec_array (ecs_vec_set_size v n) ! i = vec_array v ! i" if "i < vec_count v"
    using that assms(1) b by (auto simp: eq vec_wf_def vec_realloc_def nth_append)
qed

text \<open>Fitting the buffer to the elements in use.\<close>

lemma ecs_vec_reclaim_ok:
  assumes "vec_ok v"
  shows "vec_ok (ecs_vec_reclaim v) \<and> vec_elems (ecs_vec_reclaim v) = vec_elems v \<and>
    vec_size (ecs_vec_reclaim v) = vec_count v"
  using assms
  by (auto simp: ecs_vec_reclaim_def ecs_vec_fini_def Let_def vec_ok_def vec_wf_def vec_elems_def)

lemma ecs_vec_init_ok [simp]:
  "vec_ok (ecs_vec_init n)" "vec_elems (ecs_vec_init n) = []" "vec_count (ecs_vec_init n) = 0"
  by (simp_all add: ecs_vec_init_def ecs_vec_init_w_dbg_info_def flecs_vec_alloc_def vec_ok_def
      vec_wf_def vec_elems_def)

lemma ecs_vec_clear_ok [simp]:
  "vec_ok v \<Longrightarrow> vec_ok (ecs_vec_clear v)" "vec_elems (ecs_vec_clear v) = []"
  "vec_count (ecs_vec_clear v) = 0"
  by (simp_all add: ecs_vec_clear_def vec_ok_def vec_wf_def vec_elems_def)

lemma ecs_vec_copy_ok:
  assumes "vec_ok v"
  shows "vec_ok (ecs_vec_copy v)" "vec_elems (ecs_vec_copy v) = vec_elems v"
    "vec_ok (ecs_vec_copy_shrink v)" "vec_elems (ecs_vec_copy_shrink v) = vec_elems v"
  using assms
  by (auto simp: ecs_vec_copy_def ecs_vec_copy_shrink_def Let_def vec_ok_def vec_wf_def vec_elems_def)

section \<open>Elements\<close>

text \<open>The effect of the two element writes, as total functions.\<close>

definition vec_upd :: "'a ecs_vec_t \<Rightarrow> nat \<Rightarrow> 'a \<Rightarrow> 'a ecs_vec_t" where
  "vec_upd v i x = v\<lparr>vec_array := (vec_array v)[i := Some x]\<rparr>"

definition vec_snoc :: "'a ecs_vec_t \<Rightarrow> 'a \<Rightarrow> 'a ecs_vec_t" where
  "vec_snoc v x = (case ecs_vec_append v of (v', i) \<Rightarrow> vec_upd v' i x)"

lemma ecs_vec_get_ok [simp]:
  "vec_ok v \<Longrightarrow> i < vec_count v \<Longrightarrow> ecs_vec_get v i = Inr (vec_elems v ! i)"
  using vec_wf_bounds [OF vec_okD, of v] by (simp add: ecs_vec_get_def vec_read_def vec_ok_cell)

lemma vec_read_ok [simp]:
  "vec_ok v \<Longrightarrow> i < vec_count v \<Longrightarrow> vec_read v i = Inr (vec_elems v ! i)"
  using vec_wf_bounds [OF vec_okD, of v] by (simp add: vec_read_def vec_ok_cell)

lemma ecs_vec_get_out_of_range:
  "vec_count v \<le> i \<Longrightarrow> ecs_vec_get v i = Inl (Abort ECS_OUT_OF_RANGE)"
  by (simp add: ecs_vec_get_def)

lemma vec_write_ok [simp]:
  "vec_ok v \<Longrightarrow> i < vec_count v \<Longrightarrow> vec_write v i x = Inr (vec_upd v i x)"
  using vec_wf_bounds [OF vec_okD, of v] by (simp add: vec_write_def vec_upd_def)

lemma ecs_vec_put_ok [simp]:
  "vec_ok v \<Longrightarrow> i < vec_count v \<Longrightarrow> ecs_vec_put v i x = Inr (vec_upd v i x)"
  by (simp add: ecs_vec_put_def)

lemma vec_upd_simps [simp]:
  "vec_count (vec_upd v i x) = vec_count v" "vec_size (vec_upd v i x) = vec_size v"
  by (simp_all add: vec_upd_def)

lemma vec_upd_ok [simp]:
  assumes "vec_ok v" and "i < vec_count v"
  shows "vec_ok (vec_upd v i x)" and "vec_elems (vec_upd v i x) = (vec_elems v)[i := x]"
proof -
  have "vec_ok (vec_upd v i x) \<and> vec_elems (vec_upd v i x) = (vec_elems v)[i := x]"
  proof (rule vec_okI)
    show "vec_wf (vec_upd v i x)"
      using assms(1) by (simp add: vec_upd_def vec_ok_def vec_wf_def)
    show "vec_array (vec_upd v i x) ! j = Some ((vec_elems v)[i := x] ! j)"
      if "j < vec_count (vec_upd v i x)" for j
      using that assms vec_wf_bounds [OF vec_okD, of v]
      by (auto simp: vec_upd_def nth_list_update vec_ok_cell)
  qed (use assms in simp)
  then show "vec_ok (vec_upd v i x)" "vec_elems (vec_upd v i x) = (vec_elems v)[i := x]" by simp_all
qed

lemma ecs_vec_append_wf:
  assumes "vec_wf v" and "vec_count v < 2 ^ 30" and "ecs_vec_append v = (v', k)"
  shows "vec_wf v'" "k = vec_count v" "vec_count v' = Suc (vec_count v)"
    "i < vec_count v \<Longrightarrow> vec_array v' ! i = vec_array v ! i"
proof -
  define w where "w = (if vec_size v = vec_count v then ecs_vec_set_size v (vec_count v + 1) else v)"
  have v': "v' = w\<lparr>vec_count := vec_count v + 1\<rparr>" and k: "k = vec_count v"
    using assms(3) by (auto simp: ecs_vec_append_def Let_def w_def)
  have w: "vec_wf w" "vec_count v + 1 \<le> vec_size w"
    "i < vec_count v \<Longrightarrow> vec_array w ! i = vec_array v ! i" for i
    using assms(1,2) ecs_vec_set_size_wf [of v "vec_count v + 1"] by (auto simp: w_def vec_wf_def)
  show "vec_wf v'" "k = vec_count v" "vec_count v' = Suc (vec_count v)"
    "i < vec_count v \<Longrightarrow> vec_array v' ! i = vec_array v ! i"
    using w k by (auto simp: v' vec_wf_def)
qed

lemma vec_snoc_ok [simp]:
  assumes "vec_ok v" and "vec_count v < 2 ^ 30"
  shows "vec_ok (vec_snoc v x)" "vec_elems (vec_snoc v x) = vec_elems v @ [x]"
    "vec_count (vec_snoc v x) = Suc (vec_count v)" "ecs_vec_push v x = Inr (vec_snoc v x)"
proof -
  obtain v' k where a: "ecs_vec_append v = (v', k)" by (cases "ecs_vec_append v")
  note w = ecs_vec_append_wf [OF vec_okD [OF assms(1)] assms(2) a]
  have len: "vec_count v < length (vec_array v')"
    using w(1,3) by (simp add: vec_wf_def)
  have "vec_ok (vec_upd v' k x) \<and> vec_elems (vec_upd v' k x) = vec_elems v @ [x]"
  proof (rule vec_okI)
    show "vec_wf (vec_upd v' k x)"
      using w(1) by (simp add: vec_upd_def vec_wf_def)
    show "vec_array (vec_upd v' k x) ! j = Some ((vec_elems v @ [x]) ! j)"
      if "j < vec_count (vec_upd v' k x)" for j
      using that assms(1) w len
      by (cases "j = vec_count v") (auto simp: vec_upd_def nth_append vec_ok_cell)
    show "length (vec_elems v @ [x]) = vec_count (vec_upd v' k x)"
      using assms(1) w by simp
  qed
  then show "vec_ok (vec_snoc v x)" "vec_elems (vec_snoc v x) = vec_elems v @ [x]"
    by (simp_all add: vec_snoc_def a)
  show "vec_count (vec_snoc v x) = Suc (vec_count v)"
    using w by (simp add: vec_snoc_def a)
  show "ecs_vec_push v x = Inr (vec_snoc v x)"
    using len w(2) by (simp add: ecs_vec_push_def vec_snoc_def a vec_write_def vec_upd_def)
qed

lemma ecs_vec_set_count_shrink [simp]:
  assumes "vec_ok v" and "n \<le> vec_count v"
  shows "vec_ok (ecs_vec_set_count v n)" "vec_elems (ecs_vec_set_count v n) = take n (vec_elems v)"
    "vec_count (ecs_vec_set_count v n) = n"
proof -
  have "\<not> vec_size v < n" using assms by (simp add: vec_ok_def vec_wf_def)
  then have eq: "ecs_vec_set_count v n = v\<lparr>vec_count := n\<rparr>"
    by (simp add: ecs_vec_set_count_def)
  have "set (take n (vec_array v)) \<subseteq> set (take (vec_count v) (vec_array v))"
    using assms(2) by (rule set_take_subset_set_take)
  then show "vec_ok (ecs_vec_set_count v n)"
    using assms unfolding eq by (auto simp: vec_ok_def vec_wf_def)
  show "vec_elems (ecs_vec_set_count v n) = take n (vec_elems v)"
    using assms(2) unfolding eq by (simp add: vec_elems_def take_map min_absorb1)
  show "vec_count (ecs_vec_set_count v n) = n" by (simp add: eq)
qed

lemma ecs_vec_set_count_wf:
  assumes "vec_wf v" and "n \<le> 2 ^ 30" and "vec_count v \<le> 2 ^ 30"
  shows "vec_wf (ecs_vec_set_count v n)" "vec_count (ecs_vec_set_count v n) = n"
    "i < vec_count v \<Longrightarrow> vec_array (ecs_vec_set_count v n) ! i = vec_array v ! i"
proof -
  define w where "w = (if vec_size v < n then ecs_vec_set_size v n else v)"
  have eq: "ecs_vec_set_count v n = (if vec_count v \<noteq> n then w\<lparr>vec_count := n\<rparr> else v)"
    by (simp add: ecs_vec_set_count_def w_def)
  have w: "vec_wf w" "n \<le> vec_size w" "i < vec_count v \<Longrightarrow> vec_array w ! i = vec_array v ! i" for i
    using assms ecs_vec_set_size_wf [of v n] by (auto simp: w_def vec_wf_def)
  show "vec_wf (ecs_vec_set_count v n)" "vec_count (ecs_vec_set_count v n) = n"
    "i < vec_count v \<Longrightarrow> vec_array (ecs_vec_set_count v n) ! i = vec_array v ! i"
    using w assms(1) by (auto simp: eq vec_wf_def)
qed

lemma ecs_vec_set_min_count_zeromem_ok:
  assumes "vec_ok v" and "n \<le> 2 ^ 30"
  shows "vec_ok (ecs_vec_set_min_count_zeromem z v n) \<and>
    vec_elems (ecs_vec_set_min_count_zeromem z v n) =
      vec_elems v @ replicate (n - vec_count v) z"
proof (cases "vec_count v < n")
  case True
  define w where "w = ecs_vec_set_min_count v n"
  have wf: "vec_wf v" using assms(1) by (rule vec_okD)
  have w: "vec_wf w \<and> vec_count w = n \<and>
      (\<forall>i < vec_count v. vec_array w ! i = vec_array v ! i)"
    using True assms(2) wf ecs_vec_set_size_wf [OF wf, of n]
    by (auto simp: w_def ecs_vec_set_min_count_def ecs_vec_set_min_size_def Let_def vec_wf_def)
  have eq: "ecs_vec_set_min_count_zeromem z v n =
      w\<lparr>vec_array := take (vec_count v) (vec_array w) @ replicate (n - vec_count v) (Some z)
          @ drop n (vec_array w)\<rparr>"
    using True by (simp add: ecs_vec_set_min_count_zeromem_def w_def Let_def)
  show ?thesis unfolding eq
  proof (rule vec_okI)
    show "vec_wf (w\<lparr>vec_array := take (vec_count v) (vec_array w)
        @ replicate (n - vec_count v) (Some z) @ drop n (vec_array w)\<rparr>)"
      using w True by (auto simp: vec_wf_def)
  qed (use w True assms(1) in \<open>auto simp: vec_wf_def nth_append vec_ok_cell\<close>)
next
  case False
  then show ?thesis using assms(1) by (simp add: ecs_vec_set_min_count_zeromem_def)
qed

lemma ecs_vec_remove_ok:
  assumes "vec_ok v" and "i < vec_count v"
  shows "\<exists>v'. ecs_vec_remove v i = Inr v' \<and> vec_ok v' \<and>
    vec_elems v' = butlast ((vec_elems v)[i := last (vec_elems v)])"
proof -
  define n where "n = vec_count v - 1"
  have n: "vec_count v = Suc n" "n < length (vec_array v)" "i \<le> n"
    using assms vec_wf_bounds [OF vec_okD, of v] by (auto simp: n_def)
  define v' where "v' = (if i = n then v\<lparr>vec_count := n\<rparr>
    else v\<lparr>vec_count := n, vec_array := (vec_array v)[i := vec_array v ! n]\<rparr>)"
  have "ecs_vec_remove v i = Inr v'"
    using assms n by (auto simp: ecs_vec_remove_def v'_def Let_def)
  moreover have "vec_ok v' \<and> vec_elems v' = butlast ((vec_elems v)[i := last (vec_elems v)])"
  proof (rule vec_okI)
    have len: "length (vec_elems v) = Suc n" using assms n by simp
    have last: "last (vec_elems v) = vec_elems v ! n"
      using len by (cases "vec_elems v" rule: rev_cases) auto
    show "vec_wf v'" using assms n by (auto simp: v'_def vec_ok_def vec_wf_def)
    show "vec_array v' ! j = Some (butlast ((vec_elems v)[i := last (vec_elems v)]) ! j)"
      if "j < vec_count v'" for j
      using that n len assms
      by (auto simp: v'_def nth_butlast last vec_ok_cell nth_list_update split: if_splits)
    show "length (butlast ((vec_elems v)[i := last (vec_elems v)])) = vec_count v'"
      using len by (auto simp: v'_def)
  qed
  ultimately show ?thesis by blast
qed

lemma ecs_vec_remove_ordered_ok:
  assumes "vec_ok v" and "i < vec_count v"
  shows "\<exists>v'. ecs_vec_remove_ordered v i = Inr v' \<and> vec_ok v' \<and>
    vec_elems v' = take i (vec_elems v) @ drop (Suc i) (vec_elems v)"
proof -
  define n where "n = vec_count v - 1"
  have n: "vec_count v = Suc n" "n < length (vec_array v)" "i \<le> n"
    using assms vec_wf_bounds [OF vec_okD, of v] by (auto simp: n_def)
  define v' where "v' = (if i = n then v\<lparr>vec_count := n\<rparr>
    else v\<lparr>vec_count := n, vec_array := take i (vec_array v)
      @ take (n - i) (drop (i + 1) (vec_array v)) @ drop n (vec_array v)\<rparr>)"
  have "ecs_vec_remove_ordered v i = Inr v'"
    using assms n by (auto simp: ecs_vec_remove_ordered_def v'_def Let_def)
  moreover have "vec_ok v' \<and> vec_elems v' = take i (vec_elems v) @ drop (Suc i) (vec_elems v)"
  proof (rule vec_okI)
    have len: "length (vec_elems v) = Suc n" using assms n by simp
    show "vec_wf v'" using assms n by (auto simp: v'_def vec_ok_def vec_wf_def min_def)
    show "vec_array v' ! j = Some ((take i (vec_elems v) @ drop (Suc i) (vec_elems v)) ! j)"
      if "j < vec_count v'" for j
      using that n len assms
      by (auto simp: v'_def vec_ok_cell nth_append min_def split: if_splits)
    show "length (take i (vec_elems v) @ drop (Suc i) (vec_elems v)) = vec_count v'"
      using len n by (auto simp: v'_def)
  qed
  ultimately show ?thesis by blast
qed

lemma ecs_vec_set_count_w_type_info_ok:
  assumes "vec_ok v" and "n \<le> 2 ^ 30" and "ecs_vec_set_count_w_type_info (Some c) v n = (v', d)"
  shows "vec_ok v' \<and> vec_elems v' = take n (vec_elems v) @ replicate (n - vec_count v) c"
    and "d = map Some (drop n (vec_elems v))"
proof -
  have wf: "length (vec_array v) = vec_size v" "vec_count v \<le> vec_size v"
    using assms(1) by (simp_all add: vec_ok_def vec_wf_def)
  have tk: "take (vec_count v) (vec_array v) = map Some (vec_elems v)"
    using assms(1) wf by (intro nth_equalityI) (auto simp: vec_ok_cell)
  then have dt: "take (vec_count v - m) (drop m (vec_array v)) = map Some (drop m (vec_elems v))" for m
    by (metis drop_map drop_take)
  consider (same) "vec_count v = n" | (room) "vec_count v \<noteq> n" "n < vec_size v"
    | (grow) "vec_count v \<noteq> n" "vec_size v \<le> n" by linarith
  then have "(vec_ok v' \<and> vec_elems v' = take n (vec_elems v) @ replicate (n - vec_count v) c) \<and>
    d = map Some (drop n (vec_elems v))"
  proof cases
    case same
    then show ?thesis using assms by (auto simp: ecs_vec_set_count_w_type_info_def)
  next
    case room
    then have v': "v' = v\<lparr>vec_array := (if n > vec_count v
        then take (vec_count v) (vec_array v) @ replicate (n - vec_count v) (Some c)
          @ drop n (vec_array v) else vec_array v), vec_count := n\<rparr>"
      and d: "d = (if n < vec_count v then take (vec_count v - n) (drop n (vec_array v)) else [])"
      using assms(3) by (auto simp: ecs_vec_set_count_w_type_info_def Let_def)
    have "vec_ok v' \<and> vec_elems v' = take n (vec_elems v) @ replicate (n - vec_count v) c"
      by (rule vec_okI)
        (use room wf assms(1) in \<open>auto simp: v' vec_wf_def nth_append vec_ok_cell\<close>)
    moreover have "d = map Some (drop n (vec_elems v))"
      using room assms(1) by (auto simp: d dt)
    ultimately show ?thesis ..
  next
    case grow
    define m where "m = nat (sint (flecs_next_pow_of_2 (word_of_nat n)))"
    have m: "n \<le> m" using vec_pow_bounds [OF assms(2)] by (auto simp: m_def)
    have "vec_count v < n" using grow wf by simp
    then have v': "v' = \<lparr>vec_array = take (vec_count v) (vec_array v)
        @ replicate (n - vec_count v) (Some c) @ drop n (replicate m None),
        vec_count = n, vec_size = m\<rparr>" and d: "d = []"
      using assms(3) grow wf m
      by (auto simp: ecs_vec_set_count_w_type_info_def Let_def flecs_vec_alloc_def m_def)
    have "vec_ok v' \<and> vec_elems v' = take n (vec_elems v) @ replicate (n - vec_count v) c"
      by (rule vec_okI)
        (use \<open>vec_count v < n\<close> m wf assms(1) in \<open>auto simp: v' vec_wf_def nth_append vec_ok_cell\<close>)
    moreover have "d = map Some (drop n (vec_elems v))"
      using \<open>vec_count v < n\<close> assms(1) by (simp add: d)
    ultimately show ?thesis ..
  qed
  then show "vec_ok v' \<and> vec_elems v' = take n (vec_elems v) @ replicate (n - vec_count v) c"
    and "d = map Some (drop n (vec_elems v))" by simp_all
qed

section \<open>Vectors with an unused head\<close>

text \<open>
  The entity index reserves the first cells of its dense array without writing them.
  \<open>vec_ok_from k\<close> says that every element in use from index \<open>k\<close> on has been written.
\<close>

definition vec_ok_from :: "nat \<Rightarrow> 'a ecs_vec_t \<Rightarrow> bool" where
  "vec_ok_from k v \<longleftrightarrow> vec_wf v \<and> (\<forall>i. k \<le> i \<and> i < vec_count v \<longrightarrow> vec_array v ! i \<noteq> None)"

lemma vec_ok_from_wf: "vec_ok_from k v \<Longrightarrow> vec_wf v"
  by (simp add: vec_ok_from_def)

lemma length_vec_elems_wf [simp]: "vec_wf v \<Longrightarrow> length (vec_elems v) = vec_count v"
  by (simp add: vec_elems_def vec_wf_def)

lemma vec_elems_nth: "vec_wf v \<Longrightarrow> i < vec_count v \<Longrightarrow> vec_elems v ! i = the (vec_array v ! i)"
  by (simp add: vec_elems_def vec_wf_def)

lemma vec_elems_eqI:
  assumes "vec_wf v" and "length xs = vec_count v"
    and "\<And>i. i < vec_count v \<Longrightarrow> the (vec_array v ! i) = xs ! i"
  shows "vec_elems v = xs"
  using assms by (intro nth_equalityI) (simp_all add: vec_elems_nth)

lemma vec_read_from [simp]:
  "vec_ok_from k v \<Longrightarrow> k \<le> i \<Longrightarrow> i < vec_count v \<Longrightarrow> vec_read v i = Inr (vec_elems v ! i)"
  "vec_ok_from k v \<Longrightarrow> k \<le> i \<Longrightarrow> i < vec_count v \<Longrightarrow> ecs_vec_get v i = Inr (vec_elems v ! i)"
  by (auto simp: vec_ok_from_def vec_wf_def vec_read_def ecs_vec_get_def vec_elems_def)

lemma vec_upd_wf [simp]:
  assumes "vec_wf v" and "i < vec_count v"
  shows "vec_write v i x = Inr (vec_upd v i x)" "ecs_vec_put v i x = Inr (vec_upd v i x)"
    "vec_wf (vec_upd v i x)" "vec_elems (vec_upd v i x) = (vec_elems v)[i := x]"
  using assms
  by (auto simp: vec_wf_def vec_write_def ecs_vec_put_def vec_upd_def nth_list_update
      vec_elems_def take_update_swap map_update)

lemma vec_upd_from [simp]:
  assumes "vec_ok_from k v" and "i < vec_count v"
  shows "vec_ok_from k (vec_upd v i x)"
  using assms
  by (auto simp: vec_ok_from_def vec_wf_def vec_write_def ecs_vec_put_def vec_upd_def nth_list_update
      vec_elems_def take_update_swap map_update)

lemma vec_snoc_wf [simp]:
  assumes wf: "vec_wf v" and "vec_count v < 2 ^ 30"
  shows "vec_wf (vec_snoc v x)" "vec_elems (vec_snoc v x) = vec_elems v @ [x]"
    "vec_count (vec_snoc v x) = Suc (vec_count v)" "ecs_vec_push v x = Inr (vec_snoc v x)"
    "vec_ok_from k v \<Longrightarrow> vec_ok_from k (vec_snoc v x)"
proof -
  obtain v' c where a: "ecs_vec_append v = (v', c)" by (cases "ecs_vec_append v")
  note w = ecs_vec_append_wf [OF wf assms(2) a]
  have wf': "vec_wf (vec_upd v' c x)" using w(1) by (simp add: vec_upd_def vec_wf_def)
  have cell: "vec_array (vec_upd v' c x) ! i = (if i = vec_count v then Some x else vec_array v ! i)"
    if "i < Suc (vec_count v)" for i
    using that w by (auto simp: vec_upd_def nth_list_update vec_wf_def)
  show "vec_wf (vec_snoc v x)" using wf' by (simp add: vec_snoc_def a)
  show "vec_ok_from k (vec_snoc v x)" if "vec_ok_from k v"
    using that wf' w(3) by (auto simp: vec_snoc_def a vec_ok_from_def cell)
  show "vec_elems (vec_snoc v x) = vec_elems v @ [x]"
    using wf wf' w(3) by (auto simp: vec_snoc_def a cell nth_append vec_elems_nth intro!: vec_elems_eqI)
  show "vec_count (vec_snoc v x) = Suc (vec_count v)"
    using w by (simp add: vec_snoc_def a)
  show "ecs_vec_push v x = Inr (vec_snoc v x)"
    using w by (simp add: ecs_vec_push_def vec_snoc_def a vec_write_def vec_upd_def vec_wf_def)
qed

lemma vec_set_count_shrink_from [simp]:
  assumes "vec_ok_from k v" and "n \<le> vec_count v"
  shows "vec_ok_from k (ecs_vec_set_count v n)"
    "vec_elems (ecs_vec_set_count v n) = take n (vec_elems v)" "vec_count (ecs_vec_set_count v n) = n"
proof -
  have "\<not> vec_size v < n" using assms by (simp add: vec_ok_from_def vec_wf_def)
  then have eq: "ecs_vec_set_count v n = v\<lparr>vec_count := n\<rparr>"
    by (simp add: ecs_vec_set_count_def)
  show "vec_ok_from k (ecs_vec_set_count v n)"
    "vec_elems (ecs_vec_set_count v n) = take n (vec_elems v)" "vec_count (ecs_vec_set_count v n) = n"
    using assms unfolding eq
    by (auto simp: vec_ok_from_def vec_wf_def vec_elems_def take_map min_absorb1)
qed

section \<open>The interface to the clients\<close>

text \<open>
  What a client relies on: a vector that is \<open>ok\<close> stands for a list, an access inside the list
  returns, and writes and appends act on the list.
\<close>

locale dyn_array =
  fixes ok :: "'v \<Rightarrow> bool"
    and elems :: "'v \<Rightarrow> 'a list"
    and get :: "'v \<Rightarrow> nat \<Rightarrow> 'a res"
    and put :: "'v \<Rightarrow> nat \<Rightarrow> 'a \<Rightarrow> 'v res"
    and push :: "'v \<Rightarrow> 'a \<Rightarrow> 'v res"
    and limit :: nat
  assumes get_ok: "ok v \<Longrightarrow> i < length (elems v) \<Longrightarrow> get v i = Inr (elems v ! i)"
    and put_ok: "ok v \<Longrightarrow> i < length (elems v) \<Longrightarrow>
      \<exists>v'. put v i x = Inr v' \<and> ok v' \<and> elems v' = (elems v)[i := x]"
    and push_ok: "ok v \<Longrightarrow> length (elems v) < limit \<Longrightarrow>
      \<exists>v'. push v x = Inr v' \<and> ok v' \<and> elems v' = elems v @ [x]"
begin

lemma push_all:
  "ok v \<Longrightarrow> length (elems v) + length xs \<le> limit \<Longrightarrow>
    \<exists>v'. for_each xs (\<lambda>x w. push w x) v = Inr v' \<and> ok v' \<and> elems v' = elems v @ xs"
proof (induction xs arbitrary: v)
  case Nil
  then show ?case by simp
next
  case (Cons x xs)
  then obtain w where w: "push v x = Inr w" "ok w" "elems w = elems v @ [x]"
    using push_ok [of v x] by auto
  then obtain v' where "for_each xs (\<lambda>x w. push w x) w = Inr v'" "ok v'" "elems v' = elems w @ xs"
    using Cons.IH [of w] Cons.prems by auto
  with w show ?case by simp
qed

text \<open>Exchanging two elements through four accesses: the swap of the sparse structures.\<close>

lemma exchange:
  assumes "ok v" and "i < length (elems v)" and "j < length (elems v)"
  shows "\<exists>v'. bindr (get v i) (\<lambda>a. bindr (get v j) (\<lambda>b. bindr (put v i b) (\<lambda>w. put w j a))) = Inr v' \<and>
    ok v' \<and> elems v' = (elems v)[i := elems v ! j, j := elems v ! i]"
proof -
  obtain w where "put v i (elems v ! j) = Inr w" "ok w" "elems w = (elems v)[i := elems v ! j]"
    using put_ok [OF assms(1,2)] by blast
  moreover from this obtain v' where "put w j (elems v ! i) = Inr v'" "ok v'"
    "elems v' = (elems w)[j := elems v ! i]"
    using put_ok [of w j] assms(3) by auto
  ultimately show ?thesis using assms by (simp add: get_ok)
qed

end

interpretation vec: dyn_array vec_ok vec_elems ecs_vec_get ecs_vec_put ecs_vec_push "2 ^ 30"
proof unfold_locales
  fix v :: "'a ecs_vec_t" and i x
  show "ecs_vec_get v i = Inr (vec_elems v ! i)" if "vec_ok v" "i < length (vec_elems v)"
    using that by simp
  show "\<exists>v'. ecs_vec_put v i x = Inr v' \<and> vec_ok v' \<and> vec_elems v' = (vec_elems v)[i := x]"
    if "vec_ok v" "i < length (vec_elems v)"
    using that by simp
  show "\<exists>v'. ecs_vec_push v x = Inr v' \<and> vec_ok v' \<and> vec_elems v' = vec_elems v @ [x]"
    if "vec_ok v" "length (vec_elems v) < 2 ^ 30"
    using that by simp
qed

section \<open>Properties\<close>



text \<open>
  \<open>ecs_vec_remove\<close> takes out exactly the element at the index: the last element takes its
  place, every other element stays at its index, and the count goes down by one.
\<close>

theorem ecs_vec_remove_effect:
  assumes "vec_ok v" and "i < vec_count v"
  shows "\<exists>v'. ecs_vec_remove v i = Inr v' \<and> vec_ok v' \<and>
    Suc (length (vec_elems v')) = length (vec_elems v) \<and>
    (\<forall>j. j \<noteq> i \<longrightarrow> Suc j < length (vec_elems v) \<longrightarrow> vec_elems v' ! j = vec_elems v ! j) \<and>
    (Suc i < length (vec_elems v) \<longrightarrow> vec_elems v' ! i = last (vec_elems v))"
proof -
  obtain v' where v': "ecs_vec_remove v i = Inr v'" "vec_ok v'"
    "vec_elems v' = butlast ((vec_elems v)[i := last (vec_elems v)])"
    using ecs_vec_remove_ok [OF assms] by blast
  have len: "length (vec_elems v) = vec_count v" using assms by simp
  have "vec_elems v' ! j = (if j = i then last (vec_elems v) else vec_elems v ! j)"
    if "Suc j < length (vec_elems v)" for j
    using that assms(2) by (simp add: v'(3) nth_butlast nth_list_update)
  with v' len assms(2) show ?thesis by (intro exI [of _ v']) auto
qed

theorem ecs_vec_remove_effect_witness:
  "\<exists>v'. ecs_vec_remove \<lparr>vec_array = [Some 1, Some 2, Some (3 :: u64), None], vec_count = 3, vec_size = 4\<rparr> 0
     = Inr v' \<and> vec_elems v' ! 0 = 3 \<and> vec_elems v' ! 1 = 2"
proof -
  let ?v = "\<lparr>vec_array = [Some 1, Some 2, Some (3 :: u64), None], vec_count = 3, vec_size = 4\<rparr>"
  have ok: "vec_ok ?v" by (simp add: vec_ok_def vec_wf_def numeral_3_eq_3)
  have el: "vec_elems ?v = [1, 2, 3]" by (simp add: vec_elems_def numeral_3_eq_3)
  show ?thesis
    using ecs_vec_remove_effect [OF ok, of 0] unfolding el by fastforce
qed

text \<open>
  Resizing a vector of a type with lifecycle hooks keeps the elements that fit, constructs
  every new element and destructs every dropped one exactly once and in order, whether or not
  the buffer is reallocated.
\<close>

theorem ecs_vec_set_count_w_type_info_lifecycle:
  assumes "vec_ok v" and "n \<le> 2 ^ 30"
  shows "case ecs_vec_set_count_w_type_info (Some c) v n of (v', destructed) \<Rightarrow>
    vec_ok v' \<and> vec_elems v' = take n (vec_elems v) @ replicate (n - vec_count v) c \<and>
    destructed = map Some (drop n (vec_elems v))"
  using ecs_vec_set_count_w_type_info_ok [OF assms]
  by (cases "ecs_vec_set_count_w_type_info (Some c) v n") auto

theorem ecs_vec_set_count_w_type_info_lifecycle_witness:
  "snd (ecs_vec_set_count_w_type_info (Some (0 :: u64))
     \<lparr>vec_array = [Some 1, Some 2, Some 3, None], vec_count = 3, vec_size = 4\<rparr> 1) = [Some 2, Some 3]"
proof -
  let ?v = "\<lparr>vec_array = [Some 1, Some 2, Some (3 :: u64), None], vec_count = 3, vec_size = 4\<rparr>"
  have ok: "vec_ok ?v" by (simp add: vec_ok_def vec_wf_def numeral_3_eq_3)
  have el: "vec_elems ?v = [1, 2, 3]" by (simp add: vec_elems_def numeral_3_eq_3)
  show ?thesis
    using ecs_vec_set_count_w_type_info_lifecycle [OF ok, of 1 0]
    by (simp add: el split: prod.splits)
qed

text \<open>
  C34: the growth policy overflows.  A full vector of \<open>2 ^ 30\<close> elements is well-formed, but
  appending to it asks \<open>flecs_next_pow_of_2\<close> for a size that does not fit a signed 32-bit
  integer: the buffer is reallocated to two elements while the count becomes \<open>2 ^ 30 + 1\<close>, and
  the write to the appended cell is out of bounds.
\<close>

theorem ecs_vec_append_overflow:
  "let v = \<lparr>vec_array = replicate (2 ^ 30) (Some x), vec_count = 2 ^ 30, vec_size = 2 ^ 30\<rparr> in
     vec_ok v \<and> vec_size (fst (ecs_vec_append v)) = 2 \<and>
     vec_count (fst (ecs_vec_append v)) = 2 ^ 30 + 1 \<and> ecs_vec_push v y = Inl Undefined"
proof -
  define v where "v = \<lparr>vec_array = replicate (2 ^ 30) (Some x), vec_count = 2 ^ 30, vec_size = 2 ^ 30\<rparr>"
  have len: "length (vec_array v) = 2 ^ 30" "vec_count v = 2 ^ 30" "vec_size v = 2 ^ 30"
    by (simp_all only: v_def ecs_vec_t.simps length_replicate)
  have "set (take (vec_count v) (vec_array v)) \<subseteq> set (replicate (2 ^ 30) (Some x))"
    by (metis ecs_vec_t.select_convs(1) set_take_subset v_def)
  then have ok: "vec_ok v" using len by (auto simp: vec_ok_def vec_wf_def)
  have "sint (flecs_next_pow_of_2 (word_of_nat (2 ^ 30 + 1))) < 2"
    by (simp add: flecs_next_pow_of_2_def)
  then have size: "ecs_vec_set_size v (2 ^ 30 + 1) =
      v\<lparr>vec_array := vec_realloc 2 (vec_array v), vec_size := 2\<rparr>"
    using len by (simp add: ecs_vec_set_size_def Let_def)
  have push: "ecs_vec_append v =
      (v\<lparr>vec_array := vec_realloc 2 (vec_array v), vec_size := 2, vec_count := 2 ^ 30 + 1\<rparr>, 2 ^ 30)"
    by (simp add: ecs_vec_append_def Let_def len size [simplified])
  have "length (vec_realloc 2 (vec_array v)) = 2" using len(1) by (simp add: vec_realloc_def)
  then have "ecs_vec_push v y = Inl Undefined"
    by (simp add: ecs_vec_push_def push [simplified] vec_write_def)
  with ok push show ?thesis unfolding v_def [symmetric] Let_def by simp
qed

end
