(* ===== verification/Types.thy ===== *)
theory Types
  imports Ids Vec
begin

text \<open>
  Component types: the sorted id sequences that identify a table
  (\<open>ecs_type_t\<close>, the id sequence utilities of \<open>src/storage/table_graph.c\<close>), and the builder
  that accumulates the difference between two types.

  A type is the list of its ids (a null array is the empty list).  Ids are compared as unsigned
  64-bit numbers.  The lemmas show that adding and removing keep the sequence strictly sorted and
  act as insertion and deletion on the set of ids, for plain ids as well as for wildcard pairs.
\<close>

type_synonym ecs_type_t = "u64 list"

section \<open>Operations\<close>

fun ids_compare :: "u64 list \<Rightarrow> u64 list \<Rightarrow> int" where
  "ids_compare (x # xs) (y # ys) = (if x > y then 1 else if x < y then - 1 else ids_compare xs ys)"
| "ids_compare _ _ = 0"

definition flecs_type_compare :: "ecs_type_t \<Rightarrow> ecs_type_t \<Rightarrow> int" where
  "flecs_type_compare type_1 type_2 =
     (if length type_1 \<noteq> length type_2
      then (if length type_1 > length type_2 then 1 else - 1)
      else ids_compare type_1 type_2)"

text \<open>The index is \<open>None\<close> for the result -1.\<close>

fun find_insert_at :: "u64 list \<Rightarrow> nat \<Rightarrow> u64 \<Rightarrow> nat option" where
  "find_insert_at [] i to_add = Some i"
| "find_insert_at (cid # cids) i to_add =
     (if cid = to_add then None
      else if cid > to_add then Some i
      else find_insert_at cids (Suc i) to_add)"

definition flecs_type_find_insert :: "ecs_type_t \<Rightarrow> nat \<Rightarrow> u64 \<Rightarrow> nat option" where
  "flecs_type_find_insert type offset to_add = find_insert_at (drop offset type) offset to_add"

fun type_find_at :: "u64 list \<Rightarrow> nat \<Rightarrow> u64 \<Rightarrow> nat option res" where
  "type_find_at [] i cid = Inr None"
| "type_find_at (cur # curs) i cid =
     bindr (ecs_id_match cur cid) (\<lambda>m.
     if m then Inr (Some i)
     else if \<not> ECS_IS_PAIR cid \<and> cur > cid then Inr None
     else type_find_at curs (Suc i) cid)"

definition flecs_type_find :: "ecs_type_t \<Rightarrow> u64 \<Rightarrow> nat option res" where
  "flecs_type_find type cid = type_find_at type 0 cid"

fun find_lo_at :: "u64 list \<Rightarrow> nat \<Rightarrow> u64 \<Rightarrow> nat option" where
  "find_lo_at [] i cid = None"
| "find_lo_at (cur # curs) i cid =
     (if lo32 cur = lo32 cid then Some i else find_lo_at curs (Suc i) cid)"

definition flecs_type_find_ignoring_generation :: "ecs_type_t \<Rightarrow> u64 \<Rightarrow> nat option" where
  "flecs_type_find_ignoring_generation type cid = find_lo_at type 0 cid"

fun match_run :: "u64 list \<Rightarrow> u64 \<Rightarrow> nat res" where
  "match_run [] wildcard = Inr 0"
| "match_run (cur # curs) wildcard =
     bindr (ecs_id_match cur wildcard) (\<lambda>m.
     if \<not> m then Inr 0 else bindr (match_run curs wildcard) (\<lambda>n. Inr (Suc n)))"

definition flecs_type_count_matches :: "ecs_type_t \<Rightarrow> u64 \<Rightarrow> nat \<Rightarrow> nat res" where
  "flecs_type_count_matches type wildcard offset = match_run (drop offset type) wildcard"

text \<open>\<open>None\<close> when the id is already in the type (result -1).\<close>

definition flecs_type_new_with :: "ecs_type_t \<Rightarrow> u64 \<Rightarrow> ecs_type_t option" where
  "flecs_type_new_with src w =
     (case flecs_type_find_insert src 0 w of
        None \<Rightarrow> None
      | Some at \<Rightarrow> Some (take at src @ [w] @ drop at src))"

fun filter_unmatched :: "u64 list \<Rightarrow> u64 \<Rightarrow> u64 list res" where
  "filter_unmatched [] wildcard = Inr []"
| "filter_unmatched (cid # cids) wildcard =
     bindr (ecs_id_match cid wildcard) (\<lambda>m.
     bindr (filter_unmatched cids wildcard) (\<lambda>ys.
     Inr (if \<not> m then cid # ys else ys)))"

definition flecs_type_new_filtered :: "ecs_type_t \<Rightarrow> u64 \<Rightarrow> nat \<Rightarrow> ecs_type_t res" where
  "flecs_type_new_filtered src wildcard at =
     bindr (filter_unmatched (drop (at + 1) src) wildcard) (\<lambda>ys. Inr (take at src @ ys))"

text \<open>\<open>Inr None\<close> when nothing in the type matches (result -1).\<close>

definition flecs_type_new_without :: "ecs_type_t \<Rightarrow> u64 \<Rightarrow> ecs_type_t option res" where
  "flecs_type_new_without src without =
     bindr (flecs_type_find src without) (\<lambda>found.
     case found of
       None \<Rightarrow> Inr None
     | Some at \<Rightarrow>
         if length src = 1 then Inr (Some [])
         else if ecs_id_is_wildcard without \<and> ECS_IS_PAIR without \<and>
           ECS_PAIR_FIRST without = EcsWildcard \<and> ECS_PAIR_SECOND without \<noteq> EcsWildcard
         then bindr (flecs_type_new_filtered src without at) (\<lambda>dst. Inr (Some dst))
         else
           bindr (if ecs_id_is_wildcard without
                  then bindr (flecs_type_count_matches src without (at + 1)) (\<lambda>n. Inr (1 + n))
                  else Inr 1) (\<lambda>count.
           let dst_count = length src - count in
           if dst_count = 0 then Inr (Some [])
           else Inr (Some (take at src @ take (dst_count - at) (drop (at + count) src)))))"

definition flecs_type_new_without_ignoring_generation ::
  "ecs_type_t \<Rightarrow> u64 \<Rightarrow> ecs_type_t option res" where
  "flecs_type_new_without_ignoring_generation src without =
     bindr (ecs_assert (\<not> ecs_id_is_wildcard without) ECS_INVALID_PARAMETER) (\<lambda>_.
     bindr (ecs_assert (\<not> ECS_IS_PAIR without) ECS_INVALID_PARAMETER) (\<lambda>_.
     case flecs_type_find_ignoring_generation src without of
       None \<Rightarrow> Inr None
     | Some at \<Rightarrow>
         if length src = 1 then Inr (Some [])
         else
           let dst_count = length src - 1
           in Inr (Some (take at src @ take (dst_count - at) (drop (at + 1) src)))))"

definition flecs_type_copy :: "ecs_type_t \<Rightarrow> ecs_type_t" where
  "flecs_type_copy src = (if length src = 0 then [] else src)"

definition flecs_type_add :: "ecs_type_t \<Rightarrow> u64 \<Rightarrow> ecs_type_t" where
  "flecs_type_add type add =
     (case flecs_type_new_with type add of None \<Rightarrow> type | Some new_type \<Rightarrow> new_type)"

definition flecs_type_remove :: "ecs_type_t \<Rightarrow> u64 \<Rightarrow> ecs_type_t res" where
  "flecs_type_remove type remove =
     bindr (flecs_type_new_without type remove) (\<lambda>r.
     Inr (case r of None \<Rightarrow> type | Some new_type \<Rightarrow> new_type))"

definition flecs_type_remove_ignoring_generation :: "ecs_type_t \<Rightarrow> u64 \<Rightarrow> ecs_type_t res" where
  "flecs_type_remove_ignoring_generation type remove =
     bindr (flecs_type_new_without_ignoring_generation type remove) (\<lambda>r.
     Inr (case r of None \<Rightarrow> type | Some new_type \<Rightarrow> new_type))"

section \<open>The difference between two types\<close>

text \<open>
  \<open>ecs_table_diff_t\<close> and the builder that accumulates it over several edges of the table graph.
\<close>

record ecs_table_diff_t =
  diff_added :: ecs_type_t
  diff_removed :: ecs_type_t
  diff_added_flags :: u32
  diff_removed_flags :: u32

record ecs_table_diff_builder_t =
  builder_added :: "u64 ecs_vec_t"
  builder_removed :: "u64 ecs_vec_t"
  builder_added_flags :: u32
  builder_removed_flags :: u32

definition flecs_table_diff_builder_init :: ecs_table_diff_builder_t where
  "flecs_table_diff_builder_init =
     \<lparr>builder_added = ecs_vec_init 32, builder_removed = ecs_vec_init 32,
      builder_added_flags = 0, builder_removed_flags = 0\<rparr>"

definition flecs_table_diff_builder_clear ::
  "ecs_table_diff_builder_t \<Rightarrow> ecs_table_diff_builder_t" where
  "flecs_table_diff_builder_clear builder =
     builder\<lparr>builder_added := ecs_vec_clear (builder_added builder),
       builder_removed := ecs_vec_clear (builder_removed builder)\<rparr>"

text \<open>\<open>n\<close> ids read from a buffer, starting at \<open>offset\<close>.\<close>

definition vec_read_n :: "u64 ecs_vec_t \<Rightarrow> nat \<Rightarrow> nat \<Rightarrow> u64 list res" where
  "vec_read_n vec offset n =
     for_each [offset..<offset + n] (\<lambda>i xs. bindr (vec_read vec i) (\<lambda>x. Inr (xs @ [x]))) []"

definition flecs_table_diff_build_type ::
  "u64 ecs_vec_t \<Rightarrow> ecs_type_t \<Rightarrow> nat \<Rightarrow> (u64 ecs_vec_t \<times> ecs_type_t) res" where
  "flecs_table_diff_build_type vec type offset =
     bindr (ecs_assert (vec_count vec \<ge> offset) ECS_INTERNAL_ERROR) (\<lambda>_.
     let count = vec_count vec - offset in
     if count \<noteq> 0 then
       bindr (vec_read_n vec offset count) (\<lambda>arr.
       Inr (ecs_vec_set_count vec offset, arr))
     else Inr (vec, type))"

definition flecs_table_diff_build ::
  "ecs_table_diff_builder_t \<Rightarrow> ecs_table_diff_t \<Rightarrow> nat \<Rightarrow> nat \<Rightarrow>
   (ecs_table_diff_builder_t \<times> ecs_table_diff_t) res" where
  "flecs_table_diff_build builder diff added_offset removed_offset =
     bindr (flecs_table_diff_build_type (builder_added builder) (diff_added diff) added_offset)
       (\<lambda>(added, added_type).
     bindr (flecs_table_diff_build_type (builder_removed builder) (diff_removed diff) removed_offset)
       (\<lambda>(removed, removed_type).
     Inr (builder\<lparr>builder_added := added, builder_removed := removed\<rparr>,
       \<lparr>diff_added = added_type, diff_removed = removed_type,
        diff_added_flags = builder_added_flags builder,
        diff_removed_flags = builder_removed_flags builder\<rparr>)))"

definition flecs_table_diff_build_noalloc :: "ecs_table_diff_builder_t \<Rightarrow> ecs_table_diff_t res" where
  "flecs_table_diff_build_noalloc builder =
     bindr (vec_read_n (builder_added builder) 0 (vec_count (builder_added builder))) (\<lambda>added.
     bindr (vec_read_n (builder_removed builder) 0 (vec_count (builder_removed builder))) (\<lambda>removed.
     Inr \<lparr>diff_added = added, diff_removed = removed,
          diff_added_flags = builder_added_flags builder,
          diff_removed_flags = builder_removed_flags builder\<rparr>))"

definition flecs_table_diff_build_add_type_to_vec ::
  "u64 ecs_vec_t \<Rightarrow> ecs_type_t \<Rightarrow> u64 ecs_vec_t res" where
  "flecs_table_diff_build_add_type_to_vec vec add =
     (if length add = 0 then Inr vec
      else
        let offset = vec_count vec; vec = fst (ecs_vec_grow vec (length add)) in
        bindr (ecs_assert (offset < vec_count vec) ECS_OUT_OF_RANGE) (\<lambda>_.
        for_each [0..<length add] (\<lambda>i vec. vec_write vec (offset + i) (add ! i)) vec))"

definition flecs_table_diff_build_append_table ::
  "ecs_table_diff_builder_t \<Rightarrow> ecs_table_diff_t \<Rightarrow> ecs_table_diff_builder_t res" where
  "flecs_table_diff_build_append_table dst src =
     bindr (flecs_table_diff_build_add_type_to_vec (builder_added dst) (diff_added src)) (\<lambda>added.
     bindr (flecs_table_diff_build_add_type_to_vec (builder_removed dst) (diff_removed src))
       (\<lambda>removed.
     Inr \<lparr>builder_added = added, builder_removed = removed,
          builder_added_flags = builder_added_flags dst OR diff_added_flags src,
          builder_removed_flags = builder_removed_flags dst OR diff_removed_flags src\<rparr>))"

section \<open>Comparison\<close>

lemma ids_compare_0: "length xs = length ys \<Longrightarrow> ids_compare xs ys = 0 \<longleftrightarrow> xs = ys"
  by (induction xs ys rule: ids_compare.induct) auto

lemma ids_compare_sym: "ids_compare ys xs = - ids_compare xs ys"
  by (induction xs ys rule: ids_compare.induct) auto

lemma ids_compare_trans:
  "length xs = length ys \<Longrightarrow> length ys = length zs \<Longrightarrow>
    ids_compare xs ys \<le> 0 \<Longrightarrow> ids_compare ys zs \<le> 0 \<Longrightarrow> ids_compare xs zs \<le> 0"
proof (induction xs ys arbitrary: zs rule: ids_compare.induct)
  case (1 x xs y ys)
  then obtain z zs' where "zs = z # zs'" by (cases zs) auto
  with 1 show ?case by (auto split: if_splits)
qed auto

section \<open>Insertion\<close>

lemma find_insert_at_spec:
  assumes "sorted_wrt (<) cs"
  shows "find_insert_at cs i a =
    (if a \<in> set cs then None else Some (i + length (takeWhile (\<lambda>c. c < a) cs)))"
  using assms
proof (induction cs i a rule: find_insert_at.induct)
  case (2 c cs i a)
  then show ?case by (auto simp: not_less_iff_gr_or_eq)
qed simp

lemma flecs_type_new_with_eq:
  assumes "sorted_wrt (<) src"
  shows "flecs_type_new_with src w =
    (if w \<in> set src then None
     else Some (takeWhile (\<lambda>c. c < w) src @ [w] @ dropWhile (\<lambda>c. c < w) src))"
  using assms
  by (simp add: flecs_type_new_with_def flecs_type_find_insert_def find_insert_at_spec
      takeWhile_eq_take [symmetric] dropWhile_eq_drop [symmetric])

lemma sorted_wrt_insert:
  assumes "sorted_wrt (<) src" and "w \<notin> set src"
  shows "sorted_wrt (<) (takeWhile (\<lambda>c. c < w) src @ [w] @ dropWhile (\<lambda>c. c < w) (src :: u64 list))"
proof -
  have "sorted_wrt (<) (takeWhile (\<lambda>c. c < w) src @ dropWhile (\<lambda>c. c < w) src)"
    using assms(1) by simp
  moreover have "w < d" if d: "d \<in> set (dropWhile (\<lambda>c. c < w) src)" for d
  proof -
    obtain h t where ht: "dropWhile (\<lambda>c. c < w) src = h # t"
      using d by (cases "dropWhile (\<lambda>c. c < w) src") auto
    have "\<not> h < w" using ht by (metis hd_dropWhile list.sel(1) list.distinct(1))
    moreover have "h \<in> set src" using ht by (metis list.set_intros(1) set_dropWhileD)
    ultimately have "w < h" using assms(2) by (metis linorder_neqE)
    moreover have "sorted_wrt (<) (h # t)"
      using assms(1) ht by (metis sorted_wrt_append takeWhile_dropWhile_id)
    ultimately show ?thesis using d ht by auto
  qed
  ultimately show ?thesis
    by (auto simp: sorted_wrt_append dest: set_takeWhileD) (meson order_less_trans set_takeWhileD)
qed

lemma flecs_type_new_with_sorted:
  assumes "sorted_wrt (<) src" and "flecs_type_new_with src w = Some dst"
  shows "sorted_wrt (<) dst" "set dst = insert w (set src)" "w \<notin> set src"
proof -
  have nw: "w \<notin> set src" and dst: "dst = takeWhile (\<lambda>c. c < w) src @ [w] @ dropWhile (\<lambda>c. c < w) src"
    using assms by (auto simp: flecs_type_new_with_eq split: if_splits)
  show "w \<notin> set src" by (rule nw)
  show "sorted_wrt (<) dst" using sorted_wrt_insert [OF assms(1) nw] by (simp only: dst)
  have "set (takeWhile (\<lambda>c. c < w) src) \<union> set (dropWhile (\<lambda>c. c < w) src) = set src"
    by (metis set_append takeWhile_dropWhile_id)
  then show "set dst = insert w (set src)" by (auto simp: dst)
qed

section \<open>Removal\<close>

text \<open>
  The removal operations, once \<open>ecs_id_match\<close> against the pattern is known to return on every
  id of the type and to decide the predicate \<open>M\<close>.
\<close>

lemma type_find_at_spec:
  assumes "\<And>c. c \<in> set cs \<Longrightarrow> ecs_id_match c p = Inr (M c)"
    and "sorted_wrt (<) cs"
    and "\<And>c. c \<in> set cs \<Longrightarrow> \<not> ECS_IS_PAIR p \<Longrightarrow> M c \<Longrightarrow> c \<le> p"
  shows "type_find_at cs i p =
    Inr (if \<exists>c \<in> set cs. M c then Some (i + length (takeWhile (\<lambda>c. \<not> M c) cs)) else None)"
  using assms
proof (induction cs arbitrary: i)
  case (Cons c cs)
  have IH: "type_find_at cs (Suc i) p = Inr (if \<exists>c \<in> set cs. M c
      then Some (Suc i + length (takeWhile (\<lambda>c. \<not> M c) cs)) else None)"
    using Cons by simp
  have late: "\<not> M d" if "\<not> ECS_IS_PAIR p" "p < c" "d \<in> set cs" for d
  proof
    assume "M d"
    with Cons.prems(3) that have "d \<le> p" by simp
    with that Cons.prems(2) show False by fastforce
  qed
  show ?case
    using Cons.prems(1) [of c] IH late by auto
qed simp

lemma match_run_spec:
  assumes "\<And>c. c \<in> set cs \<Longrightarrow> ecs_id_match c p = Inr (M c)"
  shows "match_run cs p = Inr (length (takeWhile M cs))"
  using assms by (induction cs) auto

lemma filter_unmatched_spec:
  assumes "\<And>c. c \<in> set cs \<Longrightarrow> ecs_id_match c p = Inr (M c)"
  shows "filter_unmatched cs p = Inr (filter (\<lambda>c. \<not> M c) cs)"
  using assms by (induction cs) auto

lemma filter_split:
  assumes "\<exists>c \<in> set cs. M c"
  shows "filter (\<lambda>c. \<not> M c) cs =
    takeWhile (\<lambda>c. \<not> M c) cs @ filter (\<lambda>c. \<not> M c) (drop (Suc (length (takeWhile (\<lambda>c. \<not> M c) cs))) cs)"
  using assms by (induction cs) auto

text \<open>In a sorted list, the elements satisfying an order-convex predicate are contiguous.\<close>

lemma sorted_convex_run:
  assumes "sorted_wrt (<) (cs :: u64 list)"
    and "\<And>a b c. a \<in> set cs \<Longrightarrow> b \<in> set cs \<Longrightarrow> c \<in> set cs \<Longrightarrow> a < b \<Longrightarrow> b < c \<Longrightarrow> M a \<Longrightarrow> M c \<Longrightarrow> M b"
  shows "filter (\<lambda>c. \<not> M c) cs =
    takeWhile (\<lambda>c. \<not> M c) cs @ dropWhile M (dropWhile (\<lambda>c. \<not> M c) cs)"
  using assms
proof (induction cs)
  case (Cons x cs)
  show ?case
  proof (cases "M x")
    case False
    have "filter (\<lambda>c. \<not> M c) cs =
        takeWhile (\<lambda>c. \<not> M c) cs @ dropWhile M (dropWhile (\<lambda>c. \<not> M c) cs)"
    proof (rule Cons.IH)
      show "sorted_wrt (<) cs" using Cons.prems(1) by simp
      show "M b" if "a \<in> set cs" "b \<in> set cs" "c \<in> set cs" "a < b" "b < c" "M a" "M c" for a b c
        using that Cons.prems(2) [of a b c] by simp
    qed
    with False show ?thesis by simp
  next
    case True
    have "\<forall>c \<in> set (dropWhile M cs). \<not> M c"
    proof
      fix c assume c: "c \<in> set (dropWhile M cs)"
      then obtain h t where ht: "dropWhile M cs = h # t" by (cases "dropWhile M cs") auto
      have nh: "\<not> M h" using ht by (metis hd_dropWhile list.sel(1) list.distinct(1))
      have mem: "h \<in> set cs" "c \<in> set cs" using ht c by (metis list.set_intros(1) set_dropWhileD)+
      have "sorted_wrt (<) (h # t)"
        using Cons.prems(1) ht by (metis sorted_wrt.simps(2) sorted_wrt_append takeWhile_dropWhile_id)
      then have "c = h \<or> h < c" using c ht by auto
      moreover have "x < h" using Cons.prems(1) mem by simp
      ultimately show "\<not> M c" using nh True Cons.prems(2) [of x h c] mem by auto
    qed
    then have "filter (\<lambda>c. \<not> M c) (dropWhile M cs) = dropWhile M cs" by simp
    moreover have "filter (\<lambda>c. \<not> M c) (takeWhile M cs) = []"
      by (auto simp: filter_empty_conv dest: set_takeWhileD)
    ultimately have "filter (\<lambda>c. \<not> M c) (takeWhile M cs @ dropWhile M cs) = dropWhile M cs"
      by (simp only: filter_append append_Nil)
    then have "filter (\<lambda>c. \<not> M c) cs = dropWhile M cs" by simp
    with True show ?thesis by simp
  qed
qed simp

lemma flecs_type_new_without_spec:
  assumes M: "\<And>c. c \<in> set src \<Longrightarrow> ecs_id_match c p = Inr (M c)"
    and sorted: "sorted_wrt (<) src"
    and early: "\<And>c. c \<in> set src \<Longrightarrow> \<not> ECS_IS_PAIR p \<Longrightarrow> M c \<Longrightarrow> c \<le> p"
    and convex: "\<not> (ECS_IS_PAIR p \<and> ECS_PAIR_FIRST p = EcsWildcard \<and> ECS_PAIR_SECOND p \<noteq> EcsWildcard) \<Longrightarrow>
      filter (\<lambda>c. \<not> M c) src = takeWhile (\<lambda>c. \<not> M c) src @ dropWhile M (dropWhile (\<lambda>c. \<not> M c) src)"
    and single: "\<not> ecs_id_is_wildcard p \<Longrightarrow> (\<And>c d. c \<in> set src \<Longrightarrow> d \<in> set src \<Longrightarrow> M c \<Longrightarrow> M d \<Longrightarrow> c = d)"
    and wild: "ECS_IS_PAIR p \<Longrightarrow> ECS_PAIR_FIRST p = EcsWildcard \<Longrightarrow> ecs_id_is_wildcard p"
  shows "flecs_type_new_without src p =
    Inr (if \<exists>c \<in> set src. M c then Some (filter (\<lambda>c. \<not> M c) src) else None)"
proof (cases "\<exists>c \<in> set src. M c")
  case False
  then show ?thesis
    using type_find_at_spec [OF M sorted early, of 0]
    by (simp add: flecs_type_new_without_def flecs_type_find_def)
next
  case True
  let ?xs = "takeWhile (\<lambda>c. \<not> M c) src"
  let ?at = "length ?xs"
  have find: "flecs_type_find src p = Inr (Some ?at)"
    using type_find_at_spec [OF M sorted early, of 0] True by (simp add: flecs_type_find_def)
  have dW: "dropWhile (\<lambda>c. \<not> M c) src = drop ?at src" by (rule dropWhile_eq_drop)
  obtain y ys where y: "drop ?at src = y # ys" "M y"
    using True by (metis dW dropWhile_eq_Nil_conv hd_dropWhile list.exhaust list.sel(1))
  have ys: "drop (Suc ?at) src = ys" using y(1) by (metis drop_Suc list.sel(3) tl_drop)
  have len: "length src = ?at + Suc (length ys)"
    by (metis y(1) append_take_drop_id length_append length_Cons takeWhile_eq_take)
  show ?thesis
  proof (cases "length src = 1")
    case one: True
    then obtain c where "src = [c]" by (auto simp: length_Suc_conv)
    moreover have "flecs_type_find [c] p = Inr (Some 0)"
      using find True \<open>src = [c]\<close> by simp
    ultimately show ?thesis using True by (simp add: flecs_type_new_without_def)
  next
    case many: False
    show ?thesis
    proof (cases "ECS_IS_PAIR p \<and> ECS_PAIR_FIRST p = EcsWildcard \<and> ECS_PAIR_SECOND p \<noteq> EcsWildcard")
      case filt: True
      have "filter_unmatched (drop (?at + 1) src) p = Inr (filter (\<lambda>c. \<not> M c) (drop (?at + 1) src))"
        using M by (intro filter_unmatched_spec) (meson in_set_dropD)
      then show ?thesis
        using filt wild many True
        by (simp add: flecs_type_new_without_def find flecs_type_new_filtered_def
            takeWhile_eq_take [symmetric] filter_split [OF True, symmetric])
    next
      case run: False
      define n where "n = (if ecs_id_is_wildcard p then length (takeWhile M ys) else 0)"
      have n0: "takeWhile M ys = []" if "\<not> ecs_id_is_wildcard p"
      proof -
        have "\<not> M z" if "z \<in> set ys" for z
        proof
          assume "M z"
          have "y \<in> set src" "z \<in> set src"
            using y(1) that by (metis in_set_dropD list.set_intros(1), metis in_set_dropD list.set_intros(2))
          with \<open>M z\<close> y(2) single [OF \<open>\<not> ecs_id_is_wildcard p\<close>, of y z] have "y = z" by blast
          moreover have "sorted_wrt (<) (y # ys)"
            using sorted y(1) by (metis sorted_wrt_drop)
          ultimately show False using that by auto
        qed
        then show ?thesis by (cases ys) auto
      qed
      have "match_run ys p = Inr (length (takeWhile M ys))"
        using M ys by (intro match_run_spec) (metis in_set_dropD)
      then have cnt: "(if ecs_id_is_wildcard p
            then bindr (flecs_type_count_matches src p (?at + 1)) (\<lambda>n. Inr (1 + n)) else Inr 1) = Inr (1 + n)"
        using ys by (simp add: flecs_type_count_matches_def n_def)
      have nl: "n = length (takeWhile M ys)" using n0 by (simp add: n_def)
      have rest: "drop (?at + (1 + n)) src = dropWhile M ys"
        using ys nl by (metis add.assoc add.commute drop_drop dropWhile_eq_drop plus_1_eq_Suc)
      have lenr: "length (dropWhile M ys) = length src - (1 + n) - ?at"
        using len nl by (simp add: dropWhile_eq_drop)
      have res: "filter (\<lambda>c. \<not> M c) src = ?xs @ dropWhile M ys"
        using convex [OF run] y by (simp add: dW)
      have nf: "\<not> (ecs_id_is_wildcard p \<and> ECS_IS_PAIR p \<and>
          ECS_PAIR_FIRST p = EcsWildcard \<and> ECS_PAIR_SECOND p \<noteq> EcsWildcard)"
        using run by blast
      have "n \<le> length ys" unfolding nl by (rule length_takeWhile_le)
      then have "length (filter (\<lambda>c. \<not> M c) src) = length src - (1 + n)"
        using len lenr by (simp add: res)
      moreover have "flecs_type_new_without src p =
          (let dst_count = length src - (1 + n) in if dst_count = 0 then Inr (Some [])
           else Inr (Some (take ?at src @ take (dst_count - ?at) (drop (?at + (1 + n)) src))))"
        by (simp only: flecs_type_new_without_def find bindr_Inr option.case if_not_P [OF many]
            if_not_P [OF nf] cnt)
      moreover have "take ?at src = ?xs" by (rule takeWhile_eq_take [symmetric])
      ultimately show ?thesis
        using True rest lenr res
        by (cases "length src - (1 + n) = 0") (simp_all only: Let_def if_True if_False length_0_conv
            take_all_iff order_refl take_all refl)
    qed
  qed
qed

section \<open>Types of plain ids\<close>

text \<open>
  An id is plain when, if it is a pair, it carries no flag besides \<open>ECS_PAIR\<close> and both of its
  elements are set.
\<close>

definition plain_id :: "u64 \<Rightarrow> bool" where
  "plain_id c \<longleftrightarrow> (ECS_HAS_ID_FLAG c ECS_PAIR \<longrightarrow>
     c AND ECS_ID_FLAGS_MASK = ECS_PAIR \<and> ECS_PAIR_FIRST c \<noteq> 0 \<and> ECS_PAIR_SECOND c \<noteq> 0)"

lemma pair_elements_bounds: "ECS_PAIR_FIRST c < 0x10000000" "ECS_PAIR_SECOND c < 0x100000000"
proof -
  have "take_bit 28 (ECS_PAIR_FIRST c) = ECS_PAIR_FIRST c"
    unfolding ECS_PAIR_FIRST_def ecs_entity_t_hi_def
    by (rule bit_word_eqI) (auto simp: id_bits bit_take_bit_iff)
  then show "ECS_PAIR_FIRST c < 0x10000000"
    using take_bit_nat_less_exp [of 28 "unat (ECS_PAIR_FIRST c)"]
    by (simp add: word_less_nat_alt flip: unsigned_take_bit_eq)
  have "take_bit 32 (ECS_PAIR_SECOND c) = ECS_PAIR_SECOND c"
    unfolding ECS_PAIR_SECOND_def ecs_entity_t_lo_def
    by (rule bit_word_eqI) (auto simp: id_bits bit_take_bit_iff)
  then show "ECS_PAIR_SECOND c < 0x100000000"
    using take_bit_nat_less_exp [of 32 "unat (ECS_PAIR_SECOND c)"]
    by (simp add: word_less_nat_alt flip: unsigned_take_bit_eq)
qed

lemma plain_pair_eq:
  assumes "plain_id c" and "ECS_HAS_ID_FLAG c ECS_PAIR"
  shows "c = ecs_pair (ECS_PAIR_FIRST c) (ECS_PAIR_SECOND c)"
proof (rule bit_word_eqI)
  fix n :: nat assume n: "n < LENGTH(64)"
  have "c AND ECS_ID_FLAGS_MASK = ECS_PAIR" using assms by (simp add: plain_id_def)
  then have "bit (c AND ECS_ID_FLAGS_MASK) n = bit ECS_PAIR n" by simp
  then have flags: "bit c n \<longleftrightarrow> n = 63" if "60 \<le> n"
    using that n by (simp add: id_bits)
  show "bit c n = bit (ecs_pair (ECS_PAIR_FIRST c) (ECS_PAIR_SECOND c)) n"
    unfolding ecs_pair_def ECS_PAIR_FIRST_def ECS_PAIR_SECOND_def ecs_entity_t_hi_def
      ecs_entity_t_lo_def
    using n flags by (cases "60 \<le> n") (auto simp: id_bits bit_ecs_entity_t_comb)
qed

text \<open>What a pair pattern selects among plain ids.\<close>

definition pair_selects :: "u64 \<Rightarrow> u64 \<Rightarrow> u64 \<Rightarrow> bool" where
  "pair_selects pr pt c \<longleftrightarrow> ECS_HAS_ID_FLAG c ECS_PAIR \<and>
     (pr = EcsWildcard \<or> pr = ECS_PAIR_FIRST c) \<and> (pt = EcsWildcard \<or> pt = ECS_PAIR_SECOND c)"

lemma id_match_plain:
  assumes "plain_id c" and "0 < pr" "pr < 0x10000000" "0 < pt" "pt < 0x100000000" "pr \<noteq> EcsFlag"
  shows "ecs_id_match c (ecs_pair pr pt) = Inr (pair_selects pr pt c)"
proof (cases "ECS_HAS_ID_FLAG c ECS_PAIR")
  case True
  have "0 < ECS_PAIR_FIRST c" "0 < ECS_PAIR_SECOND c"
    using assms(1) True by (auto simp: plain_id_def word_neq_0_conv)
  with id_match_pairs [OF _ pair_elements_bounds(1) _ pair_elements_bounds(2) assms(2-6), of c c] True
  show ?thesis by (simp add: plain_pair_eq [OF assms(1) True, symmetric] pair_selects_def)
next
  case False
  moreover have "ECS_HAS_ID_FLAG (ecs_pair pr pt) ECS_PAIR" using assms(3) by (rule ecs_pair_flags)
  ultimately show ?thesis by (auto simp: ecs_id_match_def pair_selects_def)
qed

lemma unat_plain_pair:
  assumes "plain_id c" and "ECS_HAS_ID_FLAG c ECS_PAIR"
  shows "unat c = 2 ^ 63 + unat (ECS_PAIR_FIRST c) * 2 ^ 32 + unat (ECS_PAIR_SECOND c)"
  using unat_ecs_pair [OF pair_elements_bounds, of c c] plain_pair_eq [OF assms] by simp

lemma pair_selects_convex:
  assumes "plain_id a" "plain_id b" "plain_id c" and "a < b" "b < c"
    and "pair_selects pr pt a" "pair_selects pr pt c"
    and "\<not> (pr = EcsWildcard \<and> pt \<noteq> EcsWildcard)"
  shows "pair_selects pr pt b"
proof -
  have a: "ECS_HAS_ID_FLAG a ECS_PAIR" and c: "ECS_HAS_ID_FLAG c ECS_PAIR"
    using assms by (simp_all add: pair_selects_def)
  have lt: "unat a < unat b" "unat b < unat c" using assms(4,5) by (simp_all add: word_less_nat_alt)
  with a have b: "ECS_HAS_ID_FLAG b ECS_PAIR" by (simp add: has_pair_flag_iff)
  show ?thesis
  proof (cases "pt = EcsWildcard")
    case False
    with assms have "ECS_PAIR_FIRST a = ECS_PAIR_FIRST c" "ECS_PAIR_SECOND a = ECS_PAIR_SECOND c"
      by (auto simp: pair_selects_def)
    with lt show ?thesis
      using unat_plain_pair [OF assms(1) a] unat_plain_pair [OF assms(3) c] by simp
  next
    case True
    show ?thesis
    proof (cases "pr = EcsWildcard")
      case False
      with assms have eq: "ECS_PAIR_FIRST a = pr" "ECS_PAIR_FIRST c = pr"
        by (auto simp: pair_selects_def)
      have "unat (ECS_PAIR_SECOND x) < 2 ^ 32" for x
        using pair_elements_bounds(2) [of x] by (simp add: word_less_nat_alt)
      note this [of a] this [of b] this [of c]
      then have "unat (ECS_PAIR_FIRST b) = unat pr"
        using lt unat_plain_pair [OF assms(1) a] unat_plain_pair [OF assms(2) b]
          unat_plain_pair [OF assms(3) c] unfolding eq by simp
      then have "ECS_PAIR_FIRST b = pr" by (simp add: word_unat_eq_iff)
      then show ?thesis using b True by (simp add: pair_selects_def)
    qed (use b True in \<open>simp add: pair_selects_def\<close>)
  qed
qed

lemma ecs_id_is_wildcard_pair:
  assumes "pr < 0x10000000" "pt < 0x100000000"
  shows "ecs_id_is_wildcard (ecs_pair pr pt) \<longleftrightarrow>
    pr \<in> {EcsWildcard, EcsAny} \<or> pt \<in> {EcsWildcard, EcsAny}"
proof -
  have "2 ^ 63 \<le> unat (ecs_pair pr pt)" using ecs_pair_flags(3) [OF assms(1)]
    by (simp add: has_pair_flag_iff)
  then have "ecs_pair pr pt \<noteq> EcsWildcard" "ecs_pair pr pt \<noteq> EcsAny"
    by (auto simp: EcsWildcard_def EcsAny_def FLECS_HI_COMPONENT_ID_def)
  then show ?thesis
    using assms by (auto simp: ecs_id_is_wildcard_def Let_def ECS_IS_PAIR_ecs_pair ecs_pair_flags
        ecs_pair_elements)
qed

lemma flecs_type_new_without_pair:
  assumes "sorted_wrt (<) src" and "\<And>c. c \<in> set src \<Longrightarrow> plain_id c"
    and "0 < pr" "pr < 0x10000000" "0 < pt" "pt < 0x100000000" "pr \<noteq> EcsFlag"
  shows "flecs_type_new_without src (ecs_pair pr pt) =
    Inr (if \<exists>c \<in> set src. pair_selects pr pt c
         then Some (filter (\<lambda>c. \<not> pair_selects pr pt c) src) else None)"
proof (rule flecs_type_new_without_spec)
  show "ecs_id_match c (ecs_pair pr pt) = Inr (pair_selects pr pt c)" if "c \<in> set src" for c
    using assms that by (simp add: id_match_plain)
  show "sorted_wrt (<) src" by (rule assms)
  show "c \<le> ecs_pair pr pt" if "\<not> ECS_IS_PAIR (ecs_pair pr pt)" for c
    using that assms by (simp add: ECS_IS_PAIR_ecs_pair)
  show "filter (\<lambda>c. \<not> pair_selects pr pt c) src = takeWhile (\<lambda>c. \<not> pair_selects pr pt c) src
      @ dropWhile (pair_selects pr pt) (dropWhile (\<lambda>c. \<not> pair_selects pr pt c) src)"
    if "\<not> (ECS_IS_PAIR (ecs_pair pr pt) \<and> ECS_PAIR_FIRST (ecs_pair pr pt) = EcsWildcard \<and>
         ECS_PAIR_SECOND (ecs_pair pr pt) \<noteq> EcsWildcard)"
  proof (rule sorted_convex_run [OF assms(1)])
    fix a b c assume "a \<in> set src" "b \<in> set src" "c \<in> set src" "a < b" "b < c"
      "pair_selects pr pt a" "pair_selects pr pt c"
    moreover have "\<not> (pr = EcsWildcard \<and> pt \<noteq> EcsWildcard)"
      using that assms by (simp add: ECS_IS_PAIR_ecs_pair ecs_pair_elements)
    ultimately show "pair_selects pr pt b" using assms(2) by (blast intro: pair_selects_convex)
  qed
  show "c = d" if "\<not> ecs_id_is_wildcard (ecs_pair pr pt)" "c \<in> set src" "d \<in> set src"
    "pair_selects pr pt c" "pair_selects pr pt d" for c d
  proof -
    have "pr \<noteq> EcsWildcard" "pt \<noteq> EcsWildcard"
      using that(1) assms by (auto simp: ecs_id_is_wildcard_pair)
    then have "ECS_PAIR_FIRST c = ECS_PAIR_FIRST d" "ECS_PAIR_SECOND c = ECS_PAIR_SECOND d"
      using that(4,5) by (auto simp: pair_selects_def)
    then show ?thesis
      using that plain_pair_eq [of c] plain_pair_eq [of d] assms(2) by (auto simp: pair_selects_def)
  qed
  show "ecs_id_is_wildcard (ecs_pair pr pt)"
    if "ECS_PAIR_FIRST (ecs_pair pr pt) = EcsWildcard"
    using that assms by (simp add: ecs_id_is_wildcard_pair ecs_pair_elements)
qed

text \<open>Removing a component that is not a pair and not a wildcard.\<close>

lemma id_match_component:
  assumes "\<not> ECS_HAS_ID_FLAG p ECS_PAIR" and "ECS_COMPONENT_MASK AND p \<noteq> EcsWildcard"
  shows "ecs_id_match c p = Inr (c = p)"
  using assms by (simp add: ecs_id_match_def)

lemma not_has_pair_not_pair: "\<not> ECS_HAS_ID_FLAG p ECS_PAIR \<Longrightarrow> \<not> ECS_IS_PAIR p"
proof
  assume "\<not> ECS_HAS_ID_FLAG p ECS_PAIR" "ECS_IS_PAIR p"
  then have "bit (p AND ECS_ID_FLAGS_MASK) 63" "\<not> bit (p AND ECS_PAIR) 63"
    by (auto simp: ECS_IS_PAIR_def ECS_IS_VALUE_PAIR_def bit_ECS_PAIR bit_ECS_VALUE_PAIR
        ECS_HAS_ID_FLAG_def)
  then show False by (simp add: id_bits)
qed

lemma flecs_type_new_without_component:
  assumes "sorted_wrt (<) src"
    and "\<not> ECS_HAS_ID_FLAG p ECS_PAIR" and "ECS_COMPONENT_MASK AND p \<noteq> EcsWildcard"
  shows "flecs_type_new_without src p =
    Inr (if p \<in> set src then Some (filter (\<lambda>c. c \<noteq> p) src) else None)"
proof -
  have "flecs_type_new_without src p =
      Inr (if \<exists>c \<in> set src. c = p then Some (filter (\<lambda>c. \<not> c = p) src) else None)"
    using assms not_has_pair_not_pair [OF assms(2)]
    by (intro flecs_type_new_without_spec sorted_convex_run) (auto simp: id_match_component)
  then show ?thesis by simp
qed

section \<open>Accumulating differences\<close>

lemma vec_read_n_ok:
  assumes "vec_ok vec" and "offset + n \<le> vec_count vec"
  shows "vec_read_n vec offset n = Inr (take n (drop offset (vec_elems vec)))"
  using assms(2)
proof (induction n)
  case (Suc n)
  then have "for_each [offset..<offset + n] (\<lambda>i xs. bindr (vec_read vec i) (\<lambda>x. Inr (xs @ [x]))) []
      = Inr (take n (drop offset (vec_elems vec)))" by (simp add: vec_read_n_def)
  moreover have "take (Suc n) (drop offset (vec_elems vec)) =
      take n (drop offset (vec_elems vec)) @ [vec_elems vec ! (offset + n)]"
    using Suc.prems assms(1) by (simp add: take_Suc_snoc)
  ultimately show ?case
    using Suc.prems assms(1) by (simp add: vec_read_n_def for_each_append)
qed (simp add: vec_read_n_def)

lemma diff_build_add_ok:
  assumes "vec_ok vec" and "vec_count vec + length add \<le> 2 ^ 30"
  shows "\<exists>vec'. flecs_table_diff_build_add_type_to_vec vec add = Inr vec' \<and> vec_ok vec' \<and>
    vec_elems vec' = vec_elems vec @ add"
proof (cases "add = []")
  case True
  then show ?thesis using assms by (simp add: flecs_table_diff_build_add_type_to_vec_def)
next
  case False
  define c where "c = vec_count vec"
  define g where "g = ecs_vec_set_count vec (c + length add)"
  define I where "I i w \<longleftrightarrow> vec_wf w \<and> vec_count w = c + length add \<and>
    (\<forall>j < c + i. vec_array w ! j = Some ((vec_elems vec @ add) ! j))" for i and w :: "u64 ecs_vec_t"
  have g: "vec_wf g" "vec_count g = c + length add"
    "j < c \<Longrightarrow> vec_array g ! j = vec_array vec ! j" for j
    using ecs_vec_set_count_wf [OF vec_okD [OF assms(1)], of "c + length add"] assms(2)
    by (auto simp: g_def c_def)
  have el: "length (vec_elems vec) = c" using assms(1) by (simp add: c_def)
  have "I 0 g" using g assms(1) el by (auto simp: I_def nth_append vec_ok_cell c_def)
  moreover have "\<exists>w'. vec_write w (c + i) (add ! i) = Inr w' \<and> I (Suc i) w'"
    if "i < length add" "I i w" for i w
    using that el by (auto simp: I_def vec_write_def vec_wf_def nth_list_update nth_append less_Suc_eq)
  ultimately obtain w where w: "for_each [0..<length add] (\<lambda>i w. vec_write w (c + i) (add ! i)) g = Inr w"
    "I (length add) w"
    using for_each_upt_rule [of 0 "length add" I g "\<lambda>i w. vec_write w (c + i) (add ! i)"] by auto
  then have "vec_ok w \<and> vec_elems w = vec_elems vec @ add"
    using el by (intro vec_okI) (auto simp: I_def)
  moreover have "flecs_table_diff_build_add_type_to_vec vec add = Inr w"
    using False w(1) g(2)
    by (simp add: flecs_table_diff_build_add_type_to_vec_def ecs_vec_grow_def Let_def
        c_def [symmetric] g_def [symmetric])
  ultimately show ?thesis by blast
qed

lemma diff_build_type_ok:
  assumes "vec_ok vec" and "offset \<le> vec_count vec"
  shows "\<exists>vec'. flecs_table_diff_build_type vec [] offset = Inr (vec', drop offset (vec_elems vec)) \<and>
    vec_ok vec' \<and> vec_elems vec' = take offset (vec_elems vec)"
proof (cases "vec_count vec = offset")
  case True
  then show ?thesis using assms by (simp add: flecs_table_diff_build_type_def)
next
  case False
  have "vec_read_n vec offset (vec_count vec - offset) = Inr (drop offset (vec_elems vec))"
    using vec_read_n_ok [OF assms(1), of offset "vec_count vec - offset"] assms by simp
  with False assms show ?thesis by (simp add: flecs_table_diff_build_type_def Let_def)
qed

text \<open>The differences of a path fit the builder.\<close>

definition diffs_bounded :: "ecs_table_diff_builder_t \<Rightarrow> ecs_table_diff_t list \<Rightarrow> bool" where
  "diffs_bounded b ds \<longleftrightarrow> vec_ok (builder_added b) \<and> vec_ok (builder_removed b) \<and>
     vec_count (builder_added b) + sum_list (map (length \<circ> diff_added) ds) \<le> 2 ^ 30 \<and>
     vec_count (builder_removed b) + sum_list (map (length \<circ> diff_removed) ds) \<le> 2 ^ 30"

lemma diff_append_path:
  assumes "diffs_bounded b ds"
  shows "\<exists>b'. for_each ds (\<lambda>d b. flecs_table_diff_build_append_table b d) b = Inr b' \<and>
    vec_ok (builder_added b') \<and> vec_ok (builder_removed b') \<and>
    vec_elems (builder_added b') = vec_elems (builder_added b) @ concat (map diff_added ds) \<and>
    vec_elems (builder_removed b') = vec_elems (builder_removed b) @ concat (map diff_removed ds) \<and>
    builder_added_flags b' = foldl (OR) (builder_added_flags b) (map diff_added_flags ds) \<and>
    builder_removed_flags b' = foldl (OR) (builder_removed_flags b) (map diff_removed_flags ds)"
  using assms
proof (induction ds arbitrary: b)
  case (Cons d ds)
  obtain av where av: "flecs_table_diff_build_add_type_to_vec (builder_added b) (diff_added d) = Inr av"
    "vec_ok av" "vec_elems av = vec_elems (builder_added b) @ diff_added d"
    using diff_build_add_ok [of "builder_added b" "diff_added d"] Cons.prems by (auto simp: diffs_bounded_def)
  obtain rv where rv: "flecs_table_diff_build_add_type_to_vec (builder_removed b) (diff_removed d) = Inr rv"
    "vec_ok rv" "vec_elems rv = vec_elems (builder_removed b) @ diff_removed d"
    using diff_build_add_ok [of "builder_removed b" "diff_removed d"] Cons.prems
    by (auto simp: diffs_bounded_def)
  let ?b = "\<lparr>builder_added = av, builder_removed = rv,
    builder_added_flags = builder_added_flags b OR diff_added_flags d,
    builder_removed_flags = builder_removed_flags b OR diff_removed_flags d\<rparr>"
  have step: "flecs_table_diff_build_append_table b d = Inr ?b"
    using av(1) rv(1) by (simp add: flecs_table_diff_build_append_table_def)
  have "vec_count av = vec_count (builder_added b) + length (diff_added d)"
    "vec_count rv = vec_count (builder_removed b) + length (diff_removed d)"
    using arg_cong [OF av(3), of length] arg_cong [OF rv(3), of length] av(2) rv(2) Cons.prems
    by (simp_all add: diffs_bounded_def)
  then have "diffs_bounded ?b ds" using Cons.prems av(2) rv(2) by (simp add: diffs_bounded_def)
  from Cons.IH [OF this] step av rv show ?case by simp
qed (simp add: diffs_bounded_def)

section \<open>Properties\<close>

text \<open>
  C16: adding an id to a type returns a strictly sorted type whose ids are those of the type and
  the added one; adding an id that is already there changes nothing.
\<close>

theorem flecs_type_add_insert:
  assumes "sorted_wrt (<) type"
  shows "sorted_wrt (<) (flecs_type_add type a) \<and> set (flecs_type_add type a) = insert a (set type) \<and>
    (a \<in> set type \<longrightarrow> flecs_type_add type a = type)"
proof (cases "flecs_type_new_with type a")
  case None
  then have "a \<in> set type" using assms by (simp add: flecs_type_new_with_eq split: if_splits)
  with None assms show ?thesis by (auto simp: flecs_type_add_def)
next
  case (Some dst)
  with flecs_type_new_with_sorted [OF assms Some] show ?thesis by (simp add: flecs_type_add_def)
qed

theorem flecs_type_add_insert_witness:
  "set (flecs_type_add [3, 9] 5) = {3, 5, 9}"
  using flecs_type_add_insert [of "[3, 9]" 5] by auto

text \<open>
  C15: removing a pair pattern from a type of plain ids never trips an assertion and deletes
  exactly the ids that the pattern selects, keeping the order of the others: a concrete pair
  removes itself, \<open>(R, *)\<close> and \<open>(*, *)\<close> remove a contiguous run of pairs (found by counting
  matches), and \<open>(*, T)\<close> removes scattered pairs (by filtering).
\<close>

theorem flecs_type_remove_pair:
  assumes "sorted_wrt (<) type" and "list_all plain_id type"
    and "0 < pr" "pr < 0x10000000" "0 < pt" "pt < 0x100000000" "pr \<noteq> EcsFlag"
  shows "flecs_type_remove type (ecs_pair pr pt) =
    Inr (filter (\<lambda>c. \<not> pair_selects pr pt c) type)"
proof -
  have "filter (\<lambda>c. \<not> pair_selects pr pt c) type = type" if "\<not> (\<exists>c \<in> set type. pair_selects pr pt c)"
    using that by (auto simp: filter_id_conv)
  then show ?thesis
    using flecs_type_new_without_pair [OF assms(1) _ assms(3-7)] assms(2)
    by (simp add: flecs_type_remove_def list_all_iff)
qed

theorem flecs_type_remove_pair_witness:
  "flecs_type_remove [7, ecs_pair 300 5, ecs_pair 300 6, ecs_pair 301 5] (ecs_pair EcsWildcard 5) =
     Inr [7, ecs_pair 300 6]"
  using flecs_type_remove_pair
    [of "[7, ecs_pair 300 5, ecs_pair 300 6, ecs_pair 301 5]" EcsWildcard 5]
  by (simp add: plain_id_def pair_selects_def id_macro_defs id_const_defs)

text \<open>
  C32: adding an id that is not a pair and not in the type, then removing it, gives the type back.
\<close>

theorem flecs_type_add_remove:
  assumes "sorted_wrt (<) type" and "a \<notin> set type"
    and "\<not> ECS_HAS_ID_FLAG a ECS_PAIR" and "ECS_COMPONENT_MASK AND a \<noteq> EcsWildcard"
  shows "flecs_type_remove (flecs_type_add type a) a = Inr type"
proof -
  define dst where "dst = takeWhile (\<lambda>c. c < a) type @ [a] @ dropWhile (\<lambda>c. c < a) type"
  have new: "flecs_type_new_with type a = Some dst"
    using assms(1,2) by (simp add: flecs_type_new_with_eq dst_def)
  have "filter (\<lambda>c. c \<noteq> a) dst = filter (\<lambda>c. c \<noteq> a) (takeWhile (\<lambda>c. c < a) type @ dropWhile (\<lambda>c. c < a) type)"
    unfolding dst_def filter_append by simp
  also have "\<dots> = type" using assms(2) by (auto simp: filter_id_conv)
  finally have "filter (\<lambda>c. c \<noteq> a) dst = type" .
  with flecs_type_new_without_component [OF flecs_type_new_with_sorted(1) [OF assms(1) new] assms(3,4)]
    flecs_type_new_with_sorted(2) [OF assms(1) new] new
  show ?thesis by (simp add: flecs_type_add_def flecs_type_remove_def)
qed

theorem flecs_type_add_remove_witness:
  "flecs_type_remove (flecs_type_add [3, 9] 5) 5 = Inr [3, 9]"
  using flecs_type_add_remove [of "[3, 9]" 5] by (simp add: id_macro_defs id_const_defs)

text \<open>
  \<open>flecs_type_compare\<close> is a total order on types: it is 0 exactly on equal types, it is
  antisymmetric and it is transitive.
\<close>

theorem flecs_type_compare_order:
  "(flecs_type_compare a b = 0 \<longleftrightarrow> a = b) \<and>
   flecs_type_compare b a = - flecs_type_compare a b \<and>
   (flecs_type_compare a b \<le> 0 \<longrightarrow> flecs_type_compare b c \<le> 0 \<longrightarrow> flecs_type_compare a c \<le> 0)"
proof (intro conjI impI)
  show "flecs_type_compare a b = 0 \<longleftrightarrow> a = b"
    by (auto simp: flecs_type_compare_def ids_compare_0)
  show "flecs_type_compare b a = - flecs_type_compare a b"
    by (auto simp: flecs_type_compare_def ids_compare_sym [of b a])
  show "flecs_type_compare a c \<le> 0" if "flecs_type_compare a b \<le> 0" "flecs_type_compare b c \<le> 0"
    using that ids_compare_trans [of a b c] by (auto simp: flecs_type_compare_def split: if_splits)
qed

theorem flecs_type_compare_order_witness:
  "flecs_type_compare [3] [4] \<le> 0 \<and> flecs_type_compare [4] [2, 5] \<le> 0 \<and>
   flecs_type_compare [3] [2, 5] \<le> 0"
  using flecs_type_compare_order [of "[3]" "[4]" "[2, 5]"] by (simp add: flecs_type_compare_def)

text \<open>
  C22: appending the differences of a path of table edges to a builder and then building from the
  offsets recorded before returns the concatenation of the added and of the removed ids of the
  path, with the flags of the builder and of the path combined.  Both id vectors of the builder are then
  well-formed and hold what they held before the path; its flags stay combined with those of the path.
\<close>

theorem flecs_table_diff_build_path:
  assumes "diffs_bounded b ds"
  shows "\<exists>b' b'' diff. for_each ds (\<lambda>d b. flecs_table_diff_build_append_table b d) b = Inr b' \<and>
    flecs_table_diff_build b' \<lparr>diff_added = [], diff_removed = [], diff_added_flags = 0, diff_removed_flags = 0\<rparr>
      (vec_count (builder_added b)) (vec_count (builder_removed b)) = Inr (b'', diff) \<and>
    diff_added diff = concat (map diff_added ds) \<and> diff_removed diff = concat (map diff_removed ds) \<and>
    diff_added_flags diff = foldl (OR) (builder_added_flags b) (map diff_added_flags ds) \<and>
    diff_removed_flags diff = foldl (OR) (builder_removed_flags b) (map diff_removed_flags ds) \<and>
    vec_elems (builder_added b'') = vec_elems (builder_added b) \<and>
    vec_elems (builder_removed b'') = vec_elems (builder_removed b) \<and>
    vec_ok (builder_added b'') \<and> vec_ok (builder_removed b'') \<and>
    builder_added_flags b'' = foldl (OR) (builder_added_flags b) (map diff_added_flags ds) \<and>
    builder_removed_flags b'' = foldl (OR) (builder_removed_flags b) (map diff_removed_flags ds)"
proof -
  obtain b' where b': "for_each ds (\<lambda>d b. flecs_table_diff_build_append_table b d) b = Inr b'"
    "vec_ok (builder_added b')" "vec_ok (builder_removed b')"
    "vec_elems (builder_added b') = vec_elems (builder_added b) @ concat (map diff_added ds)"
    "vec_elems (builder_removed b') = vec_elems (builder_removed b) @ concat (map diff_removed ds)"
    "builder_added_flags b' = foldl (OR) (builder_added_flags b) (map diff_added_flags ds)"
    "builder_removed_flags b' = foldl (OR) (builder_removed_flags b) (map diff_removed_flags ds)"
    using diff_append_path [OF assms] by blast
  have ok: "vec_ok (builder_added b)" "vec_ok (builder_removed b)"
    using assms by (simp_all add: diffs_bounded_def)
  have n: "vec_count (builder_added b) \<le> vec_count (builder_added b')"
    "vec_count (builder_removed b) \<le> vec_count (builder_removed b')"
    using arg_cong [OF b'(4), of length] arg_cong [OF b'(5), of length] b'(2,3) ok by simp_all
  show ?thesis
    using diff_build_type_ok [OF b'(2) n(1)] diff_build_type_ok [OF b'(3) n(2)] b' ok
    by (auto simp: flecs_table_diff_build_def)
qed

theorem flecs_table_diff_build_path_witness:
  "\<exists>b' b'' diff. for_each
      [\<lparr>diff_added = [4, 5], diff_removed = [], diff_added_flags = 1, diff_removed_flags = 0\<rparr>,
       \<lparr>diff_added = [6], diff_removed = [3], diff_added_flags = 2, diff_removed_flags = 8\<rparr>]
      (\<lambda>d b. flecs_table_diff_build_append_table b d) flecs_table_diff_builder_init = Inr b' \<and>
    flecs_table_diff_build b' \<lparr>diff_added = [], diff_removed = [], diff_added_flags = 0, diff_removed_flags = 0\<rparr> 0 0
      = Inr (b'', diff) \<and>
    diff_added diff = [4, 5, 6] \<and> diff_added_flags diff = 3"
  using flecs_table_diff_build_path [of flecs_table_diff_builder_init
    "[\<lparr>diff_added = [4, 5], diff_removed = [], diff_added_flags = 1, diff_removed_flags = 0\<rparr>,
      \<lparr>diff_added = [6], diff_removed = [3], diff_added_flags = 2, diff_removed_flags = 8\<rparr>]"]
  by (fastforce simp: diffs_bounded_def flecs_table_diff_builder_init_def)

end
