(* ===== verification/Dense.thy ===== *)
theory Dense
  imports Prelude
begin

text \<open>
  The dense / sparse index pair that the entity index (\<open>src/storage/entity_index.c\<close>) and the
  sparse set (\<open>src/datastructures/sparse.c\<close>) share.

  A dense array holds the elements in use (its cell 0 is reserved), and every key has the
  position of its element in the array, 0 when it has none.  The elements before \<open>count\<close> are
  alive, those from \<open>count\<close> on are kept for recycling.  The lemmas give the three updates that
  the code makes: appending, exchanging two positions, and cutting off the tail.
\<close>

section \<open>Consistency of positions and elements\<close>

definition dense_consistent :: "('e \<Rightarrow> 'k) \<Rightarrow> 'e list \<Rightarrow> ('k \<Rightarrow> nat) \<Rightarrow> bool" where
  "dense_consistent key D pos \<longleftrightarrow>
     (\<forall>i. 0 < i \<and> i < length D \<longrightarrow> pos (key (D ! i)) = i) \<and>
     (\<forall>k. 0 < pos k \<longrightarrow> pos k < length D \<and> key (D ! pos k) = k)"

lemma dense_consistentD:
  assumes "dense_consistent key D pos"
  shows "0 < i \<Longrightarrow> i < length D \<Longrightarrow> pos (key (D ! i)) = i"
    and "0 < pos k \<Longrightarrow> pos k < length D"
    and "0 < pos k \<Longrightarrow> key (D ! pos k) = k"
  using assms by (auto simp: dense_consistent_def)

lemma dense_consistent_inj:
  assumes "dense_consistent key D pos" and "0 < i" "i < length D" "0 < j" "j < length D"
    and "key (D ! i) = key (D ! j)"
  shows "i = j"
  using assms dense_consistentD(1) [OF assms(1)] by metis

lemma dense_consistent_append:
  assumes "dense_consistent key D pos" and "0 < length D" and "pos (key e) = 0"
  shows "dense_consistent key (D @ [e]) (pos(key e := length D))"
proof -
  have "key (D ! i) \<noteq> key e" if "0 < i" "i < length D" for i
    using dense_consistentD(1) [OF assms(1) that] assms(3) that(1) by auto
  with assms show ?thesis
    by (auto simp: dense_consistent_def nth_append less_Suc_eq)
qed

text \<open>
  The element at \<open>j\<close> moves to \<open>i\<close>, and \<open>e\<close>, a new version of the element at \<open>i\<close>, to \<open>j\<close>.
\<close>

lemma dense_consistent_exchange:
  assumes D: "dense_consistent key D pos" and ij: "0 < i" "i < length D" "0 < j" "j < length D"
    and e: "key e = key (D ! i)"
  shows "dense_consistent key (D[i := D ! j, j := e]) (pos(key (D ! j) := i, key e := j))"
proof -
  let ?D = "D[i := D ! j, j := e]" and ?pos = "pos(key (D ! j) := i, key e := j)"
  have nth: "?D ! n = (if n = j then e else if n = i then D ! j else D ! n)" if "n < length D" for n
    using that ij by (auto simp: nth_list_update)
  have pos: "?pos (key (D ! n)) = (if n = i then j else if n = j then i else n)"
    if "0 < n" "n < length D" for n
    using dense_consistentD(1) [OF D that] dense_consistent_inj [OF D that] ij e by auto
  have "?pos (key (?D ! n)) = n" if "0 < n" "n < length ?D" for n
    using that ij e pos [of n] pos [of i] pos [of j] nth [of n] by (auto split: if_splits)
  moreover have "?pos k < length ?D \<and> key (?D ! ?pos k) = k" if "0 < ?pos k" for k
  proof (cases "k = key e \<or> k = key (D ! j)")
    case True
    then show ?thesis using ij e nth [of i] nth [of j] by auto
  next
    case False
    then have p: "0 < pos k" using that by simp
    note * = dense_consistentD(2,3) [OF D p]
    have "pos k \<noteq> i" "pos k \<noteq> j" using False * e by auto
    then show ?thesis using False * nth [of "pos k"] by auto
  qed
  ultimately show ?thesis by (simp add: dense_consistent_def)
qed

text \<open>A new version of the element at \<open>i\<close>.\<close>

lemma dense_consistent_update:
  assumes "dense_consistent key D pos" and "key e = key (D ! i)"
  shows "dense_consistent key (D[i := e]) pos"
proof -
  have nth: "D[i := e] ! n = (if n = i then e else D ! n)" if "n < length D" for n
    using that by (simp add: nth_list_update)
  show ?thesis
    unfolding dense_consistent_def
  proof (intro conjI allI impI)
    show "pos (key (D[i := e] ! n)) = n" if "0 < n \<and> n < length (D[i := e])" for n
      using that assms(2) dense_consistentD(1) [OF assms(1), of n] nth [of n] by (cases "n = i") auto
    fix k assume p: "0 < pos k"
    note * = dense_consistentD(2,3) [OF assms(1) p]
    then show "pos k < length (D[i := e])" by simp
    show "key (D[i := e] ! pos k) = k" using * assms(2) nth [of "pos k"] by (cases "pos k = i") auto
  qed
qed

text \<open>Cutting off the tail, once the positions of its elements have been zeroed.\<close>

lemma dense_consistent_take:
  assumes "dense_consistent key D pos"
    and "\<And>k. pos' k = (if n \<le> pos k then 0 else pos k)"
  shows "dense_consistent key (take n D) pos'"
  using assms(1) by (auto simp: dense_consistent_def assms(2))

lemma dense_consistent_cong:
  assumes "dense_consistent key D pos" and "\<And>k. pos' k = pos k"
  shows "dense_consistent key D pos'"
  using assms by (simp add: dense_consistent_def)

lemma dense_consistent_head:
  assumes "dense_consistent key D pos" and "length D' = length D"
    and "\<And>i. 0 < i \<Longrightarrow> i < length D \<Longrightarrow> D' ! i = D ! i"
  shows "dense_consistent key D' pos"
  using assms by (simp add: dense_consistent_def)

section \<open>The elements alive\<close>

definition dense_alive :: "'e list \<Rightarrow> nat \<Rightarrow> 'e set" where
  "dense_alive D n = (!) D ` {0<..<n}"

lemma dense_aliveI: "0 < i \<Longrightarrow> i < n \<Longrightarrow> D ! i \<in> dense_alive D n"
  by (simp add: dense_alive_def)

lemma dense_aliveE:
  assumes "x \<in> dense_alive D n"
  obtains i where "0 < i" "i < n" "x = D ! i"
  using assms by (auto simp: dense_alive_def)

lemma dense_alive_iff:
  assumes "dense_consistent key D pos" and "n \<le> length D"
  shows "e \<in> dense_alive D n \<longleftrightarrow> 0 < pos (key e) \<and> pos (key e) < n \<and> D ! pos (key e) = e"
proof
  assume "e \<in> dense_alive D n"
  then obtain i where i: "0 < i" "i < n" "e = D ! i" by (auto simp: dense_alive_def)
  with dense_consistentD(1) [OF assms(1), of i] assms(2)
  show "0 < pos (key e) \<and> pos (key e) < n \<and> D ! pos (key e) = e" by simp
next
  assume "0 < pos (key e) \<and> pos (key e) < n \<and> D ! pos (key e) = e"
  then show "e \<in> dense_alive D n" by (metis dense_aliveI)
qed

lemma dense_alive_Suc: "0 < n \<Longrightarrow> dense_alive D (Suc n) = insert (D ! n) (dense_alive D n)"
  by (auto simp: dense_alive_def greaterThanLessThan_iff less_Suc_eq)

lemma dense_alive_cong:
  "(\<And>i. 0 < i \<Longrightarrow> i < n \<Longrightarrow> D ! i = D' ! i) \<Longrightarrow> dense_alive D n = dense_alive D' n"
  unfolding dense_alive_def by (intro image_cong) auto

lemma dense_alive_append [simp]: "n \<le> length D \<Longrightarrow> dense_alive (D @ E) n = dense_alive D n"
  by (rule dense_alive_cong) (simp add: nth_append)

lemma dense_alive_take [simp]: "n \<le> m \<Longrightarrow> dense_alive (take m D) n = dense_alive D n"
  by (rule dense_alive_cong) simp

lemma dense_alive_distinct:
  assumes "dense_consistent key D pos" and "n < length D" and "0 < n"
  shows "D ! n \<notin> dense_alive D n"
proof
  assume "D ! n \<in> dense_alive D n"
  then obtain i where i: "0 < i" "i < n" "D ! n = D ! i" by (rule dense_aliveE)
  with dense_consistent_inj [OF assms(1), of n i] assms(2,3) show False by simp
qed

text \<open>The exchange that takes the element at \<open>i\<close> out of the alive part.\<close>

lemma dense_alive_exchange_out:
  assumes D: "dense_consistent key D pos" and i: "0 < i" "i \<le> n" "n < length D"
  shows "dense_alive (D[i := D ! n, n := e]) n = dense_alive D (Suc n) - {D ! i}"
proof -
  have n: "0 < n" using i by simp
  have ne: "D ! m \<noteq> D ! i" if "0 < m" "m < length D" "m \<noteq> i" for m
    using dense_consistent_inj [OF D that(1,2) i(1)] that(3) i by auto
  have nth: "D[i := D ! n, n := e] ! m = (if m = i then D ! n else D ! m)" if "m < n" for m
    using that i by (auto simp: nth_list_update)
  show ?thesis
  proof (intro equalityI subsetI)
    fix x assume "x \<in> dense_alive (D[i := D ! n, n := e]) n"
    then obtain m where m: "0 < m" "m < n" "x = (if m = i then D ! n else D ! m)"
      using nth by (auto simp: dense_alive_def)
    then show "x \<in> dense_alive D (Suc n) - {D ! i}"
      using ne [of n] ne [of m] n i by (auto intro: dense_aliveI split: if_splits)
  next
    fix x assume "x \<in> dense_alive D (Suc n) - {D ! i}"
    then obtain m where m: "0 < m" "m < Suc n" "x = D ! m" "m \<noteq> i"
      by (metis DiffE dense_aliveE singletonI)
    show "x \<in> dense_alive (D[i := D ! n, n := e]) n"
    proof (cases "m = n")
      case True
      then have "i < n" "x = D[i := D ! n, n := e] ! i" using m i nth [of i] by auto
      then show ?thesis using i by (metis dense_aliveI)
    next
      case False
      then have "m < n" "x = D[i := D ! n, n := e] ! m" using m nth [of m] by auto
      then show ?thesis using m(1) by (metis dense_aliveI)
    qed
  qed
qed

text \<open>The exchange that brings a new version of the element at \<open>i\<close> into the alive part.\<close>

lemma dense_alive_exchange_in:
  assumes "0 < n" "n \<le> i" "i < length D"
  shows "dense_alive (D[i := D ! n, n := e]) (Suc n) = insert e (dense_alive D n)"
proof -
  have "dense_alive (D[i := D ! n, n := e]) n = dense_alive D n"
    using assms by (intro dense_alive_cong) (simp add: nth_list_update)
  then show ?thesis using assms by (simp add: dense_alive_Suc)
qed

end
