(* ===== verification/EntityIndex.thy ===== *)
theory EntityIndex
  imports Types Dense
begin

text \<open>
  The entity index of \<open>src/storage/entity_index.c\<close>: it issues entity ids, recycles them with a
  new generation, tells whether an id is alive, and stores the table and row of each entity.
  Also the entity ranges of \<open>src/world.c\<close>, which partition the id space.

  The dense vector and the page vector are the vectors of \<open>Vec\<close>; a page is a fixed array of
  records, given as a function of the slot.  A pointer to a record is the 32-bit id whose slot it
  points to.  Ranges are heap objects: a pointer to a range is its position in
  \<open>eis_range_store\<close>, since ranges live as long as the index.  Counts and dense positions
  (\<open>int32_t\<close>) are natural numbers.
\<close>

section \<open>State\<close>

record ecs_record_t =
  rec_table :: "nat option"
  rec_row :: u32
  rec_dense :: nat

definition zero_record :: ecs_record_t where
  "zero_record = \<lparr>rec_table = None, rec_row = 0, rec_dense = 0\<rparr>"

type_synonym ecs_entity_index_page_t = "nat \<Rightarrow> ecs_record_t"

record ecs_entity_range_t =
  range_min :: u32
  range_max :: u32
  range_cur :: u32
  range_recycled :: "u64 ecs_vec_t"

record ecs_entity_index_t =
  eis_dense :: "u64 ecs_vec_t"
  eis_pages :: "ecs_entity_index_page_t option ecs_vec_t"
  eis_ranges :: "nat ecs_vec_t"
  eis_active_range :: "nat option"
  eis_alive_count :: nat
  eis_max_id :: u32
  eis_range_store :: "ecs_entity_range_t list"

definition FLECS_ENTITY_PAGE_BITS :: nat where "FLECS_ENTITY_PAGE_BITS = 10"
definition FLECS_ENTITY_PAGE_SIZE :: nat where "FLECS_ENTITY_PAGE_SIZE = 2 ^ FLECS_ENTITY_PAGE_BITS"
definition FLECS_ENTITY_PAGE_MASK :: u32 where "FLECS_ENTITY_PAGE_MASK = 2 ^ FLECS_ENTITY_PAGE_BITS - 1"

definition entity_page_index :: "u32 \<Rightarrow> nat" where
  "entity_page_index cid = unat (drop_bit FLECS_ENTITY_PAGE_BITS cid)"

definition entity_page_slot :: "u32 \<Rightarrow> nat" where
  "entity_page_slot cid = unat (cid AND FLECS_ENTITY_PAGE_MASK)"

text \<open>Accesses through a record pointer.\<close>

definition record_read :: "ecs_entity_index_t \<Rightarrow> u32 \<Rightarrow> ecs_record_t res" where
  "record_read index r =
     bindr (vec_read (eis_pages index) (entity_page_index r)) (\<lambda>page.
     case page of None \<Rightarrow> Inl Undefined | Some p \<Rightarrow> Inr (p (entity_page_slot r)))"

definition record_modify ::
  "ecs_entity_index_t \<Rightarrow> u32 \<Rightarrow> (ecs_record_t \<Rightarrow> ecs_record_t) \<Rightarrow> ecs_entity_index_t res" where
  "record_modify index r f =
     bindr (vec_read (eis_pages index) (entity_page_index r)) (\<lambda>page.
     case page of
       None \<Rightarrow> Inl Undefined
     | Some p \<Rightarrow>
         bindr (vec_write (eis_pages index) (entity_page_index r)
                  (Some (p(entity_page_slot r := f (p (entity_page_slot r)))))) (\<lambda>pages.
         Inr (index\<lparr>eis_pages := pages\<rparr>)))"

text \<open>\<open>r->dense = d\<close>.\<close>

abbreviation set_dense :: "nat \<Rightarrow> ecs_record_t \<Rightarrow> ecs_record_t" where
  "set_dense d r \<equiv> r\<lparr>rec_dense := d\<rparr>"

section \<open>Operations\<close>

definition flecs_entity_index_ensure_page :: "ecs_entity_index_t \<Rightarrow> u32 \<Rightarrow> ecs_entity_index_t res" where
  "flecs_entity_index_ensure_page index cid =
     (let page_index = entity_page_index cid;
          index = (if page_index \<ge> ecs_vec_count (eis_pages index)
                   then index\<lparr>eis_pages :=
                     ecs_vec_set_min_count_zeromem None (eis_pages index) (page_index + 1)\<rparr>
                   else index)
      in
      bindr (ecs_vec_get (eis_pages index) page_index) (\<lambda>page.
      case page of
        None \<Rightarrow>
          bindr (vec_write (eis_pages index) page_index (Some (\<lambda>_. zero_record))) (\<lambda>pages.
          Inr (index\<lparr>eis_pages := pages\<rparr>))
      | Some _ \<Rightarrow> Inr index))"

text \<open>The allocation of the world is zeroed before \<open>flecs_entity_index_init\<close>.\<close>

definition flecs_entity_index_init :: "ecs_entity_index_t \<Rightarrow> ecs_entity_index_t" where
  "flecs_entity_index_init index =
     index\<lparr>eis_alive_count := 1, eis_active_range := None,
       eis_dense := ecs_vec_set_count (ecs_vec_init 1) 1,
       eis_pages := ecs_vec_init 0, eis_ranges := ecs_vec_init 0\<rparr>"

definition zero_entity_index :: ecs_entity_index_t where
  "zero_entity_index =
     \<lparr>eis_dense = ecs_vec_init 0, eis_pages = ecs_vec_init 0, eis_ranges = ecs_vec_init 0,
      eis_active_range = None, eis_alive_count = 0, eis_max_id = 0, eis_range_store = []\<rparr>"

text \<open>The buffers, the pages and the ranges are freed.\<close>

definition flecs_entity_index_fini :: "ecs_entity_index_t \<Rightarrow> ecs_entity_index_t" where
  "flecs_entity_index_fini index =
     index\<lparr>eis_dense := ecs_vec_fini (eis_dense index), eis_pages := ecs_vec_fini (eis_pages index),
       eis_ranges := ecs_vec_fini (eis_ranges index), eis_range_store := []\<rparr>"

definition flecs_entity_index_get_any :: "ecs_entity_index_t \<Rightarrow> u64 \<Rightarrow> u32 res" where
  "flecs_entity_index_get_any index entity =
     (let cid = lo32 entity in
      bindr (ecs_vec_get (eis_pages index) (entity_page_index cid)) (\<lambda>page.
      case page of
        None \<Rightarrow> Inl Undefined
      | Some p \<Rightarrow>
          bindr (ecs_assert (rec_dense (p (entity_page_slot cid)) \<noteq> 0) ECS_INVALID_PARAMETER) (\<lambda>_.
          Inr cid)))"

definition flecs_entity_index_get :: "ecs_entity_index_t \<Rightarrow> u64 \<Rightarrow> u32 res" where
  "flecs_entity_index_get index entity =
     bindr (flecs_entity_index_get_any index entity) (\<lambda>r.
     bindr (record_read index r) (\<lambda>rec.
     bindr (ecs_assert (rec_dense rec < eis_alive_count index) ECS_INVALID_PARAMETER) (\<lambda>_.
     bindr (ecs_vec_get (eis_dense index) (rec_dense rec)) (\<lambda>e.
     bindr (ecs_assert (e = entity) ECS_INVALID_PARAMETER) (\<lambda>_.
     Inr r)))))"

definition flecs_entity_index_try_get_any :: "ecs_entity_index_t \<Rightarrow> u64 \<Rightarrow> u32 option res" where
  "flecs_entity_index_try_get_any index entity =
     (let cid = lo32 entity; page_index = entity_page_index cid in
      if page_index \<ge> ecs_vec_count (eis_pages index) then Inr None
      else
        bindr (ecs_vec_get (eis_pages index) page_index) (\<lambda>page.
        case page of
          None \<Rightarrow> Inr None
        | Some p \<Rightarrow>
            if rec_dense (p (entity_page_slot cid)) = 0 then Inr None else Inr (Some cid)))"

definition flecs_entity_index_try_get :: "ecs_entity_index_t \<Rightarrow> u64 \<Rightarrow> u32 option res" where
  "flecs_entity_index_try_get index entity =
     bindr (flecs_entity_index_try_get_any index entity) (\<lambda>found.
     case found of
       None \<Rightarrow> Inr None
     | Some r \<Rightarrow>
         bindr (record_read index r) (\<lambda>rec.
         if rec_dense rec \<ge> eis_alive_count index then Inr None
         else
           bindr (ecs_vec_get (eis_dense index) (rec_dense rec)) (\<lambda>e.
           if e \<noteq> entity then Inr None else Inr (Some r))))"

definition flecs_entity_index_is_alive :: "ecs_entity_index_t \<Rightarrow> u64 \<Rightarrow> bool res" where
  "flecs_entity_index_is_alive index entity =
     bindr (flecs_entity_index_try_get index entity) (\<lambda>r. Inr (r \<noteq> None))"

text \<open>
  The second half of \<open>flecs_entity_index_ensure\<close>: a not-alive id at position \<open>dense\<close> changes places
  with the first not-alive element.
\<close>

definition ensure_swap ::
  "ecs_entity_index_t \<Rightarrow> u64 \<Rightarrow> nat \<Rightarrow> (ecs_entity_index_t \<times> u32) res" where
  "ensure_swap index entity dense =
     bindr (ecs_assert (dense \<noteq> 0) ECS_INTERNAL_ERROR) (\<lambda>_.
     let cid = lo32 entity; alive = eis_alive_count index in
     bindr (vec_read (eis_dense index) alive) (\<lambda>e_swap.
     bindr (flecs_entity_index_get_any index e_swap) (\<lambda>r_swap.
     bindr (record_read index r_swap) (\<lambda>rec_swap.
     bindr (ecs_assert (rec_dense rec_swap = alive) ECS_INTERNAL_ERROR) (\<lambda>_.
     bindr (record_modify index r_swap (set_dense dense)) (\<lambda>index.
     bindr (record_modify index cid (set_dense alive)) (\<lambda>index.
     bindr (vec_write (eis_dense index) dense e_swap) (\<lambda>ids.
     bindr (vec_write ids alive entity) (\<lambda>ids.
     let index = index\<lparr>eis_dense := ids, eis_alive_count := alive + 1\<rparr> in
     bindr (flecs_entity_index_is_alive index entity) (\<lambda>is_alive.
     bindr (ecs_assert is_alive ECS_INTERNAL_ERROR) (\<lambda>_.
     Inr (index, cid))))))))))))"

definition flecs_entity_index_ensure ::
  "ecs_entity_index_t \<Rightarrow> u64 \<Rightarrow> (ecs_entity_index_t \<times> u32) res" where
  "flecs_entity_index_ensure index entity =
     (let cid = lo32 entity in
      bindr (flecs_entity_index_ensure_page index cid) (\<lambda>index.
      bindr (record_read index cid) (\<lambda>r.
      let dense = rec_dense r in
      if dense \<noteq> 0 then
        (if dense < eis_alive_count index then
           bindr (ecs_vec_get (eis_dense index) dense) (\<lambda>e.
           bindr (ecs_assert (e = entity) ECS_INTERNAL_ERROR) (\<lambda>_.
           Inr (index, cid)))
         else ensure_swap index entity dense)
      else
        bindr (ecs_vec_push (eis_dense index) entity) (\<lambda>ids.
        let dense = ecs_vec_count ids - 1 in
        bindr (record_modify (index\<lparr>eis_dense := ids\<rparr>) cid (set_dense dense)) (\<lambda>index.
        ensure_swap
          (index\<lparr>eis_max_id := if cid > eis_max_id index then cid else eis_max_id index\<rparr>)
          entity dense)))))"

definition flecs_entity_index_remove_not_alive ::
  "ecs_entity_index_t \<Rightarrow> u32 \<Rightarrow> ecs_entity_index_t res" where
  "flecs_entity_index_remove_not_alive index r =
     (let not_alive = eis_alive_count index; last = ecs_vec_count (eis_dense index) - 1 in
      bindr (if not_alive \<noteq> last then
               bindr (vec_read (eis_dense index) last) (\<lambda>e_last.
               bindr (flecs_entity_index_get_any index e_last) (\<lambda>r_last.
               bindr (record_modify index r_last (set_dense not_alive)) (\<lambda>index.
               bindr (vec_write (eis_dense index) not_alive e_last) (\<lambda>ids.
               Inr (index\<lparr>eis_dense := ids\<rparr>)))))
             else Inr index) (\<lambda>index.
      record_modify (index\<lparr>eis_dense := ecs_vec_set_count (eis_dense index) last\<rparr>) r (set_dense 0)))"

text \<open>Dereferencing a pointer to a range.\<close>

definition range_read :: "ecs_entity_index_t \<Rightarrow> nat \<Rightarrow> ecs_entity_range_t res" where
  "range_read index p =
     (if p < length (eis_range_store index) then Inr (eis_range_store index ! p) else Inl Undefined)"

definition range_write ::
  "ecs_entity_index_t \<Rightarrow> nat \<Rightarrow> ecs_entity_range_t \<Rightarrow> ecs_entity_index_t" where
  "range_write index p rng = index\<lparr>eis_range_store := (eis_range_store index)[p := rng]\<rparr>"

text \<open>The bounds of the search are integers: \<open>hi\<close> may become -1.\<close>

function find_range_loop :: "ecs_entity_index_t \<Rightarrow> u32 \<Rightarrow> int \<Rightarrow> int \<Rightarrow> nat option res" where
  "find_range_loop index cid lo hi =
     (if lo \<le> hi then
        let mid = (lo + hi) div 2 in
        bindr (defined_if (0 \<le> mid)) (\<lambda>_.
        bindr (vec_read (eis_ranges index) (nat mid)) (\<lambda>p.
        bindr (range_read index p) (\<lambda>r.
        if cid < range_min r then find_range_loop index cid lo (mid - 1)
        else if range_max r \<noteq> 0 \<and> cid > range_max r then find_range_loop index cid (mid + 1) hi
        else Inr (Some p))))
      else Inr None)"
  by pat_completeness auto
termination
  by (relation "measure (\<lambda>(index, cid, lo, hi). nat (hi + 1 - lo))") (auto simp: Let_def)

declare find_range_loop.simps [simp del]

definition flecs_entity_index_find_range :: "ecs_entity_index_t \<Rightarrow> u32 \<Rightarrow> nat option res" where
  "flecs_entity_index_find_range index cid =
     (let count = ecs_vec_count (eis_ranges index) in
      if count = 0 then Inr None else find_range_loop index cid 0 (int count - 1))"

definition flecs_entity_index_remove_intern ::
  "ecs_entity_index_t \<Rightarrow> u64 \<Rightarrow> (ecs_entity_index_t \<times> u32 option) res" where
  "flecs_entity_index_remove_intern index entity =
     bindr (flecs_entity_index_try_get index entity) (\<lambda>found.
     case found of
       None \<Rightarrow> Inr (index, None)
     | Some r \<Rightarrow>
         bindr (record_read index r) (\<lambda>rec.
         let dense = rec_dense rec; i_swap = eis_alive_count index - 1;
             index = index\<lparr>eis_alive_count := i_swap\<rparr> in
         bindr (ecs_vec_get (eis_dense index) i_swap) (\<lambda>e_swap.
         bindr (flecs_entity_index_get_any index e_swap) (\<lambda>r_swap.
         bindr (record_read index r_swap) (\<lambda>rec_swap.
         bindr (ecs_assert (rec_dense rec_swap = i_swap) ECS_INTERNAL_ERROR) (\<lambda>_.
         bindr (record_modify index r_swap (set_dense dense)) (\<lambda>index.
         bindr (record_modify index r
                  (\<lambda>rec. rec\<lparr>rec_table := None, rec_row := 0, rec_dense := i_swap\<rparr>)) (\<lambda>index.
         bindr (ecs_vec_put (eis_dense index) dense e_swap) (\<lambda>ids.
         bindr (vec_write ids i_swap (ECS_GENERATION_INC entity)) (\<lambda>ids.
         let index = index\<lparr>eis_dense := ids\<rparr> in
         bindr (flecs_entity_index_is_alive index entity) (\<lambda>is_alive.
         bindr (ecs_assert (\<not> is_alive) ECS_INTERNAL_ERROR) (\<lambda>_.
         Inr (index, Some r)))))))))))))"

definition flecs_entity_index_remove :: "ecs_entity_index_t \<Rightarrow> u64 \<Rightarrow> ecs_entity_index_t res" where
  "flecs_entity_index_remove index entity =
     bindr (flecs_entity_index_remove_intern index entity) (\<lambda>(index, removed).
     case removed of
       None \<Rightarrow> Inr index
     | Some r \<Rightarrow>
         (case eis_active_range index of
            None \<Rightarrow> Inr index
          | Some a \<Rightarrow>
              let cid = lo32 entity in
              bindr (range_read index a) (\<lambda>active.
              if cid \<ge> range_min active \<and> (range_max active = 0 \<or> cid \<le> range_max active)
              then Inr index
              else
                bindr (flecs_entity_index_remove_not_alive index r) (\<lambda>index.
                bindr (flecs_entity_index_find_range index cid) (\<lambda>found.
                case found of
                  None \<Rightarrow> Inr index
                | Some p \<Rightarrow>
                    bindr (range_read index p) (\<lambda>range.
                    bindr (ecs_vec_push (range_recycled range) (ECS_GENERATION_INC entity)) (\<lambda>recycled.
                    Inr (range_write index p (range\<lparr>range_recycled := recycled\<rparr>)))))))))"

definition flecs_entity_index_make_alive :: "ecs_entity_index_t \<Rightarrow> u64 \<Rightarrow> ecs_entity_index_t res" where
  "flecs_entity_index_make_alive index entity =
     bindr (flecs_entity_index_try_get_any index entity) (\<lambda>found.
     case found of
       None \<Rightarrow> Inr index
     | Some r \<Rightarrow>
         bindr (record_read index r) (\<lambda>rec.
         bindr (ecs_vec_put (eis_dense index) (rec_dense rec) entity) (\<lambda>ids.
         Inr (index\<lparr>eis_dense := ids\<rparr>))))"

definition flecs_entity_index_get_alive :: "ecs_entity_index_t \<Rightarrow> u64 \<Rightarrow> u64 res" where
  "flecs_entity_index_get_alive index entity =
     bindr (flecs_entity_index_try_get_any index entity) (\<lambda>found.
     case found of
       None \<Rightarrow> Inr 0
     | Some r \<Rightarrow>
         bindr (record_read index r) (\<lambda>rec.
         if rec_dense rec < eis_alive_count index
         then ecs_vec_get (eis_dense index) (rec_dense rec) else Inr 0))"

definition flecs_entity_index_is_valid :: "ecs_entity_index_t \<Rightarrow> u64 \<Rightarrow> bool res" where
  "flecs_entity_index_is_valid index entity =
     (let cid = lo32 entity in
      bindr (flecs_entity_index_try_get_any index (to64 cid)) (\<lambda>found.
      case found of
        None \<Rightarrow> Inr True
      | Some r \<Rightarrow>
          bindr (record_read index r) (\<lambda>rec.
          if rec_dense rec = 0 then Inr True else Inr (rec_dense rec < eis_alive_count index))))"

definition flecs_entity_index_exists :: "ecs_entity_index_t \<Rightarrow> u64 \<Rightarrow> bool res" where
  "flecs_entity_index_exists index entity =
     bindr (flecs_entity_index_try_get_any index entity) (\<lambda>r. Inr (r \<noteq> None))"

text \<open>
  Issuing a fresh id, in the two functions that do so: \<open>max_id\<close> is a \<open>uint32_t\<close>, so the increment
  wraps and the assertion \<open>max_id <= UINT32_MAX\<close> always holds.
\<close>

definition flecs_entity_index_new_id ::
  "ecs_entity_index_t \<Rightarrow> (ecs_entity_index_t \<times> u64) res" where
  "flecs_entity_index_new_id index =
     (if eis_alive_count index \<noteq> ecs_vec_count (eis_dense index) then
        bindr (ecs_vec_get (eis_dense index) (eis_alive_count index)) (\<lambda>e.
        Inr (index\<lparr>eis_alive_count := eis_alive_count index + 1\<rparr>, e))
      else
        let index = index\<lparr>eis_max_id := eis_max_id index + 1\<rparr>; cid = eis_max_id index in
        bindr (ecs_assert (cid \<le> 0xFFFFFFFF) ECS_INVALID_OPERATION) (\<lambda>_.
        bindr (flecs_entity_index_exists index (to64 cid)) (\<lambda>exists.
        bindr (ecs_assert (\<not> exists) ECS_INVALID_OPERATION) (\<lambda>_.
        bindr (ecs_vec_push (eis_dense index) (to64 cid)) (\<lambda>ids.
        bindr (flecs_entity_index_ensure_page (index\<lparr>eis_dense := ids\<rparr>) cid) (\<lambda>index.
        bindr (record_modify index cid (set_dense (eis_alive_count index))) (\<lambda>index.
        let index = index\<lparr>eis_alive_count := eis_alive_count index + 1\<rparr> in
        bindr (ecs_assert (eis_alive_count index = ecs_vec_count (eis_dense index))
                 ECS_INTERNAL_ERROR) (\<lambda>_.
        Inr (index, to64 cid)))))))))"

text \<open>
  The array that \<open>flecs_entity_index_new_ids\<close> returns is given as its start in the dense vector;
  it holds \<open>count\<close> ids.
\<close>

definition new_ids_step :: "nat \<Rightarrow> nat \<Rightarrow> ecs_entity_index_t \<Rightarrow> ecs_entity_index_t res" where
  "new_ids_step dense_count i index =
     (let index = index\<lparr>eis_max_id := eis_max_id index + 1\<rparr>; cid = eis_max_id index in
      bindr (ecs_assert (cid \<le> 0xFFFFFFFF) ECS_INVALID_OPERATION) (\<lambda>_.
      bindr (flecs_entity_index_exists index (to64 cid)) (\<lambda>exists.
      bindr (ecs_assert (\<not> exists) ECS_INVALID_OPERATION) (\<lambda>_.
      let dense = dense_count + i in
      bindr (ecs_vec_put (eis_dense index) dense (to64 cid)) (\<lambda>ids.
      bindr (flecs_entity_index_ensure_page (index\<lparr>eis_dense := ids\<rparr>) cid) (\<lambda>index.
      record_modify index cid (set_dense dense)))))))"

definition flecs_entity_index_new_ids ::
  "ecs_entity_index_t \<Rightarrow> nat \<Rightarrow> (ecs_entity_index_t \<times> nat) res" where
  "flecs_entity_index_new_ids index count =
     (let alive_count = eis_alive_count index; new_count = alive_count + count;
          dense_count = ecs_vec_count (eis_dense index) in
      if new_count < dense_count then
        bindr (ecs_assert (alive_count < ecs_vec_count (eis_dense index)) ECS_OUT_OF_RANGE) (\<lambda>_.
        Inr (index\<lparr>eis_alive_count := new_count\<rparr>, alive_count))
      else
        let index = index\<lparr>eis_dense := ecs_vec_set_count (eis_dense index) new_count\<rparr> in
        bindr (for_each [0..<new_count - dense_count] (new_ids_step dense_count) index) (\<lambda>index.
        let index = index\<lparr>eis_alive_count := new_count\<rparr> in
        bindr (ecs_assert (alive_count < ecs_vec_count (eis_dense index)) ECS_OUT_OF_RANGE) (\<lambda>_.
        Inr (index, alive_count))))"

definition flecs_entity_index_set_size :: "ecs_entity_index_t \<Rightarrow> nat \<Rightarrow> ecs_entity_index_t" where
  "flecs_entity_index_set_size index sz =
     index\<lparr>eis_dense := ecs_vec_set_size (eis_dense index) sz\<rparr>"

definition flecs_entity_index_count :: "ecs_entity_index_t \<Rightarrow> int" where
  "flecs_entity_index_count index = int (eis_alive_count index) - 1"

definition flecs_entity_index_size :: "ecs_entity_index_t \<Rightarrow> int" where
  "flecs_entity_index_size index = int (ecs_vec_count (eis_dense index)) - 1"

definition flecs_entity_index_not_alive_count :: "ecs_entity_index_t \<Rightarrow> int" where
  "flecs_entity_index_not_alive_count index =
     int (ecs_vec_count (eis_dense index)) - int (eis_alive_count index)"

definition flecs_entity_index_clear :: "ecs_entity_index_t \<Rightarrow> ecs_entity_index_t res" where
  "flecs_entity_index_clear index =
     bindr (for_each [0..<ecs_vec_count (eis_pages index)] (\<lambda>i pages.
              bindr (vec_read pages i) (\<lambda>page.
              case page of
                None \<Rightarrow> Inr pages
              | Some p \<Rightarrow> vec_write pages i (Some (\<lambda>_. zero_record)))) (eis_pages index)) (\<lambda>pages.
     Inr (index\<lparr>eis_pages := pages, eis_dense := ecs_vec_set_count (eis_dense index) 1,
            eis_alive_count := 1, eis_max_id := 0\<rparr>))"

text \<open>
  One page of \<open>flecs_entity_index_shrink\<close>: whether a slot of the page is alive.  The loop over the
  slots stops at the first one that is.  The id is computed as an \<open>int32_t\<close>.
\<close>

fun shrink_page_alive ::
  "ecs_entity_index_t \<Rightarrow> ecs_entity_index_page_t \<Rightarrow> nat \<Rightarrow> nat list \<Rightarrow> bool res" where
  "shrink_page_alive index page i [] = Inr False"
| "shrink_page_alive index page i (e # es) =
     bindr (defined_if (i * FLECS_ENTITY_PAGE_SIZE + e < 2 ^ 31)) (\<lambda>_.
     let entity = word_of_nat (i * FLECS_ENTITY_PAGE_SIZE + e) :: u64 in
      if rec_dense (page e) \<noteq> 0 then
        bindr (flecs_entity_index_get_any index entity) (\<lambda>r.
        bindr (ecs_assert (entity_page_index r = i \<and> entity_page_slot r = e) ECS_INTERNAL_ERROR) (\<lambda>_.
        bindr (flecs_entity_index_is_alive index entity) (\<lambda>is_alive.
        if is_alive then Inr True else shrink_page_alive index page i es)))
      else shrink_page_alive index page i es)"

definition flecs_entity_index_shrink :: "ecs_entity_index_t \<Rightarrow> ecs_entity_index_t res" where
  "flecs_entity_index_shrink index =
     (let index = index\<lparr>eis_dense := ecs_vec_reclaim
                    (ecs_vec_set_count (eis_dense index) (eis_alive_count index))\<rparr> in
      bindr (for_each [0..<ecs_vec_count (eis_pages index)] (\<lambda>i (index, max_page_index).
               bindr (vec_read (eis_pages index) i) (\<lambda>page.
               case page of
                 None \<Rightarrow> Inr (index, max_page_index)
               | Some p \<Rightarrow>
                   bindr (shrink_page_alive index p i [0..<FLECS_ENTITY_PAGE_SIZE]) (\<lambda>has_alive.
                   if \<not> has_alive then
                     bindr (vec_write (eis_pages index) i None) (\<lambda>pages.
                     Inr (index\<lparr>eis_pages := pages\<rparr>, max_page_index))
                   else Inr (index, i)))) (index, 0)) (\<lambda>(index, max_page_index).
      Inr (index\<lparr>eis_pages := ecs_vec_reclaim
             (ecs_vec_set_count (eis_pages index) (max_page_index + 1))\<rparr>)))"

text \<open>The array of the ids starts at index 1 of the dense vector.\<close>

definition flecs_entity_index_ids :: "ecs_entity_index_t \<Rightarrow> nat res" where
  "flecs_entity_index_ids index =
     bindr (ecs_assert (1 < ecs_vec_count (eis_dense index)) ECS_OUT_OF_RANGE) (\<lambda>_. Inr 1)"

subsection \<open>Ranges\<close>

text \<open>Copying \<open>n\<close> ids from one buffer to another (\<open>ecs_os_memcpy_n\<close>).\<close>

definition ids_copy :: "u64 ecs_vec_t \<Rightarrow> nat \<Rightarrow> u64 ecs_vec_t \<Rightarrow> nat \<Rightarrow> nat \<Rightarrow> u64 ecs_vec_t res" where
  "ids_copy dst to src from n =
     for_each [0..<n] (\<lambda>i dst. bindr (vec_read src (from + i)) (\<lambda>x. vec_write dst (to + i) x)) dst"

definition set_range_clear :: "nat \<Rightarrow> ecs_entity_index_t \<Rightarrow> ecs_entity_index_t res" where
  "set_range_clear i index =
     bindr (vec_read (eis_dense index) i) (\<lambda>e.
     let cid = lo32 e; page_index = entity_page_index cid in
     if page_index < ecs_vec_count (eis_pages index) then
       bindr (ecs_vec_get (eis_pages index) page_index) (\<lambda>page.
       case page of
         None \<Rightarrow> Inr index
       | Some _ \<Rightarrow> record_modify index cid (set_dense 0))
     else Inr index)"

definition set_range_load ::
  "u64 ecs_vec_t \<Rightarrow> nat \<Rightarrow> nat \<Rightarrow> ecs_entity_index_t \<Rightarrow> ecs_entity_index_t res" where
  "set_range_load src alive_count i index =
     bindr (vec_read src i) (\<lambda>e.
     let cid = lo32 e in
     bindr (flecs_entity_index_ensure_page index cid) (\<lambda>index.
     bindr (record_modify index cid (set_dense (alive_count + i))) (\<lambda>index.
     bindr (record_read index cid) (\<lambda>r.
     bindr (ecs_assert (rec_table r = None) ECS_INTERNAL_ERROR) (\<lambda>_.
     Inr index)))))"

definition flecs_entity_index_set_range ::
  "ecs_entity_index_t \<Rightarrow> nat \<Rightarrow> ecs_entity_index_t res" where
  "flecs_entity_index_set_range index p =
     bindr (ecs_assert (p \<in> set (vec_elems (eis_ranges index))) ECS_INVALID_PARAMETER) (\<lambda>_.
     let alive_count = eis_alive_count index; dense_count = ecs_vec_count (eis_dense index);
         not_alive_count = dense_count - alive_count in
     bindr (case eis_active_range index of
              None \<Rightarrow> Inr index
            | Some q \<Rightarrow>
                bindr (range_read index q) (\<lambda>prev.
                bindr (if not_alive_count > 0 then
                         ids_copy (ecs_vec_set_count (range_recycled prev) not_alive_count) 0
                           (eis_dense index) alive_count not_alive_count
                       else Inr (ecs_vec_set_count (range_recycled prev) 0)) (\<lambda>recycled.
                Inr (range_write index q
                       (prev\<lparr>range_recycled := recycled, range_cur := eis_max_id index\<rparr>))))) (\<lambda>index.
     bindr (for_each [alive_count..<dense_count] set_range_clear index) (\<lambda>index.
     let index = index\<lparr>eis_dense := ecs_vec_set_count (eis_dense index) alive_count\<rparr> in
     bindr (range_read index p) (\<lambda>rng.
     let src = range_recycled rng; recycled_count = ecs_vec_count src in
     bindr (if recycled_count > 0 then
              bindr (ids_copy (ecs_vec_set_count (eis_dense index) (alive_count + recycled_count))
                       alive_count src 0 recycled_count) (\<lambda>ids.
              bindr (for_each [0..<recycled_count] (set_range_load src alive_count)
                       (index\<lparr>eis_dense := ids\<rparr>)) (\<lambda>index.
              Inr (range_write index p (rng\<lparr>range_recycled := ecs_vec_set_count src 0\<rparr>))))
            else Inr index) (\<lambda>index.
     Inr (index\<lparr>eis_max_id := range_cur rng, eis_active_range := Some p\<rparr>))))))"

definition range_overlap :: "u32 \<Rightarrow> u32 \<Rightarrow> ecs_entity_range_t \<Rightarrow> bool" where
  "range_overlap mn mx existing =
     (if range_max existing = 0 \<and> mx = 0 then True
      else if range_max existing = 0 then mx \<ge> range_min existing
      else if mx = 0 then mn \<le> range_max existing
      else mn \<le> range_max existing \<and> mx \<ge> range_min existing)"

text \<open>The insertion point is found from the end; the pointers behind it move up by one.\<close>

fun range_insert_shift ::
  "ecs_entity_index_t \<Rightarrow> u32 \<Rightarrow> nat \<Rightarrow> nat ecs_vec_t \<Rightarrow> (nat ecs_vec_t \<times> nat) res" where
  "range_insert_shift index mn 0 ranges = Inr (ranges, 0)"
| "range_insert_shift index mn (Suc i) ranges =
     bindr (vec_read ranges i) (\<lambda>q.
     bindr (range_read index q) (\<lambda>r.
     if range_min r \<le> mn then Inr (ranges, Suc i)
     else bindr (vec_write ranges (Suc i) q) (range_insert_shift index mn i)))"

text \<open>
  The part of \<open>ecs_entity_range_new\<close> that creates the range: the check against every existing
  range, the allocation and the insertion into the sorted vector.  The result is the pointer to
  the new range.
\<close>

definition range_create ::
  "ecs_entity_index_t \<Rightarrow> u32 \<Rightarrow> u32 \<Rightarrow> (ecs_entity_index_t \<times> nat) res" where
  "range_create index mn mx =
     (let count = ecs_vec_count (eis_ranges index) in
      bindr (for_each [0..<count] (\<lambda>i _.
               bindr (vec_read (eis_ranges index) i) (\<lambda>q.
               bindr (range_read index q) (\<lambda>existing.
               ecs_assert (\<not> range_overlap mn mx existing) ECS_INVALID_PARAMETER))) ()) (\<lambda>_.
      let p = length (eis_range_store index);
          rng = \<lparr>range_min = mn, range_max = mx, range_cur = mn - 1, range_recycled = ecs_vec_init 0\<rparr>;
          index = index\<lparr>eis_range_store := eis_range_store index @ [rng]\<rparr> in
      bindr (ecs_vec_push (eis_ranges index) p) (\<lambda>ranges.
      bindr (if count > 0 then
               bindr (range_insert_shift index mn count ranges) (\<lambda>(ranges, i). vec_write ranges i p)
             else Inr ranges) (\<lambda>ranges.
      Inr (index\<lparr>eis_ranges := ranges\<rparr>, p)))))"

text \<open>The activation of the first range: it takes over the current \<open>max_id\<close>.\<close>

definition range_activate_default :: "ecs_entity_index_t \<Rightarrow> nat \<Rightarrow> ecs_entity_index_t res" where
  "range_activate_default index p =
     bindr (range_read index p) (\<lambda>rng.
     flecs_entity_index_set_range (range_write index p (rng\<lparr>range_cur := eis_max_id index\<rparr>)) p)"

text \<open>
  \<open>ecs_entity_range_new\<close> calls itself once, for the default range \<open>[1, min - 1]\<close>; that call has
  \<open>min = 1\<close> and does not recurse.
\<close>

definition entity_range_new_1 ::
  "ecs_entity_index_t \<Rightarrow> u32 \<Rightarrow> u32 \<Rightarrow> (ecs_entity_index_t \<times> nat) res \<Rightarrow>
   (ecs_entity_index_t \<times> nat) res" where
  "entity_range_new_1 index mn mx default_range =
     bindr (ecs_assert (mn > 0) ECS_INVALID_PARAMETER) (\<lambda>_.
     bindr (ecs_assert (mx = 0 \<or> mx \<ge> mn) ECS_INVALID_PARAMETER) (\<lambda>_.
     bindr (ecs_assert (flecs_entity_index_not_alive_count index = 0) ECS_INVALID_OPERATION) (\<lambda>_.
     let first_range = (ecs_vec_count (eis_ranges index) = 0) in
     bindr (ecs_assert (first_range \<and> mn = 1 \<longrightarrow> mx = 0 \<or> mx \<ge> eis_max_id index)
              ECS_INVALID_OPERATION) (\<lambda>_.
     bindr (if first_range \<and> mn > 1
            then bindr default_range (\<lambda>(index', p). range_activate_default index' p)
            else Inr index) (\<lambda>index.
     bindr (range_create index mn mx) (\<lambda>(index, p).
     bindr (if first_range \<and> mn = 1 then range_activate_default index p else Inr index) (\<lambda>index.
     Inr (index, p))))))))"

definition ecs_entity_range_new ::
  "ecs_entity_index_t \<Rightarrow> u32 \<Rightarrow> u32 \<Rightarrow> (ecs_entity_index_t \<times> nat) res" where
  "ecs_entity_range_new index mn mx =
     entity_range_new_1 index mn mx (entity_range_new_1 index 1 (mn - 1) (Inl Undefined))"

definition ecs_entity_range_set ::
  "ecs_entity_index_t \<Rightarrow> nat option \<Rightarrow> ecs_entity_index_t res" where
  "ecs_entity_range_set index r =
     (case r of
        None \<Rightarrow> Inl (Abort ECS_INVALID_PARAMETER)
      | Some p \<Rightarrow> flecs_entity_index_set_range index p)"

definition ecs_entity_range_get :: "ecs_entity_index_t \<Rightarrow> nat option" where
  "ecs_entity_range_get index = eis_active_range index"

text \<open>
  The id check of \<open>flecs_new_id\<close> (\<open>src/entity.c\<close>), which \<open>ecs_new\<close> and its relatives call.
\<close>

definition flecs_new_id :: "ecs_entity_index_t \<Rightarrow> (ecs_entity_index_t \<times> u64) res" where
  "flecs_new_id index =
     bindr (flecs_entity_index_new_id index) (\<lambda>(index, entity).
     bindr (case eis_active_range index of
              None \<Rightarrow> Inr True
            | Some a \<Rightarrow> bindr (range_read index a) (\<lambda>r.
                Inr (range_max r = 0 \<or> ecs_entity_t_lo entity \<le> range_max r))) (\<lambda>in_range.
     bindr (ecs_assert in_range ECS_OUT_OF_RANGE) (\<lambda>_.
     Inr (index, entity))))"

section \<open>Records\<close>

text \<open>
  The record of an id, zero when its page does not exist; the pages hold a record for every id.
\<close>

definition has_page :: "ecs_entity_index_t \<Rightarrow> u32 \<Rightarrow> bool" where
  "has_page index c \<longleftrightarrow> entity_page_index c < vec_count (eis_pages index) \<and>
     vec_elems (eis_pages index) ! entity_page_index c \<noteq> None"

definition record_of :: "ecs_entity_index_t \<Rightarrow> u32 \<Rightarrow> ecs_record_t" where
  "record_of index c =
     (if has_page index c
      then the (vec_elems (eis_pages index) ! entity_page_index c) (entity_page_slot c)
      else zero_record)"

abbreviation pos_of :: "ecs_entity_index_t \<Rightarrow> u32 \<Rightarrow> nat" where
  "pos_of index c \<equiv> rec_dense (record_of index c)"

definition record_upd ::
  "ecs_entity_index_t \<Rightarrow> u32 \<Rightarrow> (ecs_record_t \<Rightarrow> ecs_record_t) \<Rightarrow> ecs_entity_index_t" where
  "record_upd index c f =
     index\<lparr>eis_pages := vec_upd (eis_pages index) (entity_page_index c)
       (Some ((the (vec_elems (eis_pages index) ! entity_page_index c))
          (entity_page_slot c := f (record_of index c))))\<rparr>"

lemma entity_slot_inj:
  assumes "entity_page_index a = entity_page_index b" and "entity_page_slot a = entity_page_slot b"
  shows "a = b"
  using assms unfolding entity_page_index_def entity_page_slot_def FLECS_ENTITY_PAGE_MASK_def
  by (rule page_offset_inj)

lemma entity_page_index_bound: "entity_page_index c < 2 ^ 22"
proof -
  have "unat c < 2 ^ LENGTH(32)" by (rule unsigned_less)
  moreover have "entity_page_index c = unat c div 2 ^ 10"
    unfolding entity_page_index_def FLECS_ENTITY_PAGE_BITS_def unat_drop_bit_eq
    by (rule drop_bit_eq_div)
  ultimately show ?thesis by (simp add: less_mult_imp_div_less)
qed

lemma record_read_ok [simp]:
  "vec_ok (eis_pages index) \<Longrightarrow> has_page index c \<Longrightarrow> record_read index c = Inr (record_of index c)"
  by (auto simp: record_read_def record_of_def has_page_def)

lemma record_modify_ok [simp]:
  "vec_ok (eis_pages index) \<Longrightarrow> has_page index c \<Longrightarrow>
    record_modify index c f = Inr (record_upd index c f)"
  by (auto simp: record_modify_def record_upd_def record_of_def has_page_def)

lemma record_upd_fields [simp]:
  "eis_dense (record_upd index c f) = eis_dense index"
  "eis_ranges (record_upd index c f) = eis_ranges index"
  "eis_active_range (record_upd index c f) = eis_active_range index"
  "eis_alive_count (record_upd index c f) = eis_alive_count index"
  "eis_max_id (record_upd index c f) = eis_max_id index"
  "eis_range_store (record_upd index c f) = eis_range_store index"
  by (simp_all add: record_upd_def)

lemma record_upd_ok [simp]:
  assumes "vec_ok (eis_pages index)" and "has_page index c"
  shows "vec_ok (eis_pages (record_upd index c f))"
    and "has_page (record_upd index c f) d \<longleftrightarrow> has_page index d"
    and "record_of (record_upd index c f) = (record_of index)(c := f (record_of index c))"
proof -
  show ok: "vec_ok (eis_pages (record_upd index c f))"
    using assms by (simp add: record_upd_def has_page_def)
  have elems: "vec_elems (eis_pages (record_upd index c f)) = (vec_elems (eis_pages index))
      [entity_page_index c := Some ((the (vec_elems (eis_pages index) ! entity_page_index c))
          (entity_page_slot c := f (record_of index c)))]"
    and count: "vec_count (eis_pages (record_upd index c f)) = vec_count (eis_pages index)"
    using assms by (simp_all add: record_upd_def has_page_def)
  show page: "has_page (record_upd index c f) d \<longleftrightarrow> has_page index d" for d
    using assms by (auto simp: has_page_def count elems nth_list_update)
  show "record_of (record_upd index c f) = (record_of index)(c := f (record_of index c))"
  proof
    fix d
    let ?p = "the (vec_elems (eis_pages index) ! entity_page_index c)"
    have c: "entity_page_index c < vec_count (eis_pages index)" using assms(2) by (simp add: has_page_def)
    have cell: "the (vec_elems (eis_pages (record_upd index c f)) ! entity_page_index d) =
        (if entity_page_index d = entity_page_index c
         then ?p(entity_page_slot c := f (record_of index c))
         else the (vec_elems (eis_pages index) ! entity_page_index d))" if "has_page index d"
      using c that assms(1) by (simp add: elems nth_list_update)
    show "record_of (record_upd index c f) d = ((record_of index)(c := f (record_of index c))) d"
    proof (cases "has_page index d")
      case True
      with cell entity_slot_inj [of d c] show ?thesis
        by (auto simp: record_of_def [of "record_upd index c f"] page) (simp_all add: record_of_def)
    next
      case False
      then show ?thesis using assms(2) page [of d] by (auto simp: record_of_def)
    qed
  qed
qed

text \<open>The index with the page of an id in place.\<close>

definition with_page :: "ecs_entity_index_t \<Rightarrow> u32 \<Rightarrow> ecs_entity_index_t" where
  "with_page index c =
     (case flecs_entity_index_ensure_page index c of Inr index' \<Rightarrow> index' | Inl _ \<Rightarrow> index)"

lemma ensure_page_ok:
  assumes "vec_ok (eis_pages index)"
  shows "\<exists>pages. flecs_entity_index_ensure_page index c = Inr (index\<lparr>eis_pages := pages\<rparr>) \<and>
    vec_ok pages \<and> has_page (index\<lparr>eis_pages := pages\<rparr>) c \<and>
    (\<forall>d. has_page index d \<longrightarrow> has_page (index\<lparr>eis_pages := pages\<rparr>) d) \<and>
    record_of (index\<lparr>eis_pages := pages\<rparr>) = record_of index"
proof -
  define n where "n = entity_page_index c"
  define v where "v = (if n \<ge> vec_count (eis_pages index)
    then ecs_vec_set_min_count_zeromem None (eis_pages index) (n + 1) else eis_pages index)"
  have n: "n + 1 \<le> 2 ^ 30" using entity_page_index_bound [of c] by (simp add: n_def)
  have v: "vec_ok v \<and> vec_elems v = vec_elems (eis_pages index) @ replicate (n + 1 - vec_count (eis_pages index)) None"
    using assms ecs_vec_set_min_count_zeromem_ok [OF assms n] by (simp add: v_def)
  have count: "vec_count v = max (vec_count (eis_pages index)) (n + 1)"
  proof -
    have "vec_count v = length (vec_elems v)" using conjunct1 [OF v] by simp
    also have "\<dots> = max (vec_count (eis_pages index)) (n + 1)"
      unfolding conjunct2 [OF v] using assms by simp
    finally show ?thesis .
  qed
  define w where "w = (case vec_elems v ! n of None \<Rightarrow> vec_upd v n (Some (\<lambda>_. zero_record)) | Some _ \<Rightarrow> v)"
  have "flecs_entity_index_ensure_page index c = Inr (index\<lparr>eis_pages := w\<rparr>)"
  proof -
    have idx: "(if n \<ge> vec_count (eis_pages index) then index\<lparr>eis_pages :=
        ecs_vec_set_min_count_zeromem None (eis_pages index) (n + 1)\<rparr> else index) = index\<lparr>eis_pages := v\<rparr>"
      by (simp add: v_def)
    show ?thesis
      unfolding flecs_entity_index_ensure_page_def n_def [symmetric] Let_def ecs_vec_count_def idx
      using v count by (simp add: w_def split: option.split)
  qed
  moreover have "vec_ok w" using v count by (simp add: w_def split: option.split)
  moreover have wel: "vec_elems w ! m = (if m = n \<and> vec_elems v ! n = None then Some (\<lambda>_. zero_record)
      else vec_elems v ! m)" if "m < vec_count v" for m
    using that conjunct1 [OF v] count by (auto simp: w_def nth_list_update split: option.split)
  moreover have wc: "vec_count w = vec_count v" by (simp add: w_def split: option.split)
  have vel: "vec_elems v ! m = (if m < vec_count (eis_pages index) then vec_elems (eis_pages index) ! m else None)"
    if "m < vec_count v" for m
    using that v count assms by (auto simp: nth_append)
  have cell: "vec_elems w ! m = (if m = n \<and> (n < vec_count (eis_pages index) \<longrightarrow> vec_elems (eis_pages index) ! n = None)
      then Some (\<lambda>_. zero_record) else if m < vec_count (eis_pages index) then vec_elems (eis_pages index) ! m else None)"
    if "m < vec_count v" for m
    using that wel [OF that] vel [OF that] vel [of n] count by auto
  have page: "has_page (index\<lparr>eis_pages := w\<rparr>) d \<longleftrightarrow> has_page index d \<or> entity_page_index d = n" for d
    using cell [of "entity_page_index d"] count
    by (cases "entity_page_index d < vec_count v") (auto simp: has_page_def wc split: if_splits)
  moreover have "record_of (index\<lparr>eis_pages := w\<rparr>) d = record_of index d" for d
    using cell [of "entity_page_index d"] count
    by (cases "has_page index d") (auto simp: record_of_def page, auto simp: has_page_def)
  ultimately show ?thesis by (intro exI [of _ w]) (simp add: n_def fun_eq_iff)
qed

lemma with_page_ok [simp]:
  assumes "vec_ok (eis_pages index)"
  shows "flecs_entity_index_ensure_page index c = Inr (with_page index c)"
    and "vec_ok (eis_pages (with_page index c))"
    and "has_page (with_page index c) c"
    and "has_page index d \<Longrightarrow> has_page (with_page index c) d"
    and "record_of (with_page index c) = record_of index"
    and "eis_dense (with_page index c) = eis_dense index"
    and "eis_ranges (with_page index c) = eis_ranges index"
    and "eis_active_range (with_page index c) = eis_active_range index"
    and "eis_alive_count (with_page index c) = eis_alive_count index"
    and "eis_max_id (with_page index c) = eis_max_id index"
    and "eis_range_store (with_page index c) = eis_range_store index"
  using ensure_page_ok [OF assms, of c] by (auto simp: with_page_def)

lemma with_page_pages:
  assumes "vec_ok (eis_pages index)"
  shows "\<exists>pages. with_page index c = index\<lparr>eis_pages := pages\<rparr>"
proof -
  obtain pages where "flecs_entity_index_ensure_page index c = Inr (index\<lparr>eis_pages := pages\<rparr>)"
    using ensure_page_ok [OF assms, of c] by blast
  then show ?thesis by (simp add: with_page_def) blast
qed

text \<open>The fields other than the pages do not bear on the records.\<close>

lemma record_of_fields [simp]:
  "has_page (index\<lparr>eis_dense := d\<rparr>) = has_page index" "record_of (index\<lparr>eis_dense := d\<rparr>) = record_of index"
  "has_page (index\<lparr>eis_alive_count := n\<rparr>) = has_page index"
  "record_of (index\<lparr>eis_alive_count := n\<rparr>) = record_of index"
  "has_page (index\<lparr>eis_max_id := m\<rparr>) = has_page index" "record_of (index\<lparr>eis_max_id := m\<rparr>) = record_of index"
  "has_page (index\<lparr>eis_range_store := s\<rparr>) = has_page index"
  "record_of (index\<lparr>eis_range_store := s\<rparr>) = record_of index"
  "has_page (index\<lparr>eis_ranges := rs\<rparr>) = has_page index"
  "record_of (index\<lparr>eis_ranges := rs\<rparr>) = record_of index"
  "has_page (index\<lparr>eis_active_range := a\<rparr>) = has_page index"
  "record_of (index\<lparr>eis_active_range := a\<rparr>) = record_of index"
  by (auto simp: fun_eq_iff has_page_def record_of_def)

lemma has_page_pos: "0 < pos_of index c \<Longrightarrow> has_page index c"
  by (auto simp: record_of_def zero_record_def split: if_splits)

section \<open>The invariant\<close>

text \<open>
  The dense vector and the records point at each other; the ids before \<open>alive_count\<close> are alive,
  and a record without an alive id has no table.
\<close>

abbreviation dense_ids :: "ecs_entity_index_t \<Rightarrow> u64 list" where
  "dense_ids index \<equiv> vec_elems (eis_dense index)"

definition eis_core :: "ecs_entity_index_t \<Rightarrow> bool" where
  "eis_core index \<longleftrightarrow> vec_ok (eis_pages index) \<and> vec_ok_from 1 (eis_dense index) \<and>
     dense_consistent ucast (dense_ids index) (pos_of index)"

definition eis_inv :: "ecs_entity_index_t \<Rightarrow> bool" where
  "eis_inv index \<longleftrightarrow> eis_core index \<and>
     0 < eis_alive_count index \<and> eis_alive_count index \<le> vec_count (eis_dense index) \<and>
     (\<forall>c. pos_of index c = 0 \<or> eis_alive_count index \<le> pos_of index c \<longrightarrow>
        rec_table (record_of index c) = None)"

text \<open>The entities alive, and the ids to be recycled, in the order in which they will be issued.\<close>

definition alive_set :: "ecs_entity_index_t \<Rightarrow> u64 set" where
  "alive_set index = dense_alive (dense_ids index) (eis_alive_count index)"

definition dead_ids :: "ecs_entity_index_t \<Rightarrow> u64 list" where
  "dead_ids index = drop (eis_alive_count index) (dense_ids index)"

lemma eis_coreD:
  assumes "eis_core index"
  shows "vec_ok (eis_pages index)" "vec_ok_from 1 (eis_dense index)"
    "dense_consistent ucast (dense_ids index) (pos_of index)"
    "length (dense_ids index) = vec_count (eis_dense index)" "vec_wf (eis_dense index)"
  using assms by (auto simp: eis_core_def vec_ok_from_def)

lemma eis_invD:
  assumes "eis_inv index"
  shows "vec_ok (eis_pages index)" "vec_ok_from 1 (eis_dense index)" "0 < eis_alive_count index"
    "eis_alive_count index \<le> vec_count (eis_dense index)"
    "dense_consistent ucast (dense_ids index) (pos_of index)"
    "length (dense_ids index) = vec_count (eis_dense index)"
    "vec_wf (eis_dense index)" "eis_core index"
  using assms eis_coreD [of index] by (auto simp: eis_inv_def)

lemma pos_of_dense:
  assumes "eis_core index" and "0 < i" "i < vec_count (eis_dense index)"
  shows "pos_of index (lo32 (dense_ids index ! i)) = i" "has_page index (lo32 (dense_ids index ! i))"
proof -
  show "pos_of index (lo32 (dense_ids index ! i)) = i"
    using dense_consistentD(1) [OF eis_coreD(3) [OF assms(1)]] eis_coreD(4) [OF assms(1)] assms(2,3) by simp
  then show "has_page index (lo32 (dense_ids index ! i))" using assms(2) by (simp add: has_page_pos)
qed

lemma pos_of_bounds:
  assumes "eis_core index" and "0 < pos_of index c"
  shows "pos_of index c < vec_count (eis_dense index)" "lo32 (dense_ids index ! pos_of index c) = c"
  using dense_consistentD(2,3) [OF eis_coreD(3) [OF assms(1)] assms(2)] eis_coreD(4) [OF assms(1)] by simp_all

lemma alive_set_iff:
  assumes "eis_inv index"
  shows "e \<in> alive_set index \<longleftrightarrow> 0 < pos_of index (lo32 e) \<and>
    pos_of index (lo32 e) < eis_alive_count index \<and> dense_ids index ! pos_of index (lo32 e) = e"
  unfolding alive_set_def
  using eis_invD [OF assms] by (intro dense_alive_iff) simp_all

section \<open>Lookups\<close>

lemma try_get_any_ok [simp]:
  assumes "vec_ok (eis_pages index)"
  shows "flecs_entity_index_try_get_any index e =
    Inr (if pos_of index (lo32 e) = 0 then None else Some (lo32 e))"
proof (cases "has_page index (lo32 e)")
  case True
  with assms show ?thesis
    by (auto simp: flecs_entity_index_try_get_any_def Let_def has_page_def record_of_def
        ecs_vec_count_def)
next
  case False
  then have "pos_of index (lo32 e) = 0" using has_page_pos [of index "lo32 e"] by auto
  with False assms show ?thesis
    by (auto simp: flecs_entity_index_try_get_any_def Let_def has_page_def ecs_vec_count_def)
qed

lemma get_any_ok [simp]:
  assumes "vec_ok (eis_pages index)" and "0 < pos_of index (lo32 e)"
  shows "flecs_entity_index_get_any index e = Inr (lo32 e)"
  using assms has_page_pos [OF assms(2)]
  by (auto simp: flecs_entity_index_get_any_def Let_def has_page_def record_of_def)

lemma try_get_ok:
  assumes "eis_inv index"
  shows "flecs_entity_index_try_get index e = Inr (if e \<in> alive_set index then Some (lo32 e) else None)"
proof (cases "0 < pos_of index (lo32 e)")
  case True
  then show ?thesis
    using eis_invD [OF assms] pos_of_bounds [OF eis_invD(8) [OF assms] True] has_page_pos [OF True]
    by (auto simp: flecs_entity_index_try_get_def alive_set_iff [OF assms])
next
  case False
  then show ?thesis
    using eis_invD [OF assms] by (simp add: flecs_entity_index_try_get_def alive_set_iff [OF assms])
qed

lemma is_alive_ok:
  "eis_inv index \<Longrightarrow> flecs_entity_index_is_alive index e = Inr (e \<in> alive_set index)"
  by (simp add: flecs_entity_index_is_alive_def try_get_ok)

lemma exists_ok [simp]:
  "vec_ok (eis_pages index) \<Longrightarrow> flecs_entity_index_exists index e = Inr (0 < pos_of index (lo32 e))"
  by (simp add: flecs_entity_index_exists_def)

lemma get_alive_ok:
  assumes "eis_inv index"
  shows "flecs_entity_index_get_alive index e =
    Inr (if 0 < pos_of index (lo32 e) \<and> pos_of index (lo32 e) < eis_alive_count index
         then dense_ids index ! pos_of index (lo32 e) else 0)"
  using eis_invD [OF assms] has_page_pos [of index "lo32 e"]
  by (auto simp: flecs_entity_index_get_alive_def)

section \<open>Issuing, removing and ensuring ids\<close>

lemma init_inv:
  "eis_inv (flecs_entity_index_init index)" "alive_set (flecs_entity_index_init index) = {}"
  "dead_ids (flecs_entity_index_init index) = []" "pos_of (flecs_entity_index_init index) c = 0"
proof -
  let ?i = "flecs_entity_index_init index"
  have "ecs_vec_set_count (ecs_vec_init 1) 1 = (\<lparr>vec_array = [None], vec_count = 1, vec_size = 1\<rparr> :: u64 ecs_vec_t)"
    by (simp add: ecs_vec_set_count_def ecs_vec_init_def ecs_vec_init_w_dbg_info_def flecs_vec_alloc_def)
  then have d: "eis_dense ?i = \<lparr>vec_array = [None], vec_count = 1, vec_size = 1\<rparr>"
    by (simp add: flecs_entity_index_init_def)
  have r: "record_of ?i c = zero_record" for c
    by (simp add: record_of_def has_page_def flecs_entity_index_init_def)
  have a: "eis_alive_count ?i = 1" by (simp add: flecs_entity_index_init_def)
  show "eis_inv ?i"
    by (simp add: eis_inv_def eis_core_def d r a zero_record_def vec_ok_from_def vec_wf_def vec_elems_def
        dense_consistent_def) (simp add: flecs_entity_index_init_def)
  show "alive_set ?i = {}" "dead_ids ?i = []"
    by (auto simp: alive_set_def dead_ids_def dense_alive_def a d vec_elems_def)
  show "pos_of ?i c = 0" by (simp add: r zero_record_def)
qed

text \<open>A new id at the end of the dense vector.\<close>

lemma append_inv:
  assumes inv: "eis_inv index" and "vec_count (eis_dense index) < 2 ^ 30" and "pos_of index (lo32 e) = 0"
    and "vec_ok (eis_pages index')" and "eis_dense index' = vec_snoc (eis_dense index) e"
    and "record_of index' = (record_of index)(lo32 e :=
           set_dense (vec_count (eis_dense index)) (record_of index (lo32 e)))"
    and "eis_alive_count index' = eis_alive_count index"
  shows "eis_inv index'"
proof -
  note D = eis_invD [OF inv]
  have "dense_consistent ucast (dense_ids index @ [e]) ((pos_of index)(lo32 e := length (dense_ids index)))"
    using D assms(3) by (intro dense_consistent_append) auto
  moreover have "pos_of index' = (pos_of index)(lo32 e := length (dense_ids index))"
    using D(6) by (auto simp: assms(6))
  moreover have "rec_table (record_of index' c) = None"
    if "pos_of index' c = 0 \<or> eis_alive_count index' \<le> pos_of index' c" for c
    using that inv assms(3) by (cases "c = lo32 e") (auto simp: eis_inv_def assms(6,7))
  ultimately show ?thesis
    using D assms(2,4) by (simp add: eis_inv_def eis_core_def assms(5,7))
qed

text \<open>The exchange of two positions, with the records updated.\<close>

definition exchanged ::
  "ecs_entity_index_t \<Rightarrow> nat \<Rightarrow> nat \<Rightarrow> u64 \<Rightarrow> (ecs_record_t \<Rightarrow> ecs_record_t) \<Rightarrow> ecs_entity_index_t" where
  "exchanged index i j e f =
     (record_upd (record_upd index (lo32 (dense_ids index ! j)) (set_dense i)) (lo32 e) f)
       \<lparr>eis_dense := vec_upd (vec_upd (eis_dense index) i (dense_ids index ! j)) j e\<rparr>"

lemma exchanged_ok:
  assumes inv: "eis_core index" and ij: "0 < i" "i < vec_count (eis_dense index)"
      "0 < j" "j < vec_count (eis_dense index)"
    and e: "lo32 e = lo32 (dense_ids index ! i)" and f: "\<And>r. rec_dense (f r) = j"
  defines "index' \<equiv> exchanged index i j e f"
  shows "eis_core index'" "vec_count (eis_dense index') = vec_count (eis_dense index)"
    "dense_ids index' = (dense_ids index)[i := dense_ids index ! j, j := e]"
    "record_of index' c = (if c = lo32 e then f (if i = j then set_dense i (record_of index c) else record_of index c)
       else if c = lo32 (dense_ids index ! j) then set_dense i (record_of index c) else record_of index c)"
proof -
  note D = eis_coreD [OF inv]
  have p: "has_page index (lo32 (dense_ids index ! j))" "has_page index (lo32 e)"
    using pos_of_dense(2) [OF inv] ij unfolding e by simp_all
  have same: "lo32 (dense_ids index ! j) = lo32 e \<longleftrightarrow> i = j"
    using pos_of_dense(1) [OF inv] ij e by metis
  show rec: "record_of index' c = (if c = lo32 e then f (if i = j then set_dense i (record_of index c) else record_of index c)
       else if c = lo32 (dense_ids index ! j) then set_dense i (record_of index c) else record_of index c)" for c
    using D p same by (auto simp: index'_def exchanged_def)
  show cnt: "vec_count (eis_dense index') = vec_count (eis_dense index)"
    by (simp add: index'_def exchanged_def)
  show el: "dense_ids index' = (dense_ids index)[i := dense_ids index ! j, j := e]"
    using D(5) ij by (simp add: index'_def exchanged_def)
  have pos: "pos_of index' = (pos_of index)(lo32 (dense_ids index ! j) := i, lo32 e := j)"
    by (auto simp: fun_eq_iff rec f)
  have "dense_consistent ucast (dense_ids index') (pos_of index')"
    unfolding el pos using D ij e by (intro dense_consistent_exchange) simp_all
  moreover have "vec_ok (eis_pages index')" "vec_ok_from 1 (eis_dense index')"
    using D p ij by (simp_all add: index'_def exchanged_def)
  ultimately show "eis_core index'" by (simp add: eis_core_def)
qed

lemma exchanged_fields [simp]:
  "eis_max_id (exchanged index i j e f) = eis_max_id index"
  "eis_ranges (exchanged index i j e f) = eis_ranges index"
  "eis_active_range (exchanged index i j e f) = eis_active_range index"
  "eis_range_store (exchanged index i j e f) = eis_range_store index"
  "eis_alive_count (exchanged index i j e f) = eis_alive_count index"
  by (simp_all add: exchanged_def)

lemma eis_core_fields [simp]:
  "eis_core (index\<lparr>eis_alive_count := n\<rparr>) = eis_core index"
  "eis_core (index\<lparr>eis_max_id := m\<rparr>) = eis_core index"
  "eis_core (index\<lparr>eis_range_store := s\<rparr>) = eis_core index"
  "eis_core (index\<lparr>eis_ranges := rs\<rparr>) = eis_core index"
  "eis_core (index\<lparr>eis_active_range := a\<rparr>) = eis_core index"
  by (simp_all add: eis_core_def)

definition clear_record :: "nat \<Rightarrow> ecs_record_t \<Rightarrow> ecs_record_t" where
  "clear_record d r = r\<lparr>rec_table := None, rec_row := 0, rec_dense := d\<rparr>"

definition removed :: "ecs_entity_index_t \<Rightarrow> u64 \<Rightarrow> ecs_entity_index_t" where
  "removed index e =
     (let n = eis_alive_count index - 1
      in exchanged (index\<lparr>eis_alive_count := n\<rparr>) (pos_of index (lo32 e)) n (ECS_GENERATION_INC e)
           (clear_record n))"

lemma removed_ok:
  assumes inv: "eis_inv index" and alive: "e \<in> alive_set index"
  shows "eis_inv (removed index e)" "alive_set (removed index e) = alive_set index - {e}"
    "dead_ids (removed index e) = ECS_GENERATION_INC e # dead_ids index"
    "record_of (removed index e) (lo32 e) =
       clear_record (eis_alive_count index - 1) (record_of index (lo32 e))"
    "c \<noteq> lo32 e \<Longrightarrow> rec_table (record_of (removed index e) c) = rec_table (record_of index c)"
    "c \<noteq> lo32 e \<Longrightarrow> rec_row (record_of (removed index e) c) = rec_row (record_of index c)"
    "0 < pos_of (removed index e) c \<longleftrightarrow> 0 < pos_of index c"
    "0 < pos_of index c \<Longrightarrow> dense_ids (removed index e) ! pos_of (removed index e) c =
       (if c = lo32 e then ECS_GENERATION_INC e else dense_ids index ! pos_of index c)"
proof -
  define i where "i = pos_of index (lo32 e)"
  define n where "n = eis_alive_count index - 1"
  note D = eis_invD [OF inv]
  have i: "0 < i" "i < eis_alive_count index" "dense_ids index ! i = e"
    using alive by (simp_all add: alive_set_iff [OF inv] i_def)
  then have n: "0 < n" "i \<le> n" "n < vec_count (eis_dense index)" "eis_alive_count index = Suc n"
    using D(4) by (auto simp: n_def)
  let ?D = "dense_ids index" and ?g = "ECS_GENERATION_INC e"
  let ?swap = "lo32 (?D ! n)"
  have rm: "removed index e = exchanged (index\<lparr>eis_alive_count := n\<rparr>) i n ?g (clear_record n)"
    by (simp add: removed_def n_def i_def Let_def)
  have g: "lo32 ?g = lo32 e" by (rule lo32_ECS_GENERATION_INC)
  note X = exchanged_ok [of "index\<lparr>eis_alive_count := n\<rparr>" i n ?g "clear_record n", folded rm]
  have core: "eis_core (removed index e)" and cnt: "vec_count (eis_dense (removed index e)) = vec_count (eis_dense index)"
    and el: "dense_ids (removed index e) = ?D[i := ?D ! n, n := ?g]"
    and rec: "record_of (removed index e) c = (if c = lo32 e
       then clear_record n (if i = n then set_dense i (record_of index c) else record_of index c)
       else if c = ?swap then set_dense i (record_of index c) else record_of index c)" for c
    using X D i n g by (simp_all add: clear_record_def)
  have ac: "eis_alive_count (removed index e) = n" by (simp add: rm)
  show "record_of (removed index e) (lo32 e) = clear_record (eis_alive_count index - 1) (record_of index (lo32 e))"
    by (simp add: rec n(4)) (simp add: clear_record_def)
  show tab: "c \<noteq> lo32 e \<Longrightarrow> rec_table (record_of (removed index e) c) = rec_table (record_of index c)"
    and "c \<noteq> lo32 e \<Longrightarrow> rec_row (record_of (removed index e) c) = rec_row (record_of index c)" for c
    by (simp_all add: rec)
  have ps: "pos_of index ?swap = n" "pos_of index (lo32 e) = i"
    using pos_of_dense(1) [OF D(8)] n i_def by simp_all
  show "0 < pos_of (removed index e) c \<longleftrightarrow> 0 < pos_of index c" for c
    using i n ps by (auto simp: rec clear_record_def)
  show "dense_ids (removed index e) ! pos_of (removed index e) c =
       (if c = lo32 e then ?g else ?D ! pos_of index c)" if "0 < pos_of index c" for c
  proof -
    have b: "pos_of index c < vec_count (eis_dense index)" "lo32 (?D ! pos_of index c) = c"
      using pos_of_bounds [OF D(8) that] by simp_all
    have "c \<noteq> lo32 e \<Longrightarrow> pos_of index c \<noteq> i" "c \<noteq> ?swap \<Longrightarrow> pos_of index c \<noteq> n" using b(2) i(3) by auto
    moreover have "lo32 e = ?swap \<longleftrightarrow> i = n" using i(3) ps by auto
    ultimately show ?thesis
      using b(1) n D(6) i ps by (auto simp: el rec clear_record_def nth_list_update)
  qed
  have "rec_table (record_of (removed index e) c) = None"
    if *: "pos_of (removed index e) c = 0 \<or> n \<le> pos_of (removed index e) c" for c
  proof (cases "c = lo32 e")
    case True
    then show ?thesis by (simp add: rec clear_record_def)
  next
    case False
    have "c \<noteq> ?swap" if "i = n" using that False i by auto
    with * False i n have "pos_of index c = 0 \<or> n \<le> pos_of index c" "c \<noteq> ?swap"
      by (auto simp: rec split: if_splits)
    moreover have "pos_of index c \<noteq> n"
      using pos_of_bounds(2) [OF D(8), of c] \<open>c \<noteq> ?swap\<close> n(1) by auto
    ultimately have "pos_of index c = 0 \<or> eis_alive_count index \<le> pos_of index c" using n(4) by auto
    then show ?thesis using inv tab [OF False] by (auto simp: eis_inv_def)
  qed
  then show "eis_inv (removed index e)" using core n cnt by (simp add: eis_inv_def ac)
  show "alive_set (removed index e) = alive_set index - {e}"
    using dense_alive_exchange_out [OF D(5) i(1) n(2), of ?g] n D(6) i(3)
    by (simp add: alive_set_def ac el)
  show "dead_ids (removed index e) = ?g # dead_ids index"
    using n D(6) Cons_nth_drop_Suc [of n "?D[i := ?D ! n, n := ?g]"]
    by (simp add: dead_ids_def ac el flip: Cons_nth_drop_Suc)
qed

lemma remove_intern_ok:
  assumes inv: "eis_inv index"
  shows "flecs_entity_index_remove_intern index e =
    Inr (if e \<in> alive_set index then (removed index e, Some (lo32 e)) else (index, None))"
proof (cases "e \<in> alive_set index")
  case True
  define i where "i = pos_of index (lo32 e)"
  define n where "n = eis_alive_count index - 1"
  note D = eis_invD [OF inv]
  have i: "0 < i" "i < eis_alive_count index" "dense_ids index ! i = e"
    using True by (simp_all add: alive_set_iff [OF inv] i_def)
  then have n: "0 < n" "i \<le> n" "n < vec_count (eis_dense index)" "eis_alive_count index = Suc n"
    using D(4) by (auto simp: n_def)
  let ?swap = "lo32 (dense_ids index ! n)"
  have swap: "pos_of index ?swap = n" "has_page index ?swap" using pos_of_dense [OF D(8)] n by simp_all
  have page: "has_page index (lo32 e)" using i(1) by (simp add: has_page_pos i_def)
  have pi: "rec_dense (record_of index (lo32 e)) = i" by (simp add: i_def)
  have read: "ecs_vec_get (eis_dense index) n = Inr (dense_ids index ! n)" using D n by simp
  have alive: "flecs_entity_index_is_alive (removed index e) e = Inr False"
    using removed_ok(1,2) [OF inv True] by (simp add: is_alive_ok)
  have rm: "removed index e = (record_upd (record_upd (index\<lparr>eis_alive_count := n\<rparr>) ?swap (set_dense i))
      (lo32 e) (\<lambda>rec. rec\<lparr>rec_table := None, rec_row := 0, rec_dense := n\<rparr>))
      \<lparr>eis_dense := vec_upd (vec_upd (eis_dense index) i (dense_ids index ! n)) n (ECS_GENERATION_INC e)\<rparr>"
    by (simp add: removed_def exchanged_def n_def [simplified] i_def clear_record_def [abs_def]
        lo32_ECS_GENERATION_INC Let_def)
  show ?thesis
    unfolding flecs_entity_index_remove_intern_def try_get_ok [OF inv] n_def [symmetric] Let_def
    using True D n i swap page alive
    by (simp add: pi read rm [symmetric])
qed (simp add: flecs_entity_index_remove_intern_def try_get_ok [OF inv])

text \<open>The fields that issuing and removing ids leave alone.\<close>

definition same_ranges :: "ecs_entity_index_t \<Rightarrow> ecs_entity_index_t \<Rightarrow> bool" where
  "same_ranges index index' \<longleftrightarrow> eis_ranges index' = eis_ranges index \<and>
     eis_active_range index' = eis_active_range index \<and> eis_range_store index' = eis_range_store index"

definition same_records :: "ecs_entity_index_t \<Rightarrow> ecs_entity_index_t \<Rightarrow> u32 \<Rightarrow> bool" where
  "same_records index index' c \<longleftrightarrow> rec_table (record_of index' c) = rec_table (record_of index c) \<and>
     rec_row (record_of index' c) = rec_row (record_of index c)"

lemma dead_ids_Nil: "eis_inv index \<Longrightarrow> dead_ids index = [] \<longleftrightarrow> eis_alive_count index = vec_count (eis_dense index)"
  using eis_invD(4,6) [of index] by (auto simp: dead_ids_def)

lemma new_id_recycle:
  assumes inv: "eis_inv index" and dead: "dead_ids index = e # es"
  defines "index' \<equiv> index\<lparr>eis_alive_count := eis_alive_count index + 1\<rparr>"
  shows "flecs_entity_index_new_id index = Inr (index', e)" "eis_inv index'"
    "alive_set index' = insert e (alive_set index)" "e \<notin> alive_set index" "dead_ids index' = es"
    "0 < pos_of index (lo32 e)"
proof -
  note D = eis_invD [OF inv]
  let ?n = "eis_alive_count index"
  have n: "?n < vec_count (eis_dense index)" and e: "dense_ids index ! ?n = e"
    and es: "drop (Suc ?n) (dense_ids index) = es"
    using dead D(6) Cons_nth_drop_Suc [of ?n "dense_ids index"]
    by (cases "?n < vec_count (eis_dense index)"; simp add: dead_ids_def)+
  show "flecs_entity_index_new_id index = Inr (index', e)"
    using D n e by (simp add: flecs_entity_index_new_id_def ecs_vec_count_def index'_def)
  show "eis_inv index'" using inv n by (auto simp: eis_inv_def index'_def)
  show "alive_set index' = insert e (alive_set index)"
    using D(3) e by (simp add: alive_set_def index'_def dense_alive_Suc)
  show "e \<notin> alive_set index"
    using dense_alive_distinct [OF D(5), of ?n] D n e by (simp add: alive_set_def)
  show "dead_ids index' = es" using es by (simp add: dead_ids_def index'_def)
  show "0 < pos_of index (lo32 e)" using pos_of_dense(1) [OF D(8) D(3) n] D(3) e by simp
qed

lemma new_id_fresh:
  assumes inv: "eis_inv index" and dead: "dead_ids index = []" and room: "vec_count (eis_dense index) < 2 ^ 30"
    and fresh: "pos_of index (eis_max_id index + 1) = 0"
  defines "c \<equiv> eis_max_id index + 1"
  shows "\<exists>index'. flecs_entity_index_new_id index = Inr (index', to64 c) \<and> eis_inv index' \<and>
    alive_set index' = insert (to64 c) (alive_set index) \<and> dead_ids index' = [] \<and>
    eis_max_id index' = c \<and> same_ranges index index' \<and> (\<forall>d. same_records index index' d) \<and>
    (\<forall>d. 0 < pos_of index' d \<longleftrightarrow> d = c \<or> 0 < pos_of index d) \<and>
    dense_ids index' = dense_ids index @ [to64 c] \<and> (\<forall>d. d \<noteq> c \<longrightarrow> pos_of index' d = pos_of index d)"
proof -
  note D = eis_invD [OF inv]
  let ?n = "eis_alive_count index" and ?e = "to64 c"
  have n: "?n = vec_count (eis_dense index)" using dead inv by (simp add: dead_ids_Nil)
  define j where "j = record_upd (with_page (index\<lparr>eis_max_id := c, eis_dense := vec_snoc (eis_dense index) ?e\<rparr>) c) c (set_dense ?n)"
  have rec: "record_of j = (record_of index)(c := set_dense ?n (record_of index c))"
    and jf: "vec_ok (eis_pages j)" "eis_dense j = vec_snoc (eis_dense index) ?e" "eis_alive_count j = ?n"
    "eis_max_id j = c" "same_ranges index j"
    using D by (simp_all add: j_def same_ranges_def)
  have inv_j: "eis_inv j"
    by (rule append_inv [OF inv room, of ?e]) (use fresh rec jf n in \<open>simp_all add: c_def\<close>)
  let ?i = "j\<lparr>eis_alive_count := Suc ?n\<rparr>"
  have cnt: "vec_count (eis_dense j) = Suc ?n" using D(7) room jf n by simp
  have el: "dense_ids j = dense_ids index @ [?e]" using D(7) room jf by simp
  have inv_i: "eis_inv ?i" using inv_j cnt jf by (auto simp: eis_inv_def)
  have "flecs_entity_index_new_id index = Inr (?i, ?e)"
    using D n room fresh cnt jf
    by (simp add: flecs_entity_index_new_id_def ecs_vec_count_def Let_def c_def [symmetric])
      (simp add: j_def n)
  moreover have "alive_set ?i = insert ?e (alive_set index)"
    using D(3,6) n by (simp add: alive_set_def el dense_alive_Suc nth_append)
  moreover have "dead_ids ?i = []" using cnt inv_i by (simp add: dead_ids_Nil)
  moreover have "same_records index ?i d" for d by (simp add: same_records_def rec)
  moreover have "0 < pos_of ?i d \<longleftrightarrow> d = c \<or> 0 < pos_of index d" for d using D(3) by (simp add: rec)
  moreover have "pos_of ?i d = pos_of index d" if "d \<noteq> c" for d using that by (simp add: rec)
  ultimately show ?thesis using inv_i jf el by (intro exI [of _ ?i]) (simp add: same_ranges_def)
qed

text \<open>Bringing a dead id back, with the generation of \<open>e\<close>.\<close>

definition revived :: "ecs_entity_index_t \<Rightarrow> u64 \<Rightarrow> ecs_entity_index_t" where
  "revived index e =
     (exchanged index (pos_of index (lo32 e)) (eis_alive_count index) e (set_dense (eis_alive_count index)))
       \<lparr>eis_alive_count := eis_alive_count index + 1\<rparr>"

lemma revived_ok:
  assumes inv: "eis_inv index" and dead: "eis_alive_count index \<le> pos_of index (lo32 e)"
  shows "eis_inv (revived index e)" "alive_set (revived index e) = insert e (alive_set index)"
    "same_records index (revived index e) c" "same_ranges index (revived index e)"
    "0 < pos_of (revived index e) c \<longleftrightarrow> 0 < pos_of index c"
    "eis_max_id (revived index e) = eis_max_id index"
    "vec_count (eis_dense (revived index e)) = vec_count (eis_dense index)"
proof -
  note D = eis_invD [OF inv]
  let ?n = "eis_alive_count index" and ?D = "dense_ids index"
  define i where "i = pos_of index (lo32 e)"
  have i: "0 < i" "?n \<le> i" "i < vec_count (eis_dense index)" "lo32 e = lo32 (?D ! i)"
    using dead D(3) pos_of_bounds [OF D(8), of "lo32 e"] by (auto simp: i_def)
  have n: "0 < ?n" "?n < vec_count (eis_dense index)" using D(3) i by auto
  define X where "X = exchanged index i ?n e (set_dense ?n)"
  have core: "eis_core X" and cnt: "vec_count (eis_dense X) = vec_count (eis_dense index)"
    and el: "dense_ids X = ?D[i := ?D ! ?n, ?n := e]"
    and rec: "record_of X c = (if c = lo32 e then set_dense ?n (record_of index c)
       else if c = lo32 (?D ! ?n) then set_dense i (record_of index c) else record_of index c)" for c
    using exchanged_ok [OF D(8) i(1,3) n i(4), of "set_dense ?n"] by (auto simp: X_def)
  have rv: "revived index e = X\<lparr>eis_alive_count := Suc ?n\<rparr>" by (simp add: revived_def X_def i_def)
  have tab: "rec_table (record_of X c) = rec_table (record_of index c)" for c by (simp add: rec)
  have ps: "pos_of index (lo32 (?D ! ?n)) = ?n" using pos_of_dense(1) [OF D(8)] n by simp
  have "rec_table (record_of X c) = None" if "pos_of X c = 0 \<or> Suc ?n \<le> pos_of X c" for c
  proof -
    have "c \<noteq> lo32 e" using that n by (auto simp: rec)
    then have "pos_of index c = 0 \<or> ?n \<le> pos_of index c"
      using that ps by (cases "c = lo32 (?D ! ?n)") (auto simp: rec)
    then show ?thesis using inv by (auto simp: eis_inv_def tab)
  qed
  then show "eis_inv (revived index e)" using core cnt n by (auto simp: eis_inv_def rv)
  show "alive_set (revived index e) = insert e (alive_set index)"
    using dense_alive_exchange_in [OF n(1) i(2), of ?D e] i D(6) by (simp add: alive_set_def rv el)
  show "same_records index (revived index e) c" by (simp add: same_records_def rv rec)
  show "same_ranges index (revived index e)" "eis_max_id (revived index e) = eis_max_id index"
    by (simp_all add: same_ranges_def rv X_def)
  show "0 < pos_of (revived index e) c \<longleftrightarrow> 0 < pos_of index c"
    using n i(1) ps unfolding rv record_of_fields rec i_def by auto
  show "vec_count (eis_dense (revived index e)) = vec_count (eis_dense index)" by (simp add: rv cnt)
qed

lemma with_page_same:
  assumes "vec_ok (eis_pages index)" and "has_page index c"
  shows "with_page index c = index"
proof -
  have "flecs_entity_index_ensure_page index c = Inr index"
    using assms
    by (auto simp: flecs_entity_index_ensure_page_def Let_def has_page_def ecs_vec_count_def)
  then show ?thesis by (simp add: with_page_def)
qed

lemma ensure_swap_ok:
  assumes inv: "eis_inv index" and dead: "eis_alive_count index \<le> pos_of index (lo32 e)"
  shows "ensure_swap index e (pos_of index (lo32 e)) = Inr (revived index e, lo32 e)"
proof -
  note D = eis_invD [OF inv]
  let ?n = "eis_alive_count index" and ?i = "pos_of index (lo32 e)"
  have i: "0 < ?i" "?i < vec_count (eis_dense index)"
    using dead D(3) pos_of_bounds [OF D(8), of "lo32 e"] by auto
  have n: "0 < ?n" "?n < vec_count (eis_dense index)" using D(3) i dead by auto
  let ?swap = "lo32 (dense_ids index ! ?n)"
  have swap: "pos_of index ?swap = ?n" "has_page index ?swap" using pos_of_dense [OF D(8)] n by simp_all
  have page: "has_page index (lo32 e)" using i(1) by (simp add: has_page_pos)
  have alive: "flecs_entity_index_is_alive (revived index e) e = Inr True"
    using revived_ok(1,2) [OF inv dead] by (simp add: is_alive_ok)
  have rv: "revived index e = (record_upd (record_upd index ?swap (set_dense ?i)) (lo32 e) (set_dense ?n))
      \<lparr>eis_dense := vec_upd (vec_upd (eis_dense index) ?i (dense_ids index ! ?n)) ?n e, eis_alive_count := ?n + 1\<rparr>"
    by (simp add: revived_def exchanged_def)
  have read: "vec_read (eis_dense index) ?n = Inr (dense_ids index ! ?n)" using D n by simp
  show ?thesis
    unfolding ensure_swap_def Let_def
    using D n i swap page alive by (simp add: read rv)
qed

lemma ensure_existing:
  assumes inv: "eis_inv index" and "0 < pos_of index (lo32 e)"
  shows "flecs_entity_index_ensure index e =
    (if eis_alive_count index \<le> pos_of index (lo32 e) then Inr (revived index e, lo32 e)
     else if e \<in> alive_set index then Inr (index, lo32 e) else Inl (Abort ECS_INTERNAL_ERROR))"
proof -
  note D = eis_invD [OF inv]
  have page: "has_page index (lo32 e)" using assms(2) by (rule has_page_pos)
  have b: "pos_of index (lo32 e) < vec_count (eis_dense index)" using pos_of_bounds [OF D(8) assms(2)] by simp
  show ?thesis
    using D assms(2) page b ensure_swap_ok [OF inv]
    by (auto simp: flecs_entity_index_ensure_def Let_def with_page_same alive_set_iff [OF inv])
qed

text \<open>An id that the index does not know: it is appended to the dense vector first.\<close>

definition appended :: "ecs_entity_index_t \<Rightarrow> u64 \<Rightarrow> ecs_entity_index_t" where
  "appended index e =
     (record_upd ((with_page index (lo32 e))\<lparr>eis_dense := vec_snoc (eis_dense index) e\<rparr>) (lo32 e)
        (set_dense (vec_count (eis_dense index))))
       \<lparr>eis_max_id := if lo32 e > eis_max_id index then lo32 e else eis_max_id index\<rparr>"

lemma appended_ok:
  assumes inv: "eis_inv index" and "pos_of index (lo32 e) = 0" and "vec_count (eis_dense index) < 2 ^ 30"
  shows "eis_inv (appended index e)" "alive_set (appended index e) = alive_set index"
    "pos_of (appended index e) = (pos_of index)(lo32 e := vec_count (eis_dense index))"
    "eis_alive_count (appended index e) = eis_alive_count index"
    "same_records index (appended index e) c" "same_ranges index (appended index e)"
    "eis_max_id (appended index e) = max (lo32 e) (eis_max_id index)"
    "vec_count (eis_dense (appended index e)) = Suc (vec_count (eis_dense index))"
proof -
  note D = eis_invD [OF inv]
  have f: "vec_ok (eis_pages (appended index e))" "eis_dense (appended index e) = vec_snoc (eis_dense index) e"
    "record_of (appended index e) = (record_of index)(lo32 e :=
           set_dense (vec_count (eis_dense index)) (record_of index (lo32 e)))"
    and a: "eis_alive_count (appended index e) = eis_alive_count index"
    using D by (simp_all add: appended_def)
  show "eis_inv (appended index e)" using append_inv [OF inv assms(3,2) f a] .
  show "eis_alive_count (appended index e) = eis_alive_count index" by (rule a)
  show "alive_set (appended index e) = alive_set index"
    using D assms(3) by (simp add: alive_set_def a f(2))
  show "pos_of (appended index e) = (pos_of index)(lo32 e := vec_count (eis_dense index))"
    by (auto simp: f(3))
  show "same_records index (appended index e) c" by (simp add: same_records_def f(3))
  show "same_ranges index (appended index e)" using D by (simp add: same_ranges_def appended_def)
  show "eis_max_id (appended index e) = max (lo32 e) (eis_max_id index)"
    by (auto simp: appended_def max_def)
  show "vec_count (eis_dense (appended index e)) = Suc (vec_count (eis_dense index))"
    using D assms(3) by (simp add: f(2))
qed

lemma ensure_new:
  assumes inv: "eis_inv index" and new: "pos_of index (lo32 e) = 0" and room: "vec_count (eis_dense index) < 2 ^ 30"
  shows "flecs_entity_index_ensure index e = Inr (revived (appended index e) e, lo32 e)"
    "eis_alive_count (appended index e) \<le> pos_of (appended index e) (lo32 e)"
proof -
  note D = eis_invD [OF inv] and A = appended_ok [OF assms]
  have p: "pos_of (appended index e) (lo32 e) = vec_count (eis_dense index)"
    using fun_cong [OF A(3), of "lo32 e"] by simp
  show dead: "eis_alive_count (appended index e) \<le> pos_of (appended index e) (lo32 e)"
    using p A(4) D(4) by simp
  show "flecs_entity_index_ensure index e = Inr (revived (appended index e) e, lo32 e)"
  proof -
    have "flecs_entity_index_ensure index e =
        ensure_swap (appended index e) e (vec_count (eis_dense index))"
      using D new room by (simp add: flecs_entity_index_ensure_def Let_def ecs_vec_count_def appended_def)
    then show ?thesis using ensure_swap_ok [OF A(1) dead] by (simp only: p)
  qed
qed

end
