(* ===== verification/EntityLifecycle.thy ===== *)
theory EntityLifecycle
  imports EntityIndex
begin

text \<open>
  The life of an entity id without ranges: the public queries of \<open>src/entity.c\<close> over the entity
  index, the transitions of the index as a labelled step relation, and what holds along every
  run: the invariant of the index, the freshness of new ids, and that the handle of a removed
  entity stays dead while its slot is recycled.
\<close>

section \<open>Operations of \<open>entity.c\<close>\<close>

definition ECS_ROW_MASK :: u32 where "ECS_ROW_MASK = 0x0FFFFFFF"
definition ECS_ROW_FLAGS_MASK :: u32 where "ECS_ROW_FLAGS_MASK = NOT ECS_ROW_MASK"

definition ECS_RECORD_TO_ROW :: "u32 \<Rightarrow> u32" where
  "ECS_RECORD_TO_ROW v = v AND ECS_ROW_MASK"

definition ECS_RECORD_TO_ROW_FLAGS :: "u32 \<Rightarrow> u32" where
  "ECS_RECORD_TO_ROW_FLAGS v = v AND ECS_ROW_FLAGS_MASK"

definition ECS_ROW_TO_RECORD :: "u32 \<Rightarrow> u32 \<Rightarrow> u32" where
  "ECS_ROW_TO_RECORD row flags = row OR flags"

definition ecs_is_alive :: "ecs_entity_index_t \<Rightarrow> u64 \<Rightarrow> bool res" where
  "ecs_is_alive index entity =
     bindr (ecs_assert (entity \<noteq> 0) ECS_INVALID_PARAMETER) (\<lambda>_.
     flecs_entity_index_is_alive index entity)"

definition ecs_is_valid :: "ecs_entity_index_t \<Rightarrow> u64 \<Rightarrow> bool res" where
  "ecs_is_valid index entity =
     (if entity = 0 then Inr False
      else if entity AND ECS_ID_FLAGS_MASK \<noteq> 0 then Inr False
      else if entity AND NOT 0xFF00FFFFFFFFFFFF \<noteq> 0 then Inr False
      else ecs_is_alive index entity)"

definition ecs_strip_generation :: "u64 \<Rightarrow> u64" where
  "ecs_strip_generation e =
     (if e AND ECS_ID_FLAGS_MASK = 0 then e AND NOT ECS_GENERATION_MASK else e)"

definition ecs_get_alive :: "ecs_entity_index_t \<Rightarrow> u64 \<Rightarrow> u64 res" where
  "ecs_get_alive index entity =
     (if entity = 0 then Inr 0
      else
        bindr (flecs_entity_index_is_alive index entity) (\<lambda>alive.
        if alive then Inr entity
        else if to64 (lo32 entity) \<noteq> entity then Inr 0
        else
          bindr (flecs_entity_index_get_alive index entity) (\<lambda>current.
          if current = 0 then Inr 0
          else
            bindr (flecs_entity_index_is_alive index current) (\<lambda>alive.
            if \<not> alive then Inr 0 else Inr current))))"

section \<open>The queries\<close>

lemma ecs_get_alive_ok:
  assumes inv: "eis_inv index"
  shows "ecs_get_alive index e = Inr (if e = 0 then 0 else if e \<in> alive_set index then e
    else if to64 (lo32 e) = e \<and> 0 < pos_of index (lo32 e) \<and> pos_of index (lo32 e) < eis_alive_count index
    then dense_ids index ! pos_of index (lo32 e) else 0)"
proof -
  let ?d = "dense_ids index ! pos_of index (lo32 e)"
  have "?d \<in> alive_set index" if "0 < pos_of index (lo32 e)" "pos_of index (lo32 e) < eis_alive_count index"
    using that by (simp add: alive_set_def dense_aliveI)
  then show ?thesis
    by (auto simp: ecs_get_alive_def is_alive_ok [OF inv] get_alive_ok [OF inv])
qed

lemma make_alive_dead:
  assumes inv: "eis_inv index" and dead: "pos_of index (lo32 e) = 0 \<or> eis_alive_count index \<le> pos_of index (lo32 e)"
  shows "\<exists>index'. flecs_entity_index_make_alive index e = Inr index' \<and> eis_inv index' \<and>
    record_of index' = record_of index \<and> alive_set index' = alive_set index \<and>
    eis_alive_count index' = eis_alive_count index \<and> eis_max_id index' = eis_max_id index \<and>
    same_ranges index index' \<and> vec_count (eis_dense index') = vec_count (eis_dense index)"
proof (cases "pos_of index (lo32 e) = 0")
  case True
  then show ?thesis
    using eis_invD [OF inv] inv by (simp add: flecs_entity_index_make_alive_def same_ranges_def)
next
  case False
  note D = eis_invD [OF inv]
  let ?p = "pos_of index (lo32 e)"
  have p: "0 < ?p" "eis_alive_count index \<le> ?p" using False dead by auto
  note b = pos_of_bounds [OF D(8) p(1)]
  let ?i = "index\<lparr>eis_dense := vec_upd (eis_dense index) ?p e\<rparr>"
  have "flecs_entity_index_make_alive index e = Inr ?i"
    using D p b has_page_pos [OF p(1)] by (simp add: flecs_entity_index_make_alive_def)
  moreover have el: "dense_ids ?i = (dense_ids index)[?p := e]" using D b by simp
  moreover have "dense_consistent ucast ((dense_ids index)[?p := e]) (pos_of index)"
    using D(5) b(2) by (intro dense_consistent_update) simp_all
  then have "eis_inv ?i"
    using inv D b el by (simp add: eis_inv_def eis_core_def)
  moreover have "dense_alive ((dense_ids index)[?p := e]) (eis_alive_count index) = alive_set index"
    unfolding alive_set_def using p by (intro dense_alive_cong) simp
  then have "alive_set ?i = alive_set index" using el by (simp add: alive_set_def)
  ultimately show ?thesis by (intro exI [of _ ?i]) (simp add: same_ranges_def)
qed

section \<open>Runs\<close>

text \<open>
  The events of the index while no range is active.  Ids are issued while fewer than \<open>2 ^ 30\<close> ids
  are known (the bound of the vectors) and while the counter \<open>max_id\<close> is not at its end.
\<close>

datatype eis_event = Issued u64 | Removed u64 | Ensured u64

inductive eis_step :: "ecs_entity_index_t \<Rightarrow> eis_event \<Rightarrow> ecs_entity_index_t \<Rightarrow> bool" where
  issue: "flecs_entity_index_new_id index = Inr (index', e) \<Longrightarrow> vec_count (eis_dense index) < 2 ^ 30 \<Longrightarrow>
    dead_ids index = [] \<longrightarrow> eis_max_id index < 0xFFFFFFFF \<Longrightarrow> eis_step index (Issued e) index'"
| remove: "flecs_entity_index_remove index e = Inr index' \<Longrightarrow> eis_step index (Removed e) index'"
| ensure: "flecs_entity_index_ensure index e = Inr (index', r) \<Longrightarrow> vec_count (eis_dense index) < 2 ^ 30 \<Longrightarrow>
    eis_step index (Ensured e) index'"

inductive_cases eis_step_issuedE: "eis_step index (Issued e) index'"
inductive_cases eis_step_removedE: "eis_step index (Removed e) index'"
inductive_cases eis_step_ensuredE: "eis_step index (Ensured e) index'"

inductive eis_run :: "ecs_entity_index_t \<Rightarrow> eis_event list \<Rightarrow> ecs_entity_index_t \<Rightarrow> bool" where
  run_nil: "eis_run index [] index"
| run_cons: "eis_step index ev index' \<Longrightarrow> eis_run index' evs index'' \<Longrightarrow> eis_run index (ev # evs) index''"

inductive_cases eis_run_NilE: "eis_run index [] index'"
inductive_cases eis_run_ConsE: "eis_run index (ev # evs) index'"

text \<open>The invariant of runs: no range is active and every known id is at most \<open>max_id\<close>.\<close>

definition eis_ok :: "ecs_entity_index_t \<Rightarrow> bool" where
  "eis_ok index \<longleftrightarrow> eis_inv index \<and> eis_active_range index = None \<and>
     (\<forall>c. 0 < pos_of index c \<longrightarrow> c \<le> eis_max_id index)"

lemma eis_okD: "eis_ok index \<Longrightarrow> eis_inv index" by (simp add: eis_ok_def)

lemma eis_ok_init: "eis_ok (flecs_entity_index_init index)"
  using init_inv by (simp add: eis_ok_def) (simp add: flecs_entity_index_init_def)

lemma not_max_less: "m < 0xFFFFFFFF \<Longrightarrow> m < m + (1 :: u32)"
proof -
  assume "m < 0xFFFFFFFF"
  then have "unat m < 0xFFFFFFFF" by (simp add: word_less_nat_alt)
  then have "unat (m + 1) = unat m + 1" by (simp add: unat_word_ariths)
  then show ?thesis by (simp add: word_less_nat_alt)
qed

lemma fresh_max_id:
  assumes "eis_ok index" and "eis_max_id index < 0xFFFFFFFF"
  shows "pos_of index (eis_max_id index + 1) = 0"
proof (rule ccontr)
  assume "pos_of index (eis_max_id index + 1) \<noteq> 0"
  then have "eis_max_id index + 1 \<le> eis_max_id index" using assms(1) by (simp add: eis_ok_def)
  with not_max_less [OF assms(2)] show False by simp
qed

lemma remove_no_range:
  assumes "eis_ok index"
  shows "flecs_entity_index_remove index e = Inr (if e \<in> alive_set index then removed index e else index)"
proof -
  have "eis_active_range (removed index e) = None"
    using assms by (simp add: eis_ok_def removed_def Let_def)
  with assms show ?thesis
    by (simp add: flecs_entity_index_remove_def remove_intern_ok eis_ok_def)
qed

text \<open>Issuing an id: what the step does to the sets, on both paths.\<close>

lemma issue_ok:
  assumes ok: "eis_ok index" and room: "vec_count (eis_dense index) < 2 ^ 30"
    and ids: "dead_ids index = [] \<longrightarrow> eis_max_id index < 0xFFFFFFFF"
  shows "\<exists>index' e. flecs_entity_index_new_id index = Inr (index', e) \<and> eis_ok index' \<and>
    e \<notin> alive_set index \<and> alive_set index' = insert e (alive_set index) \<and>
    dead_ids index' = tl (dead_ids index) \<and>
    (dead_ids index = [] \<longrightarrow> e = to64 (eis_max_id index + 1)) \<and>
    (dead_ids index \<noteq> [] \<longrightarrow> e = hd (dead_ids index)) \<and> (\<forall>c. same_records index index' c)"
proof (cases "dead_ids index")
  case Nil
  define c where "c = eis_max_id index + 1"
  have lt: "eis_max_id index < c" using ids Nil not_max_less by (simp add: c_def)
  obtain index' where i: "flecs_entity_index_new_id index = Inr (index', to64 c)" "eis_inv index'"
    "alive_set index' = insert (to64 c) (alive_set index)" "dead_ids index' = []" "eis_max_id index' = c"
    "same_ranges index index'" "\<forall>d. same_records index index' d"
    "\<forall>d. 0 < pos_of index' d \<longleftrightarrow> d = c \<or> 0 < pos_of index d"
    using new_id_fresh [OF eis_okD [OF ok] Nil room] fresh_max_id [OF ok] ids Nil by (auto simp: c_def)
  have "d \<le> c" if "0 < pos_of index d" for d
    using ok that lt by (meson eis_ok_def less_imp_le order_trans)
  then have "eis_ok index'" using i ok by (auto simp: eis_ok_def same_ranges_def)
  moreover have "to64 c \<notin> alive_set index"
    using fresh_max_id [OF ok] ids Nil by (simp add: alive_set_iff [OF eis_okD [OF ok]] c_def)
  ultimately show ?thesis using i Nil by (auto simp: c_def)
next
  case (Cons e es)
  note R = new_id_recycle [OF eis_okD [OF ok] Cons]
  have "eis_ok (index\<lparr>eis_alive_count := eis_alive_count index + 1\<rparr>)"
    using ok R(2) by (simp add: eis_ok_def)
  with R Cons show ?thesis by (simp add: same_records_def)
qed

lemma remove_step_ok:
  assumes "eis_ok index"
  shows "eis_ok (if e \<in> alive_set index then removed index e else index)"
  using assms removed_ok [of index e]
  by (auto simp: eis_ok_def) (simp_all add: removed_def Let_def)

lemma ensure_step_ok:
  assumes ok: "eis_ok index" and room: "vec_count (eis_dense index) < 2 ^ 30"
    and run: "flecs_entity_index_ensure index e = Inr (index', r)"
  shows "eis_ok index' \<and> alive_set index' = insert e (alive_set index) \<and> (\<forall>c. same_records index index' c)"
proof (cases "0 < pos_of index (lo32 e)")
  case True
  note E = ensure_existing [OF eis_okD [OF ok] True]
  show ?thesis
  proof (cases "eis_alive_count index \<le> pos_of index (lo32 e)")
    case dead: True
    then have "index' = revived index e" using run E by simp
    with revived_ok [OF eis_okD [OF ok] dead] ok show ?thesis
      by (auto simp: eis_ok_def same_ranges_def)
  next
    case False
    then have "index' = index" "e \<in> alive_set index" using run E by (auto split: if_splits)
    with ok show ?thesis by (auto simp: same_records_def)
  qed
next
  case False
  then have new: "pos_of index (lo32 e) = 0" by simp
  note A = appended_ok [OF eis_okD [OF ok] new room] and N = ensure_new [OF eis_okD [OF ok] new room]
  note R = revived_ok [OF A(1) N(2)]
  have i: "index' = revived (appended index e) e" using run N(1) by simp
  have "c \<le> eis_max_id index'" if "0 < pos_of index' c" for c
  proof (cases "c = lo32 e")
    case True
    then show ?thesis using A(7) R(6) by (simp add: i)
  next
    case False
    then have "0 < pos_of index c" using that R(5) [of c] fun_cong [OF A(3), of c] by (simp add: i)
    then have "c \<le> eis_max_id index" using ok by (simp add: eis_ok_def)
    then show ?thesis using A(7) R(6) by (simp add: i le_max_iff_disj)
  qed
  moreover have "same_records index index' c" for c
    using A(5) [of c] R(3) [of c] by (simp add: i same_records_def)
  ultimately show ?thesis using R A ok by (auto simp: i eis_ok_def same_ranges_def)
qed

lemma eis_step_ok: "eis_step index ev index' \<Longrightarrow> eis_ok index \<Longrightarrow> eis_ok index'"
proof (induction rule: eis_step.induct)
  case (issue index index' e)
  with issue_ok [OF issue.prems] show ?case by auto
next
  case (remove index e index')
  with remove_no_range [of index e] remove_step_ok [of index e] show ?case by simp
next
  case (ensure index e index' r)
  with ensure_step_ok show ?case by blast
qed

lemma eis_run_ok: "eis_run index evs index' \<Longrightarrow> eis_ok index \<Longrightarrow> eis_ok index'"
  by (induction rule: eis_run.induct) (auto dest: eis_step_ok)

section \<open>The set of entities\<close>

text \<open>
  The abstract specification: an entity index is a set of alive entities that the events insert
  into and delete from.
\<close>

fun apply_event :: "eis_event \<Rightarrow> u64 set \<Rightarrow> u64 set" where
  "apply_event (Issued e) A = insert e A"
| "apply_event (Removed e) A = A - {e}"
| "apply_event (Ensured e) A = insert e A"

lemma eis_step_alive:
  assumes "eis_step index ev index'" and "eis_ok index"
  shows "alive_set index' = apply_event ev (alive_set index)"
  using assms
proof (induction rule: eis_step.induct)
  case (issue index index' e)
  with issue_ok [OF issue.prems] show ?case by auto
next
  case (remove index e index')
  with remove_no_range [of index e] removed_ok(2) [of index e] eis_okD show ?case by auto
next
  case (ensure index e index' r)
  with ensure_step_ok show ?case by simp
qed

lemma eis_run_alive:
  "eis_run index evs index' \<Longrightarrow> eis_ok index \<Longrightarrow> alive_set index' = fold apply_event evs (alive_set index)"
  by (induction rule: eis_run.induct) (simp_all add: eis_step_alive eis_step_ok)

lemma card_alive_set:
  assumes "eis_inv index"
  shows "int (card (alive_set index)) = flecs_entity_index_count index" "finite (alive_set index)"
proof -
  note D = eis_invD [OF assms]
  have "inj_on ((!) (dense_ids index)) {0<..<eis_alive_count index}"
  proof (rule inj_onI)
    fix i j assume "i \<in> {0<..<eis_alive_count index}" "j \<in> {0<..<eis_alive_count index}"
      "dense_ids index ! i = dense_ids index ! j"
    with dense_consistent_inj [OF D(5), of i j] D(4,6) show "i = j" by simp
  qed
  then have "card (alive_set index) = eis_alive_count index - 1"
    by (simp add: alive_set_def dense_alive_def card_image)
  then show "int (card (alive_set index)) = flecs_entity_index_count index"
    using D(3) by (simp add: flecs_entity_index_count_def)
  show "finite (alive_set index)" by (simp add: alive_set_def dense_alive_def)
qed

section \<open>Generations\<close>

text \<open>The id, with its generation, that the index keeps for a known slot.\<close>

definition slot_id :: "ecs_entity_index_t \<Rightarrow> u32 \<Rightarrow> u64" where
  "slot_id index c = dense_ids index ! pos_of index c"

definition removals :: "u32 \<Rightarrow> eis_event list \<Rightarrow> nat" where
  "removals c evs = length (filter (\<lambda>ev. case ev of Removed e \<Rightarrow> lo32 e = c | _ \<Rightarrow> False) evs)"

definition ensures_none :: "eis_event list \<Rightarrow> bool" where
  "ensures_none evs = list_all (\<lambda>ev. case ev of Ensured e \<Rightarrow> False | _ \<Rightarrow> True) evs"

lemma slot_id_alive: "eis_inv index \<Longrightarrow> e \<in> alive_set index \<Longrightarrow> slot_id index (lo32 e) = e"
  by (simp add: alive_set_iff slot_id_def)

lemma eis_step_slot:
  assumes "eis_step index ev index'" and "eis_ok index" and "0 < pos_of index c" and "ensures_none [ev]"
  shows "0 < pos_of index' c \<and> (slot_id index' c = slot_id index c \<or>
    (removals c [ev] = 1 \<and> slot_id index' c = ECS_GENERATION_INC (slot_id index c)))"
  using assms
proof (induction rule: eis_step.induct)
  case (issue index index' e)
  show ?case
  proof (cases "dead_ids index")
    case Nil
    have "pos_of index (eis_max_id index + 1) = 0" using issue fresh_max_id Nil by simp
    moreover from this have ne: "c \<noteq> eis_max_id index + 1" using issue.prems(2) by auto
    ultimately obtain i where i: "flecs_entity_index_new_id index = Inr (i, to64 (eis_max_id index + 1))"
      "dense_ids i = dense_ids index @ [to64 (eis_max_id index + 1)]" "pos_of i c = pos_of index c"
      using new_id_fresh [OF eis_okD [OF issue.prems(1)] Nil issue.hyps(2)] by auto
    then have "index' = i" using issue.hyps(1) by simp
    moreover have "pos_of index c < length (dense_ids index)"
      using pos_of_bounds(1) [OF eis_invD(8) issue.prems(2)] eis_invD(6) eis_okD [OF issue.prems(1)] by simp
    ultimately show ?thesis using i issue.prems(2) by (simp add: slot_id_def nth_append)
  next
    case (Cons e es)
    with new_id_recycle(1) [OF eis_okD [OF issue.prems(1)] Cons] issue.hyps(1) issue.prems(2)
    show ?thesis by (auto simp: slot_id_def)
  qed
next
  case (remove index e index')
  then have i': "index' = (if e \<in> alive_set index then removed index e else index)"
    by (simp add: remove_no_range)
  show ?case
  proof (cases "e \<in> alive_set index")
    case True
    note R = removed_ok(7,8) [OF eis_okD [OF remove.prems(1)] True, of c]
    have "slot_id index (lo32 e) = e" using slot_id_alive [OF eis_okD [OF remove.prems(1)] True] .
    then show ?thesis using R remove.prems(2) True by (simp add: i' slot_id_def removals_def)
  qed (use i' remove.prems in simp)
qed (simp add: ensures_none_def)

lemma eis_run_slot:
  "eis_run index evs index' \<Longrightarrow> eis_ok index \<Longrightarrow> 0 < pos_of index c \<Longrightarrow> ensures_none evs \<Longrightarrow>
    \<exists>k \<le> removals c evs. slot_id index' c = (ECS_GENERATION_INC ^^ k) (slot_id index c)"
proof (induction rule: eis_run.induct)
  case (run_nil index)
  then show ?case by (intro exI [of _ 0]) simp
next
  case (run_cons index ev index' evs index'')
  have en: "ensures_none [ev]" "ensures_none evs" using run_cons.prems(3) by (auto simp: ensures_none_def)
  note S = eis_step_slot [OF run_cons.hyps(1) run_cons.prems(1,2) en(1)]
  obtain k where k: "k \<le> removals c evs" "slot_id index'' c = (ECS_GENERATION_INC ^^ k) (slot_id index' c)"
    using run_cons.IH [OF eis_step_ok [OF run_cons.hyps(1) run_cons.prems(1)] conjunct1 [OF S] en(2)] by auto
  have r: "removals c (ev # evs) = removals c [ev] + removals c evs" by (simp add: removals_def)
  from S show ?case
  proof (elim conjE disjE)
    assume "slot_id index' c = slot_id index c"
    then show ?thesis using k r by (intro exI [of _ k]) simp
  next
    assume "removals c [ev] = 1" "slot_id index' c = ECS_GENERATION_INC (slot_id index c)"
    moreover have "(ECS_GENERATION_INC ^^ Suc k) x = (ECS_GENERATION_INC ^^ k) (ECS_GENERATION_INC x)" for x
      by (simp only: funpow_Suc_right o_apply)
    ultimately show ?thesis using k r by (intro exI [of _ "Suc k"]) (simp only: Suc_le_mono, simp)
  qed
qed

section \<open>Making an id alive\<close>

lemma ecs_get_alive_slot:
  assumes "eis_inv index" and "c \<noteq> 0"
  shows "ecs_get_alive index (to64 c) =
    Inr (if 0 < pos_of index c \<and> pos_of index c < eis_alive_count index
         then dense_ids index ! pos_of index c else 0)"
proof -
  have "to64 c \<noteq> 0" using assms(2) by (metis lo32_to64 unsigned_0)
  then show ?thesis
    using alive_set_iff [OF assms(1), of "to64 c"] by (auto simp: ecs_get_alive_ok [OF assms(1)])
qed

text \<open>An index that is not alive: setting its generation and ensuring the id makes exactly this id alive.\<close>

lemma make_alive_ensure:
  assumes ok: "eis_ok index" and room: "vec_count (eis_dense index) < 2 ^ 30"
    and dead: "pos_of index (lo32 e) = 0 \<or> eis_alive_count index \<le> pos_of index (lo32 e)"
  shows "\<exists>j k. flecs_entity_index_make_alive index e = Inr j \<and> flecs_entity_index_ensure j e = Inr (k, lo32 e) \<and>
      eis_ok k \<and> alive_set k = insert e (alive_set index) \<and> (\<forall>c. same_records index k c) \<and>
      rec_table (record_of k (lo32 e)) = None"
proof -
  obtain j where j: "flecs_entity_index_make_alive index e = Inr j" "eis_inv j" "record_of j = record_of index"
    "alive_set j = alive_set index" "eis_alive_count j = eis_alive_count index" "eis_max_id j = eis_max_id index"
    "same_ranges index j" "vec_count (eis_dense j) = vec_count (eis_dense index)"
    using make_alive_dead [OF eis_okD [OF ok] dead] by blast
  have okj: "eis_ok j" using ok j by (simp add: eis_ok_def same_ranges_def)
  obtain k where k: "flecs_entity_index_ensure j e = Inr (k, lo32 e)"
    using ensure_existing [OF j(2), of e] ensure_new [OF j(2), of e] dead room j by (cases "pos_of j (lo32 e) = 0") auto
  have ek: "eis_ok k" "alive_set k = insert e (alive_set index)" "\<And>c. same_records index k c"
    using ensure_step_ok [OF okj _ k] room j by (auto simp: same_records_def)
  moreover have "rec_table (record_of k (lo32 e)) = None"
    using ek(3) [of "lo32 e"] eis_okD [OF ok] dead by (auto simp: same_records_def eis_inv_def)
  ultimately show ?thesis using j(1) k by blast
qed

lemma alive_index_iff:
  assumes inv: "eis_inv index" and "c \<noteq> 0"
  shows "c \<in> lo32 ` alive_set index \<longleftrightarrow> 0 < pos_of index c \<and> pos_of index c < eis_alive_count index"
proof
  assume "c \<in> lo32 ` alive_set index"
  then obtain d where "d \<in> alive_set index" "lo32 d = c" by force
  then show "0 < pos_of index c \<and> pos_of index c < eis_alive_count index" using alive_set_iff [OF inv, of d] by simp
next
  assume p: "0 < pos_of index c \<and> pos_of index c < eis_alive_count index"
  let ?d = "dense_ids index ! pos_of index c"
  have "?d \<in> alive_set index" "lo32 ?d = c"
    using p pos_of_bounds(2) [OF eis_invD(8) [OF inv]] by (simp_all add: alive_set_def dense_aliveI)
  then show "c \<in> lo32 ` alive_set index" by (metis imageI)
qed

section \<open>Properties\<close>

text \<open>
  C9: the entity index implements a set of entities.  After any sequence of issues, removals and
  ensures from a freshly initialised index, \<open>flecs_entity_index_is_alive\<close> returns on every id
  (no assertion fires, no access is out of bounds) and answers exactly whether the id is in the set
  that the events build, and \<open>flecs_entity_index_count\<close> is the size of that set.
\<close>

theorem entity_index_refines_set:
  assumes "eis_run (flecs_entity_index_init index\<^sub>0) evs index"
  shows "(\<forall>e. flecs_entity_index_is_alive index e = Inr (e \<in> fold apply_event evs {})) \<and>
    flecs_entity_index_count index = int (card (fold apply_event evs {}))"
proof -
  have ok: "eis_ok index" using eis_run_ok [OF assms eis_ok_init] .
  have "alive_set index = fold apply_event evs {}"
    using eis_run_alive [OF assms eis_ok_init] by (simp add: init_inv)
  with ok show ?thesis by (simp add: is_alive_ok card_alive_set eis_okD flip: card_alive_set)
qed

theorem entity_index_refines_set_witness:
  "\<exists>index. eis_run (flecs_entity_index_init zero_entity_index) [Removed 5, Removed 6] index \<and>
     flecs_entity_index_is_alive index 5 = Inr False"
proof -
  let ?i = "flecs_entity_index_init zero_entity_index"
  have "eis_step ?i (Removed e) ?i" for e
    using remove_no_range [OF eis_ok_init] init_inv(2) by (intro eis_step.remove) simp
  then have "eis_run ?i [Removed 5, Removed 6] ?i" by (blast intro: eis_run.intros)
  with entity_index_refines_set [OF this] show ?thesis by auto
qed

text \<open>
  C10: in every reachable state with room for another id, \<open>flecs_entity_index_new_id\<close> returns,
  never trips an assertion, and gives an id that is not alive; it recycles the first dead id if
  there is one, and otherwise issues the next unused index with generation 0.  The table and row
  of every entity stay the same.
\<close>

theorem entity_index_new_id_fresh:
  assumes "eis_run (flecs_entity_index_init index\<^sub>0) evs index"
    and "vec_count (eis_dense index) < 2 ^ 30" and "dead_ids index = [] \<longrightarrow> eis_max_id index < 0xFFFFFFFF"
  shows "\<exists>index' e. flecs_entity_index_new_id index = Inr (index', e) \<and>
    flecs_entity_index_is_alive index e = Inr False \<and> flecs_entity_index_is_alive index' e = Inr True \<and>
    (case dead_ids index of [] \<Rightarrow> e = to64 (eis_max_id index + 1) | d # ds \<Rightarrow> e = d \<and> dead_ids index' = ds) \<and>
    (\<forall>c. same_records index index' c)"
proof -
  have ok: "eis_ok index" using eis_run_ok [OF assms(1) eis_ok_init] .
  from issue_ok [OF this assms(2,3)] obtain index' e where
    i: "flecs_entity_index_new_id index = Inr (index', e)" "eis_ok index'" "e \<notin> alive_set index"
    "alive_set index' = insert e (alive_set index)" "dead_ids index' = tl (dead_ids index)"
    "dead_ids index = [] \<longrightarrow> e = to64 (eis_max_id index + 1)"
    "dead_ids index \<noteq> [] \<longrightarrow> e = hd (dead_ids index)" "\<forall>c. same_records index index' c" by blast
  then show ?thesis
    using ok by (intro exI [of _ index'] exI [of _ e])
      (simp add: is_alive_ok eis_okD split: list.split)
qed

theorem entity_index_new_id_fresh_witness:
  "\<exists>index' e. flecs_entity_index_new_id (flecs_entity_index_init zero_entity_index) = Inr (index', e) \<and>
     e = 1 \<and> flecs_entity_index_is_alive index' e = Inr True"
proof -
  let ?i = "flecs_entity_index_init zero_entity_index"
  have "eis_run ?i [] ?i" by (rule eis_run.run_nil)
  moreover have "vec_count (eis_dense ?i) < 2 ^ 30"
    by (simp add: flecs_entity_index_init_def ecs_vec_set_count_def ecs_vec_init_def
        ecs_vec_init_w_dbg_info_def flecs_vec_alloc_def)
  moreover have "eis_max_id ?i = 0" by (simp add: flecs_entity_index_init_def zero_entity_index_def)
  ultimately show ?thesis
    using entity_index_new_id_fresh [of zero_entity_index "[]" ?i] init_inv(3) [of zero_entity_index] by auto
qed

text \<open>
  C19: a handle that has been removed stays dead.  After the removal of an alive entity, no sequence of
  issues and removals brings the same handle back to life, even though its index is recycled, until
  that index has been removed 65535 more times and the 16-bit generation wraps around.
\<close>

theorem removed_handle_stays_dead:
  assumes "eis_ok index" and "flecs_entity_index_is_alive index e = Inr True"
    and "eis_run index (Removed e # evs) index'" and "ensures_none evs" and "removals (lo32 e) evs < 65535"
  shows "flecs_entity_index_is_alive index' e = Inr False"
proof -
  have alive: "e \<in> alive_set index" using assms(1,2) by (simp add: is_alive_ok eis_okD)
  have run: "eis_run (removed index e) evs index'"
    using assms(1,3) alive by (auto elim!: eis_run_ConsE eis_step_removedE simp: remove_no_range)
  have ok: "eis_ok (removed index e)" using remove_step_ok [OF assms(1), of e] alive by simp
  note R = removed_ok(7,8) [OF eis_okD [OF assms(1)] alive, of "lo32 e"]
  have pos: "0 < pos_of index (lo32 e)" using alive alive_set_iff [OF eis_okD [OF assms(1)]] by simp
  have "slot_id (removed index e) (lo32 e) = ECS_GENERATION_INC e" using R pos by (simp add: slot_id_def)
  then obtain k where k: "k \<le> removals (lo32 e) evs"
    "slot_id index' (lo32 e) = (ECS_GENERATION_INC ^^ k) (ECS_GENERATION_INC e)"
    using eis_run_slot [OF run ok _ assms(4), of "lo32 e"] R(1) pos by auto
  then have "slot_id index' (lo32 e) = (ECS_GENERATION_INC ^^ Suc k) e"
    by (simp only: funpow_Suc_right o_apply)
  moreover have "\<not> 65536 dvd Suc k" using k(1) assms(5) by (auto dest: dvd_imp_le)
  ultimately have "slot_id index' (lo32 e) \<noteq> e" using generation_period [of "Suc k" e] by simp
  moreover have "eis_ok index'" using eis_run_ok [OF run ok] .
  ultimately show ?thesis using slot_id_alive [of index' e] by (auto simp: is_alive_ok eis_okD)
qed

theorem removed_handle_stays_dead_witness:
  "\<exists>index index'. eis_run index [Removed 1] index' \<and> flecs_entity_index_is_alive index 1 = Inr True \<and>
     flecs_entity_index_is_alive index' 1 = Inr False"
proof -
  let ?i = "flecs_entity_index_init zero_entity_index"
  have c: "vec_count (eis_dense ?i) < 2 ^ 30"
    by (simp add: flecs_entity_index_init_def ecs_vec_set_count_def ecs_vec_init_def
        ecs_vec_init_w_dbg_info_def flecs_vec_alloc_def)
  have m: "eis_max_id ?i = 0" by (simp add: flecs_entity_index_init_def zero_entity_index_def)
  obtain index where i: "eis_ok index" "alive_set index = {1}"
    using issue_ok [OF eis_ok_init c] init_inv(2,3) [of zero_entity_index] by (auto simp: m)
  then have alive: "flecs_entity_index_is_alive index 1 = Inr True" by (simp add: is_alive_ok eis_okD)
  have run: "eis_run index [Removed 1] (removed index 1)"
    using i by (intro eis_run.run_cons [OF _ eis_run.run_nil] eis_step.remove) (simp add: remove_no_range)
  have "flecs_entity_index_is_alive (removed index 1) 1 = Inr False"
    by (rule removed_handle_stays_dead [OF i(1) alive run]) (simp_all add: ensures_none_def removals_def)
  with run alive show ?thesis by blast
qed

text \<open>
  C18: \<open>flecs_entity_index_remove\<close> of an alive entity returns, clears the table and row of its record,
  keeps the id with the next generation for recycling (it is the next id to be issued), and touches
  the table and row of no other entity.  Removing a dead handle changes nothing.
\<close>

theorem entity_index_remove_effect:
  assumes "eis_ok index"
  shows "\<exists>index'. flecs_entity_index_remove index e = Inr index' \<and>
    (if flecs_entity_index_is_alive index e = Inr True
     then dead_ids index' = ECS_GENERATION_INC e # dead_ids index \<and>
       flecs_entity_index_is_alive index' e = Inr False \<and>
       rec_table (record_of index' (lo32 e)) = None \<and> rec_row (record_of index' (lo32 e)) = 0 \<and>
       (\<forall>c. c \<noteq> lo32 e \<longrightarrow> same_records index index' c)
     else index' = index)"
proof (cases "e \<in> alive_set index")
  case True
  note R = removed_ok [OF eis_okD [OF assms] True]
  show ?thesis
    using True R eis_okD [OF assms] remove_no_range [OF assms, of e]
    by (intro exI [of _ "removed index e"])
      (simp add: is_alive_ok same_records_def clear_record_def)
next
  case False
  then show ?thesis using assms by (simp add: remove_no_range is_alive_ok eis_okD)
qed

theorem entity_index_remove_effect_witness:
  "flecs_entity_index_remove (flecs_entity_index_init zero_entity_index) 7 =
     Inr (flecs_entity_index_init zero_entity_index)"
  using entity_index_remove_effect [OF eis_ok_init [of zero_entity_index], of 7]
    init_inv(1,2) [of zero_entity_index] by (simp add: is_alive_ok)

end
