(* ===== verification/EntityRanges.thy ===== *)
theory EntityRanges
  imports EntityLifecycle
begin

text \<open>
  Entity ranges: the search for the range of an id, the creation of ranges, and the activation of a
  range, which moves the ids to be recycled between the entity index and the ranges.  The last part
  shows where ranges, the id counter and the shrinking of the index do not behave as documented.
\<close>

section \<open>The ranges of an index\<close>

definition range_has :: "ecs_entity_range_t \<Rightarrow> u32 \<Rightarrow> bool" where
  "range_has r c \<longleftrightarrow> range_min r \<le> c \<and> (range_max r = 0 \<or> c \<le> range_max r)"

text \<open>\<open>before r s\<close>: every id of \<open>r\<close> is below every id of \<open>s\<close>.\<close>

definition range_before :: "ecs_entity_range_t \<Rightarrow> ecs_entity_range_t \<Rightarrow> bool" where
  "range_before r s \<longleftrightarrow> range_max r \<noteq> 0 \<and> range_max r < range_min s"

definition range_wf :: "ecs_entity_range_t \<Rightarrow> bool" where
  "range_wf r \<longleftrightarrow> 0 < range_min r \<and> (range_max r = 0 \<or> range_min r \<le> range_max r)"

abbreviation range_list :: "ecs_entity_index_t \<Rightarrow> nat list" where
  "range_list index \<equiv> vec_elems (eis_ranges index)"

abbreviation range_at :: "ecs_entity_index_t \<Rightarrow> nat \<Rightarrow> ecs_entity_range_t" where
  "range_at index p \<equiv> eis_range_store index ! p"

definition ranges_ok :: "ecs_entity_index_t \<Rightarrow> bool" where
  "ranges_ok index \<longleftrightarrow> vec_ok (eis_ranges index) \<and>
     (\<forall>p \<in> set (range_list index). p < length (eis_range_store index) \<and> range_wf (range_at index p)) \<and>
     sorted_wrt (\<lambda>p q. range_before (range_at index p) (range_at index q)) (range_list index)"

lemma range_before_has:
  assumes "range_before r s" and "range_has r c" and "range_wf s"
  shows "c < range_min s" "\<not> range_has s c"
proof -
  have "c \<le> range_max r" "range_max r < range_min s"
    using assms by (auto simp: range_before_def range_has_def)
  then show "c < range_min s" by (rule order_le_less_trans)
  then show "\<not> range_has s c" by (auto simp: range_has_def)
qed

lemma range_before_min: "range_before r s \<Longrightarrow> range_wf r \<Longrightarrow> range_min r < range_min s"
  by (auto simp: range_before_def range_wf_def intro: order_le_less_trans)

section \<open>Finding the range of an id\<close>

text \<open>
  The invariant of the binary search: a range with the id can only be between the bounds.
\<close>

lemma find_range_loop_ok:
  assumes ok: "ranges_ok index" and "0 \<le> lo" and "hi < int (vec_count (eis_ranges index))"
    and "\<And>i. i < vec_count (eis_ranges index) \<Longrightarrow> range_has (range_at index (range_list index ! i)) c \<Longrightarrow>
      lo \<le> int i \<and> int i \<le> hi"
  shows "\<exists>r. find_range_loop index c lo hi = Inr r \<and>
      (case r of Some p \<Rightarrow> p \<in> set (range_list index) \<and> range_has (range_at index p) c
       | None \<Rightarrow> \<forall>p \<in> set (range_list index). \<not> range_has (range_at index p) c)"
  using assms(2-)
proof (induction "nat (hi + 1 - lo)" arbitrary: lo hi rule: less_induct)
  case less
  let ?n = "vec_count (eis_ranges index)" and ?rs = "range_list index"
  have vok: "vec_ok (eis_ranges index)" and len: "length ?rs = ?n" using ok by (auto simp: ranges_ok_def)
  show ?case
  proof (cases "lo \<le> hi")
    case False
    then have "\<not> range_has (range_at index p) c" if "p \<in> set ?rs" for p
      using that less.prems(3) len by (force simp: in_set_conv_nth)
    then show ?thesis using False by (simp add: find_range_loop.simps)
  next
    case True
    define mid where "mid = (lo + hi) div 2"
    define m where "m = nat mid"
    have mid: "lo \<le> mid" "mid \<le> hi" using True by (auto simp: mid_def)
    then have m: "mid = int m" "m < ?n" using less.prems(1,2) by (auto simp: m_def)
    have p: "?rs ! m \<in> set ?rs" using m(2) len by simp
    define r where "r = range_at index (?rs ! m)"
    have read: "vec_read (eis_ranges index) m = Inr (?rs ! m)" "range_read index (?rs ! m) = Inr r"
      using vok m(2) ok p by (auto simp: range_read_def ranges_ok_def r_def)
    have wf: "range_wf (range_at index (?rs ! i))" if "i < ?n" for i
      using ok that len by (auto simp: ranges_ok_def)
    have sorted: "range_before (range_at index (?rs ! i)) (range_at index (?rs ! j))"
      if "i < j" "j < ?n" for i j
      using ok that len by (auto simp: ranges_ok_def sorted_wrt_iff_nth_less)
    have step: "find_range_loop index c lo hi =
        (if c < range_min r then find_range_loop index c lo (mid - 1)
         else if range_max r \<noteq> 0 \<and> c > range_max r then find_range_loop index c (mid + 1) hi
         else Inr (Some (?rs ! m)))"
      using True less.prems(1) mid
      by (subst find_range_loop.simps) (simp add: Let_def mid_def [symmetric] m(1) read)
    consider (low) "c < range_min r" | (high) "range_min r \<le> c" "range_max r \<noteq> 0" "range_max r < c"
      | (hit) "range_has r c"
      using not_le [of c "range_max r"] not_le [of "range_min r" c] unfolding range_has_def by blast
    then show ?thesis
    proof cases
      case low
      have "int i \<le> mid - 1" if i: "i < ?n" "range_has (range_at index (?rs ! i)) c" for i
      proof (rule ccontr)
        assume "\<not> int i \<le> mid - 1"
        then have "m \<le> i" using m(1) by simp
        then have "range_min r \<le> c"
          using i sorted [of m i] wf [of m] by (cases "i = m")
            (auto simp: r_def range_has_def range_before_def range_wf_def intro: order_trans less_imp_le)
        with low show False by simp
      qed
      then show ?thesis
        using less.hyps [of "mid - 1" lo] less.prems mid low step by auto
    next
      case high
      have "mid + 1 \<le> int i" if i: "i < ?n" "range_has (range_at index (?rs ! i)) c" for i
      proof (rule ccontr)
        assume "\<not> mid + 1 \<le> int i"
        then have "i \<le> m" using m(1) by simp
        then show False
          using i high sorted [of i m] range_before_has(1) [of "range_at index (?rs ! i)" r c] wf [OF m(2)] m(2)
          by (cases "i = m") (auto simp: r_def range_has_def)
      qed
      then show ?thesis
        using less.hyps [of hi "mid + 1"] less.prems mid high step by auto
    next
      case hit
      then have "\<not> c < range_min r" "\<not> (range_max r \<noteq> 0 \<and> c > range_max r)" by (auto simp: range_has_def)
      then show ?thesis using step p hit by (auto simp: r_def)
    qed
  qed
qed

lemma find_range_ok:
  assumes ok: "ranges_ok index"
  shows "\<exists>r. flecs_entity_index_find_range index c = Inr r \<and>
    (case r of Some p \<Rightarrow> p \<in> set (range_list index) \<and> range_has (range_at index p) c
     | None \<Rightarrow> \<forall>p \<in> set (range_list index). \<not> range_has (range_at index p) c)"
proof (cases "vec_count (eis_ranges index) = 0")
  case True
  moreover have "length (range_list index) = vec_count (eis_ranges index)"
    using ok by (simp add: ranges_ok_def)
  ultimately show ?thesis by (simp add: flecs_entity_index_find_range_def ecs_vec_count_def)
next
  case False
  then show ?thesis
    using find_range_loop_ok [OF ok, of 0 "int (vec_count (eis_ranges index)) - 1" c]
    by (simp add: flecs_entity_index_find_range_def ecs_vec_count_def Let_def)
qed

section \<open>Creating a range\<close>

lemma range_overlap_iff:
  assumes "range_wf r" and "0 < mn" and "mx = 0 \<or> mn \<le> mx"
  shows "\<not> range_overlap mn mx r \<longleftrightarrow>
    range_before r \<lparr>range_min = mn, range_max = mx, range_cur = c, range_recycled = v\<rparr> \<or>
    range_before \<lparr>range_min = mn, range_max = mx, range_cur = c, range_recycled = v\<rparr> r"
  using assms
  by (auto simp: range_overlap_def range_before_def range_wf_def not_le word_neq_0_conv)

text \<open>Shifting the pointers up leaves a hole at the insertion point.\<close>

lemma range_insert_shift_ok:
  assumes "vec_ok ranges" and "vec_elems ranges = take i rs @ [x] @ drop i rs" and "i \<le> length rs"
    and "\<And>q. q \<in> set rs \<Longrightarrow> q < length (eis_range_store index)"
    and "\<And>j. i \<le> j \<Longrightarrow> j < length rs \<Longrightarrow> mn < range_min (range_at index (rs ! j))"
  shows "\<exists>ranges' k x'. range_insert_shift index mn i ranges = Inr (ranges', k) \<and> vec_ok ranges' \<and>
    vec_elems ranges' = take k rs @ [x'] @ drop k rs \<and> k \<le> length rs \<and>
    (\<forall>j. k \<le> j \<and> j < length rs \<longrightarrow> mn < range_min (range_at index (rs ! j))) \<and>
    (0 < k \<longrightarrow> range_min (range_at index (rs ! (k - 1))) \<le> mn)"
  using assms
proof (induction i arbitrary: ranges x)
  case (Suc i)
  have cnt: "vec_count ranges = Suc (length rs)"
    using arg_cong [OF Suc.prems(2), of length] Suc.prems(1,3) by simp
  have q: "vec_elems ranges ! i = rs ! i" using Suc.prems(2,3) by (simp add: nth_append)
  have read: "vec_read ranges i = Inr (rs ! i)" "range_read index (rs ! i) = Inr (range_at index (rs ! i))"
    using Suc.prems cnt q by (simp_all add: range_read_def)
  show ?case
  proof (cases "range_min (range_at index (rs ! i)) \<le> mn")
    case True
    with Suc.prems read show ?thesis by (intro exI [of _ ranges] exI [of _ "Suc i"] exI [of _ x]) simp
  next
    case False
    let ?v = "vec_upd ranges (Suc i) (rs ! i)"
    have v: "vec_ok ?v" "vec_write ranges (Suc i) (rs ! i) = Inr ?v" using Suc.prems(1,3) cnt by simp_all
    have "vec_elems ?v = (take (Suc i) rs @ [x] @ drop (Suc i) rs)[Suc i := rs ! i]"
      using Suc.prems(1-3) cnt by simp
    also have "\<dots> = take i rs @ [rs ! i] @ drop i rs"
      using Suc.prems(3) by (simp add: take_Suc_snoc list_update_append Cons_nth_drop_Suc)
    finally have el: "vec_elems ?v = take i rs @ [rs ! i] @ drop i rs" .
    have "mn < range_min (range_at index (rs ! j))" if "i \<le> j" "j < length rs" for j
      using that False Suc.prems(5) [of j] by (cases "j = i") auto
    from Suc.IH [OF v(1) el _ Suc.prems(4) this] Suc.prems(3) show ?thesis
      using read v(2) False by simp
  qed
qed auto

lemma ranges_ok_store:
  assumes "ranges_ok index" and "length (eis_range_store index) \<le> length store"
    and "\<And>p. p < length (eis_range_store index) \<Longrightarrow>
      range_min (store ! p) = range_min (range_at index p) \<and> range_max (store ! p) = range_max (range_at index p)"
  shows "ranges_ok (index\<lparr>eis_range_store := store\<rparr>)"
  using assms
  by (force simp: ranges_ok_def range_wf_def range_before_def sorted_wrt_iff_nth_less)

text \<open>Inserting a range that overlaps no other one, at the place that its lower bound gives.\<close>

lemma ranges_ok_insert:
  assumes ok: "ranges_ok index" and r: "range_wf r"
    and free: "\<And>q. q \<in> set (range_list index) \<Longrightarrow> range_before (range_at index q) r \<or> range_before r (range_at index q)"
    and k: "k \<le> length (range_list index)"
      "\<And>i. k \<le> i \<Longrightarrow> i < length (range_list index) \<Longrightarrow> range_min r < range_min (range_at index (range_list index ! i))"
      "0 < k \<Longrightarrow> range_min (range_at index (range_list index ! (k - 1))) \<le> range_min r"
    and u: "vec_ok u" "vec_elems u = take k (range_list index) @ [length (eis_range_store index)] @ drop k (range_list index)"
  shows "ranges_ok (index\<lparr>eis_range_store := eis_range_store index @ [r], eis_ranges := u\<rparr>)"
proof -
  let ?rs = "range_list index" and ?p = "length (eis_range_store index)"
  let ?at = "\<lambda>q. (eis_range_store index @ [r]) ! q"
  have ptr: "q < ?p" "range_wf (range_at index q)" if "q \<in> set ?rs" for q
    using that ok by (auto simp: ranges_ok_def)
  have at: "?at q = range_at index q" if "q \<in> set ?rs" for q using ptr(1) [OF that] by (simp add: nth_append)
  have sorted: "range_before (range_at index (?rs ! i)) (range_at index (?rs ! j))" if "i < j" "j < length ?rs" for i j
    using ok that by (auto simp: ranges_ok_def sorted_wrt_iff_nth_less)
  have low: "range_before (range_at index (?rs ! i)) r" if "i < k" for i
  proof -
    let ?r = "range_at index (?rs ! i)" and ?l = "range_at index (?rs ! (k - 1))"
    have wf: "range_wf ?r" using ptr(2) that k(1) by simp
    have "range_min ?r \<le> range_min ?l"
    proof (cases "i = k - 1")
      case False
      then have "range_before ?r ?l" using sorted [of i "k - 1"] that k(1) by simp
      then show ?thesis using range_before_min [OF _ wf] by (simp add: less_imp_le)
    qed simp
    then have "range_min ?r \<le> range_min r" using k(3) that by (auto intro: order_trans)
    then have "\<not> range_before r ?r" using range_before_min [OF _ r, of ?r] by auto
    then show ?thesis using free [of "?rs ! i"] that k(1) by auto
  qed
  have high: "range_before r (range_at index (?rs ! i))" if "k \<le> i" "i < length ?rs" for i
  proof -
    let ?r = "range_at index (?rs ! i)"
    have "range_wf ?r" using ptr(2) that by simp
    then have "\<not> range_before ?r r" using k(2) [OF that] range_before_min [of ?r r] by auto
    then show ?thesis using free [of "?rs ! i"] that by auto
  qed
  have "sorted_wrt (\<lambda>p q. range_before (?at p) (?at q)) ?rs"
    using ok at by (auto simp: ranges_ok_def intro: sorted_wrt_mono_rel [rotated])
  then have "sorted_wrt (\<lambda>p q. range_before (?at p) (?at q)) (take k ?rs @ drop k ?rs)" by simp
  moreover have "range_before (?at q) (?at ?p)" if q: "q \<in> set (take k ?rs)" for q
  proof -
    have "?at q = range_at index q" using q at [of q] by (auto dest: in_set_takeD)
    moreover obtain i where "i < k" "q = ?rs ! i" using q by (auto simp: in_set_conv_nth)
    ultimately show ?thesis using low [of i] by simp
  qed
  moreover have "range_before (?at ?p) (?at q)" if q: "q \<in> set (drop k ?rs)" for q
  proof -
    obtain i where "i < length ?rs - k" "q = ?rs ! (k + i)" using q by (auto simp: in_set_conv_nth)
    moreover from this have "k + i < length ?rs" by simp
    ultimately show ?thesis using high [of "k + i"] at by simp
  qed
  ultimately have "sorted_wrt (\<lambda>p q. range_before (?at p) (?at q)) (take k ?rs @ [?p] @ drop k ?rs)"
    unfolding sorted_wrt_append by auto
  moreover have "\<forall>q \<in> set (take k ?rs @ [?p] @ drop k ?rs). q < Suc ?p \<and> range_wf (?at q)"
    using ptr at r by (auto dest!: in_set_takeD in_set_dropD intro: less_SucI)
  ultimately show ?thesis using u by (simp add: ranges_ok_def)
qed

lemma range_create_ok:
  assumes ok: "ranges_ok index" and rng: "0 < mn" "mx = 0 \<or> mn \<le> mx"
    and room: "vec_count (eis_ranges index) < 2 ^ 30"
  shows "if \<exists>p \<in> set (range_list index). range_overlap mn mx (range_at index p)
    then range_create index mn mx = Inl (Abort ECS_INVALID_PARAMETER)
    else \<exists>index' p k. range_create index mn mx = Inr (index', p) \<and> ranges_ok index' \<and>
      p = length (eis_range_store index) \<and>
      eis_range_store index' = eis_range_store index @
        [\<lparr>range_min = mn, range_max = mx, range_cur = mn - 1, range_recycled = ecs_vec_init 0\<rparr>] \<and>
      range_list index' = take k (range_list index) @ [p] @ drop k (range_list index) \<and>
      index' = index\<lparr>eis_range_store := eis_range_store index', eis_ranges := eis_ranges index'\<rparr>"
proof -
  let ?rs = "range_list index" and ?n = "vec_count (eis_ranges index)"
  let ?check = "\<lambda>i (_ :: unit). bindr (vec_read (eis_ranges index) i) (\<lambda>q.
    bindr (range_read index q) (\<lambda>existing. ecs_assert (\<not> range_overlap mn mx existing) ECS_INVALID_PARAMETER))"
  have vok: "vec_ok (eis_ranges index)" and len: "length ?rs = ?n" using ok by (auto simp: ranges_ok_def)
  have ptr: "q < length (eis_range_store index)" "range_wf (range_at index q)" if "q \<in> set ?rs" for q
    using that ok by (auto simp: ranges_ok_def)
  have chk: "?check i u = ecs_assert (\<not> range_overlap mn mx (range_at index (?rs ! i))) ECS_INVALID_PARAMETER"
    if "i < ?n" for i u
    using that vok ptr(1) [of "?rs ! i"] len by (simp add: range_read_def)
  have loop: "for_each [0..<m] ?check () = (if \<exists>i < m. range_overlap mn mx (range_at index (?rs ! i))
      then Inl (Abort ECS_INVALID_PARAMETER) else Inr ())" if "m \<le> ?n" for m
    using that
  proof (induction m)
    case (Suc m)
    then show ?case using chk [of m]
      by (auto simp: for_each_append less_Suc_eq bindr_def split: if_splits)
  qed simp
  have ex: "(\<exists>i < ?n. range_overlap mn mx (range_at index (?rs ! i))) \<longleftrightarrow>
      (\<exists>p \<in> set ?rs. range_overlap mn mx (range_at index p))"
    by (metis in_set_conv_nth len)
  show ?thesis
  proof (cases "\<exists>p \<in> set ?rs. range_overlap mn mx (range_at index p)")
    case True
    then show ?thesis using loop [OF order_refl] ex
      by (simp add: range_create_def ecs_vec_count_def Let_def)
  next
    case False
    define r where "r = \<lparr>range_min = mn, range_max = mx, range_cur = mn - 1, range_recycled = ecs_vec_init 0\<rparr>"
    define p where "p = length (eis_range_store index)"
    define j where "j = index\<lparr>eis_range_store := eis_range_store index @ [r]\<rparr>"
    let ?v = "vec_snoc (eis_ranges index) p"
    have store: "range_at j q = range_at index q" if "q \<in> set ?rs" for q
      using ptr(1) [OF that] by (simp add: j_def nth_append)
    obtain v k x where v: "range_insert_shift j mn ?n ?v = Inr (v, k)" "vec_ok v"
      "vec_elems v = take k ?rs @ [x] @ drop k ?rs" "k \<le> length ?rs"
      "\<forall>i. k \<le> i \<and> i < length ?rs \<longrightarrow> mn < range_min (range_at j (?rs ! i))"
      "0 < k \<longrightarrow> range_min (range_at j (?rs ! (k - 1))) \<le> mn"
      using range_insert_shift_ok [of ?v ?n ?rs p j mn] vok room len ptr(1) by (force simp: j_def)
    have cnt: "vec_count v = Suc ?n" using arg_cong [OF v(3), of length] v(2,4) len by simp
    let ?w = "vec_upd v k p" and ?rs' = "take k ?rs @ [p] @ drop k ?rs"
    have w: "vec_ok ?w" "vec_write v k p = Inr ?w" "vec_elems ?w = ?rs'"
      using v(2-4) cnt len by (simp_all add: list_update_append)
    define u where "u = (if ?n > 0 then ?w else ?v)"
    have u: "vec_ok u" "vec_elems u = ?rs'"
      using w vok room len v(4) by (auto simp: u_def)
    have "range_create index mn mx = Inr (j\<lparr>eis_ranges := u\<rparr>, p)"
      using loop [OF order_refl] ex False vok room v(1) w(2)
      by (simp add: range_create_def ecs_vec_count_def Let_def u_def r_def [symmetric] j_def [symmetric] p_def [symmetric])
    moreover have "ranges_ok (j\<lparr>eis_ranges := u\<rparr>)"
      unfolding j_def
    proof (rule ranges_ok_insert [OF ok])
      show "range_wf r" using rng by (simp add: r_def range_wf_def)
      show "range_before (range_at index q) r \<or> range_before r (range_at index q)" if "q \<in> set ?rs" for q
        using range_overlap_iff [OF ptr(2) [OF that] rng, of "mn - 1" "ecs_vec_init 0"] False that
        by (auto simp: r_def)
      show "range_min r < range_min (range_at index (?rs ! i))" if "k \<le> i" "i < length ?rs" for i
        using v(5) store [of "?rs ! i"] that by (auto simp: r_def)
      show "range_min (range_at index (?rs ! (k - 1))) \<le> range_min r" if "0 < k"
        using v(4,6) store [of "?rs ! (k - 1)"] that by (auto simp: r_def)
    qed (use u v(4) in \<open>simp_all add: p_def\<close>)
    ultimately show ?thesis
      using False u by (simp only: if_False) (auto simp: j_def r_def p_def)
  qed
qed

section \<open>Activating a range\<close>

lemma ids_copy_ok:
  assumes wf: "vec_wf dst" and fit: "to + length xs \<le> vec_count dst"
    and src: "\<And>i. i < length xs \<Longrightarrow> vec_read src (from + i) = Inr (xs ! i)"
  shows "\<exists>d. ids_copy dst to src from (length xs) = Inr d \<and> vec_wf d \<and> vec_count d = vec_count dst \<and>
    (\<forall>j < vec_count dst. vec_array d ! j =
       (if to \<le> j \<and> j < to + length xs then Some (xs ! (j - to)) else vec_array dst ! j))"
proof -
  define I where "I n d \<longleftrightarrow> vec_wf d \<and> vec_count d = vec_count dst \<and> (\<forall>j < vec_count dst. vec_array d ! j =
    (if to \<le> j \<and> j < to + n then Some (xs ! (j - to)) else vec_array dst ! j))" for n d
  let ?body = "\<lambda>i d. bindr (vec_read src (from + i)) (\<lambda>x. vec_write d (to + i) x)"
  have "I 0 dst" using wf by (auto simp: I_def)
  moreover have "\<exists>d'. ?body i d = Inr d' \<and> I (Suc i) d'" if i: "i < length xs" "I i d" for i d
  proof -
    let ?d = "vec_upd d (to + i) (xs ! i)"
    have d: "vec_wf d" "to + i < vec_count d" using i fit by (auto simp: I_def)
    have "vec_array ?d ! j = (if to \<le> j \<and> j < to + Suc i then Some (xs ! (j - to)) else vec_array dst ! j)"
      if j: "j < vec_count dst" for j
    proof (cases "j = to + i")
      case True
      then show ?thesis using d by (simp add: vec_upd_def vec_wf_def)
    next
      case False
      then have "vec_array ?d ! j = vec_array d ! j" by (simp add: vec_upd_def)
      with False j i(2) show ?thesis by (auto simp: I_def)
    qed
    then have "I (Suc i) ?d" using d i(2) by (simp add: I_def)
    moreover have "?body i d = Inr ?d" using src [OF i(1)] d by simp
    ultimately show ?thesis by blast
  qed
  ultimately obtain d where "for_each [0..<length xs] ?body dst = Inr d" "I (length xs) d"
    using for_each_upt_rule [of 0 "length xs" I dst ?body] by blast
  then show ?thesis by (auto simp: ids_copy_def I_def)
qed

text \<open>The first loop forgets the position of every dead id.\<close>

lemma set_range_clear_loop:
  assumes inv: "eis_inv index"
  shows "\<exists>j pages. for_each [eis_alive_count index..<vec_count (eis_dense index)] set_range_clear index = Inr j \<and>
    j = index\<lparr>eis_pages := pages\<rparr> \<and> vec_ok (eis_pages j) \<and>
    (\<forall>c. record_of j c = (if eis_alive_count index \<le> pos_of index c then set_dense 0 (record_of index c)
       else record_of index c))"
proof -
  note D = eis_invD [OF inv]
  let ?a = "eis_alive_count index" and ?n = "vec_count (eis_dense index)"
  define I where "I n j \<longleftrightarrow> (\<exists>pages. j = index\<lparr>eis_pages := pages\<rparr>) \<and> vec_ok (eis_pages j) \<and>
    (\<forall>c. has_page j c = has_page index c) \<and>
    (\<forall>c. record_of j c = (if ?a \<le> pos_of index c \<and> pos_of index c < n then set_dense 0 (record_of index c)
       else record_of index c))" for n j
  have "I ?a index" using D by (auto simp: I_def intro: exI [of _ "eis_pages index"])
  moreover have "\<exists>j'. set_range_clear i j = Inr j' \<and> I (Suc i) j'" if i: "?a \<le> i" "i < ?n" "I i j" for i j
  proof -
    let ?e = "dense_ids index ! i"
    let ?c = "lo32 ?e"
    have pos: "pos_of index ?c = i" "has_page index ?c" using pos_of_dense [OF D(8)] i D(3) by simp_all
    have j: "eis_dense j = eis_dense index" "vec_ok (eis_pages j)" "has_page j ?c"
      using i(3) pos by (auto simp: I_def)
    have read: "vec_read (eis_dense j) i = Inr ?e" using D i j(1) by simp
    have "set_range_clear i j = Inr (record_upd j ?c (set_dense 0))"
      using read j(2,3) by (auto simp: set_range_clear_def Let_def has_page_def ecs_vec_count_def)
    moreover have "I (Suc i) (record_upd j ?c (set_dense 0))"
    proof -
      have pages: "\<exists>pages. record_upd j ?c (set_dense 0) = index\<lparr>eis_pages := pages\<rparr>"
        using i(3) by (auto simp: I_def record_upd_def)
      have ne: "pos_of index c \<noteq> i" if "c \<noteq> ?c" for c
        using that pos_of_bounds(2) [OF D(8), of c] i(1) D(3) by auto
      have rec: "record_of (record_upd j ?c (set_dense 0)) c =
          (if ?a \<le> pos_of index c \<and> pos_of index c < Suc i then set_dense 0 (record_of index c)
           else record_of index c)" for c
        using i(1,3) j(2,3) pos(1) ne [of c] by (cases "c = ?c") (auto simp: I_def less_Suc_eq)
      have "has_page (record_upd j ?c (set_dense 0)) c = has_page index c" for c
        using i(3) j(2,3) by (simp add: I_def)
      moreover have "vec_ok (eis_pages (record_upd j ?c (set_dense 0)))" using j(2,3) by simp
      ultimately show ?thesis unfolding I_def using pages rec by blast
    qed
    ultimately show ?thesis by blast
  qed
  ultimately obtain j where j: "for_each [?a..<?n] set_range_clear index = Inr j" "I ?n j"
    using for_each_upt_rule [of ?a ?n I index set_range_clear] D(4) by blast
  have "pos_of index c < ?n" if "?a \<le> pos_of index c" for c
    using pos_of_bounds(1) [OF D(8), of c] that D(3) by simp
  with j show ?thesis by (auto simp: I_def)
qed

text \<open>The second loop gives the recycled ids of the range their positions.\<close>

lemma set_range_load_loop:
  assumes ok: "vec_ok src" "vec_ok (eis_pages index)" and dist: "distinct (map lo32 (vec_elems src))"
    and tab: "\<And>e. e \<in> set (vec_elems src) \<Longrightarrow> rec_table (record_of index (lo32 e)) = None"
  shows "\<exists>j pages. for_each [0..<vec_count src] (set_range_load src a) index = Inr j \<and>
    j = index\<lparr>eis_pages := pages\<rparr> \<and> vec_ok (eis_pages j) \<and>
    (\<forall>i < vec_count src. record_of j (lo32 (vec_elems src ! i)) =
       set_dense (a + i) (record_of index (lo32 (vec_elems src ! i)))) \<and>
    (\<forall>c. c \<notin> lo32 ` set (vec_elems src) \<longrightarrow> record_of j c = record_of index c)"
proof -
  let ?xs = "vec_elems src"
  let ?n = "vec_count src"
  have len: "length ?xs = ?n" using ok by simp
  define I where "I n j \<longleftrightarrow> (\<exists>pages. j = index\<lparr>eis_pages := pages\<rparr>) \<and> vec_ok (eis_pages j) \<and>
    (\<forall>i < n. record_of j (lo32 (?xs ! i)) = set_dense (a + i) (record_of index (lo32 (?xs ! i)))) \<and>
    (\<forall>c. c \<notin> lo32 ` set (take n ?xs) \<longrightarrow> record_of j c = record_of index c)" for n j
  have "I 0 index" using ok by (auto simp: I_def intro: exI [of _ "eis_pages index"])
  moreover have "\<exists>j'. set_range_load src a i j = Inr j' \<and> I (Suc i) j'" if i: "i < ?n" "I i j" for i j
  proof -
    let ?c = "lo32 (?xs ! i)"
    let ?j = "record_upd (with_page j ?c) ?c (set_dense (a + i))"
    have j: "vec_ok (eis_pages j)" using i by (simp add: I_def)
    have new: "lo32 (?xs ! m) \<noteq> ?c" if "m < ?n" "m \<noteq> i" for m
      using dist that i(1) len by (auto simp: distinct_conv_nth)
    have notin: "?c \<notin> lo32 ` set (take i ?xs)"
    proof
      assume "?c \<in> lo32 ` set (take i ?xs)"
      then obtain m where "m < i" "lo32 (?xs ! m) = ?c" using i(1) len by (auto simp: in_set_conv_nth)
      with new [of m] i(1) show False by simp
    qed
    then have rc: "record_of j ?c = record_of index ?c" using i by (simp add: I_def)
    have rec: "record_of ?j = (record_of j)(?c := set_dense (a + i) (record_of index ?c))"
      using j rc by simp
    have "rec_table (record_of index ?c) = None" using tab i(1) len by simp
    then have "set_range_load src a i j = Inr ?j"
      using ok(1) i(1) j by (simp add: set_range_load_def Let_def rec rc)
    moreover have "I (Suc i) ?j"
    proof -
      obtain pages where "j = index\<lparr>eis_pages := pages\<rparr>" using i(2) by (auto simp: I_def)
      moreover obtain pages' where "with_page j ?c = j\<lparr>eis_pages := pages'\<rparr>"
        using with_page_pages [OF j] by blast
      ultimately have "\<exists>pages. ?j = index\<lparr>eis_pages := pages\<rparr>" by (auto simp: record_upd_def)
      moreover have "record_of ?j (lo32 (?xs ! m)) = set_dense (a + m) (record_of index (lo32 (?xs ! m)))"
        if "m < Suc i" for m
        using that i new [of m] by (cases "m = i") (auto simp: rec I_def)
      moreover have "record_of ?j c = record_of index c" if "c \<notin> lo32 ` set (take (Suc i) ?xs)" for c
        using that i len by (auto simp: rec I_def take_Suc_snoc)
      ultimately show ?thesis using j by (simp add: I_def)
    qed
    ultimately show ?thesis by blast
  qed
  ultimately obtain j where "for_each [0..<?n] (set_range_load src a) index = Inr j" "I ?n j"
    using for_each_upt_rule [of 0 ?n I index "set_range_load src a"] by blast
  then show ?thesis using len by (auto simp: I_def)
qed

text \<open>Saving the dead ids to the range that was active.\<close>

lemma save_dead_ok:
  assumes inv: "eis_inv index" and v: "vec_wf v" "vec_count v \<le> 2 ^ 30" and n: "vec_count (eis_dense index) \<le> 2 ^ 30"
  defines "m \<equiv> vec_count (eis_dense index) - eis_alive_count index"
  shows "\<exists>w. (if m > 0 then ids_copy (ecs_vec_set_count v m) 0 (eis_dense index) (eis_alive_count index) m
       else Inr (ecs_vec_set_count v 0)) = Inr w \<and> vec_ok w \<and> vec_elems w = dead_ids index"
proof -
  note D = eis_invD [OF inv]
  let ?w = "ecs_vec_set_count v m" and ?xs = "dead_ids index"
  have len: "length ?xs = m" using D(6) by (simp add: dead_ids_def m_def)
  have w: "vec_wf ?w" "vec_count ?w = m" using ecs_vec_set_count_wf [OF v(1) _ v(2), of m] n by (auto simp: m_def)
  show ?thesis
  proof (cases "m > 0")
    case True
    have "vec_read (eis_dense index) (eis_alive_count index + i) = Inr (?xs ! i)" if "i < length ?xs" for i
      using that D len by (simp add: dead_ids_def m_def)
    from ids_copy_ok [OF w(1) _ this, of 0] obtain d where
      d: "ids_copy ?w 0 (eis_dense index) (eis_alive_count index) m = Inr d" "vec_wf d" "vec_count d = m"
        "\<forall>j < m. vec_array d ! j = Some (?xs ! j)"
      using len w(2) by auto
    then have "vec_ok d \<and> vec_elems d = ?xs" using len by (intro vec_okI) auto
    with d True show ?thesis by simp
  next
    case False
    then show ?thesis using w len by (auto simp: vec_ok_def vec_elems_def)
  qed
qed

text \<open>The index once the dead ids have been replaced by those of a range.\<close>

lemma replaced_dead_inv:
  assumes inv: "eis_inv index" and dist: "distinct (map lo32 xs)"
    and new: "\<And>e. e \<in> set xs \<Longrightarrow> pos_of index (lo32 e) = 0"
    and d: "vec_ok_from 1 (eis_dense j)" "dense_ids j = take (eis_alive_count index) (dense_ids index) @ xs"
    and pages: "vec_ok (eis_pages j)" and a: "eis_alive_count j = eis_alive_count index"
    and rec: "\<And>i. i < length xs \<Longrightarrow> record_of j (lo32 (xs ! i)) =
        set_dense (eis_alive_count index + i) (record_of index (lo32 (xs ! i)))"
      "\<And>c. c \<notin> lo32 ` set xs \<Longrightarrow> record_of j c =
        (if eis_alive_count index \<le> pos_of index c then set_dense 0 (record_of index c) else record_of index c)"
  shows "eis_inv j" "alive_set j = alive_set index" "dead_ids j = xs"
proof -
  note D = eis_invD [OF inv]
  let ?a = "eis_alive_count index" and ?D = "dense_ids index"
  have la: "length (take ?a ?D) = ?a" using D by simp
  have tab0: "rec_table (record_of index c) = None" if "pos_of index c = 0 \<or> ?a \<le> pos_of index c" for c
    using that inv by (auto simp: eis_inv_def)
  have old: "lo32 (?D ! i) \<notin> lo32 ` set xs" "pos_of j (lo32 (?D ! i)) = i" if "0 < i" "i < ?a" for i
  proof -
    have p: "pos_of index (lo32 (?D ! i)) = i" using pos_of_dense(1) [OF D(8)] that D(4) by simp
    show "lo32 (?D ! i) \<notin> lo32 ` set xs"
    proof
      assume "lo32 (?D ! i) \<in> lo32 ` set xs"
      then obtain e where "e \<in> set xs" "lo32 (?D ! i) = lo32 e" by blast
      with new [of e] p that(1) show False by simp
    qed
    with rec(2) p that(2) show "pos_of j (lo32 (?D ! i)) = i" by simp
  qed
  have pos: "pos_of j c < ?a + length xs \<and> lo32 ((take ?a ?D @ xs) ! pos_of j c) = c" if "0 < pos_of j c" for c
  proof (cases "c \<in> lo32 ` set xs")
    case True
    then obtain i where "i < length xs" "c = lo32 (xs ! i)" by (auto simp: in_set_conv_nth)
    with rec(1) [of i] la show ?thesis by (simp add: nth_append)
  next
    case False
    then have "pos_of index c < ?a" "pos_of j c = pos_of index c" using that rec(2) [OF False] by (auto split: if_splits)
    with that pos_of_bounds(2) [OF D(8), of c] la show ?thesis by (simp add: nth_append)
  qed
  have "dense_consistent ucast (take ?a ?D @ xs) (pos_of j)"
    unfolding dense_consistent_def
  proof (intro conjI allI impI)
    show "pos_of j (lo32 ((take ?a ?D @ xs) ! i)) = i" if "0 < i \<and> i < length (take ?a ?D @ xs)" for i
      using that la old(2) [of i] rec(1) [of "i - ?a"] by (cases "i < ?a") (auto simp: nth_append)
  qed (use pos la in auto)
  then have core: "eis_core j" using d pages by (simp add: eis_core_def)
  have cnt: "vec_count (eis_dense j) = ?a + length xs"
    using eis_coreD(4) [OF core] la by (simp add: d(2))
  have "rec_table (record_of j c) = None" if "pos_of j c = 0 \<or> ?a \<le> pos_of j c" for c
  proof (cases "c \<in> lo32 ` set xs")
    case True
    then obtain i where i: "i < length xs" "c = lo32 (xs ! i)" by (auto simp: in_set_conv_nth)
    with new [of "xs ! i"] tab0 [of c] rec(1) [of i] show ?thesis by simp
  next
    case False
    then show ?thesis using that rec(2) [OF False] tab0 [of c] by (auto split: if_splits)
  qed
  then show "eis_inv j" using core D(3) cnt by (simp add: eis_inv_def a)
  show "alive_set j = alive_set index" using la by (simp add: alive_set_def a d(2))
  show "dead_ids j = xs" using la by (simp add: dead_ids_def a d(2))
qed

text \<open>
  What the index and its ranges satisfy between operations: the ids kept by the ranges that are not
  active are distinct and unknown to the index.
\<close>

definition range_parked :: "ecs_entity_index_t \<Rightarrow> nat \<Rightarrow> bool" where
  "range_parked index p \<longleftrightarrow> p < length (eis_range_store index) \<and>
     vec_ok (range_recycled (range_at index p)) \<and>
     distinct (map lo32 (vec_elems (range_recycled (range_at index p)))) \<and>
     (\<forall>e \<in> set (vec_elems (range_recycled (range_at index p))). pos_of index (lo32 e) = 0)"

lemma load_range_ok:
  assumes inv: "eis_inv index" and parked: "range_parked index p" and r: "r = range_at index p"
    and fit: "vec_count (eis_dense index) + vec_count (range_recycled r) \<le> 2 ^ 30"
    and j: "j = index\<lparr>eis_pages := pages\<rparr>" "vec_ok (eis_pages j)"
      "\<forall>c. record_of j c = (if eis_alive_count index \<le> pos_of index c then set_dense 0 (record_of index c)
         else record_of index c)"
    and k: "k = j\<lparr>eis_dense := ecs_vec_set_count (eis_dense j) (eis_alive_count index)\<rparr>"
  shows "\<exists>index' dense' pages'. (if vec_count (range_recycled r) > 0 then
        bindr (ids_copy (ecs_vec_set_count (eis_dense k) (eis_alive_count index + vec_count (range_recycled r)))
                 (eis_alive_count index) (range_recycled r) 0 (vec_count (range_recycled r))) (\<lambda>ids.
        bindr (for_each [0..<vec_count (range_recycled r)] (set_range_load (range_recycled r) (eis_alive_count index))
                 (k\<lparr>eis_dense := ids\<rparr>)) (\<lambda>i.
        Inr (range_write i p (r\<lparr>range_recycled := ecs_vec_set_count (range_recycled r) 0\<rparr>))))
      else Inr k) = Inr index' \<and>
    eis_inv index' \<and> alive_set index' = alive_set index \<and>
    dead_ids index' = vec_elems (range_recycled r) \<and>
    index' = index\<lparr>eis_pages := pages', eis_dense := dense',
      eis_range_store := eis_range_store index'\<rparr> \<and>
    eis_range_store index' = (eis_range_store index)[p := range_at index' p] \<and>
    range_cur (range_at index' p) = range_cur r \<and>
    vec_wf (range_recycled (range_at index' p)) \<and> vec_count (range_recycled (range_at index' p)) = 0"
proof -
  note D = eis_invD [OF inv]
  let ?a = "eis_alive_count index" and ?src = "range_recycled r" and ?D = "dense_ids index"
  let ?xs = "vec_elems ?src" and ?n = "vec_count ?src"
  have src: "vec_ok ?src" "distinct (map lo32 ?xs)" "\<And>e. e \<in> set ?xs \<Longrightarrow> pos_of index (lo32 e) = 0" "length ?xs = ?n"
    and p: "p < length (eis_range_store index)"
    using parked by (auto simp: range_parked_def r)
  have kd: "vec_ok_from 1 (eis_dense k)" "dense_ids k = take ?a ?D" "vec_count (eis_dense k) = ?a" "vec_ok (eis_pages k)"
    and kr: "record_of k = record_of j" and ka: "eis_alive_count k = ?a"
    using D j k by auto
  show ?thesis
  proof (cases "?n > 0")
    case False
    then have xs: "?xs = []" using src(4) by simp
    have "eis_inv k" "alive_set k = alive_set index" "dead_ids k = []"
      using replaced_dead_inv [OF inv, of "[]" k] kd kr ka j(3) by simp_all
    with False xs show ?thesis
      using j(1) k p vec_okD [OF src(1)]
      by (intro exI [of _ k] exI [of _ "eis_dense k"] exI [of _ "eis_pages k"]) (simp add: r list_update_id)
  next
    case True
    let ?v = "ecs_vec_set_count (eis_dense k) (?a + ?n)"
    have le: "?a + ?n \<le> 2 ^ 30" using fit D(4) by simp
    have v: "vec_wf ?v" "vec_count ?v = ?a + ?n" "\<And>i. i < ?a \<Longrightarrow> vec_array ?v ! i = vec_array (eis_dense k) ! i"
      using ecs_vec_set_count_wf [OF vec_ok_from_wf [OF kd(1)] le] kd(3) le by simp_all
    have "vec_read ?src (0 + i) = Inr (?xs ! i)" if "i < length ?xs" for i using src that by simp
    from ids_copy_ok [OF v(1) _ this, of ?a] obtain ids where
      ids: "ids_copy ?v ?a ?src 0 ?n = Inr ids" "vec_wf ids" "vec_count ids = ?a + ?n"
      "\<And>i. i < ?a + ?n \<Longrightarrow> vec_array ids ! i = (if ?a \<le> i then Some (?xs ! (i - ?a)) else vec_array ?v ! i)"
      using v(2) src(4) by auto
    have ids_from: "vec_ok_from 1 ids"
      using kd(1,3) v(3) ids(2-4) by (auto simp: vec_ok_from_def)
    have cell: "the (vec_array ids ! i) = (take ?a ?D @ ?xs) ! i" if "i < ?a + ?n" for i
    proof (cases "i < ?a")
      case True
      then have "the (vec_array ids ! i) = dense_ids k ! i"
        using ids(4) v(3) kd(3) vec_elems_nth [OF vec_ok_from_wf [OF kd(1)], of i] by simp
      then show ?thesis using True kd(2) D(4,6) by (simp add: nth_append)
    next
      case False
      then show ?thesis using ids(4) that D(4,6) by (simp add: nth_append)
    qed
    have ids_el: "vec_elems ids = take ?a ?D @ ?xs"
      using ids(2,3) D(4,6) src(4) by (intro vec_elems_eqI) (simp_all add: cell)
    have tab: "rec_table (record_of (k\<lparr>eis_dense := ids\<rparr>) (lo32 e)) = None" if "e \<in> set ?xs" for e
      using src(3) [OF that] inv j(3) D(3) kr by (auto simp: eis_inv_def)
    obtain l pages' where l: "for_each [0..<?n] (set_range_load ?src ?a) (k\<lparr>eis_dense := ids\<rparr>) = Inr l"
      "l = k\<lparr>eis_dense := ids, eis_pages := pages'\<rparr>" "vec_ok (eis_pages l)"
      "\<forall>i < ?n. record_of l (lo32 (?xs ! i)) = set_dense (?a + i) (record_of k (lo32 (?xs ! i)))"
      "\<forall>c. c \<notin> lo32 ` set ?xs \<longrightarrow> record_of l c = record_of k c"
      using set_range_load_loop [OF src(1) _ src(2) tab, of ?a] kd(4) by auto
    let ?r = "r\<lparr>range_recycled := ecs_vec_set_count ?src 0\<rparr>"
    let ?i = "range_write l p ?r"
    have f: "record_of ?i = record_of l" "eis_dense ?i = ids" "eis_pages ?i = eis_pages l" "eis_alive_count ?i = ?a"
      using l(2) ka by (simp_all add: range_write_def)
    have I: "eis_inv ?i" "alive_set ?i = alive_set index" "dead_ids ?i = ?xs"
      using replaced_dead_inv [OF inv src(2,3), of ?i] f ids_from ids_el l(3-5) kr j(3) src(3,4) D(3)
      by (auto simp: dest: spec)
    moreover have "vec_wf (ecs_vec_set_count ?src 0)" "vec_count (ecs_vec_set_count ?src 0) = 0"
      using src(1) by (simp_all add: vec_okD)
    moreover have "eis_range_store l = eis_range_store index" using l(2) k j(1) by simp
    moreover have "?i = index\<lparr>eis_pages := pages', eis_dense := ids, eis_range_store := eis_range_store ?i\<rparr>"
      using l(2) k j(1) by (simp add: range_write_def)
    ultimately show ?thesis
      using True ids(1) l(1) p
      by (intro exI [of _ ?i] exI [of _ ids] exI [of _ pages']) (simp add: range_write_def)
  qed
qed

lemma known_cases:
  assumes inv: "eis_inv index" and "0 < pos_of index c"
  shows "c \<in> lo32 ` alive_set index \<or> c \<in> lo32 ` set (dead_ids index)"
proof -
  note D = eis_invD [OF inv]
  let ?p = "pos_of index c"
  have b: "?p < vec_count (eis_dense index)" "lo32 (dense_ids index ! ?p) = c"
    using pos_of_bounds [OF D(8) assms(2)] by simp_all
  show ?thesis
  proof (cases "?p < eis_alive_count index")
    case True
    then have "dense_ids index ! ?p \<in> alive_set index" using assms(2) by (simp add: alive_set_def dense_aliveI)
    then show ?thesis using b(2) by (metis imageI)
  next
    case False
    then have "dense_ids index ! ?p \<in> set (dead_ids index)"
      using b(1) D(6) by (auto simp: dead_ids_def in_set_conv_nth intro!: exI [of _ "?p - eis_alive_count index"])
    then show ?thesis using b(2) by (metis imageI)
  qed
qed

lemma dead_ids_facts:
  assumes inv: "eis_inv index"
  shows "distinct (map lo32 (dead_ids index))"
    "e \<in> set (dead_ids index) \<Longrightarrow> eis_alive_count index \<le> pos_of index (lo32 e)"
proof -
  note D = eis_invD [OF inv]
  let ?a = "eis_alive_count index"
  have nth: "pos_of index (lo32 (dead_ids index ! i)) = ?a + i" if "i < length (dead_ids index)" for i
    using that D pos_of_dense(1) [OF D(8), of "?a + i"] by (simp add: dead_ids_def)
  show "distinct (map lo32 (dead_ids index))"
    unfolding distinct_conv_nth using nth by (metis add_left_cancel length_map nth_map)
  show "?a \<le> pos_of index (lo32 e)" if "e \<in> set (dead_ids index)"
    using that nth by (auto simp: in_set_conv_nth)
qed

lemma set_range_ok:
  assumes inv: "eis_inv index" and p: "p \<in> set (range_list index)" "range_parked index p"
    and q: "eis_active_range index = Some q" "q \<noteq> p" "q < length (eis_range_store index)"
      "vec_wf (range_recycled (range_at index q))" "vec_count (range_recycled (range_at index q)) \<le> 2 ^ 30"
    and fit: "vec_count (eis_dense index) + vec_count (range_recycled (range_at index p)) \<le> 2 ^ 30"
  shows "\<exists>index'. flecs_entity_index_set_range index p = Inr index' \<and> eis_inv index' \<and>
    alive_set index' = alive_set index \<and>
    dead_ids index' = vec_elems (range_recycled (range_at index p)) \<and>
    vec_elems (range_recycled (range_at index' q)) = dead_ids index \<and>
    range_cur (range_at index' q) = eis_max_id index \<and> eis_max_id index' = range_cur (range_at index p) \<and>
    eis_active_range index' = Some p \<and> eis_ranges index' = eis_ranges index \<and> range_parked index' q \<and>
    length (eis_range_store index') = length (eis_range_store index) \<and>
    eis_alive_count index' = eis_alive_count index \<and>
    range_cur (range_at index' p) = range_cur (range_at index p) \<and>
    vec_wf (range_recycled (range_at index' p)) \<and> vec_count (range_recycled (range_at index' p)) = 0"
proof -
  let ?a = "eis_alive_count index" and ?m = "vec_count (eis_dense index) - eis_alive_count index"
  let ?prev = "range_at index q" and ?r = "range_at index p"
  have room: "vec_count (eis_dense index) \<le> 2 ^ 30" using fit by simp
  obtain w where w: "(if ?m > 0 then ids_copy (ecs_vec_set_count (range_recycled ?prev) ?m) 0 (eis_dense index) ?a ?m
       else Inr (ecs_vec_set_count (range_recycled ?prev) 0)) = Inr w" "vec_ok w" "vec_elems w = dead_ids index"
    using save_dead_ok [OF inv q(4,5) room] by blast
  define i1 where "i1 = range_write index q (?prev\<lparr>range_recycled := w, range_cur := eis_max_id index\<rparr>)"
  have i1: "eis_inv i1" "range_at i1 p = ?r" "eis_alive_count i1 = ?a" "eis_dense i1 = eis_dense index"
    "record_of i1 = record_of index" "alive_set i1 = alive_set index"
    using inv q(2) by (simp_all add: i1_def range_write_def eis_inv_def alive_set_def)
  have parked: "range_parked i1 p" using p(2) i1(2,5) by (simp add: range_parked_def) (simp add: i1_def range_write_def)
  obtain j pages where j: "for_each [?a..<vec_count (eis_dense index)] set_range_clear i1 = Inr j"
    "j = i1\<lparr>eis_pages := pages\<rparr>" "vec_ok (eis_pages j)"
    "\<forall>c. record_of j c = (if ?a \<le> pos_of i1 c then set_dense 0 (record_of i1 c) else record_of i1 c)"
    using set_range_clear_loop [OF i1(1)] i1(3,4) by auto
  define k where "k = j\<lparr>eis_dense := ecs_vec_set_count (eis_dense j) ?a\<rparr>"
  obtain l dense' pages' where l: "(if vec_count (range_recycled ?r) > 0 then
        bindr (ids_copy (ecs_vec_set_count (eis_dense k) (?a + vec_count (range_recycled ?r)))
                 ?a (range_recycled ?r) 0 (vec_count (range_recycled ?r))) (\<lambda>ids.
        bindr (for_each [0..<vec_count (range_recycled ?r)] (set_range_load (range_recycled ?r) ?a)
                 (k\<lparr>eis_dense := ids\<rparr>)) (\<lambda>i.
        Inr (range_write i p (?r\<lparr>range_recycled := ecs_vec_set_count (range_recycled ?r) 0\<rparr>))))
      else Inr k) = Inr l"
    and L: "eis_inv l" "alive_set l = alive_set i1" "dead_ids l = vec_elems (range_recycled ?r)"
      "l = i1\<lparr>eis_pages := pages', eis_dense := dense', eis_range_store := eis_range_store l\<rparr>"
      "eis_range_store l = (eis_range_store i1)[p := range_at l p]" "range_cur (range_at l p) = range_cur ?r"
      "vec_wf (range_recycled (range_at l p))" "vec_count (range_recycled (range_at l p)) = 0"
    using load_range_ok [OF i1(1) parked i1(2) [symmetric], unfolded i1(3,4), OF fit j(2-4) k_def]
    by (elim exE conjE) (rule that; assumption)
  define index' where "index' = l\<lparr>eis_max_id := range_cur ?r, eis_active_range := Some p\<rparr>"
  have kr: "range_read k p = Inr ?r"
    using p(2) q(2) by (simp add: range_read_def k_def j(2) i1_def range_write_def range_parked_def)
  have run: "flecs_entity_index_set_range index p = Inr index'"
  proof -
    have "range_read index q = Inr ?prev" using q(3) by (simp add: range_read_def)
    then show ?thesis
      by (simp only: flecs_entity_index_set_range_def Let_def ecs_vec_count_def q(1) option.case
          ecs_assert_simps(1) [OF p(1)] w(1) bindr_Inr i1_def [symmetric] j(1) k_def [symmetric] kr l index'_def)
  qed
  have lq: "range_at l q = ?prev\<lparr>range_recycled := w, range_cur := eis_max_id index\<rparr>"
    using q(2,3) arg_cong [OF L(5), of "\<lambda>s. s ! q"] by (simp add: i1_def range_write_def)
  have fields: "eis_inv index'" "alive_set index' = alive_set index" "dead_ids index' = vec_elems (range_recycled ?r)"
    using L(1-3) i1(6) by (simp_all add: index'_def eis_inv_def alive_set_def dead_ids_def)
  have "pos_of index' (lo32 e) = 0" if e: "e \<in> set (dead_ids index)" for e
  proof (rule ccontr)
    have dead: "?a \<le> pos_of index (lo32 e)" using dead_ids_facts(2) [OF inv e] .
    assume "pos_of index' (lo32 e) \<noteq> 0"
    then have "lo32 e \<in> lo32 ` alive_set index \<or> lo32 e \<in> lo32 ` set (vec_elems (range_recycled ?r))"
      using known_cases [OF fields(1)] fields(2,3) by auto
    then show False
    proof
      assume "lo32 e \<in> lo32 ` alive_set index"
      then obtain d where "d \<in> alive_set index" "lo32 e = lo32 d" by blast
      with dead alive_set_iff [OF inv, of d] show False by simp
    next
      assume "lo32 e \<in> lo32 ` set (vec_elems (range_recycled ?r))"
      then obtain d where "d \<in> set (vec_elems (range_recycled ?r))" "lo32 e = lo32 d" by blast
      with dead p(2) eis_invD(3) [OF inv] show False by (auto simp: range_parked_def)
    qed
  qed
  moreover have len: "length (eis_range_store l) = length (eis_range_store index)"
    using arg_cong [OF L(5), of length] by (simp add: i1_def range_write_def)
  ultimately have "range_parked index' q"
    using lq w(2,3) q(3) dead_ids_facts(1) [OF inv] by (simp add: range_parked_def index'_def)
  moreover have "eis_ranges l = eis_ranges index" "eis_alive_count l = ?a"
    using arg_cong [OF L(4), of eis_ranges] arg_cong [OF L(4), of eis_alive_count]
    by (simp_all add: i1_def range_write_def)
  ultimately show ?thesis
    using run fields L(6-8) lq w(3) len by (intro exI [of _ index']) (simp add: index'_def)
qed

section \<open>Page arithmetic\<close>

lemma take_bit_eq_self_iff_u64: "take_bit 32 (w :: u64) = w \<longleftrightarrow> unat w < 2 ^ 32"
proof -
  have "take_bit 32 w = w \<longleftrightarrow> unat (take_bit 32 w) = unat w" by (simp add: word_unat_eq_iff)
  also have "\<dots> \<longleftrightarrow> take_bit 32 (unat w) = unat w" by (simp add: unsigned_take_bit_eq)
  also have "\<dots> \<longleftrightarrow> unat w < 2 ^ 32" by (rule take_bit_nat_eq_self_iff)
  finally show ?thesis .
qed

lemma ucast_nat_lo32: "lo32 (word_of_nat n) = word_of_nat n"
  by (simp add: unsigned_of_nat word_of_nat_eq_iff min_def)

lemma entity_page_of_nat:
  assumes "unat c = i * 1024 + s" and "s < 1024"
  shows "entity_page_index c = i" "entity_page_slot c = s"
proof -
  show "entity_page_index c = i"
    using assms unat_drop_bit_eq [of 10 c]
    by (simp add: entity_page_index_def FLECS_ENTITY_PAGE_BITS_def drop_bit_eq_div [where 'a = nat])
  have "FLECS_ENTITY_PAGE_MASK = mask 10"
    by (simp add: FLECS_ENTITY_PAGE_MASK_def FLECS_ENTITY_PAGE_BITS_def mask_eq_exp_minus_1)
  then have "entity_page_slot c = unat (take_bit 10 c)"
    by (simp add: entity_page_slot_def take_bit_eq_mask)
  also have "\<dots> = unat c mod 1024" by (simp add: unsigned_take_bit_eq) (simp add: take_bit_eq_mod)
  also have "\<dots> = s" using assms by simp
  finally show "entity_page_slot c = s" .
qed

section \<open>Shrinking\<close>

text \<open>
  A page is kept when one of its ids is alive with generation 0, which is what the loop asks.
\<close>

lemma shrink_page_ok:
  assumes inv: "eis_inv index" and i: "i < 2 ^ 21" and es: "\<forall>s \<in> set es. s < 1024"
    and page: "\<And>s. s < 1024 \<Longrightarrow> page s = record_of index (word_of_nat (i * 1024 + s))"
  shows "shrink_page_alive index page i es =
    Inr (\<exists>s \<in> set es. word_of_nat (i * 1024 + s) \<in> alive_set index)"
  using es
proof (induction es)
  case (Cons s es)
  define n where "n = i * 1024 + s"
  let ?e = "word_of_nat n :: u64"
  note D = eis_invD [OF inv]
  have n: "n < 2 ^ 31" using i Cons.prems by (simp add: n_def)
  have lo: "lo32 ?e = word_of_nat n" by (rule ucast_nat_lo32)
  have ps: "page s = record_of index (lo32 ?e)"
    using page [of s, folded n_def] Cons.prems by (simp add: lo)
  have u: "unat (word_of_nat n :: u32) = i * 1024 + s"
    unfolding n_def [symmetric] using n by (intro unat_of_nat_32) simp
  have slot: "entity_page_index (lo32 ?e) = i" "entity_page_slot (lo32 ?e) = s"
    unfolding lo using entity_page_of_nat [OF u] Cons.prems by simp_all
  have size: "FLECS_ENTITY_PAGE_SIZE = 1024"
    by (simp add: FLECS_ENTITY_PAGE_SIZE_def FLECS_ENTITY_PAGE_BITS_def)
  have IH: "shrink_page_alive index page i es = Inr (\<exists>s \<in> set es. word_of_nat (i * 1024 + s) \<in> alive_set index)"
    using Cons by simp
  show ?case
  proof (cases "pos_of index (lo32 ?e) = 0")
    case True
    then have "?e \<notin> alive_set index" using alive_set_iff [OF inv, of ?e] by simp
    with True n IH show ?thesis by (simp add: size n_def [symmetric] ps del: of_nat_add of_nat_mult)
  next
    case False
    with n IH D slot show ?thesis
      by (simp add: size n_def [symmetric] ps is_alive_ok [OF inv] del: of_nat_add of_nat_mult)
  qed
qed simp

lemma shrink_drops_page:
  assumes inv: "eis_inv index" and dead: "dead_ids index = []" and one: "vec_count (eis_pages index) = 1"
    and alive: "alive_set index = {e}" and page: "unat (lo32 e) < 1024" and gen: "ECS_GENERATION e \<noteq> 0"
  shows "\<exists>index'. flecs_entity_index_shrink index = Inr index' \<and> flecs_entity_index_is_alive index' e = Inr False"
proof -
  note D = eis_invD [OF inv]
  have n: "eis_alive_count index = vec_count (eis_dense index)" using dead inv by (simp add: dead_ids_Nil)
  define j where "j = index\<lparr>eis_dense := ecs_vec_reclaim (ecs_vec_set_count (eis_dense index) (eis_alive_count index))\<rparr>"
  have sc: "ecs_vec_set_count (eis_dense index) (eis_alive_count index) = eis_dense index"
    by (simp add: ecs_vec_set_count_def n)
  have rd: "vec_ok_from 1 (ecs_vec_reclaim (eis_dense index))" "vec_elems (ecs_vec_reclaim (eis_dense index)) = dense_ids index"
    "vec_count (ecs_vec_reclaim (eis_dense index)) = vec_count (eis_dense index)"
    using D(2,3) n by (auto simp: ecs_vec_reclaim_def Let_def vec_ok_from_def vec_wf_def vec_elems_def)
  have inv_j: "eis_inv j" and al_j: "alive_set j = {e}" and pg_j: "eis_pages j = eis_pages index"
    using inv alive rd by (auto simp: j_def sc eis_inv_def eis_core_def alive_set_def)
  have pos: "0 < pos_of j (lo32 e)" using al_j alive_set_iff [OF inv_j, of e] by simp
  have hp: "has_page j (lo32 e)" using pos by (rule has_page_pos)
  have ix: "entity_page_index (lo32 e) = 0"
    using entity_page_of_nat(1) [of "lo32 e" 0 "unat (lo32 e)"] page by simp
  obtain p where p: "vec_elems (eis_pages j) ! 0 = Some p" using hp by (auto simp: has_page_def ix)
  have slots: "p s = record_of j (word_of_nat (0 * 1024 + s))" if "s < 1024" for s
  proof -
    have u: "unat (word_of_nat s :: u32) = 0 * 1024 + s" using that by (simp add: unat_of_nat_32)
    show ?thesis using entity_page_of_nat [OF u that] p one pg_j by (simp add: record_of_def has_page_def)
  qed
  have size: "FLECS_ENTITY_PAGE_SIZE = 1024"
    by (simp add: FLECS_ENTITY_PAGE_SIZE_def FLECS_ENTITY_PAGE_BITS_def)
  have "word_of_nat (0 * 1024 + s) \<notin> alive_set j" if "s < 1024" for s
  proof
    assume "word_of_nat (0 * 1024 + s) \<in> alive_set j"
    then have e: "e = word_of_nat s" by (simp add: al_j)
    have "bit e m = False" if "32 \<le> m" for m
    proof -
      have "unat e < 2 ^ 32" using \<open>s < 1024\<close> by (simp add: e unsigned_of_nat take_bit_nat_eq_self)
      then have "take_bit 32 e = e" by (simp add: take_bit_eq_self_iff_u64)
      then have "bit (take_bit 32 e) m = bit e m" by simp
      then show ?thesis using that by (simp add: bit_take_bit_iff)
    qed
    then have "ECS_GENERATION e = 0"
      by (intro bit_word_eqI) (simp add: bit_ECS_GENERATION)
    with gen show False by simp
  qed
  then have none: "shrink_page_alive j p 0 [0..<FLECS_ENTITY_PAGE_SIZE] = Inr False"
    using shrink_page_ok [OF inv_j, of 0 "[0..<1024]" p] slots by (auto simp: size)
  let ?v = "vec_upd (eis_pages j) 0 None"
  define k where "k = j\<lparr>eis_pages := ecs_vec_reclaim (ecs_vec_set_count ?v 1)\<rparr>"
  have vj: "vec_ok (eis_pages j)" "vec_count (eis_pages j) = 1" using D one pg_j by simp_all
  have "flecs_entity_index_shrink index = Inr k"
    using vj p none by (simp add: flecs_entity_index_shrink_def Let_def ecs_vec_count_def j_def [symmetric] k_def)
  moreover have "ecs_vec_set_count ?v 1 = ?v" using vj by (simp add: ecs_vec_set_count_def)
  then have "vec_ok (eis_pages k)" "vec_elems (eis_pages k) = (vec_elems (eis_pages j))[0 := None]"
    using vj ecs_vec_reclaim_ok [of ?v] by (simp_all add: k_def)
  then have "flecs_entity_index_try_get_any k e = Inr None"
    using vj ix by (auto simp: record_of_def has_page_def zero_record_def)
  then have "flecs_entity_index_is_alive k e = Inr False"
    by (simp add: flecs_entity_index_is_alive_def flecs_entity_index_try_get_def)
  ultimately show ?thesis by blast
qed

section \<open>An index with two ranges\<close>

text \<open>
  The ranges \<open>[1, 100]\<close> (active) and \<open>[101, ...]\<close>, which keeps one id to be recycled.
\<close>

definition sample_ranges :: ecs_entity_index_t where
  "sample_ranges = (flecs_entity_index_init zero_entity_index)
     \<lparr>eis_ranges := \<lparr>vec_array = [Some 0, Some 1], vec_count = 2, vec_size = 2\<rparr>,
      eis_range_store :=
        [\<lparr>range_min = 1, range_max = 100, range_cur = 0, range_recycled = ecs_vec_init 0\<rparr>,
         \<lparr>range_min = 101, range_max = 0, range_cur = 101,
          range_recycled = \<lparr>vec_array = [Some 0x100000065], vec_count = 1, vec_size = 1\<rparr>\<rparr>],
      eis_active_range := Some 0\<rparr>"

lemma sample_facts:
  "eis_inv sample_ranges" "alive_set sample_ranges = {}" "dead_ids sample_ranges = []"
  "pos_of sample_ranges c = 0" "vec_count (eis_dense sample_ranges) = 1" "eis_max_id sample_ranges = 0"
  "range_list sample_ranges = [0, 1]" "vec_count (eis_ranges sample_ranges) = 2" "ranges_ok sample_ranges"
proof -
  let ?i = "flecs_entity_index_init zero_entity_index"
  have "eis_inv sample_ranges = eis_inv ?i"
    by (simp add: sample_ranges_def eis_inv_def)
  then show "eis_inv sample_ranges" using init_inv(1) by simp
  have "alive_set sample_ranges = alive_set ?i" "dead_ids sample_ranges = dead_ids ?i"
    by (simp_all add: sample_ranges_def alive_set_def dead_ids_def)
  then show "alive_set sample_ranges = {}" "dead_ids sample_ranges = []" using init_inv(2,3) by simp_all
  show "pos_of sample_ranges c = 0" using init_inv(4) by (simp add: sample_ranges_def)
  show "vec_count (eis_dense sample_ranges) = 1" "eis_max_id sample_ranges = 0"
    by (simp_all add: sample_ranges_def flecs_entity_index_init_def zero_entity_index_def ecs_vec_set_count_def
        ecs_vec_init_def ecs_vec_init_w_dbg_info_def flecs_vec_alloc_def)
  show r: "range_list sample_ranges = [0, 1]" "vec_count (eis_ranges sample_ranges) = 2"
    by (simp_all add: sample_ranges_def vec_elems_def)
  show "ranges_ok sample_ranges" unfolding ranges_ok_def r
    by (simp add: sample_ranges_def vec_ok_def vec_wf_def range_wf_def range_before_def)
qed

text \<open>A fresh index after one \<open>ensure\<close>.\<close>

lemma init_pages_count: "vec_count (eis_pages (with_page (flecs_entity_index_init index) c)) = entity_page_index c + 1"
proof -
  let ?i = "flecs_entity_index_init index"
  have p: "eis_pages ?i = ecs_vec_init 0" by (simp add: flecs_entity_index_init_def)
  have ok: "vec_ok (eis_pages ?i)" by (simp add: p)
  let ?v = "ecs_vec_set_min_count_zeromem None (eis_pages ?i) (entity_page_index c + 1)"
  have "entity_page_index c + 1 \<le> 2 ^ 30" using entity_page_index_bound [of c] by simp
  note z = ecs_vec_set_min_count_zeromem_ok [OF ok this, of None]
  have el: "vec_elems ?v = replicate (entity_page_index c + 1) None" using z by (simp add: p)
  have "vec_count ?v = length (vec_elems ?v)" using conjunct1 [OF z] by simp
  also have "\<dots> = entity_page_index c + 1" unfolding el by simp
  finally have cnt: "vec_count ?v = entity_page_index c + 1" .
  have get: "ecs_vec_get ?v (entity_page_index c) = Inr None" using conjunct1 [OF z] el cnt by (simp del: replicate_Suc)
  have "flecs_entity_index_ensure_page ?i c = Inr (?i\<lparr>eis_pages := vec_upd ?v (entity_page_index c) (Some (\<lambda>_. zero_record))\<rparr>)"
    unfolding flecs_entity_index_ensure_page_def Let_def
    using conjunct1 [OF z] cnt get by (simp add: p ecs_vec_count_def)
  then show ?thesis using cnt by (simp add: with_page_def)
qed

lemma ensured_sample:
  fixes e :: u64
  assumes "c = lo32 e"
  defines "index \<equiv> revived (appended (flecs_entity_index_init zero_entity_index) e) e"
  shows "eis_inv index" "alive_set index = {e}" "dead_ids index = []" "eis_max_id index = c"
    "vec_count (eis_pages index) = entity_page_index c + 1" "d \<noteq> c \<Longrightarrow> pos_of index d = 0"
    "vec_count (eis_dense index) = 2"
proof -
  let ?i = "flecs_entity_index_init zero_entity_index"
  have i: "vec_count (eis_dense ?i) = 1" "eis_alive_count ?i = 1" "eis_max_id ?i = 0"
    by (simp_all add: flecs_entity_index_init_def zero_entity_index_def ecs_vec_set_count_def
        ecs_vec_init_def ecs_vec_init_w_dbg_info_def flecs_vec_alloc_def)
  have r: "vec_count (eis_dense ?i) < 2 ^ 30" by (simp add: i)
  note A = appended_ok [OF init_inv(1) init_inv(4) r] and N = ensure_new [OF init_inv(1) init_inv(4) r]
  note R = revived_ok [OF A(1) N(2)]
  show inv: "eis_inv index" "alive_set index = {e}" using R(1,2) A(2) init_inv(2) by (simp_all add: index_def)
  show cnt: "vec_count (eis_dense index) = 2" using R(7) A(8) i by (simp add: index_def)
  have "eis_alive_count index = 2" using A(4) i by (simp add: index_def revived_def)
  then show "dead_ids index = []" using inv(1) cnt by (simp add: dead_ids_Nil)
  show "eis_max_id index = c" using R(6) A(7) i assms(1) by (simp add: index_def)
  show "pos_of index d = 0" if "d \<noteq> c"
    using R(5) [of e d] fun_cong [OF A(3), of e d] that init_inv(4) assms(1) by (auto simp: index_def)
  show "vec_count (eis_pages index) = entity_page_index c + 1"
    using init_pages_count [of zero_entity_index c]
    by (simp add: index_def revived_def exchanged_def appended_def record_upd_def assms(1))
qed

section \<open>Properties\<close>

text \<open>
  C23: the binary search for the range of an id always returns, never reads outside the ranges, and
  finds a range exactly when some range has the id.
\<close>

theorem find_range_correct:
  assumes "ranges_ok index"
  shows "\<exists>r. flecs_entity_index_find_range index c = Inr r \<and>
    (case r of Some p \<Rightarrow> p \<in> set (range_list index) \<and> range_has (range_at index p) c
     | None \<Rightarrow> \<forall>p \<in> set (range_list index). \<not> range_has (range_at index p) c)"
  using find_range_ok [OF assms] .

theorem find_range_correct_witness:
  "flecs_entity_index_find_range sample_ranges 100 = Inr (Some 0)"
proof -
  obtain r where r: "flecs_entity_index_find_range sample_ranges 100 = Inr r"
    "case r of Some p \<Rightarrow> p \<in> set (range_list sample_ranges) \<and> range_has (range_at sample_ranges p) 100
     | None \<Rightarrow> \<forall>p \<in> set (range_list sample_ranges). \<not> range_has (range_at sample_ranges p) 100"
    using find_range_correct [OF sample_facts(9), of 100] by blast
  have "range_has (range_at sample_ranges 0) 100" "\<not> range_has (range_at sample_ranges 1) 100"
    by (simp_all add: sample_ranges_def range_has_def)
  with r(2) have "r = Some 0" by (auto simp: sample_facts(7) split: option.splits)
  with r(1) show ?thesis by simp
qed

text \<open>
  C24: creating a range next to existing ones keeps the ranges sorted, well-formed and disjoint, with
  the new range inserted at its place; a range that overlaps an existing one is rejected with
  \<open>ECS_INVALID_PARAMETER\<close>.
\<close>

theorem entity_range_new_keeps_ranges:
  assumes ok: "ranges_ok index" and "range_list index \<noteq> []" and "vec_count (eis_ranges index) < 2 ^ 30"
    and "eis_inv index" and "dead_ids index = []" and rng: "0 < mn" "mx = 0 \<or> mn \<le> mx"
  shows "if \<exists>p \<in> set (range_list index). range_overlap mn mx (range_at index p)
    then ecs_entity_range_new index mn mx = Inl (Abort ECS_INVALID_PARAMETER)
    else \<exists>index' p k. ecs_entity_range_new index mn mx = Inr (index', p) \<and> ranges_ok index' \<and>
      range_list index' = take k (range_list index) @ [p] @ drop k (range_list index) \<and>
      range_min (range_at index' p) = mn \<and> range_max (range_at index' p) = mx"
proof -
  have n: "vec_count (eis_ranges index) \<noteq> 0"
    using assms(2) ok by (auto simp: ranges_ok_def simp flip: length_vec_elems)
  have "flecs_entity_index_not_alive_count index = 0"
    using assms(4,5) by (simp add: flecs_entity_index_not_alive_count_def ecs_vec_count_def dead_ids_Nil)
  then have eq: "ecs_entity_range_new index mn mx = bindr (range_create index mn mx) (\<lambda>(index, p). Inr (index, p))"
    using rng n by (simp add: ecs_entity_range_new_def entity_range_new_1_def Let_def ecs_vec_count_def)
  show ?thesis
    using range_create_ok [OF ok rng assms(3)]
    by (auto simp: eq split: if_splits)
qed

theorem entity_range_new_keeps_ranges_witness:
  "ecs_entity_range_new sample_ranges 50 60 = Inl (Abort ECS_INVALID_PARAMETER)"
proof -
  have "range_overlap 50 60 (range_at sample_ranges 0)" by (simp add: sample_ranges_def range_overlap_def)
  then show ?thesis
    using entity_range_new_keeps_ranges [of sample_ranges 50 60] sample_facts(1,3,7,8,9) by simp
qed

text \<open>
  C25: switching the active range moves the recyclable ids in and out without touching any alive
  entity.  Activating range \<open>p\<close> and then the previously active range \<open>q\<close> again succeeds, keeps the
  invariant of the index and the alive entities, and restores the recyclable ids of \<open>q\<close> in their order
  and its id counter.
\<close>

theorem entity_range_switch_roundtrip:
  assumes inv: "eis_inv index" and p: "p \<in> set (range_list index)" "range_parked index p"
    and q: "eis_active_range index = Some q" "q \<in> set (range_list index)" "q \<noteq> p" "q < length (eis_range_store index)"
      "vec_wf (range_recycled (range_at index q))" "vec_count (range_recycled (range_at index q)) \<le> 2 ^ 30"
    and fit: "vec_count (eis_dense index) + vec_count (range_recycled (range_at index p)) \<le> 2 ^ 30"
  shows "\<exists>index1 index2. ecs_entity_range_set index (Some p) = Inr index1 \<and>
    alive_set index1 = alive_set index \<and> dead_ids index1 = vec_elems (range_recycled (range_at index p)) \<and>
    eis_max_id index1 = range_cur (range_at index p) \<and>
    ecs_entity_range_set index1 (Some q) = Inr index2 \<and> eis_inv index2 \<and> alive_set index2 = alive_set index \<and>
    dead_ids index2 = dead_ids index \<and> eis_max_id index2 = eis_max_id index \<and> ecs_entity_range_get index2 = Some q"
proof -
  obtain i where i: "flecs_entity_index_set_range index p = Inr i" "eis_inv i"
    "alive_set i = alive_set index" "dead_ids i = vec_elems (range_recycled (range_at index p))"
    "vec_elems (range_recycled (range_at i q)) = dead_ids index"
    "range_cur (range_at i q) = eis_max_id index" "eis_max_id i = range_cur (range_at index p)"
    "eis_active_range i = Some p" "eis_ranges i = eis_ranges index" "range_parked i q"
    "length (eis_range_store i) = length (eis_range_store index)" "eis_alive_count i = eis_alive_count index"
    "vec_wf (range_recycled (range_at i p))" "vec_count (range_recycled (range_at i p)) = 0"
    using set_range_ok [OF inv p q(1,3-6) fit] by blast
  have len: "length (dead_ids i) = vec_count (eis_dense i) - eis_alive_count i" "eis_alive_count i \<le> vec_count (eis_dense i)"
    "length (dead_ids index) = vec_count (eis_dense index) - eis_alive_count index"
    "eis_alive_count index \<le> vec_count (eis_dense index)"
    using eis_invD(4,6) [OF i(2)] eis_invD(4,6) [OF inv] by (simp_all add: dead_ids_def)
  have "vec_count (range_recycled (range_at i q)) = length (dead_ids index)"
    using i(5,10) by (metis length_vec_elems range_parked_def)
  moreover have "length (dead_ids i) = vec_count (range_recycled (range_at index p))"
    using i(4) p(2) by (simp add: range_parked_def)
  ultimately have fit': "vec_count (eis_dense i) + vec_count (range_recycled (range_at i q)) \<le> 2 ^ 30"
    using len fit i(12) by simp
  have "p < length (eis_range_store i)" using p(2) i(11) by (simp add: range_parked_def)
  from set_range_ok [OF i(2) _ i(10,8) q(3) [symmetric] this i(13) _ fit'] q(2) i(9,14)
  obtain j where "flecs_entity_index_set_range i q = Inr j" "eis_inv j" "alive_set j = alive_set i"
    "dead_ids j = vec_elems (range_recycled (range_at i q))" "eis_max_id j = range_cur (range_at i q)"
    "eis_active_range j = Some q" by auto
  with i show ?thesis by (auto simp: ecs_entity_range_set_def ecs_entity_range_get_def)
qed

theorem entity_range_switch_roundtrip_witness:
  "\<exists>index1 index2. ecs_entity_range_set sample_ranges (Some 1) = Inr index1 \<and>
     dead_ids index1 = [0x100000065] \<and> ecs_entity_range_set index1 (Some 0) = Inr index2 \<and> dead_ids index2 = []"
proof -
  have parked: "range_parked sample_ranges 1"
    by (simp add: range_parked_def sample_facts(4)) (simp add: sample_ranges_def vec_ok_def vec_wf_def vec_elems_def)
  have q: "eis_active_range sample_ranges = Some 0" "0 < length (eis_range_store sample_ranges)"
    "vec_wf (range_recycled (range_at sample_ranges 0))" "vec_count (range_recycled (range_at sample_ranges 0)) \<le> 2 ^ 30"
    by (simp_all add: sample_ranges_def vec_okD)
  have "vec_count (eis_dense sample_ranges) + vec_count (range_recycled (range_at sample_ranges 1)) \<le> 2 ^ 30"
    by (simp add: sample_facts(5)) (simp add: sample_ranges_def)
  from entity_range_switch_roundtrip [OF sample_facts(1) _ parked q(1) _ _ q(2-4) this]
  have "\<exists>index1 index2. ecs_entity_range_set sample_ranges (Some 1) = Inr index1 \<and>
     dead_ids index1 = vec_elems (range_recycled (range_at sample_ranges 1)) \<and>
     ecs_entity_range_set index1 (Some 0) = Inr index2 \<and> dead_ids index2 = dead_ids sample_ranges"
    by (auto simp: sample_facts(7))
  moreover have "vec_elems (range_recycled (range_at sample_ranges 1)) = [0x100000065]"
    by (simp add: sample_ranges_def vec_elems_def)
  ultimately show ?thesis by (simp add: sample_facts(3))
qed

text \<open>
  C35: an id above the active range derails it.  If an id that the index does not know is made to exist
  (\<open>flecs_entity_index_ensure\<close>, called by \<open>ecs_make_alive\<close>) and it lies above the last id of the
  active range, \<open>max_id\<close> leaves the range for good: the next entity creation aborts with
  \<open>ECS_OUT_OF_RANGE\<close>, however many ids of the range are still unused.
\<close>

theorem ensure_above_range_blocks_new_id:
  assumes inv: "eis_inv index" and dead: "dead_ids index = []" and room: "Suc (vec_count (eis_dense index)) < 2 ^ 30"
    and act: "eis_active_range index = Some a" "a < length (eis_range_store index)" "range_max (range_at index a) \<noteq> 0"
    and e: "range_max (range_at index a) < lo32 e" "eis_max_id index < lo32 e" "lo32 e < 0xFFFFFFFF"
    and new: "pos_of index (lo32 e) = 0" "pos_of index (lo32 e + 1) = 0"
  shows "\<exists>index'. flecs_entity_index_ensure index e = Inr (index', lo32 e) \<and> alive_set index' = insert e (alive_set index) \<and>
    flecs_new_id index' = Inl (Abort ECS_OUT_OF_RANGE)"
proof -
  let ?c = "lo32 e"
  have r: "vec_count (eis_dense index) < 2 ^ 30" using room by simp
  note A = appended_ok [OF inv new(1) r] and N = ensure_new [OF inv new(1) r]
  note R = revived_ok [OF A(1) N(2)]
  let ?i = "revived (appended index e) e"
  have lt: "?c < ?c + 1" using not_max_less [OF e(3)] .
  have max: "eis_max_id ?i = ?c" using A(7) R(6) e(2) by (auto simp: max_def)
  have "eis_alive_count ?i = vec_count (eis_dense ?i)"
    using dead A(4,8) R(7) inv by (simp add: revived_def dead_ids_Nil)
  then have d: "dead_ids ?i = []" using R(1) by (simp add: dead_ids_Nil)
  have "pos_of (appended index e) (?c + 1) = 0"
    using fun_cong [OF A(3), of "?c + 1"] new(2) lt by auto
  then have "pos_of ?i (eis_max_id ?i + 1) = 0" using R(5) [of "?c + 1"] max by simp
  moreover have "vec_count (eis_dense ?i) < 2 ^ 30" using A(8) R(7) room by simp
  ultimately obtain j where j: "flecs_entity_index_new_id ?i = Inr (j, to64 (?c + 1))" "same_ranges ?i j"
    using new_id_fresh [OF R(1) d] max by auto
  have "same_ranges index j" using j(2) A(6) R(4) by (simp add: same_ranges_def)
  then have "range_read j a = Inr (range_at index a)" "eis_active_range j = Some a"
    using act by (simp_all add: range_read_def same_ranges_def)
  moreover have "range_max (range_at index a) < ?c + 1" using e(1) lt by (rule order_less_trans)
  ultimately have "flecs_new_id ?i = Inl (Abort ECS_OUT_OF_RANGE)"
    using j(1) act(3) by (simp add: flecs_new_id_def ecs_entity_t_lo_def not_le)
  then show ?thesis using N(1) R(2) A(2) by auto
qed

theorem ensure_above_range_blocks_new_id_witness:
  "\<exists>index'. flecs_entity_index_ensure sample_ranges 5000 = Inr (index', 5000) \<and>
     flecs_new_id index' = Inl (Abort ECS_OUT_OF_RANGE)"
proof -
  have "eis_active_range sample_ranges = Some 0" "0 < length (eis_range_store sample_ranges)"
    "range_max (range_at sample_ranges 0) = 100" by (simp_all add: sample_ranges_def)
  with ensure_above_range_blocks_new_id [OF sample_facts(1,3), of 0 5000] sample_facts(4-6)
  show ?thesis by auto
qed

text \<open>
  C36: \<open>flecs_entity_index_shrink\<close> loses alive entities.  It asks for every slot whether the id with
  generation 0 is alive, so a page whose only alive entity has been recycled before is freed, and the
  entity, alive before the call, is gone after it.
\<close>

theorem shrink_loses_recycled_entity:
  assumes "eis_inv index" and "dead_ids index = []" and "vec_count (eis_pages index) = 1"
    and "alive_set index = {e}" and "unat (lo32 e) < 1024" and "ECS_GENERATION e \<noteq> 0"
  shows "flecs_entity_index_is_alive index e = Inr True \<and>
    (\<exists>index'. flecs_entity_index_shrink index = Inr index' \<and> flecs_entity_index_is_alive index' e = Inr False)"
  using shrink_drops_page [OF assms] is_alive_ok [OF assms(1)] assms(4) by simp

theorem shrink_loses_recycled_entity_witness:
  "\<exists>index index'. flecs_entity_index_is_alive index 0x100000005 = Inr True \<and>
     flecs_entity_index_shrink index = Inr index' \<and> flecs_entity_index_is_alive index' 0x100000005 = Inr False"
proof -
  let ?i = "flecs_entity_index_init zero_entity_index" and ?e = "0x100000005 :: u64"
  note E = ensured_sample [where e = ?e, OF refl]
  have "entity_page_index (lo32 ?e) = 0" using entity_page_of_nat(1) [of "lo32 ?e" 0 5] by simp
  then have "vec_count (eis_pages (revived (appended ?i ?e) ?e)) = 1" using E(5) by simp
  moreover have "ECS_GENERATION ?e \<noteq> 0" by (simp add: ECS_GENERATION_def ECS_GENERATION_MASK_def)
  ultimately show ?thesis
    using shrink_loses_recycled_entity [OF E(1,3) _ E(2)] by auto
qed

text \<open>
  C37: the overflow check of \<open>flecs_entity_index_new_id\<close> never fires.  The counter \<open>max_id\<close> is 32 bits
  wide, so at its largest value the check \<open>max_id <= UINT32_MAX\<close> passes, the counter wraps around and
  the invalid id 0 is issued as a new entity.
\<close>

theorem new_id_wraps_to_zero:
  assumes "eis_inv index" and "dead_ids index = []" and "vec_count (eis_dense index) < 2 ^ 30"
    and "eis_max_id index = 0xFFFFFFFF" and "pos_of index 0 = 0"
  shows "\<exists>index'. flecs_entity_index_new_id index = Inr (index', 0) \<and>
    flecs_entity_index_is_alive index' 0 = Inr True"
proof -
  have z: "eis_max_id index + 1 = 0" using assms(4) by simp
  with new_id_fresh [OF assms(1-3)] assms(5) obtain i where
    "flecs_entity_index_new_id index = Inr (i, 0)" "eis_inv i" "0 \<in> alive_set i" by auto
  then show ?thesis by (auto simp: is_alive_ok)
qed

theorem new_id_wraps_to_zero_witness:
  "\<exists>index index'. eis_max_id index = 0xFFFFFFFF \<and> flecs_entity_index_new_id index = Inr (index', 0)"
proof -
  let ?i = "flecs_entity_index_init zero_entity_index" and ?e = "0xFFFFFFFF :: u64"
  have c: "0xFFFFFFFF = lo32 ?e" by simp
  note E = ensured_sample [OF c]
  have "vec_count (eis_dense (revived (appended ?i ?e) ?e)) < 2 ^ 30" using E(7) by simp
  moreover have "pos_of (revived (appended ?i ?e) ?e) 0 = 0" using E(6) [of 0] by simp
  ultimately show ?thesis using new_id_wraps_to_zero [OF E(1,3) _ E(4)] E(4) by blast
qed

end
