(* ===== verification/Refine.thy ===== *)
theory Refine
  imports Prelude
begin

text \<open>
  Data refinement for sequences of operations.

  The interface \<open>simulation\<close> is what a component promises: every operation that the specification
  enables returns, keeps the invariant, and gives the state and the result of the specification.
  Once an implementation has it, whole sequences of operations follow the specification.
\<close>

section \<open>Sequences of operations\<close>

primrec run_ops :: "('o \<Rightarrow> 's \<Rightarrow> ('s \<times> 'r) res) \<Rightarrow> 'o list \<Rightarrow> 's \<Rightarrow> ('s \<times> 'r list) res" where
  "run_ops step [] s = Inr (s, [])"
| "run_ops step (op # ops) s =
     bindr (step op s) (\<lambda>(s, r).
     bindr (run_ops step ops s) (\<lambda>(s, rs). Inr (s, r # rs)))"

primrec run_spec :: "('o \<Rightarrow> 'a \<Rightarrow> 'a \<times> 'r) \<Rightarrow> 'o list \<Rightarrow> 'a \<Rightarrow> 'a \<times> 'r list" where
  "run_spec spec [] a = (a, [])"
| "run_spec spec (op # ops) a =
     (case spec op a of (a, r) \<Rightarrow> case run_spec spec ops a of (a, rs) \<Rightarrow> (a, r # rs))"

primrec run_enabled :: "('o \<Rightarrow> 'a \<Rightarrow> 'a \<times> 'r) \<Rightarrow> ('o \<Rightarrow> 'a \<Rightarrow> bool) \<Rightarrow> 'o list \<Rightarrow> 'a \<Rightarrow> bool" where
  "run_enabled spec en [] a = True"
| "run_enabled spec en (op # ops) a \<longleftrightarrow> en op a \<and> run_enabled spec en ops (fst (spec op a))"

section \<open>The interface\<close>

locale simulation =
  fixes inv :: "'s \<Rightarrow> bool"
    and abst :: "'s \<Rightarrow> 'a"
    and step :: "'o \<Rightarrow> 's \<Rightarrow> ('s \<times> 'r) res"
    and spec :: "'o \<Rightarrow> 'a \<Rightarrow> 'a \<times> 'r"
    and enabled :: "'o \<Rightarrow> 'a \<Rightarrow> bool"
  assumes sim: "inv s \<Longrightarrow> enabled op (abst s) \<Longrightarrow>
    \<exists>s' r. step op s = Inr (s', r) \<and> inv s' \<and> spec op (abst s) = (abst s', r)"
begin

theorem run_refines:
  assumes "inv s" and "run_enabled spec enabled ops (abst s)"
  shows "\<exists>s' rs. run_ops step ops s = Inr (s', rs) \<and> inv s' \<and> run_spec spec ops (abst s) = (abst s', rs)"
  using assms
proof (induction ops arbitrary: s)
  case (Cons op ops)
  then obtain s1 r where s1: "step op s = Inr (s1, r)" "inv s1" "spec op (abst s) = (abst s1, r)"
    using sim [of s op] by auto
  with Cons.prems Cons.IH [of s1] obtain s2 rs where
    "run_ops step ops s1 = Inr (s2, rs)" "inv s2" "run_spec spec ops (abst s1) = (abst s2, rs)" by auto
  with s1 show ?case by simp
qed simp

text \<open>An enabled sequence never fails.\<close>

corollary run_returns: "inv s \<Longrightarrow> run_enabled spec enabled ops (abst s) \<Longrightarrow> returns (run_ops step ops s)"
  using run_refines by (fastforce simp: returns_iff)

end

end
