(* ===== verification/Bitset.thy ===== *)
theory Bitset
  imports Refine
begin

text \<open>
  The bitset of \<open>src/datastructures/bitset.c\<close>: an array of 64-bit words that grows by whole words.

  A cell of the array is \<open>None\<close> while its content is indeterminate.  Bit counts and indices
  (\<open>int32_t\<close>) are natural numbers, so the checks \<open>elem >= 0\<close> hold.  The sums and the rounding up to
  whole words are signed: where they leave 32 bits the operation is undefined, so that a bitset holds
  at most 2 ^ 31 - 64 bits.  The lemmas show that the operations act on the list of the bits, which
  needs the invariant that the bits behind the count are zero.
\<close>

section \<open>State and operations\<close>

record ecs_bitset_t =
  bs_data :: "u64 option list"
  bs_count :: nat
  bs_size :: nat

definition bitset_words :: "nat \<Rightarrow> nat" where
  "bitset_words n = (n - 1) div 64 + 1"

definition flecs_bitset_ensure_size :: "ecs_bitset_t \<Rightarrow> nat \<Rightarrow> ecs_bitset_t res" where
  "flecs_bitset_ensure_size bs sz =
     (if bs_size bs = 0 then
        bindr (defined_if (bitset_words sz * 64 < 2 ^ 31)) (\<lambda>_.
        Inr (bs\<lparr>bs_size := bitset_words sz * 64, bs_data := replicate (bitset_words sz) (Some 0)\<rparr>))
      else if sz > bs_size bs then
        let prev_size = bitset_words (bs_size bs); new_size = bitset_words sz;
            grown = take new_size (bs_data bs) @ replicate (new_size - length (bs_data bs)) None in
        bindr (defined_if (new_size * 64 < 2 ^ 31)) (\<lambda>_.
        Inr (bs\<lparr>bs_size := new_size * 64,
                bs_data := take prev_size grown @ replicate (new_size - prev_size) (Some 0)\<rparr>))
      else Inr bs)"

definition flecs_bitset_init :: ecs_bitset_t where
  "flecs_bitset_init = \<lparr>bs_data = [], bs_count = 0, bs_size = 0\<rparr>"

definition flecs_bitset_ensure :: "ecs_bitset_t \<Rightarrow> nat \<Rightarrow> ecs_bitset_t res" where
  "flecs_bitset_ensure bs count =
     (if count > bs_count bs then flecs_bitset_ensure_size (bs\<lparr>bs_count := count\<rparr>) count else Inr bs)"

definition flecs_bitset_fini :: "ecs_bitset_t \<Rightarrow> ecs_bitset_t" where
  "flecs_bitset_fini bs = bs\<lparr>bs_data := [], bs_count := 0\<rparr>"

definition flecs_bitset_addn :: "ecs_bitset_t \<Rightarrow> nat \<Rightarrow> ecs_bitset_t res" where
  "flecs_bitset_addn bs count =
     (let elem = bs_count bs + count in
      bindr (defined_if (elem < 2 ^ 31)) (\<lambda>_. flecs_bitset_ensure_size (bs\<lparr>bs_count := elem\<rparr>) elem))"

text \<open>\<open>bs->data[hi]\<close>.\<close>

definition bitset_word :: "ecs_bitset_t \<Rightarrow> nat \<Rightarrow> u64 res" where
  "bitset_word bs hi =
     (if hi < length (bs_data bs)
      then (case bs_data bs ! hi of None \<Rightarrow> Inl Undefined | Some v \<Rightarrow> Inr v) else Inl Undefined)"

definition flecs_bitset_set :: "ecs_bitset_t \<Rightarrow> nat \<Rightarrow> bool \<Rightarrow> ecs_bitset_t res" where
  "flecs_bitset_set bs elem value =
     bindr (ecs_assert (elem < bs_count bs) ECS_INVALID_PARAMETER) (\<lambda>_.
     let hi = drop_bit 6 elem; lo = elem AND 0x3F in
     bindr (bitset_word bs hi) (\<lambda>v.
     Inr (bs\<lparr>bs_data := (bs_data bs)[hi :=
       Some ((v AND NOT (push_bit lo 1)) OR push_bit lo (of_bool value))]\<rparr>)))"

definition flecs_bitset_get :: "ecs_bitset_t \<Rightarrow> nat \<Rightarrow> bool res" where
  "flecs_bitset_get bs elem =
     bindr (ecs_assert (elem < bs_count bs) ECS_INVALID_PARAMETER) (\<lambda>_.
     bindr (bitset_word bs (drop_bit 6 elem)) (\<lambda>v.
     Inr (v AND push_bit (elem AND 0x3F) 1 \<noteq> 0)))"

definition flecs_bitset_count :: "ecs_bitset_t \<Rightarrow> nat" where
  "flecs_bitset_count bs = bs_count bs"

definition flecs_bitset_remove :: "ecs_bitset_t \<Rightarrow> nat \<Rightarrow> ecs_bitset_t res" where
  "flecs_bitset_remove bs elem =
     bindr (ecs_assert (elem < bs_count bs) ECS_INVALID_PARAMETER) (\<lambda>_.
     let last = bs_count bs - 1 in
     bindr (flecs_bitset_get bs last) (\<lambda>last_value.
     bindr (flecs_bitset_set bs elem last_value) (\<lambda>bs.
     bindr (flecs_bitset_set bs last False) (\<lambda>bs.
     Inr (bs\<lparr>bs_count := bs_count bs - 1\<rparr>)))))"

definition flecs_bitset_swap :: "ecs_bitset_t \<Rightarrow> nat \<Rightarrow> nat \<Rightarrow> ecs_bitset_t res" where
  "flecs_bitset_swap bs elem_a elem_b =
     bindr (ecs_assert (elem_a < bs_count bs) ECS_INVALID_PARAMETER) (\<lambda>_.
     bindr (ecs_assert (elem_b < bs_count bs) ECS_INVALID_PARAMETER) (\<lambda>_.
     bindr (flecs_bitset_get bs elem_a) (\<lambda>a.
     bindr (flecs_bitset_get bs elem_b) (\<lambda>b.
     bindr (flecs_bitset_set bs elem_a b) (\<lambda>bs.
     flecs_bitset_set bs elem_b a)))))"

section \<open>The bits\<close>

definition bs_bit :: "ecs_bitset_t \<Rightarrow> nat \<Rightarrow> bool" where
  "bs_bit bs i \<longleftrightarrow> bit (the (bs_data bs ! (i div 64))) (i mod 64)"

definition bs_bits :: "ecs_bitset_t \<Rightarrow> bool list" where
  "bs_bits bs = map (bs_bit bs) [0..<bs_count bs]"

definition bs_wf :: "ecs_bitset_t \<Rightarrow> bool" where
  "bs_wf bs \<longleftrightarrow> bs_size bs = length (bs_data bs) * 64 \<and> bs_count bs \<le> bs_size bs \<and>
     None \<notin> set (bs_data bs) \<and> (\<forall>i. bs_count bs \<le> i \<and> i < bs_size bs \<longrightarrow> \<not> bs_bit bs i)"

lemma bs_index: "drop_bit 6 (n :: nat) = n div 64" "(n :: nat) AND 0x3F = n mod 64"
proof -
  show "drop_bit 6 n = n div 64" by (simp add: drop_bit_eq_div)
  have "(0x3F :: nat) = mask 6" by (simp add: mask_eq_exp_minus_1)
  then show "n AND 0x3F = n mod 64" by (simp only: take_bit_eq_mask [symmetric]) (simp add: take_bit_eq_mod)
qed

lemma bs_wf_word:
  assumes "bs_wf bs" and "i < bs_size bs"
  shows "i div 64 < length (bs_data bs)" "bs_data bs ! (i div 64) \<noteq> None"
    "bitset_word bs (i div 64) = Inr (the (bs_data bs ! (i div 64)))"
proof -
  show l: "i div 64 < length (bs_data bs)"
    using assms by (simp add: bs_wf_def less_mult_imp_div_less)
  then show n: "bs_data bs ! (i div 64) \<noteq> None" using assms(1) by (metis bs_wf_def nth_mem)
  show "bitset_word bs (i div 64) = Inr (the (bs_data bs ! (i div 64)))"
    using l n by (auto simp: bitset_word_def)
qed

lemma and_exp_eq_0_iff: "(v :: u64) AND 2 ^ n = 0 \<longleftrightarrow> \<not> bit v n" if "n < 64"
proof -
  have "bit (v AND 2 ^ n) m \<longleftrightarrow> m = n \<and> bit v n" for m
    using that by (auto simp: bit_and_iff bit_exp_iff)
  then show ?thesis by (metis bit_0_eq bot_apply bot_bool_def bit_word_eqI)
qed

lemma bitset_get_ok:
  assumes "bs_wf bs" and "i < bs_count bs"
  shows "flecs_bitset_get bs i = Inr (bs_bit bs i)"
proof -
  have "i < bs_size bs" using assms by (simp add: bs_wf_def)
  from bs_wf_word [OF assms(1) this] show ?thesis
    using assms(2) by (simp add: flecs_bitset_get_def bs_index bs_bit_def and_exp_eq_0_iff)
qed

lemma bitset_set_ok:
  assumes wf: "bs_wf bs" and i: "i < bs_count bs"
  shows "\<exists>bs'. flecs_bitset_set bs i b = Inr bs' \<and> bs_wf bs' \<and> bs_count bs' = bs_count bs \<and>
    bs_size bs' = bs_size bs \<and> (\<forall>j < bs_size bs. bs_bit bs' j = (if j = i then b else bs_bit bs j))"
proof -
  have s: "i < bs_size bs" using wf i by (simp add: bs_wf_def)
  note W = bs_wf_word [OF wf s]
  let ?v = "the (bs_data bs ! (i div 64))"
  let ?w = "(?v AND NOT (push_bit (i mod 64) 1)) OR push_bit (i mod 64) (of_bool b)"
  let ?bs = "bs\<lparr>bs_data := (bs_data bs)[i div 64 := Some ?w]\<rparr>"
  have run: "flecs_bitset_set bs i b = Inr ?bs"
    using W i by (simp add: flecs_bitset_set_def bs_index Let_def)
  have wbit: "bit ?w m \<longleftrightarrow> (if m = i mod 64 then b else bit ?v m)" if "m < 64" for m
    using that by (auto simp: bit_or_iff bit_and_iff bit_not_iff bit_push_bit_iff bit_exp_iff bit_1_iff)
  have bit': "bs_bit ?bs j = (if j = i then b else bs_bit bs j)" if "j < bs_size bs" for j
  proof (cases "j div 64 = i div 64")
    case True
    moreover have "j = i \<longleftrightarrow> j mod 64 = i mod 64" using True by (metis mult_div_mod_eq)
    ultimately show ?thesis using W(1) wbit [of "j mod 64"] by (simp add: bs_bit_def)
  next
    case False
    then show ?thesis by (auto simp: bs_bit_def)
  qed
  have "bs_wf ?bs" using wf i W bit' by (auto simp: bs_wf_def dest: set_update_subset_insert [THEN subsetD])
  with run bit' show ?thesis by (intro exI [of _ ?bs]) simp
qed

lemma bs_bits_eqI:
  "length xs = bs_count bs \<Longrightarrow> (\<And>i. i < bs_count bs \<Longrightarrow> bs_bit bs i = xs ! i) \<Longrightarrow> bs_bits bs = xs"
  by (rule nth_equalityI) (simp_all add: bs_bits_def)

lemma bs_bits_nth [simp]: "length (bs_bits bs) = bs_count bs" "i < bs_count bs \<Longrightarrow> bs_bits bs ! i = bs_bit bs i"
  by (simp_all add: bs_bits_def)

lemma bs_set_bits:
  assumes "bs_wf bs" and "i < bs_count bs"
  shows "\<exists>bs'. flecs_bitset_set bs i b = Inr bs' \<and> bs_wf bs' \<and> bs_count bs' = bs_count bs \<and>
    bs_bits bs' = (bs_bits bs)[i := b]"
proof -
  obtain bs' where b: "flecs_bitset_set bs i b = Inr bs'" "bs_wf bs'" "bs_count bs' = bs_count bs"
    "\<forall>j < bs_size bs. bs_bit bs' j = (if j = i then b else bs_bit bs j)"
    using bitset_set_ok [OF assms, of b] by blast
  moreover have "bs_count bs \<le> bs_size bs" using assms(1) by (simp add: bs_wf_def)
  ultimately have "bs_bits bs' = (bs_bits bs)[i := b]"
    using assms(2) by (intro bs_bits_eqI) (simp_all add: nth_list_update)
  with b show ?thesis by blast
qed

section \<open>Growing\<close>

lemma bitset_words_ge: "n \<le> bitset_words n * 64" "bitset_words (Suc m * 64) = Suc m"
  by (simp_all add: bitset_words_def)

lemma bitset_words_fit: "n \<le> 2 ^ 31 - 64 \<Longrightarrow> bitset_words n * 64 < 2 ^ 31"
  by (simp add: bitset_words_def)

lemma ensure_size_ok:
  assumes wf: "bs_wf bs" and n: "bs_count bs \<le> n" and fits: "n \<le> 2 ^ 31 - 64"
  shows "\<exists>bs'. flecs_bitset_ensure_size (bs\<lparr>bs_count := n\<rparr>) n = Inr bs' \<and> bs_wf bs' \<and> bs_count bs' = n \<and>
    bs_bits bs' = bs_bits bs @ replicate (n - bs_count bs) False"
proof -
  define k where "k = (if n > bs_size bs \<or> bs_size bs = 0 then bitset_words n - length (bs_data bs) else 0)"
  let ?bs = "bs\<lparr>bs_count := n, bs_data := bs_data bs @ replicate k (Some 0),
      bs_size := (length (bs_data bs) + k) * 64\<rparr>"
  have len: "bs_size bs = length (bs_data bs) * 64" "bs_count bs \<le> bs_size bs" "None \<notin> set (bs_data bs)"
    "\<And>i. bs_count bs \<le> i \<Longrightarrow> i < bs_size bs \<Longrightarrow> \<not> bs_bit bs i"
    using wf by (auto simp: bs_wf_def)
  have eq: "flecs_bitset_ensure_size (bs\<lparr>bs_count := n\<rparr>) n = Inr ?bs"
  proof -
    consider "bs_size bs = 0" | "bs_size bs \<noteq> 0" "n \<le> bs_size bs" | (grow) "bs_size bs \<noteq> 0" "bs_size bs < n" by linarith
    then show ?thesis
    proof cases
      case grow
      then obtain m where m: "length (bs_data bs) = Suc m" using len(1) by (cases "length (bs_data bs)") auto
      then have prev: "bitset_words (bs_size bs) = length (bs_data bs)" using bitset_words_ge(2) by (simp add: len(1))
      have "length (bs_data bs) \<le> bitset_words n"
        using grow(2) len(1) bitset_words_ge(1) [of n] by linarith
      with grow prev show ?thesis using bitset_words_fit [OF fits] by (simp add: flecs_bitset_ensure_size_def Let_def k_def)
    qed (use len(1) bitset_words_fit [OF fits] in \<open>auto simp: flecs_bitset_ensure_size_def k_def\<close>)
  qed
  have fit: "n \<le> (length (bs_data bs) + k) * 64"
    using bitset_words_ge(1) [of n] len(1) by (auto simp: k_def)
  have bit_old: "bs_bit ?bs i = bs_bit bs i" if "i < bs_size bs" for i
    using that len(1) by (simp add: bs_bit_def nth_append less_mult_imp_div_less)
  have bit_new: "\<not> bs_bit ?bs i" if "bs_size bs \<le> i" "i < (length (bs_data bs) + k) * 64" for i
  proof -
    have "length (bs_data bs) \<le> i div 64" using that(1) len(1) by (metis div_le_mono div_mult_self_is_m zero_less_numeral)
    moreover have "i div 64 < length (bs_data bs) + k" using that(2) by (simp add: less_mult_imp_div_less)
    ultimately show ?thesis by (simp add: bs_bit_def nth_append)
  qed
  have tail: "\<not> bs_bit ?bs i" if "bs_count bs \<le> i" "i < (length (bs_data bs) + k) * 64" for i
    using that bit_old [of i] bit_new [of i] len(4) [of i] by (cases "i < bs_size bs") auto
  have cnt: "bs_count ?bs = n" "bs_size ?bs = (length (bs_data bs) + k) * 64" by simp_all
  have wf': "bs_wf ?bs"
    unfolding bs_wf_def cnt using fit tail len(3) n by auto
  have "bs_bits ?bs = bs_bits bs @ replicate (n - bs_count bs) False"
  proof (rule bs_bits_eqI)
    show "bs_bit ?bs i = (bs_bits bs @ replicate (n - bs_count bs) False) ! i" if "i < bs_count ?bs" for i
      using that fit tail [of i] bit_old [of i] len(2) cnt n
      by (cases "i < bs_count bs") (auto simp: nth_append)
  qed (use n cnt in simp)
  with eq wf' show ?thesis by simp
qed

text \<open>The bitset that \<open>flecs_bitset_addn\<close> returns.\<close>

definition bs_grow :: "ecs_bitset_t \<Rightarrow> nat \<Rightarrow> ecs_bitset_t" where
  "bs_grow bs n = projr (flecs_bitset_addn bs n)"

lemma bitset_addn_ok:
  assumes "bs_wf bs" and "bs_count bs + n \<le> 2 ^ 31 - 64"
  shows "flecs_bitset_addn bs n = Inr (bs_grow bs n)" "bs_wf (bs_grow bs n)"
    "bs_count (bs_grow bs n) = bs_count bs + n" "bs_bits (bs_grow bs n) = bs_bits bs @ replicate n False"
proof -
  have "bs_count bs + n < 2 ^ 31" using assms(2) by simp
  then show "flecs_bitset_addn bs n = Inr (bs_grow bs n)" "bs_wf (bs_grow bs n)"
    "bs_count (bs_grow bs n) = bs_count bs + n" "bs_bits (bs_grow bs n) = bs_bits bs @ replicate n False"
    using ensure_size_ok [OF assms(1) _ assms(2)] by (auto simp: bs_grow_def flecs_bitset_addn_def Let_def)
qed

lemma bitset_ensure_ok:
  assumes "bs_wf bs" and "n \<le> 2 ^ 31 - 64"
  shows "\<exists>bs'. flecs_bitset_ensure bs n = Inr bs' \<and> bs_wf bs' \<and> bs_bits bs' = bs_bits bs @ replicate (n - bs_count bs) False"
  using ensure_size_ok [OF assms(1) _ assms(2)] assms(1) by (cases "bs_count bs < n") (auto simp: flecs_bitset_ensure_def)

section \<open>Removing and swapping\<close>

text \<open>
  \<open>flecs_bitset_remove\<close> moves the last bit into the hole and shortens the list by one, and
  \<open>flecs_bitset_swap\<close> exchanges two bits; both return on every index in range.
\<close>

lemma bitset_remove_swap:
  assumes wf: "bs_wf bs" and i: "i < bs_count bs" and j: "j < bs_count bs"
  shows "(\<exists>bs'. flecs_bitset_remove bs i = Inr bs' \<and> bs_wf bs' \<and>
      bs_bits bs' = butlast ((bs_bits bs)[i := last (bs_bits bs)])) \<and>
    (\<exists>bs'. flecs_bitset_swap bs i j = Inr bs' \<and> bs_wf bs' \<and>
      bs_bits bs' = (bs_bits bs)[i := bs_bits bs ! j, j := bs_bits bs ! i])"
proof
  define n where "n = bs_count bs - 1"
  have n: "bs_count bs = Suc n" "n < bs_count bs" using i by (auto simp: n_def)
  have last: "last (bs_bits bs) = bs_bit bs n"
    using n by (metis bs_bits_nth diff_Suc_1 last_conv_nth length_0_conv nat.distinct(1))
  obtain a where a: "flecs_bitset_set bs i (bs_bit bs n) = Inr a" "bs_wf a" "bs_count a = bs_count bs"
    "bs_bits a = (bs_bits bs)[i := bs_bit bs n]" using bs_set_bits [OF wf i] by blast
  obtain c where c: "flecs_bitset_set a n False = Inr c" "bs_wf c" "bs_count c = bs_count a"
    "bs_size c = bs_size a" "\<forall>k < bs_size a. bs_bit c k = (if k = n then False else bs_bit a k)"
    using bitset_set_ok [OF a(2), of n False] n a(3) by auto
  have size: "Suc n \<le> bs_size a" using a(2,3) n by (simp add: bs_wf_def)
  let ?d = "c\<lparr>bs_count := n\<rparr>"
  have bit: "bs_bit ?d k = bs_bit c k" for k by (simp add: bs_bit_def)
  have wc: "\<forall>k. bs_count c \<le> k \<and> k < bs_size c \<longrightarrow> \<not> bs_bit c k" using c(2) by (simp add: bs_wf_def)
  have "\<not> bs_bit c k" if "n \<le> k" "k < bs_size c" for k
    using that c(3-5) wc a(3) n by (cases "k = n") auto
  then have "bs_wf ?d" using c(2,3) a(3) n(1) bit by (auto simp: bs_wf_def)
  moreover have "bs_bits ?d = butlast ((bs_bits bs)[i := last (bs_bits bs)])"
  proof (rule bs_bits_eqI)
    show "bs_bit ?d k = butlast ((bs_bits bs)[i := last (bs_bits bs)]) ! k" if "k < bs_count ?d" for k
    proof -
      have k: "k < n" "k \<noteq> n" "k < bs_size a" "k < bs_count a" using that size a(3) n by auto
      then have "bs_bit ?d k = bs_bits a ! k" using c(5) bit by simp
      with k a(3,4) n show ?thesis by (simp add: last nth_butlast)
    qed
  qed (use n in simp)
  ultimately show "\<exists>bs'. flecs_bitset_remove bs i = Inr bs' \<and> bs_wf bs' \<and>
      bs_bits bs' = butlast ((bs_bits bs)[i := last (bs_bits bs)])"
    using a c n i bitset_get_ok [OF wf n(2)]
    by (intro exI [of _ ?d]) (simp add: flecs_bitset_remove_def)
next
  obtain a where a: "flecs_bitset_set bs i (bs_bit bs j) = Inr a" "bs_wf a" "bs_count a = bs_count bs"
    "bs_bits a = (bs_bits bs)[i := bs_bit bs j]" using bs_set_bits [OF wf i] by blast
  obtain c where c: "flecs_bitset_set a j (bs_bit bs i) = Inr c" "bs_wf c" "bs_bits c = (bs_bits a)[j := bs_bit bs i]"
    using bs_set_bits [OF a(2), of j] j a(3) by auto
  then show "\<exists>bs'. flecs_bitset_swap bs i j = Inr bs' \<and> bs_wf bs' \<and>
      bs_bits bs' = (bs_bits bs)[i := bs_bits bs ! j, j := bs_bits bs ! i]"
    using a i j bitset_get_ok [OF wf i] bitset_get_ok [OF wf j]
    by (intro exI [of _ c]) (simp add: flecs_bitset_swap_def)
qed

section \<open>Operations as steps\<close>

datatype bitset_op =
    Bs_ensure nat
  | Bs_addn nat
  | Bs_set nat bool
  | Bs_get nat
  | Bs_remove nat
  | Bs_swap nat nat
  | Bs_count

datatype bitset_result = Bs_done | Bs_bit bool | Bs_number nat

primrec bitset_step :: "bitset_op \<Rightarrow> ecs_bitset_t \<Rightarrow> (ecs_bitset_t \<times> bitset_result) res" where
  "bitset_step (Bs_ensure n) bs = bindr (flecs_bitset_ensure bs n) (\<lambda>bs. Inr (bs, Bs_done))"
| "bitset_step (Bs_addn n) bs = bindr (flecs_bitset_addn bs n) (\<lambda>bs. Inr (bs, Bs_done))"
| "bitset_step (Bs_set i b) bs = bindr (flecs_bitset_set bs i b) (\<lambda>bs. Inr (bs, Bs_done))"
| "bitset_step (Bs_get i) bs = bindr (flecs_bitset_get bs i) (\<lambda>b. Inr (bs, Bs_bit b))"
| "bitset_step (Bs_remove i) bs = bindr (flecs_bitset_remove bs i) (\<lambda>bs. Inr (bs, Bs_done))"
| "bitset_step (Bs_swap i j) bs = bindr (flecs_bitset_swap bs i j) (\<lambda>bs. Inr (bs, Bs_done))"
| "bitset_step Bs_count bs = Inr (bs, Bs_number (flecs_bitset_count bs))"

primrec bitset_spec :: "bitset_op \<Rightarrow> bool list \<Rightarrow> bool list \<times> bitset_result" where
  "bitset_spec (Bs_ensure n) xs = (xs @ replicate (n - length xs) False, Bs_done)"
| "bitset_spec (Bs_addn n) xs = (xs @ replicate n False, Bs_done)"
| "bitset_spec (Bs_set i b) xs = (xs[i := b], Bs_done)"
| "bitset_spec (Bs_get i) xs = (xs, Bs_bit (xs ! i))"
| "bitset_spec (Bs_remove i) xs = (butlast (xs[i := last xs]), Bs_done)"
| "bitset_spec (Bs_swap i j) xs = (xs[i := xs ! j, j := xs ! i], Bs_done)"
| "bitset_spec Bs_count xs = (xs, Bs_number (length xs))"

primrec bitset_enabled :: "bitset_op \<Rightarrow> bool list \<Rightarrow> bool" where
  "bitset_enabled (Bs_ensure n) xs \<longleftrightarrow> n \<le> 2 ^ 31 - 64"
| "bitset_enabled (Bs_addn n) xs \<longleftrightarrow> length xs + n \<le> 2 ^ 31 - 64"
| "bitset_enabled (Bs_set i b) xs \<longleftrightarrow> i < length xs"
| "bitset_enabled (Bs_get i) xs \<longleftrightarrow> i < length xs"
| "bitset_enabled (Bs_remove i) xs \<longleftrightarrow> i < length xs"
| "bitset_enabled (Bs_swap i j) xs \<longleftrightarrow> i < length xs \<and> j < length xs"
| "bitset_enabled Bs_count xs \<longleftrightarrow> True"

lemma bitset_step_ok:
  assumes wf: "bs_wf bs" and en: "bitset_enabled op (bs_bits bs)"
  shows "\<exists>bs' r. bitset_step op bs = Inr (bs', r) \<and> bs_wf bs' \<and> bitset_spec op (bs_bits bs) = (bs_bits bs', r)"
proof (cases op)
  case (Bs_ensure n)
  then show ?thesis using bitset_ensure_ok [OF wf, of n] en by auto
next
  case (Bs_addn n)
  then show ?thesis using bitset_addn_ok [OF wf, of n] en by auto
next
  case (Bs_set i b)
  then show ?thesis using bs_set_bits [OF wf, of i b] en by auto
next
  case (Bs_get i)
  then show ?thesis using bitset_get_ok [OF wf, of i] en wf by auto
next
  case (Bs_remove i)
  then show ?thesis using bitset_remove_swap [OF wf, of i i] en by auto
next
  case (Bs_swap i j)
  then show ?thesis using bitset_remove_swap [OF wf, of i j] en by auto
next
  case Bs_count
  then show ?thesis using wf by (simp add: flecs_bitset_count_def)
qed

interpretation bitset_sim: simulation bs_wf bs_bits bitset_step bitset_spec bitset_enabled
  by unfold_locales (rule bitset_step_ok)

lemma bitset_init_ok: "bs_wf flecs_bitset_init" "bs_bits flecs_bitset_init = []"
  by (simp_all add: bs_wf_def bs_bits_def flecs_bitset_init_def)

section \<open>Properties\<close>

text \<open>
  C27: the bitset is a list of booleans.  From \<open>flecs_bitset_init\<close> on, every sequence of operations (ensuring a
  count, appending bits, setting, reading, removing and swapping bits, asking for the count) whose indices
  are in range, and whose counts stay within 2 ^ 31 - 64 bits, returns: no access leaves the word array and
  no sum overflows.  The results and the bits at the end are those of the same sequence on a list, where new
  bits are clear and a removed bit is replaced by the last one.  In particular a removed bit does not come
  back when the bitset grows again.
\<close>

theorem bitset_refines_list:
  assumes "run_enabled bitset_spec bitset_enabled ops []"
  shows "\<exists>bs rs. run_ops bitset_step ops flecs_bitset_init = Inr (bs, rs) \<and>
    run_spec bitset_spec ops [] = (bs_bits bs, rs) \<and> flecs_bitset_count bs = length (bs_bits bs) \<and> bs_wf bs"
  using bitset_sim.run_refines [OF bitset_init_ok(1), of ops] assms
  by (auto simp: bitset_init_ok(2) flecs_bitset_count_def)

theorem bitset_refines_list_witness:
  "\<exists>bs. run_ops bitset_step [Bs_addn 70, Bs_set 69 True, Bs_remove 3, Bs_swap 3 0, Bs_get 0, Bs_addn 1, Bs_get 69, Bs_ensure 130, Bs_count]
       flecs_bitset_init =
     Inr (bs, [Bs_done, Bs_done, Bs_done, Bs_done, Bs_bit True, Bs_done, Bs_bit False, Bs_done, Bs_number 130])"
proof -
  let ?ops = "[Bs_addn 70, Bs_set 69 True, Bs_remove 3, Bs_swap 3 0, Bs_get 0, Bs_addn 1, Bs_get 69, Bs_ensure 130, Bs_count]"
  have rep: "replicate 70 False = False # False # False # False # replicate 65 False @ [False]"
    by (simp add: eval_nat_numeral)
  have "run_enabled bitset_spec bitset_enabled ?ops []" by simp
  from bitset_refines_list [OF this] obtain bs rs where
    R: "run_ops bitset_step ?ops flecs_bitset_init = Inr (bs, rs)" "run_spec bitset_spec ?ops [] = (bs_bits bs, rs)" by blast
  have "rs = [Bs_done, Bs_done, Bs_done, Bs_done, Bs_bit True, Bs_done, Bs_bit False, Bs_done, Bs_number 130]"
    using R(2) by (simp add: rep nth_append nth_list_update list_update_append)
  with R(1) show ?thesis by blast
qed

text \<open>
  \<open>flecs_bitset_fini\<close> leaves the size in place, so a bitset that is used again without
  \<open>flecs_bitset_init\<close> does not allocate: the first write goes through the null pointer.
\<close>

theorem bitset_fini_reuse_undefined:
  "bindr (flecs_bitset_addn flecs_bitset_init 10) (\<lambda>bs.
   bindr (flecs_bitset_addn (flecs_bitset_fini bs) 10) (\<lambda>bs. flecs_bitset_set bs 0 True)) = Inl Undefined"
  by (simp add: flecs_bitset_init_def flecs_bitset_addn_def flecs_bitset_fini_def flecs_bitset_ensure_size_def
      bitset_words_def flecs_bitset_set_def bitset_word_def bs_index)

end
