(* ===== verification/Ecs_Map.thy ===== *)
theory Ecs_Map
  imports Misc Refine
begin

text \<open>
  The hash map of \<open>src/datastructures/map.c\<close>: 64-bit keys, multiplicative hashing, buckets that are
  linked lists, and a bucket count that is a power of two.

  A bucket is the list of its entries in chain order.  Values are of any type; \<open>zero\<close> is the value
  that \<open>ecs_map_ensure\<close> writes.  A pointer to the value of an entry is the key of the entry, and
  \<open>ecs_map_store\<close> writes through it.  The element count is a 26-bit field and the bucket shift a
  6-bit field, as in the struct.  The iterator keeps the bucket it is in and the rest of the chain.

  The product \<open>count * 12 * 0.1\<close> is computed in floating point and truncated; it is modelled by the
  integer quotient, with which it agrees for every 32-bit product.
\<close>

section \<open>State\<close>

record 'v ecs_map_t =
  map_buckets :: "(u64 \<times> 'v) list list"
  map_bucket_count :: nat
  map_count :: nat
  map_bucket_shift :: nat
  map_change_count :: u32
  map_last_iterated :: u64

definition zero_map :: "'v ecs_map_t" where
  "zero_map = \<lparr>map_buckets = [], map_bucket_count = 0, map_count = 0, map_bucket_shift = 0,
     map_change_count = 0, map_last_iterated = 0\<rparr>"

section \<open>Operations\<close>

definition log2table :: "nat list" where
  "log2table =
     [0, 9,  1,  10, 13, 21, 2,  29, 11, 14, 16, 18, 22, 25, 3, 30,
      8, 12, 20, 28, 15, 17, 24, 7,  19, 27, 23, 6,  26, 5,  4, 31]"

definition flecs_log2 :: "u32 \<Rightarrow> nat" where
  "flecs_log2 v =
     (let v = v OR drop_bit 1 v;
          v = v OR drop_bit 2 v;
          v = v OR drop_bit 4 v;
          v = v OR drop_bit 8 v;
          v = v OR drop_bit 16 v
      in log2table ! unat (drop_bit 27 (v * 0x07C4ACDD)))"

definition flecs_map_get_bucket_count :: "int \<Rightarrow> int" where
  "flecs_map_get_bucket_count count =
     (let scaled = (if count \<ge> 0 then count * 12 div 10 else - ((- count) * 12 div 10))
      in sint (flecs_next_pow_of_2 (word_of_int scaled)))"

definition flecs_map_get_bucket_shift :: "nat \<Rightarrow> nat" where
  "flecs_map_get_bucket_shift bucket_count = (64 - flecs_log2 (word_of_nat bucket_count)) mod 256"

definition flecs_map_get_bucket_index :: "nat \<Rightarrow> u64 \<Rightarrow> int res" where
  "flecs_map_get_bucket_index bucket_shift key =
     bindr (ecs_assert (bucket_shift \<noteq> 0) ECS_INTERNAL_ERROR) (\<lambda>_.
     Inr (sint (ucast (drop_bit bucket_shift (11400714819323198485 * key)) :: i32)))"

definition flecs_map_get_bucket :: "'v ecs_map_t \<Rightarrow> u64 \<Rightarrow> nat res" where
  "flecs_map_get_bucket m key =
     bindr (flecs_map_get_bucket_index (map_bucket_shift m) key) (\<lambda>bucket_id.
     bindr (ecs_assert (bucket_id < int (map_bucket_count m)) ECS_INTERNAL_ERROR) (\<lambda>_.
     bindr (defined_if (0 \<le> bucket_id \<and> bucket_id < int (length (map_buckets m)))) (\<lambda>_.
     Inr (nat bucket_id))))"

text \<open>The chain of a bucket with an entry added, without the entry of a key, and the lookup in it.\<close>

definition flecs_map_bucket_add :: "(u64 \<times> 'v) list \<Rightarrow> u64 \<Rightarrow> 'v \<Rightarrow> (u64 \<times> 'v) list" where
  "flecs_map_bucket_add bucket key value = (key, value) # bucket"

fun flecs_map_bucket_remove :: "(u64 \<times> 'v) list \<Rightarrow> u64 \<Rightarrow> (u64 \<times> 'v) list \<times> 'v option" where
  "flecs_map_bucket_remove [] key = ([], None)"
| "flecs_map_bucket_remove ((k, v) # entries) key =
     (if k = key then (entries, Some v)
      else case flecs_map_bucket_remove entries key of (entries', r) \<Rightarrow> ((k, v) # entries', r))"

fun flecs_map_bucket_get :: "(u64 \<times> 'v) list \<Rightarrow> u64 \<Rightarrow> 'v option" where
  "flecs_map_bucket_get [] key = None"
| "flecs_map_bucket_get ((k, v) # entries) key =
     (if k = key then Some v else flecs_map_bucket_get entries key)"

definition rehash_entry ::
  "nat \<Rightarrow> u64 \<times> 'v \<Rightarrow> (u64 \<times> 'v) list list \<Rightarrow> (u64 \<times> 'v) list list res" where
  "rehash_entry shift entry buckets =
     bindr (flecs_map_get_bucket_index shift (fst entry)) (\<lambda>bucket_index.
     bindr (defined_if (0 \<le> bucket_index \<and> bucket_index < int (length buckets))) (\<lambda>_.
     Inr (buckets[nat bucket_index := entry # buckets ! nat bucket_index])))"

definition flecs_map_rehash :: "'v ecs_map_t \<Rightarrow> int \<Rightarrow> 'v ecs_map_t res" where
  "flecs_map_rehash m count =
     (let count = sint (flecs_next_pow_of_2 (word_of_int count));
          count = (if count < 2 then 2 else nat count);
          shift = flecs_map_get_bucket_shift count AND 0x3F in
      bindr (for_each (concat (take (map_bucket_count m) (map_buckets m))) (rehash_entry shift)
               (replicate count [])) (\<lambda>buckets.
      Inr (m\<lparr>map_buckets := buckets, map_bucket_count := count, map_bucket_shift := shift\<rparr>)))"

definition ecs_map_is_init :: "'v ecs_map_t \<Rightarrow> bool" where
  "ecs_map_is_init m \<longleftrightarrow> map_bucket_shift m \<noteq> 0"

definition ecs_map_init :: "'v ecs_map_t res" where
  "ecs_map_init = flecs_map_rehash zero_map 0"

definition ecs_map_init_if :: "'v ecs_map_t \<Rightarrow> 'v ecs_map_t res" where
  "ecs_map_init_if m = (if \<not> ecs_map_is_init m then ecs_map_init else Inr m)"

text \<open>The entries and the bucket array are freed.\<close>

definition ecs_map_fini :: "'v ecs_map_t \<Rightarrow> 'v ecs_map_t" where
  "ecs_map_fini m =
     (if \<not> ecs_map_is_init m then m else m\<lparr>map_bucket_shift := 0, map_buckets := []\<rparr>)"

definition ecs_map_get :: "'v ecs_map_t \<Rightarrow> u64 \<Rightarrow> 'v option res" where
  "ecs_map_get m key =
     bindr (flecs_map_get_bucket m key) (\<lambda>b. Inr (flecs_map_bucket_get (map_buckets m ! b) key))"

definition ecs_map_get_deref :: "'v \<Rightarrow> 'v ecs_map_t \<Rightarrow> u64 \<Rightarrow> 'v res" where
  "ecs_map_get_deref zero m key =
     bindr (flecs_map_get_bucket m key) (\<lambda>b.
     Inr (case flecs_map_bucket_get (map_buckets m ! b) key of Some v \<Rightarrow> v | None \<Rightarrow> zero))"

text \<open>
  The common tail of \<open>ecs_map_insert\<close> and \<open>ecs_map_ensure\<close>: count the element, grow, add the entry.
\<close>

definition map_add_entry :: "'v ecs_map_t \<Rightarrow> u64 \<Rightarrow> 'v \<Rightarrow> 'v ecs_map_t res" where
  "map_add_entry m key value =
     (let m = m\<lparr>map_count := (map_count m + 1) mod 2 ^ 26\<rparr>;
          tgt_bucket_count = flecs_map_get_bucket_count (int (map_count m)) in
      bindr (if tgt_bucket_count > int (map_bucket_count m) then flecs_map_rehash m tgt_bucket_count
             else Inr m) (\<lambda>m.
      bindr (flecs_map_get_bucket m key) (\<lambda>b.
      Inr (m\<lparr>map_buckets := (map_buckets m)[b := flecs_map_bucket_add (map_buckets m ! b) key value],
             map_change_count := map_change_count m + 1\<rparr>))))"

definition ecs_map_insert :: "'v ecs_map_t \<Rightarrow> u64 \<Rightarrow> 'v \<Rightarrow> 'v ecs_map_t res" where
  "ecs_map_insert m key value =
     bindr (ecs_map_get m key) (\<lambda>found.
     bindr (ecs_assert (found = None) ECS_INVALID_PARAMETER) (\<lambda>_.
     map_add_entry m key value))"

definition ecs_map_ensure :: "'v \<Rightarrow> 'v ecs_map_t \<Rightarrow> u64 \<Rightarrow> 'v ecs_map_t res" where
  "ecs_map_ensure zero m key =
     bindr (ecs_map_get m key) (\<lambda>found.
     case found of Some _ \<Rightarrow> Inr m | None \<Rightarrow> map_add_entry m key zero)"

text \<open>A write through the pointer to the value of an entry.\<close>

fun bucket_store :: "(u64 \<times> 'v) list \<Rightarrow> u64 \<Rightarrow> 'v \<Rightarrow> (u64 \<times> 'v) list" where
  "bucket_store [] key value = []"
| "bucket_store ((k, v) # entries) key value =
     (if k = key then (k, value) # entries else (k, v) # bucket_store entries key value)"

definition ecs_map_store :: "'v ecs_map_t \<Rightarrow> u64 \<Rightarrow> 'v \<Rightarrow> 'v ecs_map_t res" where
  "ecs_map_store m key value =
     bindr (flecs_map_get_bucket m key) (\<lambda>b.
     bindr (defined_if (flecs_map_bucket_get (map_buckets m ! b) key \<noteq> None)) (\<lambda>_.
     Inr (m\<lparr>map_buckets := (map_buckets m)[b := bucket_store (map_buckets m ! b) key value]\<rparr>)))"

text \<open>The result is \<open>None\<close> when the key has no entry (the C function returns 0).\<close>

definition ecs_map_remove :: "'v ecs_map_t \<Rightarrow> u64 \<Rightarrow> ('v ecs_map_t \<times> 'v option) res" where
  "ecs_map_remove m key =
     (let m = (if map_last_iterated m \<noteq> key then m\<lparr>map_change_count := map_change_count m + 1\<rparr> else m) in
      bindr (flecs_map_get_bucket m key) (\<lambda>b.
      case flecs_map_bucket_remove (map_buckets m ! b) key of
        (entries, None) \<Rightarrow> Inr (m, None)
      | (entries, Some v) \<Rightarrow>
          Inr (m\<lparr>map_buckets := (map_buckets m)[b := entries],
                 map_count := (map_count m + 2 ^ 26 - 1) mod 2 ^ 26\<rparr>, Some v)))"

text \<open>
  The variants for values that are pointers to allocated elements.  \<open>elem\<close> is the block that the
  allocator returns; the result of \<open>ecs_map_remove_free\<close> is the block that is freed.
\<close>

definition ecs_map_insert_alloc :: "'v \<Rightarrow> 'v ecs_map_t \<Rightarrow> u64 \<Rightarrow> ('v ecs_map_t \<times> 'v) res" where
  "ecs_map_insert_alloc elem m key = bindr (ecs_map_insert m key elem) (\<lambda>m. Inr (m, elem))"

definition ecs_map_ensure_alloc :: "'v \<Rightarrow> 'v \<Rightarrow> 'v ecs_map_t \<Rightarrow> u64 \<Rightarrow> ('v ecs_map_t \<times> 'v) res" where
  "ecs_map_ensure_alloc zero elem m key =
     bindr (ecs_map_ensure zero m key) (\<lambda>m.
     bindr (ecs_map_get_deref zero m key) (\<lambda>val.
     if val = zero then bindr (ecs_map_store m key elem) (\<lambda>m. Inr (m, elem))
     else Inr (m, val)))"

definition ecs_map_remove_free :: "'v \<Rightarrow> 'v ecs_map_t \<Rightarrow> u64 \<Rightarrow> ('v ecs_map_t \<times> 'v option) res" where
  "ecs_map_remove_free zero m key =
     bindr (ecs_map_remove m key) (\<lambda>(m, r).
     case r of
       None \<Rightarrow> Inr (m, None)
     | Some val \<Rightarrow> if val \<noteq> zero then Inr (m, Some val) else Inr (m, None))"

definition ecs_map_reclaim :: "'v ecs_map_t \<Rightarrow> 'v ecs_map_t res" where
  "ecs_map_reclaim m =
     (let tgt_bucket_count = flecs_map_get_bucket_count (int (map_count m) - 1) in
      if tgt_bucket_count \<noteq> int (map_bucket_count m) then flecs_map_rehash m tgt_bucket_count
      else Inr m)"

definition ecs_map_clear :: "'v ecs_map_t \<Rightarrow> 'v ecs_map_t res" where
  "ecs_map_clear m =
     bindr (flecs_map_rehash (m\<lparr>map_buckets := [], map_bucket_count := 0, map_count := 0\<rparr>) 2) (\<lambda>m.
     Inr (m\<lparr>map_change_count := map_change_count m + 1\<rparr>))"

definition ecs_map_count :: "'v ecs_map_t \<Rightarrow> nat" where
  "ecs_map_count m = map_count m"

subsection \<open>Iteration\<close>

record 'v ecs_map_iter_t =
  it_init :: bool
  it_bucket :: "nat option"
  it_entry :: "(u64 \<times> 'v) list"
  it_change_count :: u32

definition ecs_map_iter :: "'v ecs_map_t \<Rightarrow> 'v ecs_map_iter_t" where
  "ecs_map_iter m =
     (if ecs_map_is_init m
      then \<lparr>it_init = True, it_bucket = None, it_entry = [], it_change_count = map_change_count m\<rparr>
      else \<lparr>it_init = False, it_bucket = None, it_entry = [], it_change_count = 0\<rparr>)"

definition ecs_map_iter_valid :: "'v ecs_map_t \<Rightarrow> 'v ecs_map_iter_t \<Rightarrow> bool" where
  "ecs_map_iter_valid m iter \<longleftrightarrow> it_init iter \<and> map_change_count m = it_change_count iter"

text \<open>The first bucket from \<open>b\<close> on that has an entry, or the end of the array.\<close>

definition next_bucket :: "'v ecs_map_t \<Rightarrow> nat \<Rightarrow> nat" where
  "next_bucket m b =
     (case find_from b (map_bucket_count m) (\<lambda>i. map_buckets m ! i \<noteq> []) of
        Some i \<Rightarrow> i | None \<Rightarrow> map_bucket_count m)"

text \<open>The result is the key and the value of the entry that was reached, \<open>None\<close> at the end.\<close>

definition map_next_entry ::
  "'v ecs_map_t \<Rightarrow> 'v ecs_map_iter_t \<Rightarrow> (u64 \<times> 'v) list \<Rightarrow>
   ('v ecs_map_t \<times> 'v ecs_map_iter_t \<times> (u64 \<times> 'v) option) res" where
  "map_next_entry m iter entries =
     (case entries of
        [] \<Rightarrow> Inl (Abort ECS_INTERNAL_ERROR)
      | e # es \<Rightarrow> Inr (m\<lparr>map_last_iterated := fst e\<rparr>, iter\<lparr>it_entry := es\<rparr>, Some e))"

definition ecs_map_next ::
  "'v ecs_map_t \<Rightarrow> 'v ecs_map_iter_t \<Rightarrow> ('v ecs_map_t \<times> 'v ecs_map_iter_t \<times> (u64 \<times> 'v) option) res" where
  "ecs_map_next m iter =
     (if \<not> it_init iter then Inr (m, iter, None)
      else
        bindr (ecs_assert (map_change_count m = it_change_count iter) ECS_INVALID_PARAMETER) (\<lambda>_.
        if it_bucket iter = Some (map_bucket_count m) then Inr (m, iter, None)
        else
          case it_bucket iter of
            None \<Rightarrow>
              let b = next_bucket m 0; iter = iter\<lparr>it_bucket := Some b\<rparr> in
              if b = map_bucket_count m then Inr (m, iter, None)
              else map_next_entry m iter (map_buckets m ! b)
          | Some b \<Rightarrow>
              if it_entry iter = [] then
                let b = next_bucket m (b + 1); iter = iter\<lparr>it_bucket := Some b\<rparr> in
                if b = map_bucket_count m then Inr (m, iter, None)
                else map_next_entry m iter (map_buckets m ! b)
              else map_next_entry m iter (it_entry iter)))"

text \<open>
  A loop \<open>while (ecs_map_next(&it)) { body }\<close>, with a body that may also write values of the map that is
  iterated; the fuel bounds the number of calls of \<open>ecs_map_next\<close>.
\<close>

fun map_loop ::
  "nat \<Rightarrow> (u64 \<times> 'v \<Rightarrow> 'v ecs_map_t \<Rightarrow> 's \<Rightarrow> ('v ecs_map_t \<times> 's) res) \<Rightarrow>
   'v ecs_map_t \<Rightarrow> 'v ecs_map_iter_t \<Rightarrow> 's \<Rightarrow> ('v ecs_map_t \<times> 's) option res" where
  "map_loop 0 body m it s = Inr None"
| "map_loop (Suc n) body m it s =
     bindr (ecs_map_next m it) (\<lambda>(m, it, r).
     case r of
       None \<Rightarrow> Inr (Some (m, s))
     | Some e \<Rightarrow> bindr (body e m s) (\<lambda>(m, s). map_loop n body m it s))"

text \<open>The result is the source, whose \<open>last_iterated\<close> changes, and the copy.\<close>

definition ecs_map_copy ::
  "nat \<Rightarrow> 'v ecs_map_t \<Rightarrow> 'v ecs_map_t \<Rightarrow> ('v ecs_map_t \<times> 'v ecs_map_t) option res" where
  "ecs_map_copy fuel dst src =
     bindr (if ecs_map_is_init dst then
              bindr (ecs_assert (ecs_map_count dst = 0) ECS_INVALID_PARAMETER) (\<lambda>_. Inr (ecs_map_fini dst))
            else Inr dst) (\<lambda>dst.
     if \<not> ecs_map_is_init src then Inr (Some (src, dst))
     else
       bindr ecs_map_init (\<lambda>dst.
       map_loop fuel (\<lambda>(k, v) src dst. bindr (ecs_map_insert dst k v) (\<lambda>dst. Inr (src, dst)))
         src (ecs_map_iter src) dst))"

section \<open>The hash\<close>

lemma flecs_log2_table: "map (\<lambda>k. flecs_log2 (2 ^ k)) [0..<32] = [0..<32]"
  by (simp add: flecs_log2_def log2table_def upt_rec)

lemma flecs_log2_exp: "k < 32 \<Longrightarrow> flecs_log2 (2 ^ k) = k"
  using arg_cong [OF flecs_log2_table, of "\<lambda>xs. xs ! k"] by (simp del: upt.simps)

definition map_hash :: "nat \<Rightarrow> u64 \<Rightarrow> nat" where
  "map_hash k key = unat (drop_bit (64 - k) (11400714819323198485 * key))"

lemma map_hash_less:
  assumes "k \<le> 64"
  shows "map_hash k key < 2 ^ k"
proof -
  let ?x = "11400714819323198485 * key"
  have "unat ?x < 2 ^ LENGTH(64)" by (rule unsigned_less)
  then have "unat ?x < 2 ^ (64 - k) * 2 ^ k" using assms by (simp flip: power_add)
  then show ?thesis
    unfolding map_hash_def unat_drop_bit_eq
    by (simp add: drop_bit_eq_div less_mult_imp_div_less mult.commute)
qed

lemma bucket_index_ok:
  assumes "0 < k" and "k \<le> 30"
  shows "flecs_map_get_bucket_index (64 - k) key = Inr (int (map_hash k key))"
proof -
  let ?w = "drop_bit (64 - k) (11400714819323198485 * key)"
  have "unat ?w < 2 ^ k" using map_hash_less [of k key] assms by (simp add: map_hash_def)
  moreover have "(2 :: nat) ^ k \<le> 2 ^ 30" using assms(2) by (intro power_increasing) auto
  ultimately have u: "unat ?w < 2 ^ 31" by simp
  then have "unat (ucast ?w :: i32) = unat ?w" by (simp add: unsigned_ucast_eq take_bit_nat_eq_self)
  with u have "sint (ucast ?w :: i32) = int (unat ?w)" by (simp add: sint_eq_unat_32)
  then show ?thesis using assms by (simp add: flecs_map_get_bucket_index_def map_hash_def)
qed

lemma bucket_shift_ok:
  assumes "0 < k" and "k \<le> 30"
  shows "flecs_map_get_bucket_shift (2 ^ k) AND 0x3F = 64 - k"
proof -
  have "word_of_nat (2 ^ k) = (2 ^ k :: u32)" by simp
  then have "flecs_map_get_bucket_shift (2 ^ k) = 64 - k"
    using assms flecs_log2_exp [of k] by (simp add: flecs_map_get_bucket_shift_def)
  moreover have "(64 - k) AND 0x3F = (64 - k :: nat)"
  proof -
    have "(0x3F :: nat) = mask 6" by (simp add: mask_eq_exp_minus_1)
    then have "(64 - k) AND 0x3F = take_bit 6 (64 - k)" by (simp only: take_bit_eq_mask)
    then show ?thesis using assms by (simp add: take_bit_nat_eq_self)
  qed
  ultimately show ?thesis by simp
qed

section \<open>Well-formed maps\<close>

definition map_bits :: "'v ecs_map_t \<Rightarrow> nat" where
  "map_bits m = 64 - map_bucket_shift m"

definition buckets_ok :: "nat \<Rightarrow> (u64 \<times> 'v) list list \<Rightarrow> bool" where
  "buckets_ok k bs \<longleftrightarrow> 0 < k \<and> k \<le> 30 \<and> length bs = 2 ^ k \<and>
     (\<forall>i < 2 ^ k. distinct (map fst (bs ! i)) \<and> (\<forall>e \<in> set (bs ! i). map_hash k (fst e) = i))"

definition map_wf :: "'v ecs_map_t \<Rightarrow> bool" where
  "map_wf m \<longleftrightarrow> buckets_ok (map_bits m) (map_buckets m) \<and> map_bucket_shift m = 64 - map_bits m \<and>
     map_bucket_count m = 2 ^ map_bits m \<and> map_count m = length (concat (map_buckets m)) \<and> map_count m < 2 ^ 26"

text \<open>The finite map that a hash map stands for.\<close>

definition buckets_lookup :: "nat \<Rightarrow> (u64 \<times> 'v) list list \<Rightarrow> u64 \<Rightarrow> 'v option" where
  "buckets_lookup k bs key = map_of (bs ! map_hash k key) key"

definition map_lookup :: "'v ecs_map_t \<Rightarrow> u64 \<Rightarrow> 'v option" where
  "map_lookup m = buckets_lookup (map_bits m) (map_buckets m)"

lemma bucket_get_map_of [simp]: "flecs_map_bucket_get es key = map_of es key"
  by (induction es key rule: flecs_map_bucket_get.induct) auto

lemma bucket_remove_eq:
  "distinct (map fst es) \<Longrightarrow> flecs_map_bucket_remove es key = (filter (\<lambda>e. fst e \<noteq> key) es, map_of es key)"
proof (induction es key rule: flecs_map_bucket_remove.induct)
  case (2 k v es key)
  have "filter (\<lambda>e. fst e \<noteq> key) es = es" if "k = key"
    using 2 that by (auto simp: filter_id_conv)
  with 2 show ?case by auto
qed simp

lemma bucket_store_eq:
  "distinct (map fst es) \<Longrightarrow> bucket_store es key v = map (\<lambda>e. if fst e = key then (key, v) else e) es"
proof (induction es key v rule: bucket_store.induct)
  case (2 k v es key x)
  have "map (\<lambda>e. if fst e = key then (key, x) else e) es = es" if "k = key"
    using 2 that by (intro map_idI) auto
  with 2 show ?case by auto
qed simp

lemma buckets_ok_cell:
  assumes "buckets_ok k bs"
  shows "map_hash k key < length bs" "distinct (map fst (bs ! map_hash k key))"
    "e \<in> set (bs ! i) \<Longrightarrow> i < length bs \<Longrightarrow> map_hash k (fst e) = i"
  using assms map_hash_less [of k key] by (auto simp: buckets_ok_def)

lemma length_concat_update:
  "i < length bs \<Longrightarrow> length (concat (bs[i := x])) + length (bs ! i) = length (concat bs) + length x"
proof (induction bs arbitrary: i)
  case (Cons b bs)
  then show ?case by (cases i) auto
qed simp

lemma buckets_ok_update:
  assumes "buckets_ok k bs" and "i < length bs" and "distinct (map fst es)"
    and "\<And>e. e \<in> set es \<Longrightarrow> map_hash k (fst e) = i"
  shows "buckets_ok k (bs[i := es])"
  using assms by (auto simp: buckets_ok_def nth_list_update)

lemma buckets_lookup_update:
  assumes "buckets_ok k bs" and "map_of es = (map_of (bs ! i))(key := r)" and "i = map_hash k key"
  shows "buckets_lookup k (bs[i := es]) = (buckets_lookup k bs)(key := r)"
  using buckets_ok_cell(1) [OF assms(1)] assms(2,3)
  by (auto simp: buckets_lookup_def fun_eq_iff nth_list_update)

text \<open>The entries of the buckets are the graph of the map.\<close>

lemma entries_lookup:
  assumes "buckets_ok k bs"
  shows "(key, v) \<in> set (concat bs) \<longleftrightarrow> buckets_lookup k bs key = Some v"
proof
  assume "(key, v) \<in> set (concat bs)"
  then obtain b where "b \<in> set bs" "(key, v) \<in> set b" by auto
  then obtain i where i: "i < length bs" "(key, v) \<in> set (bs ! i)" by (metis in_set_conv_nth)
  with buckets_ok_cell(3) [OF assms i(2,1)] buckets_ok_cell(2) [OF assms, of key]
  show "buckets_lookup k bs key = Some v" by (simp add: buckets_lookup_def)
next
  assume "buckets_lookup k bs key = Some v"
  then have "(key, v) \<in> set (bs ! map_hash k key)" by (simp add: buckets_lookup_def map_of_SomeD)
  with buckets_ok_cell(1) [OF assms, of key] show "(key, v) \<in> set (concat bs)" by auto
qed

lemma entries_distinct:
  assumes "buckets_ok k bs"
  shows "distinct (map fst (concat bs))"
proof -
  have d: "distinct (map fst (concat (take n bs)))" if "n \<le> length bs" for n
    using that
  proof (induction n)
    case (Suc n)
    have n: "n < length bs" using Suc.prems by simp
    have "map_hash k x \<noteq> n" if x: "x \<in> set (map fst (concat (take n bs)))" for x
    proof -
      obtain b where "b \<in> set (take n bs)" "x \<in> fst ` set b" using x by auto
      moreover from this obtain i where "i < n" "b = bs ! i" using n by (auto simp: in_set_conv_nth [of b])
      ultimately have "i < n" "x \<in> fst ` set (bs ! i)" by simp_all
      with buckets_ok_cell(3) [OF assms, of _ i] n show ?thesis by auto
    qed
    moreover have "map_hash k x = n" if x: "x \<in> set (map fst (bs ! n))" for x
      using x buckets_ok_cell(3) [OF assms _ n] by auto
    moreover have "distinct (map fst (bs ! n))" using assms n by (simp add: buckets_ok_def)
    ultimately show ?case using Suc.IH n by (auto simp: take_Suc_snoc)
  qed simp
  from d [OF order_refl] show ?thesis by simp
qed

section \<open>Rehashing\<close>

lemma rehash_loop:
  assumes k: "0 < k" "k \<le> 30" and "length bs = 2 ^ k"
  shows "\<exists>bs'. for_each es (rehash_entry (64 - k)) bs = Inr bs' \<and> length bs' = 2 ^ k \<and>
    length (concat bs') = length es + length (concat bs) \<and>
    (\<forall>i < 2 ^ k. bs' ! i = rev (filter (\<lambda>e. map_hash k (fst e) = i) es) @ bs ! i)"
  using assms(3)
proof (induction es arbitrary: bs)
  case (Cons e es)
  let ?h = "map_hash k (fst e)"
  have h: "?h < 2 ^ k" using map_hash_less [of k "fst e"] k by simp
  let ?bs = "bs[?h := e # bs ! ?h]"
  have step: "rehash_entry (64 - k) e bs = Inr ?bs"
    using h Cons.prems by (simp add: rehash_entry_def bucket_index_ok [OF k])
  have "length (concat ?bs) = Suc (length (concat bs))"
    using length_concat_update [of ?h bs "e # bs ! ?h"] h Cons.prems by simp
  moreover obtain bs' where "for_each es (rehash_entry (64 - k)) ?bs = Inr bs'" "length bs' = 2 ^ k"
    "length (concat bs') = length es + length (concat ?bs)"
    "\<forall>i < 2 ^ k. bs' ! i = rev (filter (\<lambda>e. map_hash k (fst e) = i) es) @ ?bs ! i"
    using Cons.IH [of ?bs] Cons.prems by auto
  ultimately show ?case using step h Cons.prems
    by (intro exI [of _ bs']) (auto simp: nth_list_update)
qed simp

lemma rehash_buckets:
  assumes k: "0 < k" "k \<le> 30" and d: "distinct (map fst es)"
  shows "\<exists>bs. for_each es (rehash_entry (64 - k)) (replicate (2 ^ k) []) = Inr bs \<and> buckets_ok k bs \<and>
    length (concat bs) = length es \<and> buckets_lookup k bs = map_of es"
proof -
  obtain bs where bs: "for_each es (rehash_entry (64 - k)) (replicate (2 ^ k) []) = Inr bs" "length bs = 2 ^ k"
    "length (concat bs) = length es + length (concat (replicate (2 ^ k) ([] :: (u64 \<times> 'a) list)))"
    "\<forall>i < 2 ^ k. bs ! i = rev (filter (\<lambda>e. map_hash k (fst e) = i) es)"
    using rehash_loop [OF k, of "replicate (2 ^ k) []" es] by auto
  have len: "length (concat bs) = length es" using bs(3) by (simp add: sum_list_triv)
  have fd: "distinct (map fst (filter P es))" for P using d by (simp add: distinct_map_filter)
  then have rd: "distinct (map fst (rev (filter P es)))" for P by (metis distinct_rev rev_map)
  then have ok: "buckets_ok k bs" using bs(2,4) k by (auto simp: buckets_ok_def)
  have "buckets_lookup k bs key = map_of es key" for key
  proof -
    have "bs ! map_hash k key = rev (filter (\<lambda>e. map_hash k (fst e) = map_hash k key) es)"
      using bs(4) map_hash_less [of k key] k by simp
    then have "buckets_lookup k bs key = Some v \<longleftrightarrow> map_of es key = Some v" for v
      using d map_of_eq_Some_iff [OF rd, of "\<lambda>e. map_hash k (fst e) = map_hash k key" key v]
      by (auto simp: buckets_lookup_def)
    then show ?thesis by (metis not_Some_eq)
  qed
  with bs(1) ok len show ?thesis by blast
qed

lemma next_pow_sint_le:
  assumes "0 < c" and "c \<le> 2 ^ 30"
  shows "\<exists>j \<le> 30. sint (flecs_next_pow_of_2 (word_of_nat c)) = 2 ^ j \<and> (2 :: nat) ^ j \<le> 2 ^ 30"
  using next_pow_sint [OF assms] by (meson one_le_numeral power_increasing)

lemma bucket_count_pow:
  assumes "c \<le> 2 ^ 30"
  shows "\<exists>k. 0 < k \<and> k \<le> 30 \<and> (let n = sint (flecs_next_pow_of_2 (word_of_int (int c)))
    in if n < 2 then 2 else nat n) = 2 ^ k"
proof (cases "c = 0")
  case True
  then show ?thesis by (intro exI [of _ 1]) simp
next
  case False
  then obtain j where j: "j \<le> 30" and s: "sint (flecs_next_pow_of_2 (word_of_nat c)) = 2 ^ j"
    using next_pow_sint_le [of c] assms by auto
  show ?thesis
  proof (cases "j = 0")
    case True
    then show ?thesis using s by (intro exI [of _ 1]) (simp add: Let_def)
  next
    case False
    then have "(2 :: int) ^ 1 \<le> 2 ^ j" by (intro power_increasing) auto
    then show ?thesis using s False j by (intro exI [of _ j]) (simp add: Let_def nat_power_eq)
  qed
qed

lemma rehash_ok:
  assumes d: "distinct (map fst (concat (take (map_bucket_count m) (map_buckets m))))" and c: "c \<le> 2 ^ 30"
  shows "\<exists>m'. flecs_map_rehash m (int c) = Inr m' \<and> buckets_ok (map_bits m') (map_buckets m') \<and>
    map_bucket_shift m' = 64 - map_bits m' \<and> map_bucket_count m' = 2 ^ map_bits m' \<and>
    length (concat (map_buckets m')) = length (concat (take (map_bucket_count m) (map_buckets m))) \<and>
    map_lookup m' = map_of (concat (take (map_bucket_count m) (map_buckets m))) \<and>
    map_count m' = map_count m \<and> map_change_count m' = map_change_count m \<and>
    map_last_iterated m' = map_last_iterated m"
proof -
  obtain k where k: "0 < k" "k \<le> 30" "(let n = sint (flecs_next_pow_of_2 (word_of_int (int c)))
    in if n < 2 then 2 else nat n) = 2 ^ k" using bucket_count_pow [OF c] by blast
  obtain bs where bs: "for_each (concat (take (map_bucket_count m) (map_buckets m))) (rehash_entry (64 - k))
      (replicate (2 ^ k) []) = Inr bs" "buckets_ok k bs"
    "length (concat bs) = length (concat (take (map_bucket_count m) (map_buckets m)))"
    "buckets_lookup k bs = map_of (concat (take (map_bucket_count m) (map_buckets m)))"
    using rehash_buckets [OF k(1,2) d] by blast
  let ?m = "m\<lparr>map_buckets := bs, map_bucket_count := 2 ^ k, map_bucket_shift := 64 - k\<rparr>"
  have "flecs_map_rehash m (int c) = Inr ?m"
    unfolding flecs_map_rehash_def
    by (simp only: Let_def k(3) [unfolded Let_def] bucket_shift_ok [OF k(1,2)] bs(1) bindr_Inr)
  moreover have "map_bits ?m = k" using k by (simp add: map_bits_def)
  ultimately show ?thesis using bs by (intro exI [of _ ?m]) (simp add: map_lookup_def)
qed

section \<open>The operations on well-formed maps\<close>

lemma get_bucket_ok:
  assumes "buckets_ok (map_bits m) (map_buckets m)" "map_bucket_shift m = 64 - map_bits m"
    "map_bucket_count m = 2 ^ map_bits m"
  shows "flecs_map_get_bucket m key = Inr (map_hash (map_bits m) key)"
proof -
  have k: "0 < map_bits m" "map_bits m \<le> 30" using assms(1) by (simp_all add: buckets_ok_def)
  then show ?thesis
    using assms bucket_index_ok [OF k, of key] map_hash_less [of "map_bits m" key]
    by (simp add: flecs_map_get_bucket_def buckets_ok_def)
qed

lemma map_wfD:
  assumes "map_wf m"
  shows "buckets_ok (map_bits m) (map_buckets m)" "flecs_map_get_bucket m key = Inr (map_hash (map_bits m) key)"
    "map_count m = length (concat (map_buckets m))" "take (map_bucket_count m) (map_buckets m) = map_buckets m"
  using assms get_bucket_ok [of m key] by (auto simp: map_wf_def buckets_ok_def)

lemma map_wf_init: "map_wf m \<Longrightarrow> ecs_map_is_init m"
  by (auto simp: map_wf_def buckets_ok_def ecs_map_is_init_def map_bits_def)

lemma map_get_ok [simp]: "map_wf m \<Longrightarrow> ecs_map_get m key = Inr (map_lookup m key)"
  by (simp add: ecs_map_get_def map_wfD map_lookup_def buckets_lookup_def)

lemma map_get_deref_ok:
  "map_wf m \<Longrightarrow> ecs_map_get_deref z m k = Inr (case map_lookup m k of Some v \<Rightarrow> v | None \<Rightarrow> z)"
  by (simp add: ecs_map_get_deref_def map_wfD map_lookup_def buckets_lookup_def)

lemma map_init_ok: "\<exists>m :: 'v ecs_map_t. ecs_map_init = Inr m \<and> map_wf m \<and> map_lookup m = Map.empty \<and> map_count m = 0"
  using rehash_ok [of "zero_map :: 'v ecs_map_t" 0]
  by (auto simp: ecs_map_init_def zero_map_def map_wf_def)

lemma target_count:
  assumes "c < 2 ^ 26"
  shows "\<exists>t. flecs_map_get_bucket_count (int c) = int t \<and> t \<le> 2 ^ 30"
proof -
  have le: "c * 12 div 10 \<le> 2 ^ 30" using assms by simp
  have "\<exists>t. sint (flecs_next_pow_of_2 (word_of_nat (c * 12 div 10))) = int t \<and> t \<le> 2 ^ 30"
  proof (cases "c * 12 div 10 = 0")
    case True
    then show ?thesis by (intro exI [of _ 0]) (simp only: of_nat_0 flecs_next_pow_of_2_0, simp)
  next
    case False
    then obtain j where "sint (flecs_next_pow_of_2 (word_of_nat (c * 12 div 10))) = 2 ^ j" "(2 :: nat) ^ j \<le> 2 ^ 30"
      using next_pow_sint_le [OF _ le] by blast
    then show ?thesis by (intro exI [of _ "2 ^ j"]) (simp only: of_nat_power of_nat_numeral)
  qed
  moreover have "int c * 12 div 10 = int (c * 12 div 10)" by (simp add: zdiv_int)
  ultimately show ?thesis by (simp add: flecs_map_get_bucket_count_def)
qed

lemma map_of_entries: "map_wf m \<Longrightarrow> map_of (concat (map_buckets m)) = map_lookup m"
proof
  fix x assume "map_wf m"
  note W = map_wfD [OF this]
  have "map_of (concat (map_buckets m)) x = Some y \<longleftrightarrow> map_lookup m x = Some y" for y
    using map_of_eq_Some_iff [OF entries_distinct [OF W(1)], of x y] entries_lookup [OF W(1), of x y]
    by (simp add: map_lookup_def)
  then show "map_of (concat (map_buckets m)) x = map_lookup m x" by (metis not_Some_eq)
qed

lemma add_entry_ok:
  assumes wf: "map_wf m" and new: "map_lookup m key = None" and room: "map_count m + 1 < 2 ^ 26"
  shows "\<exists>m'. map_add_entry m key v = Inr m' \<and> map_wf m' \<and> map_lookup m' = (map_lookup m)(key \<mapsto> v) \<and>
    map_count m' = map_count m + 1"
proof -
  note W = map_wfD [OF wf]
  define c where "c = map_count m + 1"
  let ?m = "m\<lparr>map_count := c\<rparr>"
  obtain t where t: "flecs_map_get_bucket_count (int c) = int t" "t \<le> 2 ^ 30"
    using target_count [of c] room by (auto simp: c_def)
  have bits: "map_bits ?m = map_bits m" by (simp add: map_bits_def)
  note ent = map_of_entries [OF wf]
  obtain n where n: "(if flecs_map_get_bucket_count (int c) > int (map_bucket_count ?m)
      then flecs_map_rehash ?m (flecs_map_get_bucket_count (int c)) else Inr ?m) = Inr n"
    "buckets_ok (map_bits n) (map_buckets n)" "map_bucket_shift n = 64 - map_bits n"
    "map_bucket_count n = 2 ^ map_bits n" "length (concat (map_buckets n)) = map_count m"
    "map_lookup n = map_lookup m" "map_count n = c"
  proof (cases "int t > int (map_bucket_count m)")
    case True
    have "distinct (map fst (concat (take (map_bucket_count ?m) (map_buckets ?m))))"
      using entries_distinct [OF W(1)] W(4) by simp
    from rehash_ok [OF this t(2)] obtain m' where "flecs_map_rehash ?m (int t) = Inr m'"
      "buckets_ok (map_bits m') (map_buckets m')" "map_bucket_shift m' = 64 - map_bits m'"
      "map_bucket_count m' = 2 ^ map_bits m'" "length (concat (map_buckets m')) = map_count m"
      "map_lookup m' = map_lookup m" "map_count m' = c" using W(3,4) ent by auto
    with True t(1) that show ?thesis by simp
  next
    case False
    have "map_lookup ?m = map_lookup m" by (simp add: map_lookup_def bits)
    with False t(1) wf that [of ?m] show ?thesis by (simp add: map_wf_def bits)
  qed
  let ?h = "map_hash (map_bits n) key"
  let ?es = "(key, v) # map_buckets n ! ?h"
  let ?n = "n\<lparr>map_buckets := (map_buckets n)[?h := ?es], map_change_count := map_change_count n + 1\<rparr>"
  have cm: "(map_count m + 1) mod 2 ^ 26 = c" using room by (simp add: c_def)
  have run: "map_add_entry m key v = Inr ?n"
  proof -
    have "map_count ?m = c" by simp
    then show ?thesis
      by (simp only: map_add_entry_def Let_def cm n(1) bindr_Inr get_bucket_ok [OF n(2-4)] flecs_map_bucket_add_def)
  qed
  have fresh: "key \<notin> fst ` set (map_buckets n ! ?h)"
  proof -
    have "map_lookup n key = None" using new n(6) by simp
    then show ?thesis by (simp add: map_lookup_def buckets_lookup_def map_of_eq_None_iff)
  qed
  have ok: "buckets_ok (map_bits n) (map_buckets ?n)"
  proof -
    have "map_hash (map_bits n) (fst e) = ?h" if "e \<in> set ?es" for e
      using that buckets_ok_cell(3) [OF n(2) _ buckets_ok_cell(1) [OF n(2)], of e key] by auto
    then show ?thesis
      using buckets_ok_update [OF n(2) buckets_ok_cell(1) [OF n(2)], of ?es key] buckets_ok_cell(2) [OF n(2)] fresh
      by simp
  qed
  have look: "map_lookup ?n = (map_lookup m)(key \<mapsto> v)"
    using buckets_lookup_update [OF n(2), of ?es ?h key "Some v"] n(6)
    by (simp add: map_lookup_def map_bits_def)
  have "length (concat (map_buckets ?n)) = c"
    using length_concat_update [of ?h "map_buckets n" ?es] buckets_ok_cell(1) [OF n(2)] n(5) by (simp add: c_def)
  moreover have "map_bits ?n = map_bits n" by (simp add: map_bits_def)
  ultimately have "map_wf ?n" using ok n(3,4,7) room by (simp add: map_wf_def c_def)
  with run look n(7) show ?thesis by (intro exI [of _ ?n]) (simp add: c_def)
qed

lemma map_insert_ok:
  assumes "map_wf m" and "map_lookup m key = None" and "map_count m + 1 < 2 ^ 26"
  shows "\<exists>m'. ecs_map_insert m key v = Inr m' \<and> map_wf m' \<and> map_lookup m' = (map_lookup m)(key \<mapsto> v) \<and>
    map_count m' = map_count m + 1"
  using add_entry_ok [OF assms] assms by (simp add: ecs_map_insert_def)

lemma map_ensure_ok:
  assumes "map_wf m" and "map_count m + 1 < 2 ^ 26"
  shows "\<exists>m'. ecs_map_ensure z m key = Inr m' \<and> map_wf m' \<and>
    map_lookup m' = (case map_lookup m key of None \<Rightarrow> (map_lookup m)(key \<mapsto> z) | Some v \<Rightarrow> map_lookup m)"
  using add_entry_ok [OF assms(1) _ assms(2), of key z] assms(1)
  by (auto simp: ecs_map_ensure_def split: option.split)

lemma map_of_filter_key: "map_of (filter (\<lambda>e. fst e \<noteq> key) es) = (map_of es)(key := None)"
  by (induction es) auto

lemma filter_key_length:
  "distinct (map fst es) \<Longrightarrow> (key, v) \<in> set es \<Longrightarrow> length (filter (\<lambda>e. fst e = key) es) = 1"
proof (induction es)
  case (Cons e es)
  have "filter (\<lambda>e. fst e = key) es = []" if "fst e = key"
  proof (rule filter_False, rule ballI)
    fix x assume "x \<in> set es"
    then have "fst x \<in> fst ` set es" by simp
    moreover have "fst e \<notin> fst ` set es" using Cons.prems(1) by simp
    ultimately show "fst x \<noteq> key" using that by metis
  qed
  with Cons show ?case by auto
qed simp

lemma map_of_store: "map_of es key \<noteq> None \<Longrightarrow>
    map_of (map (\<lambda>e. if fst e = key then (key, v) else e) es) = (map_of es)(key \<mapsto> v)"
proof -
  have "map_of (map (\<lambda>e. if fst e = key then (key, v) else e) es) x =
      (if x = key then (case map_of es key of None \<Rightarrow> None | Some _ \<Rightarrow> Some v) else map_of es x)" for x
    by (induction es) (auto split: option.split)
  moreover assume "map_of es key \<noteq> None"
  ultimately show ?thesis by (auto simp: fun_eq_iff)
qed

lemma map_remove_ok:
  assumes wf: "map_wf m"
  shows "\<exists>m'. ecs_map_remove m key = Inr (m', map_lookup m key) \<and> map_wf m' \<and>
    map_lookup m' = (map_lookup m)(key := None) \<and>
    map_count m' = (if map_lookup m key = None then map_count m else map_count m - 1)"
proof -
  define n where "n = (if map_last_iterated m \<noteq> key then m\<lparr>map_change_count := map_change_count m + 1\<rparr> else m)"
  have n: "map_wf n" "map_lookup n = map_lookup m" "map_count n = map_count m"
    using wf by (auto simp: n_def map_wf_def map_lookup_def map_bits_def)
  note W = map_wfD [OF n(1)]
  let ?h = "map_hash (map_bits n) key"
  let ?b = "map_buckets n ! ?h"
  let ?es = "filter (\<lambda>e. fst e \<noteq> key) ?b"
  note cell = buckets_ok_cell [OF W(1)]
  have rm: "flecs_map_bucket_remove ?b key = (?es, map_lookup m key)"
  proof -
    have "map_of ?b key = map_lookup n key" by (simp add: map_lookup_def buckets_lookup_def)
    then show ?thesis using bucket_remove_eq [OF cell(2), of key key] n(2) by simp
  qed
  show ?thesis
  proof (cases "map_lookup m key")
    case None
    then have "(map_lookup m)(key := None) = map_lookup m" by auto
    moreover have "ecs_map_remove m key = Inr (n, map_lookup m key)"
      by (simp only: ecs_map_remove_def Let_def n_def [symmetric] W(2) bindr_Inr rm prod.case None option.case)
    ultimately show ?thesis using None n by (intro exI [of _ n]) simp
  next
    case (Some v)
    let ?n = "n\<lparr>map_buckets := (map_buckets n)[?h := ?es], map_count := map_count n - 1\<rparr>"
    have "map_lookup n key = Some v" using Some n(2) by simp
    then have mem: "(key, v) \<in> set ?b" by (simp add: map_lookup_def buckets_lookup_def map_of_SomeD)
    have "Suc (length ?es) = length ?b"
    proof -
      have "length (filter (\<lambda>e. fst e = key) ?b) = 1"
        using filter_key_length [OF cell(2) mem] .
      then show ?thesis using sum_length_filter_compl [of "\<lambda>e. fst e = key" ?b] by simp
    qed
    then have len: "Suc (length (concat (map_buckets ?n))) = map_count n"
      using length_concat_update [OF cell(1), of key ?es] W(3) by simp
    have ok: "buckets_ok (map_bits n) (map_buckets ?n)"
      using buckets_ok_update [OF W(1) cell(1), of ?es key] cell by (auto simp: distinct_map_filter)
    have look: "map_lookup ?n = (map_lookup m)(key := None)"
      using buckets_lookup_update [OF W(1), of ?es ?h key None] n(2)
      by (simp add: map_lookup_def map_bits_def map_of_filter_key)
    have "map_bits ?n = map_bits n" by (simp add: map_bits_def)
    moreover have "length (concat (map_buckets ?n)) = map_count n - 1" using len by linarith
    moreover have "map_count n < 2 ^ 26" using n(1) unfolding map_wf_def by blast
    then have small: "map_count n - 1 < 2 ^ 26" by linarith
    ultimately have "map_wf ?n" using ok n(1) by (simp add: map_wf_def)
    moreover have "(map_count n + 2 ^ 26 - 1) mod 2 ^ 26 = map_count n - 1"
    proof -
      have "map_count n + 2 ^ 26 - 1 = map_count n - 1 + 2 ^ 26" using len by simp
      then have "(map_count n + 2 ^ 26 - 1) mod 2 ^ 26 = (map_count n - 1) mod 2 ^ 26" by (simp only: mod_add_self2)
      also have "\<dots> = map_count n - 1" using small by (rule mod_less)
      finally show ?thesis .
    qed
    then have "ecs_map_remove m key = Inr (?n, map_lookup m key)"
      by (simp only: ecs_map_remove_def Let_def n_def [symmetric] W(2) bindr_Inr rm prod.case Some option.case)
    ultimately show ?thesis using look n(3) Some by (intro exI [of _ ?n]) simp
  qed
qed

lemma map_store_ok:
  assumes wf: "map_wf m" and "map_lookup m key \<noteq> None"
  shows "\<exists>m'. ecs_map_store m key v = Inr m' \<and> map_wf m' \<and> map_lookup m' = (map_lookup m)(key \<mapsto> v) \<and>
    map_count m' = map_count m"
proof -
  note W = map_wfD [OF wf]
  let ?h = "map_hash (map_bits m) key"
  let ?b = "map_buckets m ! ?h"
  let ?es = "map (\<lambda>e. if fst e = key then (key, v) else e) ?b"
  note cell = buckets_ok_cell [OF W(1)]
  have fst: "map fst ?es = map fst ?b" by auto
  let ?n = "m\<lparr>map_buckets := (map_buckets m)[?h := ?es]\<rparr>"
  have key: "map_of ?b key \<noteq> None" using assms(2) by (simp add: map_lookup_def buckets_lookup_def)
  have run: "ecs_map_store m key v = Inr ?n"
    using W(2) key bucket_store_eq [OF cell(2)] by (simp add: ecs_map_store_def)
  have mo: "map_of ?es = (map_of ?b)(key \<mapsto> v)" using map_of_store [OF key] .
  have ok: "buckets_ok (map_bits m) (map_buckets ?n)"
  proof -
    have "map_hash (map_bits m) (fst e) = ?h" if "e \<in> set ?es" for e
    proof -
      have "fst e \<in> set (map fst ?es)" unfolding set_map [of fst ?es] using that by (rule imageI)
      then have "fst e \<in> set (map fst ?b)" unfolding fst .
      then obtain d where "d \<in> set ?b" "fst d = fst e" by auto
      then show ?thesis using cell(3) [OF _ cell(1), of d key] by simp
    qed
    moreover have "distinct (map fst ?es)" unfolding fst by (rule cell(2))
    ultimately have "buckets_ok (map_bits m) ((map_buckets m)[?h := ?es])"
      by (intro buckets_ok_update [OF W(1) cell(1)])
    moreover have "map_buckets ?n = (map_buckets m)[?h := ?es]" by simp
    ultimately show ?thesis by (simp only:)
  qed
  have "length (concat (map_buckets ?n)) = length (concat (map_buckets m))"
    using length_concat_update [OF cell(1), of key ?es] by simp
  then have "map_wf ?n" using ok wf by (simp add: map_wf_def map_bits_def)
  moreover have "map_lookup ?n = (map_lookup m)(key \<mapsto> v)"
    using buckets_lookup_update [OF W(1) mo refl] by (simp add: map_lookup_def map_bits_def)
  ultimately show ?thesis using run by (intro exI [of _ ?n]) simp
qed

lemma map_reclaim_ok:
  assumes wf: "map_wf m"
  shows "\<exists>m'. ecs_map_reclaim m = Inr m' \<and> map_wf m' \<and> map_lookup m' = map_lookup m \<and> map_count m' = map_count m"
proof -
  note W = map_wfD [OF wf]
  obtain t where t: "flecs_map_get_bucket_count (int (map_count m) - 1) = int t" "t \<le> 2 ^ 30"
  proof (cases "map_count m = 0")
    case True
    have "flecs_map_get_bucket_count (- 1) = int 0"
      by (simp add: flecs_map_get_bucket_count_def flecs_next_pow_of_2_def)
    with True that show ?thesis by simp
  next
    case False
    have "map_count m - 1 < 2 ^ 26" using wf by (auto simp: map_wf_def)
    from target_count [OF this] that False show ?thesis by (auto simp: of_nat_diff)
  qed
  have "distinct (map fst (concat (take (map_bucket_count m) (map_buckets m))))"
    using entries_distinct [OF W(1)] W(4) by simp
  from rehash_ok [OF this t(2)] obtain m' where
    "flecs_map_rehash m (int t) = Inr m'" "map_wf m'" "map_lookup m' = map_lookup m" "map_count m' = map_count m"
    using W(3,4) map_of_entries [OF wf] wf by (auto simp: map_wf_def)
  then show ?thesis using t(1) wf by (auto simp: ecs_map_reclaim_def)
qed

lemma map_clear_ok:
  "\<exists>m'. ecs_map_clear m = Inr m' \<and> map_wf m' \<and> map_lookup m' = Map.empty \<and> map_count m' = 0"
proof -
  let ?m = "m\<lparr>map_buckets := [], map_bucket_count := 0, map_count := 0\<rparr>"
  obtain n where "flecs_map_rehash ?m (int 2) = Inr n" "map_wf n" "map_lookup n = Map.empty" "map_count n = 0"
    using rehash_ok [of ?m 2] by (auto simp: map_wf_def)
  moreover from this have "map_wf (n\<lparr>map_change_count := map_change_count n + 1\<rparr>)"
    "map_lookup (n\<lparr>map_change_count := map_change_count n + 1\<rparr>) = Map.empty"
    by (auto simp: map_wf_def map_lookup_def map_bits_def)
  ultimately show ?thesis by (simp add: ecs_map_clear_def)
qed

lemma map_count_card:
  assumes wf: "map_wf m"
  shows "finite (dom (map_lookup m))" "map_count m = card (dom (map_lookup m))"
proof -
  note W = map_wfD [OF wf]
  have dom: "dom (map_lookup m) = set (map fst (concat (map_buckets m)))"
    unfolding map_of_entries [OF wf, symmetric] by (simp only: dom_map_of_conv_image_fst set_map)
  then show "finite (dom (map_lookup m))" by (simp only: finite_set)
  have "map_count m = length (map fst (concat (map_buckets m)))" using W(3) by (simp only: length_map)
  then show "map_count m = card (dom (map_lookup m))"
    unfolding dom by (simp only: distinct_card [OF entries_distinct [OF W(1)]])
qed

section \<open>The map interface\<close>

text \<open>
  What the clients of a map rely on: a finite map from keys to values that \<open>get\<close> reads, \<open>ensure\<close>
  extends by a zero value, \<open>store\<close> writes through the pointer of an existing entry, and \<open>remove\<close>
  shrinks.  The number of entries is bounded by a capacity.
\<close>

locale value_map =
  fixes wf :: "'m \<Rightarrow> bool"
    and look :: "'m \<Rightarrow> 'k \<Rightarrow> 'v option"
    and get :: "'m \<Rightarrow> 'k \<Rightarrow> 'v option res"
    and ensure :: "'m \<Rightarrow> 'k \<Rightarrow> 'm res"
    and store :: "'m \<Rightarrow> 'k \<Rightarrow> 'v \<Rightarrow> 'm res"
    and remove :: "'m \<Rightarrow> 'k \<Rightarrow> ('m \<times> 'v option) res"
    and zero :: 'v
    and cap :: nat
  assumes get_law: "wf m \<Longrightarrow> get m k = Inr (look m k)"
    and ensure_law: "wf m \<Longrightarrow> card (dom (look m)) + 1 < cap \<Longrightarrow> \<exists>m'. ensure m k = Inr m' \<and> wf m' \<and>
      look m' = (case look m k of None \<Rightarrow> (look m)(k \<mapsto> zero) | Some v \<Rightarrow> look m)"
    and store_law: "wf m \<Longrightarrow> look m k \<noteq> None \<Longrightarrow>
      \<exists>m'. store m k v = Inr m' \<and> wf m' \<and> look m' = (look m)(k \<mapsto> v)"
    and remove_law: "wf m \<Longrightarrow> \<exists>m'. remove m k = Inr (m', look m k) \<and> wf m' \<and> look m' = (look m)(k := None)"
    and finite_law: "wf m \<Longrightarrow> finite (dom (look m))"
begin

text \<open>Ensure and then write the value: an update of the finite map.\<close>

lemma put_law:
  assumes "wf m" and "card (dom (look m)) + 1 < cap"
  shows "\<exists>m1 m'. ensure m k = Inr m1 \<and> store m1 k v = Inr m' \<and> wf m' \<and> look m' = (look m)(k \<mapsto> v)"
proof -
  obtain m1 where m1: "ensure m k = Inr m1" "wf m1"
    "look m1 = (case look m k of None \<Rightarrow> (look m)(k \<mapsto> zero) | Some v \<Rightarrow> look m)"
    using ensure_law [OF assms] by blast
  then have "look m1 k \<noteq> None" "(look m1)(k \<mapsto> v) = (look m)(k \<mapsto> v)" by (auto split: option.split)
  with store_law [OF m1(2)] m1(1) show ?thesis by metis
qed

text \<open>The value that \<open>ensure\<close> leaves to be read: the old one, or zero.\<close>

lemma ensure_get:
  assumes "wf m" and "card (dom (look m)) + 1 < cap"
  shows "\<exists>m1. ensure m k = Inr m1 \<and> wf m1 \<and> get m1 k = Inr (Some (case look m k of None \<Rightarrow> zero | Some v \<Rightarrow> v)) \<and>
    (\<forall>j. j \<noteq> k \<longrightarrow> look m1 j = look m j)"
proof -
  obtain m1 where m1: "ensure m k = Inr m1" "wf m1"
    "look m1 = (case look m k of None \<Rightarrow> (look m)(k \<mapsto> zero) | Some v \<Rightarrow> look m)"
    using ensure_law [OF assms] by blast
  have "look m1 k = Some (case look m k of None \<Rightarrow> zero | Some v \<Rightarrow> v)" and same: "\<forall>j. j \<noteq> k \<longrightarrow> look m1 j = look m j"
    unfolding m1(3) by (simp_all split: option.split)
  then have "get m1 k = Inr (Some (case look m k of None \<Rightarrow> zero | Some v \<Rightarrow> v))" by (simp add: get_law [OF m1(2)])
  with same m1(1,2) show ?thesis by blast
qed

lemma remove_get:
  assumes "wf m"
  shows "\<exists>m'. remove m k = Inr (m', look m k) \<and> wf m' \<and> get m' j = Inr (if j = k then None else look m j)"
proof -
  obtain m' where m': "remove m k = Inr (m', look m k)" "wf m'" "look m' = (look m)(k := None)"
    using remove_law [OF assms] by blast
  have "get m' j = Inr (if j = k then None else look m j)" unfolding get_law [OF m'(2)] m'(3) by simp
  with m'(1,2) show ?thesis by blast
qed

end

interpretation emap: value_map map_wf map_lookup ecs_map_get "ecs_map_ensure z" ecs_map_store ecs_map_remove z "2 ^ 26"
  for z :: 'v
proof unfold_locales
  fix m :: "'v ecs_map_t" and k
  assume wf: "map_wf m" and room: "card (dom (map_lookup m)) + 1 < 2 ^ 26"
  show "\<exists>m'. ecs_map_ensure z m k = Inr m' \<and> map_wf m' \<and>
      map_lookup m' = (case map_lookup m k of None \<Rightarrow> (map_lookup m)(k \<mapsto> z) | Some v \<Rightarrow> map_lookup m)"
    by (rule map_ensure_ok [OF wf room [folded map_count_card(2) [OF wf]]])
next
  fix m :: "'v ecs_map_t" and k v
  assume "map_wf m" and "map_lookup m k \<noteq> None"
  then show "\<exists>m'. ecs_map_store m k v = Inr m' \<and> map_wf m' \<and> map_lookup m' = (map_lookup m)(k \<mapsto> v)"
    using map_store_ok [of m k v] by auto
next
  fix m :: "'v ecs_map_t" and k
  assume "map_wf m"
  then show "\<exists>m'. ecs_map_remove m k = Inr (m', map_lookup m k) \<and> map_wf m' \<and> map_lookup m' = (map_lookup m)(k := None)"
    using map_remove_ok [of m k] by auto
qed (simp_all add: map_count_card(1))

end
