(* ===== verification/Map_Iteration.thy ===== *)
theory Map_Iteration
  imports Ecs_Map
begin

text \<open>
  Iteration over the hash map of \<open>src/datastructures/map.c\<close>, its copy, and the properties of the map: it
  implements a finite map, its iterator visits every entry once and notices modifications, and a copy is
  an equal map.
\<close>

section \<open>The iterator\<close>

text \<open>The entries that an iterator has still to visit.\<close>

definition map_rest :: "'v ecs_map_t \<Rightarrow> 'v ecs_map_iter_t \<Rightarrow> (u64 \<times> 'v) list" where
  "map_rest m it =
     (if \<not> it_init it then []
      else case it_bucket it of
          None \<Rightarrow> concat (map_buckets m)
        | Some b \<Rightarrow> it_entry it @ concat (drop (Suc b) (map_buckets m)))"

definition it_ok :: "'v ecs_map_t \<Rightarrow> 'v ecs_map_iter_t \<Rightarrow> bool" where
  "it_ok m it \<longleftrightarrow> map_bucket_count m = length (map_buckets m) \<and>
     (it_init it \<longrightarrow> map_change_count m = it_change_count it \<and>
        (case it_bucket it of None \<Rightarrow> True
         | Some b \<Rightarrow> b \<le> map_bucket_count m \<and> (b = map_bucket_count m \<longrightarrow> it_entry it = []) \<and>
             (b < map_bucket_count m \<longrightarrow> (\<exists>pre. map_buckets m ! b = pre @ it_entry it))))"

text \<open>The iterator has just passed the entry \<open>e\<close>.\<close>

definition it_at :: "'v ecs_map_t \<Rightarrow> 'v ecs_map_iter_t \<Rightarrow> u64 \<times> 'v \<Rightarrow> bool" where
  "it_at m it e \<longleftrightarrow> it_init it \<and> (\<exists>b pre. it_bucket it = Some b \<and> b < length (map_buckets m) \<and>
     map_buckets m ! b = pre @ e # it_entry it)"

lemma concat_drop_empty:
  assumes "\<And>j. b \<le> j \<Longrightarrow> j < c \<Longrightarrow> bs ! j = []" and "b \<le> c" and "c \<le> length bs"
  shows "concat (drop b bs) = concat (drop c bs)"
  using assms(2)
proof (induction rule: inc_induct)
  case (step n)
  have "drop n bs = bs ! n # drop (Suc n) bs" using step.hyps assms(3) by (simp add: Cons_nth_drop_Suc)
  with step assms(1) [of n] show ?case by simp
qed simp

lemma next_bucket_rest:
  assumes "map_bucket_count m = length (map_buckets m)" and "b \<le> map_bucket_count m"
  shows "next_bucket m b \<le> map_bucket_count m"
    and "next_bucket m b = map_bucket_count m \<Longrightarrow> concat (drop b (map_buckets m)) = []"
    and "next_bucket m b \<noteq> map_bucket_count m \<Longrightarrow> map_buckets m ! next_bucket m b \<noteq> [] \<and>
      concat (drop b (map_buckets m)) =
        map_buckets m ! next_bucket m b @ concat (drop (Suc (next_bucket m b)) (map_buckets m))"
proof -
  let ?f = "find_from b (map_bucket_count m) (\<lambda>i. map_buckets m ! i \<noteq> [])"
  have none: "concat (drop b (map_buckets m)) = []" if "?f = None"
    using concat_drop_empty [of b "map_bucket_count m" "map_buckets m"] that assms by (simp add: find_from_None)
  have some: "i < map_bucket_count m \<and> map_buckets m ! i \<noteq> [] \<and>
      concat (drop b (map_buckets m)) = map_buckets m ! i @ concat (drop (Suc i) (map_buckets m))"
    if "?f = Some i" for i
  proof -
    note F = find_from_Some [OF that]
    have "concat (drop b (map_buckets m)) = concat (drop i (map_buckets m))"
      using concat_drop_empty [of b i "map_buckets m"] F assms by auto
    moreover have "drop i (map_buckets m) = map_buckets m ! i # drop (Suc i) (map_buckets m)"
      using F assms by (simp add: Cons_nth_drop_Suc)
    ultimately show ?thesis using F by simp
  qed
  have nb: "next_bucket m b = (case ?f of None \<Rightarrow> map_bucket_count m | Some i \<Rightarrow> i)"
    by (simp add: next_bucket_def split: option.split)
  show "next_bucket m b \<le> map_bucket_count m"
    using some unfolding nb by (cases ?f) fastforce+
  show "next_bucket m b = map_bucket_count m \<Longrightarrow> concat (drop b (map_buckets m)) = []"
    using some none unfolding nb by (cases ?f) fastforce+
  show "next_bucket m b \<noteq> map_bucket_count m \<Longrightarrow> map_buckets m ! next_bucket m b \<noteq> [] \<and>
      concat (drop b (map_buckets m)) =
        map_buckets m ! next_bucket m b @ concat (drop (Suc (next_bucket m b)) (map_buckets m))"
    using some unfolding nb by (cases ?f) simp_all
qed

lemma map_next_entry_ok:
  assumes "es \<noteq> []" and "map_bucket_count m = length (map_buckets m)" and "map_change_count m = it_change_count it"
    and "it_init it" and "it_bucket it = Some b" and "b < map_bucket_count m" and "map_buckets m ! b = pre @ es"
  shows "\<exists>it'. map_next_entry m it es = Inr (m\<lparr>map_last_iterated := fst (hd es)\<rparr>, it', Some (hd es)) \<and>
    it_ok m it' \<and> map_rest m it' = tl es @ concat (drop (Suc b) (map_buckets m)) \<and> it_at m it' (hd es)"
proof (cases es)
  case (Cons e es')
  then have "map_buckets m ! b = (pre @ [e]) @ es'" using assms(7) by simp
  then have "\<exists>pre. map_buckets m ! b = pre @ es'" by blast
  with Cons assms show ?thesis by (auto simp: map_next_entry_def it_ok_def map_rest_def it_at_def)
qed (use assms(1) in simp)

lemma map_next_scan:
  assumes ok: "it_ok m it" and init: "it_init it" and b: "b \<le> map_bucket_count m"
    and rest: "map_rest m it = concat (drop b (map_buckets m))"
  defines "c \<equiv> next_bucket m b"
  shows "if map_rest m it = []
    then c = map_bucket_count m
    else c \<noteq> map_bucket_count m \<and>
      (\<exists>it'. map_next_entry m (it\<lparr>it_bucket := Some c\<rparr>) (map_buckets m ! c) =
         Inr (m\<lparr>map_last_iterated := fst (hd (map_rest m it))\<rparr>, it', Some (hd (map_rest m it))) \<and>
         it_ok m it' \<and> map_rest m it' = tl (map_rest m it) \<and> it_at m it' (hd (map_rest m it)))"
proof -
  have len: "map_bucket_count m = length (map_buckets m)" using ok by (simp add: it_ok_def)
  note N = next_bucket_rest [OF len b, folded c_def rest]
  show ?thesis
  proof (cases "c = map_bucket_count m")
    case True
    then show ?thesis using N(2) by simp
  next
    case False
    then have c: "c < map_bucket_count m" "map_buckets m ! c \<noteq> []"
      "map_rest m it = map_buckets m ! c @ concat (drop (Suc c) (map_buckets m))" using N(1,3) by auto
    have "map_change_count m = it_change_count it" using ok init by (simp add: it_ok_def)
    with map_next_entry_ok [OF c(2) len, of "it\<lparr>it_bucket := Some c\<rparr>" c "[]"] c init False show ?thesis by simp
  qed
qed

lemma map_next_ok:
  assumes ok: "it_ok m it"
  shows "map_rest m it = [] \<Longrightarrow> \<exists>it'. ecs_map_next m it = Inr (m, it', None)"
    and "map_rest m it \<noteq> [] \<Longrightarrow>
      \<exists>it'. ecs_map_next m it = Inr (m\<lparr>map_last_iterated := fst (hd (map_rest m it))\<rparr>, it', Some (hd (map_rest m it))) \<and>
        it_ok m it' \<and> map_rest m it' = tl (map_rest m it) \<and> it_at m it' (hd (map_rest m it))"
proof -
  have "if map_rest m it = [] then \<exists>it'. ecs_map_next m it = Inr (m, it', None)
    else \<exists>it'. ecs_map_next m it = Inr (m\<lparr>map_last_iterated := fst (hd (map_rest m it))\<rparr>, it', Some (hd (map_rest m it))) \<and>
        it_ok m it' \<and> map_rest m it' = tl (map_rest m it) \<and> it_at m it' (hd (map_rest m it))"
  proof (cases "it_init it")
    case False
    then show ?thesis by (simp add: map_rest_def ecs_map_next_def)
  next
    case init: True
    have cc: "map_change_count m = it_change_count it" using ok init by (simp add: it_ok_def)
    show ?thesis
    proof (cases "it_bucket it")
      case None
      have "map_rest m it = concat (drop 0 (map_buckets m))" using init None by (simp add: map_rest_def)
      from map_next_scan [OF ok init _ this] None cc init show ?thesis
        by (auto simp: ecs_map_next_def Let_def split: if_splits)
    next
      case (Some b)
      show ?thesis
      proof (cases "b = map_bucket_count m")
        case True
        then have "map_rest m it = []" using ok init Some by (simp add: it_ok_def map_rest_def)
        then show ?thesis using Some True init cc by (simp add: ecs_map_next_def)
      next
        case False
        then have b: "b < map_bucket_count m" using ok init Some by (simp add: it_ok_def)
        show ?thesis
        proof (cases "it_entry it = []")
          case True
          then have "map_rest m it = concat (drop (Suc b) (map_buckets m))" using init Some by (simp add: map_rest_def)
          from map_next_scan [OF ok init _ this] Some cc init b True show ?thesis
            by (auto simp: ecs_map_next_def Let_def split: if_splits)
        next
          case False
          have "map_rest m it = it_entry it @ concat (drop (Suc b) (map_buckets m))" using init Some by (simp add: map_rest_def)
          moreover obtain pre where "map_buckets m ! b = pre @ it_entry it" using ok init Some b by (auto simp: it_ok_def)
          moreover have "map_bucket_count m = length (map_buckets m)" using ok by (simp add: it_ok_def)
          ultimately show ?thesis using map_next_entry_ok [OF False _ cc init Some b] False Some cc init b
            by (auto simp: ecs_map_next_def)
        qed
      qed
    qed
  qed
  then show "map_rest m it = [] \<Longrightarrow> \<exists>it'. ecs_map_next m it = Inr (m, it', None)"
    and "map_rest m it \<noteq> [] \<Longrightarrow>
      \<exists>it'. ecs_map_next m it = Inr (m\<lparr>map_last_iterated := fst (hd (map_rest m it))\<rparr>, it', Some (hd (map_rest m it))) \<and>
        it_ok m it' \<and> map_rest m it' = tl (map_rest m it) \<and> it_at m it' (hd (map_rest m it))" by simp_all
qed

lemma map_iter_ok:
  assumes "map_wf m"
  shows "it_ok m (ecs_map_iter m)" "map_rest m (ecs_map_iter m) = concat (map_buckets m)"
  using assms by (auto simp: map_wf_def buckets_ok_def map_bits_def it_ok_def ecs_map_iter_def ecs_map_is_init_def map_rest_def)

text \<open>The iteration does not see which entry was visited last.\<close>

lemma last_iterated_irrelevant [simp]:
  "it_ok (m\<lparr>map_last_iterated := l\<rparr>) it = it_ok m it"
  "it_at (m\<lparr>map_last_iterated := l\<rparr>) it e = it_at m it e"
  "map_rest (m\<lparr>map_last_iterated := l\<rparr>) it = map_rest m it"
  "map_wf (m\<lparr>map_last_iterated := l\<rparr>) = map_wf m"
  "map_lookup (m\<lparr>map_last_iterated := l\<rparr>) = map_lookup m"
  by (simp_all add: it_ok_def it_at_def map_rest_def map_wf_def map_lookup_def map_bits_def cong: option.case_cong)

text \<open>A loop whose body leaves the map alone is a loop over the remaining entries.\<close>

lemma map_loop_entries:
  assumes "it_ok m it" and "length (map_rest m it) < fuel"
  shows "\<exists>l. map_loop fuel (\<lambda>e m s. bindr (f e s) (\<lambda>s. Inr (m, s))) m it s =
    bindr (for_each (map_rest m it) f s) (\<lambda>s. Inr (Some (m\<lparr>map_last_iterated := l\<rparr>, s)))"
  using assms(1,2)
proof (induction fuel arbitrary: m it s)
  case (Suc n)
  show ?case
  proof (cases "map_rest m it")
    case Nil
    with map_next_ok(1) [OF Suc.prems(1)] obtain it' where "ecs_map_next m it = Inr (m, it', None)" by auto
    with Nil show ?thesis by (intro exI [of _ "map_last_iterated m"]) simp
  next
    case (Cons e es)
    let ?m = "m\<lparr>map_last_iterated := fst e\<rparr>"
    obtain it' where it': "ecs_map_next m it = Inr (?m, it', Some e)" "it_ok m it'" "map_rest m it' = es"
      using map_next_ok(2) [OF Suc.prems(1)] Cons by auto
    show ?thesis
    proof (cases "f e s")
      case (Inl x)
      with it' Cons show ?thesis by simp
    next
      case (Inr t)
      have "it_ok ?m it'" "length (map_rest ?m it') < n" using it' Suc.prems(2) Cons by simp_all
      from Suc.IH [OF this, of t] obtain l where "map_loop n (\<lambda>e m s. bindr (f e s) (\<lambda>s. Inr (m, s))) ?m it' t =
          bindr (for_each es f t) (\<lambda>s. Inr (Some (?m\<lparr>map_last_iterated := l\<rparr>, s)))"
        unfolding last_iterated_irrelevant it'(3) ..
      with it' Cons Inr show ?thesis by (intro exI [of _ l]) simp
    qed
  qed
qed simp

text \<open>
  A loop whose body may change the map under the iterator, as long as the entries that are still to come
  stay in place: an invariant over the remaining entries.
\<close>

lemma map_loop_rule:
  assumes "it_ok m it" and "I (map_rest m it) m s" and "length (map_rest m it) < fuel"
    and step: "\<And>e es m it s. I (e # es) m s \<Longrightarrow> it_ok m it \<Longrightarrow> map_rest m it = es \<Longrightarrow> it_at m it e \<Longrightarrow>
      \<exists>m' s'. body e (m\<lparr>map_last_iterated := fst e\<rparr>) s = Inr (m', s') \<and> it_ok m' it \<and> map_rest m' it = es \<and> I es m' s'"
  shows "\<exists>m' s'. map_loop fuel body m it s = Inr (Some (m', s')) \<and> I [] m' s'"
  using assms(1-3)
proof (induction fuel arbitrary: m it s)
  case (Suc n)
  show ?case
  proof (cases "map_rest m it")
    case Nil
    with map_next_ok(1) [OF Suc.prems(1)] obtain it' where "ecs_map_next m it = Inr (m, it', None)" by auto
    with Nil Suc.prems(2) show ?thesis by simp
  next
    case (Cons e es)
    let ?m = "m\<lparr>map_last_iterated := fst e\<rparr>"
    obtain it' where it': "ecs_map_next m it = Inr (?m, it', Some e)" "it_ok m it'" "map_rest m it' = es" "it_at m it' e"
      using map_next_ok(2) [OF Suc.prems(1)] Cons by auto
    from step [OF _ it'(2-4), of s] Suc.prems(2) Cons obtain m' s' where
      m': "body e ?m s = Inr (m', s')" "it_ok m' it'" "map_rest m' it' = es" "I es m' s'" by auto
    have "I (map_rest m' it') m' s'" "length (map_rest m' it') < n" using m' Suc.prems(3) Cons by simp_all
    from Suc.IH [OF m'(2) this] it'(1) m'(1) show ?thesis by simp
  qed
qed simp

text \<open>Removing the entry that was visited last is invisible to the iterator.\<close>

lemma map_remove_shape:
  assumes wf: "map_wf m" and run: "ecs_map_remove m k = Inr (m', r)"
  shows "map_buckets m' = (map_buckets m)[map_hash (map_bits m) k :=
      filter (\<lambda>e. fst e \<noteq> k) (map_buckets m ! map_hash (map_bits m) k)]"
    and "map_bucket_count m' = map_bucket_count m"
    and "map_change_count m' = (if map_last_iterated m \<noteq> k then map_change_count m + 1 else map_change_count m)"
proof -
  define n where "n = (if map_last_iterated m \<noteq> k then m\<lparr>map_change_count := map_change_count m + 1\<rparr> else m)"
  have n: "map_wf n" "map_buckets n = map_buckets m" "map_bits n = map_bits m" "map_bucket_count n = map_bucket_count m"
    "map_change_count n = (if map_last_iterated m \<noteq> k then map_change_count m + 1 else map_change_count m)"
    using wf by (auto simp: n_def map_wf_def map_bits_def)
  note W = map_wfD [OF n(1)]
  let ?b = "map_buckets m ! map_hash (map_bits m) k"
  have d: "distinct (map fst ?b)" using buckets_ok_cell(2) [OF W(1), of k] n(2,3) by simp
  have rm: "flecs_map_bucket_remove ?b k = (filter (\<lambda>e. fst e \<noteq> k) ?b, map_of ?b k)" using bucket_remove_eq [OF d] .
  have same: "filter (\<lambda>e. fst e \<noteq> k) ?b = ?b" if "map_of ?b k = None"
    using that by (intro filter_True) (auto simp: map_of_eq_None_iff image_iff)
  have "ecs_map_remove m k = (case map_of ?b k of None \<Rightarrow> Inr (n, None)
      | Some v \<Rightarrow> Inr (n\<lparr>map_buckets := (map_buckets m)[map_hash (map_bits m) k := filter (\<lambda>e. fst e \<noteq> k) ?b],
          map_count := (map_count n + 2 ^ 26 - 1) mod 2 ^ 26\<rparr>, Some v))"
    unfolding ecs_map_remove_def Let_def n_def [symmetric] W(2) bindr_Inr n(2,3) rm prod.case
    by (simp split: option.split)
  then show "map_buckets m' = (map_buckets m)[map_hash (map_bits m) k := filter (\<lambda>e. fst e \<noteq> k) ?b]"
    and "map_bucket_count m' = map_bucket_count m"
    and "map_change_count m' = (if map_last_iterated m \<noteq> k then map_change_count m + 1 else map_change_count m)"
    using run n same by (auto split: option.splits)
qed

lemma it_at_bucket:
  assumes "buckets_ok (map_bits m) (map_buckets m)" and "it_at m it (k, v)"
  obtains pre where "it_bucket it = Some (map_hash (map_bits m) k)"
    "map_buckets m ! map_hash (map_bits m) k = pre @ (k, v) # it_entry it"
    "k \<notin> fst ` set pre" "k \<notin> fst ` set (it_entry it)"
proof -
  obtain b pre where b: "it_bucket it = Some b" "b < length (map_buckets m)" "map_buckets m ! b = pre @ (k, v) # it_entry it"
    using assms(2) by (auto simp: it_at_def)
  have "map_hash (map_bits m) (fst (k, v)) = b" using buckets_ok_cell(3) [OF assms(1) _ b(2), of "(k, v)"] b(3) by simp
  then show thesis using that [of pre] b buckets_ok_cell(2) [OF assms(1), of k] by auto
qed

lemma it_ok_replace:
  assumes "it_ok m it" and "it_bucket it = Some b" and "b < length (map_buckets m)"
    and "map_buckets m' = (map_buckets m)[b := pre @ it_entry it]"
    and "map_bucket_count m' = map_bucket_count m" and "map_change_count m' = map_change_count m"
  shows "it_ok m' it \<and> map_rest m' it = map_rest m it"
  using assms by (auto simp: it_ok_def map_rest_def)

lemma remove_current_ok:
  assumes wf: "map_wf m" and it: "it_ok m it" "it_at m it (k, v)" and last: "map_last_iterated m = k"
  shows "\<exists>m'. ecs_map_remove m k = Inr (m', Some v) \<and> map_wf m' \<and> map_lookup m' = (map_lookup m)(k := None) \<and>
    it_ok m' it \<and> map_rest m' it = map_rest m it"
proof -
  note W = map_wfD [OF wf]
  obtain pre where pre: "it_bucket it = Some (map_hash (map_bits m) k)"
    "map_buckets m ! map_hash (map_bits m) k = pre @ (k, v) # it_entry it"
    "k \<notin> fst ` set pre" "k \<notin> fst ` set (it_entry it)" using it_at_bucket [OF W(1) it(2)] .
  have "map_of pre k = None" using pre(3) by (simp add: map_of_eq_None_iff)
  then have look: "map_lookup m k = Some v"
    using pre(2) by (simp add: map_lookup_def buckets_lookup_def map_add_def)
  from emap.remove_law [OF wf, of k] obtain m' where m': "ecs_map_remove m k = Inr (m', Some v)" "map_wf m'"
    "map_lookup m' = (map_lookup m)(k := None)" unfolding look by blast
  have "filter (\<lambda>e. fst e \<noteq> k) xs = xs" if "k \<notin> fst ` set xs" for xs :: "(u64 \<times> 'a) list"
    using that by (intro filter_True ballI) (metis imageI)
  then have "filter (\<lambda>e. fst e \<noteq> k) (map_buckets m ! map_hash (map_bits m) k) = pre @ it_entry it"
    using pre(2-4) by simp
  with it_ok_replace [OF it(1) pre(1) buckets_ok_cell(1) [OF W(1)]] map_remove_shape [OF wf m'(1)] last
  have "it_ok m' it \<and> map_rest m' it = map_rest m it" by simp
  with m' show ?thesis by blast
qed

section \<open>Copying\<close>

lemma insert_all:
  assumes "map_wf d" and "distinct (map fst es)" and "\<forall>e \<in> set es. map_lookup d (fst e) = None"
    and "map_count d + length es < 2 ^ 26"
  shows "\<exists>d'. for_each es (\<lambda>(k, v) d. ecs_map_insert d k v) d = Inr d' \<and> map_wf d' \<and>
    map_lookup d' = map_lookup d ++ map_of es \<and> map_count d' = map_count d + length es"
  using assms
proof (induction es arbitrary: d)
  case (Cons e es)
  obtain k v where e: "e = (k, v)" by (cases e)
  have "map_lookup d k = None" "map_count d + 1 < 2 ^ 26" using Cons.prems(3,4) e by simp_all
  then obtain d1 where d1: "ecs_map_insert d k v = Inr d1" "map_wf d1"
    "map_lookup d1 = (map_lookup d)(k \<mapsto> v)" "map_count d1 = map_count d + 1"
    using map_insert_ok [OF Cons.prems(1)] by blast
  have "\<forall>x \<in> set es. map_lookup d1 (fst x) = None" using Cons.prems(2,3) d1(3) e by (auto simp: rev_image_eqI)
  moreover have "distinct (map fst es)" "map_count d1 + length es < 2 ^ 26" using Cons.prems d1(4) by simp_all
  ultimately obtain d' where d': "for_each es (\<lambda>(k, v) d. ecs_map_insert d k v) d1 = Inr d'" "map_wf d'"
    "map_lookup d' = map_lookup d1 ++ map_of es" "map_count d' = map_count d1 + length es"
    using Cons.IH [OF d1(2)] by blast
  have "k \<notin> dom (map_of es)" using Cons.prems(2) e by (simp add: dom_map_of_conv_image_fst)
  then have "map_lookup d' = map_lookup d ++ map_of (e # es)"
    unfolding d'(3) d1(3) e by (simp add: map_add_upd_left)
  moreover have "for_each (e # es) (\<lambda>(k, v) d. ecs_map_insert d k v) d = Inr d'" using d1(1) d'(1) e by simp
  moreover have "map_count d' = map_count d + length (e # es)" using d'(4) d1(4) by simp
  ultimately show ?case using d'(2) by blast
qed simp

lemma map_copy_ok:
  assumes src: "map_wf src" and dst: "\<not> ecs_map_is_init dst \<or> map_count dst = 0" and fuel: "map_count src < fuel"
  shows "\<exists>src' dst'. ecs_map_copy fuel dst src = Inr (Some (src', dst')) \<and> map_wf dst' \<and> map_lookup dst' = map_lookup src \<and>
    map_count dst' = map_count src \<and> map_wf src' \<and> map_lookup src' = map_lookup src"
proof -
  note W = map_wfD [OF src]
  let ?es = "concat (map_buckets src)"
  obtain d where d: "ecs_map_init = Inr d" "map_wf d" "map_lookup d = (Map.empty :: u64 \<rightharpoonup> 'a)" "map_count d = 0"
    using map_init_ok by blast
  have "map_count d + length ?es < 2 ^ 26" using src W(3) d(4) by (simp add: map_wf_def)
  then obtain d' where d': "for_each ?es (\<lambda>(k, v) d. ecs_map_insert d k v) d = Inr d'" "map_wf d'"
    "map_lookup d' = map_lookup d ++ map_of ?es" "map_count d' = map_count d + length ?es"
    using insert_all [OF d(2) entries_distinct [OF W(1)]] d(3) by auto
  let ?body = "\<lambda>(k, v) src dst. bindr (ecs_map_insert dst k v) (\<lambda>dst. Inr (src, dst))"
  have body: "?body = (\<lambda>e m s. bindr ((\<lambda>(k, v) d. ecs_map_insert d k v) e s) (\<lambda>s. Inr (m, s)))"
    by (simp add: fun_eq_iff split: prod.split)
  obtain l where loop: "map_loop fuel ?body src (ecs_map_iter src) d = Inr (Some (src\<lparr>map_last_iterated := l\<rparr>, d'))"
    using map_loop_entries [OF map_iter_ok(1) [OF src], of fuel "\<lambda>(k, v) d. ecs_map_insert d k v" d]
      map_iter_ok(2) [OF src] W(3) fuel d'(1) unfolding body by auto
  have "ecs_map_is_init src" using src by (rule map_wf_init)
  with loop d(1) dst have "ecs_map_copy fuel dst src = Inr (Some (src\<lparr>map_last_iterated := l\<rparr>, d'))"
    by (auto simp: ecs_map_copy_def ecs_map_count_def)
  moreover have "map_lookup d' = map_lookup src" using d'(3) d(3) map_of_entries [OF src] by simp
  ultimately show ?thesis using d'(2,4) d(4) W(3) src by simp
qed

section \<open>The map as a finite map\<close>

datatype 'v map_op =
    Map_get u64
  | Map_insert u64 'v
  | Map_ensure u64
  | Map_store u64 'v
  | Map_remove u64
  | Map_reclaim
  | Map_clear

fun map_step :: "'v \<Rightarrow> 'v map_op \<Rightarrow> 'v ecs_map_t \<Rightarrow> ('v ecs_map_t \<times> 'v option) res" where
  "map_step z (Map_get k) m = bindr (ecs_map_get m k) (\<lambda>r. Inr (m, r))"
| "map_step z (Map_insert k v) m = bindr (ecs_map_insert m k v) (\<lambda>m. Inr (m, None))"
| "map_step z (Map_ensure k) m =
     bindr (ecs_map_ensure z m k) (\<lambda>m. bindr (ecs_map_get m k) (\<lambda>r. Inr (m, r)))"
| "map_step z (Map_store k v) m = bindr (ecs_map_store m k v) (\<lambda>m. Inr (m, None))"
| "map_step z (Map_remove k) m = ecs_map_remove m k"
| "map_step z Map_reclaim m = bindr (ecs_map_reclaim m) (\<lambda>m. Inr (m, None))"
| "map_step z Map_clear m = bindr (ecs_map_clear m) (\<lambda>m. Inr (m, None))"

fun map_spec :: "'v \<Rightarrow> 'v map_op \<Rightarrow> (u64 \<rightharpoonup> 'v) \<Rightarrow> (u64 \<rightharpoonup> 'v) \<times> 'v option" where
  "map_spec z (Map_get k) f = (f, f k)"
| "map_spec z (Map_insert k v) f = (f(k \<mapsto> v), None)"
| "map_spec z (Map_ensure k) f = (case f k of None \<Rightarrow> (f(k \<mapsto> z), Some z) | Some v \<Rightarrow> (f, Some v))"
| "map_spec z (Map_store k v) f = (f(k \<mapsto> v), None)"
| "map_spec z (Map_remove k) f = (f(k := None), f k)"
| "map_spec z Map_reclaim f = (f, None)"
| "map_spec z Map_clear f = (Map.empty, None)"

fun map_enabled :: "'v map_op \<Rightarrow> (u64 \<rightharpoonup> 'v) \<Rightarrow> bool" where
  "map_enabled (Map_insert k v) f \<longleftrightarrow> f k = None \<and> card (dom f) + 1 < 2 ^ 26"
| "map_enabled (Map_ensure k) f \<longleftrightarrow> card (dom f) + 1 < 2 ^ 26"
| "map_enabled (Map_store k v) f \<longleftrightarrow> f k \<noteq> None"
| "map_enabled op f \<longleftrightarrow> True"

lemma map_step_ok:
  assumes wf: "map_wf m" and "map_enabled op (map_lookup m)"
  shows "\<exists>m' r. map_step z op m = Inr (m', r) \<and> map_wf m' \<and> map_spec z op (map_lookup m) = (map_lookup m', r)"
proof (cases op)
  case (Map_insert k v)
  with assms map_count_card(2) [OF wf] map_insert_ok [OF wf, of k v] show ?thesis by auto
next
  case (Map_ensure k)
  have "card (dom (map_lookup m)) + 1 < 2 ^ 26" using assms(2) Map_ensure by simp
  from emap.ensure_law [OF wf this] obtain m' where m': "ecs_map_ensure z m k = Inr m'" "map_wf m'"
    "map_lookup m' = (case map_lookup m k of None \<Rightarrow> (map_lookup m)(k \<mapsto> z) | Some v \<Rightarrow> map_lookup m)" by blast
  then show ?thesis unfolding Map_ensure by (cases "map_lookup m k") simp_all
next
  case (Map_store k v)
  with assms emap.store_law [OF wf, of k v] show ?thesis by auto
next
  case (Map_remove k)
  with emap.remove_law [OF wf, of k] show ?thesis by auto
next
  case Map_reclaim
  with map_reclaim_ok [OF wf] show ?thesis by auto
next
  case Map_clear
  with map_clear_ok [of m] show ?thesis by auto
qed (use wf in simp)

interpretation map_sim: simulation map_wf map_lookup "map_step z" "map_spec z" map_enabled for z
  by unfold_locales (rule map_step_ok)

section \<open>A sample\<close>

text \<open>A map with two entries.\<close>

definition sample_map :: "nat ecs_map_t" where
  "sample_map = \<lparr>map_buckets = [[(7, 70)], [(9, 90)]], map_bucket_count = 2, map_count = 2,
     map_bucket_shift = 63, map_change_count = 2, map_last_iterated = 0\<rparr>"

lemma sample_map_wf: "map_wf sample_map"
proof -
  have "buckets_ok 1 [[(7, 70 :: nat)], [(9, 90)]]"
    by (simp add: buckets_ok_def map_hash_def less_2_cases_iff all_simps)
  then show ?thesis by (simp add: map_wf_def sample_map_def map_bits_def)
qed

lemma sample_map_lookup: "map_lookup sample_map 7 = Some 70" "map_lookup sample_map 9 = Some 90"
  "map_lookup sample_map 8 = None"
  by (simp_all add: map_lookup_def buckets_lookup_def sample_map_def map_bits_def map_hash_def)

section \<open>Properties\<close>

text \<open>
  C12: the hash map implements a finite map.  From a fresh map, every sequence of lookups, insertions of
  absent keys, ensures, writes to present keys, removals, reclaims and clears returns, gives the results
  that the sequence gives on a partial function, and leaves the map that stands for it, with its element
  count.  The bound is the 26-bit element count of the struct.
\<close>

theorem map_refines_finite_map:
  assumes "run_enabled (map_spec z) map_enabled ops Map.empty"
  shows "\<exists>m0 m rs. ecs_map_init = Inr m0 \<and> run_ops (map_step z) ops m0 = Inr (m, rs) \<and>
    run_spec (map_spec z) ops Map.empty = (map_lookup m, rs) \<and> ecs_map_count m = card (dom (map_lookup m))"
proof -
  obtain m0 :: "'a ecs_map_t" where m0: "ecs_map_init = Inr m0" "map_wf m0" "map_lookup m0 = Map.empty"
    using map_init_ok by blast
  from map_sim.run_refines [OF m0(2), of z ops] assms obtain m rs where
    "run_ops (map_step z) ops m0 = Inr (m, rs)" "map_wf m" "run_spec (map_spec z) ops Map.empty = (map_lookup m, rs)"
    unfolding m0(3) by blast
  with m0(1) map_count_card(2) show ?thesis by (auto simp: ecs_map_count_def)
qed

theorem map_refines_finite_map_witness:
  "\<exists>m0 m. ecs_map_init = Inr m0 \<and>
     run_ops (map_step (0 :: nat)) [Map_insert 7 70, Map_ensure 9, Map_store 9 90, Map_get 9, Map_remove 7, Map_get 7] m0 =
       Inr (m, [None, Some 0, None, Some 90, Some 70, None]) \<and> map_lookup m = [9 \<mapsto> 90]"
proof -
  let ?ops = "[Map_insert 7 70, Map_ensure 9, Map_store 9 90, Map_get 9, Map_remove 7, Map_get 7]"
  have "run_enabled (map_spec 0) map_enabled ?ops Map.empty" by simp
  from map_refines_finite_map [OF this] obtain m0 :: "nat ecs_map_t" and m rs where
    R: "ecs_map_init = Inr m0" "run_ops (map_step 0) ?ops m0 = Inr (m, rs)"
    "run_spec (map_spec 0) ?ops Map.empty = (map_lookup m, rs)" by blast
  have "rs = [None, Some 0, None, Some 90, Some 70, None]" and "map_lookup m = [9 \<mapsto> 90]"
    using R(3) by (auto simp: fun_eq_iff)
  with R(1,2) show ?thesis by blast
qed

text \<open>
  C20: iterating with \<open>ecs_map_next\<close> ends and visits every entry exactly once, also when the loop removes
  entries it is visiting.  With one round more than there are entries, a loop that removes the visited
  entry whenever \<open>P\<close> holds of it returns; the visited entries are those of the map without repetition, and
  what is left are the entries for which \<open>P\<close> does not hold.
\<close>

theorem map_iteration_with_removal:
  assumes "map_wf m" and "ecs_map_count m < fuel"
  shows "\<exists>m' es. map_loop fuel (\<lambda>e m es. if P e then bindr (ecs_map_remove m (fst e)) (\<lambda>(m, r). Inr (m, es @ [e]))
        else Inr (m, es @ [e])) m (ecs_map_iter m) [] = Inr (Some (m', es)) \<and>
    distinct (map fst es) \<and> map_of es = map_lookup m \<and> length es = ecs_map_count m \<and>
    (\<forall>k. ecs_map_get m' k = Inr (case map_lookup m k of None \<Rightarrow> None | Some v \<Rightarrow> if P (k, v) then None else Some v))"
proof -
  note W = map_wfD [OF assms(1)]
  let ?all = "concat (map_buckets m)"
  let ?kept = "\<lambda>s es x. case map_of s x of Some v \<Rightarrow> if P (x, v) then None else Some v | None \<Rightarrow> map_of es x"
  let ?body = "\<lambda>e m es. if P e then bindr (ecs_map_remove m (fst e)) (\<lambda>(m, r). Inr (m, es @ [e])) else Inr (m, es @ [e])"
  let ?I = "\<lambda>es m s. map_wf m \<and> s @ es = ?all \<and> map_lookup m = ?kept s es"
  have dist: "distinct (map fst ?all)" using entries_distinct [OF W(1)] .
  have step: "\<exists>m' s'. ?body e (n\<lparr>map_last_iterated := fst e\<rparr>) s = Inr (m', s') \<and> it_ok m' it \<and> map_rest m' it = es \<and> ?I es m' s'"
    if I: "?I (e # es) n s" and it: "it_ok n it" "map_rest n it = es" "it_at n it e" for e es n it s
  proof -
    obtain k v where e: "e = (k, v)" by (cases e)
    have "distinct (map fst (s @ e # es))" using dist I by simp
    then have "map_of s k = None" "map_of es k = None" by (auto simp: e map_of_eq_None_iff)
    then have kept: "?kept (s @ [e]) es = (?kept s (e # es))(k := if P e then None else Some v)"
      by (auto simp: fun_eq_iff e map_add_def split: option.split)
    let ?n = "n\<lparr>map_last_iterated := fst e\<rparr>"
    show ?thesis
    proof (cases "P e")
      case True
      have "\<exists>m'. ecs_map_remove ?n k = Inr (m', Some v) \<and> map_wf m' \<and> map_lookup m' = (map_lookup ?n)(k := None) \<and>
          it_ok m' it \<and> map_rest m' it = map_rest ?n it"
        using I it e by (intro remove_current_ok) simp_all
      with True I it e kept show ?thesis by auto
    next
      case False
      have "?kept (s @ [e]) es = ?kept s (e # es)"
        unfolding kept using False \<open>map_of s k = None\<close> by (auto simp: e fun_eq_iff)
      with False I it show ?thesis by simp
    qed
  qed
  have I0: "?I (map_rest m (ecs_map_iter m)) m []" "length (map_rest m (ecs_map_iter m)) < fuel"
    using assms W(3) map_iter_ok(2) [OF assms(1)] map_of_entries [OF assms(1)] by (simp_all add: ecs_map_count_def)
  obtain m' es where "map_loop fuel ?body m (ecs_map_iter m) [] = Inr (Some (m', es))" "?I [] m' es"
    using map_loop_rule [where I = ?I and body = ?body, OF map_iter_ok(1) [OF assms(1)] I0 step] by blast
  then show ?thesis using dist map_of_entries [OF assms(1)] W(3)
    by (intro exI [of _ m'] exI [of _ es]) (simp add: ecs_map_count_def split: option.split)
qed

theorem map_iteration_with_removal_witness:
  "\<exists>m' es. map_loop 3 (\<lambda>e m es. if fst e = 7 then bindr (ecs_map_remove m (fst e)) (\<lambda>(m, r). Inr (m, es @ [e]))
       else Inr (m, es @ [e])) sample_map (ecs_map_iter sample_map) [] = Inr (Some (m', es)) \<and>
     length es = 2 \<and> ecs_map_get m' 7 = Inr None \<and> ecs_map_get m' 9 = Inr (Some 90)"
proof -
  have c: "ecs_map_count sample_map = 2" by (simp add: ecs_map_count_def sample_map_def)
  then have "ecs_map_count sample_map < 3" by simp
  from map_iteration_with_removal [OF sample_map_wf this, of "\<lambda>e. fst e = 7"] obtain m' es where
    "map_loop 3 (\<lambda>e m es. if fst e = 7 then bindr (ecs_map_remove m (fst e)) (\<lambda>(m, r). Inr (m, es @ [e]))
       else Inr (m, es @ [e])) sample_map (ecs_map_iter sample_map) [] = Inr (Some (m', es))"
    "length es = 2"
    "\<forall>k. ecs_map_get m' k = Inr (case map_lookup sample_map k of None \<Rightarrow> None
       | Some v \<Rightarrow> if fst (k, v) = 7 then None else Some v)" unfolding c by blast
  then show ?thesis by (auto simp: sample_map_lookup)
qed

text \<open>
  C28: \<open>ecs_map_copy\<close> ends and its destination is an equal map, for a destination that is not initialised or
  has no elements.  The source keeps its entries.  A destination with elements is rejected with
  \<open>ECS_INVALID_PARAMETER\<close>.
\<close>

theorem ecs_map_copy_equal:
  assumes "map_wf src" and "ecs_map_count src < fuel"
  shows "(\<not> ecs_map_is_init dst \<or> ecs_map_count dst = 0 \<longrightarrow>
      (\<exists>src' dst'. ecs_map_copy fuel dst src = Inr (Some (src', dst')) \<and>
        (\<forall>k. ecs_map_get dst' k = ecs_map_get src k \<and> ecs_map_get src' k = ecs_map_get src k) \<and>
        ecs_map_count dst' = ecs_map_count src)) \<and>
    (ecs_map_is_init dst \<and> ecs_map_count dst \<noteq> 0 \<longrightarrow> ecs_map_copy fuel dst src = Inl (Abort ECS_INVALID_PARAMETER))"
proof (intro conjI impI)
  assume "\<not> ecs_map_is_init dst \<or> ecs_map_count dst = 0"
  with assms map_copy_ok [OF assms(1), of dst fuel] show "\<exists>src' dst'. ecs_map_copy fuel dst src = Inr (Some (src', dst')) \<and>
        (\<forall>k. ecs_map_get dst' k = ecs_map_get src k \<and> ecs_map_get src' k = ecs_map_get src k) \<and>
        ecs_map_count dst' = ecs_map_count src" by (fastforce simp: ecs_map_count_def)
qed (simp add: ecs_map_copy_def)

theorem ecs_map_copy_equal_witness:
  "\<exists>src' dst'. ecs_map_copy 3 zero_map sample_map = Inr (Some (src', dst')) \<and>
     ecs_map_get dst' 7 = Inr (Some 70) \<and> ecs_map_get dst' 9 = Inr (Some 90) \<and> ecs_map_get dst' 8 = Inr None"
proof -
  have "ecs_map_count sample_map < 3" by (simp add: ecs_map_count_def sample_map_def)
  moreover have "\<not> ecs_map_is_init zero_map" by (simp add: ecs_map_is_init_def zero_map_def)
  ultimately obtain src' dst' where "ecs_map_copy 3 zero_map sample_map = Inr (Some (src', dst'))"
    "\<forall>k. ecs_map_get dst' k = ecs_map_get sample_map k"
    using ecs_map_copy_equal [OF sample_map_wf, of 3 zero_map] by blast
  then show ?thesis by (simp add: sample_map_wf sample_map_lookup)
qed

text \<open>
  C38: a modification under a running iterator is noticed.  After an insertion, an \<open>ecs_map_ensure\<close> that adds
  an entry, a clear, or the removal of any other entry than the one visited last, the next step of an
  iterator that was valid before aborts with \<open>ECS_INVALID_PARAMETER\<close>.
\<close>

theorem map_modification_detected:
  assumes "map_wf m" and "ecs_map_iter_valid m it"
    and "ecs_map_insert m k v = Inr m' \<or> (ecs_map_get m k = Inr None \<and> ecs_map_ensure z m k = Inr m') \<or>
      ecs_map_clear m = Inr m' \<or> (map_last_iterated m \<noteq> k \<and> ecs_map_remove m k = Inr (m', r))"
  shows "ecs_map_next m' it = Inl (Abort ECS_INVALID_PARAMETER)"
proof -
  have rehash: "map_change_count n' = map_change_count n" if "flecs_map_rehash n c = Inr n'" for n n' :: "'a ecs_map_t" and c
    using that by (auto simp: flecs_map_rehash_def Let_def)
  have add: "map_change_count n = map_change_count m + 1" if "map_add_entry m k x = Inr n" for x n
    using that by (auto simp: map_add_entry_def Let_def dest: rehash split: if_splits)
  have "map_change_count m' = map_change_count m + 1"
    using assms(3)
  proof (elim disjE conjE)
    assume "ecs_map_insert m k v = Inr m'"
    then show ?thesis by (auto simp: ecs_map_insert_def dest: add)
  next
    assume "ecs_map_get m k = Inr None" "ecs_map_ensure z m k = Inr m'"
    then show ?thesis by (auto simp: ecs_map_ensure_def dest: add)
  next
    assume "ecs_map_clear m = Inr m'"
    then show ?thesis by (auto simp: ecs_map_clear_def dest!: rehash)
  next
    assume "map_last_iterated m \<noteq> k" "ecs_map_remove m k = Inr (m', r)"
    then show ?thesis using map_remove_shape(3) [OF assms(1)] by simp
  qed
  moreover have "map_change_count m + 1 \<noteq> map_change_count m" by simp
  ultimately show ?thesis using assms(2) by (simp add: ecs_map_iter_valid_def ecs_map_next_def)
qed

theorem map_modification_detected_witness:
  "\<exists>m'. ecs_map_remove sample_map 9 = Inr (m', Some 90) \<and>
     ecs_map_next m' (ecs_map_iter sample_map) = Inl (Abort ECS_INVALID_PARAMETER)"
proof -
  obtain m' where m': "ecs_map_remove sample_map 9 = Inr (m', Some 90)"
    using emap.remove_law [OF sample_map_wf, of 9] by (auto simp: sample_map_lookup)
  moreover have "map_last_iterated sample_map \<noteq> 9" "ecs_map_iter_valid sample_map (ecs_map_iter sample_map)"
    by (simp_all add: sample_map_def ecs_map_iter_valid_def ecs_map_iter_def ecs_map_is_init_def)
  ultimately show ?thesis
    using map_modification_detected [OF sample_map_wf, of "ecs_map_iter sample_map" 9 0 m' 0 "Some 90"] by blast
qed

end
