(* ===== verification/Sparse.thy ===== *)
theory Sparse
  imports Vec Dense Refine Ids
begin

text \<open>
  The sparse set of \<open>src/datastructures/sparse.c\<close>: elements keyed by the low 32 bits of a 64-bit id, in
  pages of 64 so that pointers to elements stay valid, with a dense array of the ids in use.

  The dense vector and the page vector are the vectors of \<open>Vec\<close>.  A page has an array of dense positions and
  an array of elements, each a function of the offset, or null.  A page pointer is the index of the page and
  a pointer to an element is its 32-bit index; \<open>sparse_load\<close> and \<open>sparse_store\<close> access an element through
  such a pointer.  \<open>zero\<close> is the element whose bytes are all 0, and \<open>sp_size\<close> the element size in bytes (0 for
  a set without data).  Counts and dense positions (\<open>int32_t\<close>) are natural numbers.
\<close>

section \<open>State\<close>

record 'd ecs_sparse_page_t =
  page_sparse :: "(nat \<Rightarrow> nat) option"
  page_data :: "(nat \<Rightarrow> 'd) option"

record 'd ecs_sparse_t =
  sp_dense :: "u64 ecs_vec_t"
  sp_pages :: "'d ecs_sparse_page_t ecs_vec_t"
  sp_size :: nat
  sp_count :: nat
  sp_max_id :: u64

definition null_page :: "'d ecs_sparse_page_t" where
  "null_page = \<lparr>page_sparse = None, page_data = None\<rparr>"

definition FLECS_SPARSE_PAGE_BITS :: nat where "FLECS_SPARSE_PAGE_BITS = 6"
definition FLECS_SPARSE_PAGE_SIZE :: nat where "FLECS_SPARSE_PAGE_SIZE = 2 ^ FLECS_SPARSE_PAGE_BITS"

definition FLECS_SPARSE_PAGE :: "u64 \<Rightarrow> nat" where
  "FLECS_SPARSE_PAGE index = unat (drop_bit FLECS_SPARSE_PAGE_BITS (lo32 index))"

definition FLECS_SPARSE_OFFSET :: "u64 \<Rightarrow> nat" where
  "FLECS_SPARSE_OFFSET index = unat (lo32 index AND (2 ^ FLECS_SPARSE_PAGE_BITS - 1))"

section \<open>Pages\<close>

definition flecs_sparse_page_new :: "'d \<Rightarrow> 'd ecs_sparse_t \<Rightarrow> nat \<Rightarrow> 'd ecs_sparse_t res" where
  "flecs_sparse_page_new zero sparse page_index =
     (let count = ecs_vec_count (sp_pages sparse);
          pages =
            (if count \<le> page_index then
               let v = ecs_vec_set_count (sp_pages sparse) (page_index + 1) in
               v\<lparr>vec_array := take count (vec_array v) @ replicate (1 + page_index - count) (Some null_page)
                     @ drop (page_index + 1) (vec_array v)\<rparr>
             else sp_pages sparse)
      in
      bindr (ecs_assert (vec_array pages \<noteq> []) ECS_INTERNAL_ERROR) (\<lambda>_.
      bindr (vec_read pages page_index) (\<lambda>result.
      bindr (ecs_assert (page_sparse result = None) ECS_INTERNAL_ERROR) (\<lambda>_.
      bindr (ecs_assert (page_data result = None) ECS_INTERNAL_ERROR) (\<lambda>_.
      bindr (vec_write pages page_index
               \<lparr>page_sparse = Some (\<lambda>_. 0),
                page_data = (if sp_size sparse \<noteq> 0 then Some (\<lambda>_. zero) else None)\<rparr>) (\<lambda>pages.
      Inr (sparse\<lparr>sp_pages := pages\<rparr>)))))))"

definition flecs_sparse_page_free :: "'d ecs_sparse_t \<Rightarrow> nat \<Rightarrow> 'd ecs_sparse_t res" where
  "flecs_sparse_page_free sparse page =
     bindr (vec_write (sp_pages sparse) page null_page) (\<lambda>pages. Inr (sparse\<lparr>sp_pages := pages\<rparr>))"

definition flecs_sparse_get_page :: "'d ecs_sparse_t \<Rightarrow> nat \<Rightarrow> 'd ecs_sparse_page_t option res" where
  "flecs_sparse_get_page sparse page_index =
     (if page_index \<ge> ecs_vec_count (sp_pages sparse) then Inr None
      else bindr (ecs_vec_get (sp_pages sparse) page_index) (\<lambda>page. Inr (Some page)))"

definition flecs_sparse_get_or_create_page :: "'d \<Rightarrow> 'd ecs_sparse_t \<Rightarrow> nat \<Rightarrow> 'd ecs_sparse_t res" where
  "flecs_sparse_get_or_create_page zero sparse page_index =
     bindr (flecs_sparse_get_page sparse page_index) (\<lambda>page.
     case page of
       Some p \<Rightarrow>
         if page_sparse p \<noteq> None then
           bindr (ecs_assert (sp_size sparse = 0 \<or> page_data p \<noteq> None) ECS_INTERNAL_ERROR) (\<lambda>_. Inr sparse)
         else flecs_sparse_page_new zero sparse page_index
     | None \<Rightarrow> flecs_sparse_page_new zero sparse page_index)"

text \<open>Reading and writing \<open>page->sparse[offset]\<close> and \<open>page->data[offset]\<close>.\<close>

definition page_position :: "'d ecs_sparse_t \<Rightarrow> nat \<Rightarrow> nat \<Rightarrow> nat res" where
  "page_position sparse page offset =
     bindr (vec_read (sp_pages sparse) page) (\<lambda>p.
     case page_sparse p of None \<Rightarrow> Inl Undefined | Some a \<Rightarrow> Inr (a offset))"

definition set_page_position :: "'d ecs_sparse_t \<Rightarrow> nat \<Rightarrow> nat \<Rightarrow> nat \<Rightarrow> 'd ecs_sparse_t res" where
  "set_page_position sparse page offset dense =
     bindr (vec_read (sp_pages sparse) page) (\<lambda>p.
     case page_sparse p of
       None \<Rightarrow> Inl Undefined
     | Some a \<Rightarrow>
         bindr (vec_write (sp_pages sparse) page (p\<lparr>page_sparse := Some (a(offset := dense))\<rparr>)) (\<lambda>pages.
         Inr (sparse\<lparr>sp_pages := pages\<rparr>)))"

definition set_page_data :: "'d ecs_sparse_t \<Rightarrow> nat \<Rightarrow> nat \<Rightarrow> 'd \<Rightarrow> 'd ecs_sparse_t res" where
  "set_page_data sparse page offset d =
     bindr (vec_read (sp_pages sparse) page) (\<lambda>p.
     case page_data p of
       None \<Rightarrow> Inl Undefined
     | Some a \<Rightarrow>
         bindr (vec_write (sp_pages sparse) page (p\<lparr>page_data := Some (a(offset := d))\<rparr>)) (\<lambda>pages.
         Inr (sparse\<lparr>sp_pages := pages\<rparr>)))"

text \<open>\<open>DATA(page->data, size, offset)\<close>: null for a set without data.\<close>

definition data_ptr :: "'d ecs_sparse_t \<Rightarrow> u64 \<Rightarrow> u32 option res" where
  "data_ptr sparse index =
     bindr (vec_read (sp_pages sparse) (FLECS_SPARSE_PAGE index)) (\<lambda>p.
     Inr (case page_data p of None \<Rightarrow> None | Some _ \<Rightarrow> Some (lo32 index)))"

definition sparse_load :: "'d ecs_sparse_t \<Rightarrow> u32 \<Rightarrow> 'd res" where
  "sparse_load sparse ptr =
     bindr (vec_read (sp_pages sparse) (FLECS_SPARSE_PAGE (to64 ptr))) (\<lambda>p.
     case page_data p of None \<Rightarrow> Inl Undefined | Some a \<Rightarrow> Inr (a (FLECS_SPARSE_OFFSET (to64 ptr))))"

definition sparse_store :: "'d ecs_sparse_t \<Rightarrow> u32 \<Rightarrow> 'd \<Rightarrow> 'd ecs_sparse_t res" where
  "sparse_store sparse ptr d =
     set_page_data sparse (FLECS_SPARSE_PAGE (to64 ptr)) (FLECS_SPARSE_OFFSET (to64 ptr)) d"

section \<open>Ids\<close>

definition flecs_sparse_grow_dense :: "'d ecs_sparse_t \<Rightarrow> 'd ecs_sparse_t" where
  "flecs_sparse_grow_dense sparse = sparse\<lparr>sp_dense := fst (ecs_vec_append (sp_dense sparse))\<rparr>"

definition flecs_sparse_assign_index :: "'d ecs_sparse_t \<Rightarrow> nat \<Rightarrow> u64 \<Rightarrow> nat \<Rightarrow> 'd ecs_sparse_t res" where
  "flecs_sparse_assign_index sparse page cid dense =
     bindr (set_page_position sparse page (FLECS_SPARSE_OFFSET cid) dense) (\<lambda>sparse.
     bindr (vec_write (sp_dense sparse) dense cid) (\<lambda>v.
     Inr (sparse\<lparr>sp_dense := v\<rparr>)))"

definition flecs_sparse_inc_id :: "'d ecs_sparse_t \<Rightarrow> 'd ecs_sparse_t \<times> u64" where
  "flecs_sparse_inc_id sparse = (sparse\<lparr>sp_max_id := sp_max_id sparse + 1\<rparr>, sp_max_id sparse + 1)"

definition flecs_sparse_get_id :: "'d ecs_sparse_t \<Rightarrow> u64" where
  "flecs_sparse_get_id sparse = sp_max_id sparse"

definition flecs_sparse_set_id :: "'d ecs_sparse_t \<Rightarrow> u64 \<Rightarrow> 'd ecs_sparse_t" where
  "flecs_sparse_set_id sparse v = sparse\<lparr>sp_max_id := v\<rparr>"

definition flecs_sparse_create_id :: "'d \<Rightarrow> 'd ecs_sparse_t \<Rightarrow> nat \<Rightarrow> ('d ecs_sparse_t \<times> u64) res" where
  "flecs_sparse_create_id zero sparse dense =
     (case flecs_sparse_inc_id sparse of (sparse, cid) \<Rightarrow>
      let sparse = flecs_sparse_grow_dense sparse in
      bindr (flecs_sparse_get_or_create_page zero sparse (FLECS_SPARSE_PAGE cid)) (\<lambda>sparse.
      bindr (page_position sparse (FLECS_SPARSE_PAGE cid) (FLECS_SPARSE_OFFSET cid)) (\<lambda>d.
      bindr (ecs_assert (d = 0) ECS_INTERNAL_ERROR) (\<lambda>_.
      bindr (flecs_sparse_assign_index sparse (FLECS_SPARSE_PAGE cid) cid dense) (\<lambda>sparse.
      Inr (sparse, cid))))))"

definition flecs_sparse_new_index :: "'d \<Rightarrow> 'd ecs_sparse_t \<Rightarrow> ('d ecs_sparse_t \<times> u64) res" where
  "flecs_sparse_new_index zero sparse =
     (let dense_count = ecs_vec_count (sp_dense sparse);
          count = sp_count sparse;
          sparse = sparse\<lparr>sp_count := count + 1\<rparr> in
      bindr (ecs_assert (count \<le> dense_count) ECS_INTERNAL_ERROR) (\<lambda>_.
      if count < dense_count then
        bindr (vec_read (sp_dense sparse) count) (\<lambda>cid. Inr (sparse, cid))
      else flecs_sparse_create_id zero sparse count))"

definition flecs_sparse_get_sparse :: "'d ecs_sparse_t \<Rightarrow> nat \<Rightarrow> u64 \<Rightarrow> u32 option res" where
  "flecs_sparse_get_sparse sparse dense cid =
     (let index = to64 (lo32 cid) in
      bindr (flecs_sparse_get_page sparse (FLECS_SPARSE_PAGE index)) (\<lambda>page.
      case page of
        None \<Rightarrow> Inr None
      | Some p \<Rightarrow>
          if page_sparse p = None then Inr None
          else
            bindr (page_position sparse (FLECS_SPARSE_PAGE index) (FLECS_SPARSE_OFFSET index)) (\<lambda>d.
            bindr (ecs_assert (dense = d) ECS_INTERNAL_ERROR) (\<lambda>_.
            data_ptr sparse index))))"

text \<open>
  The page pointer of \<open>a\<close> and the dense array are read before the page of \<open>b\<close> is looked up; the look-up
  must not move the page array.
\<close>

definition flecs_sparse_swap_dense :: "'d \<Rightarrow> 'd ecs_sparse_t \<Rightarrow> nat \<Rightarrow> nat \<Rightarrow> nat \<Rightarrow> 'd ecs_sparse_t res" where
  "flecs_sparse_swap_dense zero sparse page_a a b =
     bindr (vec_read (sp_dense sparse) a) (\<lambda>id_a.
     bindr (vec_read (sp_dense sparse) b) (\<lambda>id_b.
     let pages = vec_size (sp_pages sparse) in
     bindr (flecs_sparse_get_or_create_page zero sparse (FLECS_SPARSE_PAGE id_b)) (\<lambda>sparse.
     bindr (defined_if (vec_size (sp_pages sparse) = pages)) (\<lambda>_.
     bindr (flecs_sparse_assign_index sparse page_a id_a b) (\<lambda>sparse.
     flecs_sparse_assign_index sparse (FLECS_SPARSE_PAGE id_b) id_b a)))))"

section \<open>Operations\<close>

definition flecs_sparse_init :: "nat \<Rightarrow> 'd ecs_sparse_t res" where
  "flecs_sparse_init size' =
     (let v = (ecs_vec_init 1)\<lparr>vec_count := 1\<rparr> in
      bindr (vec_write v 0 0) (\<lambda>v.
      Inr \<lparr>sp_dense = v, sp_pages = ecs_vec_init 0, sp_size = size', sp_count = 1, sp_max_id = - 1\<rparr>))"

definition flecs_sparse_clear :: "'d ecs_sparse_t \<Rightarrow> 'd ecs_sparse_t res" where
  "flecs_sparse_clear sparse =
     bindr (for_each [0..<ecs_vec_count (sp_pages sparse)]
              (\<lambda>i pages.
                 bindr (vec_read pages i) (\<lambda>p.
                 if page_sparse p \<noteq> None then vec_write pages i (p\<lparr>page_sparse := Some (\<lambda>_. 0)\<rparr>)
                 else Inr pages)) (sp_pages sparse)) (\<lambda>pages.
     Inr (sparse\<lparr>sp_pages := pages, sp_dense := ecs_vec_set_count (sp_dense sparse) 1,
            sp_count := 1, sp_max_id := 0\<rparr>))"

definition flecs_sparse_fini :: "'d ecs_sparse_t \<Rightarrow> 'd ecs_sparse_t res" where
  "flecs_sparse_fini sparse =
     bindr (for_each [0..<ecs_vec_count (sp_pages sparse)] (\<lambda>i s. flecs_sparse_page_free s i) sparse) (\<lambda>sparse.
     Inr (sparse\<lparr>sp_pages := ecs_vec_fini (sp_pages sparse), sp_dense := ecs_vec_fini (sp_dense sparse)\<rparr>))"

definition flecs_sparse_new_id :: "'d \<Rightarrow> 'd ecs_sparse_t \<Rightarrow> ('d ecs_sparse_t \<times> u64) res" where
  "flecs_sparse_new_id zero sparse = flecs_sparse_new_index zero sparse"

definition flecs_sparse_add :: "'d \<Rightarrow> 'd ecs_sparse_t \<Rightarrow> nat \<Rightarrow> ('d ecs_sparse_t \<times> u32 option) res" where
  "flecs_sparse_add zero sparse size' =
     bindr (ecs_assert (size' = 0 \<or> size' = sp_size sparse) ECS_INVALID_PARAMETER) (\<lambda>_.
     bindr (flecs_sparse_new_index zero sparse) (\<lambda>(sparse, cid).
     bindr (flecs_sparse_get_page sparse (FLECS_SPARSE_PAGE cid)) (\<lambda>page.
     bindr (ecs_assert (page \<noteq> None) ECS_INTERNAL_ERROR) (\<lambda>_.
     bindr (ecs_assert (page_data (the page) \<noteq> None) ECS_INTERNAL_ERROR) (\<lambda>_.
     bindr (data_ptr sparse cid) (\<lambda>ptr. Inr (sparse, ptr)))))))"

definition flecs_sparse_last_id :: "'d ecs_sparse_t \<Rightarrow> u64 res" where
  "flecs_sparse_last_id sparse = vec_read (sp_dense sparse) (sp_count sparse - 1)"

text \<open>The branch of \<open>flecs_sparse_ensure\<close> for an index that has no dense element yet.\<close>

definition ensure_unpaired :: "'d \<Rightarrow> 'd ecs_sparse_t \<Rightarrow> u64 \<Rightarrow> 'd ecs_sparse_t res" where
  "ensure_unpaired zero sparse cid =
     (let index = to64 (lo32 cid);
          page = FLECS_SPARSE_PAGE index;
          sparse = flecs_sparse_grow_dense sparse;
          dense_count = ecs_vec_count (sp_dense sparse) - 1;
          count = sp_count sparse;
          sparse = sparse\<lparr>sp_count := count + 1\<rparr>;
          sparse = (if index \<ge> flecs_sparse_get_id sparse then flecs_sparse_set_id sparse index else sparse)
      in
      bindr (if count < dense_count then
               bindr (vec_read (sp_dense sparse) count) (\<lambda>unused.
               let pages = vec_size (sp_pages sparse) in
               bindr (flecs_sparse_get_or_create_page zero sparse (FLECS_SPARSE_PAGE unused)) (\<lambda>sparse.
               bindr (defined_if (vec_size (sp_pages sparse) = pages)) (\<lambda>_.
               flecs_sparse_assign_index sparse (FLECS_SPARSE_PAGE unused) unused dense_count)))
             else Inr sparse) (\<lambda>sparse.
      flecs_sparse_assign_index sparse page cid count))"

text \<open>The result is the set, the pointer to the element, and \<open>is_new\<close>.\<close>

definition flecs_sparse_ensure ::
  "'d \<Rightarrow> 'd ecs_sparse_t \<Rightarrow> nat \<Rightarrow> u64 \<Rightarrow> ('d ecs_sparse_t \<times> u32 option \<times> bool) res" where
  "flecs_sparse_ensure zero sparse size' cid =
     bindr (ecs_assert (size' = 0 \<or> size' = sp_size sparse) ECS_INVALID_PARAMETER) (\<lambda>_.
     bindr (ecs_assert (ecs_vec_count (sp_dense sparse) > 0) ECS_INTERNAL_ERROR) (\<lambda>_.
     let index = to64 (lo32 cid); page = FLECS_SPARSE_PAGE index; offset = FLECS_SPARSE_OFFSET index in
     bindr (flecs_sparse_get_or_create_page zero sparse page) (\<lambda>sparse.
     bindr (page_position sparse page offset) (\<lambda>dense.
     bindr (if dense \<noteq> 0 then
              let count = sp_count sparse in
              if dense \<ge> count then
                bindr (flecs_sparse_swap_dense zero sparse page dense count) (\<lambda>sparse.
                let sparse = sparse\<lparr>sp_count := sp_count sparse + 1\<rparr> in
                bindr (vec_write (sp_dense sparse) count cid) (\<lambda>v.
                Inr (sparse\<lparr>sp_dense := v\<rparr>, True)))
              else Inr (sparse, False)
            else bindr (ensure_unpaired zero sparse cid) (\<lambda>sparse. Inr (sparse, True))) (\<lambda>(sparse, is_new).
     bindr (data_ptr sparse index) (\<lambda>ptr. Inr (sparse, ptr, is_new)))))))"

definition flecs_sparse_insert ::
  "'d \<Rightarrow> 'd ecs_sparse_t \<Rightarrow> nat \<Rightarrow> u64 \<Rightarrow> ('d ecs_sparse_t \<times> u32 option) res" where
  "flecs_sparse_insert zero sparse size' cid =
     bindr (flecs_sparse_ensure zero sparse size' cid) (\<lambda>(sparse, result, is_new).
     Inr (sparse, if is_new then result else None))"

definition flecs_sparse_ensure_fast ::
  "'d \<Rightarrow> 'd ecs_sparse_t \<Rightarrow> nat \<Rightarrow> u64 \<Rightarrow> ('d ecs_sparse_t \<times> u32 option) res" where
  "flecs_sparse_ensure_fast zero sparse size' cid =
     bindr (ecs_assert (size' = 0 \<or> size' = sp_size sparse) ECS_INVALID_PARAMETER) (\<lambda>_.
     bindr (ecs_assert (ecs_vec_count (sp_dense sparse) > 0) ECS_INTERNAL_ERROR) (\<lambda>_.
     let index = to64 (lo32 cid); page = FLECS_SPARSE_PAGE index; offset = FLECS_SPARSE_OFFSET index in
     bindr (flecs_sparse_get_or_create_page zero sparse page) (\<lambda>sparse.
     bindr (page_position sparse page offset) (\<lambda>dense.
     let count = sp_count sparse in
     bindr (if dense = 0 then
              let sparse = sparse\<lparr>sp_count := count + 1\<rparr>;
                  sparse = (if count = ecs_vec_count (sp_dense sparse) then flecs_sparse_grow_dense sparse else sparse)
              in flecs_sparse_assign_index sparse page index count
            else Inr sparse) (\<lambda>sparse.
     bindr (data_ptr sparse index) (\<lambda>ptr. Inr (sparse, ptr)))))))"

text \<open>The common tail of the removals: the element is taken out of the dense part in use.\<close>

definition remove_dense :: "'d \<Rightarrow> 'd ecs_sparse_t \<Rightarrow> nat \<Rightarrow> nat \<Rightarrow> ('d ecs_sparse_t \<times> bool) res" where
  "remove_dense zero sparse page dense =
     (let count = sp_count sparse in
      if dense = count - 1 then Inr (sparse\<lparr>sp_count := count - 1\<rparr>, True)
      else if dense < count then
        bindr (flecs_sparse_swap_dense zero sparse page dense (count - 1)) (\<lambda>sparse.
        Inr (sparse\<lparr>sp_count := sp_count sparse - 1\<rparr>, True))
      else Inr (sparse, False))"

definition flecs_sparse_remove :: "'d \<Rightarrow> 'd ecs_sparse_t \<Rightarrow> nat \<Rightarrow> u64 \<Rightarrow> ('d ecs_sparse_t \<times> bool) res" where
  "flecs_sparse_remove zero sparse size' cid =
     bindr (ecs_assert (size' = 0 \<or> size' = sp_size sparse) ECS_INVALID_PARAMETER) (\<lambda>_.
     let index = to64 (lo32 cid); page = FLECS_SPARSE_PAGE cid; offset = FLECS_SPARSE_OFFSET index in
     bindr (flecs_sparse_get_page sparse page) (\<lambda>p.
     if p = None \<or> page_sparse (the p) = None then Inr (sparse, False)
     else
       bindr (page_position sparse page offset) (\<lambda>dense.
       if dense \<noteq> 0 then
         bindr (remove_dense zero sparse page dense) (\<lambda>(sparse, _).
         bindr (if sp_size sparse \<noteq> 0 then set_page_data sparse page offset zero else Inr sparse) (\<lambda>sparse.
         Inr (sparse, True)))
       else Inr (sparse, False))))"

definition flecs_sparse_inc_gen :: "u64 \<Rightarrow> u64" where
  "flecs_sparse_inc_gen index = ECS_GENERATION_INC index"

definition flecs_sparse_remove_w_gen :: "'d \<Rightarrow> 'd ecs_sparse_t \<Rightarrow> nat \<Rightarrow> u64 \<Rightarrow> ('d ecs_sparse_t \<times> bool) res" where
  "flecs_sparse_remove_w_gen zero sparse size' cid =
     bindr (ecs_assert (size' = 0 \<or> size' = sp_size sparse) ECS_INVALID_PARAMETER) (\<lambda>_.
     let index = to64 (lo32 cid); page = FLECS_SPARSE_PAGE cid; offset = FLECS_SPARSE_OFFSET index in
     bindr (flecs_sparse_get_page sparse page) (\<lambda>p.
     if p = None \<or> page_sparse (the p) = None then Inr (sparse, False)
     else
       bindr (page_position sparse page offset) (\<lambda>dense.
       if dense \<noteq> 0 then
         bindr (vec_read (sp_dense sparse) dense) (\<lambda>e.
         bindr (ecs_assert (e = cid) ECS_INVALID_PARAMETER) (\<lambda>_.
         bindr (vec_write (sp_dense sparse) dense (flecs_sparse_inc_gen cid)) (\<lambda>v.
         let sparse = sparse\<lparr>sp_dense := v\<rparr> in
         bindr (remove_dense zero sparse page dense) (\<lambda>(sparse, alive).
         if \<not> alive then Inr (sparse, False)
         else
           bindr (if sp_size sparse \<noteq> 0 then set_page_data sparse page offset zero else Inr sparse) (\<lambda>sparse.
           Inr (sparse, True))))))
       else Inr (sparse, False))))"

definition flecs_sparse_get_dense :: "'d ecs_sparse_t \<Rightarrow> nat \<Rightarrow> nat \<Rightarrow> u32 option res" where
  "flecs_sparse_get_dense sparse size' dense_index =
     bindr (ecs_assert (size' = 0 \<or> size' = sp_size sparse) ECS_INVALID_PARAMETER) (\<lambda>_.
     bindr (ecs_assert (dense_index < sp_count sparse) ECS_INVALID_PARAMETER) (\<lambda>_.
     let dense_index = dense_index + 1 in
     bindr (vec_read (sp_dense sparse) dense_index) (\<lambda>cid.
     flecs_sparse_get_sparse sparse dense_index cid)))"

definition flecs_sparse_is_alive :: "'d ecs_sparse_t \<Rightarrow> u64 \<Rightarrow> bool res" where
  "flecs_sparse_is_alive sparse cid =
     bindr (flecs_sparse_get_page sparse (FLECS_SPARSE_PAGE cid)) (\<lambda>p.
     if p = None \<or> page_sparse (the p) = None then Inr False
     else
       bindr (page_position sparse (FLECS_SPARSE_PAGE cid) (FLECS_SPARSE_OFFSET cid)) (\<lambda>dense.
       Inr (dense \<noteq> 0 \<and> dense < sp_count sparse)))"

definition flecs_sparse_get :: "'d ecs_sparse_t \<Rightarrow> nat \<Rightarrow> u64 \<Rightarrow> u32 option res" where
  "flecs_sparse_get sparse size' cid =
     bindr (ecs_assert (size' = 0 \<or> size' = sp_size sparse) ECS_INVALID_PARAMETER) (\<lambda>_.
     let index = to64 (lo32 cid) in
     bindr (flecs_sparse_get_page sparse (FLECS_SPARSE_PAGE index)) (\<lambda>p.
     if p = None \<or> page_sparse (the p) = None then Inr None
     else
       bindr (page_position sparse (FLECS_SPARSE_PAGE index) (FLECS_SPARSE_OFFSET index)) (\<lambda>dense.
       if \<not> (dense \<noteq> 0 \<and> dense < sp_count sparse) then Inr None
       else data_ptr sparse index)))"

definition flecs_sparse_has :: "'d ecs_sparse_t \<Rightarrow> u64 \<Rightarrow> bool res" where
  "flecs_sparse_has sparse cid =
     (let index = to64 (lo32 cid) in
      bindr (flecs_sparse_get_page sparse (FLECS_SPARSE_PAGE index)) (\<lambda>p.
      if p = None \<or> page_sparse (the p) = None then Inr False
      else
        bindr (page_position sparse (FLECS_SPARSE_PAGE index) (FLECS_SPARSE_OFFSET cid)) (\<lambda>dense.
        Inr (dense \<noteq> 0 \<and> dense < sp_count sparse))))"

definition flecs_sparse_count :: "'d ecs_sparse_t \<Rightarrow> nat" where
  "flecs_sparse_count sparse = (if sp_count sparse = 0 then 0 else sp_count sparse - 1)"

text \<open>The ids from the second cell of the dense array on.\<close>

definition flecs_sparse_ids :: "'d ecs_sparse_t \<Rightarrow> u64 option list" where
  "flecs_sparse_ids sparse =
     (if vec_array (sp_dense sparse) \<noteq> [] then drop 1 (vec_array (sp_dense sparse)) else [])"

text \<open>The loop of \<open>flecs_sparse_shrink\<close> over the slots of a page.\<close>

primrec page_has_alive :: "nat list \<Rightarrow> 'd ecs_sparse_t \<Rightarrow> nat \<Rightarrow> bool res" where
  "page_has_alive [] sparse i = Inr False"
| "page_has_alive (e # es) sparse i =
     bindr (flecs_sparse_is_alive sparse (word_of_nat (i * FLECS_SPARSE_PAGE_SIZE + e))) (\<lambda>alive.
     if alive then Inr True else page_has_alive es sparse i)"

definition shrink_page :: "nat \<Rightarrow> 'd ecs_sparse_t \<times> nat \<Rightarrow> ('d ecs_sparse_t \<times> nat) res" where
  "shrink_page i = (\<lambda>(sparse, page_count).
     bindr (vec_read (sp_pages sparse) i) (\<lambda>page.
     if page_sparse page = None then
       bindr (ecs_assert (page_data page = None) ECS_INTERNAL_ERROR) (\<lambda>_. Inr (sparse, page_count))
     else
       bindr (page_has_alive [0..<FLECS_SPARSE_PAGE_SIZE] sparse i) (\<lambda>has_alive.
       if \<not> has_alive then bindr (flecs_sparse_page_free sparse i) (\<lambda>sparse. Inr (sparse, page_count))
       else Inr (sparse, i + 1))))"

definition flecs_sparse_shrink :: "'d ecs_sparse_t \<Rightarrow> 'd ecs_sparse_t res" where
  "flecs_sparse_shrink sparse =
     bindr (for_each [0..<ecs_vec_count (sp_pages sparse)] shrink_page (sparse, 0)) (\<lambda>(sparse, page_count).
     Inr (sparse\<lparr>sp_pages := ecs_vec_reclaim (ecs_vec_set_count (sp_pages sparse) page_count),
            sp_dense := ecs_vec_reclaim (ecs_vec_set_count (sp_dense sparse) (sp_count sparse))\<rparr>))"

text \<open>The public wrappers.\<close>

definition ecs_sparse_init :: "nat \<Rightarrow> 'd ecs_sparse_t res" where
  "ecs_sparse_init elem_size = flecs_sparse_init elem_size"

definition ecs_sparse_add :: "'d \<Rightarrow> 'd ecs_sparse_t \<Rightarrow> nat \<Rightarrow> ('d ecs_sparse_t \<times> u32 option) res" where
  "ecs_sparse_add zero sparse elem_size = flecs_sparse_add zero sparse elem_size"

definition ecs_sparse_last_id :: "'d ecs_sparse_t \<Rightarrow> u64 res" where
  "ecs_sparse_last_id sparse = flecs_sparse_last_id sparse"

definition ecs_sparse_count :: "'d ecs_sparse_t \<Rightarrow> nat" where
  "ecs_sparse_count sparse = flecs_sparse_count sparse"

definition ecs_sparse_get_dense :: "'d ecs_sparse_t \<Rightarrow> nat \<Rightarrow> nat \<Rightarrow> u32 option res" where
  "ecs_sparse_get_dense sparse elem_size index = flecs_sparse_get_dense sparse elem_size index"

definition ecs_sparse_get :: "'d ecs_sparse_t \<Rightarrow> nat \<Rightarrow> u64 \<Rightarrow> u32 option res" where
  "ecs_sparse_get sparse elem_size cid = flecs_sparse_get sparse elem_size cid"

end
