(* ===== verification/Sparse_Facts.thy ===== *)
theory Sparse_Facts
  imports Sparse
begin

text \<open>
  Facts about the sparse set: what the pages store, the invariant of the set, and the effect of every
  operation on positions, ids and elements.
\<close>

section \<open>Pages and slots\<close>

lemma sparse_slot_low [simp]:
  "FLECS_SPARSE_PAGE (to64 (lo32 cid)) = FLECS_SPARSE_PAGE cid"
  "FLECS_SPARSE_OFFSET (to64 (lo32 cid)) = FLECS_SPARSE_OFFSET cid"
  by (simp_all add: FLECS_SPARSE_PAGE_def FLECS_SPARSE_OFFSET_def)

lemma sparse_slot_inj:
  assumes "FLECS_SPARSE_PAGE a = FLECS_SPARSE_PAGE b" and "FLECS_SPARSE_OFFSET a = FLECS_SPARSE_OFFSET b"
  shows "lo32 a = lo32 b"
  using assms unfolding FLECS_SPARSE_PAGE_def FLECS_SPARSE_OFFSET_def by (rule page_offset_inj)

lemma sparse_page_bound: "FLECS_SPARSE_PAGE cid < 2 ^ 26"
proof -
  have "unat (lo32 cid) < 2 ^ LENGTH(32)" by (rule unsigned_less)
  moreover have "FLECS_SPARSE_PAGE cid = unat (lo32 cid) div 2 ^ 6"
    unfolding FLECS_SPARSE_PAGE_def FLECS_SPARSE_PAGE_BITS_def unat_drop_bit_eq by (rule drop_bit_eq_div)
  ultimately show ?thesis by (simp add: less_mult_imp_div_less)
qed

text \<open>The page with an index; beyond the page vector there is nothing.\<close>

definition sp_cell :: "'d ecs_sparse_t \<Rightarrow> nat \<Rightarrow> 'd ecs_sparse_page_t" where
  "sp_cell s i = (if i < vec_count (sp_pages s) then vec_elems (sp_pages s) ! i else null_page)"

definition mapped :: "'d ecs_sparse_t \<Rightarrow> u64 \<Rightarrow> bool" where
  "mapped s cid \<longleftrightarrow> page_sparse (sp_cell s (FLECS_SPARSE_PAGE cid)) \<noteq> None"

text \<open>The dense position and the element of an index.\<close>

definition spos :: "'d ecs_sparse_t \<Rightarrow> u32 \<Rightarrow> nat" where
  "spos s i = (case page_sparse (sp_cell s (FLECS_SPARSE_PAGE (to64 i))) of
     None \<Rightarrow> 0 | Some a \<Rightarrow> a (FLECS_SPARSE_OFFSET (to64 i)))"

definition sdat :: "'d \<Rightarrow> 'd ecs_sparse_t \<Rightarrow> u32 \<Rightarrow> 'd" where
  "sdat zero s i = (case page_data (sp_cell s (FLECS_SPARSE_PAGE (to64 i))) of
     None \<Rightarrow> zero | Some a \<Rightarrow> a (FLECS_SPARSE_OFFSET (to64 i)))"

definition pages_ok :: "'d ecs_sparse_t \<Rightarrow> bool" where
  "pages_ok s \<longleftrightarrow> vec_ok (sp_pages s) \<and> vec_count (sp_pages s) \<le> 2 ^ 26 \<and>
     (\<forall>i. page_data (sp_cell s i) = None \<longleftrightarrow> page_sparse (sp_cell s i) = None \<or> sp_size s = 0)"

lemma pages_ok_data:
  "pages_ok s \<Longrightarrow> page_data (sp_cell s i) = None \<longleftrightarrow> page_sparse (sp_cell s i) = None \<or> sp_size s = 0"
  by (simp add: pages_ok_def)

lemma null_page_simps [simp]: "page_sparse null_page = None" "page_data null_page = None"
  by (simp_all add: null_page_def)

lemma mapped_low [simp]: "mapped s (to64 (lo32 cid)) = mapped s cid"
  by (simp add: mapped_def)

lemma mapped_bound: "mapped s cid \<Longrightarrow> FLECS_SPARSE_PAGE cid < vec_count (sp_pages s)"
  by (auto simp: mapped_def sp_cell_def split: if_splits)

lemma spos_mapped: "0 < spos s (lo32 cid) \<Longrightarrow> mapped s cid"
  by (auto simp: mapped_def spos_def split: option.splits)

lemma sparse_frame [simp]:
  "sp_cell (s\<lparr>sp_dense := d\<rparr>) = sp_cell s" "sp_cell (s\<lparr>sp_count := n\<rparr>) = sp_cell s"
  "sp_cell (s\<lparr>sp_max_id := x\<rparr>) = sp_cell s"
  by (simp_all add: sp_cell_def fun_eq_iff)

lemma sparse_frame_views [simp]:
  "spos (s\<lparr>sp_dense := d\<rparr>) = spos s" "spos (s\<lparr>sp_count := n\<rparr>) = spos s" "spos (s\<lparr>sp_max_id := x\<rparr>) = spos s"
  "sdat z (s\<lparr>sp_dense := d\<rparr>) = sdat z s" "sdat z (s\<lparr>sp_count := n\<rparr>) = sdat z s" "sdat z (s\<lparr>sp_max_id := x\<rparr>) = sdat z s"
  "mapped (s\<lparr>sp_dense := d\<rparr>) = mapped s" "mapped (s\<lparr>sp_count := n\<rparr>) = mapped s" "mapped (s\<lparr>sp_max_id := x\<rparr>) = mapped s"
  "pages_ok (s\<lparr>sp_dense := d\<rparr>) = pages_ok s" "pages_ok (s\<lparr>sp_count := n\<rparr>) = pages_ok s"
  "pages_ok (s\<lparr>sp_max_id := x\<rparr>) = pages_ok s"
  by (simp_all add: spos_def sdat_def mapped_def pages_ok_def fun_eq_iff)

text \<open>The fields that a change of pages and dense array leaves alone.\<close>

abbreviation sp_frame :: "'d ecs_sparse_t \<Rightarrow> 'd ecs_sparse_t \<Rightarrow> bool" where
  "sp_frame s' s \<equiv> sp_size s' = sp_size s \<and> sp_count s' = sp_count s \<and> sp_max_id s' = sp_max_id s"

section \<open>Reading pages\<close>

lemma get_page_ok:
  assumes "pages_ok s"
  shows "\<exists>p. flecs_sparse_get_page s i = Inr p \<and> (p = None \<or> page_sparse (the p) = None \<longleftrightarrow> page_sparse (sp_cell s i) = None) \<and>
    (page_sparse (sp_cell s i) \<noteq> None \<longrightarrow> p = Some (sp_cell s i))"
  using assms by (auto simp: flecs_sparse_get_page_def pages_ok_def sp_cell_def ecs_vec_count_def)

lemma get_page_mapped:
  assumes "pages_ok s"
  obtains p where "flecs_sparse_get_page s (FLECS_SPARSE_PAGE cid) = Inr p"
    "(p = None \<or> page_sparse (the p) = None) = (\<not> mapped s cid)" "mapped s cid \<Longrightarrow> p = Some (sp_cell s (FLECS_SPARSE_PAGE cid))"
proof -
  from get_page_ok [OF assms, of "FLECS_SPARSE_PAGE cid"] show thesis
    by (elim exE conjE) (rule that, simp_all add: mapped_def)
qed

lemma page_read_ok:
  "pages_ok s \<Longrightarrow> mapped s cid \<Longrightarrow> vec_read (sp_pages s) (FLECS_SPARSE_PAGE cid) = Inr (sp_cell s (FLECS_SPARSE_PAGE cid))"
  using mapped_bound [of s cid] by (simp add: pages_ok_def sp_cell_def)

lemma page_position_ok:
  assumes "pages_ok s" and "mapped s cid"
  shows "page_position s (FLECS_SPARSE_PAGE cid) (FLECS_SPARSE_OFFSET cid) = Inr (spos s (lo32 cid))"
  using assms page_read_ok [OF assms] by (auto simp: page_position_def mapped_def spos_def)

lemma data_ptr_ok:
  assumes "pages_ok s" and "mapped s cid"
  shows "data_ptr s (to64 (lo32 cid)) = Inr (if sp_size s \<noteq> 0 then Some (lo32 cid) else None)"
proof -
  have "page_data (sp_cell s (FLECS_SPARSE_PAGE cid)) \<noteq> None \<longleftrightarrow> sp_size s \<noteq> 0"
    using assms by (simp add: pages_ok_def mapped_def)
  then show ?thesis using page_read_ok [OF assms] by (auto simp: data_ptr_def split: option.split)
qed

lemma sparse_load_ok:
  assumes "pages_ok s" and "mapped s cid" and "sp_size s \<noteq> 0"
  shows "sparse_load s (lo32 cid) = Inr (sdat z s (lo32 cid))"
proof -
  have "page_data (sp_cell s (FLECS_SPARSE_PAGE cid)) \<noteq> None" using assms by (simp add: pages_ok_def mapped_def)
  then show ?thesis using page_read_ok [OF assms(1,2)] by (auto simp: sparse_load_def sdat_def)
qed

section \<open>Writing pages\<close>

definition set_cell :: "'d ecs_sparse_t \<Rightarrow> nat \<Rightarrow> 'd ecs_sparse_page_t \<Rightarrow> 'd ecs_sparse_t" where
  "set_cell s i p = s\<lparr>sp_pages := vec_upd (sp_pages s) i p\<rparr>"

lemma set_cell_ok:
  assumes "vec_ok (sp_pages s)" and "i < vec_count (sp_pages s)"
  shows "sp_cell (set_cell s i p) j = (if j = i then p else sp_cell s j)" "vec_ok (sp_pages (set_cell s i p))"
    "vec_count (sp_pages (set_cell s i p)) = vec_count (sp_pages s)"
    "vec_size (sp_pages (set_cell s i p)) = vec_size (sp_pages s)"
  using assms by (auto simp: set_cell_def sp_cell_def)

lemma set_cell_fields [simp]:
  "sp_dense (set_cell s i p) = sp_dense s" "sp_size (set_cell s i p) = sp_size s"
  "sp_count (set_cell s i p) = sp_count s" "sp_max_id (set_cell s i p) = sp_max_id s"
  by (simp_all add: set_cell_def)

text \<open>What a change of one page does to the positions and the elements.\<close>

lemma set_cell_views:
  assumes ok: "pages_ok s" and m: "mapped s cid"
    and p: "page_sparse p \<noteq> None" "page_data p \<noteq> None \<longleftrightarrow> sp_size s \<noteq> 0"
  shows "pages_ok (set_cell s (FLECS_SPARSE_PAGE cid) p)"
    and "mapped (set_cell s (FLECS_SPARSE_PAGE cid) p) c = mapped s c"
proof -
  have v: "vec_ok (sp_pages s)" using ok by (simp add: pages_ok_def)
  note S = set_cell_ok [OF v mapped_bound [OF m], of p]
  show "pages_ok (set_cell s (FLECS_SPARSE_PAGE cid) p)" using ok p S by (auto simp: pages_ok_def)
  show "mapped (set_cell s (FLECS_SPARSE_PAGE cid) p) c = mapped s c" using m p S by (auto simp: mapped_def)
qed

lemma set_page_position_ok:
  assumes ok: "pages_ok s" and m: "mapped s cid"
  shows "\<exists>s'. set_page_position s (FLECS_SPARSE_PAGE cid) (FLECS_SPARSE_OFFSET cid) d = Inr s' \<and> pages_ok s' \<and>
    sp_frame s' s \<and> sp_dense s' = sp_dense s \<and> mapped s' = mapped s \<and> spos s' = (spos s)(lo32 cid := d) \<and> sdat z s' = sdat z s \<and>
    vec_size (sp_pages s') = vec_size (sp_pages s)"
proof -
  obtain a where a: "page_sparse (sp_cell s (FLECS_SPARSE_PAGE cid)) = Some a" using m by (auto simp: mapped_def)
  let ?p = "(sp_cell s (FLECS_SPARSE_PAGE cid))\<lparr>page_sparse := Some (a(FLECS_SPARSE_OFFSET cid := d))\<rparr>"
  let ?s = "set_cell s (FLECS_SPARSE_PAGE cid) ?p"
  have v: "vec_ok (sp_pages s)" using ok by (simp add: pages_ok_def)
  note b = mapped_bound [OF m]
  note S = set_cell_ok [OF v b, of ?p]
  have "page_data (sp_cell s (FLECS_SPARSE_PAGE cid)) \<noteq> None \<longleftrightarrow> sp_size s \<noteq> 0" using ok m by (simp add: pages_ok_def mapped_def)
  then have views: "pages_ok ?s" "mapped ?s c = mapped s c" for c using set_cell_views [OF ok m, of ?p] by simp_all
  have "spos ?s i = ((spos s)(lo32 cid := d)) i" for i
  proof (cases "i = lo32 cid")
    case True
    then show ?thesis by (simp add: spos_def S)
  next
    case False
    then have "FLECS_SPARSE_PAGE (to64 i) = FLECS_SPARSE_PAGE cid \<Longrightarrow> FLECS_SPARSE_OFFSET (to64 i) \<noteq> FLECS_SPARSE_OFFSET cid"
      using sparse_slot_inj [of "to64 i" cid] by auto
    then show ?thesis using False a by (auto simp: spos_def S)
  qed
  moreover have "sdat z ?s i = sdat z s i" for i by (simp add: sdat_def S)
  moreover have "set_page_position s (FLECS_SPARSE_PAGE cid) (FLECS_SPARSE_OFFSET cid) d = Inr ?s"
    using page_read_ok [OF ok m] a b v by (simp add: set_page_position_def set_cell_def)
  ultimately show ?thesis using views S(4) by (intro exI [of _ ?s]) (auto simp: fun_eq_iff)
qed

lemma set_page_data_ok:
  assumes ok: "pages_ok s" and m: "mapped s cid" and size: "sp_size s \<noteq> 0"
  shows "\<exists>s'. set_page_data s (FLECS_SPARSE_PAGE cid) (FLECS_SPARSE_OFFSET cid) d = Inr s' \<and> pages_ok s' \<and>
    sp_frame s' s \<and> sp_dense s' = sp_dense s \<and> mapped s' = mapped s \<and> spos s' = spos s \<and> sdat z s' = (sdat z s)(lo32 cid := d)"
proof -
  have pd: "page_data (sp_cell s (FLECS_SPARSE_PAGE cid)) \<noteq> None" using assms by (simp add: pages_ok_def mapped_def)
  then obtain a where a: "page_data (sp_cell s (FLECS_SPARSE_PAGE cid)) = Some a" by blast
  let ?p = "(sp_cell s (FLECS_SPARSE_PAGE cid))\<lparr>page_data := Some (a(FLECS_SPARSE_OFFSET cid := d))\<rparr>"
  let ?s = "set_cell s (FLECS_SPARSE_PAGE cid) ?p"
  have v: "vec_ok (sp_pages s)" using ok by (simp add: pages_ok_def)
  note b = mapped_bound [OF m]
  note S = set_cell_ok [OF v b, of ?p]
  have views: "pages_ok ?s" "mapped ?s c = mapped s c" for c
    using set_cell_views [OF ok m, of ?p] m size by (simp_all add: mapped_def)
  have "sdat z ?s i = ((sdat z s)(lo32 cid := d)) i" for i
  proof (cases "i = lo32 cid")
    case True
    then show ?thesis by (simp add: sdat_def S)
  next
    case False
    then have "FLECS_SPARSE_PAGE (to64 i) = FLECS_SPARSE_PAGE cid \<Longrightarrow> FLECS_SPARSE_OFFSET (to64 i) \<noteq> FLECS_SPARSE_OFFSET cid"
      using sparse_slot_inj [of "to64 i" cid] by auto
    then show ?thesis using False a by (auto simp: sdat_def S)
  qed
  moreover have "spos ?s i = spos s i" for i by (simp add: spos_def S)
  moreover have "set_page_data s (FLECS_SPARSE_PAGE cid) (FLECS_SPARSE_OFFSET cid) d = Inr ?s"
    using page_read_ok [OF ok m] a b v by (simp add: set_page_data_def set_cell_def)
  ultimately show ?thesis using views by (intro exI [of _ ?s]) (auto simp: fun_eq_iff)
qed

section \<open>Creating pages\<close>

lemma page_grow_ok:
  assumes "vec_ok v" and "vec_count v \<le> n" and "n < 2 ^ 26"
  defines "w \<equiv> (ecs_vec_set_count v (n + 1))\<lparr>vec_array :=
    take (vec_count v) (vec_array (ecs_vec_set_count v (n + 1))) @ replicate (1 + n - vec_count v) (Some null_page) @
    drop (n + 1) (vec_array (ecs_vec_set_count v (n + 1)))\<rparr>"
  shows "vec_ok w" "vec_elems w = vec_elems v @ replicate (n + 1 - vec_count v) null_page" "vec_count w = n + 1" "vec_array w \<noteq> []"
proof -
  have wf: "vec_wf v" using assms(1) by (rule vec_okD)
  have b: "n + 1 \<le> 2 ^ 30" "vec_count v \<le> 2 ^ 30" using assms(2,3) by simp_all
  note G = ecs_vec_set_count_wf [OF wf b]
  have "vec_ok w \<and> vec_elems w = vec_elems v @ replicate (n + 1 - vec_count v) null_page"
    by (rule vec_okI) (use G assms(1,2) in \<open>auto simp: w_def vec_wf_def nth_append vec_ok_cell\<close>)
  then show "vec_ok w" "vec_elems w = vec_elems v @ replicate (n + 1 - vec_count v) null_page" by simp_all
  show "vec_count w = n + 1" using G by (simp add: w_def)
  show "vec_array w \<noteq> []" using assms(2) by (simp add: w_def)
qed

lemma page_new_ok:
  assumes ok: "pages_ok s" and new: "\<not> mapped s cid"
  shows "\<exists>s'. flecs_sparse_page_new z s (FLECS_SPARSE_PAGE cid) = Inr s' \<and> sp_frame s' s \<and> sp_dense s' = sp_dense s \<and>
    vec_ok (sp_pages s') \<and> vec_count (sp_pages s') \<le> 2 ^ 26 \<and>
    (\<forall>i. sp_cell s' i = (if i = FLECS_SPARSE_PAGE cid
       then \<lparr>page_sparse = Some (\<lambda>_. 0), page_data = if sp_size s \<noteq> 0 then Some (\<lambda>_. z) else None\<rparr> else sp_cell s i))"
proof -
  let ?n = "FLECS_SPARSE_PAGE cid" and ?v = "sp_pages s"
  let ?p = "\<lparr>page_sparse = Some (\<lambda>_. 0), page_data = if sp_size s \<noteq> 0 then Some (\<lambda>_. z) else None\<rparr>"
  define w where "w = (if vec_count ?v \<le> ?n then (ecs_vec_set_count ?v (?n + 1))\<lparr>vec_array :=
    take (vec_count ?v) (vec_array (ecs_vec_set_count ?v (?n + 1))) @ replicate (1 + ?n - vec_count ?v) (Some null_page) @
    drop (?n + 1) (vec_array (ecs_vec_set_count ?v (?n + 1)))\<rparr> else ?v)"
  have v: "vec_ok ?v" "vec_count ?v \<le> 2 ^ 26" using ok by (simp_all add: pages_ok_def)
  have W: "vec_ok w \<and> ?n < vec_count w \<and> vec_count w \<le> 2 ^ 26 \<and> vec_array w \<noteq> [] \<and>
    vec_elems w = vec_elems ?v @ replicate (vec_count w - vec_count ?v) null_page \<and> vec_count ?v \<le> vec_count w"
  proof (cases "vec_count ?v \<le> ?n")
    case True
    then show ?thesis using page_grow_ok [OF v(1) True sparse_page_bound] sparse_page_bound [of cid]
      unfolding w_def by (simp only: True if_True, simp)
  next
    case False
    then show ?thesis using v by (auto simp: w_def vec_ok_def vec_wf_def)
  qed
  then have w: "vec_ok w" "?n < vec_count w" "vec_count w \<le> 2 ^ 26" "vec_array w \<noteq> []"
    and wc: "vec_elems w = vec_elems ?v @ replicate (vec_count w - vec_count ?v) null_page" "vec_count ?v \<le> vec_count w"
    by simp_all
  have wn: "vec_elems w ! i = sp_cell s i" if "i < vec_count w" for i
    using that v(1) wc by (auto simp: sp_cell_def nth_append)
  have wo: "sp_cell s i = null_page" if "vec_count w \<le> i" for i using that wc(2) by (simp add: sp_cell_def)
  have cell: "page_sparse (sp_cell s ?n) = None" "page_data (sp_cell s ?n) = None"
    using new pages_ok_data [OF ok] by (simp_all add: mapped_def)
  have "flecs_sparse_page_new z s ?n = Inr (s\<lparr>sp_pages := vec_upd w ?n ?p\<rparr>)"
    unfolding flecs_sparse_page_new_def Let_def ecs_vec_count_def w_def [symmetric]
    using w(1,2,4) wn cell by simp
  moreover have "sp_cell (s\<lparr>sp_pages := vec_upd w ?n p\<rparr>) i = (if i = ?n then p else sp_cell s i)" for i p
  proof -
    have "sp_cell (s\<lparr>sp_pages := vec_upd w ?n p\<rparr>) i = (if i < vec_count w then (vec_elems w)[?n := p] ! i else null_page)"
      using w(1,2) by (simp add: sp_cell_def)
    then show ?thesis using w(1,2) wn [of i] wo [of i] by auto
  qed
  ultimately show ?thesis using w(1-3) by (intro exI [of _ "s\<lparr>sp_pages := vec_upd w ?n ?p\<rparr>"]) simp
qed

lemma get_or_create_page_ok:
  assumes ok: "pages_ok s"
  shows "\<exists>s'. flecs_sparse_get_or_create_page z s (FLECS_SPARSE_PAGE cid) = Inr s' \<and> pages_ok s' \<and> mapped s' cid \<and>
    sp_frame s' s \<and> sp_dense s' = sp_dense s \<and> spos s' = spos s \<and> sdat z s' = sdat z s \<and> (mapped s cid \<longrightarrow> s' = s)"
proof (cases "mapped s cid")
  case True
  have "page_data (sp_cell s (FLECS_SPARSE_PAGE cid)) \<noteq> None \<or> sp_size s = 0"
    using pages_ok_data [OF ok] True by (auto simp: mapped_def)
  then have "flecs_sparse_get_or_create_page z s (FLECS_SPARSE_PAGE cid) = Inr s"
    using get_page_ok [OF ok, of "FLECS_SPARSE_PAGE cid"] True
    by (auto simp: flecs_sparse_get_or_create_page_def mapped_def)
  with True ok show ?thesis by (intro exI [of _ s]) simp
next
  case False
  obtain s' where s': "flecs_sparse_page_new z s (FLECS_SPARSE_PAGE cid) = Inr s'" "sp_frame s' s" "sp_dense s' = sp_dense s"
    "vec_ok (sp_pages s')" "vec_count (sp_pages s') \<le> 2 ^ 26"
    and cell: "sp_cell s' i = (if i = FLECS_SPARSE_PAGE cid
       then \<lparr>page_sparse = Some (\<lambda>_. 0), page_data = if sp_size s \<noteq> 0 then Some (\<lambda>_. z) else None\<rparr> else sp_cell s i)" for i
    using page_new_ok [OF ok False, of z] by blast
  have size: "sp_size s' = sp_size s" using s'(2) by simp
  have none: "page_sparse (sp_cell s (FLECS_SPARSE_PAGE cid)) = None" "page_data (sp_cell s (FLECS_SPARSE_PAGE cid)) = None"
    using False pages_ok_data [OF ok] by (simp_all add: mapped_def)
  have "flecs_sparse_get_or_create_page z s (FLECS_SPARSE_PAGE cid) = Inr s'"
    using get_page_ok [OF ok, of "FLECS_SPARSE_PAGE cid"] none(1) s'(1)
    by (auto simp: flecs_sparse_get_or_create_page_def split: option.split)
  moreover have "pages_ok s'" using s'(4,5) pages_ok_data [OF ok] by (simp add: pages_ok_def cell size)
  moreover have "mapped s' cid" by (simp add: mapped_def cell)
  moreover have "spos s' i = spos s i" "sdat z s' i = sdat z s i" for i
    using none by (auto simp: spos_def sdat_def cell)
  ultimately show ?thesis using s'(2,3) False by (intro exI [of _ s']) (auto simp: fun_eq_iff)
qed

section \<open>Dense elements\<close>

lemma assign_index_ok:
  assumes ok: "pages_ok s" and m: "mapped s cid" and d: "vec_wf (sp_dense s)" "n < vec_count (sp_dense s)"
  shows "\<exists>s'. flecs_sparse_assign_index s (FLECS_SPARSE_PAGE cid) cid n = Inr s' \<and> pages_ok s' \<and>
    sp_frame s' s \<and> sp_dense s' = vec_upd (sp_dense s) n cid \<and> mapped s' = mapped s \<and>
    spos s' = (spos s)(lo32 cid := n) \<and> sdat z s' = sdat z s \<and> vec_size (sp_pages s') = vec_size (sp_pages s)"
proof -
  obtain t where t: "set_page_position s (FLECS_SPARSE_PAGE cid) (FLECS_SPARSE_OFFSET cid) n = Inr t" "pages_ok t"
    "sp_frame t s" "sp_dense t = sp_dense s" "mapped t = mapped s" "spos t = (spos s)(lo32 cid := n)" "sdat z t = sdat z s"
    "vec_size (sp_pages t) = vec_size (sp_pages s)"
    using set_page_position_ok [OF ok m, of n z] by blast
  let ?t = "t\<lparr>sp_dense := vec_upd (sp_dense s) n cid\<rparr>"
  have "flecs_sparse_assign_index s (FLECS_SPARSE_PAGE cid) cid n = Inr ?t"
    using t(1,4) d by (simp add: flecs_sparse_assign_index_def)
  then show ?thesis using t(2-8) by (intro exI [of _ ?t]) simp
qed

text \<open>The part of the invariant that concerns the pages and the dense array.\<close>

definition sparse_core :: "'d ecs_sparse_t \<Rightarrow> bool" where
  "sparse_core s \<longleftrightarrow> pages_ok s \<and> vec_ok (sp_dense s) \<and> dense_consistent lo32 (vec_elems (sp_dense s)) (spos s)"

abbreviation dense_ids :: "'d ecs_sparse_t \<Rightarrow> u64 list" where
  "dense_ids s \<equiv> vec_elems (sp_dense s)"

lemma swap_dense_ok:
  assumes core: "sparse_core s" and a: "0 < a" "a < vec_count (sp_dense s)" and b: "0 < b" "b < vec_count (sp_dense s)"
  shows "\<exists>s'. flecs_sparse_swap_dense z s (FLECS_SPARSE_PAGE (dense_ids s ! a)) a b = Inr s' \<and> sparse_core s' \<and>
    sp_frame s' s \<and> mapped s' = mapped s \<and> sdat z s' = sdat z s \<and>
    dense_ids s' = (dense_ids s)[a := dense_ids s ! b, b := dense_ids s ! a] \<and>
    spos s' = (spos s)(lo32 (dense_ids s ! b) := a, lo32 (dense_ids s ! a) := b)"
proof -
  let ?D = "dense_ids s"
  have ok: "pages_ok s" "vec_ok (sp_dense s)" and D: "dense_consistent lo32 ?D (spos s)"
    using core by (simp_all add: sparse_core_def)
  have len: "length ?D = vec_count (sp_dense s)" using ok(2) by simp
  have pos: "spos s (lo32 (?D ! a)) = a" "spos s (lo32 (?D ! b)) = b"
    using dense_consistentD(1) [OF D] a b len by simp_all
  then have m: "mapped s (?D ! a)" "mapped s (?D ! b)" using a b spos_mapped by metis+
  have create: "flecs_sparse_get_or_create_page z s (FLECS_SPARSE_PAGE (?D ! b)) = Inr s"
    using get_or_create_page_ok [OF ok(1), of z "?D ! b"] m(2) by auto
  have wf: "vec_wf (sp_dense s)" using ok(2) by (rule vec_okD)
  obtain t where t: "flecs_sparse_assign_index s (FLECS_SPARSE_PAGE (?D ! a)) (?D ! a) b = Inr t" "pages_ok t"
    "sp_frame t s" "sp_dense t = vec_upd (sp_dense s) b (?D ! a)" "mapped t = mapped s"
    "spos t = (spos s)(lo32 (?D ! a) := b)" "sdat z t = sdat z s"
    using assign_index_ok [OF ok(1) m(1) wf b(2), of z] by blast
  have tm: "mapped t (?D ! b)" "vec_wf (sp_dense t)" "a < vec_count (sp_dense t)"
    using t(4,5) m(2) wf b a by simp_all
  obtain u where u: "flecs_sparse_assign_index t (FLECS_SPARSE_PAGE (?D ! b)) (?D ! b) a = Inr u" "pages_ok u"
    "sp_frame u t" "sp_dense u = vec_upd (sp_dense t) a (?D ! b)" "mapped u = mapped t"
    "spos u = (spos t)(lo32 (?D ! b) := a)" "sdat z u = sdat z t"
    using assign_index_ok [OF t(2) tm, of z] by blast
  have run: "flecs_sparse_swap_dense z s (FLECS_SPARSE_PAGE (?D ! a)) a b = Inr u"
    using a b ok(2) create t(1) u(1) by (simp add: flecs_sparse_swap_dense_def Let_def)
  have ud: "sp_dense u = vec_upd (vec_upd (sp_dense s) b (?D ! a)) a (?D ! b)" using t(4) u(4) by simp
  have same: "lo32 (?D ! a) = lo32 (?D ! b) \<longleftrightarrow> a = b" using pos by metis
  have elems: "dense_ids u = ?D[a := ?D ! b, b := ?D ! a]"
    using ok(2) a b by (cases "a = b") (simp_all add: ud list_update_swap)
  have upos: "spos u = (spos s)(lo32 (?D ! b) := a, lo32 (?D ! a) := b)"
    using t(6) u(6) same by (cases "a = b") (auto simp: fun_eq_iff)
  have "dense_consistent lo32 (?D[a := ?D ! b, b := ?D ! a]) ((spos s)(lo32 (?D ! b) := a, lo32 (?D ! a) := b))"
    using dense_consistent_exchange [OF D a(1) _ b(1), of "?D ! a"] a b len by simp
  moreover have "vec_ok (sp_dense u)" using ok(2) a b by (simp add: ud)
  ultimately have "sparse_core u" using u(2) elems upos by (simp add: sparse_core_def)
  then show ?thesis using run elems upos t(3,5,7) u(3,5,7) by (intro exI [of _ u]) simp
qed

end
