(* ===== verification/Sparse_Set.thy ===== *)
theory Sparse_Set
  imports Sparse_Facts
begin

text \<open>
  The sparse set as a map: the invariant that every operation keeps, the finite map that a set stands for,
  the effect of the operations on it, and the properties of the sparse set.
\<close>

section \<open>The invariant\<close>

definition salive :: "'d ecs_sparse_t \<Rightarrow> u32 \<Rightarrow> bool" where
  "salive s i \<longleftrightarrow> 0 < spos s i \<and> spos s i < sp_count s"

definition sparse_inv :: "'d \<Rightarrow> 'd ecs_sparse_t \<Rightarrow> bool" where
  "sparse_inv z s \<longleftrightarrow> sparse_core s \<and> 1 \<le> sp_count s \<and> sp_count s \<le> vec_count (sp_dense s) \<and>
     (\<forall>i. \<not> salive s i \<longrightarrow> sdat z s i = z)"

text \<open>
  What is known of an index: nothing, that it has been removed and waits for recycling, or its element.
\<close>

definition sabs :: "'d \<Rightarrow> 'd ecs_sparse_t \<Rightarrow> u32 \<Rightarrow> 'd option option" where
  "sabs z s i = (if spos s i = 0 then None else Some (if spos s i < sp_count s then Some (sdat z s i) else None))"

lemma sparse_invD:
  assumes "sparse_inv z s"
  shows "sparse_core s" "pages_ok s" "vec_ok (sp_dense s)" "dense_consistent lo32 (dense_ids s) (spos s)"
    "1 \<le> sp_count s" "sp_count s \<le> vec_count (sp_dense s)" "length (dense_ids s) = vec_count (sp_dense s)"
    "\<not> salive s i \<Longrightarrow> sdat z s i = z"
  using assms by (auto simp: sparse_inv_def sparse_core_def)

lemma spos_iff:
  assumes "sparse_core s" and "0 < n" and "n < vec_count (sp_dense s)"
  shows "spos s i = n \<longleftrightarrow> i = lo32 (dense_ids s ! n)"
proof -
  have D: "dense_consistent lo32 (dense_ids s) (spos s)" "length (dense_ids s) = vec_count (sp_dense s)"
    using assms(1) by (simp_all add: sparse_core_def)
  show ?thesis using dense_consistentD(1,3) [OF D(1)] assms(2,3) D(2) by metis
qed

lemma spos_bound: "sparse_core s \<Longrightarrow> 0 < spos s i \<Longrightarrow> spos s i < vec_count (sp_dense s)"
  using dense_consistentD(2) by (fastforce simp: sparse_core_def)

text \<open>A change of the set keeps the invariant when the element of the index that it is about is right.\<close>

lemma sparse_inv_update:
  assumes "sparse_core s'" and "1 \<le> sp_count s'" and "sp_count s' \<le> vec_count (sp_dense s')"
    and abs: "sabs z s' = (sabs z s)(i := r)" and "sparse_inv z s" and "sdat z s' = (sdat z s)(i := d)"
    and "\<not> salive s' i \<Longrightarrow> d = z"
  shows "sparse_inv z s'"
proof -
  have "salive s' j = salive s j" if "j \<noteq> i" for j
  proof -
    have "sabs z s' j = sabs z s j" using abs that by simp
    then show ?thesis by (auto simp: sabs_def salive_def split: if_splits)
  qed
  then show ?thesis using assms sparse_invD(8) [OF assms(5)] by (auto simp: sparse_inv_def)
qed

lemma sparse_init_ok:
  "\<exists>s. flecs_sparse_init n = Inr s \<and> sparse_inv z s \<and> sabs z s = Map.empty \<and> sp_size s = n \<and> vec_count (sp_dense s) = 1"
proof -
  let ?v = "vec_upd ((ecs_vec_init 1)\<lparr>vec_count := 1\<rparr>) 0 (0 :: u64)"
  let ?s = "\<lparr>sp_dense = ?v, sp_pages = ecs_vec_init 0, sp_size = n, sp_count = 1, sp_max_id = - 1\<rparr>"
  have v: "vec_ok ?v" "vec_elems ?v = [0]" "vec_count ?v = 1"
    by (simp_all add: vec_ok_def vec_wf_def vec_upd_def vec_elems_def ecs_vec_init_def ecs_vec_init_w_dbg_info_def flecs_vec_alloc_def)
  have run: "flecs_sparse_init n = Inr ?s"
    by (simp add: flecs_sparse_init_def vec_write_def vec_upd_def ecs_vec_init_def ecs_vec_init_w_dbg_info_def flecs_vec_alloc_def)
  have cell: "sp_cell ?s i = null_page" for i by (simp add: sp_cell_def)
  have "spos ?s i = 0" "sdat z ?s i = z" for i unfolding spos_def sdat_def cell by simp_all
  moreover have "pages_ok ?s" unfolding pages_ok_def cell by simp
  ultimately have "sparse_inv z ?s" "sabs z ?s = Map.empty"
    using v by (auto simp: sparse_inv_def sparse_core_def dense_consistent_def sabs_def fun_eq_iff)
  then show ?thesis using run v(3) by (intro exI [of _ ?s]) simp
qed

section \<open>Adding\<close>

lemma vec_append_facts:
  assumes "vec_ok v" and "vec_count v < 2 ^ 30"
  shows "vec_wf (fst (ecs_vec_append v))" "vec_count (fst (ecs_vec_append v)) = Suc (vec_count v)"
    "vec_upd (fst (ecs_vec_append v)) (vec_count v) x = vec_snoc v x"
    "n < vec_count v \<Longrightarrow> vec_read (fst (ecs_vec_append v)) n = Inr (vec_elems v ! n)"
proof -
  obtain v' k where a: "ecs_vec_append v = (v', k)" by (cases "ecs_vec_append v")
  note w = ecs_vec_append_wf [OF vec_okD [OF assms(1)] assms(2) a]
  show "vec_wf (fst (ecs_vec_append v))" "vec_count (fst (ecs_vec_append v)) = Suc (vec_count v)" using a w by simp_all
  show "vec_upd (fst (ecs_vec_append v)) (vec_count v) x = vec_snoc v x" using a w(2) by (simp add: vec_snoc_def)
  show "vec_read (fst (ecs_vec_append v)) n = Inr (vec_elems v ! n)" if "n < vec_count v"
    using that a w(1,3) w(4) [OF that] vec_ok_cell [OF assms(1) that] by (simp add: vec_read_def vec_wf_def)
qed

lemma ensure_unpaired_ok:
  assumes core: "sparse_core s" and m: "mapped s cid" and new: "spos s (lo32 cid) = 0"
    and c: "1 \<le> sp_count s" "sp_count s \<le> vec_count (sp_dense s)" and room: "vec_count (sp_dense s) < 2 ^ 30"
  defines "E \<equiv> dense_ids s @ [cid]" and "n \<equiv> vec_count (sp_dense s)"
  shows "\<exists>s'. ensure_unpaired z s cid = Inr s' \<and> sparse_core s' \<and> sp_size s' = sp_size s \<and> sp_count s' = sp_count s + 1 \<and>
    mapped s' = mapped s \<and> sdat z s' = sdat z s \<and> dense_ids s' = E[n := E ! sp_count s, sp_count s := cid] \<and>
    vec_count (sp_dense s') = Suc n \<and> spos s' = (spos s)(lo32 (E ! sp_count s) := n, lo32 cid := sp_count s)"
proof -
  let ?D = "dense_ids s" and ?v = "sp_dense s" and ?c = "sp_count s"
  have ok: "pages_ok s" "vec_ok ?v" and D: "dense_consistent lo32 ?D (spos s)"
    using core by (simp_all add: sparse_core_def)
  have len: "length ?D = n" using ok(2) by (simp add: n_def)
  note A = vec_append_facts [OF ok(2) room]
  define t where "t = (let t = s\<lparr>sp_dense := fst (ecs_vec_append ?v), sp_count := ?c + 1\<rparr> in
    if to64 (lo32 cid) \<ge> sp_max_id t then t\<lparr>sp_max_id := to64 (lo32 cid)\<rparr> else t)"
  have t: "pages_ok t" "mapped t = mapped s" "spos t = spos s" "sdat z t = sdat z s" "sp_size t = sp_size s"
    "sp_count t = ?c + 1" "sp_dense t = fst (ecs_vec_append ?v)"
    using ok(1) by (simp_all add: t_def Let_def)
  have unfold: "ensure_unpaired z s cid = bindr (if ?c < n then
      bindr (vec_read (sp_dense t) ?c) (\<lambda>unused.
      bindr (flecs_sparse_get_or_create_page z t (FLECS_SPARSE_PAGE unused)) (\<lambda>u.
      bindr (defined_if (vec_size (sp_pages u) = vec_size (sp_pages t))) (\<lambda>_.
      flecs_sparse_assign_index u (FLECS_SPARSE_PAGE unused) unused n)))
    else Inr t) (\<lambda>u. flecs_sparse_assign_index u (FLECS_SPARSE_PAGE cid) cid ?c)"
    using A(2) by (simp add: ensure_unpaired_def Let_def flecs_sparse_grow_dense_def flecs_sparse_get_id_def
        flecs_sparse_set_id_def ecs_vec_count_def t_def n_def)
  have tw: "vec_wf (sp_dense t)" "n < vec_count (sp_dense t)" using A(1,2) t(7) by (simp_all add: n_def)
  have cons: "dense_consistent lo32 (E[n := E ! ?c, ?c := cid]) ((spos s)(lo32 (E ! ?c) := n, lo32 cid := ?c))"
  proof -
    have "dense_consistent lo32 E ((spos s)(lo32 cid := n))"
      using dense_consistent_append [OF D, of cid] new c len by (simp add: E_def n_def)
    from dense_consistent_exchange [OF this, of n ?c cid]
    show ?thesis using c len by (simp add: E_def n_def nth_append fun_upd_twist cong: if_cong)
  qed
  show ?thesis
  proof (cases "?c < n")
    case True
    let ?u = "?D ! ?c"
    have E: "E ! ?c = ?u" using True len by (simp add: E_def nth_append)
    have "spos s (lo32 ?u) = ?c" using spos_iff [OF core, of ?c] c True by (simp add: n_def)
    then have mu: "mapped t ?u" using c t(2) spos_mapped [of s ?u] by simp
    have create: "flecs_sparse_get_or_create_page z t (FLECS_SPARSE_PAGE ?u) = Inr t"
      using get_or_create_page_ok [OF t(1), of z ?u] mu by auto
    obtain u where u: "flecs_sparse_assign_index t (FLECS_SPARSE_PAGE ?u) ?u n = Inr u" "pages_ok u" "sp_frame u t"
      "sp_dense u = vec_upd (sp_dense t) n ?u" "mapped u = mapped t" "spos u = (spos t)(lo32 ?u := n)" "sdat z u = sdat z t"
      using assign_index_ok [OF t(1) mu tw, of z] by blast
    have ud: "sp_dense u = vec_snoc ?v ?u" using u(4) t(7) A(3) by (simp add: n_def)
    have uw: "vec_ok (sp_dense u)" "vec_elems (sp_dense u) = ?D @ [?u]" "vec_count (sp_dense u) = Suc n"
      using ok(2) room by (simp_all add: ud n_def)
    have um: "mapped u cid" "vec_wf (sp_dense u)" "?c < vec_count (sp_dense u)"
      using m u(5) t(2) uw True vec_okD by simp_all
    obtain w where w: "flecs_sparse_assign_index u (FLECS_SPARSE_PAGE cid) cid ?c = Inr w" "pages_ok w" "sp_frame w u"
      "sp_dense w = vec_upd (sp_dense u) ?c cid" "mapped w = mapped u" "spos w = (spos u)(lo32 cid := ?c)" "sdat z w = sdat z u"
      using assign_index_ok [OF u(2) um, of z] by blast
    have read: "vec_read (sp_dense t) ?c = Inr ?u" using A(4) [of ?c] True t(7) by (simp add: n_def)
    have run: "ensure_unpaired z s cid = Inr w" unfolding unfold using True read create u(1) w(1) by simp
    have elems: "dense_ids w = E[n := E ! ?c, ?c := cid]"
      using w(4) uw um(3) len True by (simp add: E_def nth_append list_update_append)
    have pos: "spos w = (spos s)(lo32 (E ! ?c) := n, lo32 cid := ?c)" using w(6) u(6) t(3) E by simp
    have "sparse_core w" using cons w(2,4) uw(1) um(3) elems pos by (simp add: sparse_core_def)
    then show ?thesis using run elems pos w(3-5,7) u(3,5,7) t uw(3) by (intro exI [of _ w]) simp
  next
    case False
    then have cn: "?c = n" using c(2) by (simp add: n_def)
    have tm: "mapped t cid" using m t(2) by simp
    obtain w where w: "flecs_sparse_assign_index t (FLECS_SPARSE_PAGE cid) cid n = Inr w" "pages_ok w" "sp_frame w t"
      "sp_dense w = vec_upd (sp_dense t) n cid" "mapped w = mapped t" "spos w = (spos t)(lo32 cid := n)" "sdat z w = sdat z t"
      using assign_index_ok [OF t(1) tm tw, of z] by blast
    have wd: "sp_dense w = vec_snoc ?v cid" using w(4) t(7) A(3) by (simp add: n_def)
    have E: "E ! n = cid" using len by (simp add: E_def nth_append)
    have elems: "dense_ids w = E[n := E ! ?c, ?c := cid]" "vec_ok (sp_dense w)" "vec_count (sp_dense w) = Suc n"
      using ok(2) room len E cn by (simp_all add: wd E_def n_def list_update_append)
    have pos: "spos w = (spos s)(lo32 (E ! ?c) := n, lo32 cid := ?c)" using w(6) t(3) E cn by simp
    have "ensure_unpaired z s cid = Inr w" unfolding unfold using cn w(1) by simp
    moreover have "sparse_core w" using cons w(2) elems(1,2) pos by (simp add: sparse_core_def)
    ultimately show ?thesis using elems pos w(3,5,7) t by (intro exI [of _ w]) simp
  qed
qed

lemma sparse_core_cong:
  "sparse_core s \<Longrightarrow> pages_ok s' \<Longrightarrow> sp_dense s' = sp_dense s \<Longrightarrow> spos s' = spos s \<Longrightarrow> sparse_core s'"
  by (simp add: sparse_core_def)

text \<open>The element that \<open>flecs_sparse_ensure\<close> brings to life, once its page exists.\<close>

lemma ensure_revive_ok:
  assumes core: "sparse_core s" and dead: "0 < spos s (lo32 cid)" "sp_count s \<le> spos s (lo32 cid)" and c: "1 \<le> sp_count s"
  defines "p \<equiv> spos s (lo32 cid)" and "n \<equiv> sp_count s"
  shows "\<exists>u. flecs_sparse_swap_dense z s (FLECS_SPARSE_PAGE cid) p n = Inr u \<and> vec_write (sp_dense u) n cid = Inr (vec_upd (sp_dense u) n cid) \<and>
    sp_frame u s \<and> mapped u = mapped s \<and> sdat z u = sdat z s \<and> vec_count (sp_dense u) = vec_count (sp_dense s) \<and>
    sparse_core (u\<lparr>sp_dense := vec_upd (sp_dense u) n cid\<rparr>) \<and>
    spos u = (spos s)(lo32 (dense_ids s ! n) := p, lo32 cid := n) \<and> vec_elems (vec_upd (sp_dense u) n cid) ! n = cid"
proof -
  let ?D = "dense_ids s"
  have p: "0 < p" "p < vec_count (sp_dense s)" "n \<le> p" "0 < n" using dead spos_bound [OF core dead(1)] c by (simp_all add: p_def n_def)
  have ok: "vec_ok (sp_dense s)" and D: "dense_consistent lo32 ?D (spos s)" using core by (simp_all add: sparse_core_def)
  have key: "lo32 (?D ! p) = lo32 cid" using spos_iff [OF core p(1,2), of "lo32 cid"] by (simp add: p_def)
  have n: "n < vec_count (sp_dense s)" using p by simp
  have "FLECS_SPARSE_PAGE (?D ! p) = FLECS_SPARSE_PAGE cid" using sparse_slot_low(1) [of "?D ! p"] key by simp
  with swap_dense_ok [OF core p(1,2) p(4) n, of z] obtain u where
    u: "flecs_sparse_swap_dense z s (FLECS_SPARSE_PAGE cid) p n = Inr u" "sparse_core u" "sp_frame u s" "mapped u = mapped s"
    "sdat z u = sdat z s" "dense_ids u = ?D[p := ?D ! n, n := ?D ! p]" "spos u = (spos s)(lo32 (?D ! n) := p, lo32 cid := n)"
    unfolding key by auto
  have uo: "vec_ok (sp_dense u)" using u(2) by (simp add: sparse_core_def)
  have len: "length ?D = vec_count (sp_dense s)" "length (dense_ids u) = vec_count (sp_dense u)" using ok uo by simp_all
  then have cnt: "vec_count (sp_dense u) = vec_count (sp_dense s)" using u(6) by simp
  have elems: "vec_elems (vec_upd (sp_dense u) n cid) = ?D[p := ?D ! n, n := cid]" using uo n cnt u(6) by simp
  have "dense_consistent lo32 (?D[p := ?D ! n, n := cid]) (spos u)"
    using dense_consistent_exchange [OF D p(1) _ p(4), of cid] p n len(1) key u(7) by simp
  then have "sparse_core (u\<lparr>sp_dense := vec_upd (sp_dense u) n cid\<rparr>)"
    using u(2) uo n cnt elems by (simp add: sparse_core_def)
  moreover have "vec_elems (vec_upd (sp_dense u) n cid) ! n = cid" using elems n len(1) by simp
  ultimately show ?thesis using u cnt uo n by (intro exI [of _ u]) simp
qed

lemma ensure_ok:
  assumes inv: "sparse_inv z s" and size: "size' = 0 \<or> size' = sp_size s" and room: "vec_count (sp_dense s) < 2 ^ 30"
  shows "\<exists>s'. flecs_sparse_ensure z s size' cid = Inr (s', if sp_size s \<noteq> 0 then Some (lo32 cid) else None, \<not> salive s (lo32 cid)) \<and>
    sparse_inv z s' \<and> sp_size s' = sp_size s \<and> vec_count (sp_dense s') \<le> Suc (vec_count (sp_dense s)) \<and>
    sabs z s' = (sabs z s)(lo32 cid \<mapsto> Some (sdat z s (lo32 cid))) \<and>
    (\<not> salive s (lo32 cid) \<longrightarrow> dense_ids s' ! spos s' (lo32 cid) = cid)"
proof -
  let ?i = "lo32 cid"
  note I = sparse_invD [OF inv]
  obtain t where t: "flecs_sparse_get_or_create_page z s (FLECS_SPARSE_PAGE cid) = Inr t" "pages_ok t" "mapped t cid"
    "sp_frame t s" "sp_dense t = sp_dense s" "spos t = spos s" "sdat z t = sdat z s"
    using get_or_create_page_ok [OF I(2), of z cid] by blast
  have tc: "sparse_core t" using sparse_core_cong [OF I(1) t(2,5,6)] .
  have pos: "page_position t (FLECS_SPARSE_PAGE cid) (FLECS_SPARSE_OFFSET cid) = Inr (spos s ?i)"
    using page_position_ok [OF t(2,3)] t(6) by simp
  have cnt: "0 < ecs_vec_count (sp_dense s)" using I(5,6) by (simp add: ecs_vec_count_def)
  note unfold = flecs_sparse_ensure_def [of z s size' cid] Let_def sparse_slot_low ecs_assert_simps(1) [OF size]
    ecs_assert_simps(1) [OF cnt] bindr_Inr t(1) pos
  consider (new) "spos s ?i = 0" | (dead) "0 < spos s ?i" "sp_count s \<le> spos s ?i" | (alive) "0 < spos s ?i" "spos s ?i < sp_count s" by linarith
  then show ?thesis
  proof cases
    case alive
    then have al: "salive s ?i" by (simp add: salive_def)
    have "flecs_sparse_ensure z s size' cid = Inr (t, if sp_size s \<noteq> 0 then Some ?i else None, False)"
      using alive t(4) data_ptr_ok [OF t(2,3)] unfolding unfold by simp
    moreover have "sparse_inv z t" using inv tc t(4-7) by (simp add: sparse_inv_def salive_def)
    moreover have "sabs z t = (sabs z s)(?i \<mapsto> Some (sdat z s ?i))" using t(4,6,7) alive by (auto simp: sabs_def fun_eq_iff)
    ultimately show ?thesis using al t(4,5) by (intro exI [of _ t]) simp
  next
    case dead
    then have al: "\<not> salive s ?i" by (simp add: salive_def)
    let ?n = "sp_count s" and ?p = "spos s ?i"
    have td: "0 < spos t ?i" "sp_count t \<le> spos t ?i" "1 \<le> sp_count t" using dead I(5) t(4,6) by simp_all
    obtain u where u: "flecs_sparse_swap_dense z t (FLECS_SPARSE_PAGE cid) ?p ?n = Inr u"
      "vec_write (sp_dense u) ?n cid = Inr (vec_upd (sp_dense u) ?n cid)" "sp_frame u t" "mapped u = mapped t" "sdat z u = sdat z t"
      "vec_count (sp_dense u) = vec_count (sp_dense t)" "sparse_core (u\<lparr>sp_dense := vec_upd (sp_dense u) ?n cid\<rparr>)"
      "spos u = (spos t)(lo32 (dense_ids t ! ?n) := ?p, ?i := ?n)" "vec_elems (vec_upd (sp_dense u) ?n cid) ! ?n = cid"
      using ensure_revive_ok [OF tc td, of z] t(4,6) by auto
    let ?s = "u\<lparr>sp_count := ?n + 1, sp_dense := vec_upd (sp_dense u) ?n cid\<rparr>"
    have core: "sparse_core ?s" using u(7) by (simp add: sparse_core_def)
    have sm: "pages_ok ?s" "mapped ?s cid" using core t(3) u(4) by (simp_all add: sparse_core_def)
    have run: "flecs_sparse_ensure z s size' cid = Inr (?s, if sp_size s \<noteq> 0 then Some ?i else None, True)"
      using dead u(1-3) t(4) data_ptr_ok [OF sm] unfolding unfold by simp
    have n: "0 < ?n" "?n < vec_count (sp_dense s)" using dead I(5) spos_bound [OF I(1) dead(1)] by simp_all
    have "sabs z ?s j = ((sabs z s)(?i \<mapsto> Some (sdat z s ?i))) j" for j
      using spos_iff [OF I(1) n, of j] spos_iff [OF I(1) n, of ?i] dead u(5,8) t(5-7) n by (auto simp: sabs_def)
    then have abs: "sabs z ?s = (sabs z s)(?i \<mapsto> Some (sdat z s ?i))" by (rule ext)
    have sd: "sdat z ?s = (sdat z s)(?i := sdat z s ?i)" using u(5) t(7) by simp
    have "sparse_inv z ?s"
      by (rule sparse_inv_update [OF core _ _ abs inv sd]) (use u(6) t(5) n I(8) [OF al] in simp_all)
    moreover have "dense_ids ?s ! spos ?s ?i = cid" using u(8,9) by simp
    ultimately show ?thesis using run abs al u(3,6) t(4,5) by (intro exI [of _ ?s]) simp
  next
    case new
    then have al: "\<not> salive s ?i" by (simp add: salive_def)
    let ?n = "sp_count s" and ?m = "vec_count (sp_dense s)"
    let ?E = "dense_ids t @ [cid]"
    have tn: "spos t ?i = 0" "1 \<le> sp_count t" "sp_count t \<le> vec_count (sp_dense t)" "vec_count (sp_dense t) < 2 ^ 30"
      using new t(4-6) I(5,6) room by simp_all
    obtain u where u: "ensure_unpaired z t cid = Inr u" "sparse_core u" "sp_size u = sp_size s" "sp_count u = ?n + 1"
      "mapped u = mapped t" "sdat z u = sdat z s" "dense_ids u = ?E[?m := ?E ! ?n, ?n := cid]"
      "vec_count (sp_dense u) = Suc ?m" "spos u = (spos s)(lo32 (?E ! ?n) := ?m, ?i := ?n)"
      using ensure_unpaired_ok [OF tc t(3) tn, of z] t(4-7) by auto
    have um: "pages_ok u" "mapped u cid" using u(2,5) t(3) by (simp_all add: sparse_core_def)
    have run: "flecs_sparse_ensure z s size' cid = Inr (u, if sp_size s \<noteq> 0 then Some ?i else None, True)"
      using new u(1,3) data_ptr_ok [OF um] unfolding unfold by simp
    have E: "?E ! ?n = (if ?n < ?m then dense_ids s ! ?n else cid)" using t(5) I(6,7) by (simp add: nth_append)
    have "sabs z u j = ((sabs z s)(?i \<mapsto> Some (sdat z s ?i))) j" for j
    proof (cases "j = ?i")
      case True
      then show ?thesis using u(4,6,9) I(5) by (simp add: sabs_def)
    next
      case False
      have "spos s j = ?n \<longleftrightarrow> ?n < ?m \<and> j = lo32 (dense_ids s ! ?n)"
        using spos_iff [OF I(1), of ?n j] spos_bound [OF I(1), of j] I(5) by (cases "?n < ?m") auto
      then show ?thesis using False u(4,6,9) E I(5,6) by (auto simp: sabs_def)
    qed
    then have abs: "sabs z u = (sabs z s)(?i \<mapsto> Some (sdat z s ?i))" by (rule ext)
    have sd: "sdat z u = (sdat z s)(?i := sdat z s ?i)" using u(6) by simp
    have "sparse_inv z u"
      by (rule sparse_inv_update [OF u(2) _ _ abs inv sd]) (use u(4,8) I(6) I(8) [OF al] in simp_all)
    moreover have "dense_ids u ! spos u ?i = cid" using u(7,9) I(6,7) t(5) by simp
    ultimately show ?thesis using run abs al u(3,8) by (intro exI [of _ u]) simp
  qed
qed

text \<open>A new id: one that waits for recycling, or the next one after \<open>max_id\<close>.\<close>

lemma sparse_frame_alive:
  assumes core: "sparse_core s" and n: "0 < sp_count s" and i: "spos s i = sp_count s"
  shows "sabs z (s\<lparr>sp_count := sp_count s + 1\<rparr>) = (sabs z s)(i \<mapsto> Some (sdat z s i))"
proof
  fix j
  have b: "sp_count s < vec_count (sp_dense s)" using spos_bound [OF core, of i] n i by simp
  have "spos s j = sp_count s \<longleftrightarrow> j = i" using spos_iff [OF core n b, of j] spos_iff [OF core n b, of i] i by simp
  then show "sabs z (s\<lparr>sp_count := sp_count s + 1\<rparr>) j = ((sabs z s)(i \<mapsto> Some (sdat z s i))) j"
    using n by (auto simp: sabs_def)
qed

lemma new_id_ok:
  assumes inv: "sparse_inv z s" and room: "vec_count (sp_dense s) < 2 ^ 30"
    and fresh: "sp_count s = vec_count (sp_dense s) \<Longrightarrow> spos s (lo32 (sp_max_id s + 1)) = 0"
  defines "cid \<equiv> (if sp_count s < vec_count (sp_dense s) then dense_ids s ! sp_count s else sp_max_id s + 1)"
  shows "\<exists>s'. flecs_sparse_new_id z s = Inr (s', cid) \<and> sparse_inv z s' \<and> \<not> salive s (lo32 cid) \<and>
    sabs z s' = (sabs z s)(lo32 cid \<mapsto> Some z) \<and> sp_size s' = sp_size s"
proof (cases "sp_count s < vec_count (sp_dense s)")
  case True
  note I = sparse_invD [OF inv]
  let ?s = "s\<lparr>sp_count := sp_count s + 1\<rparr>" and ?i = "lo32 cid"
  have n: "0 < sp_count s" using I(5) by simp
  have cid: "cid = dense_ids s ! sp_count s" using True by (simp add: cid_def)
  have pos: "spos s ?i = sp_count s" using spos_iff [OF I(1) n True, of ?i] cid by simp
  then have al: "\<not> salive s ?i" by (simp add: salive_def)
  have "flecs_sparse_new_id z s = Inr (?s, cid)"
    using True I(3) cid by (simp add: flecs_sparse_new_id_def flecs_sparse_new_index_def Let_def ecs_vec_count_def)
  moreover have abs: "sabs z ?s = (sabs z s)(?i \<mapsto> Some z)"
    using sparse_frame_alive [OF I(1) n pos, of z] I(8) [OF al] by simp
  moreover have "sparse_inv z ?s"
    by (rule sparse_inv_update [OF _ _ _ abs inv, of z])
      (use I(1,2,6) True al I(8) in \<open>auto simp: sparse_core_def fun_eq_iff\<close>)
  ultimately show ?thesis using al by (intro exI [of _ ?s]) simp
next
  case False
  note I = sparse_invD [OF inv]
  let ?i = "lo32 cid" and ?n = "sp_count s"
  have cid: "cid = sp_max_id s + 1" and n: "?n = vec_count (sp_dense s)" using False I(6) by (simp_all add: cid_def)
  have zero: "spos s ?i = 0" using fresh n cid by simp
  then have al: "\<not> salive s ?i" by (simp add: salive_def)
  define t where "t = s\<lparr>sp_count := ?n + 1, sp_max_id := cid, sp_dense := fst (ecs_vec_append (sp_dense s))\<rparr>"
  have t: "pages_ok t" "spos t = spos s" "sdat z t = sdat z s" "sp_count t = ?n + 1" "sp_size t = sp_size s"
    "sp_dense t = fst (ecs_vec_append (sp_dense s))" using I(2) by (simp_all add: t_def)
  note A = vec_append_facts [OF I(3) room]
  obtain u where u: "flecs_sparse_get_or_create_page z t (FLECS_SPARSE_PAGE cid) = Inr u" "pages_ok u" "mapped u cid"
    "sp_frame u t" "sp_dense u = sp_dense t" "spos u = spos t" "sdat z u = sdat z t"
    using get_or_create_page_ok [OF t(1), of z cid] by blast
  have uw: "vec_wf (sp_dense u)" "?n < vec_count (sp_dense u)" using A(1,2) t(6) u(5) n by simp_all
  obtain w where w: "flecs_sparse_assign_index u (FLECS_SPARSE_PAGE cid) cid ?n = Inr w" "pages_ok w" "sp_frame w u"
    "sp_dense w = vec_upd (sp_dense u) ?n cid" "mapped w = mapped u" "spos w = (spos u)(?i := ?n)" "sdat z w = sdat z u"
    using assign_index_ok [OF u(2,3) uw, of z] by blast
  have pos: "page_position u (FLECS_SPARSE_PAGE cid) (FLECS_SPARSE_OFFSET cid) = Inr 0"
    using page_position_ok [OF u(2,3)] u(6) t(2) zero by simp
  have run: "flecs_sparse_new_id z s = Inr (w, cid)"
    using n u(1) w(1) pos cid by (simp add: flecs_sparse_new_id_def flecs_sparse_new_index_def Let_def ecs_vec_count_def
        flecs_sparse_create_id_def flecs_sparse_inc_id_def flecs_sparse_grow_dense_def t_def)
  have wd: "sp_dense w = vec_snoc (sp_dense s) cid" using w(4) u(5) t(6) A(3) n by simp
  have "dense_consistent lo32 (dense_ids s @ [cid]) ((spos s)(?i := ?n))"
    using dense_consistent_append [OF I(4), of cid] zero I(5,7) n by simp
  then have core: "sparse_core w" using w(2,6) u(6) t(2) wd I(3) room by (simp add: sparse_core_def)
  have wp: "spos w = (spos s)(?i := ?n)" "sdat z w = sdat z s" "sp_count w = ?n + 1" "sp_size w = sp_size s"
    using w(3,6,7) u(4,6,7) t by simp_all
  have "spos s j \<noteq> ?n" for j using spos_bound [OF I(1), of j] I(5) n by fastforce
  then have abs: "sabs z w = (sabs z s)(?i \<mapsto> Some z)"
    using I(5) I(8) [OF al] by (auto simp: sabs_def wp fun_eq_iff less_Suc_eq)
  have "sparse_inv z w"
    by (rule sparse_inv_update [OF core _ _ abs inv, of z])
      (use wp wd I(3) I(8) [OF al] room n in \<open>auto simp: fun_eq_iff\<close>)
  then show ?thesis using run al abs wp(4) by (intro exI [of _ w]) simp
qed

section \<open>Removing\<close>

text \<open>The element at a position goes to the end of the part in use, which then gets shorter.\<close>

lemma remove_dense_ok:
  assumes core: "sparse_core s" and al: "salive s (lo32 cid)" and c: "sp_count s \<le> vec_count (sp_dense s)"
  shows "\<exists>u. remove_dense z s (FLECS_SPARSE_PAGE cid) (spos s (lo32 cid)) = Inr (u, True) \<and> sparse_core u \<and>
    sp_size u = sp_size s \<and> sp_count u = sp_count s - 1 \<and> mapped u = mapped s \<and> sdat z u = sdat z s \<and>
    vec_count (sp_dense u) = vec_count (sp_dense s) \<and> sabs z u = (sabs z s)(lo32 cid \<mapsto> None) \<and> sp_max_id u = sp_max_id s \<and>
    dense_ids u ! (sp_count s - 1) = dense_ids s ! spos s (lo32 cid)"
proof -
  let ?i = "lo32 cid" and ?p = "spos s (lo32 cid)" and ?n = "sp_count s - 1" and ?D = "dense_ids s"
  have p: "0 < ?p" "?p \<le> ?n" "?p < vec_count (sp_dense s)" and n: "0 < ?n" "?n < vec_count (sp_dense s)"
    using al c by (auto simp: salive_def)
  have key: "lo32 (?D ! ?p) = ?i" using spos_iff [OF core p(1,3), of ?i] by simp
  have iff: "spos s j = ?n \<longleftrightarrow> j = lo32 (?D ! ?n)" "spos s j = ?p \<longleftrightarrow> j = ?i" for j
    using spos_iff [OF core n, of j] spos_iff [OF core p(1,3), of j] key by simp_all
  show ?thesis
  proof (cases "?p = ?n")
    case True
    let ?u = "s\<lparr>sp_count := ?n\<rparr>"
    have "remove_dense z s (FLECS_SPARSE_PAGE cid) ?p = Inr (?u, True)" using True by (simp add: remove_dense_def Let_def)
    moreover have "sabs z ?u j = ((sabs z s)(?i \<mapsto> None)) j" for j
      using True iff(2) [of j] p(1) by (auto simp: sabs_def)
    then have "sabs z ?u = (sabs z s)(?i \<mapsto> None)" by (rule ext)
    ultimately show ?thesis using core True by (intro exI [of _ ?u]) (simp add: sparse_core_def)
  next
    case False
    have "FLECS_SPARSE_PAGE (?D ! ?p) = FLECS_SPARSE_PAGE cid" using sparse_slot_low(1) [of "?D ! ?p"] key by simp
    with swap_dense_ok [OF core p(1,3) n, of z] obtain t where
      t: "flecs_sparse_swap_dense z s (FLECS_SPARSE_PAGE cid) ?p ?n = Inr t" "sparse_core t" "sp_frame t s" "mapped t = mapped s"
      "sdat z t = sdat z s" "dense_ids t = ?D[?p := ?D ! ?n, ?n := ?D ! ?p]" "spos t = (spos s)(lo32 (?D ! ?n) := ?p, ?i := ?n)"
      unfolding key by auto
    have lens: "length ?D = vec_count (sp_dense s)" "length (dense_ids t) = vec_count (sp_dense t)"
      using core t(2) by (simp_all add: sparse_core_def)
    let ?u = "t\<lparr>sp_count := ?n\<rparr>"
    have "remove_dense z s (FLECS_SPARSE_PAGE cid) ?p = Inr (?u, True)"
      using False p t(1,3) by (simp add: remove_dense_def Let_def)
    moreover have "sabs z ?u j = ((sabs z s)(?i \<mapsto> None)) j" for j
      using False iff [of j] p n(1) by (auto simp: sabs_def t(5,7))
    then have "sabs z ?u = (sabs z s)(?i \<mapsto> None)" by (rule ext)
    moreover have "sparse_core ?u" using t(2) by (simp add: sparse_core_def)
    moreover have "dense_ids ?u ! ?n = ?D ! ?p" "vec_count (sp_dense ?u) = vec_count (sp_dense s)" using t(6) lens n by simp_all
    ultimately show ?thesis using t(3-5) by (intro exI [of _ ?u]) simp
  qed
qed

lemma sdat_no_data: "pages_ok s \<Longrightarrow> sp_size s = 0 \<Longrightarrow> sdat z s i = z"
proof -
  assume "pages_ok s" "sp_size s = 0"
  then have "page_data (sp_cell s (FLECS_SPARSE_PAGE (to64 i))) = None" by (simp add: pages_ok_data)
  then show ?thesis by (simp add: sdat_def)
qed

text \<open>Clearing the element of an index that is not in use any more.\<close>

lemma clear_data_ok:
  assumes "sparse_core u" and m: "mapped u cid" and c: "1 \<le> sp_count u" "sp_count u \<le> vec_count (sp_dense u)"
    and abs: "sabs z u = (sabs z s)(lo32 cid \<mapsto> None)" and inv: "sparse_inv z s" and sd: "sdat z u = sdat z s"
  shows "\<exists>w. (if sp_size u \<noteq> 0 then set_page_data u (FLECS_SPARSE_PAGE cid) (FLECS_SPARSE_OFFSET cid) z else Inr u) = Inr w \<and>
    sparse_inv z w \<and> sabs z w = sabs z u \<and> sp_size w = sp_size u \<and> sp_dense w = sp_dense u \<and> sp_count w = sp_count u \<and>
    sp_max_id w = sp_max_id u \<and> spos w = spos u"
proof -
  let ?i = "lo32 cid"
  have ok: "pages_ok u" using assms(1) by (simp add: sparse_core_def)
  obtain w where w: "(if sp_size u \<noteq> 0 then set_page_data u (FLECS_SPARSE_PAGE cid) (FLECS_SPARSE_OFFSET cid) z else Inr u) = Inr w"
    "pages_ok w" "sp_frame w u" "sp_dense w = sp_dense u" "spos w = spos u" "sdat z w = (sdat z s)(?i := z)"
  proof (cases "sp_size u = 0")
    case True
    have "sdat z u = (sdat z s)(?i := z)" using sdat_no_data [OF ok True] sd by (auto simp: fun_eq_iff)
    with True that [of u] ok show ?thesis by simp
  next
    case False
    with set_page_data_ok [OF ok m, of z z] sd obtain w where
      "set_page_data u (FLECS_SPARSE_PAGE cid) (FLECS_SPARSE_OFFSET cid) z = Inr w" "pages_ok w" "sp_frame w u"
      "sp_dense w = sp_dense u" "spos w = spos u" "sdat z w = (sdat z s)(?i := z)" by auto
    with False that [of w] show ?thesis by simp
  qed
  have dead: "\<not> salive u ?i" using fun_cong [OF abs, of ?i] by (auto simp: sabs_def salive_def split: if_splits)
  have "sabs z w j = sabs z u j" for j
    using w(3,5,6) sd dead by (auto simp: sabs_def salive_def)
  then have wa: "sabs z w = (sabs z s)(?i \<mapsto> None)" "sabs z w = sabs z u" using abs by (simp_all add: fun_eq_iff)
  have "sparse_core w" using sparse_core_cong [OF assms(1) w(2,4,5)] .
  then have "sparse_inv z w" by (rule sparse_inv_update [OF _ _ _ wa(1) inv w(6)]) (use c w(3,4) in simp_all)
  with w wa(2) show ?thesis by blast
qed

lemma remove_ok:
  assumes inv: "sparse_inv z s" and size: "size' = 0 \<or> size' = sp_size s"
  shows "\<exists>s'. flecs_sparse_remove z s size' cid = Inr (s', spos s (lo32 cid) \<noteq> 0) \<and> sparse_inv z s' \<and>
    sabs z s' = (if spos s (lo32 cid) = 0 then sabs z s else (sabs z s)(lo32 cid \<mapsto> None)) \<and>
    sp_size s' = sp_size s \<and> vec_count (sp_dense s') = vec_count (sp_dense s)"
proof -
  let ?i = "lo32 cid"
  note I = sparse_invD [OF inv]
  obtain p where p: "flecs_sparse_get_page s (FLECS_SPARSE_PAGE cid) = Inr p"
    "(p = None \<or> page_sparse (the p) = None) = (\<not> mapped s cid)" by (rule get_page_mapped [OF I(2)])
  note unfold = flecs_sparse_remove_def [of z s size' cid] Let_def sparse_slot_low ecs_assert_simps(1) [OF size] bindr_Inr p
  show ?thesis
  proof (cases "mapped s cid")
    case False
    then have "spos s ?i = 0" using spos_mapped [of s cid] by blast
    then show ?thesis using False inv unfolding unfold by (intro exI [of _ s]) simp
  next
    case m: True
    note pos = page_position_ok [OF I(2) m]
    show ?thesis
    proof (cases "spos s ?i = 0")
      case True
      then show ?thesis using m inv pos unfolding unfold by (intro exI [of _ s]) simp
    next
      case False
      have "\<exists>u b. remove_dense z s (FLECS_SPARSE_PAGE cid) (spos s ?i) = Inr (u, b) \<and> sparse_core u \<and> 1 \<le> sp_count u \<and>
        sp_count u \<le> vec_count (sp_dense u) \<and> mapped u cid \<and> sabs z u = (sabs z s)(?i \<mapsto> None) \<and> sdat z u = sdat z s \<and>
        sp_size u = sp_size s \<and> vec_count (sp_dense u) = vec_count (sp_dense s)"
      proof (cases "salive s ?i")
        case True
        then have "2 \<le> sp_count s" by (auto simp: salive_def)
        with remove_dense_ok [OF I(1) True I(6), of z] m I(6) show ?thesis by fastforce
      next
        case dead: False
        then have "sp_count s \<le> spos s ?i" using False by (auto simp: salive_def)
        then have "remove_dense z s (FLECS_SPARSE_PAGE cid) (spos s ?i) = Inr (s, False)"
          using I(5) by (auto simp: remove_dense_def Let_def)
        moreover have "sabs z s = (sabs z s)(?i \<mapsto> None)" using dead False by (auto simp: sabs_def salive_def fun_eq_iff)
        ultimately show ?thesis using I m by auto
      qed
      then obtain u b where u: "remove_dense z s (FLECS_SPARSE_PAGE cid) (spos s ?i) = Inr (u, b)" "sparse_core u" "1 \<le> sp_count u"
        "sp_count u \<le> vec_count (sp_dense u)" "mapped u cid" "sabs z u = (sabs z s)(?i \<mapsto> None)" "sdat z u = sdat z s"
        "sp_size u = sp_size s" "vec_count (sp_dense u) = vec_count (sp_dense s)" by blast
      obtain w where w: "(if sp_size u \<noteq> 0 then set_page_data u (FLECS_SPARSE_PAGE cid) (FLECS_SPARSE_OFFSET cid) z else Inr u) = Inr w"
        "sparse_inv z w" "sabs z w = sabs z u" "sp_size w = sp_size u" "sp_dense w = sp_dense u"
        using clear_data_ok [OF u(2,5,3,4,6) inv u(7)] by blast
      have "flecs_sparse_remove z s size' cid = Inr (w, True)"
        unfolding unfold using m pos False u(1) w(1) by simp
      then show ?thesis using False w(2-5) u(6,8,9) by (intro exI [of _ w]) simp
    qed
  qed
qed

lemma remove_w_gen_ok:
  assumes inv: "sparse_inv z s" and size: "size' = 0 \<or> size' = sp_size s" and al: "salive s (lo32 cid)"
    and gen: "dense_ids s ! spos s (lo32 cid) = cid"
  shows "\<exists>s'. flecs_sparse_remove_w_gen z s size' cid = Inr (s', True) \<and> sparse_inv z s' \<and>
    sabs z s' = (sabs z s)(lo32 cid \<mapsto> None) \<and> sp_size s' = sp_size s \<and>
    vec_count (sp_dense s') = vec_count (sp_dense s) \<and> sp_count s' < vec_count (sp_dense s') \<and>
    dense_ids s' ! sp_count s' = ECS_GENERATION_INC cid"
proof -
  let ?i = "lo32 cid" and ?p = "spos s (lo32 cid)"
  note I = sparse_invD [OF inv]
  have p: "0 < ?p" "?p < sp_count s" "?p < vec_count (sp_dense s)" "2 \<le> sp_count s" using al I(6) by (auto simp: salive_def)
  have m: "mapped s cid" using spos_mapped p(1) .
  obtain q where q: "flecs_sparse_get_page s (FLECS_SPARSE_PAGE cid) = Inr q"
    "(q = None \<or> page_sparse (the q) = None) = (\<not> mapped s cid)" by (rule get_page_mapped [OF I(2)])
  let ?v = "vec_upd (sp_dense s) ?p (ECS_GENERATION_INC cid)"
  define t where "t = s\<lparr>sp_dense := ?v\<rparr>"
  have v: "vec_ok ?v" "vec_elems ?v = (dense_ids s)[?p := ECS_GENERATION_INC cid]" using I(3) p(3) by simp_all
  have t: "sparse_core t" "salive t ?i" "sp_count t \<le> vec_count (sp_dense t)" "spos t = spos s" "mapped t = mapped s"
    "sdat z t = sdat z s" "sabs z t = sabs z s" "sp_size t = sp_size s" "sp_count t = sp_count s"
    "vec_count (sp_dense t) = vec_count (sp_dense s)" "dense_ids t ! ?p = ECS_GENERATION_INC cid"
    using I al v p dense_consistent_update [OF I(4), of "ECS_GENERATION_INC cid" ?p] gen
    by (simp_all add: t_def sparse_core_def salive_def sabs_def fun_eq_iff)
  from remove_dense_ok [OF t(1-3), of z] obtain u where
    u: "remove_dense z t (FLECS_SPARSE_PAGE cid) ?p = Inr (u, True)" "sparse_core u" "sp_size u = sp_size s" "sp_count u = sp_count s - 1"
    "mapped u = mapped s" "sdat z u = sdat z s" "vec_count (sp_dense u) = vec_count (sp_dense s)"
    "sabs z u = (sabs z s)(?i \<mapsto> None)" "dense_ids u ! (sp_count s - 1) = ECS_GENERATION_INC cid"
    unfolding t(4-11) by blast
  have uc: "mapped u cid" "1 \<le> sp_count u" "sp_count u \<le> vec_count (sp_dense u)" using m u(4,5,7) p(4) I(6) by simp_all
  obtain w where w: "(if sp_size u \<noteq> 0 then set_page_data u (FLECS_SPARSE_PAGE cid) (FLECS_SPARSE_OFFSET cid) z else Inr u) = Inr w"
    "sparse_inv z w" "sabs z w = sabs z u" "sp_size w = sp_size u" "sp_dense w = sp_dense u" "sp_count w = sp_count u"
    using clear_data_ok [OF u(2) uc u(8) inv u(6)] by blast
  have "flecs_sparse_remove_w_gen z s size' cid = Inr (w, True)"
    unfolding flecs_sparse_remove_w_gen_def Let_def sparse_slot_low ecs_assert_simps(1) [OF size] bindr_Inr q(1)
    using q(2) m page_position_ok [OF I(2) m] p I(3) gen u(1) w(1) by (simp add: t_def flecs_sparse_inc_gen_def)
  then show ?thesis using w(2-6) u(3,4,7-9) p(4) I(6) by (intro exI [of _ w]) simp
qed

section \<open>Reading\<close>

lemma lookup_ok:
  assumes inv: "sparse_inv z s" and size: "size' = 0 \<or> size' = sp_size s"
  shows "flecs_sparse_is_alive s cid = Inr (salive s (lo32 cid))"
    and "flecs_sparse_has s cid = Inr (salive s (lo32 cid))"
    and "flecs_sparse_get s size' cid = Inr (if salive s (lo32 cid) \<and> sp_size s \<noteq> 0 then Some (lo32 cid) else None)"
proof -
  note I = sparse_invD [OF inv]
  obtain p where p: "flecs_sparse_get_page s (FLECS_SPARSE_PAGE cid) = Inr p"
    "(p = None \<or> page_sparse (the p) = None) = (\<not> mapped s cid)" by (rule get_page_mapped [OF I(2)])
  have no: "\<not> mapped s cid \<Longrightarrow> \<not> salive s (lo32 cid)" using spos_mapped [of s cid] by (auto simp: salive_def)
  note pos = page_position_ok [OF I(2)] and ptr = data_ptr_ok [OF I(2)]
  show "flecs_sparse_is_alive s cid = Inr (salive s (lo32 cid))"
    unfolding flecs_sparse_is_alive_def bindr_Inr p using no pos by (cases "mapped s cid") (simp_all add: salive_def)
  show "flecs_sparse_has s cid = Inr (salive s (lo32 cid))"
    unfolding flecs_sparse_has_def Let_def sparse_slot_low bindr_Inr p
    using no pos by (cases "mapped s cid") (simp_all add: salive_def)
  show "flecs_sparse_get s size' cid = Inr (if salive s (lo32 cid) \<and> sp_size s \<noteq> 0 then Some (lo32 cid) else None)"
    unfolding flecs_sparse_get_def Let_def sparse_slot_low ecs_assert_simps(1) [OF size] bindr_Inr p
    using no pos ptr by (cases "mapped s cid") (auto simp: salive_def)
qed

lemma load_store_ok:
  assumes inv: "sparse_inv z s" and al: "salive s i" and size: "sp_size s \<noteq> 0"
  shows "sparse_load s i = Inr (sdat z s i)"
    and "\<exists>s'. sparse_store s i d = Inr s' \<and> sparse_inv z s' \<and> sp_size s' = sp_size s \<and>
      sabs z s' = (sabs z s)(i \<mapsto> Some d) \<and> vec_count (sp_dense s') = vec_count (sp_dense s)"
proof -
  note I = sparse_invD [OF inv]
  have m: "mapped s (to64 i)" using al spos_mapped [of s "to64 i"] by (simp add: salive_def)
  show "sparse_load s i = Inr (sdat z s i)" using sparse_load_ok [OF I(2) m size, of z] by simp
  obtain t where t: "set_page_data s (FLECS_SPARSE_PAGE (to64 i)) (FLECS_SPARSE_OFFSET (to64 i)) d = Inr t" "pages_ok t" "sp_frame t s"
    "sp_dense t = sp_dense s" "spos t = spos s" "sdat z t = (sdat z s)(i := d)"
    using set_page_data_ok [OF I(2) m size, of d z] by auto
  have abs: "sabs z t = (sabs z s)(i \<mapsto> Some d)" using t(3,5,6) al by (auto simp: sabs_def salive_def fun_eq_iff)
  have "sparse_inv z t"
    by (rule sparse_inv_update [OF sparse_core_cong [OF I(1) t(2,4,5)] _ _ abs inv t(6)])
      (use t(3,4,5) I(5,6) al in \<open>simp_all add: salive_def\<close>)
  then show "\<exists>s'. sparse_store s i d = Inr s' \<and> sparse_inv z s' \<and> sp_size s' = sp_size s \<and>
      sabs z s' = (sabs z s)(i \<mapsto> Some d) \<and> vec_count (sp_dense s') = vec_count (sp_dense s)"
    using t abs by (intro exI [of _ t]) (simp add: sparse_store_def)
qed

text \<open>The sizes of the dense array are the numbers of known and of alive indices.\<close>

lemma sparse_card:
  assumes inv: "sparse_inv z s"
  shows "finite (dom (sabs z s))" "card (dom (sabs z s)) = vec_count (sp_dense s) - 1"
    "card {i. salive s i} = sp_count s - 1"
proof -
  note I = sparse_invD [OF inv]
  have inj: "inj_on (\<lambda>n. lo32 (dense_ids s ! n)) {0<..<n}" if "n \<le> vec_count (sp_dense s)" for n
    using that I(7) by (auto intro!: inj_onI dense_consistent_inj [OF I(4)])
  have img: "{i. 0 < spos s i \<and> spos s i < n} = (\<lambda>n. lo32 (dense_ids s ! n)) ` {0<..<n}" if "n \<le> vec_count (sp_dense s)" for n
  proof (intro equalityI subsetI)
    fix i assume i: "i \<in> {i. 0 < spos s i \<and> spos s i < n}"
    then have "i = lo32 (dense_ids s ! spos s i)" using dense_consistentD(3) [OF I(4), of i] by simp
    with i show "i \<in> (\<lambda>n. lo32 (dense_ids s ! n)) ` {0<..<n}" by auto
  next
    fix i assume "i \<in> (\<lambda>n. lo32 (dense_ids s ! n)) ` {0<..<n}"
    then show "i \<in> {i. 0 < spos s i \<and> spos s i < n}" using dense_consistentD(1) [OF I(4)] that I(7) by auto
  qed
  have card: "card {i. 0 < spos s i \<and> spos s i < n} = n - 1" if "n \<le> vec_count (sp_dense s)" for n
    unfolding img [OF that] by (simp add: card_image [OF inj [OF that]])
  have dom: "dom (sabs z s) = {i. 0 < spos s i \<and> spos s i < vec_count (sp_dense s)}"
    using spos_bound [OF I(1)] by (auto simp: sabs_def dom_def)
  show "card (dom (sabs z s)) = vec_count (sp_dense s) - 1" unfolding dom by (rule card) simp
  show "finite (dom (sabs z s))" unfolding dom img [OF order_refl] by simp
  show "card {i. salive s i} = sp_count s - 1" unfolding salive_def by (rule card [OF I(6)])
qed

section \<open>The set as a map\<close>

datatype 'd sparse_op =
    Sp_ensure u64
  | Sp_insert u64
  | Sp_remove u64
  | Sp_get u64
  | Sp_has u64
  | Sp_store u64 'd

datatype 'd sparse_result = Res_flag bool | Res_elem "'d option"

fun sparse_step :: "'d \<Rightarrow> 'd sparse_op \<Rightarrow> 'd ecs_sparse_t \<Rightarrow> ('d ecs_sparse_t \<times> 'd sparse_result) res" where
  "sparse_step z (Sp_ensure cid) s = bindr (flecs_sparse_ensure z s 0 cid) (\<lambda>(s, ptr, is_new). Inr (s, Res_flag is_new))"
| "sparse_step z (Sp_insert cid) s = bindr (flecs_sparse_insert z s 0 cid) (\<lambda>(s, ptr). Inr (s, Res_flag (ptr \<noteq> None)))"
| "sparse_step z (Sp_remove cid) s = bindr (flecs_sparse_remove z s 0 cid) (\<lambda>(s, b). Inr (s, Res_flag b))"
| "sparse_step z (Sp_get cid) s =
     bindr (flecs_sparse_get s 0 cid) (\<lambda>ptr.
     case ptr of
       None \<Rightarrow> Inr (s, Res_elem None)
     | Some p \<Rightarrow> bindr (sparse_load s p) (\<lambda>d. Inr (s, Res_elem (Some d))))"
| "sparse_step z (Sp_has cid) s = bindr (flecs_sparse_has s cid) (\<lambda>b. Inr (s, Res_flag b))"
| "sparse_step z (Sp_store cid d) s =
     bindr (flecs_sparse_get s 0 cid) (\<lambda>ptr.
     case ptr of
       None \<Rightarrow> Inr (s, Res_flag False)
     | Some p \<Rightarrow> bindr (sparse_store s p d) (\<lambda>s. Inr (s, Res_flag True)))"

type_synonym 'd sparse_abs = "u32 \<Rightarrow> 'd option option"

fun sparse_spec :: "'d \<Rightarrow> 'd sparse_op \<Rightarrow> 'd sparse_abs \<Rightarrow> 'd sparse_abs \<times> 'd sparse_result" where
  "sparse_spec z (Sp_ensure cid) a =
     (case a (lo32 cid) of Some (Some d) \<Rightarrow> (a, Res_flag False) | _ \<Rightarrow> (a(lo32 cid \<mapsto> Some z), Res_flag True))"
| "sparse_spec z (Sp_insert cid) a =
     (case a (lo32 cid) of Some (Some d) \<Rightarrow> (a, Res_flag False) | _ \<Rightarrow> (a(lo32 cid \<mapsto> Some z), Res_flag True))"
| "sparse_spec z (Sp_remove cid) a =
     (case a (lo32 cid) of None \<Rightarrow> (a, Res_flag False) | Some r \<Rightarrow> (a(lo32 cid \<mapsto> None), Res_flag True))"
| "sparse_spec z (Sp_get cid) a = (a, Res_elem (case a (lo32 cid) of None \<Rightarrow> None | Some r \<Rightarrow> r))"
| "sparse_spec z (Sp_has cid) a = (a, Res_flag (case a (lo32 cid) of Some (Some d) \<Rightarrow> True | _ \<Rightarrow> False))"
| "sparse_spec z (Sp_store cid d) a =
     (case a (lo32 cid) of Some (Some e) \<Rightarrow> (a(lo32 cid \<mapsto> Some d), Res_flag True) | _ \<Rightarrow> (a, Res_flag False))"

fun sparse_enabled :: "'d sparse_op \<Rightarrow> 'd sparse_abs \<Rightarrow> bool" where
  "sparse_enabled (Sp_ensure cid) a \<longleftrightarrow> card (dom a) + 1 < 2 ^ 30"
| "sparse_enabled (Sp_insert cid) a \<longleftrightarrow> card (dom a) + 1 < 2 ^ 30"
| "sparse_enabled op a \<longleftrightarrow> True"

lemma sabs_cases:
  assumes "sparse_inv z s"
  shows "salive s i \<Longrightarrow> sabs z s i = Some (Some (sdat z s i))"
    and "\<not> salive s i \<Longrightarrow> sabs z s i = (if spos s i = 0 then None else Some None) \<and> sdat z s i = z"
  using sparse_invD(8) [OF assms, of i] by (auto simp: sabs_def salive_def)

lemma sparse_step_ok:
  assumes inv: "sparse_inv z s" and size: "sp_size s \<noteq> 0" and en: "sparse_enabled op (sabs z s)"
  shows "\<exists>s' r. sparse_step z op s = Inr (s', r) \<and> (sparse_inv z s' \<and> sp_size s' \<noteq> 0) \<and> sparse_spec z op (sabs z s) = (sabs z s', r)"
proof -
  note I = sparse_invD [OF inv]
  have ensure: "\<exists>s'. flecs_sparse_ensure z s 0 cid = Inr (s', Some (lo32 cid), \<not> salive s (lo32 cid)) \<and>
      (sparse_inv z s' \<and> sp_size s' \<noteq> 0) \<and> (if salive s (lo32 cid) then sabs z s' = sabs z s else sabs z s' = (sabs z s)(lo32 cid \<mapsto> Some z))"
    if "card (dom (sabs z s)) + 1 < 2 ^ 30" for cid
  proof -
    have "vec_count (sp_dense s) < 2 ^ 30" using that sparse_card(2) [OF inv] I(5,6) by simp
    from ensure_ok [OF inv _ this, of 0 cid] size obtain s' where
      "flecs_sparse_ensure z s 0 cid = Inr (s', Some (lo32 cid), \<not> salive s (lo32 cid))" "sparse_inv z s'" "sp_size s' \<noteq> 0"
      "sabs z s' = (sabs z s)(lo32 cid \<mapsto> Some (sdat z s (lo32 cid)))" by auto
    moreover have "(sabs z s)(lo32 cid \<mapsto> Some (sdat z s (lo32 cid))) = sabs z s" if "salive s (lo32 cid)"
      using sabs_cases(1) [OF inv that] by (metis fun_upd_triv)
    ultimately show ?thesis using I(8) [of "lo32 cid"] by auto
  qed
  note L = lookup_ok [OF inv, of 0]
  show ?thesis
  proof (cases op)
    case (Sp_ensure cid)
    with en ensure [of cid] sabs_cases [OF inv, of "lo32 cid"] show ?thesis by (cases "salive s (lo32 cid)") auto
  next
    case (Sp_insert cid)
    then have "card (dom (sabs z s)) + 1 < 2 ^ 30" using en by simp
    from ensure [OF this, of cid] obtain s' where
      "flecs_sparse_insert z s 0 cid = Inr (s', if salive s (lo32 cid) then None else Some (lo32 cid))" "sparse_inv z s' \<and> sp_size s' \<noteq> 0"
      "if salive s (lo32 cid) then sabs z s' = sabs z s else sabs z s' = (sabs z s)(lo32 cid \<mapsto> Some z)"
      by (elim exE conjE) (simp add: flecs_sparse_insert_def)
    then show ?thesis unfolding Sp_insert
      using sabs_cases [OF inv, of "lo32 cid"] by (cases "salive s (lo32 cid)") auto
  next
    case (Sp_remove cid)
    from remove_ok [OF inv, of 0 cid] obtain s' where
      "flecs_sparse_remove z s 0 cid = Inr (s', spos s (lo32 cid) \<noteq> 0)" "sparse_inv z s'" "sp_size s' \<noteq> 0"
      "sabs z s' = (if spos s (lo32 cid) = 0 then sabs z s else (sabs z s)(lo32 cid \<mapsto> None))" using size by auto
    moreover have "sabs z s (lo32 cid) = None \<longleftrightarrow> spos s (lo32 cid) = 0" by (simp add: sabs_def)
    ultimately show ?thesis unfolding Sp_remove by (cases "sabs z s (lo32 cid)") auto
  next
    case (Sp_get cid)
    with L(3) [of cid] sabs_cases [OF inv, of "lo32 cid"] load_store_ok(1) [OF inv _ size, of "lo32 cid"] size inv show ?thesis
      by (cases "salive s (lo32 cid)") auto
  next
    case (Sp_has cid)
    with L(2) [of cid] sabs_cases [OF inv, of "lo32 cid"] size inv show ?thesis by (cases "salive s (lo32 cid)") auto
  next
    case (Sp_store cid d)
    with L(3) [of cid] sabs_cases [OF inv, of "lo32 cid"] load_store_ok(2) [OF inv _ size, of "lo32 cid" d] size inv show ?thesis
      by (cases "salive s (lo32 cid)") auto
  qed
qed

interpretation sparse_sim: simulation "\<lambda>s. sparse_inv z s \<and> sp_size s \<noteq> 0" "sabs z" "sparse_step z" "sparse_spec z" sparse_enabled for z
  by unfold_locales (blast intro: sparse_step_ok)

section \<open>Properties\<close>

text \<open>
  C11: a sparse set with data implements a map from 32-bit indices to elements.  From a fresh set, every
  sequence of ensures, insertions, removals, reads, tests and writes returns, gives the results that it
  gives on the map, where an element that comes to life is zero, and leaves the map that the set stands
  for: an operation on one index never changes the element of another.  The count is the number of
  elements in use.  An index that was removed stays known, and removing it again still answers true.
\<close>

theorem sparse_refines_map:
  assumes "n \<noteq> 0" and "run_enabled (sparse_spec z) sparse_enabled ops Map.empty"
  shows "\<exists>s0 s rs. flecs_sparse_init n = Inr s0 \<and> run_ops (sparse_step z) ops s0 = Inr (s, rs) \<and>
    run_spec (sparse_spec z) ops Map.empty = (sabs z s, rs) \<and>
    flecs_sparse_count s = card {i. \<exists>d. sabs z s i = Some (Some d)}"
proof -
  obtain s0 where s0: "flecs_sparse_init n = Inr s0" "sparse_inv z s0" "sabs z s0 = Map.empty" "sp_size s0 = n"
    using sparse_init_ok [of n z] by blast
  have "sparse_inv z s0 \<and> sp_size s0 \<noteq> 0" using s0 assms(1) by simp
  from sparse_sim.run_refines [OF this, of ops] assms(2) obtain s rs where
    s: "run_ops (sparse_step z) ops s0 = Inr (s, rs)" "sparse_inv z s" "run_spec (sparse_spec z) ops Map.empty = (sabs z s, rs)"
    unfolding s0(3) by blast
  have "{i. \<exists>d. sabs z s i = Some (Some d)} = {i. salive s i}"
    using sabs_cases [OF s(2)] by (auto simp: sabs_def salive_def split: if_splits)
  then have "flecs_sparse_count s = card {i. \<exists>d. sabs z s i = Some (Some d)}"
    using sparse_card(3) [OF s(2)] by (simp add: flecs_sparse_count_def)
  with s0(1) s show ?thesis by blast
qed

theorem sparse_refines_map_witness:
  "\<exists>s0 s. flecs_sparse_init 8 = Inr s0 \<and>
     run_ops (sparse_step (0 :: nat)) [Sp_ensure 70, Sp_store 70 7, Sp_ensure 3, Sp_remove 70, Sp_remove 70, Sp_insert 70, Sp_get 70, Sp_get 3] s0 =
       Inr (s, [Res_flag True, Res_flag True, Res_flag True, Res_flag True, Res_flag True, Res_flag True, Res_elem (Some 0), Res_elem (Some 0)])"
proof -
  let ?ops = "[Sp_ensure 70, Sp_store 70 (7 :: nat), Sp_ensure 3, Sp_remove 70, Sp_remove 70, Sp_insert 70, Sp_get 70, Sp_get 3]"
  have "run_enabled (sparse_spec (0 :: nat)) sparse_enabled ?ops Map.empty" by simp
  moreover have "(8 :: nat) \<noteq> 0" by simp
  ultimately have "\<exists>s0 s rs. flecs_sparse_init 8 = Inr s0 \<and> run_ops (sparse_step 0) ?ops s0 = Inr (s, rs) \<and>
      run_spec (sparse_spec 0) ?ops Map.empty = (sabs 0 s, rs) \<and> flecs_sparse_count s = card {i. \<exists>d. sabs 0 s i = Some (Some d)}"
    by (intro sparse_refines_map)
  then obtain s0 s rs where R: "flecs_sparse_init 8 = Inr s0" "run_ops (sparse_step 0) ?ops s0 = Inr (s, rs)"
    "run_spec (sparse_spec 0) ?ops Map.empty = (sabs 0 s, rs)" by blast
  have "rs = [Res_flag True, Res_flag True, Res_flag True, Res_flag True, Res_flag True, Res_flag True, Res_elem (Some 0), Res_elem (Some 0)]"
    using R(3) by auto
  with R(1,2) show ?thesis by blast
qed

text \<open>
  C26: removing an element with \<open>flecs_sparse_remove_w_gen\<close> and asking for a new id gives the same index with
  the next generation, in use again, with a zeroed element; no other index is touched.
\<close>

theorem sparse_recycle_generation:
  assumes "sparse_inv z s" and "flecs_sparse_has s cid = Inr True" and "dense_ids s ! spos s (lo32 cid) = cid"
    and "vec_count (sp_dense s) < 2 ^ 30"
  shows "\<exists>s1 s2. flecs_sparse_remove_w_gen z s (sp_size s) cid = Inr (s1, True) \<and> flecs_sparse_has s1 cid = Inr False \<and>
    flecs_sparse_new_id z s1 = Inr (s2, ECS_GENERATION_INC cid) \<and> flecs_sparse_has s2 cid = Inr True \<and>
    sabs z s2 = (sabs z s)(lo32 cid \<mapsto> Some z)"
proof -
  have al: "salive s (lo32 cid)" using assms(2) lookup_ok(2) [OF assms(1), of 0 cid] by simp
  obtain s1 where s1: "flecs_sparse_remove_w_gen z s (sp_size s) cid = Inr (s1, True)" "sparse_inv z s1"
    "sabs z s1 = (sabs z s)(lo32 cid \<mapsto> None)" "vec_count (sp_dense s1) = vec_count (sp_dense s)" "sp_count s1 < vec_count (sp_dense s1)"
    "dense_ids s1 ! sp_count s1 = ECS_GENERATION_INC cid"
    using remove_w_gen_ok [OF assms(1) _ al assms(3), of "sp_size s"] by blast
  obtain s2 where s2: "flecs_sparse_new_id z s1 = Inr (s2, ECS_GENERATION_INC cid)" "sparse_inv z s2"
    "sabs z s2 = (sabs z s1)(lo32 cid \<mapsto> Some z)"
    using new_id_ok [OF s1(2)] s1(4-6) assms(4) by auto
  have "\<not> salive s1 (lo32 cid)" "salive s2 (lo32 cid)"
    using fun_cong [OF s1(3), of "lo32 cid"] fun_cong [OF s2(3), of "lo32 cid"]
    by (auto simp: sabs_def salive_def split: if_splits)
  then show ?thesis using s1(1,3) s2 lookup_ok(2) [OF s1(2), of 0 cid] lookup_ok(2) [OF s2(2), of 0 cid] by simp
qed

theorem sparse_recycle_generation_witness:
  "\<exists>s0 s s1 s2. flecs_sparse_init 8 = Inr s0 \<and> flecs_sparse_ensure (0 :: nat) s0 8 5 = Inr (s, Some 5, True) \<and>
     flecs_sparse_remove_w_gen 0 s (sp_size s) 5 = Inr (s1, True) \<and> flecs_sparse_new_id 0 s1 = Inr (s2, 0x100000005)"
proof -
  obtain s0 where s0: "flecs_sparse_init 8 = Inr s0" "sparse_inv (0 :: nat) s0" "sabs 0 s0 = Map.empty" "vec_count (sp_dense s0) = 1"
    "sp_size s0 = 8" using sparse_init_ok [of 8 "0 :: nat"] by blast
  have no: "\<not> salive s0 5" using fun_cong [OF s0(3), of 5] by (auto simp: sabs_def salive_def split: if_splits)
  obtain s where s: "flecs_sparse_ensure 0 s0 8 5 = Inr (s, Some 5, True)" "sparse_inv 0 s" "vec_count (sp_dense s) \<le> 2"
    "sabs 0 s = (sabs 0 s0)(5 \<mapsto> Some (sdat 0 s0 5))" "dense_ids s ! spos s 5 = 5"
    using ensure_ok [OF s0(2), of 8 5] s0(4,5) no by auto
  have "salive s 5" using fun_cong [OF s(4), of 5] by (auto simp: sabs_def salive_def split: if_splits)
  then have "flecs_sparse_has s 5 = Inr True" using lookup_ok(2) [OF s(2), of 0 5] by simp
  moreover have "vec_count (sp_dense s) < 2 ^ 30" using s(3) by simp
  moreover have "dense_ids s ! spos s (lo32 5) = 5" using s(5) by simp
  moreover have "ECS_GENERATION_INC 5 = 0x100000005" by (simp add: ECS_GENERATION_INC_def ECS_GENERATION_def ECS_GENERATION_MASK_def)
  ultimately obtain s1 s2 where "flecs_sparse_remove_w_gen 0 s (sp_size s) 5 = Inr (s1, True)" "flecs_sparse_new_id 0 s1 = Inr (s2, 0x100000005)"
    using sparse_recycle_generation [OF s(2), of 5] by auto
  with s0(1) s(1) show ?thesis by blast
qed

text \<open>
  Mixing ids that the set issues with ids that the caller chooses breaks the set.  \<open>max_id\<close> starts at the
  largest 64-bit value, so making index 0 exist does not record it, and the next new id is 0 again: the
  check that its slot is free aborts with \<open>ECS_INTERNAL_ERROR\<close>.
\<close>

lemma sparse_ensure_then_new_id_aborts:
  "bindr (flecs_sparse_init 8) (\<lambda>s. bindr (flecs_sparse_ensure (0 :: nat) s 8 0) (\<lambda>(s, _).
   bindr (flecs_sparse_new_id 0 s) (\<lambda>(s, cid). Inr cid))) = Inl (Abort ECS_INTERNAL_ERROR)"
  by code_simp

text \<open>
  \<open>flecs_sparse_shrink\<close> leaves dangling positions.  It cuts the dense array down to the elements in use but
  keeps the positions of removed elements in the pages that stay.  Making such an element exist again reads
  outside the dense array.
\<close>

lemma sparse_shrink_then_ensure_undefined:
  "bindr (flecs_sparse_init 8) (\<lambda>s.
   bindr (flecs_sparse_ensure (0 :: nat) s 8 1) (\<lambda>(s, _).
   bindr (flecs_sparse_ensure 0 s 8 2) (\<lambda>(s, _).
   bindr (flecs_sparse_remove 0 s 8 2) (\<lambda>(s, _).
   bindr (flecs_sparse_shrink s) (\<lambda>s.
   bindr (flecs_sparse_ensure 0 s 8 2) (\<lambda>(s, r). Inr r)))))) = Inl Undefined"
  by code_simp

text \<open>
  \<open>flecs_sparse_clear\<close> does not reset elements.  After an element was written, the set cleared and the
  same index made to exist as a new element, the old value is still there.
\<close>

theorem sparse_clear_keeps_elements:
  "bindr (flecs_sparse_init 8) (\<lambda>s.
   bindr (flecs_sparse_ensure (0 :: nat) s 8 5) (\<lambda>(s, _).
   bindr (sparse_store s 5 42) (\<lambda>s.
   bindr (flecs_sparse_clear s) (\<lambda>s.
   bindr (flecs_sparse_ensure 0 s 8 5) (\<lambda>(s, ptr, is_new).
   bindr (sparse_load s 5) (\<lambda>d. Inr (is_new, d))))))) = Inr (True, 42)"
  by code_simp

text \<open>
  The bound that \<open>flecs_sparse_get_dense\<close> checks is one too large: on an empty set the index 0 passes, and
  the access leaves the dense array.
\<close>

lemma sparse_get_dense_bound: "bindr (flecs_sparse_init 8) (\<lambda>s. flecs_sparse_get_dense (s :: nat ecs_sparse_t) 8 0) = Inl Undefined"
  by code_simp

end
