(* ===== verification/Hashmap.thy ===== *)
theory Hashmap
  imports Map_Iteration Vec
begin

text \<open>
  The hash map for keys of any type of \<open>src/datastructures/hashmap.c\<close>, on top of the map of 64-bit keys:
  the map takes the hash of a key to a bucket, a pair of vectors with the keys of that hash and their
  values.

  The hash function and the comparison are fields of the map; the hash function may fail an assertion.  A
  bucket is a heap object that only its map entry points to, so the entry holds the bucket itself and \<open>None\<close>
  is the null pointer.  A pointer to a key or a value is the hash of its bucket and the index in it.
\<close>

section \<open>State\<close>

record ('k, 'v) ecs_hm_bucket_t =
  hmb_keys :: "'k ecs_vec_t"
  hmb_values :: "'v ecs_vec_t"

record ('k, 'v) ecs_hashmap_t =
  hm_hash :: "'k \<Rightarrow> u64 res"
  hm_compare :: "'k \<Rightarrow> 'k \<Rightarrow> int"
  hm_key_size :: nat
  hm_value_size :: nat
  hm_impl :: "('k, 'v) ecs_hm_bucket_t option ecs_map_t"

section \<open>Operations\<close>

text \<open>The search loop; \<open>None\<close> is -1.\<close>

fun find_key_from :: "('k \<Rightarrow> 'k \<Rightarrow> int) \<Rightarrow> 'k ecs_vec_t \<Rightarrow> 'k \<Rightarrow> nat list \<Rightarrow> nat option res" where
  "find_key_from cmp keys key [] = Inr None"
| "find_key_from cmp keys key (i # is) =
     bindr (vec_read keys i) (\<lambda>k. if cmp k key = 0 then Inr (Some i) else find_key_from cmp keys key is)"

definition flecs_hashmap_find_key :: "('k, 'v) ecs_hashmap_t \<Rightarrow> 'k ecs_vec_t \<Rightarrow> 'k \<Rightarrow> nat option res" where
  "flecs_hashmap_find_key hm keys key =
     find_key_from (hm_compare hm) keys key [0..<ecs_vec_count keys]"

text \<open>A zeroed allocation.\<close>

definition flecs_hm_bucket_new :: "('k, 'v) ecs_hm_bucket_t" where
  "flecs_hm_bucket_new = \<lparr>hmb_keys = ecs_vec_init 0, hmb_values = ecs_vec_init 0\<rparr>"

definition flecs_hashmap_init ::
  "nat \<Rightarrow> nat \<Rightarrow> ('k \<Rightarrow> u64 res) \<Rightarrow> ('k \<Rightarrow> 'k \<Rightarrow> int) \<Rightarrow> ('k, 'v) ecs_hashmap_t res" where
  "flecs_hashmap_init key_size value_size hash compare =
     bindr ecs_map_init (\<lambda>impl.
     Inr \<lparr>hm_hash = hash, hm_compare = compare, hm_key_size = key_size, hm_value_size = value_size, hm_impl = impl\<rparr>)"

text \<open>The loop that frees the buckets; a null bucket would be dereferenced.\<close>

definition flecs_hashmap_fini :: "nat \<Rightarrow> ('k, 'v) ecs_hashmap_t \<Rightarrow> ('k, 'v) ecs_hashmap_t option res" where
  "flecs_hashmap_fini fuel hm =
     bindr (map_loop fuel
              (\<lambda>(k, bucket) impl u. bindr (defined_if (bucket \<noteq> None)) (\<lambda>_. Inr (impl, u)))
              (hm_impl hm) (ecs_map_iter (hm_impl hm)) ()) (\<lambda>r.
     Inr (map_option (\<lambda>(impl, _). hm\<lparr>hm_impl := ecs_map_fini impl\<rparr>) r))"

definition hm_bucket_copy :: "('k, 'v) ecs_hm_bucket_t option \<Rightarrow> ('k, 'v) ecs_hm_bucket_t option res" where
  "hm_bucket_copy bucket =
     (case bucket of
        None \<Rightarrow> Inl Undefined
      | Some b \<Rightarrow> Inr (Some \<lparr>hmb_keys = ecs_vec_copy (hmb_keys b), hmb_values = ecs_vec_copy (hmb_values b)\<rparr>))"

text \<open>The result is the source, whose iteration mark changes, and the copy.\<close>

definition flecs_hashmap_copy ::
  "nat \<Rightarrow> ('k, 'v) ecs_hashmap_t \<Rightarrow> (('k, 'v) ecs_hashmap_t \<times> ('k, 'v) ecs_hashmap_t) option res" where
  "flecs_hashmap_copy fuel src =
     bindr (flecs_hashmap_init (hm_key_size src) (hm_value_size src) (hm_hash src) (hm_compare src)) (\<lambda>dst.
     bindr (ecs_map_copy fuel (hm_impl dst) (hm_impl src)) (\<lambda>r.
     case r of
       None \<Rightarrow> Inr None
     | Some (simpl, dimpl) \<Rightarrow>
         bindr (map_loop fuel
                  (\<lambda>(k, bucket) impl u.
                     bindr (hm_bucket_copy bucket) (\<lambda>bucket.
                     bindr (ecs_map_store impl k bucket) (\<lambda>impl. Inr (impl, u))))
                  dimpl (ecs_map_iter dimpl) ()) (\<lambda>r.
         Inr (map_option (\<lambda>(impl, _). (src\<lparr>hm_impl := simpl\<rparr>, dst\<lparr>hm_impl := impl\<rparr>)) r))))"

definition flecs_hashmap_get ::
  "('k, 'v) ecs_hashmap_t \<Rightarrow> nat \<Rightarrow> 'k \<Rightarrow> nat \<Rightarrow> (u64 \<times> nat) option res" where
  "flecs_hashmap_get hm key_size key value_size =
     bindr (ecs_assert (hm_key_size hm = key_size) ECS_INVALID_PARAMETER) (\<lambda>_.
     bindr (ecs_assert (hm_value_size hm = value_size) ECS_INVALID_PARAMETER) (\<lambda>_.
     bindr (hm_hash hm key) (\<lambda>hash.
     bindr (ecs_map_get_deref None (hm_impl hm) hash) (\<lambda>bucket.
     case bucket of
       None \<Rightarrow> Inr None
     | Some b \<Rightarrow>
         bindr (flecs_hashmap_find_key hm (hmb_keys b) key) (\<lambda>index.
         case index of
           None \<Rightarrow> Inr None
         | Some i \<Rightarrow> bindr (ecs_vec_get (hmb_values b) i) (\<lambda>_. Inr (Some (hash, i))))))))"

text \<open>
  Accesses to the bucket behind a pointer into the map, to a value, and to a key.
\<close>

definition hm_bucket :: "('k, 'v) ecs_hashmap_t \<Rightarrow> u64 \<Rightarrow> ('k, 'v) ecs_hm_bucket_t res" where
  "hm_bucket hm hash =
     bindr (ecs_map_get_deref None (hm_impl hm) hash) (\<lambda>bucket.
     case bucket of None \<Rightarrow> Inl Undefined | Some b \<Rightarrow> Inr b)"

definition hm_bucket_store ::
  "('k, 'v) ecs_hashmap_t \<Rightarrow> u64 \<Rightarrow> ('k, 'v) ecs_hm_bucket_t \<Rightarrow> ('k, 'v) ecs_hashmap_t res" where
  "hm_bucket_store hm hash b =
     bindr (ecs_map_store (hm_impl hm) hash (Some b)) (\<lambda>impl. Inr (hm\<lparr>hm_impl := impl\<rparr>))"

definition hm_load :: "('k, 'v) ecs_hashmap_t \<Rightarrow> u64 \<times> nat \<Rightarrow> 'v res" where
  "hm_load hm = (\<lambda>(hash, i). bindr (hm_bucket hm hash) (\<lambda>b. vec_read (hmb_values b) i))"

definition hm_store :: "('k, 'v) ecs_hashmap_t \<Rightarrow> u64 \<times> nat \<Rightarrow> 'v \<Rightarrow> ('k, 'v) ecs_hashmap_t res" where
  "hm_store hm = (\<lambda>(hash, i) v.
     bindr (hm_bucket hm hash) (\<lambda>b.
     bindr (vec_write (hmb_values b) i v) (\<lambda>vs. hm_bucket_store hm hash (b\<lparr>hmb_values := vs\<rparr>))))"

definition hm_store_key :: "('k, 'v) ecs_hashmap_t \<Rightarrow> u64 \<times> nat \<Rightarrow> ('k \<Rightarrow> 'k) \<Rightarrow> ('k, 'v) ecs_hashmap_t res" where
  "hm_store_key hm = (\<lambda>(hash, i) f.
     bindr (hm_bucket hm hash) (\<lambda>b.
     bindr (vec_read (hmb_keys b) i) (\<lambda>k.
     bindr (vec_write (hmb_keys b) i (f k)) (\<lambda>ks. hm_bucket_store hm hash (b\<lparr>hmb_keys := ks\<rparr>)))))"

text \<open>The key and its zero value are appended to the vectors of the bucket.\<close>

definition hm_bucket_append ::
  "'v \<Rightarrow> ('k, 'v) ecs_hm_bucket_t \<Rightarrow> 'k \<Rightarrow> (('k, 'v) ecs_hm_bucket_t \<times> nat) res" where
  "hm_bucket_append zero b key =
     (case ecs_vec_append (hmb_keys b) of (keys, ki) \<Rightarrow>
      case ecs_vec_append (hmb_values b) of (vals, vi) \<Rightarrow>
      bindr (vec_write keys ki key) (\<lambda>keys.
      bindr (vec_write vals vi zero) (\<lambda>vals.
      Inr (\<lparr>hmb_keys = keys, hmb_values = vals\<rparr>, vi))))"

definition flecs_hashmap_ensure ::
  "'v \<Rightarrow> ('k, 'v) ecs_hashmap_t \<Rightarrow> nat \<Rightarrow> 'k \<Rightarrow> nat \<Rightarrow> (('k, 'v) ecs_hashmap_t \<times> u64 \<times> nat) res" where
  "flecs_hashmap_ensure zero hm key_size key value_size =
     bindr (ecs_assert (hm_key_size hm = key_size) ECS_INVALID_PARAMETER) (\<lambda>_.
     bindr (ecs_assert (hm_value_size hm = value_size) ECS_INVALID_PARAMETER) (\<lambda>_.
     bindr (hm_hash hm key) (\<lambda>hash.
     bindr (ecs_map_ensure None (hm_impl hm) hash) (\<lambda>impl.
     bindr (ecs_map_get_deref None impl hash) (\<lambda>bucket.
     let b = (case bucket of None \<Rightarrow> flecs_hm_bucket_new | Some b \<Rightarrow> b) in
     bindr (if vec_array (hmb_keys b) = [] then
              hm_bucket_append zero \<lparr>hmb_keys = ecs_vec_init 1, hmb_values = ecs_vec_init 1\<rparr> key
            else
              bindr (flecs_hashmap_find_key hm (hmb_keys b) key) (\<lambda>index.
              case index of
                None \<Rightarrow> hm_bucket_append zero b key
              | Some i \<Rightarrow>
                  bindr (ecs_vec_get (hmb_keys b) i) (\<lambda>_.
                  bindr (ecs_vec_get (hmb_values b) i) (\<lambda>_. Inr (b, i))))) (\<lambda>(b, i).
     bindr (ecs_map_store impl hash (Some b)) (\<lambda>impl.
     Inr (hm\<lparr>hm_impl := impl\<rparr>, hash, i))))))))"

definition flecs_hashmap_set ::
  "'v \<Rightarrow> ('k, 'v) ecs_hashmap_t \<Rightarrow> nat \<Rightarrow> 'k \<Rightarrow> nat \<Rightarrow> 'v \<Rightarrow> ('k, 'v) ecs_hashmap_t res" where
  "flecs_hashmap_set zero hm key_size key value_size v =
     bindr (flecs_hashmap_ensure zero hm key_size key value_size) (\<lambda>(hm, ptr). hm_store hm ptr v)"

definition flecs_hashmap_get_bucket :: "('k, 'v) ecs_hashmap_t \<Rightarrow> u64 \<Rightarrow> ('k, 'v) ecs_hm_bucket_t option res" where
  "flecs_hashmap_get_bucket hm hash = ecs_map_get_deref None (hm_impl hm) hash"

text \<open>The bucket is the one of the map with the hash.\<close>

definition flecs_hm_bucket_remove ::
  "('k, 'v) ecs_hashmap_t \<Rightarrow> u64 \<Rightarrow> nat \<Rightarrow> ('k, 'v) ecs_hashmap_t res" where
  "flecs_hm_bucket_remove hm hash index =
     bindr (hm_bucket hm hash) (\<lambda>b.
     bindr (ecs_vec_remove (hmb_keys b) index) (\<lambda>keys.
     bindr (ecs_vec_remove (hmb_values b) index) (\<lambda>vals.
     if ecs_vec_count keys = 0 then
       bindr (ecs_map_remove (hm_impl hm) hash) (\<lambda>(impl, r).
       bindr (ecs_assert (r \<noteq> None) ECS_INTERNAL_ERROR) (\<lambda>_.
       Inr (hm\<lparr>hm_impl := impl\<rparr>)))
     else hm_bucket_store hm hash \<lparr>hmb_keys = keys, hmb_values = vals\<rparr>)))"

definition flecs_hashmap_remove_w_hash ::
  "('k, 'v) ecs_hashmap_t \<Rightarrow> nat \<Rightarrow> 'k \<Rightarrow> nat \<Rightarrow> u64 \<Rightarrow> ('k, 'v) ecs_hashmap_t res" where
  "flecs_hashmap_remove_w_hash hm key_size key value_size hash =
     bindr (ecs_assert (hm_key_size hm = key_size) ECS_INVALID_PARAMETER) (\<lambda>_.
     bindr (ecs_assert (hm_value_size hm = value_size) ECS_INVALID_PARAMETER) (\<lambda>_.
     bindr (ecs_map_get_deref None (hm_impl hm) hash) (\<lambda>bucket.
     case bucket of
       None \<Rightarrow> Inr hm
     | Some b \<Rightarrow>
         bindr (flecs_hashmap_find_key hm (hmb_keys b) key) (\<lambda>index.
         case index of
           None \<Rightarrow> Inr hm
         | Some i \<Rightarrow> flecs_hm_bucket_remove hm hash i))))"

definition flecs_hashmap_remove ::
  "('k, 'v) ecs_hashmap_t \<Rightarrow> nat \<Rightarrow> 'k \<Rightarrow> nat \<Rightarrow> ('k, 'v) ecs_hashmap_t res" where
  "flecs_hashmap_remove hm key_size key value_size =
     bindr (ecs_assert (hm_key_size hm = key_size) ECS_INVALID_PARAMETER) (\<lambda>_.
     bindr (ecs_assert (hm_value_size hm = value_size) ECS_INVALID_PARAMETER) (\<lambda>_.
     bindr (hm_hash hm key) (\<lambda>hash.
     flecs_hashmap_remove_w_hash hm key_size key value_size hash)))"

record ('k, 'v) flecs_hashmap_iter_t =
  hit_it :: "('k, 'v) ecs_hm_bucket_t option ecs_map_iter_t"
  hit_bucket :: "('k, 'v) ecs_hm_bucket_t option"
  hit_index :: nat

definition flecs_hashmap_iter :: "('k, 'v) ecs_hashmap_t \<Rightarrow> ('k, 'v) flecs_hashmap_iter_t" where
  "flecs_hashmap_iter hm = \<lparr>hit_it = ecs_map_iter (hm_impl hm), hit_bucket = None, hit_index = 0\<rparr>"

text \<open>
  The loop of \<open>flecs_hashmap_next_\<close> that moves to the next bucket with a key left; the fuel bounds the number
  of buckets.  The result is the key and the value that were reached, \<open>None\<close> at the end, the outer \<open>None\<close>
  when the fuel ran out.
\<close>

fun hashmap_next_bucket ::
  "nat \<Rightarrow> ('k, 'v) ecs_hashmap_t \<Rightarrow> ('k, 'v) flecs_hashmap_iter_t \<Rightarrow>
   (('k, 'v) ecs_hashmap_t \<times> ('k, 'v) flecs_hashmap_iter_t \<times> ('k \<times> 'v) option) option res" where
  "hashmap_next_bucket 0 hm it = Inr None"
| "hashmap_next_bucket (Suc n) hm it =
     (case hit_bucket it of
        Some b \<Rightarrow>
          if hit_index it < ecs_vec_count (hmb_keys b) then
            bindr (ecs_vec_get (hmb_keys b) (hit_index it)) (\<lambda>k.
            bindr (ecs_vec_get (hmb_values b) (hit_index it)) (\<lambda>v.
            Inr (Some (hm, it, Some (k, v)))))
          else
            bindr (ecs_map_next (hm_impl hm) (hit_it it)) (\<lambda>(impl, mit, r).
            case r of
              None \<Rightarrow> Inr (Some (hm\<lparr>hm_impl := impl\<rparr>, it\<lparr>hit_it := mit, hit_bucket := None\<rparr>, None))
            | Some (h, b) \<Rightarrow>
                hashmap_next_bucket n (hm\<lparr>hm_impl := impl\<rparr>) (it\<lparr>hit_it := mit, hit_bucket := b, hit_index := 0\<rparr>))
      | None \<Rightarrow>
          bindr (ecs_map_next (hm_impl hm) (hit_it it)) (\<lambda>(impl, mit, r).
          case r of
            None \<Rightarrow> Inr (Some (hm\<lparr>hm_impl := impl\<rparr>, it\<lparr>hit_it := mit, hit_bucket := None\<rparr>, None))
          | Some (h, b) \<Rightarrow>
              hashmap_next_bucket n (hm\<lparr>hm_impl := impl\<rparr>) (it\<lparr>hit_it := mit, hit_bucket := b, hit_index := 0\<rparr>)))"

definition flecs_hashmap_next ::
  "nat \<Rightarrow> ('k, 'v) ecs_hashmap_t \<Rightarrow> ('k, 'v) flecs_hashmap_iter_t \<Rightarrow>
   (('k, 'v) ecs_hashmap_t \<times> ('k, 'v) flecs_hashmap_iter_t \<times> ('k \<times> 'v) option) option res" where
  "flecs_hashmap_next fuel hm it = hashmap_next_bucket fuel hm (it\<lparr>hit_index := hit_index it + 1\<rparr>)"

end
