(* ===== verification/Hashmap_Facts.thy ===== *)
theory Hashmap_Facts
  imports Hashmap
begin

text \<open>
  The hash map for arbitrary keys as a finite map, for every hash function and comparison that agree: the
  interface \<open>hash_keys\<close> says what they have to satisfy on the keys in use.
\<close>

section \<open>Buckets\<close>

definition bucket_ok ::
  "('k \<Rightarrow> bool) \<Rightarrow> ('k \<Rightarrow> u64 res) \<Rightarrow> ('k \<Rightarrow> 'k \<Rightarrow> int) \<Rightarrow> u64 \<Rightarrow> ('k, 'v) ecs_hm_bucket_t \<Rightarrow> bool" where
  "bucket_ok valid hash cmp h b \<longleftrightarrow>
     vec_ok (hmb_keys b) \<and> vec_ok (hmb_values b) \<and> vec_count (hmb_keys b) = vec_count (hmb_values b) \<and> 0 < vec_count (hmb_keys b) \<and>
     (\<forall>k \<in> set (vec_elems (hmb_keys b)). valid k \<and> hash k = Inr h) \<and>
     (\<forall>i j. i < vec_count (hmb_keys b) \<longrightarrow> j < vec_count (hmb_keys b) \<longrightarrow> i \<noteq> j \<longrightarrow>
        cmp (vec_elems (hmb_keys b) ! i) (vec_elems (hmb_keys b) ! j) \<noteq> 0)"

definition bucket_find :: "('k \<Rightarrow> 'k \<Rightarrow> int) \<Rightarrow> ('k, 'v) ecs_hm_bucket_t \<Rightarrow> 'k \<Rightarrow> nat option" where
  "bucket_find cmp b key = find (\<lambda>i. cmp (vec_elems (hmb_keys b) ! i) key = 0) [0..<vec_count (hmb_keys b)]"

definition bucket_look :: "('k \<Rightarrow> 'k \<Rightarrow> int) \<Rightarrow> ('k, 'v) ecs_hm_bucket_t \<Rightarrow> 'k \<Rightarrow> 'v option" where
  "bucket_look cmp b key = map_option ((!) (vec_elems (hmb_values b))) (bucket_find cmp b key)"

definition hm_wf :: "('k \<Rightarrow> bool) \<Rightarrow> ('k, 'v) ecs_hashmap_t \<Rightarrow> bool" where
  "hm_wf valid hm \<longleftrightarrow> map_wf (hm_impl hm) \<and>
     (\<forall>h v. map_lookup (hm_impl hm) h = Some v \<longrightarrow>
        (\<exists>b. v = Some b \<and> bucket_ok valid (hm_hash hm) (hm_compare hm) h b))"

text \<open>The value of a key.\<close>

definition hm_look :: "('k, 'v) ecs_hashmap_t \<Rightarrow> 'k \<Rightarrow> 'v option" where
  "hm_look hm key =
     (case hm_hash hm key of
        Inl e \<Rightarrow> None
      | Inr h \<Rightarrow> (case map_lookup (hm_impl hm) h of
            Some (Some b) \<Rightarrow> bucket_look (hm_compare hm) b key
          | _ \<Rightarrow> None))"

lemma find_Some_iff_upt:
  "find P [0..<n] = Some i \<Longrightarrow> i < n \<and> P i" "find P [0..<n] = None \<longleftrightarrow> (\<forall>i < n. \<not> P i)"
  by (auto simp: find_Some_iff find_None_iff)

lemma find_key_ok:
  assumes "vec_ok (hmb_keys b)"
  shows "flecs_hashmap_find_key hm (hmb_keys b) key = Inr (bucket_find (hm_compare hm) b key)"
proof -
  have "find_key_from (hm_compare hm) (hmb_keys b) key is = Inr (find (\<lambda>i. hm_compare hm (vec_elems (hmb_keys b) ! i) key = 0) is)"
    if "\<forall>i \<in> set is. i < vec_count (hmb_keys b)" for "is"
    using that assms by (induction "is") simp_all
  then show ?thesis by (simp add: flecs_hashmap_find_key_def bucket_find_def ecs_vec_count_def)
qed

lemma bucket_findD:
  "bucket_find cmp b key = Some i \<Longrightarrow> i < vec_count (hmb_keys b) \<and> cmp (vec_elems (hmb_keys b) ! i) key = 0"
  "bucket_find cmp b key = None \<longleftrightarrow> (\<forall>i < vec_count (hmb_keys b). cmp (vec_elems (hmb_keys b) ! i) key \<noteq> 0)"
  using find_Some_iff_upt(1) [of "\<lambda>i. cmp (vec_elems (hmb_keys b) ! i) key = 0"]
  by (simp_all add: bucket_find_def find_Some_iff_upt(2))

lemma bucket_append_ok:
  assumes k: "vec_ok (hmb_keys b)" "vec_count (hmb_keys b) < 2 ^ 30"
    and v: "vec_ok (hmb_values b)" "vec_count (hmb_values b) = vec_count (hmb_keys b)"
  shows "\<exists>b'. hm_bucket_append z b key = Inr (b', vec_count (hmb_keys b)) \<and> vec_ok (hmb_keys b') \<and> vec_ok (hmb_values b') \<and>
    vec_elems (hmb_keys b') = vec_elems (hmb_keys b) @ [key] \<and> vec_elems (hmb_values b') = vec_elems (hmb_values b) @ [z]"
proof -
  obtain ks ki vs vi where a: "ecs_vec_append (hmb_keys b) = (ks, ki)" "ecs_vec_append (hmb_values b) = (vs, vi)"
    by (cases "ecs_vec_append (hmb_keys b)", cases "ecs_vec_append (hmb_values b)")
  have vi: "vi = vec_count (hmb_keys b)" using a(2) v(2) by (simp add: ecs_vec_append_def Let_def)
  have "vec_write ks ki key = Inr (vec_snoc (hmb_keys b) key)"
    using vec_snoc_ok(4) [OF k] by (simp add: ecs_vec_push_def a)
  moreover have "vec_write vs vi z = Inr (vec_snoc (hmb_values b) z)"
    using vec_snoc_ok(4) [of "hmb_values b" z] v k(2) by (simp add: ecs_vec_push_def a)
  ultimately show ?thesis using a vi k v by (simp add: hm_bucket_append_def)
qed

lemma ex_nth_snoc:
  assumes "length xs = n" and "length ys = n"
  shows "(\<exists>j < Suc n. P ((xs @ [x]) ! j) ((ys @ [y]) ! j)) \<longleftrightarrow> P x y \<or> (\<exists>j < n. P (xs ! j) (ys ! j))"
proof -
  have "(xs @ [x]) ! j = xs ! j" "(ys @ [y]) ! j = ys ! j" if "j < n" for j using that assms by (simp_all add: nth_append)
  moreover have "(xs @ [x]) ! n = x" "(ys @ [y]) ! n = y" using assms by (simp_all add: nth_append)
  ultimately show ?thesis using less_Suc_eq by metis
qed

text \<open>Removing by moving the last element into the hole, position by position.\<close>

lemma swap_remove_nth:
  assumes "i < length xs" and "j < length xs - 1"
  shows "butlast (xs[i := last xs]) ! j = xs ! (if j = i then length xs - 1 else j)"
proof -
  have "last xs = xs ! (length xs - 1)" using assms(1) by (intro last_conv_nth) auto
  then show ?thesis using assms by (simp add: nth_butlast nth_list_update)
qed

section \<open>The interface of keys\<close>

locale hash_keys =
  fixes valid :: "'k \<Rightarrow> bool"
    and hash :: "'k \<Rightarrow> u64 res"
    and cmp :: "'k \<Rightarrow> 'k \<Rightarrow> int"
  assumes hash_ok: "valid k \<Longrightarrow> \<exists>h. hash k = Inr h"
    and cmp_refl: "valid k \<Longrightarrow> cmp k k = 0"
    and cmp_sym: "valid k \<Longrightarrow> valid l \<Longrightarrow> cmp k l = 0 \<Longrightarrow> cmp l k = 0"
    and cmp_trans: "valid k \<Longrightarrow> valid l \<Longrightarrow> valid m \<Longrightarrow> cmp k l = 0 \<Longrightarrow> cmp l m = 0 \<Longrightarrow> cmp k m = 0"
    and hash_cmp: "valid k \<Longrightarrow> valid l \<Longrightarrow> cmp k l = 0 \<Longrightarrow> hash k = hash l"
begin

lemma cmp_comm: "valid k \<Longrightarrow> valid l \<Longrightarrow> cmp k l = 0 \<longleftrightarrow> cmp l k = 0"
  using cmp_sym by blast

lemma cmp_left: "valid k \<Longrightarrow> valid l \<Longrightarrow> valid m \<Longrightarrow> cmp k l = 0 \<Longrightarrow> cmp k m = 0 \<longleftrightarrow> cmp l m = 0"
  using cmp_trans [of k l m] cmp_trans [of l k m] cmp_comm [of k l] by blast

lemma bucket_look_iff:
  assumes ok: "bucket_ok valid hash cmp h b" and key: "valid key"
  shows "bucket_look cmp b key = Some v \<longleftrightarrow>
    (\<exists>j < vec_count (hmb_keys b). cmp (vec_elems (hmb_keys b) ! j) key = 0 \<and> vec_elems (hmb_values b) ! j = v)"
proof -
  let ?K = "vec_elems (hmb_keys b)" and ?n = "vec_count (hmb_keys b)"
  have len: "length ?K = ?n" and va: "valid (?K ! i)" if "i < ?n" for i using ok that by (auto simp: bucket_ok_def)
  have uniq: "i = j" if "i < ?n" "j < ?n" "cmp (?K ! i) key = 0" "cmp (?K ! j) key = 0" for i j
  proof (rule ccontr)
    assume "i \<noteq> j"
    then have "cmp (?K ! i) (?K ! j) \<noteq> 0" using ok that(1,2) by (simp add: bucket_ok_def)
    moreover have "cmp (?K ! i) (?K ! j) = 0"
      using cmp_trans [OF va [OF that(1)] key va [OF that(2)] that(3)] cmp_sym [OF va [OF that(2)] key that(4)] .
    ultimately show False by simp
  qed
  show ?thesis
  proof (cases "bucket_find cmp b key")
    case None
    then show ?thesis using bucket_findD(2) [of cmp b key] by (auto simp: bucket_look_def)
  next
    case (Some i)
    note F = bucket_findD(1) [OF Some]
    then show ?thesis using uniq [of i] Some by (auto simp: bucket_look_def)
  qed
qed

text \<open>Two buckets with the same values for equal keys look alike.\<close>

lemma bucket_look_eqI:
  assumes "bucket_ok valid hash cmp h b" and "bucket_ok valid hash cmp h' b'" and "valid key"
    and "\<And>v. (\<exists>j < vec_count (hmb_keys b). cmp (vec_elems (hmb_keys b) ! j) key = 0 \<and> vec_elems (hmb_values b) ! j = v) \<longleftrightarrow>
      (\<exists>j < vec_count (hmb_keys b'). cmp (vec_elems (hmb_keys b') ! j) key = 0 \<and> vec_elems (hmb_values b') ! j = v)"
  shows "bucket_look cmp b key = bucket_look cmp b' key"
proof -
  have "bucket_look cmp b key = Some v \<longleftrightarrow> bucket_look cmp b' key = Some v" for v
    unfolding bucket_look_iff [OF assms(1,3)] bucket_look_iff [OF assms(2,3)] using assms(4) .
  then show ?thesis by (metis not_Some_eq)
qed

text \<open>A bucket with a key appended that it does not have.\<close>

lemma bucket_ok_append:
  assumes key: "valid key" "hash key = Inr h"
    and b: "vec_ok (hmb_keys b)" "vec_ok (hmb_values b)" "vec_count (hmb_keys b) = vec_count (hmb_values b)"
      "\<forall>k \<in> set (vec_elems (hmb_keys b)). valid k \<and> hash k = Inr h"
      "\<forall>i j. i < vec_count (hmb_keys b) \<longrightarrow> j < vec_count (hmb_keys b) \<longrightarrow> i \<noteq> j \<longrightarrow>
        cmp (vec_elems (hmb_keys b) ! i) (vec_elems (hmb_keys b) ! j) \<noteq> 0"
    and new: "\<forall>i < vec_count (hmb_keys b). cmp (vec_elems (hmb_keys b) ! i) key \<noteq> 0"
    and b': "vec_ok (hmb_keys b')" "vec_ok (hmb_values b')" "vec_elems (hmb_keys b') = vec_elems (hmb_keys b) @ [key]"
      "vec_elems (hmb_values b') = vec_elems (hmb_values b) @ [z]"
  shows "bucket_ok valid hash cmp h b'"
    and "valid k \<Longrightarrow> bucket_look cmp b' k = Some v \<longleftrightarrow>
      (if cmp k key = 0 then v = z
       else \<exists>j < vec_count (hmb_keys b). cmp (vec_elems (hmb_keys b) ! j) k = 0 \<and> vec_elems (hmb_values b) ! j = v)"
proof -
  let ?K = "vec_elems (hmb_keys b)" and ?n = "vec_count (hmb_keys b)"
  have len: "length ?K = ?n" "length (vec_elems (hmb_values b)) = ?n" using b by simp_all
  have n': "vec_count (hmb_keys b') = Suc ?n" "vec_count (hmb_values b') = Suc ?n"
    using length_vec_elems [OF b'(1)] length_vec_elems [OF b'(2)] b'(3,4) len by simp_all
  have va: "valid (?K ! i)" if "i < ?n" for i using that b(4) len by simp
  have new': "cmp key (?K ! i) \<noteq> 0" if "i < ?n" for i
    using cmp_sym [OF key(1) va [OF that]] new that by metis
  show ok: "bucket_ok valid hash cmp h b'"
  proof -
    have "cmp ((?K @ [key]) ! i) ((?K @ [key]) ! j) \<noteq> 0" if "i < Suc ?n" "j < Suc ?n" "i \<noteq> j" for i j
      using that b(5) new new' len by (cases "i = ?n"; cases "j = ?n") (simp_all add: nth_append)
    then show ?thesis unfolding bucket_ok_def n' b'(3) using b(4) b'(1,2) key by simp
  qed
  assume k: "valid k"
  have last: "cmp key k = 0 \<longleftrightarrow> cmp k key = 0" using cmp_sym key(1) k by blast
  have no: "cmp k key \<noteq> 0" if "j < ?n" "cmp (?K ! j) k = 0" for j
    using cmp_trans [OF va [OF that(1)] k key(1) that(2)] new that(1) by blast
  have "bucket_look cmp b' k = Some v \<longleftrightarrow> (\<exists>j < Suc ?n. cmp ((?K @ [key]) ! j) k = 0 \<and> (vec_elems (hmb_values b) @ [z]) ! j = v)"
    using bucket_look_iff [OF ok k, of v] n' b'(3,4) by simp
  also have "\<dots> \<longleftrightarrow> (cmp key k = 0 \<and> z = v) \<or> (\<exists>j < ?n. cmp (?K ! j) k = 0 \<and> vec_elems (hmb_values b) ! j = v)"
    using ex_nth_snoc [OF len, of "\<lambda>a b. cmp a k = 0 \<and> b = v" key z] .
  also have "\<dots> \<longleftrightarrow> (if cmp k key = 0 then v = z else \<exists>j < ?n. cmp (?K ! j) k = 0 \<and> vec_elems (hmb_values b) ! j = v)"
    using last no by auto
  finally show "bucket_look cmp b' k = Some v \<longleftrightarrow>
      (if cmp k key = 0 then v = z else \<exists>j < ?n. cmp (?K ! j) k = 0 \<and> vec_elems (hmb_values b) ! j = v)" .
qed

text \<open>A bucket with another value for a key that it has.\<close>

lemma bucket_ok_value:
  fixes v :: 'v
  assumes ok: "bucket_ok valid hash cmp h b" and key: "valid key" and find: "bucket_find cmp b key = Some i"
  defines "b' \<equiv> b\<lparr>hmb_values := vec_upd (hmb_values b) i v\<rparr>"
  shows "bucket_ok valid hash cmp h b'"
    and "valid k \<Longrightarrow> bucket_look cmp b' k = (if cmp k key = 0 then Some v else bucket_look cmp b k)"
proof -
  note F = bucket_findD(1) [OF find]
  let ?K = "vec_elems (hmb_keys b)" and ?V = "vec_elems (hmb_values b)" and ?n = "vec_count (hmb_keys b)"
  have vals: "vec_ok (hmb_values b)" "vec_count (hmb_values b) = ?n" "length ?V = ?n" and va: "valid (?K ! j)" if "j < ?n" for j
    using ok that by (auto simp: bucket_ok_def)
  have i: "i < ?n" "i < vec_count (hmb_values b)" and V: "vec_ok (hmb_values b)" "length ?V = ?n" using F ok by (auto simp: bucket_ok_def)
  show ok': "bucket_ok valid hash cmp h b'" using ok i V by (simp add: b'_def bucket_ok_def)
  assume k: "valid k"
  have same: "cmp (?K ! i) k = 0 \<longleftrightarrow> cmp k key = 0"
    using cmp_left [OF va [OF i(1)] key k] cmp_comm [OF key k] F by simp
  have uniq: "j = i" if "j < ?n" "cmp (?K ! j) k = 0" "cmp k key = 0" for j
  proof (rule ccontr)
    assume "j \<noteq> i"
    then have "cmp (?K ! j) (?K ! i) \<noteq> 0" using ok that(1) i(1) by (simp add: bucket_ok_def)
    moreover have "cmp k (?K ! i) = 0" using same that(3) cmp_sym [OF va [OF i(1)] k] by blast
    ultimately show False using cmp_trans [OF va [OF that(1)] k va [OF i(1)] that(2)] by blast
  qed
  have "bucket_look cmp b' k = Some w \<longleftrightarrow> (if cmp k key = 0 then Some v else bucket_look cmp b k) = Some w" for w
  proof -
    have "bucket_look cmp b' k = Some w \<longleftrightarrow> (\<exists>j < ?n. cmp (?K ! j) k = 0 \<and> ?V[i := v] ! j = w)"
      unfolding bucket_look_iff [OF ok' k] using i V by (simp add: b'_def)
    also have "\<dots> \<longleftrightarrow> (if cmp k key = 0 then Some v else bucket_look cmp b k) = Some w"
    proof (cases "cmp k key = 0")
      case True
      then have "(\<exists>j < ?n. cmp (?K ! j) k = 0 \<and> ?V[i := v] ! j = w) \<longleftrightarrow> ?V[i := v] ! i = w"
        using same uniq i(1) by metis
      then show ?thesis using True i(1) V(2) by simp
    next
      case False
      then have "?V[i := v] ! j = ?V ! j" if "cmp (?K ! j) k = 0" for j using same that by (metis nth_list_update_neq)
      then show ?thesis using False bucket_look_iff [OF ok k] by auto
    qed
    finally show ?thesis .
  qed
  then show "bucket_look cmp b' k = (if cmp k key = 0 then Some v else bucket_look cmp b k)" by (metis not_Some_eq)
qed

text \<open>A bucket with a key taken out.\<close>

lemma bucket_look_single:
  assumes ok: "bucket_ok valid hash cmp h b" and key: "valid key" and find: "bucket_find cmp b key = Some i"
    and "vec_count (hmb_keys b) = 1" and k: "valid k" and "cmp k key \<noteq> 0"
  shows "bucket_look cmp b k = None"
proof -
  note F = bucket_findD(1) [OF find]
  have "valid (vec_elems (hmb_keys b) ! i)" using ok F by (simp add: bucket_ok_def)
  then have "cmp (vec_elems (hmb_keys b) ! i) k \<noteq> 0" using cmp_left [of _ key k] cmp_comm [OF key k] F key k assms(6) by simp
  moreover have "i = 0" using F assms(4) by simp
  ultimately show ?thesis using bucket_findD(2) [of cmp b k] assms(4) by (simp add: bucket_look_def)
qed

lemma bucket_ok_remove:
  assumes ok: "bucket_ok valid hash cmp h b" and key: "valid key" and find: "bucket_find cmp b key = Some i"
    and n: "vec_count (hmb_keys b) \<noteq> 1" and b': "vec_ok (hmb_keys b')" "vec_ok (hmb_values b')"
      "vec_elems (hmb_keys b') = butlast ((vec_elems (hmb_keys b))[i := last (vec_elems (hmb_keys b))])"
      "vec_elems (hmb_values b') = butlast ((vec_elems (hmb_values b))[i := last (vec_elems (hmb_values b))])"
  shows "bucket_ok valid hash cmp h b'"
    and "valid k \<Longrightarrow> bucket_look cmp b' k = (if cmp k key = 0 then None else bucket_look cmp b k)"
proof -
  let ?K = "vec_elems (hmb_keys b)" and ?V = "vec_elems (hmb_values b)" and ?n = "vec_count (hmb_keys b)"
  define \<sigma> where "\<sigma> j = (if j = i then ?n - 1 else j)" for j
  have i: "i < ?n" and Ki: "cmp (?K ! i) key = 0" using bucket_findD(1) [OF find] by simp_all
  have len: "length ?K = ?n" "length ?V = ?n" and pair: "\<And>i j. i < ?n \<Longrightarrow> j < ?n \<Longrightarrow> i \<noteq> j \<Longrightarrow> cmp (?K ! i) (?K ! j) \<noteq> 0"
    and va: "\<And>j. j < ?n \<Longrightarrow> valid (?K ! j) \<and> hash (?K ! j) = Inr h" and pos: "0 < ?n"
    using ok by (auto simp: bucket_ok_def)
  have n': "vec_count (hmb_keys b') = ?n - 1" "vec_count (hmb_values b') = ?n - 1"
    using length_vec_elems [OF b'(1)] length_vec_elems [OF b'(2)] b'(3,4) len by simp_all
  have nth: "vec_elems (hmb_keys b') ! j = ?K ! \<sigma> j" "vec_elems (hmb_values b') ! j = ?V ! \<sigma> j" if "j < ?n - 1" for j
    using that i len unfolding b'(3,4) \<sigma>_def by (simp_all add: swap_remove_nth)
  have \<sigma>: "\<sigma> j < ?n" "\<sigma> j \<noteq> i" if "j < ?n - 1" for j using that i by (auto simp: \<sigma>_def split: if_splits)
  have inj: "\<sigma> j \<noteq> \<sigma> l" if "j < ?n - 1" "l < ?n - 1" "j \<noteq> l" for j l using that by (auto simp: \<sigma>_def)
  have surj: "\<exists>j < ?n - 1. \<sigma> j = l" if "l < ?n" "l \<noteq> i" for l
  proof (cases "l = ?n - 1")
    case True
    then show ?thesis using that i by (intro exI [of _ i]) (auto simp: \<sigma>_def)
  next
    case False
    then show ?thesis using that by (intro exI [of _ l]) (auto simp: \<sigma>_def)
  qed
  show ok': "bucket_ok valid hash cmp h b'"
  proof -
    have "valid k \<and> hash k = Inr h" if "k \<in> set (vec_elems (hmb_keys b'))" for k
      using that n'(1) nth(1) va \<sigma>(1) length_vec_elems [OF b'(1)] by (metis in_set_conv_nth)
    moreover have "cmp (vec_elems (hmb_keys b') ! a) (vec_elems (hmb_keys b') ! c) \<noteq> 0" if "a < ?n - 1" "c < ?n - 1" "a \<noteq> c" for a c
      unfolding nth(1) [OF that(1)] nth(1) [OF that(2)] using pair [OF \<sigma>(1) [OF that(1)] \<sigma>(1) [OF that(2)] inj [OF that]] .
    ultimately show ?thesis using b'(1,2) n' n pos by (simp add: bucket_ok_def)
  qed
  assume k: "valid k"
  have same: "cmp (?K ! j) k = 0 \<and> cmp k key = 0 \<Longrightarrow> j < ?n \<Longrightarrow> j = i" for j
    using pair [of j i] cmp_left [of k key "?K ! i"] cmp_left [of "?K ! j" k "?K ! i"] va [of j] va [OF i] cmp_comm [of key "?K ! i"] k key Ki i
    by blast
  have Kik: "cmp (?K ! i) k = 0 \<longleftrightarrow> cmp k key = 0" using cmp_left [of "?K ! i" key k] va [OF i] key k Ki cmp_comm [OF key k] by simp
  have "bucket_look cmp b' k = Some v \<longleftrightarrow> cmp k key \<noteq> 0 \<and> bucket_look cmp b k = Some v" for v
  proof -
    have "bucket_look cmp b' k = Some v \<longleftrightarrow> (\<exists>j < ?n - 1. cmp (?K ! \<sigma> j) k = 0 \<and> ?V ! \<sigma> j = v)"
      unfolding bucket_look_iff [OF ok' k] n'(1) using nth by auto
    also have "\<dots> \<longleftrightarrow> (\<exists>l < ?n. l \<noteq> i \<and> cmp (?K ! l) k = 0 \<and> ?V ! l = v)" using \<sigma> surj by metis
    also have "\<dots> \<longleftrightarrow> cmp k key \<noteq> 0 \<and> bucket_look cmp b k = Some v"
      unfolding bucket_look_iff [OF ok k] using same Kik by metis
    finally show ?thesis .
  qed
  then show "bucket_look cmp b' k = (if cmp k key = 0 then None else bucket_look cmp b k)" by (metis not_Some_eq)
qed

end

section \<open>The map of buckets\<close>

lemma hm_wfD:
  assumes "hm_wf valid hm"
  shows "map_wf (hm_impl hm)"
    and "map_lookup (hm_impl hm) h = Some v \<Longrightarrow> \<exists>b. v = Some b \<and> bucket_ok valid (hm_hash hm) (hm_compare hm) h b"
  using assms by (simp_all add: hm_wf_def)

text \<open>Room for another key.\<close>

definition hm_room :: "('k, 'v) ecs_hashmap_t \<Rightarrow> bool" where
  "hm_room hm \<longleftrightarrow> card (dom (map_lookup (hm_impl hm))) + 1 < 2 ^ 26 \<and>
     (\<forall>h b. map_lookup (hm_impl hm) h = Some (Some b) \<longrightarrow> vec_count (hmb_keys b) < 2 ^ 30)"

lemma hm_wf_update:
  assumes "hm_wf valid hm" and "map_wf m" and "map_lookup m = (map_lookup (hm_impl hm))(h \<mapsto> Some b)"
    and "bucket_ok valid (hm_hash hm) (hm_compare hm) h b"
  shows "hm_wf valid (hm\<lparr>hm_impl := m\<rparr>)"
    and "hm_look (hm\<lparr>hm_impl := m\<rparr>) k = (if hm_hash hm k = Inr h then bucket_look (hm_compare hm) b k else hm_look hm k)"
  using assms by (auto simp: hm_wf_def hm_look_def split: sum.split option.split)

lemma hm_wf_delete:
  assumes "hm_wf valid hm" and "map_wf m" and "map_lookup m = (map_lookup (hm_impl hm))(h := None)"
  shows "hm_wf valid (hm\<lparr>hm_impl := m\<rparr>)"
    and "hm_look (hm\<lparr>hm_impl := m\<rparr>) k = (if hm_hash hm k = Inr h then None else hm_look hm k)"
  using assms by (auto simp: hm_wf_def hm_look_def split: sum.split option.split)

lemma hm_bucket_ok:
  assumes "map_wf (hm_impl hm)" and "map_lookup (hm_impl hm) h = Some (Some b)"
  shows "hm_bucket hm h = Inr b"
    and "\<exists>m. hm_bucket_store hm h b' = Inr (hm\<lparr>hm_impl := m\<rparr>) \<and> map_wf m \<and>
      map_lookup m = (map_lookup (hm_impl hm))(h \<mapsto> Some b')"
proof -
  show "hm_bucket hm h = Inr b" using assms by (simp add: hm_bucket_def map_get_deref_ok)
  from emap.store_law [OF assms(1), of h "Some b'"] assms(2) obtain m where
    "ecs_map_store (hm_impl hm) h (Some b') = Inr m" "map_wf m" "map_lookup m = (map_lookup (hm_impl hm))(h \<mapsto> Some b')" by auto
  then show "\<exists>m. hm_bucket_store hm h b' = Inr (hm\<lparr>hm_impl := m\<rparr>) \<and> map_wf m \<and>
      map_lookup m = (map_lookup (hm_impl hm))(h \<mapsto> Some b')" by (intro exI [of _ m]) (simp add: hm_bucket_store_def)
qed

text \<open>A well-formed map with the given hash function and comparison.\<close>

definition hm_for :: "('k \<Rightarrow> bool) \<Rightarrow> ('k \<Rightarrow> u64 res) \<Rightarrow> ('k \<Rightarrow> 'k \<Rightarrow> int) \<Rightarrow> ('k, 'v) ecs_hashmap_t \<Rightarrow> bool" where
  "hm_for valid hash cmp hm \<longleftrightarrow> hm_hash hm = hash \<and> hm_compare hm = cmp \<and> hm_wf valid hm"

context hash_keys
begin

lemma hash_of:
  assumes "valid key"
  obtains h where "hash key = Inr h"
  using hash_ok [OF assms] by blast

lemma hm_look_bucket:
  assumes "hm_for valid hash cmp hm" and "hash key = Inr h"
  shows "hm_look hm key = (case map_lookup (hm_impl hm) h of Some (Some b) \<Rightarrow> bucket_look cmp b key | _ \<Rightarrow> None)"
  using assms by (simp add: hm_look_def hm_for_def cong: option.case_cong)

theorem hm_get_ok:
  assumes hm: "hm_for valid hash cmp hm" and key: "valid key"
  shows "\<exists>r. flecs_hashmap_get hm (hm_key_size hm) key (hm_value_size hm) = Inr r \<and>
    (case r of None \<Rightarrow> hm_look hm key = None | Some ptr \<Rightarrow> \<exists>v. hm_load hm ptr = Inr v \<and> hm_look hm key = Some v)"
proof -
  obtain h where h: "hash key = Inr h" using hash_of [OF key] .
  have H: "hm_hash hm key = Inr h" "hm_compare hm = cmp" "hm_wf valid hm" using hm h by (simp_all add: hm_for_def)
  note W = hm_wfD [OF H(3)]
  note look = hm_look_bucket [OF hm h]
  show ?thesis
  proof (cases "map_lookup (hm_impl hm) h")
    case None
    then show ?thesis using look H(1) by (simp add: flecs_hashmap_get_def map_get_deref_ok [OF W(1)])
  next
    case (Some v)
    then obtain b where b: "map_lookup (hm_impl hm) h = Some (Some b)" "bucket_ok valid (hm_hash hm) cmp h b"
      using W(2) [of h v] H(2) by auto
    then have v: "vec_ok (hmb_keys b)" "vec_ok (hmb_values b)" "vec_count (hmb_keys b) = vec_count (hmb_values b)"
      by (simp_all add: bucket_ok_def)
    show ?thesis
    proof (cases "bucket_find cmp b key")
      case None
      then show ?thesis using look b H
        by (simp add: flecs_hashmap_get_def map_get_deref_ok [OF W(1)] find_key_ok [OF v(1)] bucket_look_def)
    next
      case (Some i)
      then have i: "i < vec_count (hmb_values b)" using bucket_findD(1) v(3) by metis
      then have "hm_load hm (h, i) = Inr (vec_elems (hmb_values b) ! i)"
        using v(2) hm_bucket_ok(1) [OF W(1) b(1)] by (simp add: hm_load_def)
      then show ?thesis using look b H Some i v(2)
        by (simp add: flecs_hashmap_get_def map_get_deref_ok [OF W(1)] find_key_ok [OF v(1)] bucket_look_def)
    qed
  qed
qed

text \<open>
  Ensuring a key: the bucket that \<open>flecs_hashmap_ensure\<close> stores, and the index of the key in it.
\<close>

lemma ensure_bucket:
  assumes hm: "hm_for valid hash cmp hm" and key: "valid key" "hash key = Inr h" and room: "hm_room hm"
  defines "old \<equiv> (case map_lookup (hm_impl hm) h of Some (Some b) \<Rightarrow> Some b | _ \<Rightarrow> None)"
  defines "b0 \<equiv> (case old of None \<Rightarrow> flecs_hm_bucket_new | Some b \<Rightarrow> b)"
  shows "\<exists>b i. (if vec_array (hmb_keys b0) = [] then
          hm_bucket_append z \<lparr>hmb_keys = ecs_vec_init 1, hmb_values = ecs_vec_init 1\<rparr> key
        else
          bindr (flecs_hashmap_find_key hm (hmb_keys b0) key) (\<lambda>index.
          case index of
            None \<Rightarrow> hm_bucket_append z b0 key
          | Some i \<Rightarrow>
              bindr (ecs_vec_get (hmb_keys b0) i) (\<lambda>_.
              bindr (ecs_vec_get (hmb_values b0) i) (\<lambda>_. Inr (b0, i))))) = Inr (b, i) \<and>
      bucket_ok valid hash cmp h b \<and> bucket_find cmp b key = Some i \<and>
      (\<forall>k. valid k \<longrightarrow> hash k = Inr h \<longrightarrow> bucket_look cmp b k =
        (if cmp k key = 0 then Some (case hm_look hm key of None \<Rightarrow> z | Some v \<Rightarrow> v) else hm_look hm k))"
proof -
  have H: "hm_compare hm = cmp" "hm_wf valid hm" "hm_hash hm = hash" using hm by (simp_all add: hm_for_def)
  note W = hm_wfD [OF H(2)]
  note look = hm_look_bucket [OF hm]
  have new: "\<exists>i. bucket_find cmp b key = Some i \<and> i = n"
    if "bucket_ok valid hash cmp h b" "vec_elems (hmb_keys b) = ks @ [key]" "length ks = n" "\<forall>i < n. cmp (ks ! i) key \<noteq> 0"
    for b :: "('k, 'v) ecs_hm_bucket_t" and ks n
  proof -
    have n: "vec_count (hmb_keys b) = Suc n" using that length_vec_elems [of "hmb_keys b"] by (simp add: bucket_ok_def)
    show ?thesis
    proof (cases "bucket_find cmp b key")
      case None
      then show ?thesis using bucket_findD(2) [of cmp b key] n that(2,3) cmp_refl [OF key(1)] by (auto simp: nth_append)
    next
      case (Some i)
      then show ?thesis using bucket_findD(1) [OF Some] n that(2-4) by (cases "i < n") (auto simp: nth_append)
    qed
  qed
  have append: ?thesis
    if c: "vec_ok (hmb_keys c)" "vec_ok (hmb_values c)" "vec_count (hmb_keys c) = vec_count (hmb_values c)" "vec_count (hmb_keys c) < 2 ^ 30"
      "\<forall>k \<in> set (vec_elems (hmb_keys c)). valid k \<and> hash k = Inr h"
      "\<forall>i j. i < vec_count (hmb_keys c) \<longrightarrow> j < vec_count (hmb_keys c) \<longrightarrow> i \<noteq> j \<longrightarrow> cmp (vec_elems (hmb_keys c) ! i) (vec_elems (hmb_keys c) ! j) \<noteq> 0"
      "\<forall>i < vec_count (hmb_keys c). cmp (vec_elems (hmb_keys c) ! i) key \<noteq> 0"
    and run: "(if vec_array (hmb_keys b0) = [] then
          hm_bucket_append z \<lparr>hmb_keys = ecs_vec_init 1, hmb_values = ecs_vec_init 1\<rparr> key
        else
          bindr (flecs_hashmap_find_key hm (hmb_keys b0) key) (\<lambda>index.
          case index of
            None \<Rightarrow> hm_bucket_append z b0 key
          | Some i \<Rightarrow>
              bindr (ecs_vec_get (hmb_keys b0) i) (\<lambda>_.
              bindr (ecs_vec_get (hmb_values b0) i) (\<lambda>_. Inr (b0, i))))) = hm_bucket_append z c key"
    and none: "hm_look hm key = None"
    and rest: "\<And>k v. valid k \<Longrightarrow> hash k = Inr h \<Longrightarrow> hm_look hm k = Some v \<longleftrightarrow>
      (\<exists>j < vec_count (hmb_keys c). cmp (vec_elems (hmb_keys c) ! j) k = 0 \<and> vec_elems (hmb_values c) ! j = v)"
    for c
  proof -
    obtain b where b: "hm_bucket_append z c key = Inr (b, vec_count (hmb_keys c))" "vec_ok (hmb_keys b)" "vec_ok (hmb_values b)"
      "vec_elems (hmb_keys b) = vec_elems (hmb_keys c) @ [key]" "vec_elems (hmb_values b) = vec_elems (hmb_values c) @ [z]"
      using bucket_append_ok [OF c(1,4,2)] c(3) by metis
    note A = bucket_ok_append [OF key c(1-3,5-7) b(2-5)]
    have "bucket_look cmp b k = (if cmp k key = 0 then Some (case hm_look hm key of None \<Rightarrow> z | Some v \<Rightarrow> v) else hm_look hm k)"
      if k: "valid k" "hash k = Inr h" for k
    proof -
      have "bucket_look cmp b k = Some v \<longleftrightarrow> (if cmp k key = 0 then Some z else hm_look hm k) = Some v" for v
        unfolding A(2) [OF k(1)] using rest [OF k] by auto
      then show ?thesis using none by (metis not_Some_eq option.simps(4))
    qed
    moreover have "bucket_find cmp b key = Some (vec_count (hmb_keys c))"
      using new [OF A(1) b(4) length_vec_elems [OF c(1)] c(7)] by blast
    ultimately show ?thesis unfolding run b(1) using A(1) by blast
  qed
  show ?thesis
  proof (cases "map_lookup (hm_impl hm) h")
    case None
    then have "vec_array (hmb_keys b0) = []"
      by (simp add: b0_def old_def flecs_hm_bucket_new_def ecs_vec_init_def ecs_vec_init_w_dbg_info_def flecs_vec_alloc_def)
    then show ?thesis using look None key by (intro append [of "\<lparr>hmb_keys = ecs_vec_init 1, hmb_values = ecs_vec_init 1\<rparr>"]) simp_all
  next
    case (Some v)
    then obtain c where c: "map_lookup (hm_impl hm) h = Some (Some c)" "bucket_ok valid hash cmp h c" using W(2) [of h v] H by auto
    then have b0: "b0 = c" by (simp add: b0_def old_def)
    have ok: "vec_ok (hmb_keys c)" "vec_ok (hmb_values c)" "vec_count (hmb_keys c) = vec_count (hmb_values c)" "0 < vec_count (hmb_keys c)"
      using c(2) by (simp_all add: bucket_ok_def)
    then have ne: "vec_array (hmb_keys c) \<noteq> []" by (auto simp: vec_ok_def vec_wf_def)
    have lk: "hm_look hm k = bucket_look cmp c k" if "hash k = Inr h" for k using look [OF that] c(1) by simp
    show ?thesis
    proof (cases "bucket_find cmp c key")
      case None
      have "hm_look hm key = None" using None lk [OF key(2)] by (simp add: bucket_look_def)
      moreover have "vec_count (hmb_values c) < 2 ^ 30" using room c(1) ok(3) unfolding hm_room_def by metis
      ultimately show ?thesis
        using c ok ne None lk bucket_look_iff [OF c(2)] bucket_findD(2) [of cmp c key]
        by (intro append [of c]) (simp_all add: b0 find_key_ok H bucket_ok_def)
    next
      case (Some i)
      have i: "i < vec_count (hmb_keys c)" using bucket_findD(1) [OF Some] by simp
      have "bucket_look cmp c k = bucket_look cmp c key" if "valid k" "cmp k key = 0" for k
      proof -
        have "cmp (vec_elems (hmb_keys c) ! j) k = 0 \<longleftrightarrow> cmp (vec_elems (hmb_keys c) ! j) key = 0" if "j < vec_count (hmb_keys c)" for j
        proof -
          have "valid (vec_elems (hmb_keys c) ! j)" using that c(2) by (simp add: bucket_ok_def)
          then show ?thesis
            using cmp_left [OF \<open>valid k\<close> key(1) _ \<open>cmp k key = 0\<close>] cmp_comm \<open>valid k\<close> key(1) by blast
        qed
        then have "bucket_look cmp c k = Some v \<longleftrightarrow> bucket_look cmp c key = Some v" for v
          unfolding bucket_look_iff [OF c(2) that(1)] bucket_look_iff [OF c(2) key(1)] by blast
        then show ?thesis by (metis not_Some_eq)
      qed
      moreover have "hm_look hm key = Some (vec_elems (hmb_values c) ! i)" using Some lk [OF key(2)] by (simp add: bucket_look_def)
      ultimately show ?thesis
        using c(2) Some ok ne i lk key(2) by (intro exI [of _ c] exI [of _ i]) (auto simp: b0 find_key_ok H)
    qed
  qed
qed

text \<open>The frame of an operation: the hash function, the comparison and the sizes stay.\<close>

lemma hm_ensure_ok:
  assumes hm: "hm_for valid hash cmp hm" and key: "valid key" and room: "hm_room hm"
  shows "\<exists>m h i b. flecs_hashmap_ensure z hm (hm_key_size hm) key (hm_value_size hm) = Inr (hm\<lparr>hm_impl := m\<rparr>, h, i) \<and>
    hm_for valid hash cmp (hm\<lparr>hm_impl := m\<rparr>) \<and> hash key = Inr h \<and> map_lookup m h = Some (Some b) \<and> bucket_find cmp b key = Some i \<and>
    (\<forall>k. valid k \<longrightarrow> hm_look (hm\<lparr>hm_impl := m\<rparr>) k =
      (if cmp k key = 0 then Some (case hm_look hm key of None \<Rightarrow> z | Some v \<Rightarrow> v) else hm_look hm k))"
proof -
  obtain h where h: "hash key = Inr h" using hash_of [OF key] .
  have H: "hm_hash hm = hash" "hm_compare hm = cmp" "hm_wf valid hm" using hm by (simp_all add: hm_for_def)
  note W = hm_wfD [OF H(3)]
  have "card (dom (map_lookup (hm_impl hm))) + 1 < 2 ^ 26" using room by (simp add: hm_room_def)
  from emap.ensure_law [OF W(1) this, of None h] obtain m1 where m1: "ecs_map_ensure None (hm_impl hm) h = Inr m1" "map_wf m1"
    "map_lookup m1 = (case map_lookup (hm_impl hm) h of None \<Rightarrow> (map_lookup (hm_impl hm))(h \<mapsto> None) | Some v \<Rightarrow> map_lookup (hm_impl hm))" by blast
  let ?old = "case map_lookup (hm_impl hm) h of Some (Some b) \<Rightarrow> Some b | _ \<Rightarrow> None"
  have old: "(case map_lookup m1 h of Some v \<Rightarrow> v | None \<Rightarrow> None) = ?old" "map_lookup m1 h \<noteq> None"
    "(map_lookup m1)(h \<mapsto> x) = (map_lookup (hm_impl hm))(h \<mapsto> x)" for x
    using m1(3) W(2) [of h] by (auto split: option.splits)
  from ensure_bucket [OF hm key h room, of z] obtain b i where
    b: "(if vec_array (hmb_keys (case ?old of None \<Rightarrow> flecs_hm_bucket_new | Some b \<Rightarrow> b)) = [] then
          hm_bucket_append z \<lparr>hmb_keys = ecs_vec_init 1, hmb_values = ecs_vec_init 1\<rparr> key
        else
          bindr (flecs_hashmap_find_key hm (hmb_keys (case ?old of None \<Rightarrow> flecs_hm_bucket_new | Some b \<Rightarrow> b)) key) (\<lambda>index.
          case index of
            None \<Rightarrow> hm_bucket_append z (case ?old of None \<Rightarrow> flecs_hm_bucket_new | Some b \<Rightarrow> b) key
          | Some i \<Rightarrow>
              bindr (ecs_vec_get (hmb_keys (case ?old of None \<Rightarrow> flecs_hm_bucket_new | Some b \<Rightarrow> b)) i) (\<lambda>_.
              bindr (ecs_vec_get (hmb_values (case ?old of None \<Rightarrow> flecs_hm_bucket_new | Some b \<Rightarrow> b)) i) (\<lambda>_.
              Inr (case ?old of None \<Rightarrow> flecs_hm_bucket_new | Some b \<Rightarrow> b, i))))) = Inr (b, i)"
      "bucket_ok valid hash cmp h b" "bucket_find cmp b key = Some i"
    and look: "\<forall>k. valid k \<longrightarrow> hash k = Inr h \<longrightarrow> bucket_look cmp b k =
        (if cmp k key = 0 then Some (case hm_look hm key of None \<Rightarrow> z | Some v \<Rightarrow> v) else hm_look hm k)" by blast
  from emap.store_law [OF m1(2) old(2), of "Some b"] obtain m where
    m: "ecs_map_store m1 h (Some b) = Inr m" "map_wf m" "map_lookup m = (map_lookup (hm_impl hm))(h \<mapsto> Some b)" unfolding old(3) by blast
  have run: "flecs_hashmap_ensure z hm (hm_key_size hm) key (hm_value_size hm) = Inr (hm\<lparr>hm_impl := m\<rparr>, h, i)"
    unfolding flecs_hashmap_ensure_def ecs_assert_simps(1) [OF refl] bindr_Inr H(1) h m1(1) map_get_deref_ok [OF m1(2)] old(1) Let_def b(1)
      prod.case m(1) by (rule refl)
  note U = hm_wf_update [OF H(3) m(2,3)]
  have bo: "bucket_ok valid (hm_hash hm) (hm_compare hm) h b" using b(2) H by simp
  have "hm_look (hm\<lparr>hm_impl := m\<rparr>) k = (if cmp k key = 0 then Some (case hm_look hm key of None \<Rightarrow> z | Some v \<Rightarrow> v) else hm_look hm k)"
    if "valid k" for k
    using U(2) [OF bo, of k] look that hash_cmp [OF that key] h H by auto
  moreover have "hm_for valid hash cmp (hm\<lparr>hm_impl := m\<rparr>)" using U(1) [OF bo] H by (simp add: hm_for_def)
  ultimately show ?thesis using run h m(3) b(3) by (intro exI [of _ m] exI [of _ h] exI [of _ i] exI [of _ b]) simp
qed

text \<open>Writing the value of a key that has just been ensured.\<close>

lemma set_ptr_ok:
  assumes hm: "hm_for valid hash cmp hm" and key: "valid key" and room: "hm_room hm"
  shows "\<exists>hm1 m h i b. flecs_hashmap_ensure z hm (hm_key_size hm) key (hm_value_size hm) = Inr (hm1, h, i) \<and>
    hm_store hm1 (h, i) v = Inr (hm\<lparr>hm_impl := m\<rparr>) \<and> hm_for valid hash cmp (hm\<lparr>hm_impl := m\<rparr>) \<and>
    map_lookup m h = Some (Some b) \<and> i < vec_count (hmb_keys b) \<and> cmp (vec_elems (hmb_keys b) ! i) key = 0 \<and>
    (\<forall>k. valid k \<longrightarrow> hm_look (hm\<lparr>hm_impl := m\<rparr>) k = (if cmp k key = 0 then Some v else hm_look hm k))"
proof -
  obtain m h i b where e: "flecs_hashmap_ensure z hm (hm_key_size hm) key (hm_value_size hm) = Inr (hm\<lparr>hm_impl := m\<rparr>, h, i)"
    "hm_for valid hash cmp (hm\<lparr>hm_impl := m\<rparr>)" "hash key = Inr h" "map_lookup m h = Some (Some b)" "bucket_find cmp b key = Some i"
    and look: "\<And>k. valid k \<Longrightarrow> hm_look (hm\<lparr>hm_impl := m\<rparr>) k =
      (if cmp k key = 0 then Some (case hm_look hm key of None \<Rightarrow> z | Some v \<Rightarrow> v) else hm_look hm k)"
    using hm_ensure_ok [OF hm key room, of z] by blast
  let ?hm = "hm\<lparr>hm_impl := m\<rparr>"
  have wf0: "hm_wf valid ?hm" "hm_hash hm = hash" "hm_compare hm = cmp" using e(2) by (simp_all add: hm_for_def)
  have wf: "hm_wf valid ?hm" "map_wf (hm_impl ?hm)" "map_lookup (hm_impl ?hm) h = Some (Some b)" "hm_hash hm = hash" "hm_compare hm = cmp"
    using wf0 hm_wfD(1) [OF wf0(1)] e(4) by simp_all
  have bo: "bucket_ok valid hash cmp h b" using hm_wfD(2) [OF wf(1,3)] wf(4,5) by simp
  note V = bucket_ok_value [OF bo key e(5), where v = v]
  let ?b = "b\<lparr>hmb_values := vec_upd (hmb_values b) i v\<rparr>"
  obtain m2 where m2: "hm_bucket_store ?hm h ?b = Inr (?hm\<lparr>hm_impl := m2\<rparr>)" "map_wf m2"
    "map_lookup m2 = (map_lookup (hm_impl ?hm))(h \<mapsto> Some ?b)" using hm_bucket_ok(2) [OF wf(2,3), of ?b] by blast
  have i: "vec_ok (hmb_values b)" "i < vec_count (hmb_values b)" using bo bucket_findD(1) [OF e(5)] by (simp_all add: bucket_ok_def)
  have st: "hm_store ?hm (h, i) v = Inr (?hm\<lparr>hm_impl := m2\<rparr>)"
    using hm_bucket_ok(1) [OF wf(2,3)] i m2(1) by (simp add: hm_store_def)
  have bo2: "bucket_ok valid (hm_hash ?hm) (hm_compare ?hm) h ?b" using V(1) wf(4,5) by simp
  note U = hm_wf_update [OF wf(1) m2(2,3) bo2]
  have "hm_look (?hm\<lparr>hm_impl := m2\<rparr>) k = (if cmp k key = 0 then Some v else hm_look hm k)" if k: "valid k" for k
  proof (cases "hash k = Inr h")
    case True
    have "hm_look ?hm k = bucket_look cmp b k" using hm_look_bucket [OF e(2) True] e(4) by simp
    then show ?thesis using U(2) [of k] True V(2) [OF k] look [OF k] wf(4,5) by (simp split: if_splits)
  next
    case False
    then have "cmp k key \<noteq> 0" using hash_cmp [OF k key] e(3) by auto
    then show ?thesis using U(2) [of k] False look [OF k] wf(4) by simp
  qed
  moreover have "hm_for valid hash cmp (?hm\<lparr>hm_impl := m2\<rparr>)" using U(1) wf(4,5) by (simp add: hm_for_def)
  moreover have "map_lookup m2 h = Some (Some ?b)" using m2(3) by simp
  ultimately show ?thesis using e(1) st bucket_findD(1) [OF e(5)]
    by (intro exI [of _ ?hm] exI [of _ m2] exI [of _ h] exI [of _ i] exI [of _ ?b]) simp
qed

theorem hm_set_ok:
  assumes hm: "hm_for valid hash cmp hm" and key: "valid key" and room: "hm_room hm"
  shows "\<exists>hm'. flecs_hashmap_set z hm (hm_key_size hm) key (hm_value_size hm) v = Inr hm' \<and> hm_for valid hash cmp hm' \<and>
    hm_key_size hm' = hm_key_size hm \<and> hm_value_size hm' = hm_value_size hm \<and>
    (\<forall>k. valid k \<longrightarrow> hm_look hm' k = (if cmp k key = 0 then Some v else hm_look hm k))"
proof -
  obtain hm1 m h i where "flecs_hashmap_ensure z hm (hm_key_size hm) key (hm_value_size hm) = Inr (hm1, h, i)"
    "hm_store hm1 (h, i) v = Inr (hm\<lparr>hm_impl := m\<rparr>)" "hm_for valid hash cmp (hm\<lparr>hm_impl := m\<rparr>)"
    "\<forall>k. valid k \<longrightarrow> hm_look (hm\<lparr>hm_impl := m\<rparr>) k = (if cmp k key = 0 then Some v else hm_look hm k)"
    using set_ptr_ok [OF assms, of z v] by blast
  then show ?thesis by (intro exI [of _ "hm\<lparr>hm_impl := m\<rparr>"]) (simp add: flecs_hashmap_set_def)
qed

text \<open>A write to a key that leaves it the same key.\<close>

lemma store_key_ok:
  assumes hm: "hm_for valid hash cmp hm" and b: "map_lookup (hm_impl hm) h = Some (Some b)" and i: "i < vec_count (hmb_keys b)"
    and f: "f (vec_elems (hmb_keys b) ! i) = vec_elems (hmb_keys b) ! i"
  shows "\<exists>m. hm_store_key hm (h, i) f = Inr (hm\<lparr>hm_impl := m\<rparr>) \<and> hm_for valid hash cmp (hm\<lparr>hm_impl := m\<rparr>) \<and>
    (\<forall>k. hm_look (hm\<lparr>hm_impl := m\<rparr>) k = hm_look hm k)"
proof -
  have H: "hm_hash hm = hash" "hm_compare hm = cmp" "hm_wf valid hm" using hm by (simp_all add: hm_for_def)
  note W = hm_wfD [OF H(3)]
  have bo: "bucket_ok valid hash cmp h b" using W(2) [OF b] H by simp
  then have vk: "vec_ok (hmb_keys b)" by (simp add: bucket_ok_def)
  let ?b = "b\<lparr>hmb_keys := vec_upd (hmb_keys b) i (vec_elems (hmb_keys b) ! i)\<rparr>"
  have K: "vec_ok (hmb_keys ?b)" "vec_elems (hmb_keys ?b) = vec_elems (hmb_keys b)" "vec_count (hmb_keys ?b) = vec_count (hmb_keys b)"
    using vk i by simp_all
  have bo2: "bucket_ok valid (hm_hash hm) (hm_compare hm) h ?b" and look: "bucket_look cmp ?b k = bucket_look cmp b k" for k
    using bo K H by (simp_all add: bucket_ok_def bucket_look_def bucket_find_def)
  obtain m where m: "hm_bucket_store hm h ?b = Inr (hm\<lparr>hm_impl := m\<rparr>)" "map_wf m"
    "map_lookup m = (map_lookup (hm_impl hm))(h \<mapsto> Some ?b)" using hm_bucket_ok(2) [OF W(1) b, of ?b] by blast
  note U = hm_wf_update [OF H(3) m(2,3) bo2]
  have "hm_store_key hm (h, i) f = Inr (hm\<lparr>hm_impl := m\<rparr>)"
    using hm_bucket_ok(1) [OF W(1) b] vk i f m(1) by (simp add: hm_store_key_def)
  moreover have "hm_look (hm\<lparr>hm_impl := m\<rparr>) k = hm_look hm k" for k
    using U(2) [of k] look [of k] hm_look_bucket [OF hm, of k h] b H by simp
  moreover have "hm_for valid hash cmp (hm\<lparr>hm_impl := m\<rparr>)" using U(1) H by (simp add: hm_for_def)
  ultimately show ?thesis by blast
qed

text \<open>Removing the key at an index of a bucket.\<close>

lemma hm_bucket_remove_ok:
  assumes hm: "hm_for valid hash cmp hm" and key: "valid key" and h: "hash key = Inr h"
    and b: "map_lookup (hm_impl hm) h = Some (Some b)" and find: "bucket_find cmp b key = Some i"
  shows "\<exists>m. flecs_hm_bucket_remove hm h i = Inr (hm\<lparr>hm_impl := m\<rparr>) \<and> hm_for valid hash cmp (hm\<lparr>hm_impl := m\<rparr>) \<and>
    (\<forall>k. valid k \<longrightarrow> hm_look (hm\<lparr>hm_impl := m\<rparr>) k = (if cmp k key = 0 then None else hm_look hm k))"
proof -
  have H: "hm_hash hm = hash" "hm_compare hm = cmp" "hm_wf valid hm" using hm by (simp_all add: hm_for_def)
  note W = hm_wfD [OF H(3)]
  have bo: "bucket_ok valid hash cmp h b" using W(2) [OF b] H by simp
  have i: "i < vec_count (hmb_keys b)" using bucket_findD(1) [OF find] by simp
  have ok: "vec_ok (hmb_keys b)" "vec_ok (hmb_values b)" "vec_count (hmb_keys b) = vec_count (hmb_values b)" using bo by (simp_all add: bucket_ok_def)
  obtain ks where ks: "ecs_vec_remove (hmb_keys b) i = Inr ks" "vec_ok ks"
    "vec_elems ks = butlast ((vec_elems (hmb_keys b))[i := last (vec_elems (hmb_keys b))])" using ecs_vec_remove_ok [OF ok(1) i] by blast
  obtain vs where vs: "ecs_vec_remove (hmb_values b) i = Inr vs" "vec_ok vs"
    "vec_elems vs = butlast ((vec_elems (hmb_values b))[i := last (vec_elems (hmb_values b))])" using ecs_vec_remove_ok [OF ok(2)] i ok(3) by metis
  have cnt: "vec_count ks = vec_count (hmb_keys b) - 1" using length_vec_elems [OF ks(2)] ks(3) ok(1) by simp
  note bk = hm_bucket_ok [OF W(1) b]
  have look: "hm_look hm k = bucket_look cmp b k" if "hash k = Inr h" for k using hm_look_bucket [OF hm that] b by simp
  show ?thesis
  proof (cases "vec_count (hmb_keys b) = 1")
    case True
    obtain m where m: "ecs_map_remove (hm_impl hm) h = Inr (m, Some (Some b))" "map_wf m" "map_lookup m = (map_lookup (hm_impl hm))(h := None)"
      using emap.remove_law [OF W(1), of h] b by auto
    note D = hm_wf_delete [OF H(3) m(2,3)]
    have "flecs_hm_bucket_remove hm h i = Inr (hm\<lparr>hm_impl := m\<rparr>)"
      using bk(1) ks(1) vs(1) m(1) True cnt by (simp add: flecs_hm_bucket_remove_def ecs_vec_count_def)
    moreover have "hm_look (hm\<lparr>hm_impl := m\<rparr>) k = (if cmp k key = 0 then None else hm_look hm k)" if k: "valid k" for k
      using D(2) [of k] H(1) look [of k] bucket_look_single [OF bo key find True k] hash_cmp [OF k key] h by auto
    moreover have "hm_for valid hash cmp (hm\<lparr>hm_impl := m\<rparr>)" using D(1) H by (simp add: hm_for_def)
    ultimately show ?thesis by blast
  next
    case False
    let ?b = "\<lparr>hmb_keys = ks, hmb_values = vs\<rparr>"
    have "vec_ok (hmb_keys ?b)" "vec_ok (hmb_values ?b)"
      "vec_elems (hmb_keys ?b) = butlast ((vec_elems (hmb_keys b))[i := last (vec_elems (hmb_keys b))])"
      "vec_elems (hmb_values ?b) = butlast ((vec_elems (hmb_values b))[i := last (vec_elems (hmb_values b))])"
      using ks vs by simp_all
    note R = bucket_ok_remove [OF bo key find False this]
    obtain m where m: "hm_bucket_store hm h ?b = Inr (hm\<lparr>hm_impl := m\<rparr>)" "map_wf m" "map_lookup m = (map_lookup (hm_impl hm))(h \<mapsto> Some ?b)"
      using bk(2) by blast
    have bo2: "bucket_ok valid (hm_hash hm) (hm_compare hm) h ?b" using R(1) H by simp
    note U = hm_wf_update [OF H(3) m(2,3) bo2]
    have "vec_count ks \<noteq> 0" using cnt False i by simp
    then have "flecs_hm_bucket_remove hm h i = Inr (hm\<lparr>hm_impl := m\<rparr>)"
      using bk(1) ks(1) vs(1) m(1) by (simp add: flecs_hm_bucket_remove_def ecs_vec_count_def)
    moreover have "hm_look (hm\<lparr>hm_impl := m\<rparr>) k = (if cmp k key = 0 then None else hm_look hm k)" if k: "valid k" for k
      using U(2) [of k] H look [of k] R(2) [OF k] hash_cmp [OF k key] h by auto
    moreover have "hm_for valid hash cmp (hm\<lparr>hm_impl := m\<rparr>)" using U(1) H by (simp add: hm_for_def)
    ultimately show ?thesis by blast
  qed
qed

theorem hm_remove_ok:
  assumes hm: "hm_for valid hash cmp hm" and key: "valid key"
  shows "\<exists>m. flecs_hashmap_remove hm (hm_key_size hm) key (hm_value_size hm) = Inr (hm\<lparr>hm_impl := m\<rparr>) \<and>
    hm_for valid hash cmp (hm\<lparr>hm_impl := m\<rparr>) \<and>
    (\<forall>k. valid k \<longrightarrow> hm_look (hm\<lparr>hm_impl := m\<rparr>) k = (if cmp k key = 0 then None else hm_look hm k))"
proof -
  obtain h where h: "hash key = Inr h" using hash_of [OF key] .
  have H: "hm_hash hm = hash" "hm_compare hm = cmp" "hm_wf valid hm" using hm by (simp_all add: hm_for_def)
  note W = hm_wfD [OF H(3)]
  have id: "hm = hm\<lparr>hm_impl := hm_impl hm\<rparr>" by simp
  have absent: ?thesis if run: "flecs_hashmap_remove hm (hm_key_size hm) key (hm_value_size hm) = Inr hm"
    and none: "\<And>k. valid k \<Longrightarrow> cmp k key = 0 \<Longrightarrow> hm_look hm k = None"
    using run none hm by (intro exI [of _ "hm_impl hm"]) auto
  show ?thesis
  proof (cases "map_lookup (hm_impl hm) h")
    case None
    show ?thesis
    proof (rule absent)
      show "flecs_hashmap_remove hm (hm_key_size hm) key (hm_value_size hm) = Inr hm"
        using None h H by (simp add: flecs_hashmap_remove_def flecs_hashmap_remove_w_hash_def map_get_deref_ok [OF W(1)])
      show "hm_look hm k = None" if "valid k" "cmp k key = 0" for k
        using hm_look_bucket [OF hm] hash_cmp [OF that(1) key that(2)] h None by simp
    qed
  next
    case (Some v)
    then obtain b where b: "map_lookup (hm_impl hm) h = Some (Some b)" "bucket_ok valid hash cmp h b" using W(2) [of h v] H by auto
    have vk: "vec_ok (hmb_keys b)" using b(2) by (simp add: bucket_ok_def)
    show ?thesis
    proof (cases "bucket_find cmp b key")
      case None
      show ?thesis
      proof (rule absent)
        show "flecs_hashmap_remove hm (hm_key_size hm) key (hm_value_size hm) = Inr hm"
          using None h H b(1)
          by (simp add: flecs_hashmap_remove_def flecs_hashmap_remove_w_hash_def map_get_deref_ok [OF W(1)] find_key_ok [OF vk])
        show "hm_look hm k = None" if k: "valid k" "cmp k key = 0" for k
        proof -
          have "cmp (vec_elems (hmb_keys b) ! j) k \<noteq> 0" if "j < vec_count (hmb_keys b)" for j
          proof -
            have "valid (vec_elems (hmb_keys b) ! j)" using that b(2) by (simp add: bucket_ok_def)
            then show ?thesis using cmp_trans [OF _ k(1) key _ k(2)] None that bucket_findD(2) [of cmp b key] by blast
          qed
          then have "bucket_look cmp b k = None" using bucket_findD(2) [of cmp b k] by (simp add: bucket_look_def)
          then show ?thesis using hm_look_bucket [OF hm] hash_cmp [OF k(1) key k(2)] h b(1) by simp
        qed
      qed
    next
      case (Some i)
      have "flecs_hashmap_remove hm (hm_key_size hm) key (hm_value_size hm) = flecs_hm_bucket_remove hm h i"
        using Some h H b(1)
        by (simp add: flecs_hashmap_remove_def flecs_hashmap_remove_w_hash_def map_get_deref_ok [OF W(1)] find_key_ok [OF vk])
      then show ?thesis using hm_bucket_remove_ok [OF hm key h b(1) Some] by simp
    qed
  qed
qed

lemma hm_init_ok:
  "\<exists>hm :: ('k, 'v) ecs_hashmap_t. flecs_hashmap_init ks vs hash cmp = Inr hm \<and> hm_for valid hash cmp hm \<and> (\<forall>k. hm_look hm k = None) \<and>
    hm_key_size hm = ks \<and> hm_value_size hm = vs \<and> hm_room hm"
proof -
  obtain m :: "('k, 'v) ecs_hm_bucket_t option ecs_map_t" where m: "ecs_map_init = Inr m" "map_wf m" "map_lookup m = Map.empty"
    using map_init_ok by blast
  let ?hm = "\<lparr>hm_hash = hash, hm_compare = cmp, hm_key_size = ks, hm_value_size = vs, hm_impl = m\<rparr>"
  have "flecs_hashmap_init ks vs hash cmp = Inr ?hm" using m(1) by (simp add: flecs_hashmap_init_def)
  moreover have "hm_for valid hash cmp ?hm" using m by (simp add: hm_for_def hm_wf_def)
  moreover have "hm_look ?hm k = None" for k using m(3) by (simp add: hm_look_def split: sum.split)
  moreover have "hm_room ?hm" using m by (simp add: hm_room_def)
  ultimately show ?thesis by (intro exI [of _ ?hm] conjI allI) simp_all
qed

end

end
