(* ===== verification/Hash.thy ===== *)
theory Hash
  imports Prelude
begin

text \<open>
  The string hash of \<open>src/datastructures/hash.c\<close>: \<open>wyhash\<close> with the default secret, in the configuration that
  the file selects (\<open>WYHASH_CONDOM\<close> 1, no 32-bit multiplication, little endian).

  The data is a list of bytes and a read outside of it is an undefined access.  Both multiplications of
  \<open>wymum\<close> that compute the full 128-bit product are modelled: the one for compilers with a 128-bit integer
  type and the portable one that works on halves.
\<close>

type_synonym byte = "8 word"
type_synonym u128 = "128 word"

section \<open>Mixing\<close>

definition wymum :: "u64 \<Rightarrow> u64 \<Rightarrow> u64 \<times> u64" where
  "wymum A B = (let r = (ucast A :: u128) * ucast B in (ucast r, ucast (drop_bit 64 r)))"

definition wymum_halves :: "u64 \<Rightarrow> u64 \<Rightarrow> u64 \<times> u64" where
  "wymum_halves A B =
     (let ha = drop_bit 32 A; hb = drop_bit 32 B; la = to64 (lo32 A); lb = to64 (lo32 B);
          rh = ha * hb; rm0 = ha * lb; rm1 = hb * la; rl = la * lb;
          t = rl + push_bit 32 rm0;
          c = (if t < rl then 1 else 0);
          lo = t + push_bit 32 rm1;
          c = c + (if lo < t then 1 else 0);
          hi = rh + drop_bit 32 rm0 + drop_bit 32 rm1 + c
      in (lo, hi))"

definition wymix :: "u64 \<Rightarrow> u64 \<Rightarrow> u64" where
  "wymix A B = (case wymum A B of (A, B) \<Rightarrow> A XOR B)"

section \<open>Reading\<close>

primrec le_word :: "byte list \<Rightarrow> u64" where
  "le_word [] = 0"
| "le_word (b # bs) = ucast b OR push_bit 8 (le_word bs)"

definition wyr8 :: "byte list \<Rightarrow> nat \<Rightarrow> u64 res" where
  "wyr8 p i = bindr (defined_if (i + 8 \<le> length p)) (\<lambda>_. Inr (le_word (take 8 (drop i p))))"

definition wyr4 :: "byte list \<Rightarrow> nat \<Rightarrow> u64 res" where
  "wyr4 p i = bindr (defined_if (i + 4 \<le> length p)) (\<lambda>_. Inr (le_word (take 4 (drop i p))))"

definition wyr3 :: "byte list \<Rightarrow> nat \<Rightarrow> u64 res" where
  "wyr3 p k =
     bindr (defined_if (0 < k \<and> k \<le> length p)) (\<lambda>_.
     Inr (push_bit 16 (ucast (p ! 0)) OR push_bit 8 (ucast (p ! (k div 2))) OR ucast (p ! (k - 1))))"

section \<open>The hash\<close>

type_synonym secret = "u64 \<times> u64 \<times> u64 \<times> u64"

text \<open>One step \<open>wymix(wyr8(p)^secret, wyr8(p+8)^seed)\<close>.\<close>

definition wy_step :: "byte list \<Rightarrow> nat \<Rightarrow> u64 \<Rightarrow> u64 \<Rightarrow> u64 res" where
  "wy_step p i s seed =
     bindr (wyr8 p i) (\<lambda>x. bindr (wyr8 p (i + 8)) (\<lambda>y. Inr (wymix (x XOR s) (y XOR seed))))"

text \<open>The \<open>do\<close> loop over blocks of 48 bytes and the \<open>while\<close> loop over blocks of 16 bytes; \<open>pos\<close> is \<open>p - key\<close>.\<close>

function wy_loop48 ::
  "byte list \<Rightarrow> secret \<Rightarrow> nat \<Rightarrow> nat \<Rightarrow> u64 \<Rightarrow> u64 \<Rightarrow> u64 \<Rightarrow> (nat \<times> nat \<times> u64) res" where
  "wy_loop48 p (s0, s1, s2, s3) pos i seed see1 see2 =
     bindr (wy_step p pos s1 seed) (\<lambda>seed.
     bindr (wy_step p (pos + 16) s2 see1) (\<lambda>see1.
     bindr (wy_step p (pos + 32) s3 see2) (\<lambda>see2.
     if i - 48 > 48 then wy_loop48 p (s0, s1, s2, s3) (pos + 48) (i - 48) seed see1 see2
     else Inr (pos + 48, i - 48, seed XOR (see1 XOR see2)))))"
  by pat_completeness auto
termination
  by (relation "measure (\<lambda>(p, s, pos, i, _). i)") auto

function wy_loop16 :: "byte list \<Rightarrow> secret \<Rightarrow> nat \<Rightarrow> nat \<Rightarrow> u64 \<Rightarrow> (nat \<times> nat \<times> u64) res" where
  "wy_loop16 p (s0, s1, s2, s3) pos i seed =
     (if i > 16 then
        bindr (wy_step p pos s1 seed) (\<lambda>seed. wy_loop16 p (s0, s1, s2, s3) (pos + 16) (i - 16) seed)
      else Inr (pos, i, seed))"
  by pat_completeness auto
termination
  by (relation "measure (\<lambda>(p, s, pos, i, _). i)") auto

declare wy_loop48.simps [simp del] wy_loop16.simps [simp del]

definition wyhash :: "byte list \<Rightarrow> nat \<Rightarrow> u64 \<Rightarrow> secret \<Rightarrow> u64 res" where
  "wyhash p len seed = (\<lambda>(s0, s1, s2, s3).
     let seed = seed XOR wymix (seed XOR s0) s1 in
     bindr (if len \<le> 16 then
              if len \<ge> 4 then
                bindr (wyr4 p 0) (\<lambda>a0.
                bindr (wyr4 p ((len div 8) * 4)) (\<lambda>a1.
                bindr (wyr4 p (len - 4)) (\<lambda>b0.
                bindr (wyr4 p (len - 4 - (len div 8) * 4)) (\<lambda>b1.
                Inr (push_bit 32 a0 OR a1, push_bit 32 b0 OR b1, seed)))))
              else if len > 0 then bindr (wyr3 p len) (\<lambda>a. Inr (a, 0, seed))
              else Inr (0, 0, seed)
            else
              bindr (if len > 48 then wy_loop48 p (s0, s1, s2, s3) 0 len seed seed seed
                     else Inr (0, len, seed)) (\<lambda>(pos, i, seed).
              bindr (wy_loop16 p (s0, s1, s2, s3) pos i seed) (\<lambda>(pos, i, seed).
              bindr (wyr8 p (pos + i - 16)) (\<lambda>a.
              bindr (wyr8 p (pos + i - 8)) (\<lambda>b.
              Inr (a, b, seed)))))) (\<lambda>(a, b, seed).
     case wymum (a XOR s1) (b XOR seed) of
       (a, b) \<Rightarrow> Inr (wymix (a XOR s0 XOR word_of_nat len) (b XOR s1))))"

definition wyp :: secret where
  "wyp = (0xa0761d6478bd642f, 0xe7037ed1a0b428db, 0x8ebc6af09c88c6e3, 0x589965cc75374cc3)"

definition flecs_hash :: "byte list \<Rightarrow> nat \<Rightarrow> u64 res" where
  "flecs_hash data length' = wyhash data length' 0 wyp"

section \<open>The two multiplications\<close>

lemma add_carry:
  fixes x y :: u64
  shows "unat x + unat y = unat (x + y) + 2 ^ 64 * (if x + y < x then 1 else 0)"
proof -
  have bx: "unat x < 2 ^ 64" "unat y < 2 ^ 64" using unsigned_less [of x] unsigned_less [of y] by simp_all
  have s: "unat (x + y) = (unat x + unat y) mod 2 ^ 64" by (simp add: unat_word_ariths)
  show ?thesis
  proof (cases "unat x + unat y < 2 ^ 64")
    case True
    then have "unat (x + y) = unat x + unat y" unfolding s by (rule mod_less)
    then show ?thesis by (simp add: word_less_nat_alt)
  next
    case False
    then have "unat (x + y) = unat x + unat y - 2 ^ 64" unfolding s using bx by (simp add: mod_if)
    then show ?thesis using False bx by (simp add: word_less_nat_alt)
  qed
qed

lemma unat_half_mult:
  fixes x y :: u64
  assumes "unat x < 2 ^ 32" and "unat y < 2 ^ 32"
  shows "unat (x * y) = unat x * unat y"
proof -
  have "unat x * unat y < 2 ^ 32 * 2 ^ 32" using assms by (intro mult_strict_mono) simp_all
  then have "unat x * unat y < 2 ^ 64" by simp
  then show ?thesis by (simp add: unat_word_ariths)
qed

lemma u64_halves:
  fixes x :: u64
  shows "unat x = unat (drop_bit 32 x) * 2 ^ 32 + unat (to64 (lo32 x))"
    and "unat (drop_bit 32 x) < 2 ^ 32" and "unat (to64 (lo32 x)) < 2 ^ 32"
    and "unat (push_bit 32 x) = unat (to64 (lo32 x)) * 2 ^ 32"
proof -
  have hi: "unat (drop_bit 32 x) = unat x div 2 ^ 32" unfolding unat_drop_bit_eq by (rule drop_bit_eq_div)
  have lo: "unat (to64 (lo32 x)) = unat x mod 2 ^ 32"
  proof -
    have "unat (lo32 x) = unat x mod 2 ^ 32" unfolding unsigned_ucast_eq by (simp add: take_bit_eq_mod)
    moreover have "unat (lo32 x) < 2 ^ LENGTH(32)" by (rule unsigned_less)
    then have "take_bit LENGTH(64) (unat (lo32 x)) = unat (lo32 x)" by (intro take_bit_nat_eq_self) simp
    then have "unat (to64 (lo32 x)) = unat (lo32 x)" by (rule unsigned_ucast_eq [THEN trans])
    ultimately show ?thesis by simp
  qed
  have x: "unat x < 2 ^ 64" using unsigned_less [of x] by simp
  show "unat x = unat (drop_bit 32 x) * 2 ^ 32 + unat (to64 (lo32 x))" unfolding hi lo by simp
  show "unat (drop_bit 32 x) < 2 ^ 32" unfolding hi using x by (simp add: less_mult_imp_div_less)
  show "unat (to64 (lo32 x)) < 2 ^ 32" unfolding lo by simp
  have "unat (push_bit 32 x) = (unat x * 2 ^ 32) mod 2 ^ 64"
    unfolding push_bit_eq_mult by (simp add: unat_word_ariths)
  also have "\<dots> = (unat x mod 2 ^ 32) * 2 ^ 32"
    using mult_mod_left [of "unat x" "2 ^ 32" "2 ^ 32"] by simp
  finally show "unat (push_bit 32 x) = unat (to64 (lo32 x)) * 2 ^ 32" unfolding lo .
qed

lemma unat_wymum:
  "unat (fst (wymum A B)) + 2 ^ 64 * unat (snd (wymum A B)) = unat A * unat B"
proof -
  let ?r = "(ucast A :: u128) * ucast B"
  have a: "unat A < 2 ^ 64" "unat B < 2 ^ 64" using unsigned_less [of A] unsigned_less [of B] by simp_all
  then have "unat A * unat B < 2 ^ 64 * 2 ^ 64" by (intro mult_strict_mono) simp_all
  then have lt: "unat A * unat B < 2 ^ 128" by simp
  have u: "unat (ucast A :: u128) = unat A" "unat (ucast B :: u128) = unat B"
    using a by (simp_all add: unsigned_ucast_eq take_bit_nat_eq_self)
  have r: "unat ?r = unat A * unat B" using lt u by (simp add: unat_word_ariths)
  have "unat (ucast ?r :: u64) = unat ?r mod 2 ^ 64" by (simp add: unsigned_ucast_eq take_bit_eq_mod)
  moreover have "unat (ucast (drop_bit 64 ?r) :: u64) = unat ?r div 2 ^ 64"
  proof -
    have "unat (drop_bit 64 ?r) = unat ?r div 2 ^ 64" unfolding unat_drop_bit_eq by (rule drop_bit_eq_div)
    moreover have "unat ?r div 2 ^ 64 < 2 ^ 64" using lt r by (simp add: less_mult_imp_div_less)
    ultimately show ?thesis by (simp add: unsigned_ucast_eq take_bit_nat_eq_self)
  qed
  ultimately show ?thesis unfolding wymum_def Let_def fst_conv snd_conv r [symmetric]
    by (metis mod_mult_div_eq)
qed

lemma unat_add_bound:
  fixes x y :: u64
  assumes "unat x + unat y < 2 ^ 64"
  shows "unat (x + y) = unat x + unat y"
  using assms by (simp add: unat_word_ariths)

lemma carry_bounds:
  fixes hi lo :: nat
  assumes "lo + 2 ^ 64 * hi = p" and "p < 2 ^ 64 * 2 ^ 64"
  shows "hi < 2 ^ 64"
proof (rule ccontr)
  assume "\<not> hi < 2 ^ 64"
  then have "(2 :: nat) ^ 64 * 2 ^ 64 \<le> 2 ^ 64 * hi" by (intro mult_le_mono2) simp
  with assms show False by linarith
qed

lemma unat_wymum_halves:
  "unat (fst (wymum_halves A B)) + 2 ^ 64 * unat (snd (wymum_halves A B)) = unat A * unat B"
proof -
  define ha hb la lb where "ha = drop_bit 32 A" "hb = drop_bit 32 B" "la = to64 (lo32 A)" "lb = to64 (lo32 B)"
  note A = u64_halves [of A, folded ha_hb_la_lb_def] and B = u64_halves [of B, folded ha_hb_la_lb_def]
  define rm0 rm1 rl where "rm0 = ha * lb" "rm1 = hb * la" "rl = la * lb"
  have m: "unat (ha * hb) = unat ha * unat hb" "unat rm0 = unat ha * unat lb" "unat rm1 = unat hb * unat la" "unat rl = unat la * unat lb"
    using A B by (simp_all add: unat_half_mult rm0_rm1_rl_def)
  define t where "t = rl + push_bit 32 rm0"
  define lo where "lo = t + push_bit 32 rm1"
  define c0 c1 :: nat where "c0 = (if t < rl then 1 else 0)" "c1 = (if lo < t then 1 else 0)"
  have s1: "unat rl + unat (push_bit 32 rm0) = unat t + 2 ^ 64 * c0" using add_carry [of rl] by (simp add: t_def c0_c1_def)
  have s2: "unat t + unat (push_bit 32 rm1) = unat lo + 2 ^ 64 * c1" using add_carry [of t] by (simp add: lo_def c0_c1_def)
  note R0 = u64_halves [of rm0] and R1 = u64_halves [of rm1]
  let ?hi = "unat ha * unat hb + unat (drop_bit 32 rm0) + unat (drop_bit 32 rm1) + c0 + c1"
  have prod: "unat lo + 2 ^ 64 * ?hi = unat A * unat B"
  proof -
    have "unat A * unat B = unat ha * unat hb * 2 ^ 64 + (unat rm0 + unat rm1) * 2 ^ 32 + unat rl"
      unfolding A(1) B(1) m by (simp add: algebra_simps)
    also have "\<dots> = 2 ^ 64 * (unat ha * unat hb + unat (drop_bit 32 rm0) + unat (drop_bit 32 rm1)) +
        (unat rl + unat (push_bit 32 rm0) + unat (push_bit 32 rm1))"
      unfolding R0(4) R1(4) by (subst R0(1), subst R1(1)) (simp add: algebra_simps)
    also have "unat rl + unat (push_bit 32 rm0) + unat (push_bit 32 rm1) = unat lo + 2 ^ 64 * (c0 + c1)"
      using s1 s2 by (simp add: algebra_simps)
    finally show ?thesis by (simp add: algebra_simps)
  qed
  have "unat A < 2 ^ 64" "unat B < 2 ^ 64" using unsigned_less [of A] unsigned_less [of B] by simp_all
  then have "unat A * unat B < 2 ^ 64 * 2 ^ 64" by (intro mult_strict_mono) simp_all
  from carry_bounds [OF prod this] have b: "?hi < 2 ^ 64" .
  let ?c = "(if t < rl then 1 else 0) + (if lo < t then 1 else 0) :: u64"
  have c: "unat ?c = c0 + c1" by (simp add: c0_c1_def)
  have "unat (ha * hb + drop_bit 32 rm0 + drop_bit 32 rm1 + ?c) = ?hi"
    using b m(1) c by (simp add: unat_add_bound)
  moreover have "wymum_halves A B = (lo, ha * hb + drop_bit 32 rm0 + drop_bit 32 rm1 + ?c)"
    unfolding wymum_halves_def Let_def lo_def t_def rm0_rm1_rl_def ha_hb_la_lb_def by (rule refl)
  ultimately show ?thesis using prod by simp
qed

section \<open>Reads in bounds\<close>

lemma wy_step_ok: "i + 16 \<le> length p \<Longrightarrow> \<exists>r. wy_step p i s seed = Inr r"
  by (simp add: wy_step_def wyr8_def)

lemma wy_loop48_ok:
  "48 < i \<Longrightarrow> pos + i \<le> length p \<Longrightarrow>
    \<exists>pos' i' r. wy_loop48 p s pos i seed see1 see2 = Inr (pos', i', r) \<and> pos' + i' = pos + i"
proof (induction p s pos i seed see1 see2 rule: wy_loop48.induct)
  case (1 p s0 s1 s2 s3 pos i seed see1 see2)
  obtain a b c where r: "wy_step p pos s1 seed = Inr a" "wy_step p (pos + 16) s2 see1 = Inr b" "wy_step p (pos + 32) s3 see2 = Inr c"
    using wy_step_ok [of pos p] wy_step_ok [of "pos + 16" p] wy_step_ok [of "pos + 32" p] "1.prems" by fastforce
  show ?case
  proof (cases "i - 48 > 48")
    case True
    from "1.IH" [OF True, of a b c] True "1.prems" obtain pos' i' r where
      "wy_loop48 p (s0, s1, s2, s3) (pos + 48) (i - 48) a b c = Inr (pos', i', r)" "pos' + i' = pos + i" by auto
    then show ?thesis using True r by (subst wy_loop48.simps) simp
  next
    case False
    then show ?thesis using r "1.prems" by (subst wy_loop48.simps) simp
  qed
qed

lemma wy_loop16_ok:
  "pos + i \<le> length p \<Longrightarrow> \<exists>pos' i' r. wy_loop16 p s pos i seed = Inr (pos', i', r) \<and> pos' + i' = pos + i"
proof (induction p s pos i seed rule: wy_loop16.induct)
  case (1 p s0 s1 s2 s3 pos i seed)
  show ?case
  proof (cases "i > 16")
    case True
    then obtain a where a: "wy_step p pos s1 seed = Inr a" using wy_step_ok [of pos p s1 seed] "1.prems" by auto
    from "1.IH" [OF True, of a] True "1.prems" obtain pos' i' r where
      "wy_loop16 p (s0, s1, s2, s3) (pos + 16) (i - 16) a = Inr (pos', i', r)" "pos' + i' = pos + i" by auto
    then show ?thesis using True a by (subst wy_loop16.simps) simp
  next
    case False
    then show ?thesis by (subst wy_loop16.simps) simp
  qed
qed

text \<open>Every read of the hash function is inside the data.\<close>

lemma flecs_hash_total:
  assumes "len \<le> length data"
  shows "\<exists>h. flecs_hash data len = Inr h"
proof -
  obtain s0 s1 s2 s3 where w: "wyp = (s0, s1, s2, s3)" by (cases wyp)
  define seed where "seed = (0 :: u64) XOR wymix (0 XOR s0) s1"
  consider (small) "len < 4" | (mid) "4 \<le> len" "len \<le> 16" | (large) "16 < len" by linarith
  then show ?thesis
  proof cases
    case small
    then show ?thesis using assms
      by (cases "len = 0") (auto simp: flecs_hash_def wyhash_def w Let_def wyr3_def split: prod.split)
  next
    case mid
    then have "len div 8 * 4 + 4 \<le> len" by presburger
    then show ?thesis using mid assms
      by (simp add: flecs_hash_def wyhash_def w Let_def wyr4_def split: prod.split)
  next
    case large
    have "\<exists>pos i r. (if len > 48 then wy_loop48 data (s0, s1, s2, s3) 0 len seed seed seed else Inr (0, len, seed)) =
        Inr (pos, i, r) \<and> pos + i = len"
      using wy_loop48_ok [of len 0 data] assms by (cases "len > 48") auto
    then obtain pos i r where l1: "(if len > 48 then wy_loop48 data (s0, s1, s2, s3) 0 len seed seed seed else Inr (0, len, seed)) =
        Inr (pos, i, r)" "pos + i = len" by blast
    obtain pos' i' r' where l2: "wy_loop16 data (s0, s1, s2, s3) pos i r = Inr (pos', i', r')" "pos' + i' = len"
      using wy_loop16_ok [of pos i data "(s0, s1, s2, s3)" r] l1(2) assms by auto
    obtain a b where ab: "wyr8 data (pos' + i' - 16) = Inr a" "wyr8 data (pos' + i' - 8) = Inr b"
      using l2(2) large assms by (simp add: wyr8_def)
    have n: "(len \<le> 16) = False" using large by simp
    show ?thesis
      unfolding flecs_hash_def wyhash_def w prod.case Let_def seed_def [symmetric] n if_False l1(1) bindr_Inr l2(1) ab
      by (simp split: prod.split)
  qed
qed

section \<open>Properties\<close>

text \<open>
  C29: the portable multiplication of \<open>wymum_\<close>, which adds up products of 32-bit halves with carries, gives the
  same low and high word as the 128-bit multiplication, so the hash does not depend on the compiler.
\<close>

theorem wymum_halves_eq: "wymum_halves A B = wymum A B"
proof -
  have bound: "unat (x :: u64) < 2 ^ 64" for x using unsigned_less [of x] by simp
  have eq: "unat (fst (wymum_halves A B)) + 2 ^ 64 * unat (snd (wymum_halves A B)) =
      unat (fst (wymum A B)) + 2 ^ 64 * unat (snd (wymum A B))"
    by (simp only: unat_wymum unat_wymum_halves)
  have "unat (fst (wymum_halves A B)) = unat (fst (wymum A B))"
    using arg_cong [OF eq, of "\<lambda>n. n mod 2 ^ 64"] bound by (simp add: mod_less)
  moreover have "unat (snd (wymum_halves A B)) = unat (snd (wymum A B))"
    using arg_cong [OF eq, of "\<lambda>n. n div 2 ^ 64"] bound by (simp add: div_less)
  ultimately show ?thesis by (intro prod_eqI unsigned_word_eqI)
qed

text \<open>
  \<open>flecs_hash\<close> is total: for data of at least the given length it terminates, whatever the length, and
  no read leaves the data.
\<close>

theorem flecs_hash_in_bounds:
  assumes "len \<le> length data"
  shows "\<exists>h. flecs_hash data len = Inr h"
  using assms by (rule flecs_hash_total)

theorem flecs_hash_in_bounds_witness: "\<exists>h. flecs_hash [102, 111, 111] 3 = Inr h"
  using flecs_hash_in_bounds [of 3 "[102, 111, 111]"] by simp

end
