(* ===== verification/NameIndex.thy ===== *)
theory NameIndex
  imports Hashmap_Facts Hash Refine
begin

text \<open>
  The index from names to entities of \<open>src/datastructures/name_index.c\<close>: a hash map whose keys are strings
  that carry their length and hash, and whose values are entity ids.

  A C string is the list of the bytes before its terminator.  A key holds the bytes that its pointer
  refers to; the index does not own that memory, and whoever moves a name has to call
  \<open>flecs_name_index_update_name\<close>.  A hash map structure that has only been zeroed, whose comparison is the
  null pointer, is \<open>None\<close> where the code tells it from an initialised one.
\<close>

section \<open>Keys\<close>

record ecs_hashed_string_t =
  hs_value :: "byte list"
  hs_length :: nat
  hs_hash :: u64

text \<open>The comparison of \<open>strcmp\<close>; the terminator counts as the byte 0.\<close>

fun strcmp :: "byte list \<Rightarrow> byte list \<Rightarrow> int" where
  "strcmp [] [] = 0"
| "strcmp [] (y # ys) = - uint y"
| "strcmp (x # xs) [] = uint x"
| "strcmp (x # xs) (y # ys) = (if x = y then strcmp xs ys else uint x - uint y)"

text \<open>\<open>memcmp\<close> of two buffers that have \<open>n\<close> bytes.\<close>

fun memcmp :: "byte list \<Rightarrow> byte list \<Rightarrow> nat \<Rightarrow> int" where
  "memcmp (x # xs) (y # ys) (Suc n) = (if x = y then memcmp xs ys n else uint x - uint y)"
| "memcmp xs ys n = 0"

definition flecs_name_index_hash :: "ecs_hashed_string_t \<Rightarrow> u64 res" where
  "flecs_name_index_hash str =
     bindr (ecs_assert (hs_hash str \<noteq> 0) ECS_INTERNAL_ERROR) (\<lambda>_. Inr (hs_hash str))"

definition flecs_name_index_compare :: "ecs_hashed_string_t \<Rightarrow> ecs_hashed_string_t \<Rightarrow> int" where
  "flecs_name_index_compare str1 str2 =
     (let len1 = hs_length str1; len2 = hs_length str2 in
      if len1 \<noteq> len2 then of_bool (len1 > len2) - of_bool (len1 < len2)
      else memcmp (hs_value str1) (hs_value str2) len1)"

section \<open>Operations\<close>

type_synonym name_index = "(ecs_hashed_string_t, u64) ecs_hashmap_t"

text \<open>\<open>ECS_SIZEOF(ecs_hashed_string_t)\<close> and \<open>ECS_SIZEOF(uint64_t)\<close> on a 64-bit target.\<close>

abbreviation hashed_string_size :: nat where "hashed_string_size \<equiv> 24"
abbreviation uint64_size :: nat where "uint64_size \<equiv> 8"

definition flecs_name_index_init :: "name_index res" where
  "flecs_name_index_init =
     flecs_hashmap_init hashed_string_size uint64_size flecs_name_index_hash flecs_name_index_compare"

definition flecs_name_index_init_if :: "name_index option \<Rightarrow> name_index res" where
  "flecs_name_index_init_if hm = (case hm of None \<Rightarrow> flecs_name_index_init | Some hm \<Rightarrow> Inr hm)"

definition flecs_name_index_is_init :: "name_index option \<Rightarrow> bool" where
  "flecs_name_index_is_init hm \<longleftrightarrow> hm \<noteq> None"

definition flecs_name_index_new :: "name_index res" where
  "flecs_name_index_new = flecs_name_index_init"

definition flecs_name_index_fini :: "nat \<Rightarrow> name_index \<Rightarrow> name_index option res" where
  "flecs_name_index_fini fuel hm = flecs_hashmap_fini fuel hm"

text \<open>A null pointer is allowed; \<open>True\<close> says that the loop of the destructor ended.\<close>

definition flecs_name_index_free :: "nat \<Rightarrow> name_index option \<Rightarrow> bool res" where
  "flecs_name_index_free fuel hm =
     (case hm of
        None \<Rightarrow> Inr True
      | Some hm \<Rightarrow> bindr (flecs_name_index_fini fuel hm) (\<lambda>r. Inr (r \<noteq> None)))"

definition flecs_name_index_copy :: "nat \<Rightarrow> name_index \<Rightarrow> (name_index \<times> name_index) option res" where
  "flecs_name_index_copy fuel hm = flecs_hashmap_copy fuel hm"

text \<open>A length or a hash of 0 is computed, another one has to be right.\<close>

definition flecs_get_hashed_string :: "byte list \<Rightarrow> nat \<Rightarrow> u64 \<Rightarrow> ecs_hashed_string_t res" where
  "flecs_get_hashed_string name len hash =
     bindr (if len = 0 then Inr (length name)
            else bindr (ecs_assert (len = length name) ECS_INTERNAL_ERROR) (\<lambda>_. Inr len)) (\<lambda>len.
     bindr (flecs_hash name len) (\<lambda>h.
     bindr (if hash = 0 then Inr h
            else bindr (ecs_assert (hash = h) ECS_INTERNAL_ERROR) (\<lambda>_. Inr hash)) (\<lambda>hash.
     Inr \<lparr>hs_value = name, hs_length = len, hs_hash = hash\<rparr>)))"

text \<open>The search loop of \<open>flecs_name_index_find_ptr\<close> over the keys of a bucket.\<close>

fun name_find_from ::
  "ecs_hashed_string_t \<Rightarrow> byte list \<Rightarrow> (ecs_hashed_string_t, u64) ecs_hm_bucket_t \<Rightarrow> nat list \<Rightarrow> nat option res" where
  "name_find_from hs name b [] = Inr None"
| "name_find_from hs name b (i # is) =
     bindr (vec_read (hmb_keys b) i) (\<lambda>key.
     bindr (ecs_assert (hs_hash key = hs_hash hs) ECS_INTERNAL_ERROR) (\<lambda>_.
     if hs_length hs \<noteq> hs_length key then name_find_from hs name b is
     else if strcmp name (hs_value key) = 0 then bindr (ecs_vec_get (hmb_values b) i) (\<lambda>_. Inr (Some i))
     else name_find_from hs name b is))"

definition flecs_name_index_find_ptr :: "name_index \<Rightarrow> byte list \<Rightarrow> nat \<Rightarrow> u64 \<Rightarrow> (u64 \<times> nat) option res" where
  "flecs_name_index_find_ptr hm name len hash =
     bindr (flecs_get_hashed_string name len hash) (\<lambda>hs.
     bindr (flecs_hashmap_get_bucket hm (hs_hash hs)) (\<lambda>bucket.
     case bucket of
       None \<Rightarrow> Inr None
     | Some b \<Rightarrow>
         bindr (name_find_from hs name b [0..<ecs_vec_count (hmb_keys b)]) (\<lambda>r.
         Inr (map_option (\<lambda>i. (hs_hash hs, i)) r))))"

definition flecs_name_index_find :: "name_index \<Rightarrow> byte list \<Rightarrow> nat \<Rightarrow> u64 \<Rightarrow> u64 res" where
  "flecs_name_index_find hm name len hash =
     bindr (flecs_name_index_find_ptr hm name len hash) (\<lambda>ptr.
     case ptr of Some p \<Rightarrow> hm_load hm p | None \<Rightarrow> Inr 0)"

text \<open>The loop over the values of a bucket that looks for an entity.\<close>

fun id_find_from :: "u64 \<Rightarrow> u64 ecs_vec_t \<Rightarrow> nat list \<Rightarrow> nat option res" where
  "id_find_from e ids [] = Inr None"
| "id_find_from e ids (i # is) =
     bindr (vec_read ids i) (\<lambda>x. if x = e then Inr (Some i) else id_find_from e ids is)"

definition flecs_name_index_remove :: "name_index \<Rightarrow> u64 \<Rightarrow> u64 \<Rightarrow> name_index res" where
  "flecs_name_index_remove hm e hash =
     bindr (flecs_hashmap_get_bucket hm hash) (\<lambda>bucket.
     case bucket of
       None \<Rightarrow> Inr hm
     | Some b \<Rightarrow>
         bindr (id_find_from e (hmb_values b) [0..<ecs_vec_count (hmb_values b)]) (\<lambda>r.
         case r of
           None \<Rightarrow> Inr hm
         | Some i \<Rightarrow> flecs_hm_bucket_remove hm hash i))"

text \<open>The string of the key is replaced first, then its length and hash are checked.\<close>

definition flecs_name_index_update_name :: "name_index \<Rightarrow> u64 \<Rightarrow> u64 \<Rightarrow> byte list \<Rightarrow> (name_index \<times> bool) res" where
  "flecs_name_index_update_name hm e hash name =
     bindr (flecs_hashmap_get_bucket hm hash) (\<lambda>bucket.
     case bucket of
       None \<Rightarrow> Inr (hm, False)
     | Some b \<Rightarrow>
         bindr (id_find_from e (hmb_values b) [0..<ecs_vec_count (hmb_values b)]) (\<lambda>r.
         case r of
           None \<Rightarrow> Inr (hm, False)
         | Some i \<Rightarrow>
             bindr (ecs_vec_get (hmb_keys b) i) (\<lambda>key.
             bindr (hm_store_key hm (hash, i) (hs_value_update (\<lambda>_. name))) (\<lambda>hm.
             bindr (ecs_assert (length name = hs_length key) ECS_INTERNAL_ERROR) (\<lambda>_.
             bindr (flecs_hash name (hs_length key)) (\<lambda>h.
             bindr (ecs_assert (h = hs_hash key) ECS_INTERNAL_ERROR) (\<lambda>_.
             Inr (hm, True))))))))"

text \<open>A null name fails the check.\<close>

definition flecs_name_index_ensure :: "name_index \<Rightarrow> u64 \<Rightarrow> byte list option \<Rightarrow> nat \<Rightarrow> u64 \<Rightarrow> name_index res" where
  "flecs_name_index_ensure hm e name len hash =
     (case name of
        None \<Rightarrow> Inl (Abort ECS_INVALID_PARAMETER)
      | Some name \<Rightarrow>
          bindr (flecs_get_hashed_string name len hash) (\<lambda>key.
          bindr (flecs_hashmap_ensure 0 hm hashed_string_size key uint64_size) (\<lambda>(hm, ptr).
          bindr (hm_store hm ptr e) (\<lambda>hm.
          hm_store_key hm ptr (hs_value_update (\<lambda>_. name))))))"

section \<open>Keys as names\<close>

lemma strcmp_eq: "0 \<notin> set xs \<Longrightarrow> 0 \<notin> set ys \<Longrightarrow> strcmp xs ys = 0 \<longleftrightarrow> xs = ys"
  by (induction xs ys rule: strcmp.induct) (auto simp: unsigned_eq_0_iff dest: unsigned_word_eqI)

lemma memcmp_eq: "length xs = n \<Longrightarrow> length ys = n \<Longrightarrow> memcmp xs ys n = 0 \<longleftrightarrow> xs = ys"
  by (induction xs ys n rule: memcmp.induct) (auto dest: unsigned_word_eqI)

definition name_hash :: "byte list \<Rightarrow> u64" where
  "name_hash name = (case flecs_hash name (length name) of Inr h \<Rightarrow> h | Inl _ \<Rightarrow> 0)"

lemma flecs_hash_name [simp]: "flecs_hash name (length name) = Inr (name_hash name)"
  using flecs_hash_total [of "length name" name] by (auto simp: name_hash_def)

text \<open>A string without inner terminator whose length fits \<open>ecs_size_t\<close> and whose hash is not the reserved 0.\<close>

definition name_ok :: "byte list \<Rightarrow> bool" where
  "name_ok name \<longleftrightarrow> 0 \<notin> set name \<and> length name < 2 ^ 31 \<and> name_hash name \<noteq> 0"

definition name_key :: "byte list \<Rightarrow> ecs_hashed_string_t" where
  "name_key name = \<lparr>hs_value = name, hs_length = length name, hs_hash = name_hash name\<rparr>"

definition key_ok :: "ecs_hashed_string_t \<Rightarrow> bool" where
  "key_ok k \<longleftrightarrow> name_ok (hs_value k) \<and> k = name_key (hs_value k)"

lemma name_key_simps [simp]:
  "hs_value (name_key name) = name" "hs_length (name_key name) = length name" "hs_hash (name_key name) = name_hash name"
  "key_ok (name_key name) \<longleftrightarrow> name_ok name" "name_key name = name_key name' \<longleftrightarrow> name = name'"
  "hs_value_update (\<lambda>_. name) (name_key name) = name_key name"
  by (auto simp: name_key_def key_ok_def)

lemma key_okE:
  assumes "key_ok k"
  obtains name where "k = name_key name" and "name_ok name"
  using assms by (auto simp: key_ok_def)

lemma name_index_compare_key [simp]: "flecs_name_index_compare (name_key n) (name_key n') = 0 \<longleftrightarrow> n = n'"
  by (auto simp: flecs_name_index_compare_def Let_def memcmp_eq)

lemma name_index_hash_key [simp]: "name_ok n \<Longrightarrow> flecs_name_index_hash (name_key n) = Inr (name_hash n)"
  by (simp add: flecs_name_index_hash_def name_ok_def)

interpretation names: hash_keys key_ok flecs_name_index_hash flecs_name_index_compare
  by unfold_locales (auto elim!: key_okE)

lemma compare_key: "key_ok k \<Longrightarrow> flecs_name_index_compare k (name_key n) = 0 \<longleftrightarrow> k = name_key n"
  by (auto elim!: key_okE)

lemma get_hashed_string_ok:
  assumes "len = 0 \<or> len = length name" and "hash = 0 \<or> hash = name_hash name"
  shows "flecs_get_hashed_string name len hash = Inr (name_key name)"
  using assms by (auto simp: flecs_get_hashed_string_def name_key_def)

section \<open>The index as a map of names\<close>

definition name_index_inv :: "name_index \<Rightarrow> bool" where
  "name_index_inv hm \<longleftrightarrow> hm_for key_ok flecs_name_index_hash flecs_name_index_compare hm \<and>
     hm_key_size hm = hashed_string_size \<and> hm_value_size hm = uint64_size"

definition name_map :: "name_index \<Rightarrow> byte list \<rightharpoonup> u64" where
  "name_map hm name = (if name_ok name then hm_look hm (name_key name) else None)"

lemma name_mapI:
  "(\<And>n. name_ok n \<Longrightarrow> hm_look hm (name_key n) = f n) \<Longrightarrow> (\<And>n. \<not> name_ok n \<Longrightarrow> f n = None) \<Longrightarrow> name_map hm = f"
  by (auto simp: name_map_def)

lemma name_map_ok: "name_map hm n = Some e \<Longrightarrow> name_ok n"
  by (simp add: name_map_def split: if_splits)

text \<open>A bucket of the index holds the keys of the names with its hash.\<close>

lemma name_bucket:
  assumes inv: "name_index_inv hm" and b: "map_lookup (hm_impl hm) h = Some (Some b)"
  shows "bucket_ok key_ok flecs_name_index_hash flecs_name_index_compare h b"
    and "i < vec_count (hmb_keys b) \<Longrightarrow> \<exists>n. vec_elems (hmb_keys b) ! i = name_key n \<and> name_ok n \<and> name_hash n = h"
    and "name_hash n = h \<Longrightarrow> name_map hm n = Some e \<longleftrightarrow>
      (\<exists>i < vec_count (hmb_keys b). vec_elems (hmb_keys b) ! i = name_key n \<and> vec_elems (hmb_values b) ! i = e)"
proof -
  have hm: "hm_for key_ok flecs_name_index_hash flecs_name_index_compare hm" using inv by (simp add: name_index_inv_def)
  then show bo: "bucket_ok key_ok flecs_name_index_hash flecs_name_index_compare h b"
    using hm_wfD(2) [OF _ b] by (auto simp: hm_for_def)
  have key: "key_ok (vec_elems (hmb_keys b) ! i)" "flecs_name_index_hash (vec_elems (hmb_keys b) ! i) = Inr h"
    if "i < vec_count (hmb_keys b)" for i using that bo by (simp_all add: bucket_ok_def)
  then show nth: "\<exists>n. vec_elems (hmb_keys b) ! i = name_key n \<and> name_ok n \<and> name_hash n = h" if "i < vec_count (hmb_keys b)" for i
    using key_okE [OF key(1) [OF that]] key(2) [OF that] by (metis Inr_inject name_index_hash_key)
  show "name_map hm n = Some e \<longleftrightarrow>
      (\<exists>i < vec_count (hmb_keys b). vec_elems (hmb_keys b) ! i = name_key n \<and> vec_elems (hmb_values b) ! i = e)" if "name_hash n = h"
  proof (cases "name_ok n")
    case True
    then have "name_map hm n = bucket_look flecs_name_index_compare b (name_key n)"
      using names.hm_look_bucket [OF hm, of "name_key n" h] that b by (simp add: name_map_def)
    then show ?thesis using names.bucket_look_iff [OF bo, of "name_key n" e] True compare_key [OF key(1)] by auto
  next
    case False
    then show ?thesis using nth by (force simp: name_map_def)
  qed
qed

lemma name_bucket_inj:
  assumes inv: "name_index_inv hm" and b: "map_lookup (hm_impl hm) h = Some (Some b)"
    and ij: "i < vec_count (hmb_keys b)" "j < vec_count (hmb_keys b)"
    and eq: "hs_value (vec_elems (hmb_keys b) ! i) = hs_value (vec_elems (hmb_keys b) ! j)"
  shows "i = j"
proof (rule ccontr)
  assume "i \<noteq> j"
  then have "flecs_name_index_compare (vec_elems (hmb_keys b) ! i) (vec_elems (hmb_keys b) ! j) \<noteq> 0"
    using ij name_bucket(1) [OF inv b] by (simp add: bucket_ok_def)
  moreover obtain n n' where "vec_elems (hmb_keys b) ! i = name_key n" "vec_elems (hmb_keys b) ! j = name_key n'"
    using name_bucket(2) [OF inv b] ij by blast
  ultimately show False using eq by simp
qed

lemma name_map_no_bucket:
  assumes "name_index_inv hm" and "map_lookup (hm_impl hm) (name_hash n) = None"
  shows "name_map hm n = None"
  using assms names.hm_look_bucket [of hm "name_key n" "name_hash n"] by (simp add: name_index_inv_def name_map_def)

lemma hm_bucket_cases:
  assumes "name_index_inv hm"
  obtains "flecs_hashmap_get_bucket hm h = Inr None" "map_lookup (hm_impl hm) h = None"
  | b where "flecs_hashmap_get_bucket hm h = Inr (Some b)" "map_lookup (hm_impl hm) h = Some (Some b)"
proof -
  have wf: "hm_wf key_ok hm" using assms by (simp add: name_index_inv_def hm_for_def)
  have "flecs_hashmap_get_bucket hm h = Inr (case map_lookup (hm_impl hm) h of Some v \<Rightarrow> v | None \<Rightarrow> None)"
    using hm_wfD(1) [OF wf] by (simp add: flecs_hashmap_get_bucket_def map_get_deref_ok)
  then show ?thesis using that hm_wfD(2) [OF wf, of h] by (cases "map_lookup (hm_impl hm) h") fastforce+
qed

text \<open>The size of the map of names bounds the number of buckets and their sizes.\<close>

lemma name_room:
  assumes inv: "name_index_inv hm" and card: "card (dom (name_map hm)) + 1 < 2 ^ 26"
  shows "hm_room hm"
proof -
  let ?B = "map_lookup (hm_impl hm)"
  have wf: "hm_wf key_ok hm" using inv by (simp add: name_index_inv_def hm_for_def)
  have names: "(\<lambda>i. hs_value (vec_elems (hmb_keys b) ! i)) ` {..<vec_count (hmb_keys b)} \<subseteq> dom (name_map hm)"
    if b: "?B h = Some (Some b)" for h b
  proof (safe)
    fix i assume i: "i < vec_count (hmb_keys b)"
    then obtain n where n: "vec_elems (hmb_keys b) ! i = name_key n" "name_hash n = h" using name_bucket(2) [OF inv b] by blast
    then show "\<exists>e. name_map hm (hs_value (vec_elems (hmb_keys b) ! i)) = Some e"
      using name_bucket(3) [OF inv b n(2)] i by auto
  qed
  have hashes: "dom ?B = name_hash ` dom (name_map hm)"
  proof (intro set_eqI iffI)
    fix h assume "h \<in> dom ?B"
    then obtain b where b: "?B h = Some (Some b)" using hm_wfD(2) [OF wf, of h] by blast
    then have "0 < vec_count (hmb_keys b)" using name_bucket(1) [OF inv b] by (simp add: bucket_ok_def)
    moreover from this obtain n where "vec_elems (hmb_keys b) ! 0 = name_key n" "name_hash n = h" using name_bucket(2) [OF inv b] by blast
    ultimately show "h \<in> name_hash ` dom (name_map hm)" using names [OF b] by force
  next
    fix h assume "h \<in> name_hash ` dom (name_map hm)"
    then show "h \<in> dom ?B" using name_map_no_bucket [OF inv] by force
  qed
  have "dom (name_map hm) \<subseteq> (\<Union>h \<in> dom ?B. \<Union>b \<in> set_option (the (?B h)). hs_value ` set (vec_elems (hmb_keys b)))"
  proof
    fix n assume "n \<in> dom (name_map hm)"
    then obtain e where e: "name_map hm n = Some e" by blast
    then obtain v where "?B (name_hash n) = Some v" using name_map_no_bucket [OF inv, of n] by auto
    then obtain b where b: "?B (name_hash n) = Some (Some b)" using hm_wfD(2) [OF wf] by blast
    then obtain i where "i < vec_count (hmb_keys b)" "vec_elems (hmb_keys b) ! i = name_key n"
      using name_bucket(3) [OF inv b refl] e by blast
    moreover have "vec_ok (hmb_keys b)" using name_bucket(1) [OF inv b] by (simp add: bucket_ok_def)
    ultimately have "name_key n \<in> set (vec_elems (hmb_keys b))" using nth_mem length_vec_elems by metis
    then have "n \<in> hs_value ` set (vec_elems (hmb_keys b))" by force
    then show "n \<in> (\<Union>h \<in> dom ?B. \<Union>b \<in> set_option (the (?B h)). hs_value ` set (vec_elems (hmb_keys b)))" using b by force
  qed
  moreover have "finite (\<Union>h \<in> dom ?B. \<Union>b \<in> set_option (the (?B h)). hs_value ` set (vec_elems (hmb_keys b)))"
    using map_count_card(1) [OF hm_wfD(1) [OF wf]] by simp
  ultimately have fin: "finite (dom (name_map hm))" using finite_subset by blast
  have "vec_count (hmb_keys b) < 2 ^ 30" if b: "?B h = Some (Some b)" for h b
  proof -
    have "inj_on (\<lambda>i. hs_value (vec_elems (hmb_keys b) ! i)) {..<vec_count (hmb_keys b)}"
      using name_bucket_inj [OF inv b] by (auto intro!: inj_onI)
    then have "vec_count (hmb_keys b) \<le> card (dom (name_map hm))" using card_inj_on_le [OF _ names [OF b] fin] by simp
    then show ?thesis using card by simp
  qed
  moreover have "card (dom ?B) \<le> card (dom (name_map hm))" unfolding hashes using card_image_le [OF fin] .
  ultimately show ?thesis using card unfolding hm_room_def by simp
qed

lemma name_index_init_ok:
  "\<exists>hm. flecs_name_index_init = Inr hm \<and> name_index_inv hm \<and> name_map hm = Map.empty"
proof -
  obtain hm where "flecs_name_index_init = Inr hm" "hm_for key_ok flecs_name_index_hash flecs_name_index_compare hm"
    "\<forall>k. hm_look hm k = None" "hm_key_size hm = hashed_string_size" "hm_value_size hm = uint64_size"
    using names.hm_init_ok [of hashed_string_size uint64_size] unfolding flecs_name_index_init_def by blast
  then show ?thesis by (intro exI [of _ hm]) (auto simp: name_index_inv_def name_map_def)
qed

lemma name_index_find_ok:
  assumes inv: "name_index_inv hm" and n: "name_ok n" and args: "len = 0 \<or> len = length n" "h = 0 \<or> h = name_hash n"
  shows "flecs_name_index_find hm n len h = Inr (case name_map hm n of None \<Rightarrow> 0 | Some e \<Rightarrow> e)"
proof (rule hm_bucket_cases [OF inv, of "name_hash n"])
  assume "flecs_hashmap_get_bucket hm (name_hash n) = Inr None" "map_lookup (hm_impl hm) (name_hash n) = None"
  then show ?thesis using get_hashed_string_ok [OF args] name_map_no_bucket [OF inv, of n]
    by (simp add: flecs_name_index_find_def flecs_name_index_find_ptr_def)
next
  fix b assume b: "flecs_hashmap_get_bucket hm (name_hash n) = Inr (Some b)" "map_lookup (hm_impl hm) (name_hash n) = Some (Some b)"
  let ?K = "vec_elems (hmb_keys b)"
  have bo: "vec_ok (hmb_keys b)" "vec_ok (hmb_values b)" "vec_count (hmb_keys b) = vec_count (hmb_values b)"
    using name_bucket(1) [OF inv b(2)] by (simp_all add: bucket_ok_def)
  have loop: "name_find_from (name_key n) n b is = Inr (find (\<lambda>i. ?K ! i = name_key n) is)" if "\<forall>i \<in> set is. i < vec_count (hmb_keys b)" for "is"
    using that
  proof (induction "is")
    case (Cons i "is")
    then obtain n' where "?K ! i = name_key n'" "name_ok n'" "name_hash n' = name_hash n" using name_bucket(2) [OF inv b(2), of i] by auto
    then show ?case using Cons bo n strcmp_eq [of n n'] by (auto simp: name_ok_def)
  qed simp
  define r where "r = find (\<lambda>i. ?K ! i = name_key n) [0..<vec_count (hmb_keys b)]"
  have find: "flecs_name_index_find_ptr hm n len h = Inr (map_option (\<lambda>i. (name_hash n, i)) r)"
    using get_hashed_string_ok [OF args] b(1) loop [of "[0..<vec_count (hmb_keys b)]"]
    by (simp add: flecs_name_index_find_ptr_def ecs_vec_count_def r_def)
  show ?thesis
  proof (cases r)
    case None
    then have "?K ! i \<noteq> name_key n" if "i < vec_count (hmb_keys b)" for i using that by (simp add: r_def find_Some_iff_upt(2))
    then have "name_map hm n \<noteq> Some e" for e using name_bucket(3) [OF inv b(2) refl, of e] by blast
    then have "name_map hm n = None" by (cases "name_map hm n") auto
    then show ?thesis using find None by (simp add: flecs_name_index_find_def)
  next
    case (Some i)
    then have i: "i < vec_count (hmb_keys b)" "?K ! i = name_key n" using find_Some_iff_upt(1) unfolding r_def by blast+
    then have "name_map hm n = Some (vec_elems (hmb_values b) ! i)" using name_bucket(3) [OF inv b(2) refl] by blast
    moreover have "hm_bucket hm (name_hash n) = Inr b" using b(1) by (simp add: hm_bucket_def flecs_hashmap_get_bucket_def)
    ultimately show ?thesis using find Some i bo by (simp add: flecs_name_index_find_def hm_load_def)
  qed
qed

lemma name_index_ensure_ok:
  assumes inv: "name_index_inv hm" and n: "name_ok n" and args: "len = 0 \<or> len = length n" "h = 0 \<or> h = name_hash n"
    and room: "card (dom (name_map hm)) + 1 < 2 ^ 26"
  shows "\<exists>hm'. flecs_name_index_ensure hm e (Some n) len h = Inr hm' \<and> name_index_inv hm' \<and> name_map hm' = (name_map hm)(n \<mapsto> e)"
proof -
  have hm: "hm_for key_ok flecs_name_index_hash flecs_name_index_compare hm"
    and size: "hm_key_size hm = hashed_string_size" "hm_value_size hm = uint64_size" using inv by (simp_all add: name_index_inv_def)
  have key: "key_ok (name_key n)" using n by simp
  obtain hm1 m g i b where run: "flecs_hashmap_ensure 0 hm hashed_string_size (name_key n) uint64_size = Inr (hm1, g, i)"
    "hm_store hm1 (g, i) e = Inr (hm\<lparr>hm_impl := m\<rparr>)"
    and m: "hm_for key_ok flecs_name_index_hash flecs_name_index_compare (hm\<lparr>hm_impl := m\<rparr>)"
    and b: "map_lookup m g = Some (Some b)" "i < vec_count (hmb_keys b)"
    "flecs_name_index_compare (vec_elems (hmb_keys b) ! i) (name_key n) = 0"
    and look: "\<forall>k. key_ok k \<longrightarrow> hm_look (hm\<lparr>hm_impl := m\<rparr>) k =
      (if flecs_name_index_compare k (name_key n) = 0 then Some e else hm_look hm k)"
    using names.set_ptr_ok [OF hm key name_room [OF inv room], of 0 e] unfolding size by blast
  have inv1: "name_index_inv (hm\<lparr>hm_impl := m\<rparr>)" using m size by (simp add: name_index_inv_def)
  have "map_lookup (hm_impl (hm\<lparr>hm_impl := m\<rparr>)) g = Some (Some b)" using b(1) by simp
  moreover from name_bucket(2) [OF inv1 this b(2)] have "vec_elems (hmb_keys b) ! i = name_key n" using b(3) by auto
  ultimately obtain m' where m': "hm_store_key (hm\<lparr>hm_impl := m\<rparr>) (g, i) (hs_value_update (\<lambda>_. n)) = Inr (hm\<lparr>hm_impl := m'\<rparr>)"
    "hm_for key_ok flecs_name_index_hash flecs_name_index_compare (hm\<lparr>hm_impl := m'\<rparr>)"
    "\<forall>k. hm_look (hm\<lparr>hm_impl := m'\<rparr>) k = hm_look (hm\<lparr>hm_impl := m\<rparr>) k"
    using names.store_key_ok [OF m _ b(2), of g "hs_value_update (\<lambda>_. n)"] by auto
  have "name_map (hm\<lparr>hm_impl := m'\<rparr>) = (name_map hm)(n \<mapsto> e)"
    using look m'(3) n by (intro name_mapI) (auto simp: name_map_def)
  moreover have "flecs_name_index_ensure hm e (Some n) len h = Inr (hm\<lparr>hm_impl := m'\<rparr>)"
    using get_hashed_string_ok [OF args] run m'(1) by (simp add: flecs_name_index_ensure_def)
  ultimately show ?thesis using m'(2) size by (simp add: name_index_inv_def)
qed

lemma id_find_ok:
  assumes "vec_ok ids"
  shows "id_find_from e ids [0..<ecs_vec_count ids] = Inr (find (\<lambda>i. vec_elems ids ! i = e) [0..<vec_count ids])"
proof -
  have "id_find_from e ids is = Inr (find (\<lambda>i. vec_elems ids ! i = e) is)" if "\<forall>i \<in> set is. i < vec_count ids" for "is"
    using that assms by (induction "is") simp_all
  then show ?thesis by (simp add: ecs_vec_count_def)
qed

text \<open>The name under which an entity is found in the bucket of a hash; there is at most one when no two names collide.\<close>

definition entity_name :: "(byte list \<rightharpoonup> u64) \<Rightarrow> u64 \<Rightarrow> u64 \<Rightarrow> byte list \<Rightarrow> bool" where
  "entity_name m e h n \<longleftrightarrow> m n = Some e \<and> name_hash n = h"

lemma id_find_cases:
  assumes inv: "name_index_inv hm" and b: "map_lookup (hm_impl hm) h = Some (Some b)"
  obtains "id_find_from e (hmb_values b) [0..<ecs_vec_count (hmb_values b)] = Inr None" "\<And>n. \<not> entity_name (name_map hm) e h n"
  | i n where "id_find_from e (hmb_values b) [0..<ecs_vec_count (hmb_values b)] = Inr (Some i)" "i < vec_count (hmb_keys b)"
      "vec_elems (hmb_keys b) ! i = name_key n" "entity_name (name_map hm) e h n"
proof -
  have bo: "vec_ok (hmb_values b)" "vec_count (hmb_values b) = vec_count (hmb_keys b)"
    using name_bucket(1) [OF inv b] by (simp_all add: bucket_ok_def)
  note F = id_find_ok [OF bo(1), of e]
  note E = name_bucket(3) [OF inv b]
  show ?thesis
  proof (cases "find (\<lambda>i. vec_elems (hmb_values b) ! i = e) [0..<vec_count (hmb_values b)]")
    case None
    then have "vec_elems (hmb_values b) ! i \<noteq> e" if "i < vec_count (hmb_keys b)" for i using that bo(2) by (simp add: find_Some_iff_upt(2))
    then have "\<not> entity_name (name_map hm) e h n" for n using E [of n e] unfolding entity_name_def by blast
    then show ?thesis using that(1) F None by simp
  next
    case (Some i)
    then have i: "i < vec_count (hmb_keys b)" "vec_elems (hmb_values b) ! i = e" using find_Some_iff_upt(1) bo(2) by fastforce+
    then obtain n where n: "vec_elems (hmb_keys b) ! i = name_key n" "name_hash n = h" using name_bucket(2) [OF inv b] by blast
    then have "entity_name (name_map hm) e h n" using E [OF n(2), of e] i unfolding entity_name_def by blast
    then show ?thesis using that(2) F Some i(1) n(1) by simp
  qed
qed

lemma name_index_remove_ok:
  assumes inv: "name_index_inv hm" and unique: "\<And>n n'. entity_name (name_map hm) e h n \<Longrightarrow> entity_name (name_map hm) e h n' \<Longrightarrow> n = n'"
  shows "\<exists>hm'. flecs_name_index_remove hm e h = Inr hm' \<and> name_index_inv hm' \<and>
    name_map hm' = (\<lambda>n. if entity_name (name_map hm) e h n then None else name_map hm n)"
proof (rule hm_bucket_cases [OF inv, of h])
  assume "flecs_hashmap_get_bucket hm h = Inr None" "map_lookup (hm_impl hm) h = None"
  moreover from this have "\<not> entity_name (name_map hm) e h n" for n using name_map_no_bucket [OF inv, of n] by (auto simp: entity_name_def)
  ultimately show ?thesis using inv by (simp add: flecs_name_index_remove_def)
next
  fix b assume b: "flecs_hashmap_get_bucket hm h = Inr (Some b)" "map_lookup (hm_impl hm) h = Some (Some b)"
  show ?thesis
  proof (rule id_find_cases [OF inv b(2), of e])
    assume "id_find_from e (hmb_values b) [0..<ecs_vec_count (hmb_values b)] = Inr None" "\<And>n. \<not> entity_name (name_map hm) e h n"
    then show ?thesis using inv b(1) by (simp add: flecs_name_index_remove_def)
  next
    fix i n assume i: "id_find_from e (hmb_values b) [0..<ecs_vec_count (hmb_values b)] = Inr (Some i)" "i < vec_count (hmb_keys b)"
      "vec_elems (hmb_keys b) ! i = name_key n" "entity_name (name_map hm) e h n"
    have hm: "hm_for key_ok flecs_name_index_hash flecs_name_index_compare hm"
      and size: "hm_key_size hm = hashed_string_size" "hm_value_size hm = uint64_size" using inv by (simp_all add: name_index_inv_def)
    have n: "name_ok n" "name_hash n = h" using i(4) name_map_ok by (auto simp: entity_name_def)
    have find: "bucket_find flecs_name_index_compare b (name_key n) = Some i"
    proof (cases "bucket_find flecs_name_index_compare b (name_key n)")
      case None
      then show ?thesis using bucket_findD(2) [of flecs_name_index_compare b "name_key n"] i(2,3) by auto
    next
      case (Some j)
      note j = bucket_findD(1) [OF Some]
      moreover obtain n' where "vec_elems (hmb_keys b) ! j = name_key n'" using j name_bucket(2) [OF inv b(2)] by blast
      ultimately show ?thesis using name_bucket_inj [OF inv b(2) i(2), of j] i(3) Some by simp
    qed
    obtain m where m: "flecs_hm_bucket_remove hm h i = Inr (hm\<lparr>hm_impl := m\<rparr>)"
      "hm_for key_ok flecs_name_index_hash flecs_name_index_compare (hm\<lparr>hm_impl := m\<rparr>)"
      "\<forall>k. key_ok k \<longrightarrow> hm_look (hm\<lparr>hm_impl := m\<rparr>) k = (if flecs_name_index_compare k (name_key n) = 0 then None else hm_look hm k)"
      using names.hm_bucket_remove_ok [OF hm _ _ b(2) find] n by auto
    have "entity_name (name_map hm) e h n' \<longleftrightarrow> n' = n" for n' using unique i(4) by blast
    then have "name_map (hm\<lparr>hm_impl := m\<rparr>) = (\<lambda>n. if entity_name (name_map hm) e h n then None else name_map hm n)"
      using m(3) by (intro name_mapI) (auto simp: name_map_def)
    moreover have "flecs_name_index_remove hm e h = Inr (hm\<lparr>hm_impl := m\<rparr>)" using b(1) i(1) m(1) by (simp add: flecs_name_index_remove_def)
    ultimately show ?thesis using m(2) size by (simp add: name_index_inv_def)
  qed
qed

lemma name_index_update_ok:
  assumes inv: "name_index_inv hm" and unique: "\<And>n'. entity_name (name_map hm) e (name_hash n) n' \<Longrightarrow> n' = n"
  shows "\<exists>hm'. flecs_name_index_update_name hm e (name_hash n) n = Inr (hm', name_map hm n = Some e) \<and>
    name_index_inv hm' \<and> name_map hm' = name_map hm"
proof (rule hm_bucket_cases [OF inv, of "name_hash n"])
  assume "flecs_hashmap_get_bucket hm (name_hash n) = Inr None" "map_lookup (hm_impl hm) (name_hash n) = None"
  then show ?thesis using inv name_map_no_bucket [OF inv, of n] by (simp add: flecs_name_index_update_name_def)
next
  fix b assume b: "flecs_hashmap_get_bucket hm (name_hash n) = Inr (Some b)" "map_lookup (hm_impl hm) (name_hash n) = Some (Some b)"
  show ?thesis
  proof (rule id_find_cases [OF inv b(2), of e])
    assume "id_find_from e (hmb_values b) [0..<ecs_vec_count (hmb_values b)] = Inr None"
      "\<And>n'. \<not> entity_name (name_map hm) e (name_hash n) n'"
    then show ?thesis using inv b(1) by (auto simp: flecs_name_index_update_name_def entity_name_def)
  next
    fix i n' assume i: "id_find_from e (hmb_values b) [0..<ecs_vec_count (hmb_values b)] = Inr (Some i)" "i < vec_count (hmb_keys b)"
      "vec_elems (hmb_keys b) ! i = name_key n'" "entity_name (name_map hm) e (name_hash n) n'"
    have n: "n' = n" "name_map hm n = Some e" using unique [OF i(4)] i(4) by (simp_all add: entity_name_def)
    have hm: "hm_for key_ok flecs_name_index_hash flecs_name_index_compare hm"
      and size: "hm_key_size hm = hashed_string_size" "hm_value_size hm = uint64_size" using inv by (simp_all add: name_index_inv_def)
    have vk: "vec_ok (hmb_keys b)" using name_bucket(1) [OF inv b(2)] by (simp add: bucket_ok_def)
    obtain m where m: "hm_store_key hm (name_hash n, i) (hs_value_update (\<lambda>_. n)) = Inr (hm\<lparr>hm_impl := m\<rparr>)"
      "hm_for key_ok flecs_name_index_hash flecs_name_index_compare (hm\<lparr>hm_impl := m\<rparr>)"
      "\<forall>k. hm_look (hm\<lparr>hm_impl := m\<rparr>) k = hm_look hm k"
      using names.store_key_ok [OF hm b(2) i(2), of "hs_value_update (\<lambda>_. n)"] i(3) n(1) by auto
    have "name_map (hm\<lparr>hm_impl := m\<rparr>) = name_map hm" using m(3) by (intro name_mapI) (auto simp: name_map_def)
    moreover have "flecs_name_index_update_name hm e (name_hash n) n = Inr (hm\<lparr>hm_impl := m\<rparr>, True)"
      using b(1) i(1-3) n(1) m(1) vk by (simp add: flecs_name_index_update_name_def)
    ultimately show ?thesis using m(2) size n(2) by (simp add: name_index_inv_def)
  qed
qed

section \<open>Refinement\<close>

text \<open>
  The operations of an index, as events.  A length or a hash that the caller passes has to be right or 0,
  and the index must not hold an entity twice under names with the same hash: removal and update look for
  the entity, not for the name.
\<close>

datatype name_op =
    Name_ensure u64 "byte list" nat u64
  | Name_find "byte list" nat u64
  | Name_remove u64 u64
  | Name_update u64 u64 "byte list"

datatype name_result = Done | Found u64 | Updated bool

fun name_step :: "name_op \<Rightarrow> name_index \<Rightarrow> (name_index \<times> name_result) res" where
  "name_step (Name_ensure e n len h) hm = bindr (flecs_name_index_ensure hm e (Some n) len h) (\<lambda>hm. Inr (hm, Done))"
| "name_step (Name_find n len h) hm = bindr (flecs_name_index_find hm n len h) (\<lambda>e. Inr (hm, Found e))"
| "name_step (Name_remove e h) hm = bindr (flecs_name_index_remove hm e h) (\<lambda>hm. Inr (hm, Done))"
| "name_step (Name_update e h n) hm = bindr (flecs_name_index_update_name hm e h n) (\<lambda>(hm, r). Inr (hm, Updated r))"

fun name_spec :: "name_op \<Rightarrow> (byte list \<rightharpoonup> u64) \<Rightarrow> (byte list \<rightharpoonup> u64) \<times> name_result" where
  "name_spec (Name_ensure e n len h) m = (m(n \<mapsto> e), Done)"
| "name_spec (Name_find n len h) m = (m, Found (case m n of None \<Rightarrow> 0 | Some e \<Rightarrow> e))"
| "name_spec (Name_remove e h) m = (\<lambda>n. if entity_name m e h n then None else m n, Done)"
| "name_spec (Name_update e h n) m = (m, Updated (m n = Some e))"

fun name_enabled :: "name_op \<Rightarrow> (byte list \<rightharpoonup> u64) \<Rightarrow> bool" where
  "name_enabled (Name_ensure e n len h) m \<longleftrightarrow>
     name_ok n \<and> len \<in> {0, length n} \<and> h \<in> {0, name_hash n} \<and> card (dom m) + 1 < 2 ^ 26"
| "name_enabled (Name_find n len h) m \<longleftrightarrow> name_ok n \<and> len \<in> {0, length n} \<and> h \<in> {0, name_hash n}"
| "name_enabled (Name_remove e h) m \<longleftrightarrow> (\<forall>n n'. entity_name m e h n \<longrightarrow> entity_name m e h n' \<longrightarrow> n = n')"
| "name_enabled (Name_update e h n) m \<longleftrightarrow> h = name_hash n \<and> (\<forall>n'. entity_name m e h n' \<longrightarrow> n' = n)"

lemma name_step_ok:
  assumes inv: "name_index_inv hm" and en: "name_enabled op (name_map hm)"
  shows "\<exists>hm' r. name_step op hm = Inr (hm', r) \<and> name_index_inv hm' \<and> name_spec op (name_map hm) = (name_map hm', r)"
proof (cases op)
  case (Name_ensure e n len h)
  then show ?thesis using name_index_ensure_ok [OF inv, of n len h e] en by auto
next
  case (Name_find n len h)
  then show ?thesis using name_index_find_ok [OF inv, of n len h] en inv by auto
next
  case (Name_remove e h)
  have "\<exists>hm'. flecs_name_index_remove hm e h = Inr hm' \<and> name_index_inv hm' \<and>
      name_map hm' = (\<lambda>n. if entity_name (name_map hm) e h n then None else name_map hm n)"
    using en Name_remove by (intro name_index_remove_ok [OF inv]) simp
  then show ?thesis using Name_remove by auto
next
  case (Name_update e h n)
  then have h: "h = name_hash n" and u: "\<And>n'. entity_name (name_map hm) e (name_hash n) n' \<Longrightarrow> n' = n"
    using en unfolding Name_update name_enabled.simps by blast+
  obtain hm' where "flecs_name_index_update_name hm e (name_hash n) n = Inr (hm', name_map hm n = Some e)"
    "name_index_inv hm'" "name_map hm' = name_map hm"
    using name_index_update_ok [OF inv u] by blast
  then show ?thesis by (simp add: Name_update h)
qed

interpretation name_sim: simulation name_index_inv name_map name_step name_spec name_enabled
  by unfold_locales (rule name_step_ok)

text \<open>
  C13: an index that starts with \<open>flecs_name_index_init\<close> is a map from names to entities.  Whatever sequence of
  \<open>ensure\<close>, \<open>find\<close>, \<open>remove\<close> and \<open>update_name\<close> calls is made, with lengths and hashes that are computed or
  passed in, every call returns and answers like the map: names with equal hashes are kept apart, and a name
  that is not in the index gives 0.  This holds as long as the index has less than \<open>2 ^ 26 - 1\<close> names and
  \<open>remove\<close> and \<open>update_name\<close> are called for entities that the bucket of the hash holds at most once.
\<close>

theorem name_index_refines_map:
  assumes "run_enabled name_spec name_enabled ops Map.empty"
  shows "\<exists>hm0 hm rs. flecs_name_index_init = Inr hm0 \<and> run_ops name_step ops hm0 = Inr (hm, rs) \<and>
    run_spec name_spec ops Map.empty = (name_map hm, rs)"
proof -
  obtain hm0 where hm0: "flecs_name_index_init = Inr hm0" "name_index_inv hm0" "name_map hm0 = Map.empty"
    using name_index_init_ok by blast
  from name_sim.run_refines [OF hm0(2), of ops] assms hm0(1,3) show ?thesis by auto
qed

lemma sample_names:
  "name_hash [102, 111, 111] = 12196999802646554727" "name_ok [102, 111, 111]" "name_ok [98, 97, 114]"
proof -
  have h: "name_hash [102, 111, 111] = 12196999802646554727" "name_hash [98, 97, 114] \<noteq> 0" by code_simp+
  then show "name_hash [102, 111, 111] = 12196999802646554727" "name_ok [102, 111, 111]" "name_ok [98, 97, 114]"
    by (simp_all add: name_ok_def)
qed

theorem name_index_refines_map_witness:
  "\<exists>hm0 hm. flecs_name_index_init = Inr hm0 \<and>
     run_ops name_step [Name_ensure 5 [102, 111, 111] 3 0, Name_ensure 6 [98, 97, 114] 0 0,
       Name_find [102, 111, 111] 0 12196999802646554727, Name_update 5 12196999802646554727 [102, 111, 111],
       Name_remove 5 12196999802646554727, Name_find [102, 111, 111] 0 0, Name_find [98, 97, 114] 0 0] hm0 =
       Inr (hm, [Done, Done, Found 5, Updated True, Done, Found 0, Found 6])"
proof -
  let ?ops = "[Name_ensure 5 [102, 111, 111] 3 0, Name_ensure 6 [98, 97, 114] 0 0,
       Name_find [102, 111, 111] 0 12196999802646554727, Name_update 5 12196999802646554727 [102, 111, 111],
       Name_remove 5 12196999802646554727, Name_find [102, 111, 111] 0 0, Name_find [98, 97, 114] 0 0]"
  have "run_enabled name_spec name_enabled ?ops Map.empty"
    by (auto simp: sample_names entity_name_def split: if_splits)
  from name_index_refines_map [OF this] obtain hm0 hm rs where
    R: "flecs_name_index_init = Inr hm0" "run_ops name_step ?ops hm0 = Inr (hm, rs)"
    "run_spec name_spec ?ops Map.empty = (name_map hm, rs)" by blast
  have "rs = [Done, Done, Found 5, Updated True, Done, Found 0, Found 6]"
    using R(3) by (auto simp: entity_name_def sample_names)
  with R(1,2) show ?thesis by blast
qed

text \<open>
  \<open>flecs_name_index_update_name\<close> refuses a string that is not a copy of the name it replaces: when the entity
  is in the index under a name with the hash, a new string with another length or another hash aborts, so
  a key can never be moved away from the bucket it is in.
\<close>

theorem name_index_update_refuses_other_name:
  assumes inv: "name_index_inv hm" and n: "name_map hm n = Some e"
    and unique: "\<And>n'. entity_name (name_map hm) e (name_hash n) n' \<Longrightarrow> n' = n"
    and other: "length n' \<noteq> length n \<or> name_hash n' \<noteq> name_hash n"
  shows "flecs_name_index_update_name hm e (name_hash n) n' = Inl (Abort ECS_INTERNAL_ERROR)"
proof (rule hm_bucket_cases [OF inv, of "name_hash n"])
  assume "map_lookup (hm_impl hm) (name_hash n) = None"
  then show ?thesis using name_map_no_bucket [OF inv] n by simp
next
  fix b assume b: "flecs_hashmap_get_bucket hm (name_hash n) = Inr (Some b)" "map_lookup (hm_impl hm) (name_hash n) = Some (Some b)"
  have wf: "map_wf (hm_impl hm)" using inv by (simp add: name_index_inv_def hm_for_def hm_wf_def)
  have vk: "vec_ok (hmb_keys b)" using name_bucket(1) [OF inv b(2)] by (simp add: bucket_ok_def)
  show ?thesis
  proof (rule id_find_cases [OF inv b(2), of e])
    assume "\<And>n'. \<not> entity_name (name_map hm) e (name_hash n) n'"
    then show ?thesis using n by (auto simp: entity_name_def)
  next
    fix i n2 assume i: "id_find_from e (hmb_values b) [0..<ecs_vec_count (hmb_values b)] = Inr (Some i)" "i < vec_count (hmb_keys b)"
      "vec_elems (hmb_keys b) ! i = name_key n2" "entity_name (name_map hm) e (name_hash n) n2"
    have n2: "n2 = n" using unique [OF i(4)] .
    let ?b = "b\<lparr>hmb_keys := vec_upd (hmb_keys b) i (name_key n\<lparr>hs_value := n'\<rparr>)\<rparr>"
    obtain m where "hm_store_key hm (name_hash n, i) (hs_value_update (\<lambda>_. n')) = Inr (hm\<lparr>hm_impl := m\<rparr>)"
      using hm_bucket_ok(1) [OF wf b(2)] hm_bucket_ok(2) [OF wf b(2), of ?b] vk i(2,3) n2 by (auto simp: hm_store_key_def)
    then show ?thesis using b(1) i(1-3) vk n2 other flecs_hash_name [of n'] by (cases "length n' = length n") (simp_all add: flecs_name_index_update_name_def)
  qed
qed

theorem name_index_update_refuses_other_name_witness:
  "\<exists>hm0 hm. flecs_name_index_init = Inr hm0 \<and> flecs_name_index_ensure hm0 5 (Some [102, 111, 111]) 0 0 = Inr hm \<and>
     flecs_name_index_update_name hm 5 12196999802646554727 [102, 111] = Inl (Abort ECS_INTERNAL_ERROR)"
proof -
  obtain hm0 where hm0: "flecs_name_index_init = Inr hm0" "name_index_inv hm0" "name_map hm0 = Map.empty"
    using name_index_init_ok by blast
  obtain hm where hm: "flecs_name_index_ensure hm0 5 (Some [102, 111, 111]) 0 0 = Inr hm" "name_index_inv hm"
    "name_map hm = [[102, 111, 111] \<mapsto> 5]"
    using name_index_ensure_ok [OF hm0(2) sample_names(2), of 0 0 5] hm0(3) by auto
  have "flecs_name_index_update_name hm 5 (name_hash [102, 111, 111]) [102, 111] = Inl (Abort ECS_INTERNAL_ERROR)"
  proof (rule name_index_update_refuses_other_name [OF hm(2)])
    show "name_map hm [102, 111, 111] = Some 5" using hm(3) by simp
    show "n' = [102, 111, 111]" if "entity_name (name_map hm) 5 (name_hash [102, 111, 111]) n'" for n'
      using that hm(3) by (simp add: entity_name_def split: if_splits)
    show "length [102, 111 :: byte] \<noteq> length [102, 111, 111 :: byte] \<or> name_hash [102, 111] \<noteq> name_hash [102, 111, 111]" by simp
  qed
  then show ?thesis using hm0(1) hm(1) unfolding sample_names(1) by (intro exI [of _ hm0] exI [of _ hm]) simp
qed

end
