(* ===== verification/TableCache.thy ===== *)
theory TableCache
  imports Ecs_Map
begin

text \<open>
  The table cache of \<open>src/storage/table_cache.c\<close>: for every component, the tables that have it.  The elements
  are table records that belong to their tables; each has a header that links it into a doubly linked list,
  and a map takes the id of a table to its element.

  The headers are cells of an explicit memory, because the same record is reached from the list, from the map
  and from the table that owns it.  A pointer is the address of a cell, \<open>None\<close> the null pointer; following a
  pointer to a cell that is not allocated is undefined.  The cache itself is a value together with its own
  address \<open>self\<close>, which the elements refer back to.  Of a table the cache reads the id and the number of
  entities.  The counter (\<open>int32_t\<close>) is an integer.
\<close>

section \<open>State\<close>

type_synonym ptr = nat

record ecs_table_cache_hdr_t =
  th_cr :: "ptr option"
  th_table :: "ptr option"
  th_prev :: "ptr option"
  th_next :: "ptr option"

record cached_table_t =
  tbl_id :: u64
  tbl_count :: nat

record cache_memory =
  mem_hdrs :: "ptr \<Rightarrow> ecs_table_cache_hdr_t option"
  mem_tables :: "ptr \<Rightarrow> cached_table_t option"

record ecs_table_cache_t =
  tc_index :: "ptr option ecs_map_t"
  tc_first :: "ptr option"
  tc_last :: "ptr option"
  tc_count :: int

definition zero_hdr :: ecs_table_cache_hdr_t where
  "zero_hdr = \<lparr>th_cr = None, th_table = None, th_prev = None, th_next = None\<rparr>"

section \<open>Operations\<close>

definition deref :: "(ptr \<Rightarrow> 'a option) \<Rightarrow> ptr option \<Rightarrow> 'a res" where
  "deref cells p =
     (case p of None \<Rightarrow> Inl Undefined | Some p \<Rightarrow> (case cells p of None \<Rightarrow> Inl Undefined | Some x \<Rightarrow> Inr x))"

definition hdr_modify ::
  "cache_memory \<Rightarrow> ptr option \<Rightarrow> (ecs_table_cache_hdr_t \<Rightarrow> ecs_table_cache_hdr_t) \<Rightarrow> cache_memory res" where
  "hdr_modify mem p f =
     bindr (deref (mem_hdrs mem) p) (\<lambda>h. Inr (mem\<lparr>mem_hdrs := (mem_hdrs mem)(the p \<mapsto> f h)\<rparr>))"

definition ecs_table_count :: "cache_memory \<Rightarrow> ptr option \<Rightarrow> nat res" where
  "ecs_table_count mem table =
     bindr (ecs_assert (table \<noteq> None) ECS_INTERNAL_ERROR) (\<lambda>_.
     bindr (deref (mem_tables mem) table) (\<lambda>t. Inr (tbl_count t)))"

definition flecs_table_cache_list_remove ::
  "cache_memory \<Rightarrow> ecs_table_cache_t \<Rightarrow> ptr option \<Rightarrow> (cache_memory \<times> ecs_table_cache_t) res" where
  "flecs_table_cache_list_remove mem cache elem =
     bindr (deref (mem_hdrs mem) elem) (\<lambda>h.
     let next = th_next h; prev = th_prev h in
     bindr (if next \<noteq> None then hdr_modify mem next (th_prev_update (\<lambda>_. prev)) else Inr mem) (\<lambda>mem.
     bindr (if prev \<noteq> None then hdr_modify mem prev (th_next_update (\<lambda>_. next)) else Inr mem) (\<lambda>mem.
     let cache = cache\<lparr>tc_count := tc_count cache - 1\<rparr>;
         cache = (if tc_first cache = elem then cache\<lparr>tc_first := next\<rparr> else cache);
         cache = (if tc_last cache = elem then cache\<lparr>tc_last := prev\<rparr> else cache) in
     bindr (ecs_assert (tc_first cache = None \<or> tc_count cache \<noteq> 0) ECS_INTERNAL_ERROR) (\<lambda>_.
     bindr (ecs_assert (tc_first cache = None \<or> tc_last cache \<noteq> None) ECS_INTERNAL_ERROR) (\<lambda>_.
     Inr (mem, cache))))))"

definition flecs_table_cache_list_insert ::
  "cache_memory \<Rightarrow> ecs_table_cache_t \<Rightarrow> ptr option \<Rightarrow> (cache_memory \<times> ecs_table_cache_t) res" where
  "flecs_table_cache_list_insert mem cache elem =
     (let last = tc_last cache;
          cache = cache\<lparr>tc_last := elem, tc_count := tc_count cache + 1\<rparr>;
          cache = (if tc_count cache = 1 then cache\<lparr>tc_first := elem\<rparr> else cache) in
      bindr (hdr_modify mem elem (\<lambda>h. h\<lparr>th_next := None, th_prev := last\<rparr>)) (\<lambda>mem.
      bindr (if last \<noteq> None then hdr_modify mem last (th_next_update (\<lambda>_. elem)) else Inr mem) (\<lambda>mem.
      bindr (ecs_assert (tc_count cache \<noteq> 1 \<or> tc_first cache = tc_last cache) ECS_INTERNAL_ERROR) (\<lambda>_.
      Inr (mem, cache)))))"

text \<open>The list of a new cache is zeroed memory.\<close>

definition ecs_table_cache_init :: "ecs_table_cache_t res" where
  "ecs_table_cache_init =
     bindr ecs_map_init (\<lambda>index. Inr \<lparr>tc_index = index, tc_first = None, tc_last = None, tc_count = 0\<rparr>)"

definition ecs_table_cache_fini :: "ecs_table_cache_t \<Rightarrow> ecs_table_cache_t" where
  "ecs_table_cache_fini cache = cache\<lparr>tc_index := ecs_map_fini (tc_index cache)\<rparr>"

definition ecs_table_cache_get :: "cache_memory \<Rightarrow> ecs_table_cache_t \<Rightarrow> ptr option \<Rightarrow> ptr option res" where
  "ecs_table_cache_get mem cache table =
     bindr (ecs_assert (table \<noteq> None) ECS_INTERNAL_ERROR) (\<lambda>_.
     bindr (ecs_assert (ecs_map_is_init (tc_index cache)) ECS_INTERNAL_ERROR) (\<lambda>_.
     bindr (deref (mem_tables mem) table) (\<lambda>t.
     ecs_map_get_deref None (tc_index cache) (tbl_id t))))"

definition ecs_table_cache_insert ::
  "ptr \<Rightarrow> cache_memory \<Rightarrow> ecs_table_cache_t \<Rightarrow> ptr option \<Rightarrow> ptr option \<Rightarrow> (cache_memory \<times> ecs_table_cache_t) res" where
  "ecs_table_cache_insert self mem cache table result =
     bindr (ecs_table_cache_get mem cache table) (\<lambda>old.
     bindr (ecs_assert (old = None) ECS_INTERNAL_ERROR) (\<lambda>_.
     bindr (ecs_assert (result \<noteq> None) ECS_INTERNAL_ERROR) (\<lambda>_.
     bindr (hdr_modify mem result (\<lambda>h. h\<lparr>th_cr := Some self, th_table := table\<rparr>)) (\<lambda>mem.
     bindr (flecs_table_cache_list_insert mem cache result) (\<lambda>(mem, cache).
     bindr (ecs_assert (table \<noteq> None) ECS_INTERNAL_ERROR) (\<lambda>_.
     bindr (deref (mem_tables mem) table) (\<lambda>t.
     bindr (ecs_map_insert (tc_index cache) (tbl_id t) result) (\<lambda>index.
     let cache = cache\<lparr>tc_index := index\<rparr> in
     bindr (ecs_assert (tc_first cache \<noteq> None) ECS_INTERNAL_ERROR) (\<lambda>_.
     Inr (mem, cache))))))))))"

definition ecs_table_cache_replace ::
  "cache_memory \<Rightarrow> ecs_table_cache_t \<Rightarrow> ptr option \<Rightarrow> ptr option \<Rightarrow> (cache_memory \<times> ecs_table_cache_t) res" where
  "ecs_table_cache_replace mem cache table elem =
     bindr (deref (mem_tables mem) table) (\<lambda>t.
     bindr (ecs_map_get (tc_index cache) (tbl_id t)) (\<lambda>r.
     bindr (ecs_assert (r \<noteq> None) ECS_INTERNAL_ERROR) (\<lambda>_.
     let old = the r in
     bindr (ecs_assert (old \<noteq> None) ECS_INTERNAL_ERROR) (\<lambda>_.
     bindr (deref (mem_hdrs mem) old) (\<lambda>h.
     let prev = th_prev h; next = th_next h in
     bindr (if prev \<noteq> None then
              bindr (deref (mem_hdrs mem) prev) (\<lambda>p.
              bindr (ecs_assert (th_next p = old) ECS_INTERNAL_ERROR) (\<lambda>_.
              hdr_modify mem prev (th_next_update (\<lambda>_. elem))))
            else Inr mem) (\<lambda>mem.
     bindr (if next \<noteq> None then
              bindr (deref (mem_hdrs mem) next) (\<lambda>n.
              bindr (ecs_assert (th_prev n = old) ECS_INTERNAL_ERROR) (\<lambda>_.
              hdr_modify mem next (th_prev_update (\<lambda>_. elem))))
            else Inr mem) (\<lambda>mem.
     let cache = (if tc_first cache = old then cache\<lparr>tc_first := elem\<rparr> else cache);
         cache = (if tc_last cache = old then cache\<lparr>tc_last := elem\<rparr> else cache) in
     bindr (ecs_map_store (tc_index cache) (tbl_id t) elem) (\<lambda>index.
     bindr (hdr_modify mem elem (\<lambda>h. h\<lparr>th_prev := prev, th_next := next\<rparr>)) (\<lambda>mem.
     Inr (mem, cache\<lparr>tc_index := index\<rparr>))))))))))"

definition ecs_table_cache_remove ::
  "ptr \<Rightarrow> cache_memory \<Rightarrow> ecs_table_cache_t \<Rightarrow> u64 \<Rightarrow> ptr option \<Rightarrow> (cache_memory \<times> ecs_table_cache_t) res" where
  "ecs_table_cache_remove self mem cache table_id elem =
     bindr (ecs_assert (elem \<noteq> None) ECS_INTERNAL_ERROR) (\<lambda>_.
     bindr (deref (mem_hdrs mem) elem) (\<lambda>h.
     bindr (ecs_assert (th_cr h = Some self) ECS_INTERNAL_ERROR) (\<lambda>_.
     bindr (flecs_table_cache_list_remove mem cache elem) (\<lambda>(mem, cache).
     bindr (ecs_map_remove (tc_index cache) table_id) (\<lambda>(index, _).
     Inr (mem, cache\<lparr>tc_index := index\<rparr>))))))"

text \<open>Iterators.  The result of starting one tells whether there is an element at all.\<close>

record ecs_table_cache_iter_t =
  ti_cur :: "ptr option"
  ti_next :: "ptr option"
  ti_fill :: bool
  ti_empty :: bool

definition flecs_table_cache_iter :: "ecs_table_cache_t \<Rightarrow> ecs_table_cache_iter_t \<times> bool" where
  "flecs_table_cache_iter cache =
     (\<lparr>ti_cur = None, ti_next = tc_first cache, ti_fill = True, ti_empty = False\<rparr>, tc_first cache \<noteq> None)"

definition flecs_table_cache_empty_iter :: "ecs_table_cache_t \<Rightarrow> ecs_table_cache_iter_t \<times> bool" where
  "flecs_table_cache_empty_iter cache =
     (\<lparr>ti_cur = None, ti_next = tc_first cache, ti_fill = False, ti_empty = True\<rparr>, tc_first cache \<noteq> None)"

definition flecs_table_cache_all_iter :: "ecs_table_cache_t \<Rightarrow> ecs_table_cache_iter_t \<times> bool" where
  "flecs_table_cache_all_iter cache =
     (\<lparr>ti_cur = None, ti_next = tc_first cache, ti_fill = True, ti_empty = True\<rparr>, tc_first cache \<noteq> None)"

text \<open>
  The \<open>repeat\<close> loop skips the elements that the iterator does not want; the fuel bounds the number of elements
  it looks at, and the outer \<open>None\<close> says that it ran out.
\<close>

fun flecs_table_cache_next ::
  "nat \<Rightarrow> cache_memory \<Rightarrow> ecs_table_cache_iter_t \<Rightarrow> (ecs_table_cache_iter_t \<times> ptr option) option res" where
  "flecs_table_cache_next 0 mem it = Inr None"
| "flecs_table_cache_next (Suc n) mem it =
     (let next = ti_next it; it = it\<lparr>ti_cur := next\<rparr> in
      if next = None then Inr (Some (it, None))
      else
        bindr (deref (mem_hdrs mem) next) (\<lambda>h.
        let it = it\<lparr>ti_next := th_next h\<rparr> in
        bindr (ecs_table_count mem (th_table h)) (\<lambda>count.
        if count \<noteq> 0 then
          (if \<not> ti_fill it then flecs_table_cache_next n mem it else Inr (Some (it, next)))
        else
          (if \<not> ti_empty it then flecs_table_cache_next n mem it else Inr (Some (it, next))))))"

text \<open>A whole iteration, \<open>while ((elem = flecs_table_cache_next(&it)))\<close>, that collects the elements.\<close>

fun table_cache_collect :: "nat \<Rightarrow> cache_memory \<Rightarrow> ecs_table_cache_iter_t \<Rightarrow> ptr list option res" where
  "table_cache_collect 0 mem it = Inr None"
| "table_cache_collect (Suc n) mem it =
     bindr (flecs_table_cache_next (Suc n) mem it) (\<lambda>r.
     case r of
       None \<Rightarrow> Inr None
     | Some (it, None) \<Rightarrow> Inr (Some [])
     | Some (it, Some p) \<Rightarrow> bindr (table_cache_collect n mem it) (\<lambda>ps. Inr (map_option (Cons p) ps)))"

end
