(* ===== verification/TableCache_Facts.thy ===== *)
theory TableCache_Facts
  imports TableCache
begin

text \<open>
  The table cache as a list of elements in the order of insertion: the doubly linked list as a predicate over
  the memory, the invariant that connects list, map and elements, and the refinement of the operations.
\<close>

section \<open>Doubly linked segments\<close>

fun hd_ptr :: "ptr list \<Rightarrow> ptr option \<Rightarrow> ptr option" where
  "hd_ptr [] d = d"
| "hd_ptr (p # ps) d = Some p"

definition last_ptr :: "ptr option \<Rightarrow> ptr list \<Rightarrow> ptr option" where
  "last_ptr d ps = (if ps = [] then d else Some (last ps))"

lemma last_ptr_simps [simp]: "last_ptr d [] = d" "last_ptr d (p # ps) = last_ptr (Some p) ps"
  "last_ptr d (ps @ [p]) = Some p"
  by (simp_all add: last_ptr_def)

lemma hd_ptr_append [simp]: "hd_ptr (xs @ ys) d = hd_ptr xs (hd_ptr ys d)"
  by (cases xs) simp_all

lemma last_ptr_append [simp]: "last_ptr d (xs @ ys) = last_ptr (last_ptr d xs) ys"
  by (simp add: last_ptr_def)

lemma hd_ptr_None [simp]: "hd_ptr ps None = None \<longleftrightarrow> ps = []" "hd_ptr ps (Some p) \<noteq> None"
  by (cases ps; simp)+

lemma hd_ptr_Some [simp]: "\<exists>q. hd_ptr ps (Some p) = Some q"
  by (cases ps) simp_all

lemma last_ptr_None [simp]: "last_ptr None ps = None \<longleftrightarrow> ps = []" "last_ptr (Some p) ps \<noteq> None"
  by (simp_all add: last_ptr_def)

lemma ptr_in:
  "hd_ptr ps None = Some p \<Longrightarrow> p \<in> set ps" "last_ptr None ps = Some p \<Longrightarrow> p \<in> set ps"
  by (cases ps) (auto simp: last_ptr_def split: if_splits)

text \<open>The elements \<open>ps\<close> are linked to each other, the first one back to \<open>pre\<close> and the last one on to \<open>post\<close>.\<close>

fun dseg :: "(ptr \<Rightarrow> ecs_table_cache_hdr_t option) \<Rightarrow> ptr option \<Rightarrow> ptr list \<Rightarrow> ptr option \<Rightarrow> bool" where
  "dseg H pre [] post \<longleftrightarrow> True"
| "dseg H pre (p # ps) post \<longleftrightarrow>
     (\<exists>h. H p = Some h \<and> th_prev h = pre \<and> th_next h = hd_ptr ps post) \<and> dseg H (Some p) ps post"

lemma dseg_append: "dseg H pre (xs @ ys) post \<longleftrightarrow> dseg H pre xs (hd_ptr ys post) \<and> dseg H (last_ptr pre xs) ys post"
  by (induction xs arbitrary: pre) auto

lemma dseg_cong: "(\<And>p. p \<in> set ps \<Longrightarrow> H' p = H p) \<Longrightarrow> dseg H' pre ps post \<longleftrightarrow> dseg H pre ps post"
  by (induction ps arbitrary: pre) auto

text \<open>Changing one link of a cell, if there is one.\<close>

definition link_prev ::
  "(ptr \<Rightarrow> ecs_table_cache_hdr_t option) \<Rightarrow> ptr option \<Rightarrow> ptr option \<Rightarrow> ptr \<Rightarrow> ecs_table_cache_hdr_t option" where
  "link_prev H n q = (case n of None \<Rightarrow> H | Some p \<Rightarrow> H(p := map_option (th_prev_update (\<lambda>_. q)) (H p)))"

definition link_next ::
  "(ptr \<Rightarrow> ecs_table_cache_hdr_t option) \<Rightarrow> ptr option \<Rightarrow> ptr option \<Rightarrow> ptr \<Rightarrow> ecs_table_cache_hdr_t option" where
  "link_next H n q = (case n of None \<Rightarrow> H | Some p \<Rightarrow> H(p := map_option (th_next_update (\<lambda>_. q)) (H p)))"

lemma link_other [simp]: "n \<noteq> Some p \<Longrightarrow> link_prev H n q p = H p" "n \<noteq> Some p \<Longrightarrow> link_next H n q p = H p"
  by (auto simp: link_prev_def link_next_def split: option.split)

lemma dseg_link_prev:
  assumes "distinct ys" and "dseg H pre ys post"
  shows "dseg (link_prev H (hd_ptr ys None) q) q ys post"
proof (cases ys)
  case (Cons y zs)
  have "dseg (link_prev H (Some y) q) (Some y) zs post \<longleftrightarrow> dseg H (Some y) zs post"
    using assms(1) Cons by (intro dseg_cong link_other(1)) auto
  then show ?thesis using assms Cons by (auto simp: link_prev_def)
qed simp

lemma dseg_link_next:
  assumes "distinct xs" and "dseg H pre xs post"
  shows "dseg (link_next H (last_ptr None xs) q) pre xs q"
proof (cases xs rule: rev_cases)
  case (snoc zs x)
  have "dseg (link_next H (Some x) q) pre zs (Some x) \<longleftrightarrow> dseg H pre zs (Some x)"
    using assms(1) snoc by (intro dseg_cong link_other(2)) auto
  then show ?thesis using assms snoc by (auto simp: dseg_append link_next_def)
qed simp

lemma link_commute: "link_next (link_prev H n b) p a = link_prev (link_next H p a) n b"
proof -
  have c: "map_option (th_next_update (\<lambda>_. a)) (map_option (th_prev_update (\<lambda>_. b)) x) =
      map_option (th_prev_update (\<lambda>_. b)) (map_option (th_next_update (\<lambda>_. a)) x)" for x :: "ecs_table_cache_hdr_t option"
    by (cases x) simp_all
  show ?thesis by (auto simp: link_prev_def link_next_def fun_eq_iff intro: c split: option.split)
qed

lemma dseg_ends:
  "dseg H pre ps post \<Longrightarrow> last_ptr None ps = Some p \<Longrightarrow> \<exists>h. H p = Some h \<and> th_next h = post"
  "dseg H pre ps post \<Longrightarrow> hd_ptr ps None = Some p \<Longrightarrow> \<exists>h. H p = Some h \<and> th_prev h = pre"
  by (cases ps rule: rev_cases; auto simp: dseg_append) (cases ps; auto)

lemma deref_simps [simp]: "deref cells (Some p) = (case cells p of None \<Rightarrow> Inl Undefined | Some x \<Rightarrow> Inr x)"
  "deref cells None = Inl Undefined"
  by (simp_all add: deref_def)

lemma hdr_modify_ok: "mem_hdrs mem p = Some h \<Longrightarrow>
    hdr_modify mem (Some p) f = Inr (mem\<lparr>mem_hdrs := (mem_hdrs mem)(p \<mapsto> f h)\<rparr>)"
  by (simp add: hdr_modify_def)

text \<open>What the list does not touch: the component record and the table of an element.\<close>

definition elem_info :: "(ptr \<Rightarrow> ecs_table_cache_hdr_t option) \<Rightarrow> ptr \<Rightarrow> (ptr option \<times> ptr option) option" where
  "elem_info H p = map_option (\<lambda>h. (th_cr h, th_table h)) (H p)"

lemma elem_info_link [simp]: "elem_info (link_prev H n q) = elem_info H" "elem_info (link_next H n q) = elem_info H"
  by (auto simp: elem_info_def link_prev_def link_next_def fun_eq_iff option.map_comp comp_def split: option.split)

lemma elem_info_upd [simp]: "q \<noteq> p \<Longrightarrow> elem_info (H(p := x)) q = elem_info H q"
  "elem_info (H(p \<mapsto> h)) p = Some (th_cr h, th_table h)"
  by (simp_all add: elem_info_def)

lemma elem_info_alloc: "elem_info H p \<noteq> None \<longleftrightarrow> H p \<noteq> None"
  by (simp add: elem_info_def)

lemma link_run:
  assumes "\<And>p. n = Some p \<Longrightarrow> elem_info (mem_hdrs mem) p \<noteq> None"
  shows "(if n \<noteq> None then hdr_modify mem n (th_prev_update (\<lambda>_. q)) else Inr mem) = Inr (mem\<lparr>mem_hdrs := link_prev (mem_hdrs mem) n q\<rparr>)"
    and "(if n \<noteq> None then hdr_modify mem n (th_next_update (\<lambda>_. q)) else Inr mem) = Inr (mem\<lparr>mem_hdrs := link_next (mem_hdrs mem) n q\<rparr>)"
  using assms by (auto simp: hdr_modify_def link_prev_def link_next_def elem_info_def split: option.split)

section \<open>The invariant\<close>

definition elem_table :: "(ptr \<Rightarrow> ecs_table_cache_hdr_t option) \<Rightarrow> ptr \<Rightarrow> ptr" where
  "elem_table H p = the (snd (the (elem_info H p)))"

definition table_id :: "(ptr \<Rightarrow> cached_table_t option) \<Rightarrow> ptr \<Rightarrow> u64" where
  "table_id tables t = tbl_id (the (tables t))"

text \<open>An element: its table and its address.  The cache is a list of them in which every id is unique.\<close>

definition cache_index :: "(ptr \<Rightarrow> cached_table_t option) \<Rightarrow> (ptr \<times> ptr) list \<Rightarrow> u64 \<Rightarrow> ptr option" where
  "cache_index tables es = map_of (map (\<lambda>(t, p). (table_id tables t, p)) es)"

definition cache_rel :: "ptr \<Rightarrow> cache_memory \<Rightarrow> ecs_table_cache_t \<Rightarrow> (ptr \<times> ptr) list \<Rightarrow> bool" where
  "cache_rel self mem cache es \<longleftrightarrow>
     dseg (mem_hdrs mem) None (map snd es) None \<and> distinct (map snd es) \<and>
     tc_first cache = hd_ptr (map snd es) None \<and> tc_last cache = last_ptr None (map snd es) \<and>
     tc_count cache = int (length es) \<and>
     map_wf (tc_index cache) \<and> map_lookup (tc_index cache) = (\<lambda>k. map_option Some (cache_index (mem_tables mem) es k)) \<and>
     distinct (map (\<lambda>(t, p). table_id (mem_tables mem) t) es) \<and>
     (\<forall>(t, p) \<in> set es. elem_info (mem_hdrs mem) p = Some (Some self, Some t) \<and> mem_tables mem t \<noteq> None)"

lemma cache_relD:
  assumes "cache_rel self mem cache es"
  shows "dseg (mem_hdrs mem) None (map snd es) None" "distinct (map snd es)"
    "tc_first cache = hd_ptr (map snd es) None" "tc_last cache = last_ptr None (map snd es)" "tc_count cache = int (length es)"
    "map_wf (tc_index cache)" "map_lookup (tc_index cache) = (\<lambda>k. map_option Some (cache_index (mem_tables mem) es k))"
    "distinct (map (\<lambda>(t, p). table_id (mem_tables mem) t) es)"
    "(t, p) \<in> set es \<Longrightarrow> elem_info (mem_hdrs mem) p = Some (Some self, Some t)"
    "(t, p) \<in> set es \<Longrightarrow> mem_tables mem t \<noteq> None"
  using assms unfolding cache_rel_def by auto

lemma cache_relI:
  assumes "dseg (mem_hdrs mem) None (map snd es) None" and "distinct (map snd es)"
    and "tc_first cache = hd_ptr (map snd es) None" and "tc_last cache = last_ptr None (map snd es)" and "tc_count cache = int (length es)"
    and "map_wf (tc_index cache)" and "map_lookup (tc_index cache) = (\<lambda>k. map_option Some (cache_index (mem_tables mem) es k))"
    and "distinct (map (\<lambda>(t, p). table_id (mem_tables mem) t) es)"
    and "\<And>t p. (t, p) \<in> set es \<Longrightarrow> elem_info (mem_hdrs mem) p = Some (Some self, Some t) \<and> mem_tables mem t \<noteq> None"
  shows "cache_rel self mem cache es"
  using assms unfolding cache_rel_def by auto

lemma cache_rel_alloc:
  assumes "cache_rel self mem cache es" and "p \<in> set (map snd es)"
  shows "elem_info (mem_hdrs mem) p \<noteq> None" "mem_hdrs mem p \<noteq> None"
proof -
  obtain t where "(t, p) \<in> set es" using assms(2) by auto
  then show "elem_info (mem_hdrs mem) p \<noteq> None" using cache_relD(9) [OF assms(1)] by simp
  then show "mem_hdrs mem p \<noteq> None" by (simp only: elem_info_alloc not_False_eq_True)
qed

lemma cache_index_None: "cache_index tables es k = None \<longleftrightarrow> k \<notin> set (map (\<lambda>(t, p). table_id tables t) es)"
  by (induction es) (auto simp: cache_index_def)

lemma cache_index_append: "cache_index tables (xs @ ys) k =
    (case cache_index tables xs k of None \<Rightarrow> cache_index tables ys k | Some v \<Rightarrow> Some v)"
  by (induction xs) (auto simp: cache_index_def)

lemma cache_index_Cons: "cache_index tables ((t, p) # es) = (cache_index tables es)(table_id tables t \<mapsto> p)"
  by (simp add: cache_index_def)

lemma cache_index_split:
  assumes "distinct (map (\<lambda>(t, p). table_id tables t) (xs @ (t, p) # ys))"
  shows "cache_index tables (xs @ (t, q) # ys) = (cache_index tables (xs @ ys))(table_id tables t \<mapsto> q)"
    and "cache_index tables (xs @ ys) (table_id tables t) = None"
proof -
  have "cache_index tables xs (table_id tables t) = None" "cache_index tables ys (table_id tables t) = None"
    using assms by (simp_all add: cache_index_None)
  then show "cache_index tables (xs @ (t, q) # ys) = (cache_index tables (xs @ ys))(table_id tables t \<mapsto> q)"
    "cache_index tables (xs @ ys) (table_id tables t) = None"
    by (auto simp: fun_eq_iff cache_index_append cache_index_Cons split: option.split)
qed

lemma cache_index_split_fun:
  assumes "distinct (map (\<lambda>(t, p). table_id tables t) (xs @ (t, p) # ys))"
  shows "cache_index tables (xs @ ys) = (cache_index tables (xs @ (t, p) # ys))(table_id tables t := None)"
    and "cache_index tables (xs @ (t, q) # ys) = (cache_index tables (xs @ (t, p) # ys))(table_id tables t \<mapsto> q)"
    and "cache_index tables (xs @ (t, p) # ys) (table_id tables t) = Some p"
  using cache_index_split(1) [OF assms, of q] cache_index_split(1) [OF assms, of p] cache_index_split(2) [OF assms]
  by (auto simp: fun_eq_iff)

lemma cache_indexD:
  assumes "cache_index tables es k = Some p"
  obtains xs t ys where "es = xs @ (t, p) # ys" and "table_id tables t = k"
proof -
  obtain t where "(t, p) \<in> set es" "table_id tables t = k"
    using map_of_SomeD [OF assms [unfolded cache_index_def]] by auto
  then show ?thesis using that split_list by metis
qed

text \<open>The list as it is reached from the cache; the count bounds the walk.\<close>

fun walk :: "nat \<Rightarrow> (ptr \<Rightarrow> ecs_table_cache_hdr_t option) \<Rightarrow> ptr option \<Rightarrow> ptr list" where
  "walk (Suc n) H (Some p) = p # walk n H (case H p of None \<Rightarrow> None | Some h \<Rightarrow> th_next h)"
| "walk n H p = []"

lemma walk_dseg: "dseg H pre ps None \<Longrightarrow> walk (length ps) H (hd_ptr ps None) = ps"
proof (induction ps arbitrary: pre)
  case (Cons p ps)
  then obtain h where "H p = Some h" "th_next h = hd_ptr ps None" "dseg H (Some p) ps None" by auto
  with Cons.IH show ?case by (cases ps) auto
qed simp

definition cache_elems :: "cache_memory \<Rightarrow> ecs_table_cache_t \<Rightarrow> (ptr \<times> ptr) list" where
  "cache_elems mem cache =
     map (\<lambda>p. (elem_table (mem_hdrs mem) p, p)) (walk (nat (tc_count cache)) (mem_hdrs mem) (tc_first cache))"

lemma cache_rel_elems:
  assumes "cache_rel self mem cache es"
  shows "cache_elems mem cache = es"
proof -
  note R = cache_relD [OF assms]
  have "cache_elems mem cache = map (\<lambda>p. (elem_table (mem_hdrs mem) p, p)) (map snd es)"
    using walk_dseg [OF R(1)] R(3,5) by (simp add: cache_elems_def)
  also have "\<dots> = es" using R(9) by (force simp: elem_table_def intro: map_idI)
  finally show ?thesis .
qed

section \<open>Operations\<close>

lemma cache_init_ok: "\<exists>cache. ecs_table_cache_init = Inr cache \<and> cache_rel self mem cache []"
proof -
  obtain m :: "ptr option ecs_map_t" where m: "ecs_map_init = Inr m" "map_wf m" "map_lookup m = Map.empty" using map_init_ok by blast
  then show ?thesis
    by (intro exI [of _ "\<lparr>tc_index = m, tc_first = None, tc_last = None, tc_count = 0\<rparr>"])
      (simp add: ecs_table_cache_init_def cache_rel_def cache_index_def)
qed

lemma cache_get_ok:
  assumes "cache_rel self mem cache es" and "mem_tables mem t \<noteq> None"
  shows "ecs_table_cache_get mem cache (Some t) = Inr (cache_index (mem_tables mem) es (table_id (mem_tables mem) t))"
proof -
  note R = cache_relD [OF assms(1)]
  have "ecs_map_is_init (tc_index cache)" using R(6) by (rule map_wf_init)
  then show ?thesis using assms(2) map_get_deref_ok [OF R(6), of None] R(7)
    by (auto simp: ecs_table_cache_get_def table_id_def split: option.split)
qed

text \<open>Insertion of a new cell \<open>p\<close>.\<close>

lemma cache_insert_ok:
  assumes rel: "cache_rel self mem cache es" and t: "mem_tables mem t \<noteq> None" and p: "p \<notin> set (map snd es)"
    and new: "cache_index (mem_tables mem) es (table_id (mem_tables mem) t) = None" and room: "length es + 1 < 2 ^ 26"
  shows "\<exists>mem' cache'. ecs_table_cache_insert self (mem\<lparr>mem_hdrs := (mem_hdrs mem)(p \<mapsto> h)\<rparr>) cache (Some t) (Some p) = Inr (mem', cache') \<and>
    mem_tables mem' = mem_tables mem \<and> cache_rel self mem' cache' (es @ [(t, p)])"
proof -
  note R = cache_relD [OF rel]
  let ?ps = "map snd es" and ?H = "mem_hdrs mem" and ?last = "last_ptr None (map snd es)" and ?T = "mem_tables mem"
  let ?h1 = "h\<lparr>th_cr := Some self, th_table := Some t\<rparr>" and ?h2 = "h\<lparr>th_cr := Some self, th_table := Some t, th_next := None, th_prev := last_ptr None (map snd es)\<rparr>"
  let ?H1 = "?H(p \<mapsto> h)" and ?H2 = "?H(p \<mapsto> ?h2)"
  let ?H3 = "link_next ?H2 ?last (Some p)"
  let ?m = "\<lambda>H. mem\<lparr>mem_hdrs := H\<rparr>"
  have other: "?H2 q = ?H q" "?H1 q = ?H q" if "q \<in> set ?ps" for q using that p by auto
  have rel1: "cache_rel self (?m ?H1) cache es"
  proof -
    have "dseg ?H1 None ?ps None \<longleftrightarrow> dseg ?H None ?ps None" using other(2) by (intro dseg_cong)
    moreover have "elem_info ?H1 q = elem_info ?H q" if "q \<in> set ?ps" for q using other(2) [OF that] by (simp add: elem_info_def)
    ultimately show ?thesis using rel by (force simp: cache_rel_def)
  qed
  have lastp: "?last \<noteq> Some p" using ptr_in(2) p by blast
  have info: "elem_info ?H3 q = elem_info ?H q" if "q \<in> set ?ps" for q using other(1) [OF that] by (simp add: elem_info_def)
  have alloc: "elem_info ?H2 q \<noteq> None" if "?last = Some q" for q
    using cache_rel_alloc(1) [OF rel ptr_in(2) [OF that]] other(1) [OF ptr_in(2) [OF that]] by (simp add: elem_info_def)
  let ?c = "cache\<lparr>tc_first := hd_ptr (?ps @ [p]) None, tc_last := Some p, tc_count := int (length es) + 1\<rparr>"
  have li: "flecs_table_cache_list_insert (?m (?H(p \<mapsto> ?h1))) cache (Some p) = Inr (?m ?H3, ?c)"
  proof -
    have "hdr_modify (?m (?H(p \<mapsto> ?h1))) (Some p) (\<lambda>h. h\<lparr>th_next := None, th_prev := ?last\<rparr>) = Inr (?m ?H2)"
      by (simp add: hdr_modify_def)
    moreover have "(if ?last \<noteq> None then hdr_modify (?m ?H2) ?last (th_next_update (\<lambda>_. Some p)) else Inr (?m ?H2)) = Inr (?m ?H3)"
      using link_run(2) [of ?last "?m ?H2" "Some p"] alloc by simp
    ultimately show ?thesis unfolding flecs_table_cache_list_insert_def Let_def R(3-5)
      by (cases es) (simp_all add: R(3-5))
  qed
  have "map_count (tc_index cache) = card (dom (cache_index ?T es))"
    using map_count_card(2) [OF R(6)] unfolding R(7) by (simp add: dom_def)
  also have "\<dots> \<le> length es" unfolding cache_index_def using card_length [of "map fst (map (\<lambda>(t, p). (table_id ?T t, p)) es)"]
    by (simp add: dom_map_of_conv_image_fst image_image)
  finally have "map_count (tc_index cache) + 1 < 2 ^ 26" using room by simp
  then obtain m where m: "ecs_map_insert (tc_index cache) (table_id ?T t) (Some p) = Inr m" "map_wf m"
    "map_lookup m = (map_lookup (tc_index cache))(table_id ?T t \<mapsto> Some p)"
    using map_insert_ok [OF R(6), of "table_id ?T t" "Some p"] new R(7) by auto
  have run: "ecs_table_cache_insert self (?m ?H1) cache (Some t) (Some p) = Inr (?m ?H3, ?c\<lparr>tc_index := m\<rparr>)"
    using cache_get_ok [OF rel1, of t] new t li m(1)
    by (auto simp: ecs_table_cache_insert_def hdr_modify_def table_id_def)
  have ids: "distinct (map (\<lambda>(t, p). table_id ?T t) (es @ [(t, p)]))"
    using R(8) new by (simp add: cache_index_None)
  have "dseg ?H2 None ?ps None" using dseg_cong [of ?ps ?H2 ?H] other(1) R(1) by simp
  then have "dseg ?H3 None ?ps (Some p)" by (rule dseg_link_next [OF R(2)])
  moreover have "?H3 p = Some ?h2" using lastp by simp
  ultimately have "dseg ?H3 None (map snd (es @ [(t, p)])) None" by (simp add: dseg_append)
  moreover have "elem_info ?H3 p = Some (Some self, Some t)" using \<open>?H3 p = Some ?h2\<close> by (simp add: elem_info_def)
  moreover have "map_lookup m = (\<lambda>k. map_option Some (cache_index ?T (es @ [(t, p)]) k))"
    using cache_index_split(1) [of ?T es t p "[]" p] ids m(3) R(7) by (auto simp: fun_eq_iff)
  moreover have "elem_info ?H3 q = Some (Some self, Some u) \<and> ?T u \<noteq> None" if "(u, q) \<in> set es" for u q
    using info [of q] R(9,10) [OF that] that by force
  ultimately have "cache_rel self (?m ?H3) (?c\<lparr>tc_index := m\<rparr>) (es @ [(t, p)])"
    using R(2) p t ids m(2) by (intro cache_relI) auto
  with run show ?thesis by (intro exI [of _ "?m ?H3"] exI [of _ "?c\<lparr>tc_index := m\<rparr>"]) simp
qed

text \<open>The cell of an element and its neighbours.\<close>

lemma cache_cell:
  assumes rel: "cache_rel self mem cache (xs @ (t, p) # ys)"
  shows "\<exists>h. mem_hdrs mem p = Some h \<and> th_prev h = last_ptr None (map snd xs) \<and> th_next h = hd_ptr (map snd ys) None \<and> th_cr h = Some self"
    and "dseg (mem_hdrs mem) None (map snd xs) (Some p)" and "dseg (mem_hdrs mem) (Some p) (map snd ys) None"
    and "p \<notin> set (map snd xs)" and "p \<notin> set (map snd ys)" and "set (map snd xs) \<inter> set (map snd ys) = {}"
    and "distinct (map snd xs)" and "distinct (map snd ys)"
proof -
  note R = cache_relD [OF rel]
  have "dseg (mem_hdrs mem) None (map snd xs) (Some p) \<and> dseg (mem_hdrs mem) (Some p) (map snd ys) None \<and>
      (\<exists>h. mem_hdrs mem p = Some h \<and> th_prev h = last_ptr None (map snd xs) \<and> th_next h = hd_ptr (map snd ys) None)"
    using R(1) by (simp add: dseg_append)
  moreover have "elem_info (mem_hdrs mem) p = Some (Some self, Some t)" using R(9) by simp
  ultimately show "\<exists>h. mem_hdrs mem p = Some h \<and> th_prev h = last_ptr None (map snd xs) \<and> th_next h = hd_ptr (map snd ys) None \<and> th_cr h = Some self"
    and "dseg (mem_hdrs mem) None (map snd xs) (Some p)" and "dseg (mem_hdrs mem) (Some p) (map snd ys) None"
    by (auto simp: elem_info_def)
  show "p \<notin> set (map snd xs)" "p \<notin> set (map snd ys)" "set (map snd xs) \<inter> set (map snd ys) = {}"
    "distinct (map snd xs)" "distinct (map snd ys)"
    using R(2) by simp_all
qed

lemma link_neighbours:
  fixes a b :: "ptr option"
  assumes rel: "cache_rel self mem cache (xs @ (t, p) # ys)"
    and same: "\<And>q. q \<in> set (map snd xs) \<union> set (map snd ys) \<Longrightarrow> H q = mem_hdrs mem q"
  defines "H' \<equiv> link_next (link_prev H (hd_ptr (map snd ys) None) b) (last_ptr None (map snd xs)) a"
  shows "dseg H' None (map snd xs) a" and "dseg H' b (map snd ys) None"
proof -
  note C = cache_cell [OF rel]
  let ?xs = "map snd xs" and ?ys = "map snd ys"
  let ?n = "hd_ptr ?ys None" and ?p = "last_ptr None ?xs"
  have "?n \<noteq> Some q" if "q \<in> set ?xs" for q using ptr_in(1) [of ?ys q] that C(6) by blast
  then have "dseg (link_prev H ?n b) None ?xs (Some p) \<longleftrightarrow> dseg (mem_hdrs mem) None ?xs (Some p)"
    using same by (intro dseg_cong) simp
  then show "dseg H' None ?xs a" unfolding H'_def using C(2) by (intro dseg_link_next [OF C(7)]) simp
  have "dseg H (Some p) ?ys None \<longleftrightarrow> dseg (mem_hdrs mem) (Some p) ?ys None" using same by (intro dseg_cong) simp
  then have "dseg (link_prev H ?n b) b ?ys None" using C(3) dseg_link_prev [OF C(8)] by blast
  moreover have "?p \<noteq> Some q" if "q \<in> set ?ys" for q using ptr_in(2) [of ?xs q] that C(6) by blast
  ultimately show "dseg H' b ?ys None" unfolding H'_def using dseg_cong [of ?ys] link_other(2) by metis
qed

lemma neighbours_alloc:
  assumes "cache_rel self mem cache (xs @ (t, p) # ys)"
  shows "hd_ptr (map snd ys) None = Some q \<Longrightarrow> elem_info (mem_hdrs mem) q \<noteq> None"
    and "last_ptr None (map snd xs) = Some q \<Longrightarrow> elem_info (mem_hdrs mem) q \<noteq> None"
  using cache_rel_alloc(1) [OF assms, of q] ptr_in(1) [of "map snd ys" q] ptr_in(2) [of "map snd xs" q] by auto

lemma cache_remove_ok:
  assumes rel: "cache_rel self mem cache (xs @ (t, p) # ys)"
  shows "\<exists>mem' cache'. ecs_table_cache_remove self mem cache (table_id (mem_tables mem) t) (Some p) = Inr (mem', cache') \<and>
    mem_tables mem' = mem_tables mem \<and> cache_rel self (mem'\<lparr>mem_hdrs := (mem_hdrs mem')(p := None)\<rparr>) cache' (xs @ ys)"
proof -
  note R = cache_relD [OF rel] and C = cache_cell [OF rel]
  let ?n = "hd_ptr (map snd ys) None" and ?p = "last_ptr None (map snd xs)" and ?T = "mem_tables mem" and ?H = "mem_hdrs mem"
  let ?H1 = "link_prev ?H ?n ?p" and ?m = "\<lambda>H. mem\<lparr>mem_hdrs := H\<rparr>"
  let ?H2 = "link_next ?H1 ?p ?n"
  obtain h where h: "?H p = Some h" "th_prev h = ?p" "th_next h = ?n" "th_cr h = Some self" using C(1) by blast
  let ?c = "cache\<lparr>tc_first := hd_ptr (map snd (xs @ ys)) None, tc_last := last_ptr None (map snd (xs @ ys)), tc_count := int (length (xs @ ys))\<rparr>"
  have first: "hd_ptr (map snd xs) (Some p) = Some p \<longleftrightarrow> xs = []" using C(4) by (cases xs) auto
  have last: "last_ptr (Some p) (map snd ys) = Some p \<longleftrightarrow> ys = []"
    using C(5) ptr_in(2) [of "map snd ys" p] by (auto simp: last_ptr_def)
  have l1: "(if ?n \<noteq> None then hdr_modify mem ?n (th_prev_update (\<lambda>_. ?p)) else Inr mem) = Inr (?m ?H1)"
    by (rule link_run(1)) (rule neighbours_alloc(1) [OF rel])
  have l2: "(if ?p \<noteq> None then hdr_modify (?m ?H1) ?p (th_next_update (\<lambda>_. ?n)) else Inr (?m ?H1)) = Inr (?m ?H2)"
    using link_run(2) [of ?p "?m ?H1" ?n] neighbours_alloc(2) [OF rel] by simp
  have lr: "flecs_table_cache_list_remove mem cache (Some p) = Inr (?m ?H2, ?c)"
    unfolding flecs_table_cache_list_remove_def deref_simps h(1) option.case bindr_Inr Let_def h(2,3) l1 l2
    using first last R(3-5) by (cases xs; cases ys rule: rev_cases) (auto simp: last_ptr_def)
  obtain m r where m: "ecs_map_remove (tc_index cache) (table_id ?T t) = Inr (m, r)" "map_wf m"
    "map_lookup m = (map_lookup (tc_index cache))(table_id ?T t := None)" using emap.remove_law [OF R(6)] by blast
  have run: "ecs_table_cache_remove self mem cache (table_id ?T t) (Some p) = Inr (?m ?H2, ?c\<lparr>tc_index := m\<rparr>)"
    using h lr m(1) by (simp add: ecs_table_cache_remove_def)
  let ?H3 = "?H2(p := None)"
  note L = link_neighbours [OF rel refl, where a = "hd_ptr (map snd ys) None" and b = "last_ptr None (map snd xs)"]
  have "dseg ?H3 None (map snd xs) ?n \<longleftrightarrow> dseg ?H2 None (map snd xs) ?n" "dseg ?H3 ?p (map snd ys) None \<longleftrightarrow> dseg ?H2 ?p (map snd ys) None"
    using C(4,5) by (intro dseg_cong; auto)+
  then have "dseg ?H3 None (map snd (xs @ ys)) None" using L by (simp add: dseg_append)
  moreover have "map_lookup m = (\<lambda>k. map_option Some (cache_index ?T (xs @ ys) k))"
    using cache_index_split_fun(1) [OF R(8)] m(3) R(7) by (auto simp: fun_eq_iff)
  moreover have "elem_info ?H3 q = Some (Some self, Some u) \<and> ?T u \<noteq> None" if "(u, q) \<in> set (xs @ ys)" for u q
  proof -
    have "q \<noteq> p" using that C(4,5) by force
    then have "elem_info ?H3 q = elem_info ?H q" by simp
    then show ?thesis using R(9,10) [of u q] that by simp
  qed
  ultimately have "cache_rel self (?m ?H3) (?c\<lparr>tc_index := m\<rparr>) (xs @ ys)"
    using R(2,8) m(2) by (intro cache_relI) auto
  with run show ?thesis by (intro exI [of _ "?m ?H2"] exI [of _ "?c\<lparr>tc_index := m\<rparr>"]) simp
qed

text \<open>
  Replacing the cell \<open>p\<close> of a table by a new one \<open>p'\<close> that has been filled with a copy of it.
\<close>

lemma cache_replace_run:
  assumes "deref (mem_tables mem) table = Inr T" and "ecs_map_get (tc_index cache) (tbl_id T) = Inr (Some (Some p))"
    and "deref (mem_hdrs mem) (Some p) = Inr h"
    and "(if th_prev h \<noteq> None then bindr (deref (mem_hdrs mem) (th_prev h)) (\<lambda>x. bindr (ecs_assert (th_next x = Some p) ECS_INTERNAL_ERROR) (\<lambda>_.
        hdr_modify mem (th_prev h) (th_next_update (\<lambda>_. elem)))) else Inr mem) = Inr mem1"
    and "(if th_next h \<noteq> None then bindr (deref (mem_hdrs mem1) (th_next h)) (\<lambda>x. bindr (ecs_assert (th_prev x = Some p) ECS_INTERNAL_ERROR) (\<lambda>_.
        hdr_modify mem1 (th_next h) (th_prev_update (\<lambda>_. elem)))) else Inr mem1) = Inr mem2"
    and "ecs_map_store (tc_index cache) (tbl_id T) elem = Inr index"
    and "hdr_modify mem2 elem (\<lambda>x. x\<lparr>th_prev := th_prev h, th_next := th_next h\<rparr>) = Inr mem3"
  shows "ecs_table_cache_replace mem cache table elem = Inr (mem3, cache\<lparr>tc_index := index,
    tc_first := (if tc_first cache = Some p then elem else tc_first cache),
    tc_last := (if tc_last cache = Some p then elem else tc_last cache)\<rparr>)"
proof -
  let ?c = "\<lambda>cache. if tc_last cache = Some p then cache\<lparr>tc_last := elem\<rparr> else cache"
  let ?d = "if tc_first cache = Some p then cache\<lparr>tc_first := elem\<rparr> else cache"
  have ix: "tc_index (?c ?d) = tc_index cache" by simp
  have "ecs_table_cache_replace mem cache table elem = Inr (mem3, (?c ?d)\<lparr>tc_index := index\<rparr>)"
    unfolding ecs_table_cache_replace_def Let_def assms(1-3) bindr_Inr option.sel ecs_assert_simps(1) [OF option.distinct(2)] assms(4,5) ix assms(6,7)
    by (rule refl)
  then show ?thesis by (auto simp: ecs_table_cache_t.defs)
qed

lemma cache_replace_ok:
  assumes rel: "cache_rel self mem cache (xs @ (t, p) # ys)" and new: "p' \<notin> set (map snd (xs @ (t, p) # ys))"
    and h: "mem_hdrs mem p = Some h" and u: "mem_tables mem u \<noteq> None" "table_id (mem_tables mem) u = table_id (mem_tables mem) t"
  shows "\<exists>mem' cache'. ecs_table_cache_replace (mem\<lparr>mem_hdrs := (mem_hdrs mem)(p' \<mapsto> h)\<rparr>) cache (Some u) (Some p') = Inr (mem', cache') \<and>
    mem_tables mem' = mem_tables mem \<and> cache_rel self (mem'\<lparr>mem_hdrs := (mem_hdrs mem')(p := None)\<rparr>) cache' (xs @ (t, p') # ys)"
proof -
  note R = cache_relD [OF rel] and C = cache_cell [OF rel]
  let ?n = "hd_ptr (map snd ys) None" and ?p = "last_ptr None (map snd xs)" and ?T = "mem_tables mem" and ?H = "mem_hdrs mem"
  let ?Hc = "?H(p' \<mapsto> h)" and ?m = "\<lambda>H. mem\<lparr>mem_hdrs := H\<rparr>"
  let ?H1 = "link_next ?Hc ?p (Some p')"
  let ?H2 = "link_prev ?H1 ?n (Some p')"
  have hh: "th_prev h = ?p" "th_next h = ?n" "elem_info ?H p = Some (Some self, Some t)" using C(1) h R(9) [of t p] by auto
  have p': "p' \<noteq> p" "p' \<notin> set (map snd xs)" "p' \<notin> set (map snd ys)" using new by auto
  have out: "?p \<noteq> Some p'" "?n \<noteq> Some p'" using ptr_in(2) [of "map snd xs" p'] ptr_in(1) [of "map snd ys" p'] p'(2,3) by blast+
  have same: "?Hc q = ?H q" if "q \<in> set (map snd xs) \<union> set (map snd ys)" for q using that p' by auto
  have dx: "dseg ?Hc None (map snd xs) (Some p)" using dseg_cong [of "map snd xs" ?Hc ?H] same C(2) by simp
  have dy: "dseg ?Hc (Some p) (map snd ys) None" using dseg_cong [of "map snd ys" ?Hc ?H] same C(3) by simp
  have alloc: "elem_info ?Hc q \<noteq> None" if "?p = Some q \<or> ?n = Some q" for q
    unfolding elem_info_alloc using that dseg_ends(1) [OF dx, of q] dseg_ends(2) [OF dy, of q] by auto
  have n1: "\<exists>n. ?H1 q = Some n \<and> th_prev n = Some p" if "?n = Some q" for q
    using dseg_ends(2) [OF dy that] by (auto simp: link_next_def split: option.split)
  have l1: "(if ?p \<noteq> None then bindr (deref ?Hc ?p) (\<lambda>x. bindr (ecs_assert (th_next x = Some p) ECS_INTERNAL_ERROR) (\<lambda>_.
        hdr_modify (?m ?Hc) ?p (th_next_update (\<lambda>_. Some p')))) else Inr (?m ?Hc)) = Inr (?m ?H1)"
    using link_run(2) [of ?p "?m ?Hc" "Some p'"] alloc dseg_ends(1) [OF dx] by (cases ?p) auto
  have l2: "(if ?n \<noteq> None then bindr (deref ?H1 ?n) (\<lambda>x. bindr (ecs_assert (th_prev x = Some p) ECS_INTERNAL_ERROR) (\<lambda>_.
        hdr_modify (?m ?H1) ?n (th_prev_update (\<lambda>_. Some p')))) else Inr (?m ?H1)) = Inr (?m ?H2)"
    using link_run(1) [of ?n "?m ?H1" "Some p'"] alloc n1 by (cases ?n) auto
  have H2: "?H2 p' = Some h" using out by simp
  let ?H3 = "?H2(p' \<mapsto> h\<lparr>th_prev := ?p, th_next := ?n\<rparr>)"
  have id: "cache_index ?T (xs @ (t, p) # ys) (table_id ?T t) = Some p" using cache_index_split_fun(3) [OF R(8)] .
  obtain m where m: "ecs_map_store (tc_index cache) (table_id ?T t) (Some p') = Inr m" "map_wf m"
    "map_lookup m = (map_lookup (tc_index cache))(table_id ?T t \<mapsto> Some p')"
    using emap.store_law [OF R(6), of "table_id ?T t" "Some p'"] R(7) id by auto
  have first: "hd_ptr (map snd xs) (Some p) = Some p \<longleftrightarrow> xs = []" using C(4) by (cases xs) auto
  have last: "last_ptr (Some p) (map snd ys) = Some p \<longleftrightarrow> ys = []"
    using C(5) ptr_in(2) [of "map snd ys" p] by (auto simp: last_ptr_def)
  have sel: "mem_hdrs (?m G) = G" for G by simp
  obtain U where U: "?T u = Some U" "tbl_id U = table_id ?T t" using u by (auto simp: table_id_def)
  have run: "ecs_table_cache_replace (?m ?Hc) cache (Some u) (Some p') = Inr (?m ?H3, cache\<lparr>tc_index := m,
      tc_first := (if tc_first cache = Some p then Some p' else tc_first cache),
      tc_last := (if tc_last cache = Some p then Some p' else tc_last cache)\<rparr>)"
  proof (rule cache_replace_run)
    show "deref (mem_tables (?m ?Hc)) (Some u) = Inr U" using U(1) by simp
    show "ecs_map_get (tc_index cache) (tbl_id U) = Inr (Some (Some p))" using R(6,7) id U(2) by simp
    show "deref (mem_hdrs (?m ?Hc)) (Some p) = Inr h" using h p'(1) by simp
    show "(if th_prev h \<noteq> None then bindr (deref (mem_hdrs (?m ?Hc)) (th_prev h)) (\<lambda>x. bindr (ecs_assert (th_next x = Some p) ECS_INTERNAL_ERROR)
        (\<lambda>_. hdr_modify (?m ?Hc) (th_prev h) (th_next_update (\<lambda>_. Some p')))) else Inr (?m ?Hc)) = Inr (?m ?H1)"
      unfolding hh(1) sel by (rule l1)
    show "(if th_next h \<noteq> None then bindr (deref (mem_hdrs (?m ?H1)) (th_next h)) (\<lambda>x. bindr (ecs_assert (th_prev x = Some p) ECS_INTERNAL_ERROR)
        (\<lambda>_. hdr_modify (?m ?H1) (th_next h) (th_prev_update (\<lambda>_. Some p')))) else Inr (?m ?H1)) = Inr (?m ?H2)"
      unfolding hh(2) sel by (rule l2)
    show "ecs_map_store (tc_index cache) (tbl_id U) (Some p') = Inr m" using m(1) U(2) by simp
    show "hdr_modify (?m ?H2) (Some p') (\<lambda>x. x\<lparr>th_prev := th_prev h, th_next := th_next h\<rparr>) = Inr (?m ?H3)"
      unfolding hh(1,2) using H2 by (simp add: hdr_modify_def)
  qed
  have ends1: "(if tc_first cache = Some p then Some p' else tc_first cache) = hd_ptr (map snd (xs @ (t, p') # ys)) None"
    using first R(3) by (cases xs) simp_all
  have ends2: "(if tc_last cache = Some p then Some p' else tc_last cache) = last_ptr None (map snd (xs @ (t, p') # ys))"
    using last R(4) by (cases ys rule: rev_cases) simp_all
  note ends = ends1 ends2
  let ?H4 = "?H3(p := None)"
  note L = link_neighbours [OF rel same, where a = "Some p'" and b = "Some p'", unfolded link_commute]
  have "dseg ?H4 None (map snd xs) (Some p') \<longleftrightarrow> dseg ?H2 None (map snd xs) (Some p')"
    "dseg ?H4 (Some p') (map snd ys) None \<longleftrightarrow> dseg ?H2 (Some p') (map snd ys) None"
    using C(4,5) p' by (intro dseg_cong; auto)+
  then have "dseg ?H4 None (map snd (xs @ (t, p') # ys)) None" using L p'(1) by (simp add: dseg_append)
  moreover have "map_lookup m = (\<lambda>k. map_option Some (cache_index ?T (xs @ (t, p') # ys) k))"
    using cache_index_split_fun(2) [OF R(8), of p'] m(3) R(7) by (auto simp: fun_eq_iff)
  moreover have "elem_info ?H4 q = Some (Some self, Some v) \<and> ?T v \<noteq> None" if "(v, q) \<in> set (xs @ (t, p') # ys)" for v q
  proof (cases "q = p'")
    case True
    then have "v = t" using that p'(2,3) by force
    then show ?thesis using True p'(1) hh(3) h R(10) [of t p] by (simp add: elem_info_def)
  next
    case False
    then have "(v, q) \<in> set xs \<union> set ys" using that by auto
    moreover from this have "q \<noteq> p" using C(4,5) by force
    ultimately show ?thesis using False R(9,10) [of v q] by auto
  qed
  ultimately have "cache_rel self (?m ?H4) (cache\<lparr>tc_index := m,
      tc_first := (if tc_first cache = Some p then Some p' else tc_first cache),
      tc_last := (if tc_last cache = Some p then Some p' else tc_last cache)\<rparr>) (xs @ (t, p') # ys)"
    unfolding ends using R(2,5,8) p' m(2) by (intro cache_relI) auto
  with run show ?thesis by (intro exI [of _ "?m ?H3"] exI conjI) simp_all
qed

text \<open>Iteration: the elements that an iterator wants.\<close>

definition iter_wants :: "(ptr \<Rightarrow> cached_table_t option) \<Rightarrow> bool \<Rightarrow> bool \<Rightarrow> ptr \<times> ptr \<Rightarrow> bool" where
  "iter_wants tables fill unused e = (if tbl_count (the (tables (fst e))) \<noteq> 0 then fill else unused)"

lemma table_cache_next_ok:
  assumes "cache_rel self mem cache (xs @ es)" and "ti_next it = hd_ptr (map snd es) None" and "length es < n"
    and "rest = dropWhile (Not \<circ> iter_wants (mem_tables mem) (ti_fill it) (ti_empty it)) es"
  shows "\<exists>it'. flecs_table_cache_next n mem it = Inr (Some (it', hd_ptr (map snd rest) None)) \<and>
    ti_next it' = hd_ptr (map snd (tl rest)) None \<and> ti_fill it' = ti_fill it \<and> ti_empty it' = ti_empty it"
  using assms
proof (induction es arbitrary: xs n it)
  case Nil
  then show ?case by (cases n) simp_all
next
  case (Cons e es)
  obtain t p where e: "e = (t, p)" by (cases e)
  obtain k where n: "n = Suc k" using Cons.prems(3) by (cases n) auto
  have rel: "cache_rel self mem cache (xs @ (t, p) # es)" using Cons.prems(1) e by simp
  obtain h where h: "mem_hdrs mem p = Some h" "th_next h = hd_ptr (map snd es) None" using cache_cell(1) [OF rel] by blast
  have "elem_info (mem_hdrs mem) p = Some (Some self, Some t)" using cache_relD(9) [OF rel, of t p] by simp
  then have t: "th_table h = Some t" using h(1) by (simp add: elem_info_def)
  obtain T where T: "mem_tables mem t = Some T" using cache_relD(10) [OF rel, of t p] by auto
  let ?it = "it\<lparr>ti_cur := Some p, ti_next := hd_ptr (map snd es) None\<rparr>"
  have step: "flecs_table_cache_next n mem it =
      (if iter_wants (mem_tables mem) (ti_fill it) (ti_empty it) e then Inr (Some (?it, Some p)) else flecs_table_cache_next k mem ?it)"
    using h t T Cons.prems(2) e by (simp add: n Let_def ecs_table_count_def iter_wants_def)
  show ?case
  proof (cases "iter_wants (mem_tables mem) (ti_fill it) (ti_empty it) e")
    case True
    then show ?thesis using step Cons.prems(4) e by simp
  next
    case False
    have "cache_rel self mem cache ((xs @ [(t, p)]) @ es)" "ti_next ?it = hd_ptr (map snd es) None" "length es < k"
      using rel Cons.prems(3) n by simp_all
    moreover have "rest = dropWhile (Not \<circ> iter_wants (mem_tables mem) (ti_fill ?it) (ti_empty ?it)) es"
      using Cons.prems(4) False by (simp add: comp_def)
    ultimately have "\<exists>it'. flecs_table_cache_next k mem ?it = Inr (Some (it', hd_ptr (map snd rest) None)) \<and>
        ti_next it' = hd_ptr (map snd (tl rest)) None \<and> ti_fill it' = ti_fill ?it \<and> ti_empty it' = ti_empty ?it"
      by (rule Cons.IH)
    then show ?thesis using step False by simp
  qed
qed

lemma table_cache_collect_ok:
  assumes "cache_rel self mem cache (xs @ es)" and "ti_next it = hd_ptr (map snd es) None" and "length es < n"
  shows "table_cache_collect n mem it = Inr (Some (map snd (filter (iter_wants (mem_tables mem) (ti_fill it) (ti_empty it)) es)))"
  using assms
proof (induction n arbitrary: xs es it)
  case (Suc n)
  let ?P = "iter_wants (mem_tables mem) (ti_fill it) (ti_empty it)"
  let ?rest = "dropWhile (Not \<circ> ?P) es"
  obtain it' where it': "flecs_table_cache_next (Suc n) mem it = Inr (Some (it', hd_ptr (map snd ?rest) None))"
    "ti_next it' = hd_ptr (map snd (tl ?rest)) None" "ti_fill it' = ti_fill it" "ti_empty it' = ti_empty it"
    using table_cache_next_ok [OF Suc.prems refl] by blast
  have skip: "filter ?P es = filter ?P ?rest" by (induction es) auto
  show ?case
  proof (cases ?rest)
    case Nil
    have "table_cache_collect (Suc n) mem it = Inr (Some [])" using it'(1) unfolding Nil by simp
    then show ?thesis using skip unfolding Nil by simp
  next
    case (Cons e ys)
    have "?P e" using hd_dropWhile [of "Not \<circ> ?P" es] Cons by simp
    have es: "es = takeWhile (Not \<circ> ?P) es @ e # ys" using takeWhile_dropWhile_id [of "Not \<circ> ?P" es] Cons by simp
    then have "length es = length (takeWhile (Not \<circ> ?P) es) + Suc (length ys)" by (metis length_append length_Cons)
    then have "length ys < n" using Suc.prems(3) by simp
    moreover have "cache_rel self mem cache ((xs @ takeWhile (Not \<circ> ?P) es @ [e]) @ ys)" using Suc.prems(1) es by simp
    moreover have "ti_next it' = hd_ptr (map snd ys) None" using it'(2) Cons by simp
    ultimately have "table_cache_collect n mem it' = Inr (Some (map snd (filter ?P ys)))"
      using Suc.IH [of "xs @ takeWhile (Not \<circ> ?P) es @ [e]" ys it'] unfolding it'(3,4) by blast
    then show ?thesis using it'(1) skip \<open>?P e\<close> unfolding Cons by (simp del: flecs_table_cache_next.simps)
  qed
qed simp

section \<open>Refinement\<close>

text \<open>
  What the tables of a world do with a cache: a table is registered with a zeroed record at a new address;
  the records of a table are copied to another address; a table is deleted and its record freed; the number
  of entities of a table changes; the cache is asked for the record of a table, and iterated.
\<close>

datatype cache_kind = Filled_tables | Empty_tables | All_tables

datatype cache_op =
    Cache_insert ptr ptr
  | Cache_get ptr
  | Cache_move ptr ptr
  | Cache_remove u64 ptr
  | Cache_resize ptr nat
  | Cache_iterate cache_kind

datatype cache_result = Nothing | Element "ptr option" | Elements "ptr list"

fun cache_iter :: "cache_kind \<Rightarrow> ecs_table_cache_t \<Rightarrow> ecs_table_cache_iter_t \<times> bool" where
  "cache_iter Filled_tables cache = flecs_table_cache_iter cache"
| "cache_iter Empty_tables cache = flecs_table_cache_empty_iter cache"
| "cache_iter All_tables cache = flecs_table_cache_all_iter cache"

fun cache_step :: "ptr \<Rightarrow> cache_op \<Rightarrow> cache_memory \<times> ecs_table_cache_t \<Rightarrow>
    ((cache_memory \<times> ecs_table_cache_t) \<times> cache_result) res" where
  "cache_step self (Cache_insert t p) (mem, cache) =
     bindr (ecs_table_cache_insert self (mem\<lparr>mem_hdrs := (mem_hdrs mem)(p \<mapsto> zero_hdr)\<rparr>) cache (Some t) (Some p)) (\<lambda>s.
     Inr (s, Nothing))"
| "cache_step self (Cache_get t) (mem, cache) =
     bindr (ecs_table_cache_get mem cache (Some t)) (\<lambda>r. Inr ((mem, cache), Element r))"
| "cache_step self (Cache_move t p) (mem, cache) =
     bindr (ecs_table_cache_get mem cache (Some t)) (\<lambda>old.
     bindr (deref (mem_hdrs mem) old) (\<lambda>h.
     bindr (ecs_table_cache_replace (mem\<lparr>mem_hdrs := (mem_hdrs mem)(p \<mapsto> h)\<rparr>) cache (Some t) (Some p)) (\<lambda>(mem, cache).
     Inr ((mem\<lparr>mem_hdrs := (mem_hdrs mem)(the old := None)\<rparr>, cache), Nothing))))"
| "cache_step self (Cache_remove k p) (mem, cache) =
     bindr (ecs_table_cache_remove self mem cache k (Some p)) (\<lambda>(mem, cache).
     Inr ((mem\<lparr>mem_hdrs := (mem_hdrs mem)(p := None)\<rparr>, cache), Nothing))"
| "cache_step self (Cache_resize t n) (mem, cache) =
     Inr ((mem\<lparr>mem_tables := (mem_tables mem)(t := map_option (tbl_count_update (\<lambda>_. n)) (mem_tables mem t))\<rparr>, cache), Nothing)"
| "cache_step self (Cache_iterate k) (mem, cache) =
     bindr (table_cache_collect (nat (tc_count cache) + 1) mem (fst (cache_iter k cache))) (\<lambda>r.
     case r of None \<Rightarrow> Inl Undefined | Some ps \<Rightarrow> Inr ((mem, cache), Elements ps))"

type_synonym cache_spec_state = "(ptr \<Rightarrow> cached_table_t option) \<times> (ptr \<times> ptr) list"

fun kind_wants :: "(ptr \<Rightarrow> cached_table_t option) \<Rightarrow> cache_kind \<Rightarrow> ptr \<times> ptr \<Rightarrow> bool" where
  "kind_wants tables Filled_tables e \<longleftrightarrow> tbl_count (the (tables (fst e))) \<noteq> 0"
| "kind_wants tables Empty_tables e \<longleftrightarrow> tbl_count (the (tables (fst e))) = 0"
| "kind_wants tables All_tables e \<longleftrightarrow> True"

fun cache_spec :: "cache_op \<Rightarrow> cache_spec_state \<Rightarrow> cache_spec_state \<times> cache_result" where
  "cache_spec (Cache_insert t p) (tables, es) = ((tables, es @ [(t, p)]), Nothing)"
| "cache_spec (Cache_get t) (tables, es) = ((tables, es), Element (cache_index tables es (table_id tables t)))"
| "cache_spec (Cache_move t p) (tables, es) =
     ((tables, map (\<lambda>(u, q). if table_id tables u = table_id tables t then (u, p) else (u, q)) es), Nothing)"
| "cache_spec (Cache_remove k p) (tables, es) = ((tables, filter (\<lambda>(u, q). q \<noteq> p) es), Nothing)"
| "cache_spec (Cache_resize t n) (tables, es) = ((tables(t := map_option (tbl_count_update (\<lambda>_. n)) (tables t)), es), Nothing)"
| "cache_spec (Cache_iterate k) (tables, es) = ((tables, es), Elements (map snd (filter (kind_wants tables k) es)))"

fun cache_enabled :: "cache_op \<Rightarrow> cache_spec_state \<Rightarrow> bool" where
  "cache_enabled (Cache_insert t p) (tables, es) \<longleftrightarrow>
     tables t \<noteq> None \<and> p \<notin> set (map snd es) \<and> cache_index tables es (table_id tables t) = None \<and> length es + 1 < 2 ^ 26"
| "cache_enabled (Cache_get t) (tables, es) \<longleftrightarrow> tables t \<noteq> None"
| "cache_enabled (Cache_move t p) (tables, es) \<longleftrightarrow>
     tables t \<noteq> None \<and> p \<notin> set (map snd es) \<and> cache_index tables es (table_id tables t) \<noteq> None"
| "cache_enabled (Cache_remove k p) (tables, es) \<longleftrightarrow> (\<exists>t. (t, p) \<in> set es \<and> table_id tables t = k)"
| "cache_enabled (Cache_resize t n) (tables, es) \<longleftrightarrow> True"
| "cache_enabled (Cache_iterate k) (tables, es) \<longleftrightarrow> True"

definition cache_inv :: "ptr \<Rightarrow> cache_memory \<times> ecs_table_cache_t \<Rightarrow> bool" where
  "cache_inv self s \<longleftrightarrow> (\<exists>es. cache_rel self (fst s) (snd s) es)"

definition cache_abs :: "cache_memory \<times> ecs_table_cache_t \<Rightarrow> cache_spec_state" where
  "cache_abs s = (mem_tables (fst s), cache_elems (fst s) (snd s))"

lemma cache_absI: "cache_rel self mem cache es \<Longrightarrow> cache_inv self (mem, cache) \<and> cache_abs (mem, cache) = (mem_tables mem, es)"
  using cache_rel_elems by (auto simp: cache_inv_def cache_abs_def)

lemma cache_resize_rel:
  assumes "cache_rel self mem cache es" and tables: "tables = (mem_tables mem)(t := map_option (tbl_count_update (\<lambda>_. n)) (mem_tables mem t))"
  shows "cache_rel self (mem\<lparr>mem_tables := tables\<rparr>) cache es"
proof -
  note R = cache_relD [OF assms(1)]
  have none: "tables u = None \<longleftrightarrow> mem_tables mem u = None" for u by (simp add: tables)
  have "table_id tables u = table_id (mem_tables mem) u" if "(u, p) \<in> set es" for u p
    using R(10) [OF that] by (auto simp: tables table_id_def)
  then have same: "map (\<lambda>(t, p). (table_id tables t, p)) es = map (\<lambda>(t, p). (table_id (mem_tables mem) t, p)) es"
    "map (\<lambda>(t, p). table_id tables t) es = map (\<lambda>(t, p). table_id (mem_tables mem) t) es" by auto
  have "cache_index tables es = cache_index (mem_tables mem) es" unfolding cache_index_def same(1) by (rule refl)
  then show ?thesis using R none by (intro cache_relI) (simp_all add: same(2))
qed

lemma filter_kind: "filter (iter_wants tables (ti_fill it) (ti_empty it)) es = filter (kind_wants tables k) es"
  if "it = fst (cache_iter k cache)"
  using that by (cases k) (auto simp: iter_wants_def flecs_table_cache_iter_def flecs_table_cache_empty_iter_def
      flecs_table_cache_all_iter_def intro!: filter_cong split: if_splits)

lemma map_replace_split:
  assumes "distinct (map (\<lambda>(t, p). table_id tables t) (xs @ (t, p) # ys))" and "table_id tables t = k"
  shows "map (\<lambda>(u, q). if table_id tables u = k then (u, p') else (u, q)) (xs @ (t, p) # ys) = xs @ (t, p') # ys"
proof -
  have other: "map (\<lambda>(u, q). if table_id tables u = k then (u, p') else (u, q)) zs = zs" if "k \<notin> set (map (\<lambda>(t, p). table_id tables t) zs)" for zs
    using that by (induction zs) auto
  have "k \<notin> set (map (\<lambda>(t, p). table_id tables t) xs)" "k \<notin> set (map (\<lambda>(t, p). table_id tables t) ys)" using assms by simp_all
  then show ?thesis using assms(2) other [of xs] other [of ys] by simp
qed

lemma filter_remove_split:
  assumes "distinct (map snd (xs @ (t, p) # ys))"
  shows "filter (\<lambda>(u, q). q \<noteq> p) (xs @ (t, p) # ys) = xs @ ys"
proof -
  have other: "filter (\<lambda>(u, q). q \<noteq> p) zs = zs" if "p \<notin> set (map snd zs)" for zs using that by (induction zs) auto
  have "p \<notin> set (map snd xs)" "p \<notin> set (map snd ys)" using assms by simp_all
  then show ?thesis using other [of xs] other [of ys] by simp
qed

lemma cache_step_ok:
  assumes inv: "cache_inv self s" and en: "cache_enabled op (cache_abs s)"
  shows "\<exists>s' r. cache_step self op s = Inr (s', r) \<and> cache_inv self s' \<and> cache_spec op (cache_abs s) = (cache_abs s', r)"
proof -
  obtain mem cache where s: "s = (mem, cache)" by (cases s)
  obtain es where rel: "cache_rel self mem cache es" using inv s by (auto simp: cache_inv_def)
  note A = cache_absI [OF rel] and R = cache_relD [OF rel]
  have en': "cache_enabled op (mem_tables mem, es)" using en A s by simp
  show ?thesis
  proof (cases op)
    case (Cache_insert t p)
    then obtain mem' cache' where
      "ecs_table_cache_insert self (mem\<lparr>mem_hdrs := (mem_hdrs mem)(p \<mapsto> zero_hdr)\<rparr>) cache (Some t) (Some p) = Inr (mem', cache')"
      "mem_tables mem' = mem_tables mem" "cache_rel self mem' cache' (es @ [(t, p)])"
      using cache_insert_ok [OF rel, of t p zero_hdr] en' by auto
    then show ?thesis using A s Cache_insert cache_absI [of self mem' cache'] by simp
  next
    case (Cache_get t)
    then show ?thesis using cache_get_ok [OF rel, of t] en' A s by simp
  next
    case (Cache_move t p)
    then obtain q where q: "cache_index (mem_tables mem) es (table_id (mem_tables mem) t) = Some q" using en' by auto
    then obtain xs u ys where es: "es = xs @ (u, q) # ys" "table_id (mem_tables mem) u = table_id (mem_tables mem) t"
      by (rule cache_indexD)
    obtain h where h: "mem_hdrs mem q = Some h" using cache_cell(1) [OF rel [unfolded es(1)]] by blast
    obtain mem' cache' where
      "ecs_table_cache_replace (mem\<lparr>mem_hdrs := (mem_hdrs mem)(p \<mapsto> h)\<rparr>) cache (Some t) (Some p) = Inr (mem', cache')"
      "mem_tables mem' = mem_tables mem" "cache_rel self (mem'\<lparr>mem_hdrs := (mem_hdrs mem')(q := None)\<rparr>) cache' (xs @ (u, p) # ys)"
      using cache_replace_ok [OF rel [unfolded es(1)] _ h, of p t] en' Cache_move es by auto
    moreover have "map (\<lambda>(v, r). if table_id (mem_tables mem) v = table_id (mem_tables mem) t then (v, p) else (v, r)) es = xs @ (u, p) # ys"
      unfolding es(1) by (rule map_replace_split [OF R(8) [unfolded es(1)] es(2)])
    ultimately show ?thesis
      using A s Cache_move cache_get_ok [OF rel, of t] en' q h cache_absI [of self "mem'\<lparr>mem_hdrs := (mem_hdrs mem')(q := None)\<rparr>" cache'] by simp
  next
    case (Cache_remove k p)
    then obtain t where t: "(t, p) \<in> set es" "table_id (mem_tables mem) t = k" using en' by auto
    then obtain xs ys where es: "es = xs @ (t, p) # ys" by (meson split_list)
    obtain mem' cache' where
      "ecs_table_cache_remove self mem cache k (Some p) = Inr (mem', cache')" "mem_tables mem' = mem_tables mem"
      "cache_rel self (mem'\<lparr>mem_hdrs := (mem_hdrs mem')(p := None)\<rparr>) cache' (xs @ ys)"
      using cache_remove_ok [OF rel [unfolded es]] t(2) by auto
    moreover have "filter (\<lambda>(u, q). q \<noteq> p) es = xs @ ys" unfolding es by (rule filter_remove_split) (use R(2) es in simp)
    ultimately show ?thesis
      using A s Cache_remove cache_absI [of self "mem'\<lparr>mem_hdrs := (mem_hdrs mem')(p := None)\<rparr>" cache'] by simp
  next
    case (Cache_resize t n)
    then show ?thesis using A s cache_absI [OF cache_resize_rel [OF rel refl, of t n]] by simp
  next
    case (Cache_iterate k)
    let ?it = "fst (cache_iter k cache)"
    have "ti_next ?it = hd_ptr (map snd es) None" using R(3)
      by (cases k) (simp_all add: flecs_table_cache_iter_def flecs_table_cache_empty_iter_def flecs_table_cache_all_iter_def)
    then have "table_cache_collect (nat (tc_count cache) + 1) mem ?it = Inr (Some (map snd (filter (kind_wants (mem_tables mem) k) es)))"
      using table_cache_collect_ok [of self mem cache "[]" es ?it "nat (tc_count cache) + 1"] rel R(5) filter_kind [OF refl] by simp
    then have "cache_step self op s = Inr ((mem, cache), Elements (map snd (filter (kind_wants (mem_tables mem) k) es)))"
      by (simp only: Cache_iterate s cache_step.simps bindr_Inr option.case)
    then show ?thesis using A s Cache_iterate by (intro exI conjI) auto
  qed
qed

interpretation cache_sim: simulation "cache_inv self" cache_abs "cache_step self" cache_spec cache_enabled for self
  by unfold_locales (rule cache_step_ok)

text \<open>
  C14: a table cache is the list of its tables in the order of their registration.  From an initialised
  cache, whatever sequence of registrations, moves of table records to other addresses, deletions, lookups and
  iterations is made, while tables gain and lose entities, every call returns and answers like the list: a
  lookup finds the current address of the record of a table, and an iteration ends and visits, once and in
  order, the records of the tables that it asks for (with entities, without, or all).  No call follows a
  pointer to a freed record.
\<close>

theorem table_cache_refines_list:
  assumes "run_enabled cache_spec cache_enabled ops (mem_tables mem, [])"
  shows "\<exists>cache mem' cache' rs. ecs_table_cache_init = Inr cache \<and>
    run_ops (cache_step self) ops (mem, cache) = Inr ((mem', cache'), rs) \<and>
    run_spec cache_spec ops (mem_tables mem, []) = ((mem_tables mem', cache_elems mem' cache'), rs)"
proof -
  obtain cache where cache: "ecs_table_cache_init = Inr cache" "cache_rel self mem cache []" using cache_init_ok by blast
  note A = cache_absI [OF cache(2)]
  from cache_sim.run_refines [of self "(mem, cache)" ops] A assms obtain s rs where
    "run_ops (cache_step self) ops (mem, cache) = Inr (s, rs)" "run_spec cache_spec ops (mem_tables mem, []) = (cache_abs s, rs)" by auto
  with cache(1) show ?thesis by (cases s) (auto simp: cache_abs_def)
qed

theorem table_cache_refines_list_witness:
  "\<exists>cache mem' cache'. ecs_table_cache_init = Inr cache \<and>
     run_ops (cache_step 9) [Cache_insert 1 10, Cache_insert 2 20, Cache_insert 3 30, Cache_move 2 25, Cache_get 2, Cache_iterate All_tables,
       Cache_resize 3 5, Cache_iterate Filled_tables, Cache_remove 101 10, Cache_iterate All_tables]
       (\<lparr>mem_hdrs = \<lambda>_. None, mem_tables = [1 \<mapsto> \<lparr>tbl_id = 101, tbl_count = 0\<rparr>, 2 \<mapsto> \<lparr>tbl_id = 102, tbl_count = 4\<rparr>, 3 \<mapsto> \<lparr>tbl_id = 103, tbl_count = 0\<rparr>]\<rparr>, cache) =
     Inr ((mem', cache'), [Nothing, Nothing, Nothing, Nothing, Element (Some 25), Elements [10, 25, 30],
       Nothing, Elements [25, 30], Nothing, Elements [25, 30]])"
proof -
  let ?T = "[1 \<mapsto> \<lparr>tbl_id = 101, tbl_count = 0\<rparr>, 2 \<mapsto> \<lparr>tbl_id = 102, tbl_count = 4\<rparr>, 3 \<mapsto> \<lparr>tbl_id = 103, tbl_count = 0\<rparr>]"
  let ?mem = "\<lparr>mem_hdrs = \<lambda>_. None, mem_tables = ?T\<rparr>"
  let ?ops = "[Cache_insert 1 10, Cache_insert 2 20, Cache_insert 3 30, Cache_move 2 25, Cache_get 2, Cache_iterate All_tables,
       Cache_resize 3 5, Cache_iterate Filled_tables, Cache_remove 101 10, Cache_iterate All_tables]"
  have "run_enabled cache_spec cache_enabled ?ops (mem_tables ?mem, [])" by (simp add: cache_index_def table_id_def)
  from table_cache_refines_list [OF this, of 9] obtain cache mem' cache' rs where
    R: "ecs_table_cache_init = Inr cache" "run_ops (cache_step 9) ?ops (?mem, cache) = Inr ((mem', cache'), rs)"
    "run_spec cache_spec ?ops (mem_tables ?mem, []) = ((mem_tables mem', cache_elems mem' cache'), rs)" by blast
  have "rs = [Nothing, Nothing, Nothing, Nothing, Element (Some 25), Elements [10, 25, 30],
       Nothing, Elements [25, 30], Nothing, Elements [25, 30]]"
    using R(3) by (simp add: cache_index_def table_id_def)
  with R(1,2) show ?thesis by blast
qed

end
