(* ===== verification/Strings.thy ===== *)
theory Strings
  imports Misc
begin

text \<open>
  The string utilities of \<open>src/misc.c\<close>: escaping and parsing of characters, escaping of strings into a buffer,
  conversion to snake case, the scanner for numbers, and the time and comparison helpers.

  A C string is the list of the characters before its terminator, a buffer a list of cells that are \<open>None\<close>
  until they are written; a write behind its end is undefined.  The classification functions of the C library
  are those of the C locale.
\<close>

section \<open>Characters\<close>

definition isdigit :: "char \<Rightarrow> bool" where
  "isdigit c \<longleftrightarrow> (48 :: nat) \<le> of_char c \<and> of_char c \<le> (57 :: nat)"

definition isupper :: "char \<Rightarrow> bool" where
  "isupper c \<longleftrightarrow> (65 :: nat) \<le> of_char c \<and> of_char c \<le> (90 :: nat)"

definition tolower :: "char \<Rightarrow> char" where
  "tolower c = (if isupper c then char_of ((of_char c :: nat) + 32) else c)"

definition isspace :: "char \<Rightarrow> bool" where
  "isspace c \<longleftrightarrow> c = CHR '' '' \<or> ((9 :: nat) \<le> of_char c \<and> of_char c \<le> (13 :: nat))"

definition NUL :: char where "NUL = CHR 0x00"

text \<open>
  The characters that \<open>flecs_chresc\<close> writes before the terminator; the returned pointer is behind them.
\<close>

definition flecs_chresc :: "char \<Rightarrow> char \<Rightarrow> string" where
  "flecs_chresc c delimiter =
     (if c = CHR 0x07 then [CHR 0x5C, CHR ''a'']
      else if c = CHR 0x08 then [CHR 0x5C, CHR ''b'']
      else if c = CHR 0x0C then [CHR 0x5C, CHR ''f'']
      else if c = CHR 0x0A then [CHR 0x5C, CHR ''n'']
      else if c = CHR 0x0D then [CHR 0x5C, CHR ''r'']
      else if c = CHR 0x09 then [CHR 0x5C, CHR ''t'']
      else if c = CHR 0x0B then [CHR 0x5C, CHR ''v'']
      else if c = CHR 0x5C then [CHR 0x5C, CHR 0x5C]
      else if c = CHR 0x1B then [CHR ''['']
      else if c = delimiter then [CHR 0x5C, delimiter]
      else [c])"

text \<open>\<open>chr_at s i\<close> reads a string, whose last readable character is the terminator.\<close>

definition chr_at :: "string \<Rightarrow> nat \<Rightarrow> char res" where
  "chr_at s i = (if i < length s then Inr (s ! i) else if i = length s then Inr NUL else Inl Undefined)"

text \<open>The number of characters that are consumed and the character; \<open>None\<close> is the null pointer.\<close>

definition flecs_chrparse :: "string \<Rightarrow> (nat \<times> char) option res" where
  "flecs_chrparse s =
     bindr (chr_at s 0) (\<lambda>c0.
     if c0 = CHR 0x5C then
       bindr (chr_at s 1) (\<lambda>c1.
       Inr (if c1 = CHR ''a'' then Some (2, CHR 0x07)
            else if c1 = CHR ''b'' then Some (2, CHR 0x08)
            else if c1 = CHR ''f'' then Some (2, CHR 0x0C)
            else if c1 = CHR ''n'' then Some (2, CHR 0x0A)
            else if c1 = CHR ''r'' then Some (2, CHR 0x0D)
            else if c1 = CHR ''t'' then Some (2, CHR 0x09)
            else if c1 = CHR ''v'' then Some (2, CHR 0x0B)
            else if c1 = CHR 0x5C then Some (2, CHR 0x5C)
            else if c1 = CHR 0x22 then Some (2, CHR 0x22)
            else if c1 = CHR ''0'' then Some (2, NUL)
            else if c1 = CHR '' '' then Some (2, CHR '' '')
            else if c1 = CHR ''$'' then Some (2, CHR ''$'')
            else None))
     else Inr (Some (1, c0)))"

section \<open>Escaping into a buffer\<close>

type_synonym buffer = "char option list"

definition buf_put :: "buffer \<Rightarrow> nat \<Rightarrow> char \<Rightarrow> buffer res" where
  "buf_put b i c = bindr (defined_if (i < length b)) (\<lambda>_. Inr (b[i := Some c]))"

text \<open>
  The loop of \<open>flecs_stresc\<close>: \<open>out\<close> is the buffer, or \<open>None\<close> for the null pointer, and \<open>pos\<close> the position of
  \<open>bptr\<close> in it.  The counter \<open>written\<close> is signed and has 32 bits; its overflow is undefined.
\<close>

fun stresc_loop ::
  "nat \<Rightarrow> char \<Rightarrow> string \<Rightarrow> buffer option \<Rightarrow> nat \<Rightarrow> nat \<Rightarrow> (buffer option \<times> nat \<times> nat) res" where
  "stresc_loop n delimiter [] out pos written = Inr (out, pos, written)"
| "stresc_loop n delimiter (c # s) out pos written =
     (let buff = flecs_chresc c delimiter; written = written + length buff in
      bindr (defined_if (written < 2 ^ 31)) (\<lambda>_.
      if written \<le> n then
        bindr (ecs_assert (out \<noteq> None) ECS_INVALID_PARAMETER) (\<lambda>_.
        bindr (buf_put (the out) pos (buff ! 0)) (\<lambda>b.
        if length buff > 1 then
          bindr (buf_put b (pos + 1) (buff ! 1)) (\<lambda>b. stresc_loop n delimiter s (Some b) (pos + 2) written)
        else stresc_loop n delimiter s (Some b) (pos + 1) written))
      else stresc_loop n delimiter s out pos written))"

text \<open>The rest of the buffer is filled with terminators.\<close>

fun stresc_pad :: "nat \<Rightarrow> buffer \<Rightarrow> nat \<Rightarrow> buffer res" where
  "stresc_pad 0 b pos = Inr b"
| "stresc_pad (Suc k) b pos = bindr (buf_put b pos NUL) (\<lambda>b. stresc_pad k b (pos + 1))"

definition flecs_stresc :: "buffer option \<Rightarrow> nat \<Rightarrow> char \<Rightarrow> string \<Rightarrow> (buffer option \<times> nat) res" where
  "flecs_stresc out n delimiter s =
     bindr (stresc_loop n delimiter s out 0 0) (\<lambda>(out, pos, written).
     case out of
       None \<Rightarrow> Inr (None, written)
     | Some b \<Rightarrow> bindr (stresc_pad (n - written) b pos) (\<lambda>b. Inr (Some b, max written n)))"

definition flecs_astresc :: "char \<Rightarrow> string option \<Rightarrow> buffer option res" where
  "flecs_astresc delimiter s =
     (case s of
        None \<Rightarrow> Inr None
      | Some s \<Rightarrow>
          bindr (flecs_stresc None 0 delimiter s) (\<lambda>(_, len).
          bindr (defined_if (len + 1 < 2 ^ 31)) (\<lambda>_.
          bindr (flecs_stresc (Some (replicate (len + 1) None)) len delimiter s) (\<lambda>(out, _).
          bindr (buf_put (the out) len NUL) (\<lambda>b. Inr (Some b))))))"

section \<open>Snake case\<close>

text \<open>
  The first loop counts from the second character on, so an empty string is read behind its terminator; the
  second loop writes through \<open>out_ptr\<close>, here the position \<open>length acc\<close> of the buffer.
\<close>

definition snake_put :: "nat \<Rightarrow> string \<Rightarrow> char \<Rightarrow> string res" where
  "snake_put size' acc c = bindr (defined_if (length acc < size')) (\<lambda>_. Inr (acc @ [c]))"

fun snake_loop :: "nat \<Rightarrow> string \<Rightarrow> string \<Rightarrow> string res" where
  "snake_loop size' [] acc = Inr acc"
| "snake_loop size' (c # s) acc =
     bindr (if isupper c then
              bindr (if acc \<noteq> [] \<and> last acc \<noteq> CHR ''_'' then snake_put size' acc CHR ''_'' else Inr acc) (\<lambda>acc.
              snake_put size' acc (tolower c))
            else snake_put size' acc c) (\<lambda>acc.
     snake_loop size' s acc)"

definition flecs_to_snake_case :: "string \<Rightarrow> string res" where
  "flecs_to_snake_case s =
     bindr (chr_at s 1) (\<lambda>_.
     let upper_count = length (filter isupper (tl s)); len = 1 + length (tl s); size' = len + upper_count + 1 in
     bindr (snake_loop size' s []) (\<lambda>out.
     bindr (defined_if (length out < size')) (\<lambda>_. Inr out)))"

section \<open>Scanning\<close>

definition flecs_parse_is_e :: "char \<Rightarrow> bool" where
  "flecs_parse_is_e e \<longleftrightarrow> e = CHR ''e'' \<or> e = CHR ''E''"

text \<open>
  The loop of \<open>flecs_parse_digit\<close>: \<open>prev\<close> is the character before \<open>ptr\<close> and \<open>token\<close> what has been written.
  A write behind \<open>token_size\<close> cells would be undefined.  \<open>None\<close> is the error \<open>number too long\<close>.
\<close>

fun parse_digit_loop :: "nat \<Rightarrow> char \<Rightarrow> string \<Rightarrow> string \<Rightarrow> (string \<times> string) option res" where
  "parse_digit_loop token_size prev [] token =
     bindr (defined_if (length token < token_size)) (\<lambda>_. Inr (Some (token, [])))"
| "parse_digit_loop token_size prev (c # s) token =
     (if \<not> isdigit c \<and> c \<noteq> CHR ''.'' \<and> \<not> flecs_parse_is_e c \<and> (c \<noteq> CHR ''-'' \<or> \<not> flecs_parse_is_e prev) then
        bindr (defined_if (length token < token_size)) (\<lambda>_. Inr (Some (token, c # s)))
      else if length token + 1 \<ge> token_size then Inr None
      else bindr (defined_if (length token < token_size)) (\<lambda>_. parse_digit_loop token_size c s (token @ [c])))"

definition flecs_parse_digit :: "string \<Rightarrow> nat \<Rightarrow> (string \<times> string) option res" where
  "flecs_parse_digit s token_size =
     bindr (chr_at s 0) (\<lambda>c.
     if \<not> isdigit c \<and> c \<noteq> CHR ''-'' then Inr None
     else bindr (defined_if (0 < token_size)) (\<lambda>_. parse_digit_loop token_size c (tl s) [c]))"

definition flecs_parse_ws_eol :: "string \<Rightarrow> string" where
  "flecs_parse_ws_eol s = dropWhile isspace s"

section \<open>Time, comparisons and conversions\<close>

record ecs_time_t =
  time_sec :: u32
  time_nanosec :: u32

definition ecs_time_sub :: "ecs_time_t \<Rightarrow> ecs_time_t \<Rightarrow> ecs_time_t" where
  "ecs_time_sub t1 t2 =
     (if time_nanosec t1 \<ge> time_nanosec t2 then
        \<lparr>time_sec = time_sec t1 - time_sec t2, time_nanosec = time_nanosec t1 - time_nanosec t2\<rparr>
      else
        \<lparr>time_sec = time_sec t1 - time_sec t2 - 1, time_nanosec = time_nanosec t1 - time_nanosec t2 + 1000000000\<rparr>)"

definition flecs_entity_compare :: "u64 \<Rightarrow> u64 \<Rightarrow> int" where
  "flecs_entity_compare e1 e2 = of_bool (e1 > e2) - of_bool (e1 < e2)"

definition flecs_id_qsort_cmp :: "u64 \<Rightarrow> u64 \<Rightarrow> int" where
  "flecs_id_qsort_cmp id_a id_b = of_bool (id_a > id_b) - of_bool (id_a < id_b)"

text \<open>\<open>size'\<close> is 1, 2, 4 or 8; the bounds are those of the integer types of that size.\<close>

definition flecs_ito :: "nat \<Rightarrow> bool \<Rightarrow> bool \<Rightarrow> u64 \<Rightarrow> u64 res" where
  "flecs_ito size' is_signed lt_zero u =
     (if is_signed then
        bindr (ecs_assert (- (2 ^ (8 * size' - 1)) \<le> sint u) ECS_INVALID_CONVERSION) (\<lambda>_.
        bindr (ecs_assert (sint u \<le> 2 ^ (8 * size' - 1) - 1) ECS_INVALID_CONVERSION) (\<lambda>_. Inr u))
      else
        bindr (ecs_assert (\<not> lt_zero) ECS_INVALID_CONVERSION) (\<lambda>_.
        bindr (ecs_assert (uint u \<le> 2 ^ (8 * size') - 1) ECS_INVALID_CONVERSION) (\<lambda>_. Inr u)))"

section \<open>Escaped strings\<close>

definition escaped :: "char \<Rightarrow> string \<Rightarrow> string" where
  "escaped delimiter s = concat (map (\<lambda>c. flecs_chresc c delimiter) s)"

lemma escaped_simps [simp]: "escaped d [] = []" "escaped d (c # s) = flecs_chresc c d @ escaped d s"
  by (simp_all add: escaped_def)

lemma chresc_cases: obtains x where "flecs_chresc c d = [x]" | x y where "flecs_chresc c d = [x, y]"
proof -
  have "length (flecs_chresc c d) = Suc 0 \<or> length (flecs_chresc c d) = Suc (Suc 0)" by (simp add: flecs_chresc_def)
  then show ?thesis using that by (auto simp: length_Suc_conv)
qed

lemma buf_put_simps [simp]: "i < length b \<Longrightarrow> buf_put b i c = Inr (b[i := Some c])" "buf_put b i c = Inr b' \<Longrightarrow> length b' = length b"
  by (auto simp: buf_put_def defined_if_def split: if_splits)

text \<open>Writing a string at a position.\<close>

definition buf_write :: "buffer \<Rightarrow> nat \<Rightarrow> string \<Rightarrow> buffer" where
  "buf_write b pos s = take pos b @ map Some s @ drop (pos + length s) b"

lemma length_buf_write [simp]: "pos + length s \<le> length b \<Longrightarrow> length (buf_write b pos s) = length b"
  by (simp add: buf_write_def)

lemma buf_write_Nil [simp]: "buf_write b pos [] = b"
  by (simp add: buf_write_def)

lemma buf_write_append:
  "pos + length s \<le> length b \<Longrightarrow> buf_write (buf_write b pos s) (pos + length s) t = buf_write b pos (s @ t)"
  by (simp add: buf_write_def ac_simps)

lemma buf_write_put: "pos < length b \<Longrightarrow> b[pos := Some c] = buf_write b pos [c]"
  by (simp add: buf_write_def upd_conv_take_nth_drop)

lemma drop_buf_write: "pos + length s \<le> n \<Longrightarrow> n \<le> length b \<Longrightarrow> drop n (buf_write b pos s) = drop n b"
  by (simp add: buf_write_def)

lemma stresc_loop_null:
  "w + length (escaped d s) < 2 ^ 31 \<Longrightarrow> stresc_loop 0 d s None pos w = Inr (None, pos, w + length (escaped d s))"
proof (induction s arbitrary: w)
  case (Cons c s)
  then show ?case by (cases rule: chresc_cases [of c d]) simp_all
qed simp

lemma stresc_loop_over:
  "n < w \<Longrightarrow> w + length (escaped d s) < 2 ^ 31 \<Longrightarrow> stresc_loop n d s (Some b) pos w = Inr (Some b, pos, w + length (escaped d s))"
  by (induction s arbitrary: w) (simp_all add: Let_def)

text \<open>A string whose escaped form does not fit into 31 bits overflows the counter.\<close>

lemma stresc_loop_overflow:
  "n < w \<Longrightarrow> w < 2 ^ 31 \<Longrightarrow> 2 ^ 31 \<le> w + length (escaped d s) \<Longrightarrow> stresc_loop n d s out pos w = Inl Undefined"
proof (induction s arbitrary: w)
  case (Cons c s)
  then show ?case by (cases "w + length (flecs_chresc c d) < 2 ^ 31") (simp_all add: Let_def)
qed simp

lemma stresc_put:
  assumes "w + length (flecs_chresc c d) \<le> n" and "n \<le> length b" and "n < 2 ^ 31"
  shows "stresc_loop n d (c # s) (Some b) w w =
    stresc_loop n d s (Some (buf_write b w (flecs_chresc c d))) (w + length (flecs_chresc c d)) (w + length (flecs_chresc c d))"
proof (cases rule: chresc_cases [of c d])
  case (1 x)
  then show ?thesis using assms by (simp add: buf_write_put)
next
  case (2 x y)
  then have "b[w := Some x, Suc w := Some y] = buf_write b w [x, y]"
    using assms buf_write_append [of w "[x]" b "[y]"] by (simp add: buf_write_put)
  then show ?thesis using 2 assms by simp
qed

text \<open>The loop writes a prefix of the escaped string, all of it when it fits.\<close>

lemma stresc_loop_ok:
  assumes "w \<le> n" and "n \<le> length b" and "n < 2 ^ 31" and "w + length (escaped d s) < 2 ^ 31"
  shows "\<exists>t u. stresc_loop n d s (Some b) w w = Inr (Some (buf_write b w t), w + length t, w + length (escaped d s)) \<and>
    escaped d s = t @ u \<and> w + length t \<le> n \<and> (w + length (escaped d s) \<le> n \<longrightarrow> u = [])"
  using assms
proof (induction s arbitrary: b w)
  case (Cons c s)
  let ?e = "flecs_chresc c d"
  show ?case
  proof (cases "w + length ?e \<le> n")
    case True
    with Cons.prems have "w + length ?e \<le> n" "n \<le> length (buf_write b w ?e)" "n < 2 ^ 31"
      "w + length ?e + length (escaped d s) < 2 ^ 31" by simp_all
    from Cons.IH [OF this] obtain t u where
      "stresc_loop n d s (Some (buf_write b w ?e)) (w + length ?e) (w + length ?e) =
        Inr (Some (buf_write b w (?e @ t)), w + length (?e @ t), w + length (escaped d (c # s)))"
      "escaped d s = t @ u" "w + length ?e + length t \<le> n" "w + length ?e + length (escaped d s) \<le> n \<longrightarrow> u = []"
      using buf_write_append [of w ?e b] True Cons.prems(2) by (auto simp: add.assoc)
    then show ?thesis using stresc_put [OF True Cons.prems(2,3)] by (intro exI [of _ "?e @ t"] exI [of _ u]) (simp add: add.assoc)
  next
    case False
    then show ?thesis using Cons.prems stresc_loop_over [of n "w + length ?e" d s b w]
      by (intro exI [of _ "[]"] exI [of _ "escaped d (c # s)"]) (simp add: Let_def add.assoc)
  qed
qed simp

lemma stresc_overflow:
  assumes "w \<le> n" and "n \<le> length b" and "n < 2 ^ 31" and "2 ^ 31 \<le> w + length (escaped d s)"
  shows "stresc_loop n d s (Some b) w w = Inl Undefined"
  using assms
proof (induction s arbitrary: b w)
  case (Cons c s)
  let ?e = "flecs_chresc c d"
  consider "w + length ?e \<le> n" | "n < w + length ?e" "w + length ?e < 2 ^ 31" | "2 ^ 31 \<le> w + length ?e" by linarith
  then show ?case
  proof cases
    case 1
    have "stresc_loop n d s (Some (buf_write b w ?e)) (w + length ?e) (w + length ?e) = Inl Undefined"
      using 1 Cons.prems by (intro Cons.IH) simp_all
    then show ?thesis using stresc_put [OF 1 Cons.prems(2,3)] by simp
  next
    case 2
    then show ?thesis using Cons.prems(4) stresc_loop_overflow [of n "w + length ?e" d s "Some b" w] by (simp add: Let_def)
  next
    case 3
    then show ?thesis by (simp add: Let_def)
  qed
qed simp

lemma stresc_pad_ok: "pos + k \<le> length b \<Longrightarrow> stresc_pad k b pos = Inr (buf_write b pos (replicate k NUL))"
proof (induction k arbitrary: b pos)
  case (Suc k)
  then have "stresc_pad (Suc k) b pos = stresc_pad k (buf_write b pos [NUL]) (pos + 1)" by (simp add: buf_write_put)
  also have "\<dots> = Inr (buf_write b pos (replicate (Suc k) NUL))"
    using Suc buf_write_append [of pos "[NUL]" b "replicate k NUL"] by simp
  finally show ?case .
qed simp

text \<open>Reading an escaped string back, one character after the other; the fuel bounds the characters.\<close>

fun chrparse_all :: "nat \<Rightarrow> string \<Rightarrow> string option res" where
  "chrparse_all n [] = Inr (Some [])"
| "chrparse_all 0 s = Inr None"
| "chrparse_all (Suc n) s =
     bindr (flecs_chrparse s) (\<lambda>r.
     case r of
       None \<Rightarrow> Inr None
     | Some (k, c) \<Rightarrow> bindr (chrparse_all n (drop k s)) (\<lambda>cs. Inr (map_option (Cons c) cs)))"

lemma chrparse_chresc:
  assumes "d \<in> {CHR 0x22, CHR '' '', CHR ''$''}" and "c \<noteq> CHR 0x1B"
  shows "flecs_chrparse (flecs_chresc c d @ s) = Inr (Some (length (flecs_chresc c d), c))"
proof (cases "c \<in> {CHR 0x07, CHR 0x08, CHR 0x0C, CHR 0x0A, CHR 0x0D, CHR 0x09, CHR 0x0B, CHR 0x5C}")
  case True
  then show ?thesis by (elim insertE emptyE; simp add: flecs_chrparse_def flecs_chresc_def chr_at_def)
next
  case False
  then have e: "flecs_chresc c d = (if c = d then [CHR 0x5C, d] else [c])" using assms(2) by (simp add: flecs_chresc_def)
  show ?thesis
  proof (cases "c = d")
    case True
    then show ?thesis using assms(1) unfolding e
      by (elim insertE emptyE; simp add: flecs_chrparse_def chr_at_def)
  next
    case c: False
    then show ?thesis using False unfolding e by (simp add: flecs_chrparse_def chr_at_def)
  qed
qed

lemma chrparse_escaped:
  assumes "d \<in> {CHR 0x22, CHR '' '', CHR ''$''}" and "CHR 0x1B \<notin> set s" and "length (escaped d s) \<le> n"
  shows "chrparse_all n (escaped d s) = Inr (Some s)"
  using assms(2,3)
proof (induction s arbitrary: n)
  case (Cons c s)
  obtain x xs where e: "flecs_chresc c d = x # xs" by (cases rule: chresc_cases [of c d]) auto
  obtain m where m: "n = Suc m" "length (escaped d s) \<le> m" using Cons.prems(2) e by (cases n) auto
  have "flecs_chrparse (escaped d (c # s)) = Inr (Some (length (flecs_chresc c d), c))"
    using chrparse_chresc [OF assms(1), of c "escaped d s"] Cons.prems(1) by auto
  then show ?case using Cons.IH [of m] m Cons.prems(1) e by simp
qed simp

section \<open>Properties\<close>

text \<open>
  C31: \<open>flecs_stresc\<close> never writes more than the \<open>n\<close> characters it was given room for: on every string whose
  escaped form is shorter than 2 ^ 31 characters it returns the larger of \<open>n\<close> and the length of the escaped
  form, leaves the cells of the buffer behind \<open>n\<close> alone, writes a prefix of the escaped string, all of it if
  it fits, and fills the rest up to \<open>n\<close> with terminators.  A longer string overflows the signed counter.
\<close>

theorem flecs_stresc_in_bounds:
  assumes "n \<le> length b" and "n < 2 ^ 31"
  shows "if length (escaped d s) < 2 ^ 31 then
      \<exists>t u. flecs_stresc (Some b) n d s =
        Inr (Some (buf_write b 0 (t @ replicate (n - length (escaped d s)) NUL)), max (length (escaped d s)) n) \<and>
      escaped d s = t @ u \<and> length (t @ replicate (n - length (escaped d s)) NUL) \<le> n \<and> (length (escaped d s) \<le> n \<longrightarrow> u = [])
    else flecs_stresc (Some b) n d s = Inl Undefined"
proof (cases "length (escaped d s) < 2 ^ 31")
  case True
  obtain t u where t: "stresc_loop n d s (Some b) 0 0 = Inr (Some (buf_write b 0 t), length t, length (escaped d s))"
    "escaped d s = t @ u" "length t \<le> n" "length (escaped d s) \<le> n \<longrightarrow> u = []"
    using stresc_loop_ok [of 0 n b d s] assms True by auto
  have fit: "length t + (n - length (escaped d s)) \<le> n" using t by (cases "length (escaped d s) \<le> n") auto
  then have "stresc_pad (n - length (escaped d s)) (buf_write b 0 t) (length t) =
      Inr (buf_write b 0 (t @ replicate (n - length (escaped d s)) NUL))"
    using stresc_pad_ok [of "length t"] buf_write_append [of 0 t b] t(3) assms by simp
  then show ?thesis using t fit True unfolding if_P [OF True]
    by (intro exI [of _ t] exI [of _ u]) (simp add: flecs_stresc_def)
next
  case False
  then show ?thesis using stresc_overflow [of 0 n b d s] assms by (simp add: flecs_stresc_def)
qed

theorem flecs_stresc_in_bounds_witness:
  "\<exists>t u. flecs_stresc (Some [None, None, None, None]) 3 CHR 0x22 [CHR ''a'', CHR 0x0A, CHR ''b''] =
       Inr (Some (buf_write [None, None, None, None] 0 (t @ replicate (3 - 4) NUL)), max 4 3) \<and>
     [CHR ''a'', CHR 0x5C, CHR ''n'', CHR ''b''] = t @ u \<and> length t \<le> 3"
proof -
  have e: "escaped CHR 0x22 [CHR ''a'', CHR 0x0A, CHR ''b''] = [CHR ''a'', CHR 0x5C, CHR ''n'', CHR ''b'']"
    by (simp add: flecs_chresc_def)
  from flecs_stresc_in_bounds [of 3 "[None, None, None, None]" "CHR 0x22" "[CHR ''a'', CHR 0x0A, CHR ''b'']"]
  show ?thesis unfolding e by auto
qed

text \<open>
  C30: \<open>flecs_astresc\<close> allocates exactly what it needs, and \<open>flecs_chrparse\<close> reads the result back: the buffer is the
  escaped string with one terminator, no write leaves it, and parsing it character by character gives the
  original string.  The delimiter has to be one that the parser knows (a quote, a space or a dollar sign), the
  string must not contain the escape character 0x1B, which \<open>flecs_chresc\<close> replaces by a bracket, and the escaped
  string with its terminator has to be shorter than 2 ^ 31 characters.
\<close>

theorem flecs_astresc_roundtrip:
  assumes "d \<in> {CHR 0x22, CHR '' '', CHR ''$''}" and "CHR 0x1B \<notin> set s" and "length (escaped d s) + 1 < 2 ^ 31"
  shows "\<exists>e. flecs_astresc d (Some s) = Inr (Some (map Some (e @ [NUL]))) \<and> chrparse_all (length e) e = Inr (Some s)"
proof -
  let ?n = "length (escaped d s)" and ?b = "replicate (length (escaped d s) + 1) (None :: char option)"
  obtain t u where t: "stresc_loop ?n d s (Some ?b) 0 0 = Inr (Some (buf_write ?b 0 t), length t, ?n)" "escaped d s = t @ u" "u = []"
    using stresc_loop_ok [of 0 ?n ?b d s] assms(3) by auto
  have "flecs_stresc None 0 d s = Inr (None, ?n)" using stresc_loop_null [of 0 d s 0] assms(3) by (simp add: flecs_stresc_def)
  moreover have "flecs_stresc (Some ?b) ?n d s = Inr (Some (buf_write ?b 0 (escaped d s)), ?n)" using t by (simp add: flecs_stresc_def)
  moreover have "(buf_write ?b 0 (escaped d s))[?n := Some NUL] = map Some (escaped d s @ [NUL])"
    using replicate_append_same [of ?n "None :: char option"] by (simp add: buf_write_def list_update_append flip: replicate_append_same)
  ultimately have "flecs_astresc d (Some s) = Inr (Some (map Some (escaped d s @ [NUL])))"
    using assms(3) by (simp add: flecs_astresc_def)
  moreover have "chrparse_all ?n (escaped d s) = Inr (Some s)" using chrparse_escaped [OF assms(1,2)] by simp
  ultimately show ?thesis by blast
qed

theorem flecs_astresc_roundtrip_witness:
  "\<exists>e. flecs_astresc CHR 0x22 (Some [CHR 0x0A, CHR 0x22, CHR ''x'']) = Inr (Some (map Some (e @ [NUL]))) \<and>
     chrparse_all (length e) e = Inr (Some [CHR 0x0A, CHR 0x22, CHR ''x''])"
  using flecs_astresc_roundtrip [of "CHR 0x22" "[CHR 0x0A, CHR 0x22, CHR ''x'']"] by (simp add: flecs_chresc_def)

section \<open>Snake case and numbers\<close>

lemma not_isupper_tolower [simp]: "\<not> isupper (tolower c)"
  by (auto simp: tolower_def isupper_def)

lemma snake_loop_ok:
  assumes "length acc + length s + length (filter isupper (if acc = [] then tl s else s)) < size'" and "\<forall>c \<in> set acc. \<not> isupper c"
  shows "\<exists>out. snake_loop size' s acc = Inr out \<and> length out < size' \<and> (\<forall>c \<in> set out. \<not> isupper c)"
  using assms
proof (induction s arbitrary: acc)
  case (Cons c s)
  have next_ok: ?case if "snake_loop size' (c # s) acc = snake_loop size' s (acc @ x)" "x \<noteq> []"
    "length x + length s + length acc + length (filter isupper s) < size'" "\<forall>c \<in> set x. \<not> isupper c" for x
    using Cons.IH [of "acc @ x"] that Cons.prems(2) by auto
  show ?case
  proof (cases "isupper c")
    case False
    have "snake_loop size' (c # s) acc = snake_loop size' s (acc @ [c])"
      using False Cons.prems(1) by (simp add: snake_put_def)
    then show ?thesis using False Cons.prems(1) by (intro next_ok [of "[c]"]) (auto split: if_splits)
  next
    case up: True
    show ?thesis
    proof (cases "acc \<noteq> [] \<and> last acc \<noteq> CHR ''_''")
      case True
      have "snake_loop size' (c # s) acc = snake_loop size' s (acc @ [CHR ''_'', tolower c])"
        using up True Cons.prems(1) by (simp add: snake_put_def)
      moreover have "\<not> isupper CHR ''_''" by (simp add: isupper_def)
      ultimately show ?thesis using up True Cons.prems(1) by (intro next_ok [of "[CHR ''_'', tolower c]"]) simp_all
    next
      case False
      have "snake_loop size' (c # s) acc = snake_loop size' s (acc @ [tolower c])"
        using up False Cons.prems(1) by (auto simp: snake_put_def split: if_splits)
      then show ?thesis using up Cons.prems(1) by (intro next_ok [of "[tolower c]"]) (auto split: if_splits)
    qed
  qed
qed simp

text \<open>
  The buffer of \<open>flecs_to_snake_case\<close> is large enough for every non-empty string, and the result has no upper case
  letter.  The empty string is read behind its terminator.
\<close>

lemma to_snake_case_ok:
  assumes "s \<noteq> []"
  shows "\<exists>out. flecs_to_snake_case s = Inr out \<and> (\<forall>c \<in> set out. \<not> isupper c)"
proof -
  obtain c cs where s: "s = c # cs" using assms by (cases s) auto
  let ?size = "1 + length cs + length (filter isupper cs) + 1"
  obtain out where out: "snake_loop ?size s [] = Inr out" "length out < ?size" "\<forall>c \<in> set out. \<not> isupper c"
    using snake_loop_ok [of "[]" s ?size] s by auto
  have "chr_at s 1 = Inr (if cs = [] then NUL else hd cs)" using s by (cases cs) (simp_all add: chr_at_def)
  then have "flecs_to_snake_case s = Inr out"
    unfolding flecs_to_snake_case_def s list.sel Let_def using out(1,2) s by (simp del: snake_loop.simps)
  then show ?thesis using out(3) by blast
qed

lemma to_snake_case_empty: "flecs_to_snake_case [] = Inl Undefined"
  by (simp add: flecs_to_snake_case_def chr_at_def)

lemma parse_digit_loop_ok:
  assumes "length token < token_size"
  shows "\<exists>r. parse_digit_loop token_size prev s token = Inr r \<and>
    (\<forall>tok rest. r = Some (tok, rest) \<longrightarrow> length tok < token_size \<and> token @ s = tok @ rest)"
  using assms
proof (induction s arbitrary: prev token)
  case (Cons c s)
  show ?case
  proof (cases "length token + 1 < token_size")
    case True
    then have "\<exists>r. parse_digit_loop token_size c s (token @ [c]) = Inr r \<and>
        (\<forall>tok rest. r = Some (tok, rest) \<longrightarrow> length tok < token_size \<and> (token @ [c]) @ s = tok @ rest)"
      by (intro Cons.IH) simp
    then show ?thesis using Cons.prems by auto
  next
    case False
    then show ?thesis using Cons.prems by simp
  qed
qed simp

text \<open>
  \<open>flecs_parse_digit\<close> stays inside the token buffer and returns, for every input and every buffer of at least
  two characters: it either reports an error or has copied a prefix of the input, with room for the
  terminator, and returns the rest of the input.
\<close>

theorem flecs_parse_digit_in_bounds:
  assumes "2 \<le> token_size"
  shows "\<exists>r. flecs_parse_digit s token_size = Inr r \<and>
    (\<forall>tok rest. r = Some (tok, rest) \<longrightarrow> length tok < token_size \<and> s = tok @ rest)"
proof (cases s)
  case Nil
  then show ?thesis by (simp add: flecs_parse_digit_def chr_at_def isdigit_def NUL_def)
next
  case (Cons c cs)
  then show ?thesis using parse_digit_loop_ok [of "[c]" token_size c cs] assms by (simp add: flecs_parse_digit_def chr_at_def)
qed

theorem flecs_parse_digit_in_bounds_witness:
  "\<exists>r. flecs_parse_digit ''12,3'' 4 = Inr r \<and> (\<forall>tok rest. r = Some (tok, rest) \<longrightarrow> length tok < 4 \<and> ''12,3'' = tok @ rest)"
  using flecs_parse_digit_in_bounds [of 4 "''12,3''"] by simp

end
