(* ===== verification/TypeInfo.thy ===== *)
theory TypeInfo
  imports Prelude
begin

text \<open>
  Component types and their lifecycle hooks, \<open>src/type_info.c\<close>.

  A cell holds a component value, or nothing: \<open>None\<close> is memory without a constructed value.  The hooks are
  functions of the application, so they are values of the model: a constructor or destructor takes the cell to
  a new one, a copy or move takes the destination and the source.  Each also gives the list of the values
  whose resources it released, which is how the lemmas speak about leaks and double destruction.  A hook that is
  called for an array treats its elements one after the other.

  A hook pointer is null, a function of the application, one of the default functions of the source, or the
  function that reports an illegal hook.  The default functions call the hooks of the type again; those that
  they call (constructor, destructor, copy and move) are never default functions other than the default constructor.
  The debug flag that records the first call of a hook is left out of the calls.
\<close>

section \<open>State\<close>

type_synonym 'v cell = "'v option"
type_synonym 'v xtor = "'v cell \<Rightarrow> ('v cell \<times> 'v list) res"
type_synonym 'v copier = "'v cell \<Rightarrow> 'v cell \<Rightarrow> ('v cell \<times> 'v list) res"
type_synonym 'v mover = "'v cell \<Rightarrow> 'v cell \<Rightarrow> (('v cell \<times> 'v cell) \<times> 'v list) res"

datatype default_hook =
    flecs_default_ctor | flecs_default_copy_ctor | flecs_default_move_ctor
  | flecs_default_ctor_w_move_w_dtor | flecs_default_move_ctor_w_dtor
  | flecs_default_move | flecs_default_dtor | flecs_default_move_w_dtor | flecs_default_equals

datatype 'f hook = App 'f | Default default_hook | Illegal

record 'v ecs_type_hooks_t =
  h_ctor :: "'v xtor hook option"
  h_dtor :: "'v xtor hook option"
  h_copy :: "'v copier hook option"
  h_move :: "'v mover hook option"
  h_copy_ctor :: "'v copier hook option"
  h_move_ctor :: "'v mover hook option"
  h_ctor_move_dtor :: "'v mover hook option"
  h_move_dtor :: "'v mover hook option"
  h_cmp :: "('v \<Rightarrow> 'v \<Rightarrow> int) hook option"
  h_equals :: "('v \<Rightarrow> 'v \<Rightarrow> bool) hook option"
  h_flags :: u32
  h_on_add :: bool
  h_on_set :: bool
  h_on_remove :: bool
  h_on_replace :: bool

text \<open>\<open>ti_zero\<close> is the value whose bytes are all 0.  The callbacks \<open>on_add\<close> and so on are set or not.\<close>

record 'v ecs_type_info_t =
  ti_size :: nat
  ti_alignment :: nat
  ti_hooks :: "'v ecs_type_hooks_t"
  ti_component :: u64
  ti_zero :: 'v

definition ECS_TYPE_HOOK_CTOR :: u32 where "ECS_TYPE_HOOK_CTOR = 0x1"
definition ECS_TYPE_HOOK_DTOR :: u32 where "ECS_TYPE_HOOK_DTOR = 0x2"
definition ECS_TYPE_HOOK_COPY :: u32 where "ECS_TYPE_HOOK_COPY = 0x4"
definition ECS_TYPE_HOOK_MOVE :: u32 where "ECS_TYPE_HOOK_MOVE = 0x8"
definition ECS_TYPE_HOOK_COPY_CTOR :: u32 where "ECS_TYPE_HOOK_COPY_CTOR = 0x10"
definition ECS_TYPE_HOOK_MOVE_CTOR :: u32 where "ECS_TYPE_HOOK_MOVE_CTOR = 0x20"
definition ECS_TYPE_HOOK_CTOR_MOVE_DTOR :: u32 where "ECS_TYPE_HOOK_CTOR_MOVE_DTOR = 0x40"
definition ECS_TYPE_HOOK_MOVE_DTOR :: u32 where "ECS_TYPE_HOOK_MOVE_DTOR = 0x80"
definition ECS_TYPE_HOOK_CMP :: u32 where "ECS_TYPE_HOOK_CMP = 0x100"
definition ECS_TYPE_HOOK_EQUALS :: u32 where "ECS_TYPE_HOOK_EQUALS = 0x200"
definition ECS_TYPE_HOOK_CTOR_ILLEGAL :: u32 where "ECS_TYPE_HOOK_CTOR_ILLEGAL = 0x400"
definition ECS_TYPE_HOOK_DTOR_ILLEGAL :: u32 where "ECS_TYPE_HOOK_DTOR_ILLEGAL = 0x1000"
definition ECS_TYPE_HOOK_COPY_ILLEGAL :: u32 where "ECS_TYPE_HOOK_COPY_ILLEGAL = 0x2000"
definition ECS_TYPE_HOOK_MOVE_ILLEGAL :: u32 where "ECS_TYPE_HOOK_MOVE_ILLEGAL = 0x4000"
definition ECS_TYPE_HOOK_COPY_CTOR_ILLEGAL :: u32 where "ECS_TYPE_HOOK_COPY_CTOR_ILLEGAL = 0x8000"
definition ECS_TYPE_HOOK_MOVE_CTOR_ILLEGAL :: u32 where "ECS_TYPE_HOOK_MOVE_CTOR_ILLEGAL = 0x10000"
definition ECS_TYPE_HOOK_CTOR_MOVE_DTOR_ILLEGAL :: u32 where "ECS_TYPE_HOOK_CTOR_MOVE_DTOR_ILLEGAL = 0x20000"
definition ECS_TYPE_HOOK_MOVE_DTOR_ILLEGAL :: u32 where "ECS_TYPE_HOOK_MOVE_DTOR_ILLEGAL = 0x40000"
definition ECS_TYPE_HOOK_CMP_ILLEGAL :: u32 where "ECS_TYPE_HOOK_CMP_ILLEGAL = 0x80000"
definition ECS_TYPE_HOOK_EQUALS_ILLEGAL :: u32 where "ECS_TYPE_HOOK_EQUALS_ILLEGAL = 0x100000"
definition ECS_TYPE_HOOK_IN_USE :: u32 where "ECS_TYPE_HOOK_IN_USE = 0x200000"
definition ECS_TYPE_HOOKS :: u32 where "ECS_TYPE_HOOKS = 0x3FF"
definition ECS_TYPE_HOOKS_ILLEGAL :: u32 where "ECS_TYPE_HOOKS_ILLEGAL = 0x1FF400"

lemmas hook_flag_defs =
  ECS_TYPE_HOOK_CTOR_def ECS_TYPE_HOOK_DTOR_def ECS_TYPE_HOOK_COPY_def ECS_TYPE_HOOK_MOVE_def
  ECS_TYPE_HOOK_COPY_CTOR_def ECS_TYPE_HOOK_MOVE_CTOR_def ECS_TYPE_HOOK_CTOR_MOVE_DTOR_def
  ECS_TYPE_HOOK_MOVE_DTOR_def ECS_TYPE_HOOK_CMP_def ECS_TYPE_HOOK_EQUALS_def ECS_TYPE_HOOK_CTOR_ILLEGAL_def
  ECS_TYPE_HOOK_DTOR_ILLEGAL_def ECS_TYPE_HOOK_COPY_ILLEGAL_def ECS_TYPE_HOOK_MOVE_ILLEGAL_def
  ECS_TYPE_HOOK_COPY_CTOR_ILLEGAL_def ECS_TYPE_HOOK_MOVE_CTOR_ILLEGAL_def ECS_TYPE_HOOK_CTOR_MOVE_DTOR_ILLEGAL_def
  ECS_TYPE_HOOK_MOVE_DTOR_ILLEGAL_def ECS_TYPE_HOOK_CMP_ILLEGAL_def ECS_TYPE_HOOK_EQUALS_ILLEGAL_def
  ECS_TYPE_HOOK_IN_USE_def ECS_TYPE_HOOKS_def ECS_TYPE_HOOKS_ILLEGAL_def

definition FLECS_HI_COMPONENT_ID :: u64 where "FLECS_HI_COMPONENT_ID = 256"

definition has_flag :: "u32 \<Rightarrow> u32 \<Rightarrow> bool" where
  "has_flag flags m \<longleftrightarrow> flags AND m \<noteq> 0"

section \<open>Calling a hook\<close>

text \<open>One element.  A call through a pointer of the application, or of the function that aborts.\<close>

definition call_app :: "'f hook \<Rightarrow> ('f \<Rightarrow> 'r res) \<Rightarrow> 'r res" where
  "call_app p k = (case p of App f \<Rightarrow> k f | Default _ \<Rightarrow> Inl Undefined | Illegal \<Rightarrow> Inl (Abort ECS_INVALID_OPERATION))"

definition deref_hook :: "'f hook option \<Rightarrow> 'f hook res" where
  "deref_hook p = (case p of None \<Rightarrow> Inl Undefined | Some p \<Rightarrow> Inr p)"

definition call_ctor :: "'v ecs_type_info_t \<Rightarrow> 'v xtor hook \<Rightarrow> 'v xtor" where
  "call_ctor ti p c =
     (case p of Default flecs_default_ctor \<Rightarrow> Inr (Some (ti_zero ti), []) | _ \<Rightarrow> call_app p (\<lambda>f. f c))"

definition call_dtor :: "'v ecs_type_info_t \<Rightarrow> 'v xtor hook \<Rightarrow> 'v xtor" where
  "call_dtor ti p c = call_app p (\<lambda>f. f c)"

definition call_copy :: "'v ecs_type_info_t \<Rightarrow> 'v copier hook \<Rightarrow> 'v copier" where
  "call_copy ti p dst src =
     (case p of
        Default flecs_default_copy_ctor \<Rightarrow>
          bindr (deref_hook (h_ctor (ti_hooks ti))) (\<lambda>ctor.
          bindr (call_ctor ti ctor dst) (\<lambda>(dst, l1).
          bindr (deref_hook (h_copy (ti_hooks ti))) (\<lambda>copy.
          bindr (call_app copy (\<lambda>f. f dst src)) (\<lambda>(dst, l2).
          Inr (dst, l1 @ l2)))))
      | _ \<Rightarrow> call_app p (\<lambda>f. f dst src))"

text \<open>\<open>call_move_ctor\<close> is a call through \<open>move_ctor\<close>, \<open>call_move\<close> one through the other move pointers.\<close>

definition call_move_ctor :: "'v ecs_type_info_t \<Rightarrow> 'v mover hook \<Rightarrow> 'v mover" where
  "call_move_ctor ti p dst src =
     (case p of
        Default flecs_default_move_ctor \<Rightarrow>
          bindr (deref_hook (h_ctor (ti_hooks ti))) (\<lambda>ctor.
          bindr (call_ctor ti ctor dst) (\<lambda>(dst, l1).
          bindr (deref_hook (h_move (ti_hooks ti))) (\<lambda>move.
          bindr (call_app move (\<lambda>f. f dst src)) (\<lambda>(ds, l2).
          Inr (ds, l1 @ l2)))))
      | _ \<Rightarrow> call_app p (\<lambda>f. f dst src))"

definition call_move :: "'v ecs_type_info_t \<Rightarrow> 'v mover hook \<Rightarrow> 'v mover" where
  "call_move ti p dst src =
     (let dtor = (\<lambda>c. bindr (deref_hook (h_dtor (ti_hooks ti))) (\<lambda>d. call_dtor ti d c));
          move = (\<lambda>dst src. bindr (deref_hook (h_move (ti_hooks ti))) (\<lambda>m. call_app m (\<lambda>f. f dst src))) in
      case p of
        Default flecs_default_ctor_w_move_w_dtor \<Rightarrow>
          bindr (deref_hook (h_ctor (ti_hooks ti))) (\<lambda>ctor.
          bindr (call_ctor ti ctor dst) (\<lambda>(dst, l1).
          bindr (move dst src) (\<lambda>((dst, src), l2).
          bindr (dtor src) (\<lambda>(src, l3).
          Inr ((dst, src), l1 @ l2 @ l3)))))
      | Default flecs_default_move_ctor_w_dtor \<Rightarrow>
          bindr (deref_hook (h_move_ctor (ti_hooks ti))) (\<lambda>move_ctor.
          bindr (call_move_ctor ti move_ctor dst src) (\<lambda>((dst, src), l1).
          bindr (dtor src) (\<lambda>(src, l2).
          Inr ((dst, src), l1 @ l2))))
      | Default flecs_default_move \<Rightarrow> move dst src
      | Default flecs_default_dtor \<Rightarrow>
          bindr (dtor dst) (\<lambda>(_, l). Inr ((src, src), l))
      | Default flecs_default_move_w_dtor \<Rightarrow>
          bindr (move dst src) (\<lambda>((dst, src), l1).
          bindr (dtor src) (\<lambda>(src, l2).
          Inr ((dst, src), l1 @ l2)))
      | _ \<Rightarrow> call_move_ctor ti p dst src)"

text \<open>
  The functions that the storage calls, for one element: the illegal flag is checked, and a null hook is a
  plain copy of the bytes (for constructor and destructor: nothing).
\<close>

definition flecs_type_info_ctor :: "'v ecs_type_info_t \<Rightarrow> 'v xtor" where
  "flecs_type_info_ctor ti c =
     bindr (ecs_assert (\<not> has_flag (h_flags (ti_hooks ti)) ECS_TYPE_HOOK_CTOR_ILLEGAL) ECS_INVALID_OPERATION) (\<lambda>_.
     case h_ctor (ti_hooks ti) of None \<Rightarrow> Inr (c, []) | Some p \<Rightarrow> call_ctor ti p c)"

definition flecs_type_info_dtor :: "'v ecs_type_info_t \<Rightarrow> 'v xtor" where
  "flecs_type_info_dtor ti c =
     bindr (ecs_assert (\<not> has_flag (h_flags (ti_hooks ti)) ECS_TYPE_HOOK_DTOR_ILLEGAL) ECS_INVALID_OPERATION) (\<lambda>_.
     case h_dtor (ti_hooks ti) of None \<Rightarrow> Inr (c, []) | Some p \<Rightarrow> call_dtor ti p c)"

definition flecs_type_info_copy :: "'v ecs_type_info_t \<Rightarrow> 'v copier" where
  "flecs_type_info_copy ti dst src =
     bindr (ecs_assert (\<not> has_flag (h_flags (ti_hooks ti)) ECS_TYPE_HOOK_COPY_ILLEGAL) ECS_INVALID_OPERATION) (\<lambda>_.
     case h_copy (ti_hooks ti) of None \<Rightarrow> Inr (src, []) | Some p \<Rightarrow> call_copy ti p dst src)"

definition flecs_type_info_move :: "'v ecs_type_info_t \<Rightarrow> 'v mover" where
  "flecs_type_info_move ti dst src =
     bindr (ecs_assert (\<not> has_flag (h_flags (ti_hooks ti)) ECS_TYPE_HOOK_MOVE_ILLEGAL) ECS_INVALID_OPERATION) (\<lambda>_.
     case h_move (ti_hooks ti) of None \<Rightarrow> Inr ((src, src), []) | Some p \<Rightarrow> call_move ti p dst src)"

definition flecs_type_info_copy_ctor :: "'v ecs_type_info_t \<Rightarrow> 'v copier" where
  "flecs_type_info_copy_ctor ti dst src =
     bindr (ecs_assert (\<not> has_flag (h_flags (ti_hooks ti)) ECS_TYPE_HOOK_COPY_CTOR_ILLEGAL) ECS_INVALID_OPERATION) (\<lambda>_.
     case h_copy_ctor (ti_hooks ti) of None \<Rightarrow> Inr (src, []) | Some p \<Rightarrow> call_copy ti p dst src)"

definition flecs_type_info_move_ctor :: "'v ecs_type_info_t \<Rightarrow> 'v mover" where
  "flecs_type_info_move_ctor ti dst src =
     bindr (ecs_assert (\<not> has_flag (h_flags (ti_hooks ti)) ECS_TYPE_HOOK_MOVE_CTOR_ILLEGAL) ECS_INVALID_OPERATION) (\<lambda>_.
     case h_move_ctor (ti_hooks ti) of None \<Rightarrow> Inr ((src, src), []) | Some p \<Rightarrow> call_move ti p dst src)"

definition flecs_type_info_ctor_move_dtor :: "'v ecs_type_info_t \<Rightarrow> 'v mover" where
  "flecs_type_info_ctor_move_dtor ti dst src =
     bindr (ecs_assert (\<not> has_flag (h_flags (ti_hooks ti)) ECS_TYPE_HOOK_CTOR_MOVE_DTOR_ILLEGAL) ECS_INVALID_OPERATION) (\<lambda>_.
     case h_ctor_move_dtor (ti_hooks ti) of None \<Rightarrow> Inr ((src, src), []) | Some p \<Rightarrow> call_move ti p dst src)"

definition flecs_type_info_move_dtor :: "'v ecs_type_info_t \<Rightarrow> 'v mover" where
  "flecs_type_info_move_dtor ti dst src =
     bindr (ecs_assert (\<not> has_flag (h_flags (ti_hooks ti)) ECS_TYPE_HOOK_MOVE_DTOR_ILLEGAL) ECS_INVALID_OPERATION) (\<lambda>_.
     case h_move_dtor (ti_hooks ti) of None \<Rightarrow> Inr ((src, src), []) | Some p \<Rightarrow> call_move ti p dst src)"

definition flecs_type_info_cmp :: "'v ecs_type_info_t \<Rightarrow> 'v \<Rightarrow> 'v \<Rightarrow> int res" where
  "flecs_type_info_cmp ti a b =
     bindr (ecs_assert (\<not> has_flag (h_flags (ti_hooks ti)) ECS_TYPE_HOOK_CMP_ILLEGAL) ECS_INVALID_OPERATION) (\<lambda>_.
     bindr (ecs_assert (h_cmp (ti_hooks ti) \<noteq> None) ECS_INTERNAL_ERROR) (\<lambda>_.
     call_app (the (h_cmp (ti_hooks ti))) (\<lambda>f. Inr (f a b))))"

definition flecs_type_info_equals :: "'v ecs_type_info_t \<Rightarrow> 'v \<Rightarrow> 'v \<Rightarrow> bool res" where
  "flecs_type_info_equals ti a b =
     bindr (ecs_assert (\<not> has_flag (h_flags (ti_hooks ti)) ECS_TYPE_HOOK_EQUALS_ILLEGAL) ECS_INVALID_OPERATION) (\<lambda>_.
     bindr (ecs_assert (h_equals (ti_hooks ti) \<noteq> None) ECS_INTERNAL_ERROR) (\<lambda>_.
     case the (h_equals (ti_hooks ti)) of
       Default flecs_default_equals \<Rightarrow>
         bindr (deref_hook (h_cmp (ti_hooks ti))) (\<lambda>cmp. call_app cmp (\<lambda>f. Inr (f a b = 0)))
     | p \<Rightarrow> call_app p (\<lambda>f. Inr (f a b))))"

section \<open>Registering hooks\<close>

definition flecs_type_hooks_storage_equal :: "'v ecs_type_hooks_t \<Rightarrow> 'v ecs_type_hooks_t \<Rightarrow> bool" where
  "flecs_type_hooks_storage_equal a b =
     (let flags = ECS_TYPE_HOOKS OR ECS_TYPE_HOOKS_ILLEGAL in
      if h_flags a AND flags \<noteq> h_flags b AND flags then False
      else if h_on_add a \<noteq> h_on_add b then False
      else if h_on_set a \<noteq> h_on_set b then False
      else if h_on_remove a \<noteq> h_on_remove b then False
      else if h_on_replace a \<noteq> h_on_replace b then False
      else True)"

text \<open>A hook may not be given together with the flag that declares it illegal.\<close>

definition hook_consistent :: "u32 \<Rightarrow> u32 \<Rightarrow> 'f hook option \<Rightarrow> unit res" where
  "hook_consistent flags illegal p =
     ecs_assert (\<not> (has_flag flags illegal \<and> p \<noteq> None \<and> \<not> (case p of Some Illegal \<Rightarrow> True | _ \<Rightarrow> False))) ECS_INVALID_PARAMETER"

definition hooks_consistent :: "u32 \<Rightarrow> 'v ecs_type_hooks_t \<Rightarrow> unit res" where
  "hooks_consistent flags h =
     bindr (hook_consistent flags ECS_TYPE_HOOK_CTOR_ILLEGAL (h_ctor h)) (\<lambda>_.
     bindr (hook_consistent flags ECS_TYPE_HOOK_DTOR_ILLEGAL (h_dtor h)) (\<lambda>_.
     bindr (hook_consistent flags ECS_TYPE_HOOK_COPY_ILLEGAL (h_copy h)) (\<lambda>_.
     bindr (hook_consistent flags ECS_TYPE_HOOK_MOVE_ILLEGAL (h_move h)) (\<lambda>_.
     bindr (hook_consistent flags ECS_TYPE_HOOK_COPY_CTOR_ILLEGAL (h_copy_ctor h)) (\<lambda>_.
     bindr (hook_consistent flags ECS_TYPE_HOOK_MOVE_CTOR_ILLEGAL (h_move_ctor h)) (\<lambda>_.
     bindr (hook_consistent flags ECS_TYPE_HOOK_CTOR_MOVE_DTOR_ILLEGAL (h_ctor_move_dtor h)) (\<lambda>_.
     bindr (hook_consistent flags ECS_TYPE_HOOK_MOVE_DTOR_ILLEGAL (h_move_dtor h)) (\<lambda>_.
     bindr (hook_consistent flags ECS_TYPE_HOOK_CMP_ILLEGAL (h_cmp h)) (\<lambda>_.
     hook_consistent flags ECS_TYPE_HOOK_EQUALS_ILLEGAL (h_equals h))))))))))"

text \<open>The hooks that are given replace those of the type.\<close>

definition or_else :: "'a option \<Rightarrow> 'a option \<Rightarrow> 'a option" where
  "or_else x y = (case x of None \<Rightarrow> y | Some a \<Rightarrow> Some a)"

definition hooks_assign :: "'v ecs_type_hooks_t \<Rightarrow> 'v ecs_type_hooks_t \<Rightarrow> 'v ecs_type_hooks_t" where
  "hooks_assign h t =
     t\<lparr>h_ctor := or_else (h_ctor h) (h_ctor t), h_dtor := or_else (h_dtor h) (h_dtor t),
       h_copy := or_else (h_copy h) (h_copy t), h_move := or_else (h_move h) (h_move t),
       h_copy_ctor := or_else (h_copy_ctor h) (h_copy_ctor t), h_move_ctor := or_else (h_move_ctor h) (h_move_ctor t),
       h_ctor_move_dtor := or_else (h_ctor_move_dtor h) (h_ctor_move_dtor t),
       h_move_dtor := or_else (h_move_dtor h) (h_move_dtor t),
       h_cmp := or_else (h_cmp h) (h_cmp t), h_equals := or_else (h_equals h) (h_equals t),
       h_on_add := (h_on_add h \<or> h_on_add t), h_on_remove := (h_on_remove h \<or> h_on_remove t),
       h_on_set := (h_on_set h \<or> h_on_set t), h_on_replace := (h_on_replace h \<or> h_on_replace t)\<rparr>"

text \<open>The default constructor, copy constructor and move constructor.\<close>

definition hooks_default_ctors :: "u32 \<Rightarrow> 'v ecs_type_hooks_t \<Rightarrow> 'v ecs_type_hooks_t \<Rightarrow> 'v ecs_type_hooks_t" where
  "hooks_default_ctors flags h t =
     (let t = (if h_ctor h = None \<and> (h_dtor h \<noteq> None \<or> h_copy h \<noteq> None \<or> h_move h \<noteq> None)
               then t\<lparr>h_ctor := Some (Default flecs_default_ctor)\<rparr> else t);
          t = (if h_copy_ctor h = None \<and> \<not> has_flag flags ECS_TYPE_HOOK_COPY_CTOR_ILLEGAL then
                 (if h_copy h \<noteq> None then t\<lparr>h_copy_ctor := Some (Default flecs_default_copy_ctor)\<rparr> else t) else t)
      in (if h_move_ctor h = None \<and> \<not> has_flag flags ECS_TYPE_HOOK_MOVE_CTOR_ILLEGAL then
            (if h_move h \<noteq> None then t\<lparr>h_move_ctor := Some (Default flecs_default_move_ctor)\<rparr> else t) else t))"

text \<open>The default of \<open>ctor_move_dtor\<close>, with the flags that make it illegal.\<close>

definition hooks_default_ctor_move_dtor ::
  "u32 \<Rightarrow> 'v ecs_type_hooks_t \<Rightarrow> 'v ecs_type_hooks_t \<Rightarrow> u32 \<times> 'v ecs_type_hooks_t" where
  "hooks_default_ctor_move_dtor flags h t =
     (if h_ctor_move_dtor h = None then
        let (illegal_check, t) =
          (if h_move h \<noteq> None then
             (if h_dtor h \<noteq> None then
                (if h_move_ctor h \<noteq> None then
                   (ECS_TYPE_HOOK_MOVE_ILLEGAL OR ECS_TYPE_HOOK_DTOR_ILLEGAL OR ECS_TYPE_HOOK_MOVE_CTOR_ILLEGAL,
                    t\<lparr>h_ctor_move_dtor := Some (Default flecs_default_move_ctor_w_dtor)\<rparr>)
                 else
                   (ECS_TYPE_HOOK_MOVE_ILLEGAL OR ECS_TYPE_HOOK_DTOR_ILLEGAL OR ECS_TYPE_HOOK_CTOR_ILLEGAL,
                    t\<lparr>h_ctor_move_dtor := Some (Default flecs_default_ctor_w_move_w_dtor)\<rparr>))
              else
                (ECS_TYPE_HOOK_MOVE_ILLEGAL OR ECS_TYPE_HOOK_MOVE_CTOR_ILLEGAL,
                 t\<lparr>h_ctor_move_dtor := h_move_ctor t\<rparr>))
           else if h_move_ctor h \<noteq> None then
             (if h_dtor h \<noteq> None then
                (ECS_TYPE_HOOK_MOVE_CTOR_ILLEGAL OR ECS_TYPE_HOOK_DTOR_ILLEGAL,
                 t\<lparr>h_ctor_move_dtor := Some (Default flecs_default_move_ctor_w_dtor)\<rparr>)
              else (ECS_TYPE_HOOK_MOVE_CTOR_ILLEGAL, t\<lparr>h_ctor_move_dtor := h_move_ctor t\<rparr>))
           else (0, t))
        in (if has_flag flags illegal_check then flags OR ECS_TYPE_HOOK_CTOR_MOVE_DTOR_ILLEGAL else flags, t)
      else (flags, t))"

definition hooks_default_move_dtor ::
  "u32 \<Rightarrow> 'v ecs_type_hooks_t \<Rightarrow> 'v ecs_type_hooks_t \<Rightarrow> u32 \<times> 'v ecs_type_hooks_t" where
  "hooks_default_move_dtor flags h t =
     (if h_move_dtor h = None then
        let (illegal_check, t) =
          (if h_move h \<noteq> None then
             (if h_dtor h \<noteq> None then
                (ECS_TYPE_HOOK_MOVE_ILLEGAL OR ECS_TYPE_HOOK_DTOR_ILLEGAL, t\<lparr>h_move_dtor := Some (Default flecs_default_move_w_dtor)\<rparr>)
              else (ECS_TYPE_HOOK_MOVE_ILLEGAL, t\<lparr>h_move_dtor := Some (Default flecs_default_move)\<rparr>))
           else if h_dtor h \<noteq> None then
             (ECS_TYPE_HOOK_DTOR_ILLEGAL, t\<lparr>h_move_dtor := Some (Default flecs_default_dtor)\<rparr>)
           else (0, t))
        in (if has_flag flags illegal_check then flags OR ECS_TYPE_HOOK_MOVE_DTOR_ILLEGAL else flags, t)
      else (flags, t))"

definition hooks_default_compare ::
  "u32 \<Rightarrow> 'v ecs_type_hooks_t \<Rightarrow> 'v ecs_type_hooks_t \<Rightarrow> u32 \<times> 'v ecs_type_hooks_t" where
  "hooks_default_compare flags h t =
     (let flags = (if h_cmp h = None then flags OR ECS_TYPE_HOOK_CMP_ILLEGAL else flags) in
      if h_equals h = None \<or> (case h_equals h of Some Illegal \<Rightarrow> True | _ \<Rightarrow> False) then
        (if has_flag flags ECS_TYPE_HOOK_CMP_ILLEGAL then (flags OR ECS_TYPE_HOOK_EQUALS_ILLEGAL, t)
         else (flags AND NOT ECS_TYPE_HOOK_EQUALS_ILLEGAL, t\<lparr>h_equals := Some (Default flecs_default_equals)\<rparr>))
      else (flags, t))"

text \<open>The flags of the hooks that are set, and the functions that report a call of an illegal hook.\<close>

definition set_flag :: "bool \<Rightarrow> u32 \<Rightarrow> u32 \<Rightarrow> u32" where
  "set_flag b m flags = (if b then flags OR m else flags)"

definition hooks_set_flags :: "u32 \<Rightarrow> u32 \<Rightarrow> 'v ecs_type_hooks_t \<Rightarrow> u32" where
  "hooks_set_flags flags prev t =
     (let flags = set_flag (h_ctor t \<noteq> None) ECS_TYPE_HOOK_CTOR flags;
          flags = set_flag (h_dtor t \<noteq> None) ECS_TYPE_HOOK_DTOR flags;
          flags = set_flag (h_move t \<noteq> None) ECS_TYPE_HOOK_MOVE flags;
          flags = set_flag (h_move_ctor t \<noteq> None) ECS_TYPE_HOOK_MOVE_CTOR flags;
          flags = set_flag (h_ctor_move_dtor t \<noteq> None) ECS_TYPE_HOOK_CTOR_MOVE_DTOR flags;
          flags = set_flag (h_move_dtor t \<noteq> None) ECS_TYPE_HOOK_MOVE_DTOR flags;
          flags = set_flag (h_copy t \<noteq> None) ECS_TYPE_HOOK_COPY flags;
          flags = set_flag (h_copy_ctor t \<noteq> None) ECS_TYPE_HOOK_COPY_CTOR flags;
          flags = set_flag (h_cmp t \<noteq> None) ECS_TYPE_HOOK_CMP flags;
          flags = set_flag (h_equals t \<noteq> None) ECS_TYPE_HOOK_EQUALS flags
      in flags OR (prev AND ECS_TYPE_HOOK_IN_USE))"

definition illegal_if :: "u32 \<Rightarrow> u32 \<Rightarrow> 'f hook option \<Rightarrow> 'f hook option" where
  "illegal_if flags m p = (if has_flag flags m then Some Illegal else p)"

definition hooks_set_illegal :: "u32 \<Rightarrow> 'v ecs_type_hooks_t \<Rightarrow> 'v ecs_type_hooks_t" where
  "hooks_set_illegal flags t =
     t\<lparr>h_ctor := illegal_if flags ECS_TYPE_HOOK_CTOR_ILLEGAL (h_ctor t),
       h_dtor := illegal_if flags ECS_TYPE_HOOK_DTOR_ILLEGAL (h_dtor t),
       h_copy := illegal_if flags ECS_TYPE_HOOK_COPY_ILLEGAL (h_copy t),
       h_move := illegal_if flags ECS_TYPE_HOOK_MOVE_ILLEGAL (h_move t),
       h_cmp := illegal_if flags ECS_TYPE_HOOK_CMP_ILLEGAL (h_cmp t),
       h_equals := illegal_if flags ECS_TYPE_HOOK_EQUALS_ILLEGAL (h_equals t),
       h_copy_ctor := illegal_if flags ECS_TYPE_HOOK_COPY_CTOR_ILLEGAL (h_copy_ctor t),
       h_move_ctor := illegal_if (h_flags t) ECS_TYPE_HOOK_MOVE_CTOR_ILLEGAL (h_move_ctor t),
       h_ctor_move_dtor := illegal_if (h_flags t) ECS_TYPE_HOOK_CTOR_MOVE_DTOR_ILLEGAL (h_ctor_move_dtor t),
       h_move_dtor := illegal_if (h_flags t) ECS_TYPE_HOOK_MOVE_DTOR_ILLEGAL (h_move_dtor t)\<rparr>"

text \<open>
  Registration.  \<open>valid\<close> and \<open>in_use\<close> are the answers of \<open>ecs_is_valid\<close> and \<open>ecs_id_in_use\<close> for the component,
  \<open>component_ptr\<close> the size and alignment in its \<open>EcsComponent\<close>, if it has one; \<open>ti\<close> is the type info that
  \<open>flecs_type_info_ensure\<close> returns.  The result is the new type info; the bit tells whether the component is
  entered in \<open>non_trivial_set\<close>.  On an error there is no new
  type info: the source puts the hooks back as they were.  User contexts and their release functions are left out.
\<close>

definition ecs_set_hooks_id ::
  "bool \<Rightarrow> bool \<Rightarrow> (nat \<times> nat) option \<Rightarrow> u64 \<Rightarrow> 'v ecs_type_hooks_t \<Rightarrow> 'v ecs_type_info_t \<Rightarrow> ('v ecs_type_info_t \<times> bool) res" where
  "ecs_set_hooks_id valid in_use component_ptr component h ti =
     bindr (ecs_assert valid ECS_INVALID_PARAMETER) (\<lambda>_.
     let flags = h_flags h AND NOT ECS_TYPE_HOOKS in
     bindr (hooks_consistent flags h) (\<lambda>_.
     bindr (ecs_assert (ti_component ti = 0 \<or> ti_component ti = component) ECS_INCONSISTENT_COMPONENT_ACTION) (\<lambda>_.
     let prev_hooks = ti_hooks ti in
     bindr (if ti_size ti = 0 then
              (case component_ptr of
                 None \<Rightarrow> Inl (Abort ECS_INVALID_PARAMETER)
               | Some (sz, al) \<Rightarrow>
                   bindr (ecs_assert (sz \<noteq> 0) ECS_INVALID_PARAMETER) (\<lambda>_.
                   Inr (ti\<lparr>ti_size := sz, ti_alignment := al\<rparr>)))
            else Inr ti) (\<lambda>ti.
     let t = hooks_assign h (ti_hooks ti);
         t = hooks_default_ctors flags h t;
         (flags, t) = hooks_default_ctor_move_dtor flags h t;
         (flags, t) = hooks_default_move_dtor flags h t;
         (flags, t) = hooks_default_compare flags h t;
         t = t\<lparr>h_flags := hooks_set_flags flags (h_flags prev_hooks) t\<rparr>;
         t = hooks_set_illegal flags t in
     bindr (ecs_assert (\<not> (in_use \<and> \<not> flecs_type_hooks_storage_equal t prev_hooks)) ECS_ALREADY_IN_USE) (\<lambda>_.
     Inr (ti\<lparr>ti_hooks := t\<rparr>,
          component < FLECS_HI_COMPONENT_ID \<and> (h_on_set t \<or> h_copy t \<noteq> None \<or> h_move t \<noteq> None \<or> h_on_replace t)))))))"

section \<open>What hooks promise\<close>

text \<open>
  The documented behaviour of the hooks of an application.  A husk is a value without resources: the one that a
  constructor makes, and what a move leaves behind.  Destroying a value releases it unless it is a husk.
\<close>

definition released :: "('v \<Rightarrow> bool) \<Rightarrow> 'v \<Rightarrow> 'v list" where
  "released husk v = (if husk v then [] else [v])"

definition ctor_law :: "('v \<Rightarrow> bool) \<Rightarrow> 'v xtor \<Rightarrow> bool" where
  "ctor_law husk f \<longleftrightarrow> (\<forall>c. \<exists>d. f c = Inr (Some d, []) \<and> husk d)"

definition dtor_law :: "('v \<Rightarrow> bool) \<Rightarrow> 'v xtor \<Rightarrow> bool" where
  "dtor_law husk f \<longleftrightarrow> (\<forall>v. f (Some v) = Inr (None, released husk v))"

definition move_law :: "('v \<Rightarrow> bool) \<Rightarrow> 'v mover \<Rightarrow> bool" where
  "move_law husk f \<longleftrightarrow> (\<forall>w v. \<exists>m. f (Some w) (Some v) = Inr ((Some v, Some m), released husk w) \<and> husk m)"

definition move_ctor_law :: "('v \<Rightarrow> bool) \<Rightarrow> 'v mover \<Rightarrow> bool" where
  "move_ctor_law husk f \<longleftrightarrow> (\<forall>c v. \<exists>m. f c (Some v) = Inr ((Some v, Some m), []) \<and> husk m)"

definition relocate_law :: "'v mover \<Rightarrow> bool" where
  "relocate_law f \<longleftrightarrow> (\<forall>c v. f c (Some v) = Inr ((Some v, None), []))"

definition move_dtor_law :: "('v \<Rightarrow> bool) \<Rightarrow> 'v mover \<Rightarrow> bool" where
  "move_dtor_law husk f \<longleftrightarrow> (\<forall>w v. f (Some w) (Some v) = Inr ((Some v, None), released husk w))"

text \<open>A type whose operations respect the lifecycle of its values.\<close>

definition managed :: "('v \<Rightarrow> bool) \<Rightarrow> 'v ecs_type_info_t \<Rightarrow> bool" where
  "managed husk ti \<longleftrightarrow>
     h_ctor (ti_hooks ti) \<noteq> None \<and> h_dtor (ti_hooks ti) \<noteq> None \<and> h_move (ti_hooks ti) \<noteq> None \<and>
     h_move_ctor (ti_hooks ti) \<noteq> None \<and> h_ctor_move_dtor (ti_hooks ti) \<noteq> None \<and> h_move_dtor (ti_hooks ti) \<noteq> None \<and>
     ctor_law husk (flecs_type_info_ctor ti) \<and> dtor_law husk (flecs_type_info_dtor ti) \<and>
     move_law husk (flecs_type_info_move ti) \<and> move_ctor_law husk (flecs_type_info_move_ctor ti) \<and>
     relocate_law (flecs_type_info_ctor_move_dtor ti) \<and> move_dtor_law husk (flecs_type_info_move_dtor ti)"

text \<open>A type without hooks other than, possibly, a constructor: its values are bytes.\<close>

definition plain :: "'v ecs_type_info_t \<Rightarrow> bool" where
  "plain ti \<longleftrightarrow>
     h_dtor (ti_hooks ti) = None \<and> h_move (ti_hooks ti) = None \<and> h_move_ctor (ti_hooks ti) = None \<and>
     h_ctor_move_dtor (ti_hooks ti) = None \<and> h_move_dtor (ti_hooks ti) = None \<and>
     \<not> has_flag (h_flags (ti_hooks ti)) (ECS_TYPE_HOOKS_ILLEGAL AND NOT (ECS_TYPE_HOOK_CMP_ILLEGAL OR ECS_TYPE_HOOK_EQUALS_ILLEGAL)) \<and>
     (h_ctor (ti_hooks ti) \<noteq> None \<longrightarrow> (\<forall>c. \<exists>d. flecs_type_info_ctor ti c = Inr (Some d, [])))"

definition no_hooks :: "'v ecs_type_hooks_t" where
  "no_hooks = \<lparr>h_ctor = None, h_dtor = None, h_copy = None, h_move = None, h_copy_ctor = None, h_move_ctor = None,
     h_ctor_move_dtor = None, h_move_dtor = None, h_cmp = None, h_equals = None, h_flags = 0,
     h_on_add = False, h_on_set = False, h_on_remove = False, h_on_replace = False\<rparr>"

lemma no_hooks_sel [simp]:
  "h_ctor no_hooks = None" "h_dtor no_hooks = None" "h_copy no_hooks = None" "h_move no_hooks = None"
  "h_copy_ctor no_hooks = None" "h_move_ctor no_hooks = None" "h_ctor_move_dtor no_hooks = None"
  "h_move_dtor no_hooks = None" "h_cmp no_hooks = None" "h_equals no_hooks = None" "h_flags no_hooks = 0"
  "\<not> h_on_add no_hooks" "\<not> h_on_set no_hooks" "\<not> h_on_remove no_hooks" "\<not> h_on_replace no_hooks"
  by (simp_all add: no_hooks_def)

lemmas set_hooks_defs = ecs_set_hooks_id_def hooks_consistent_def hook_consistent_def hooks_assign_def or_else_def
  hooks_default_ctors_def hooks_default_ctor_move_dtor_def hooks_default_move_dtor_def hooks_default_compare_def
  hooks_set_flags_def set_flag_def hooks_set_illegal_def illegal_if_def has_flag_def hook_flag_defs

lemmas type_info_calls = flecs_type_info_ctor_def flecs_type_info_dtor_def flecs_type_info_move_def
  flecs_type_info_move_ctor_def flecs_type_info_ctor_move_dtor_def flecs_type_info_move_dtor_def
  call_move_def call_move_ctor_def call_dtor_def call_ctor_def call_app_def deref_hook_def Let_def


lemma hooks_flags_clear [simp]: "has_flag 0 m = False" by (simp add: has_flag_def)

lemma set_hooks_dtor_move:
  assumes size: "ti_size ti \<noteq> 0" and comp: "ti_component ti = 0 \<or> ti_component ti = component" and fresh: "ti_hooks ti = no_hooks"
  shows "ecs_set_hooks_id True False component_ptr component (no_hooks\<lparr>h_ctor := ctor, h_dtor := Some (App d), h_move := Some (App m)\<rparr>) ti =
     Inr (ti\<lparr>ti_hooks := no_hooks\<lparr>h_ctor := or_else ctor (Some (Default flecs_default_ctor)), h_dtor := Some (App d), h_move := Some (App m),
       h_move_ctor := Some (Default flecs_default_move_ctor), h_ctor_move_dtor := Some (Default flecs_default_ctor_w_move_w_dtor),
       h_move_dtor := Some (Default flecs_default_move_w_dtor), h_cmp := Some Illegal, h_equals := Some Illegal,
       h_flags := 0x1800EB\<rparr>\<rparr>, component < FLECS_HI_COMPONENT_ID)"
proof -
  let ?h = "no_hooks\<lparr>h_ctor := ctor, h_dtor := Some (App d), h_move := Some (App m)\<rparr>"
  let ?c = "or_else ctor (Some (Default flecs_default_ctor))"
  let ?t2 = "no_hooks\<lparr>h_ctor := ?c, h_dtor := Some (App d), h_move := Some (App m), h_move_ctor := Some (Default flecs_default_move_ctor)\<rparr>"
  let ?t3 = "?t2\<lparr>h_ctor_move_dtor := Some (Default flecs_default_ctor_w_move_w_dtor)\<rparr>"
  let ?t4 = "?t3\<lparr>h_move_dtor := Some (Default flecs_default_move_w_dtor)\<rparr>"
  have 1: "hooks_consistent 0 ?h = Inr ()" by (simp add: hooks_consistent_def hook_consistent_def)
  have 2: "hooks_default_ctors 0 ?h (hooks_assign ?h no_hooks) = ?t2"
    by (cases ctor) (simp_all add: hooks_default_ctors_def hooks_assign_def or_else_def no_hooks_def)
  have 3: "hooks_default_ctor_move_dtor 0 ?h ?t2 = (0, ?t3)" by (simp add: hooks_default_ctor_move_dtor_def)
  have 4: "hooks_default_move_dtor 0 ?h ?t3 = (0, ?t4)" by (simp add: hooks_default_move_dtor_def)
  have 5: "hooks_default_compare 0 ?h ?t4 = (0x180000, ?t4)" by (simp add: hooks_default_compare_def has_flag_def hook_flag_defs)
  have 6: "hooks_set_flags 0x180000 0 ?t4 = 0x1800EB" 
    by (cases ctor) (simp_all add: hooks_set_flags_def set_flag_def hook_flag_defs or_else_def)
  have 7: "hooks_set_illegal 0x180000 (?t4\<lparr>h_flags := 0x1800EB\<rparr>) = ?t4\<lparr>h_cmp := Some Illegal, h_equals := Some Illegal, h_flags := 0x1800EB\<rparr>"
    by (simp add: hooks_set_illegal_def illegal_if_def has_flag_def hook_flag_defs)
  have 8: "h_flags ?h AND NOT ECS_TYPE_HOOKS = 0" by simp
  show ?thesis
    unfolding ecs_set_hooks_id_def Let_def 8 1 fresh 2 3 4 5 split bindr_Inr no_hooks_sel 6 7
    using size comp
    by (simp add: 1 2 3 4 5 6 7 fresh)
qed

text \<open>The same for a type with a destructor only: there is no hook for relocation.\<close>

lemma set_hooks_dtor_only:
  assumes size: "ti_size ti \<noteq> 0" and comp: "ti_component ti = 0 \<or> ti_component ti = component" and fresh: "ti_hooks ti = no_hooks"
  shows "ecs_set_hooks_id True False component_ptr component (no_hooks\<lparr>h_dtor := Some (App d)\<rparr>) ti =
     Inr (ti\<lparr>ti_hooks := no_hooks\<lparr>h_ctor := Some (Default flecs_default_ctor), h_dtor := Some (App d),
       h_move_dtor := Some (Default flecs_default_dtor), h_cmp := Some Illegal, h_equals := Some Illegal,
       h_flags := 0x180083\<rparr>\<rparr>, False)"
proof -
  let ?h = "no_hooks\<lparr>h_dtor := Some (App d)\<rparr>"
  let ?t2 = "no_hooks\<lparr>h_ctor := Some (Default flecs_default_ctor), h_dtor := Some (App d)\<rparr>"
  let ?t4 = "?t2\<lparr>h_move_dtor := Some (Default flecs_default_dtor)\<rparr>"
  have 1: "hooks_consistent 0 ?h = Inr ()" by (simp add: hooks_consistent_def hook_consistent_def)
  have 2: "hooks_default_ctors 0 ?h (hooks_assign ?h no_hooks) = ?t2"
    by (simp add: hooks_default_ctors_def hooks_assign_def or_else_def no_hooks_def)
  have 3: "hooks_default_ctor_move_dtor 0 ?h ?t2 = (0, ?t2)" by (simp add: hooks_default_ctor_move_dtor_def)
  have 4: "hooks_default_move_dtor 0 ?h ?t2 = (0, ?t4)" by (simp add: hooks_default_move_dtor_def)
  have 5: "hooks_default_compare 0 ?h ?t4 = (0x180000, ?t4)" by (simp add: hooks_default_compare_def has_flag_def hook_flag_defs)
  have 6: "hooks_set_flags 0x180000 0 ?t4 = 0x180083"
    by (simp add: hooks_set_flags_def set_flag_def hook_flag_defs or_else_def)
  have 7: "hooks_set_illegal 0x180000 (?t4\<lparr>h_flags := 0x180083\<rparr>) = ?t4\<lparr>h_cmp := Some Illegal, h_equals := Some Illegal, h_flags := 0x180083\<rparr>"
    by (simp add: hooks_set_illegal_def illegal_if_def has_flag_def hook_flag_defs)
  have 8: "h_flags ?h AND NOT ECS_TYPE_HOOKS = 0" by simp
  show ?thesis
    unfolding ecs_set_hooks_id_def Let_def 8 1 fresh 2 3 4 5 split bindr_Inr no_hooks_sel 6 7
    using size comp by (simp add: 1 2 3 4 5 6 7 fresh)
qed

text \<open>The hooks that are derived from a constructor, a destructor and a move.\<close>

lemma derived_managed:
  assumes ctor: "(\<exists>c. ctor = Some (App c) \<and> ctor_law husk c) \<or> ctor = Some (Default flecs_default_ctor) \<and> husk (ti_zero ti)"
    and d: "dtor_law husk d" and m: "move_law husk m"
    and hooks: "ti_hooks ti = no_hooks\<lparr>h_ctor := ctor, h_dtor := Some (App d), h_move := Some (App m),
       h_move_ctor := Some (Default flecs_default_move_ctor), h_ctor_move_dtor := Some (Default flecs_default_ctor_w_move_w_dtor),
       h_move_dtor := Some (Default flecs_default_move_w_dtor), h_cmp := Some Illegal, h_equals := Some Illegal, h_flags := 0x1800EB\<rparr>"
  shows "managed husk ti"
proof -
  have fl: "\<not> has_flag 0x1800EB ECS_TYPE_HOOK_CTOR_ILLEGAL" "\<not> has_flag 0x1800EB ECS_TYPE_HOOK_DTOR_ILLEGAL"
    "\<not> has_flag 0x1800EB ECS_TYPE_HOOK_MOVE_ILLEGAL" "\<not> has_flag 0x1800EB ECS_TYPE_HOOK_MOVE_CTOR_ILLEGAL"
    "\<not> has_flag 0x1800EB ECS_TYPE_HOOK_CTOR_MOVE_DTOR_ILLEGAL" "\<not> has_flag 0x1800EB ECS_TYPE_HOOK_MOVE_DTOR_ILLEGAL"
    by (simp_all add: has_flag_def hook_flag_defs)
  have C: "\<exists>z. call_ctor ti (the ctor) x = Inr (Some z, []) \<and> husk z" for x
    using ctor by (auto simp: call_ctor_def call_app_def ctor_law_def)
  have D: "d (Some v) = Inr (None, released husk v)" for v using d by (simp add: dtor_law_def)
  have M: "\<exists>z. m (Some w) (Some v) = Inr ((Some v, Some z), released husk w) \<and> husk z" for w v using m by (simp add: move_law_def)
  have sel: "h_ctor (ti_hooks ti) = Some (the ctor)" "h_dtor (ti_hooks ti) = Some (App d)" "h_move (ti_hooks ti) = Some (App m)"
    "h_move_ctor (ti_hooks ti) = Some (Default flecs_default_move_ctor)"
    "h_ctor_move_dtor (ti_hooks ti) = Some (Default flecs_default_ctor_w_move_w_dtor)"
    "h_move_dtor (ti_hooks ti) = Some (Default flecs_default_move_w_dtor)" "h_flags (ti_hooks ti) = 0x1800EB"
    using ctor hooks by auto
  have rel: "husk z \<Longrightarrow> released husk z = []" for z by (simp add: released_def)
  have "ctor_law husk (flecs_type_info_ctor ti)"
    using C by (simp add: ctor_law_def flecs_type_info_ctor_def sel fl)
  moreover have "dtor_law husk (flecs_type_info_dtor ti)"
    by (simp add: dtor_law_def flecs_type_info_dtor_def call_dtor_def call_app_def sel fl D)
  moreover have "move_law husk (flecs_type_info_move ti)"
    using M by (simp add: move_law_def flecs_type_info_move_def call_move_def call_move_ctor_def call_app_def sel fl)
  moreover have "move_ctor_law husk (flecs_type_info_move_ctor ti)" unfolding move_ctor_law_def
  proof (intro allI)
    fix x v
    obtain z where z: "call_ctor ti (the ctor) x = Inr (Some z, [])" "husk z" using C by blast
    obtain y where "m (Some z) (Some v) = Inr ((Some v, Some y), released husk z)" "husk y" using M by blast
    then show "\<exists>y. flecs_type_info_move_ctor ti x (Some v) = Inr ((Some v, Some y), []) \<and> husk y"
      by (simp add: flecs_type_info_move_ctor_def call_move_def call_move_ctor_def call_app_def deref_hook_def sel fl z rel)
  qed
  moreover have "relocate_law (flecs_type_info_ctor_move_dtor ti)" unfolding relocate_law_def
  proof (intro allI)
    fix x v
    obtain z where z: "call_ctor ti (the ctor) x = Inr (Some z, [])" "husk z" using C by blast
    obtain y where "m (Some z) (Some v) = Inr ((Some v, Some y), released husk z)" "husk y" using M by blast
    then show "flecs_type_info_ctor_move_dtor ti x (Some v) = Inr ((Some v, None), [])"
      by (simp add: flecs_type_info_ctor_move_dtor_def call_move_def call_dtor_def call_app_def deref_hook_def sel fl z rel D)
  qed
  moreover have "move_dtor_law husk (flecs_type_info_move_dtor ti)" unfolding move_dtor_law_def
  proof (intro allI)
    fix w v
    obtain y where "m (Some w) (Some v) = Inr ((Some v, Some y), released husk w)" "husk y" using M by blast
    then show "flecs_type_info_move_dtor ti (Some w) (Some v) = Inr ((Some v, None), released husk w)"
      by (simp add: flecs_type_info_move_dtor_def call_move_def call_dtor_def call_app_def deref_hook_def sel fl rel D)
  qed
  ultimately show ?thesis by (simp add: managed_def sel)
qed

text \<open>
  C7: registering a destructor and a move, with or without a constructor, for a new component gives a type
  whose derived hooks respect the lifecycle: relocating a value constructs it at the destination, leaves no value
  at the source and releases nothing; moving onto a value releases exactly that value; the default
  constructor is used when none is given.
\<close>

theorem set_hooks_derives_lifecycle:
  assumes "ti_size ti \<noteq> 0" and "ti_component ti = 0 \<or> ti_component ti = component" and "ti_hooks ti = no_hooks"
    and "ctor = None \<and> husk (ti_zero ti) \<or> (\<exists>c. ctor = Some (App c) \<and> ctor_law husk c)"
    and "dtor_law husk d" and "move_law husk m"
  shows "\<exists>ti' set. ecs_set_hooks_id True False component_ptr component
      (no_hooks\<lparr>h_ctor := ctor, h_dtor := Some (App d), h_move := Some (App m)\<rparr>) ti = Inr (ti', set) \<and> managed husk ti'"
  unfolding set_hooks_dtor_move [OF assms(1-3)]
proof (intro exI conjI, rule refl, rule derived_managed [OF _ assms(5,6)])
qed (use assms(4) in \<open>auto simp: or_else_def\<close>)

definition demo_dtor :: "nat xtor" where
  "demo_dtor c = (case c of None \<Rightarrow> Inl Undefined | Some v \<Rightarrow> Inr (None, if v = 0 then [] else [v]))"

definition demo_move :: "nat mover" where
  "demo_move dst src = (case (dst, src) of (Some w, Some v) \<Rightarrow> Inr ((Some v, Some 0), if w = 0 then [] else [w]) | _ \<Rightarrow> Inl Undefined)"

definition demo_type :: "nat ecs_type_info_t" where
  "demo_type = \<lparr>ti_size = 8, ti_alignment = 8, ti_hooks = no_hooks, ti_component = 0, ti_zero = 0\<rparr>"

theorem set_hooks_derives_lifecycle_witness:
  "\<exists>ti' set. ecs_set_hooks_id True False None 300
      (no_hooks\<lparr>h_ctor := None, h_dtor := Some (App demo_dtor), h_move := Some (App demo_move)\<rparr>) demo_type = Inr (ti', set) \<and>
     managed (\<lambda>v. v = 0) ti'"
  by (rule set_hooks_derives_lifecycle)
    (simp_all add: demo_type_def demo_dtor_def demo_move_def dtor_law_def move_law_def released_def)

end
