(* ===== verification/Table.thy ===== *)
theory Table
  imports TypeInfo EntityLifecycle Bitset
begin

text \<open>
  Table storage, \<open>src/storage/table.c\<close>.  A table holds the entities with the same type: a column of ids, a column
  of values per component, a bitset per component that can be toggled.  All columns have the size of the
  column of ids, and row \<open>i\<close> of each belongs to entity \<open>i\<close>.

  A column is a buffer of cells (see \<open>TypeInfo\<close>); the bytes of a cell appear only in \<open>flecs_table_copy_elem\<close>.
  The field \<open>column_map\<close> of the source is split into its two halves: \<open>tbl_t2s\<close> from a position in the type to a
  column (\<open>-1\<close> for a tag) and \<open>tbl_s2t\<close> back; \<open>column_count\<close> and \<open>bs_count\<close> are the lengths of \<open>tbl_columns\<close> and \<open>tbl_bs_columns\<close>.
  Tables that inherit components look up the base value of a column: \<open>ov i\<close> is the value that the
  override reference of column \<open>i\<close> resolves to, if it is set, after \<open>flecs_table_update_overrides\<close>.

  The fields for query matching, the graph node, reference counts and names of a table are left out.

  Of the world, the entity index, the tables and the versions are kept.  Three ghost fields record what the
  storage did: the values that were released, the callbacks \<open>on_add\<close>, \<open>on_set\<close> and \<open>on_remove\<close> that were
  invoked, and the calls \<open>flecs_actions_*\<close> that notify observers, with the table and the row.  Callbacks and observers
  are functions of the application whose own operations are deferred.
\<close>

section \<open>State\<close>

record 'v ecs_column_t =
  col_data :: "'v cell list"
  col_ti :: "'v ecs_type_info_t"

record 'v ecs_table_t =
  tbl_id :: u64
  tbl_flags :: u32
  tbl_version :: "16 word"
  tbl_type :: "u64 list"
  tbl_entities :: "u64 option list"
  tbl_columns :: "'v ecs_column_t list"
  tbl_count :: nat
  tbl_size :: nat
  tbl_component_map :: "int list"
  tbl_dirty_state :: "u32 list option"
  tbl_t2s :: "int list"
  tbl_s2t :: "nat list"
  tbl_lock :: int
  tbl_traversable_count :: int
  tbl_bs_offset :: nat
  tbl_bs_columns :: "ecs_bitset_t list"

datatype hook_event = EcsOnAdd | EcsOnSet | EcsOnRemove

datatype storage_action = Actions_new | Actions_move_add | Actions_move_remove

record 'v ecs_world_t =
  w_index :: ecs_entity_index_t
  w_tables :: "nat \<Rightarrow> 'v ecs_table_t option"
  w_table_version :: "u64 \<Rightarrow> u32"
  w_released :: "'v list"
  w_invoked :: "(hook_event \<times> u64 \<times> u64 list \<times> nat) list"
  w_actions :: "(storage_action \<times> nat \<times> nat) list"

definition EcsTableHasIsA :: u32 where "EcsTableHasIsA = 0x4"
definition EcsTableHasCtors :: u32 where "EcsTableHasCtors = 0x800"
definition EcsTableHasDtors :: u32 where "EcsTableHasDtors = 0x1000"
definition EcsTableHasCopy :: u32 where "EcsTableHasCopy = 0x2000"
definition EcsTableHasMove :: u32 where "EcsTableHasMove = 0x4000"
definition EcsTableHasToggle :: u32 where "EcsTableHasToggle = 0x8000"
definition EcsTableHasSparse :: u32 where "EcsTableHasSparse = 0x200000"
definition EcsTableHasTraversable :: u32 where "EcsTableHasTraversable = 0x8000000"
definition EcsTableHasLifecycle :: u32 where "EcsTableHasLifecycle = EcsTableHasCtors OR EcsTableHasDtors"
definition EcsTableIsComplex :: u32 where "EcsTableIsComplex = EcsTableHasLifecycle OR EcsTableHasToggle OR EcsTableHasSparse"
definition ECS_TABLE_VERSION_ARRAY_BITMASK :: u64 where "ECS_TABLE_VERSION_ARRAY_BITMASK = 0xFF"

lemmas table_flag_defs = EcsTableHasIsA_def EcsTableHasCtors_def EcsTableHasDtors_def EcsTableHasCopy_def EcsTableHasMove_def
  EcsTableHasToggle_def EcsTableHasSparse_def EcsTableHasTraversable_def EcsTableHasLifecycle_def EcsTableIsComplex_def

section \<open>Creating the columns\<close>

definition flecs_type_info_flags :: "'v ecs_type_info_t \<Rightarrow> u32" where
  "flecs_type_info_flags ti =
     (let flags = 0;
          flags = set_flag (h_ctor (ti_hooks ti) \<noteq> None) EcsTableHasCtors flags;
          flags = set_flag (h_on_add (ti_hooks ti)) EcsTableHasCtors flags;
          flags = set_flag (h_dtor (ti_hooks ti) \<noteq> None) EcsTableHasDtors flags;
          flags = set_flag (h_on_remove (ti_hooks ti)) EcsTableHasDtors flags;
          flags = set_flag (h_copy (ti_hooks ti) \<noteq> None) EcsTableHasCopy flags;
          flags = set_flag (h_move (ti_hooks ti) \<noteq> None) EcsTableHasMove flags
      in flags)"

text \<open>
  The columns of a new table.  \<open>records\<close> are the table records of the type, each with the type info of its component
  record (\<open>None\<close> for a tag) and its sparse flag; their column index is the result.  The second loop of the source, which gives
  records of wildcards the column of the first match, is \<open>wildcard_columns\<close>.
\<close>

record 'v ecs_table_record_t =
  tr_id :: u64
  tr_type_info :: "'v ecs_type_info_t option"
  tr_sparse :: bool
  tr_index :: nat
  tr_column :: int

definition component_map_set :: "int list \<Rightarrow> u64 \<Rightarrow> int \<Rightarrow> int list" where
  "component_map_set cm i x = (if i < FLECS_HI_COMPONENT_ID then cm[unat i := x] else cm)"

definition init_component_map :: "u64 list \<Rightarrow> int list \<Rightarrow> int list" where
  "init_component_map ids cm = fold (\<lambda>(i, x) cm. component_map_set cm x (- (int i + 1))) (enumerate 0 ids) cm"

fun init_columns_loop ::
  "'v ecs_table_t \<Rightarrow> nat \<Rightarrow> u64 list \<Rightarrow> 'v ecs_table_record_t list \<Rightarrow> 'v ecs_table_t \<times> 'v ecs_table_record_t list" where
  "init_columns_loop t i (x # ids) (tr # trs) =
     (case tr_type_info tr of
        Some ti \<Rightarrow>
          (if tr_sparse tr then
             (let (t, trs) = init_columns_loop (t\<lparr>tbl_t2s := tbl_t2s t @ [- 1]\<rparr>) (i + 1) ids trs in (t, tr # trs))
           else
             let cur = length (tbl_columns t);
                 t = t\<lparr>tbl_t2s := tbl_t2s t @ [int cur], tbl_s2t := tbl_s2t t @ [i],
                       tbl_columns := tbl_columns t @ [\<lparr>col_data = [], col_ti = ti\<rparr>],
                       tbl_component_map := component_map_set (tbl_component_map t) x (int cur + 1),
                       tbl_flags := tbl_flags t OR flecs_type_info_flags ti\<rparr>;
                 (t, trs) = init_columns_loop t (i + 1) ids trs
             in (t, tr\<lparr>tr_column := int cur\<rparr> # trs))
      | None \<Rightarrow> (let (t, trs) = init_columns_loop (t\<lparr>tbl_t2s := tbl_t2s t @ [- 1]\<rparr>) (i + 1) ids trs in (t, tr # trs)))"
| "init_columns_loop t i ids trs = (t, trs)"

definition wildcard_columns :: "'v ecs_table_record_t list \<Rightarrow> 'v ecs_table_record_t list \<Rightarrow> 'v ecs_table_record_t list" where
  "wildcard_columns records rest =
     map (\<lambda>tr. if ecs_id_is_wildcard (tr_id tr) then tr\<lparr>tr_column := tr_column (records ! tr_index tr)\<rparr> else tr) rest"

text \<open>\<open>column_count\<close> is the number of columns that the type needs; a table without columns has no \<open>column_map\<close>.\<close>

definition flecs_table_init_columns ::
  "'v ecs_table_t \<Rightarrow> 'v ecs_table_record_t list \<Rightarrow> nat \<Rightarrow> 'v ecs_table_t \<times> 'v ecs_table_record_t list" where
  "flecs_table_init_columns t records column_count =
     (let t = t\<lparr>tbl_component_map := init_component_map (tbl_type t) (tbl_component_map t)\<rparr> in
      if column_count = 0 then (t, records)
      else
        let n = length (tbl_type t);
            (t, trs) = init_columns_loop (t\<lparr>tbl_columns := [], tbl_t2s := [], tbl_s2t := []\<rparr>) 0 (tbl_type t) (take n records)
        in (t, trs @ wildcard_columns trs (drop n records)))"

definition flecs_table_init_data ::
  "'v ecs_table_t \<Rightarrow> 'v ecs_table_record_t list \<Rightarrow> nat \<Rightarrow> nat \<Rightarrow> 'v ecs_table_t \<times> 'v ecs_table_record_t list" where
  "flecs_table_init_data t records column_count toggle_count =
     (let (t, trs) = flecs_table_init_columns t records column_count in
      (t\<lparr>tbl_bs_columns := replicate toggle_count flecs_bitset_init\<rparr>, trs))"

section \<open>Cells\<close>

text \<open>A hook that is called for \<open>count\<close> elements from \<open>row\<close> on.\<close>

fun xtor_cells :: "('c \<Rightarrow> ('c \<times> 'l list) res) \<Rightarrow> 'c list \<Rightarrow> ('c list \<times> 'l list) res" where
  "xtor_cells f [] = Inr ([], [])"
| "xtor_cells f (c # cs) =
     bindr (f c) (\<lambda>(c, l). bindr (xtor_cells f cs) (\<lambda>(cs, ls). Inr (c # cs, l @ ls)))"

fun move_cells :: "('c \<Rightarrow> 'c \<Rightarrow> (('c \<times> 'c) \<times> 'l list) res) \<Rightarrow> 'c list \<Rightarrow> 'c list \<Rightarrow> (('c list \<times> 'c list) \<times> 'l list) res" where
  "move_cells f (d # ds) (s # ss) =
     bindr (f d s) (\<lambda>((d, s), l). bindr (move_cells f ds ss) (\<lambda>((ds, ss), ls). Inr ((d # ds, s # ss), l @ ls)))"
| "move_cells f ds ss = Inr ((ds, ss), [])"

definition put_cells :: "'c list \<Rightarrow> nat \<Rightarrow> 'c list \<Rightarrow> 'c list" where
  "put_cells buf row cs = take row buf @ cs @ drop (row + length cs) buf"

definition release :: "'v ecs_world_t \<Rightarrow> 'v list \<Rightarrow> 'v ecs_world_t" where
  "release w l = w\<lparr>w_released := w_released w @ l\<rparr>"

definition range_xtor ::
  "('v cell \<Rightarrow> ('v cell \<times> 'v list) res) \<Rightarrow> 'v ecs_world_t \<Rightarrow> 'v cell list \<Rightarrow> nat \<Rightarrow> nat \<Rightarrow> ('v ecs_world_t \<times> 'v cell list) res" where
  "range_xtor f w buf row count =
     bindr (defined_if (row + count \<le> length buf)) (\<lambda>_.
     bindr (xtor_cells f (take count (drop row buf))) (\<lambda>(cs, l).
     Inr (release w l, put_cells buf row cs)))"

definition range_move ::
  "'v mover \<Rightarrow> 'v ecs_world_t \<Rightarrow> 'v cell list \<Rightarrow> nat \<Rightarrow> 'v cell list \<Rightarrow> nat \<Rightarrow> nat \<Rightarrow> ('v ecs_world_t \<times> 'v cell list \<times> 'v cell list) res" where
  "range_move f w dst i src j count =
     bindr (defined_if (i + count \<le> length dst \<and> j + count \<le> length src)) (\<lambda>_.
     bindr (move_cells f (take count (drop i dst)) (take count (drop j src))) (\<lambda>((ds, ss), l).
     Inr (release w l, put_cells dst i ds, put_cells src j ss)))"

text \<open>The same inside one buffer, for one element.\<close>

definition cell_move :: "'v mover \<Rightarrow> 'v ecs_world_t \<Rightarrow> 'v cell list \<Rightarrow> nat \<Rightarrow> nat \<Rightarrow> ('v ecs_world_t \<times> 'v cell list) res" where
  "cell_move f w buf i j =
     bindr (defined_if (i < length buf \<and> j < length buf)) (\<lambda>_.
     bindr (f (buf ! i) (buf ! j)) (\<lambda>((d, s), l).
     Inr (release w l, buf[j := s, i := d])))"

text \<open>The elements of a column as bytes: the copy of one element, whose size selects the accesses.\<close>

definition memcpy :: "'b list \<Rightarrow> nat \<Rightarrow> 'b list \<Rightarrow> nat \<Rightarrow> nat \<Rightarrow> 'b list res" where
  "memcpy dst i src j n =
     bindr (defined_if (i + n \<le> length dst \<and> j + n \<le> length src)) (\<lambda>_. Inr (put_cells dst i (take n (drop j src))))"

definition flecs_table_copy_elem :: "'b list \<Rightarrow> 'b list \<Rightarrow> nat \<Rightarrow> 'b list res" where
  "flecs_table_copy_elem dst src size' =
     (if size' = 16 then memcpy dst 0 src 0 16
      else if size' = 8 then memcpy dst 0 src 0 8
      else if size' = 4 then memcpy dst 0 src 0 4
      else if size' > 32 then memcpy dst 0 src 0 size'
      else if size' > 16 then bindr (memcpy dst 0 src 0 16) (\<lambda>dst. memcpy dst (size' - 16) src (size' - 16) 16)
      else if size' > 8 then bindr (memcpy dst 0 src 0 8) (\<lambda>dst. memcpy dst (size' - 8) src (size' - 8) 8)
      else if size' > 4 then bindr (memcpy dst 0 src 0 4) (\<lambda>dst. memcpy dst (size' - 4) src (size' - 4) 4)
      else if size' > 2 then bindr (memcpy dst 0 src 0 2) (\<lambda>dst. memcpy dst (size' - 2) src (size' - 2) 2)
      else if size' = 2 then memcpy dst 0 src 0 2
      else memcpy dst 0 src 0 1)"

text \<open>On typed cells it is an assignment.\<close>

definition copy_elem :: "'v mover" where
  "copy_elem dst src = Inr ((src, src), [])"

section \<open>Bookkeeping\<close>

definition flecs_increment_table_version :: "'v ecs_world_t \<Rightarrow> 'v ecs_table_t \<Rightarrow> 'v ecs_world_t \<times> 'v ecs_table_t" where
  "flecs_increment_table_version w t =
     (let i = tbl_id t AND ECS_TABLE_VERSION_ARRAY_BITMASK in
      (w\<lparr>w_table_version := (w_table_version w)(i := w_table_version w i + 1)\<rparr>, t\<lparr>tbl_version := tbl_version t + 1\<rparr>))"

definition flecs_table_mark_table_dirty :: "'v ecs_world_t \<Rightarrow> 'v ecs_table_t \<Rightarrow> nat \<Rightarrow> ('v ecs_world_t \<times> 'v ecs_table_t) res" where
  "flecs_table_mark_table_dirty w t index =
     bindr (case tbl_dirty_state t of
              None \<Rightarrow> Inr t
            | Some ds \<Rightarrow> if index < length ds then Inr (t\<lparr>tbl_dirty_state := Some (ds[index := ds ! index + 1])\<rparr>) else Inl Undefined) (\<lambda>t.
     Inr (if index = 0 then flecs_increment_table_version w t else (w, t)))"

text \<open>\<open>column_of\<close> is the column in the table record of a component with a high id, \<open>None\<close> if it has no record.\<close>

definition flecs_table_mark_dirty :: "(u64 \<Rightarrow> int option) \<Rightarrow> 'v ecs_table_t \<Rightarrow> u64 \<Rightarrow> 'v ecs_table_t res" where
  "flecs_table_mark_dirty column_of t component =
     (case tbl_dirty_state t of
        None \<Rightarrow> Inr t
      | Some ds \<Rightarrow>
          let column = (if component < FLECS_HI_COMPONENT_ID then tbl_component_map t ! unat component
                        else case column_of component of None \<Rightarrow> 0 | Some c \<Rightarrow> c + 1) in
          if column \<le> 0 then Inr t
          else
            bindr (defined_if (nat column < length ds)) (\<lambda>_.
            bindr (ecs_assert (tbl_lock t = 0) ECS_LOCKED_STORAGE) (\<lambda>_.
            Inr (t\<lparr>tbl_dirty_state := Some (ds[nat column := ds ! nat column + 1])\<rparr>))))"

definition flecs_table_get_dirty_state :: "'v ecs_table_t \<Rightarrow> 'v ecs_table_t" where
  "flecs_table_get_dirty_state t =
     (case tbl_dirty_state t of
        None \<Rightarrow> t\<lparr>tbl_dirty_state := Some (replicate (length (tbl_columns t) + 1) 1)\<rparr>
      | Some _ \<Rightarrow> t)"

definition flecs_table_traversable_add :: "'v ecs_table_t \<Rightarrow> int \<Rightarrow> 'v ecs_table_t res" where
  "flecs_table_traversable_add t value =
     (let result = tbl_traversable_count t + value; t = t\<lparr>tbl_traversable_count := result\<rparr> in
      bindr (ecs_assert (result \<ge> 0) ECS_INTERNAL_ERROR) (\<lambda>_.
      Inr (if result = 0 then t\<lparr>tbl_flags := tbl_flags t AND NOT EcsTableHasTraversable\<rparr>
           else if result = value then t\<lparr>tbl_flags := tbl_flags t OR EcsTableHasTraversable\<rparr>
           else t)))"

definition ecs_table_count :: "'v ecs_table_t \<Rightarrow> nat" where "ecs_table_count t = tbl_count t"
definition ecs_table_size :: "'v ecs_table_t \<Rightarrow> nat" where "ecs_table_size t = tbl_size t"

definition flecs_column_id :: "'v ecs_table_t \<Rightarrow> nat \<Rightarrow> u64" where
  "flecs_column_id t column_index = tbl_type t ! (tbl_s2t t ! column_index)"

definition ecs_table_lock :: "bool \<Rightarrow> 'v ecs_table_t \<Rightarrow> 'v ecs_table_t" where
  "ecs_table_lock writable t = (if writable then t\<lparr>tbl_lock := tbl_lock t + 1\<rparr> else t)"

definition ecs_table_unlock :: "bool \<Rightarrow> 'v ecs_table_t \<Rightarrow> 'v ecs_table_t res" where
  "ecs_table_unlock writable t =
     (if writable then
        let t = t\<lparr>tbl_lock := tbl_lock t - 1\<rparr> in
        bindr (ecs_assert (tbl_lock t \<ge> 0) ECS_INVALID_OPERATION) (\<lambda>_. Inr t)
      else Inr t)"


section \<open>Hooks\<close>

text \<open>\<open>entities[row..]\<close> of the table, for a callback on \<open>count\<close> rows.\<close>

definition read_entities :: "'v ecs_table_t \<Rightarrow> nat \<Rightarrow> nat \<Rightarrow> u64 list res" where
  "read_entities t row count =
     bindr (defined_if (row + count \<le> length (tbl_entities t) \<and> None \<notin> set (take count (drop row (tbl_entities t))))) (\<lambda>_.
     Inr (map the (take count (drop row (tbl_entities t)))))"

definition flecs_invoke_hook :: "'v ecs_world_t \<Rightarrow> hook_event \<Rightarrow> u64 \<Rightarrow> u64 list \<Rightarrow> nat \<Rightarrow> 'v ecs_world_t" where
  "flecs_invoke_hook w event component entities row = w\<lparr>w_invoked := w_invoked w @ [(event, component, entities, row)]\<rparr>"

definition flecs_table_invoke_hook ::
  "'v ecs_world_t \<Rightarrow> 'v ecs_table_t \<Rightarrow> hook_event \<Rightarrow> nat \<Rightarrow> u64 list \<Rightarrow> nat \<Rightarrow> 'v ecs_world_t res" where
  "flecs_table_invoke_hook w t event column_index entities row =
     bindr (ecs_assert (column_index < length (tbl_columns t)) ECS_INTERNAL_ERROR) (\<lambda>_.
     bindr (defined_if (column_index < length (tbl_s2t t))) (\<lambda>_.
     let type_index = tbl_s2t t ! column_index in
     bindr (ecs_assert (type_index < length (tbl_type t)) ECS_INTERNAL_ERROR) (\<lambda>_.
     Inr (flecs_invoke_hook w event (tbl_type t ! type_index) entities row))))"

text \<open>Constructing rows of the buffer of a column.  Without a table there are no overrides.\<close>

definition flecs_table_invoke_ctor_for_array ::
  "'v ecs_world_t \<Rightarrow> 'v ecs_table_t option \<Rightarrow> (nat \<Rightarrow> 'v option) \<Rightarrow> nat \<Rightarrow> 'v cell list \<Rightarrow> nat \<Rightarrow> nat \<Rightarrow>
   'v ecs_type_info_t \<Rightarrow> ('v ecs_world_t \<times> 'v cell list) res" where
  "flecs_table_invoke_ctor_for_array w table ov column_index array row count ti =
     (case (table, ov column_index) of
        (Some t, Some base) \<Rightarrow>
          bindr (range_xtor (\<lambda>c. flecs_type_info_copy_ctor ti c (Some base)) w array row count) (\<lambda>(w, array).
          if h_on_set (ti_hooks ti) then
            bindr (read_entities t row count) (\<lambda>es. Inr (flecs_invoke_hook w EcsOnSet (ti_component ti) es row, array))
          else Inr (w, array))
      | _ \<Rightarrow> range_xtor (flecs_type_info_ctor ti) w array row count)"

definition set_col_data :: "'v ecs_table_t \<Rightarrow> nat \<Rightarrow> 'v cell list \<Rightarrow> 'v ecs_table_t" where
  "set_col_data t i data = t\<lparr>tbl_columns := (tbl_columns t)[i := (tbl_columns t ! i)\<lparr>col_data := data\<rparr>]\<rparr>"

definition flecs_table_invoke_ctor ::
  "'v ecs_world_t \<Rightarrow> 'v ecs_table_t \<Rightarrow> (nat \<Rightarrow> 'v option) \<Rightarrow> nat \<Rightarrow> nat \<Rightarrow> nat \<Rightarrow> ('v ecs_world_t \<times> 'v ecs_table_t) res" where
  "flecs_table_invoke_ctor w t ov column_index row count =
     (let column = tbl_columns t ! column_index in
      bindr (ecs_assert (col_data column \<noteq> []) ECS_INTERNAL_ERROR) (\<lambda>_.
      bindr (flecs_table_invoke_ctor_for_array w (Some t) ov column_index (col_data column) row count (col_ti column)) (\<lambda>(w, data).
      Inr (w, set_col_data t column_index data))))"

definition flecs_table_invoke_dtor ::
  "'v ecs_world_t \<Rightarrow> 'v ecs_table_t \<Rightarrow> nat \<Rightarrow> nat \<Rightarrow> nat \<Rightarrow> ('v ecs_world_t \<times> 'v ecs_table_t) res" where
  "flecs_table_invoke_dtor w t column_index row count =
     (let column = tbl_columns t ! column_index in
      bindr (ecs_assert (col_data column \<noteq> []) ECS_INTERNAL_ERROR) (\<lambda>_.
      bindr (range_xtor (flecs_type_info_dtor (col_ti column)) w (col_data column) row count) (\<lambda>(w, data).
      Inr (w, set_col_data t column_index data))))"

definition flecs_table_invoke_add_hooks ::
  "'v ecs_world_t \<Rightarrow> 'v ecs_table_t \<Rightarrow> (nat \<Rightarrow> 'v option) \<Rightarrow> nat \<Rightarrow> u64 list \<Rightarrow> nat \<Rightarrow> nat \<Rightarrow> bool \<Rightarrow> ('v ecs_world_t \<times> 'v ecs_table_t) res" where
  "flecs_table_invoke_add_hooks w t ov column_index entities row count construct =
     (let column = tbl_columns t ! column_index in
      bindr (ecs_assert (col_data column \<noteq> []) ECS_INTERNAL_ERROR) (\<lambda>_.
      bindr (if construct then flecs_table_invoke_ctor w t ov column_index row count else Inr (w, t)) (\<lambda>(w, t).
      if h_on_add (ti_hooks (col_ti column)) then
        bindr (flecs_table_invoke_hook w t EcsOnAdd column_index entities row) (\<lambda>w. Inr (w, t))
      else Inr (w, t))))"

definition flecs_table_invoke_remove_hooks ::
  "'v ecs_world_t \<Rightarrow> 'v ecs_table_t \<Rightarrow> nat \<Rightarrow> u64 list \<Rightarrow> nat \<Rightarrow> nat \<Rightarrow> bool \<Rightarrow> ('v ecs_world_t \<times> 'v ecs_table_t) res" where
  "flecs_table_invoke_remove_hooks w t column_index entities row count dtor =
     (let column = tbl_columns t ! column_index in
      bindr (ecs_assert (col_data column \<noteq> []) ECS_INTERNAL_ERROR) (\<lambda>_.
      bindr (if h_on_remove (ti_hooks (col_ti column)) then flecs_table_invoke_hook w t EcsOnRemove column_index entities row else Inr w) (\<lambda>w.
      if dtor then flecs_table_invoke_dtor w t column_index row count else Inr (w, t))))"

section \<open>Growing\<close>

definition vec_from_column :: "'v cell list \<Rightarrow> nat \<Rightarrow> nat \<Rightarrow> 'v ecs_vec_t" where
  "vec_from_column data count sz = \<lparr>vec_array = data, vec_count = count, vec_size = sz\<rparr>"

definition vec_from_entities :: "'v ecs_table_t \<Rightarrow> u64 ecs_vec_t" where
  "vec_from_entities t = \<lparr>vec_array = tbl_entities t, vec_count = tbl_count t, vec_size = tbl_size t\<rparr>"

definition flecs_table_grow_column ::
  "'v ecs_world_t \<Rightarrow> 'v ecs_table_t option \<Rightarrow> (nat \<Rightarrow> 'v option) \<Rightarrow> nat \<Rightarrow> 'v ecs_vec_t \<Rightarrow> 'v ecs_type_info_t \<Rightarrow> nat \<Rightarrow> nat \<Rightarrow> bool \<Rightarrow>
   ('v ecs_world_t \<times> 'v ecs_vec_t) res" where
  "flecs_table_grow_column w table ov column_index column ti to_add dst_size construct =
     (let count = ecs_vec_count column; sz = ecs_vec_size column; dst_count = count + to_add; can_realloc = dst_size \<noteq> sz in
      bindr (ecs_assert (dst_size \<ge> dst_count) ECS_INTERNAL_ERROR) (\<lambda>_.
      bindr (if count \<noteq> 0 \<and> can_realloc \<and> h_ctor_move_dtor (ti_hooks ti) \<noteq> None then
               bindr (ecs_assert (h_ctor (ti_hooks ti) \<noteq> None) ECS_INTERNAL_ERROR) (\<lambda>_.
               let dst = (ecs_vec_init dst_size)\<lparr>vec_count := dst_count\<rparr> in
               bindr (range_move (flecs_type_info_ctor_move_dtor ti) w (vec_array dst) 0 (vec_array column) 0 count) (\<lambda>(w, dst_buffer, _).
               bindr (if construct then flecs_table_invoke_ctor_for_array w table ov column_index dst_buffer count to_add ti
                      else Inr (w, dst_buffer)) (\<lambda>(w, dst_buffer).
               Inr (w, dst\<lparr>vec_array := dst_buffer\<rparr>))))
             else
               let column = (if can_realloc then ecs_vec_set_size column dst_size else column);
                   column = fst (ecs_vec_grow column to_add) in
               if construct then
                 bindr (flecs_table_invoke_ctor_for_array w table ov column_index (vec_array column) count to_add ti) (\<lambda>(w, array).
                 Inr (w, column\<lparr>vec_array := array\<rparr>))
               else Inr (w, column)) (\<lambda>(w, column).
      bindr (ecs_assert (vec_size column = dst_size) ECS_INTERNAL_ERROR) (\<lambda>_.
      Inr (w, column)))))"

text \<open>The body of the loop of \<open>flecs_table_grow_data\<close> over the columns.\<close>

definition grow_data_column ::
  "(nat \<Rightarrow> 'v option) \<Rightarrow> u64 ecs_vec_t \<Rightarrow> nat \<Rightarrow> nat \<Rightarrow> nat \<Rightarrow> nat \<Rightarrow> nat \<Rightarrow> 'v ecs_world_t \<times> 'v ecs_table_t \<Rightarrow> ('v ecs_world_t \<times> 'v ecs_table_t) res" where
  "grow_data_column ov v_entities prev_count prev_size to_add sz i = (\<lambda>(w, t).
     let column = tbl_columns t ! i in
     bindr (flecs_table_grow_column w (Some t) ov i (vec_from_column (col_data column) prev_count prev_size) (col_ti column) to_add sz True) (\<lambda>(w, v_column).
     bindr (ecs_assert (vec_size v_column = sz) ECS_INTERNAL_ERROR) (\<lambda>_.
     bindr (ecs_assert (vec_size v_column = vec_size v_entities) ECS_INTERNAL_ERROR) (\<lambda>_.
     bindr (ecs_assert (vec_count v_column = vec_count v_entities) ECS_INTERNAL_ERROR) (\<lambda>_.
     let t = set_col_data t i (vec_array v_column) in
     if to_add \<noteq> 0 then
       bindr (read_entities t prev_count to_add) (\<lambda>es. flecs_table_invoke_add_hooks w t ov i es prev_count to_add False)
     else Inr (w, t))))))"

text \<open>The ids are \<open>None\<close> when the caller passes no array; the memory is then cleared.\<close>

text \<open>The loops that append bits to all bitsets of a table.\<close>

definition append_bits :: "nat \<Rightarrow> 'v ecs_table_t \<Rightarrow> 'v ecs_table_t res" where
  "append_bits to_add t =
     for_each [0..<length (tbl_bs_columns t)] (\<lambda>i t.
       bindr (flecs_bitset_addn (tbl_bs_columns t ! i) to_add) (\<lambda>bs.
       Inr (t\<lparr>tbl_bs_columns := (tbl_bs_columns t)[i := bs]\<rparr>))) t"

definition flecs_table_grow_data ::
  "'v ecs_world_t \<Rightarrow> 'v ecs_table_t \<Rightarrow> (nat \<Rightarrow> 'v option) \<Rightarrow> nat \<Rightarrow> nat \<Rightarrow> u64 list option \<Rightarrow> (('v ecs_world_t \<times> 'v ecs_table_t) \<times> nat) res" where
  "flecs_table_grow_data w t ov to_add sz ids =
     bindr (ecs_assert (tbl_count t + to_add = sz) ECS_INTERNAL_ERROR) (\<lambda>_.
     let count = ecs_table_count t;
         v_entities = ecs_vec_set_size (vec_from_entities t) sz;
         v_entities = v_entities\<lparr>vec_count := vec_count v_entities + to_add\<rparr>;
         new = (case ids of Some es \<Rightarrow> map Some (take to_add es) | None \<Rightarrow> replicate to_add (Some 0)) in
     bindr (if sz \<noteq> 0 then
              bindr (defined_if (count + to_add \<le> length (vec_array v_entities) \<and> length new = to_add)) (\<lambda>_.
              Inr (put_cells (vec_array v_entities) count new))
            else Inr (vec_array v_entities)) (\<lambda>array.
     let sz = (if vec_size v_entities > sz then vec_size v_entities else sz);
         prev_count = tbl_count t; prev_size = tbl_size t;
         t = t\<lparr>tbl_entities := array, tbl_count := vec_count v_entities, tbl_size := vec_size v_entities\<rparr> in
     bindr (for_each [0..<length (tbl_columns t)] (grow_data_column ov v_entities prev_count prev_size to_add sz) (w, t)) (\<lambda>(w, t).
     bindr (append_bits to_add t) (\<lambda>t.
     bindr (flecs_table_mark_table_dirty w t 0) (\<lambda>wt.
     Inr (wt, count))))))"

section \<open>Appending\<close>

definition flecs_table_fast_append :: "'v ecs_table_t \<Rightarrow> 'v ecs_table_t" where
  "flecs_table_fast_append t =
     t\<lparr>tbl_columns := map (\<lambda>column. column\<lparr>col_data :=
         vec_array (fst (ecs_vec_append (vec_from_column (col_data column) (tbl_count t) (tbl_size t))))\<rparr>) (tbl_columns t)\<rparr>"

text \<open>The body of the loop over the columns: one more element, and \<open>on_add\<close>.\<close>

definition append_column ::
  "(nat \<Rightarrow> 'v option) \<Rightarrow> u64 ecs_vec_t \<Rightarrow> nat \<Rightarrow> nat \<Rightarrow> bool \<Rightarrow> bool \<Rightarrow> nat \<Rightarrow> 'v ecs_world_t \<times> 'v ecs_table_t \<Rightarrow> ('v ecs_world_t \<times> 'v ecs_table_t) res" where
  "append_column ov v_entities prev_count prev_size construct on_add i = (\<lambda>(w, t).
     let column = tbl_columns t ! i; sz = vec_size v_entities in
     bindr (flecs_table_grow_column w (Some t) ov i (vec_from_column (col_data column) prev_count prev_size) (col_ti column) 1 sz construct) (\<lambda>(w, v_column).
     let t = set_col_data t i (vec_array v_column) in
     bindr (if on_add \<and> h_on_add (ti_hooks (col_ti column)) then
              bindr (read_entities t prev_count 1) (\<lambda>es. flecs_table_invoke_hook w t EcsOnAdd i es prev_count)
            else Inr w) (\<lambda>w.
     bindr (ecs_assert (vec_size v_column = vec_size v_entities) ECS_INTERNAL_ERROR) (\<lambda>_.
     bindr (ecs_assert (vec_count v_column = vec_count v_entities) ECS_INTERNAL_ERROR) (\<lambda>_.
     Inr (w, t))))))"

definition flecs_table_append ::
  "'v ecs_world_t \<Rightarrow> 'v ecs_table_t \<Rightarrow> (nat \<Rightarrow> 'v option) \<Rightarrow> u64 \<Rightarrow> bool \<Rightarrow> bool \<Rightarrow> ('v ecs_world_t \<times> 'v ecs_table_t) res" where
  "flecs_table_append w t ov entity construct on_add =
     bindr (ecs_assert (tbl_lock t = 0) ECS_LOCKED_STORAGE) (\<lambda>_.
     let (v_entities, e) = ecs_vec_append (vec_from_entities t) in
     bindr (vec_write v_entities e entity) (\<lambda>v_entities.
     let t = t\<lparr>tbl_entities := vec_array v_entities\<rparr> in
     bindr (flecs_table_mark_table_dirty w t 0) (\<lambda>(w, t).
     if \<not> has_flag (tbl_flags t) (EcsTableIsComplex OR EcsTableHasIsA) then
       Inr (w, (flecs_table_fast_append t)\<lparr>tbl_count := vec_count v_entities, tbl_size := vec_size v_entities\<rparr>)
     else
       let prev_count = tbl_count t; prev_size = tbl_size t in
       bindr (ecs_assert (tbl_count t = vec_count v_entities - 1) ECS_INTERNAL_ERROR) (\<lambda>_.
       let t = t\<lparr>tbl_count := vec_count v_entities, tbl_size := vec_size v_entities\<rparr> in
       bindr (for_each [0..<length (tbl_columns t)] (append_column ov v_entities prev_count prev_size construct on_add) (w, t)) (\<lambda>(w, t).
       bindr (append_bits 1 t) (\<lambda>t. Inr (w, t)))))))"

text \<open>\<open>self\<close> is the address of the table.\<close>

definition flecs_table_appendn ::
  "nat \<Rightarrow> 'v ecs_world_t \<Rightarrow> 'v ecs_table_t \<Rightarrow> (nat \<Rightarrow> 'v option) \<Rightarrow> u64 list \<Rightarrow> (('v ecs_world_t \<times> 'v ecs_table_t) \<times> nat) res" where
  "flecs_table_appendn self w t ov ids =
     bindr (ecs_assert (tbl_lock t = 0) ECS_LOCKED_STORAGE) (\<lambda>_.
     bindr (for_each [0..<length ids] (\<lambda>i w.
       bindr (flecs_entity_index_get (w_index w) (ids ! i)) (\<lambda>r.
       bindr (record_modify (w_index w) r (\<lambda>rec. rec\<lparr>rec_table := Some self,
         rec_row := ECS_ROW_TO_RECORD (word_of_nat (ecs_table_count t + i)) 0\<rparr>)) (\<lambda>index.
       Inr (w\<lparr>w_index := index\<rparr>)))) w) (\<lambda>w.
     flecs_table_grow_data w t ov (length ids) (ecs_table_count t + length ids) (Some ids)))"


section \<open>Deleting and moving\<close>

definition flecs_table_fast_delete :: "'v ecs_world_t \<Rightarrow> 'v ecs_table_t \<Rightarrow> nat \<Rightarrow> ('v ecs_world_t \<times> 'v ecs_table_t) res" where
  "flecs_table_fast_delete w t row =
     for_each [0..<length (tbl_columns t)] (\<lambda>i (w, t).
       bindr (cell_move copy_elem w (col_data (tbl_columns t ! i)) row (tbl_count t - 1)) (\<lambda>(w, data).
       Inr (w, set_col_data t i data))) (w, t)"

text \<open>One column of a table with destructors or moves, when the last row replaces the deleted one.\<close>

definition delete_column ::
  "bool \<Rightarrow> u64 \<Rightarrow> nat \<Rightarrow> nat \<Rightarrow> nat \<Rightarrow> 'v ecs_world_t \<times> 'v ecs_table_t \<Rightarrow> ('v ecs_world_t \<times> 'v ecs_table_t) res" where
  "delete_column destruct entity_to_delete row count i = (\<lambda>(w, t).
     let column = tbl_columns t ! i; ti = col_ti column in
     bindr (if destruct \<and> h_on_remove (ti_hooks ti) then flecs_table_invoke_hook w t EcsOnRemove i [entity_to_delete] row else Inr w) (\<lambda>w.
     bindr (cell_move (if h_move_ctor (ti_hooks ti) = None \<and> h_ctor_move_dtor (ti_hooks ti) \<noteq> None
                       then flecs_type_info_ctor_move_dtor ti else flecs_type_info_move_dtor ti) w (col_data column) row count) (\<lambda>(w, data).
     Inr (w, set_col_data t i data))))"

text \<open>The record of the entity that takes the row of the deleted one.\<close>

definition update_moved_record :: "nat \<Rightarrow> ecs_entity_index_t \<Rightarrow> u64 \<Rightarrow> nat \<Rightarrow> ecs_entity_index_t res" where
  "update_moved_record self index entity row =
     bindr (flecs_entity_index_get index entity) (\<lambda>r.
     bindr (record_modify index r (\<lambda>rec. rec\<lparr>rec_row := ECS_ROW_TO_RECORD (word_of_nat row) (rec_row rec AND ECS_ROW_FLAGS_MASK)\<rparr>)) (\<lambda>index.
     bindr (record_read index r) (\<lambda>rec.
     bindr (ecs_assert (rec_table rec \<noteq> None) ECS_INTERNAL_ERROR) (\<lambda>_.
     bindr (ecs_assert (rec_table rec = Some self) ECS_INTERNAL_ERROR) (\<lambda>_.
     Inr index)))))"

definition read_entity :: "'v ecs_table_t \<Rightarrow> nat \<Rightarrow> u64 res" where
  "read_entity t row = vec_read (vec_from_entities t) row"

definition flecs_table_delete ::
  "nat \<Rightarrow> 'v ecs_world_t \<Rightarrow> 'v ecs_table_t \<Rightarrow> nat \<Rightarrow> bool \<Rightarrow> ('v ecs_world_t \<times> 'v ecs_table_t) res" where
  "flecs_table_delete self w t row destruct =
     bindr (ecs_assert (tbl_lock t = 0) ECS_LOCKED_STORAGE) (\<lambda>_.
     bindr (ecs_assert (ecs_table_count t > 0) ECS_INTERNAL_ERROR) (\<lambda>_.
     let count = ecs_table_count t - 1 in
     bindr (ecs_assert (row \<le> count) ECS_INTERNAL_ERROR) (\<lambda>_.
     bindr (read_entity t count) (\<lambda>entity_to_move.
     bindr (read_entity t row) (\<lambda>entity_to_delete.
     let t = t\<lparr>tbl_entities := (tbl_entities t)[row := Some entity_to_move]\<rparr> in
     bindr (if row \<noteq> count then update_moved_record self (w_index w) entity_to_move row else Inr (w_index w)) (\<lambda>index.
     let w = w\<lparr>w_index := index\<rparr> in
     bindr (flecs_table_mark_table_dirty w t 0) (\<lambda>(w, t).
     if \<not> has_flag (tbl_flags t) EcsTableIsComplex then
       bindr (if row \<noteq> count then flecs_table_fast_delete w t row else Inr (w, t)) (\<lambda>(w, t).
       Inr (w, t\<lparr>tbl_count := tbl_count t - 1\<rparr>))
     else
       bindr (if row = count then
                (if destruct \<and> has_flag (tbl_flags t) EcsTableHasDtors then
                   for_each [0..<length (tbl_columns t)] (\<lambda>i (w, t).
                     flecs_table_invoke_remove_hooks w t i [entity_to_delete] row 1 True) (w, t)
                 else Inr (w, t))
              else if has_flag (tbl_flags t) (EcsTableHasDtors OR EcsTableHasMove) then
                for_each [0..<length (tbl_columns t)] (delete_column destruct entity_to_delete row count) (w, t)
              else flecs_table_fast_delete w t row) (\<lambda>(w, t).
       bindr (for_each [0..<length (tbl_bs_columns t)] (\<lambda>i t.
                bindr (flecs_bitset_remove (tbl_bs_columns t ! i) row) (\<lambda>bs.
                Inr (t\<lparr>tbl_bs_columns := (tbl_bs_columns t)[i := bs]\<rparr>))) t) (\<lambda>t.
       Inr (w, t\<lparr>tbl_count := tbl_count t - 1\<rparr>))))))))))"

text \<open>
  The loops over two tables visit the columns in the order of their ids.  \<open>zip_columns\<close> is the sequence of the steps that
  such a loop takes, from indices \<open>i\<close> and \<open>j\<close> on, and where it leaves them.
\<close>

datatype column_step = Both nat nat | Dst_only nat | Src_only nat

fun zip_columns :: "nat \<Rightarrow> nat \<Rightarrow> u64 list \<Rightarrow> u64 list \<Rightarrow> column_step list \<times> nat \<times> nat" where
  "zip_columns i j (d # ds) (s # ss) =
     (if d = s then (let (steps, k) = zip_columns (i + 1) (j + 1) ds ss in (Both i j # steps, k))
      else if d < s then (let (steps, k) = zip_columns (i + 1) j ds (s # ss) in (Dst_only i # steps, k))
      else (let (steps, k) = zip_columns i (j + 1) (d # ds) ss in (Src_only j # steps, k)))"
| "zip_columns i j ds ss = ([], i, j)"

definition column_ids :: "'v ecs_table_t \<Rightarrow> u64 list" where
  "column_ids t = map (flecs_column_id t) [0..<length (tbl_columns t)]"

definition flecs_table_fast_move ::
  "'v ecs_world_t \<Rightarrow> 'v ecs_table_t \<Rightarrow> nat \<Rightarrow> 'v ecs_table_t \<Rightarrow> nat \<Rightarrow> ('v ecs_world_t \<times> 'v ecs_table_t \<times> 'v ecs_table_t) res" where
  "flecs_table_fast_move w dst dst_index src src_index =
     for_each (fst (zip_columns 0 0 (column_ids dst) (column_ids src))) (\<lambda>step (w, dst, src).
       case step of
         Both i j \<Rightarrow>
           bindr (range_move copy_elem w (col_data (tbl_columns dst ! i)) dst_index (col_data (tbl_columns src ! j)) src_index 1) (\<lambda>(w, d, s).
           Inr (w, set_col_data dst i d, set_col_data src j s))
       | _ \<Rightarrow> Inr (w, dst, src)) (w, dst, src)"

text \<open>The ids of the bitset columns: the toggle ids of the type, from \<open>bs_offset\<close> on.\<close>

definition toggle_ids :: "'v ecs_table_t \<Rightarrow> u64 list" where
  "toggle_ids t =
     (case drop (tbl_bs_offset t) (tbl_type t) of [] \<Rightarrow> [] | x # xs \<Rightarrow> x # filter (\<lambda>x. ECS_HAS_ID_FLAG x ECS_TOGGLE) xs)"

definition bitset_copy :: "ecs_bitset_t \<Rightarrow> nat \<Rightarrow> ecs_bitset_t \<Rightarrow> nat \<Rightarrow> nat \<Rightarrow> ecs_bitset_t res" where
  "bitset_copy dst_bs dst_index src_bs src_index count =
     bindr (flecs_bitset_ensure dst_bs (dst_index + count)) (\<lambda>bs.
     for_each [0..<count] (\<lambda>i bs.
       bindr (flecs_bitset_get src_bs (src_index + i)) (\<lambda>value. flecs_bitset_set bs (dst_index + i) value)) bs)"

definition flecs_table_move_bitset_columns ::
  "'v ecs_table_t \<Rightarrow> nat \<Rightarrow> 'v ecs_table_t \<Rightarrow> nat \<Rightarrow> nat \<Rightarrow> bool \<Rightarrow> ('v ecs_table_t \<times> 'v ecs_table_t) res" where
  "flecs_table_move_bitset_columns dst dst_index src src_index count clear =
     (if tbl_bs_columns src = [] \<and> tbl_bs_columns dst = [] then Inr (dst, src)
      else
        let dst_ids = take (length (tbl_bs_columns dst)) (toggle_ids dst);
            src_ids = take (length (tbl_bs_columns src)) (toggle_ids src);
            (steps, _, i_old) = zip_columns 0 0 dst_ids src_ids in
        bindr (for_each steps (\<lambda>step (dst, src).
          case step of
            Both i j \<Rightarrow>
              bindr (bitset_copy (tbl_bs_columns dst ! i) dst_index (tbl_bs_columns src ! j) src_index count) (\<lambda>bs.
              let dst = dst\<lparr>tbl_bs_columns := (tbl_bs_columns dst)[i := bs]\<rparr> in
              if clear then
                bindr (ecs_assert (count = flecs_bitset_count (tbl_bs_columns src ! j)) ECS_INTERNAL_ERROR) (\<lambda>_.
                Inr (dst, src\<lparr>tbl_bs_columns := (tbl_bs_columns src)[j := flecs_bitset_fini (tbl_bs_columns src ! j)]\<rparr>))
              else Inr (dst, src))
          | Src_only j \<Rightarrow>
              if clear then Inr (dst, src\<lparr>tbl_bs_columns := (tbl_bs_columns src)[j := flecs_bitset_fini (tbl_bs_columns src ! j)]\<rparr>)
              else Inr (dst, src)
          | Dst_only _ \<Rightarrow> Inr (dst, src)) (dst, src)) (\<lambda>(dst, src).
        if clear then
          bindr (for_each [i_old..<length (tbl_bs_columns src)] (\<lambda>j src.
            bindr (ecs_assert (count = flecs_bitset_count (tbl_bs_columns src ! j)) ECS_INTERNAL_ERROR) (\<lambda>_.
            Inr (src\<lparr>tbl_bs_columns := (tbl_bs_columns src)[j := flecs_bitset_fini (tbl_bs_columns src ! j)]\<rparr>))) src) (\<lambda>src.
          Inr (dst, src))
        else Inr (dst, src)))"

text \<open>One step of the loop of \<open>flecs_table_move\<close>.\<close>

definition move_column_step ::
  "(nat \<Rightarrow> 'v option) \<Rightarrow> u64 \<Rightarrow> u64 \<Rightarrow> nat \<Rightarrow> nat \<Rightarrow> u64 \<Rightarrow> bool \<Rightarrow> column_step \<Rightarrow> 'v ecs_world_t \<times> 'v ecs_table_t \<times> 'v ecs_table_t \<Rightarrow>
   ('v ecs_world_t \<times> 'v ecs_table_t \<times> 'v ecs_table_t) res" where
  "move_column_step ov dst_entity src_entity dst_index src_index emplace_id use_move_dtor step = (\<lambda>(w, dst, src).
     case step of
       Both i j \<Rightarrow>
         let ti = col_ti (tbl_columns dst ! i) in
         bindr (ecs_assert (ti_size ti \<noteq> 0) ECS_INTERNAL_ERROR) (\<lambda>_.
         bindr (range_move (if use_move_dtor \<or> h_move_ctor (ti_hooks ti) = None then flecs_type_info_ctor_move_dtor ti
                            else flecs_type_info_move_ctor ti)
                  w (col_data (tbl_columns dst ! i)) dst_index (col_data (tbl_columns src ! j)) src_index 1) (\<lambda>(w, d, s).
         Inr (w, set_col_data dst i d, set_col_data src j s)))
     | Dst_only i \<Rightarrow>
         bindr (flecs_table_invoke_add_hooks w dst ov i [dst_entity] dst_index 1 (flecs_column_id dst i \<noteq> emplace_id)) (\<lambda>(w, dst).
         Inr (w, dst, src))
     | Src_only j \<Rightarrow>
         bindr (flecs_table_invoke_remove_hooks w src j [src_entity] src_index 1 use_move_dtor) (\<lambda>(w, src).
         Inr (w, dst, src)))"

definition flecs_table_move ::
  "'v ecs_world_t \<Rightarrow> (nat \<Rightarrow> 'v option) \<Rightarrow> u64 \<Rightarrow> u64 \<Rightarrow> 'v ecs_table_t \<Rightarrow> nat \<Rightarrow> 'v ecs_table_t \<Rightarrow> nat \<Rightarrow> u64 \<Rightarrow>
   ('v ecs_world_t \<times> 'v ecs_table_t \<times> 'v ecs_table_t) res" where
  "flecs_table_move w ov dst_entity src_entity dst dst_index src src_index emplace_id =
     bindr (ecs_assert (tbl_lock dst = 0) ECS_LOCKED_STORAGE) (\<lambda>_.
     bindr (ecs_assert (tbl_lock src = 0) ECS_LOCKED_STORAGE) (\<lambda>_.
     if \<not> has_flag (tbl_flags dst OR tbl_flags src) (EcsTableIsComplex OR EcsTableHasIsA) then
       flecs_table_fast_move w dst dst_index src src_index
     else
       bindr (flecs_table_move_bitset_columns dst dst_index src src_index 1 False) (\<lambda>(dst, src).
       let use_move_dtor = (ecs_table_count src = src_index + 1);
           (steps, i_new, i_old) = zip_columns 0 0 (column_ids dst) (column_ids src);
           body = move_column_step ov dst_entity src_entity dst_index src_index emplace_id use_move_dtor in
       bindr (for_each steps body (w, dst, src)) (\<lambda>s.
       bindr (for_each (map Dst_only [i_new..<length (tbl_columns dst)]) body s) (\<lambda>s.
       for_each (map Src_only [i_old..<length (tbl_columns src)]) body s)))))"


section \<open>Shrinking, swapping and merging\<close>

text \<open>The result tells whether the table had memory.\<close>

definition shrink_column :: "nat \<Rightarrow> nat \<Rightarrow> 'v ecs_world_t \<times> 'v ecs_table_t \<Rightarrow> ('v ecs_world_t \<times> 'v ecs_table_t) res" where
  "shrink_column count i = (\<lambda>(w, t).
     let column = tbl_columns t ! i in
     bindr (if count \<noteq> 0 then
              range_move (flecs_type_info_ctor_move_dtor (col_ti column)) w (replicate count None) 0 (col_data column) 0 count
            else Inr (w, [], [])) (\<lambda>(w, data, _).
     Inr (w, set_col_data t i data)))"

definition flecs_table_shrink :: "'v ecs_world_t \<Rightarrow> 'v ecs_table_t \<Rightarrow> (('v ecs_world_t \<times> 'v ecs_table_t) \<times> bool) res" where
  "flecs_table_shrink w t =
     bindr (ecs_assert (tbl_lock t = 0) ECS_LOCKED_STORAGE) (\<lambda>_.
     let has_payload = tbl_entities t \<noteq> []; count = tbl_count t in
     if count = tbl_size t then Inr ((w, t), has_payload)
     else
       bindr (ecs_assert (count = 0 \<or> tbl_entities t \<noteq> []) ECS_INTERNAL_ERROR) (\<lambda>_.
       let t = t\<lparr>tbl_entities := take count (tbl_entities t)\<rparr> in
       bindr (for_each [0..<length (tbl_columns t)] (shrink_column count) (w, t)) (\<lambda>(w, t).
       let t = t\<lparr>tbl_size := count\<rparr> in
       bindr (flecs_table_mark_table_dirty w t 0) (\<lambda>wt.
       Inr (wt, has_payload)))))"

definition flecs_table_swap_bitset_columns :: "'v ecs_table_t \<Rightarrow> nat \<Rightarrow> nat \<Rightarrow> 'v ecs_table_t res" where
  "flecs_table_swap_bitset_columns t row_1 row_2 =
     for_each [0..<length (tbl_bs_columns t)] (\<lambda>i t.
       bindr (flecs_bitset_swap (tbl_bs_columns t ! i) row_1 row_2) (\<lambda>bs.
       Inr (t\<lparr>tbl_bs_columns := (tbl_bs_columns t)[i := bs]\<rparr>))) t"

text \<open>Two elements of a column are exchanged through the buffer \<open>tmp\<close>, with the moves of the type if it has them.\<close>

definition swap_column :: "nat \<Rightarrow> nat \<Rightarrow> nat \<Rightarrow> 'v ecs_world_t \<times> 'v ecs_table_t \<Rightarrow> ('v ecs_world_t \<times> 'v ecs_table_t) res" where
  "swap_column row_1 row_2 i = (\<lambda>(w, t).
     let column = tbl_columns t ! i; ti = col_ti column; data = col_data column in
     bindr (defined_if (row_1 < length data \<and> row_2 < length data)) (\<lambda>_.
     if h_move (ti_hooks ti) = None then
       Inr (w, set_col_data t i (data[row_1 := data ! row_2, row_2 := data ! row_1]))
     else
       bindr (ecs_assert (h_move_ctor (ti_hooks ti) \<noteq> None) ECS_INTERNAL_ERROR) (\<lambda>_.
       bindr (ecs_assert (h_move_dtor (ti_hooks ti) \<noteq> None) ECS_INTERNAL_ERROR) (\<lambda>_.
       bindr (flecs_type_info_move_ctor ti None (data ! row_1)) (\<lambda>((tmp, el_1), l1).
       bindr (flecs_type_info_move ti el_1 (data ! row_2)) (\<lambda>((el_1, el_2), l2).
       bindr (flecs_type_info_move_dtor ti el_2 tmp) (\<lambda>((el_2, tmp), l3).
       Inr (release w (l1 @ l2 @ l3), set_col_data t i (data[row_1 := el_1, row_2 := el_2])))))))))"

definition flecs_table_swap :: "'v ecs_world_t \<Rightarrow> 'v ecs_table_t \<Rightarrow> nat \<Rightarrow> nat \<Rightarrow> ('v ecs_world_t \<times> 'v ecs_table_t) res" where
  "flecs_table_swap w t row_1 row_2 =
     bindr (ecs_assert (tbl_lock t = 0) ECS_LOCKED_STORAGE) (\<lambda>_.
     if row_1 = row_2 then Inr (w, t)
     else
       bindr (flecs_table_mark_table_dirty w t 0) (\<lambda>(w, t).
       bindr (read_entity t row_1) (\<lambda>e1.
       bindr (read_entity t row_2) (\<lambda>e2.
       bindr (flecs_entity_index_get (w_index w) e1) (\<lambda>r1.
       bindr (flecs_entity_index_get (w_index w) e2) (\<lambda>r2.
       bindr (record_read (w_index w) r1) (\<lambda>rec1.
       bindr (record_read (w_index w) r2) (\<lambda>rec2.
       let flags_1 = ECS_RECORD_TO_ROW_FLAGS (rec_row rec1); flags_2 = ECS_RECORD_TO_ROW_FLAGS (rec_row rec2);
           t = t\<lparr>tbl_entities := (tbl_entities t)[row_1 := Some e2, row_2 := Some e1]\<rparr> in
       bindr (record_modify (w_index w) r1 (\<lambda>rec. rec\<lparr>rec_row := ECS_ROW_TO_RECORD (word_of_nat row_2) flags_1\<rparr>)) (\<lambda>index.
       bindr (record_modify index r2 (\<lambda>rec. rec\<lparr>rec_row := ECS_ROW_TO_RECORD (word_of_nat row_1) flags_2\<rparr>)) (\<lambda>index.
       let w = w\<lparr>w_index := index\<rparr> in
       bindr (flecs_table_swap_bitset_columns t row_1 row_2) (\<lambda>t.
       for_each [0..<length (tbl_columns t)] (swap_column row_1 row_2) (w, t))))))))))))"

definition ecs_table_swap_rows :: "'v ecs_world_t \<Rightarrow> 'v ecs_table_t \<Rightarrow> nat \<Rightarrow> nat \<Rightarrow> ('v ecs_world_t \<times> 'v ecs_table_t) res" where
  "ecs_table_swap_rows w t row_1 row_2 = flecs_table_swap w t row_1 row_2"

text \<open>\<open>elem_size\<close> is 0 in the call for the entities, so the vector grows by its own policy.\<close>

definition flecs_table_merge_vec :: "'a ecs_vec_t \<Rightarrow> 'a ecs_vec_t \<Rightarrow> nat \<Rightarrow> ('a ecs_vec_t \<times> 'a ecs_vec_t) res" where
  "flecs_table_merge_vec dst src elem_size =
     (if vec_count dst = 0 then Inr (src, \<lparr>vec_array = [], vec_count = 0, vec_size = 0\<rparr>)
      else
        let dst_count = vec_count dst; src_count = vec_count src;
            dst = (if elem_size \<noteq> 0 then ecs_vec_set_size dst elem_size else dst);
            dst = ecs_vec_set_count dst (dst_count + src_count) in
        bindr (memcpy (vec_array dst) dst_count (vec_array src) 0 src_count) (\<lambda>array.
        Inr (dst\<lparr>vec_array := array\<rparr>, ecs_vec_fini src)))"

text \<open>Type infos are equal pointers when they belong to the same component.\<close>

definition flecs_table_merge_column ::
  "'v ecs_world_t \<Rightarrow> 'v ecs_vec_t \<Rightarrow> 'v ecs_vec_t \<Rightarrow> 'v ecs_type_info_t \<Rightarrow> 'v ecs_type_info_t \<Rightarrow> nat \<Rightarrow> ('v ecs_world_t \<times> 'v cell list) res" where
  "flecs_table_merge_column w dst_vec src_vec ti src_ti column_size =
     bindr (ecs_assert (ti_component ti = ti_component src_ti) ECS_INTERNAL_ERROR) (\<lambda>_.
     let dst_count = ecs_vec_count dst_vec in
     if dst_count = 0 then Inr (w, vec_array src_vec)
     else
       let src_count = vec_count src_vec in
       bindr (flecs_table_grow_column w None (\<lambda>_. None) 0 dst_vec ti src_count column_size False) (\<lambda>(w, dst_vec).
       bindr (range_move (flecs_type_info_ctor_move_dtor ti) w (vec_array dst_vec) dst_count (vec_array src_vec) 0 src_count) (\<lambda>(w, array, _).
       Inr (w, array))))"

text \<open>One step of the loop of \<open>flecs_table_merge_data\<close>; the last two loops of the function take the same steps.\<close>

definition merge_column_step ::
  "(nat \<Rightarrow> 'v option) \<Rightarrow> nat \<Rightarrow> nat \<Rightarrow> nat \<Rightarrow> column_step \<Rightarrow> 'v ecs_world_t \<times> 'v ecs_table_t \<times> 'v ecs_table_t \<Rightarrow>
   ('v ecs_world_t \<times> 'v ecs_table_t \<times> 'v ecs_table_t) res" where
  "merge_column_step ov dst_count src_count column_size step = (\<lambda>(w, dst, src).
     case step of
       Both i j \<Rightarrow>
         let dc = tbl_columns dst ! i; sc = tbl_columns src ! j in
         bindr (flecs_table_merge_column w (vec_from_column (col_data dc) (tbl_count dst) (tbl_size dst))
                  (vec_from_column (col_data sc) (tbl_count src) (tbl_size src)) (col_ti dc) (col_ti sc) column_size) (\<lambda>(w, data).
         bindr (flecs_table_mark_table_dirty w (set_col_data dst i data) (i + 1)) (\<lambda>(w, dst).
         Inr (w, dst, set_col_data src j [])))
     | Dst_only i \<Rightarrow>
         let vec = ecs_vec_set_size (vec_from_column (col_data (tbl_columns dst ! i)) (tbl_count dst) (tbl_size dst)) column_size in
         bindr (flecs_table_invoke_ctor w (set_col_data dst i (vec_array vec)) ov i dst_count src_count) (\<lambda>(w, dst).
         Inr (w, dst, src))
     | Src_only j \<Rightarrow>
         bindr (flecs_table_invoke_dtor w src j 0 src_count) (\<lambda>(w, src).
         Inr (w, dst, set_col_data src j [])))"

definition flecs_table_merge_data ::
  "'v ecs_world_t \<Rightarrow> (nat \<Rightarrow> 'v option) \<Rightarrow> 'v ecs_table_t \<Rightarrow> 'v ecs_table_t \<Rightarrow> nat \<Rightarrow> nat \<Rightarrow>
   ('v ecs_world_t \<times> 'v ecs_table_t \<times> 'v ecs_table_t) res" where
  "flecs_table_merge_data w ov dst src dst_count src_count =
     (if src_count = 0 then Inr (w, dst, src)
      else
        bindr (flecs_table_merge_vec (vec_from_entities dst) (vec_from_entities src) 0) (\<lambda>(dst_entities, src_entities).
        bindr (ecs_assert (vec_count dst_entities = src_count + dst_count) ECS_INTERNAL_ERROR) (\<lambda>_.
        let column_size = vec_size dst_entities;
            (steps, i_new, i_old) = zip_columns 0 0 (column_ids dst) (column_ids src);
            body = merge_column_step ov dst_count src_count column_size in
        bindr (for_each steps body (w, dst, src)) (\<lambda>(w, dst, src).
        bindr (flecs_table_move_bitset_columns dst dst_count src 0 src_count True) (\<lambda>(dst, src).
        bindr (for_each (map Dst_only [i_new..<length (tbl_columns dst)]) body (w, dst, src)) (\<lambda>s.
        bindr (for_each (map Src_only [i_old..<length (tbl_columns src)]) body s) (\<lambda>(w, dst, src).
        bindr (flecs_table_mark_table_dirty w dst 0) (\<lambda>(w, dst).
        Inr (w, dst\<lparr>tbl_entities := vec_array dst_entities, tbl_count := vec_count dst_entities, tbl_size := vec_size dst_entities\<rparr>,
             src\<lparr>tbl_entities := vec_array src_entities, tbl_count := vec_count src_entities, tbl_size := vec_size src_entities\<rparr>)))))))))"

definition merge_records :: "nat \<Rightarrow> 'v ecs_table_t \<Rightarrow> nat \<Rightarrow> nat \<Rightarrow> ecs_entity_index_t \<Rightarrow> ecs_entity_index_t res" where
  "merge_records dst_self src dst_count src_count index =
     for_each [0..<src_count] (\<lambda>i index.
       bindr (read_entity src i) (\<lambda>e.
       bindr (flecs_entity_index_ensure index e) (\<lambda>(index, r).
       record_modify index r (\<lambda>rec. rec\<lparr>rec_row := ECS_ROW_TO_RECORD (word_of_nat (dst_count + i)) (ECS_RECORD_TO_ROW_FLAGS (rec_row rec)),
         rec_table := Some dst_self\<rparr>)))) index"

definition flecs_table_merge ::
  "nat \<Rightarrow> 'v ecs_world_t \<Rightarrow> (nat \<Rightarrow> 'v option) \<Rightarrow> 'v ecs_table_t \<Rightarrow> 'v ecs_table_t \<Rightarrow> ('v ecs_world_t \<times> 'v ecs_table_t \<times> 'v ecs_table_t) res" where
  "flecs_table_merge dst_self w ov dst src =
     bindr (ecs_assert (tbl_lock src = 0) ECS_LOCKED_STORAGE) (\<lambda>_.
     bindr (ecs_assert (tbl_lock dst = 0) ECS_LOCKED_STORAGE) (\<lambda>_.
     let src_count = ecs_table_count src; dst_count = ecs_table_count dst in
     bindr (merge_records dst_self src dst_count src_count (w_index w)) (\<lambda>index.
     bindr (flecs_table_merge_data (w\<lparr>w_index := index\<rparr>) ov dst src dst_count src_count) (\<lambda>(w, dst, src).
     if src_count \<noteq> 0 then
       bindr (flecs_table_traversable_add dst (tbl_traversable_count src)) (\<lambda>dst.
       bindr (flecs_table_traversable_add src (- tbl_traversable_count src)) (\<lambda>src.
       bindr (ecs_assert (tbl_traversable_count src = 0) ECS_INTERNAL_ERROR) (\<lambda>_.
       Inr (w, dst, src))))
     else Inr (w, dst, src)))))"

section \<open>Access\<close>

fun toggle_column_from :: "nat \<Rightarrow> u64 \<Rightarrow> u64 list \<Rightarrow> int" where
  "toggle_column_from column bs_id [] = - 1"
| "toggle_column_from column bs_id (x # ids) =
     (if \<not> ECS_HAS_ID_FLAG x ECS_TOGGLE then toggle_column_from column bs_id ids
      else if x = bs_id then int column
      else toggle_column_from (column + 1) bs_id ids)"

definition flecs_table_get_toggle_column :: "'v ecs_table_t \<Rightarrow> u64 \<Rightarrow> int" where
  "flecs_table_get_toggle_column t i = toggle_column_from 0 (ECS_TOGGLE OR i) (drop (tbl_bs_offset t) (tbl_type t))"

text \<open>The position of the bitset.\<close>

definition flecs_table_get_toggle :: "'v ecs_table_t \<Rightarrow> u64 \<Rightarrow> nat option res" where
  "flecs_table_get_toggle t i =
     (let toggle_column = flecs_table_get_toggle_column t i in
      if toggle_column = - 1 then Inr None
      else
        bindr (ecs_assert (toggle_column < int (length (tbl_bs_columns t))) ECS_INTERNAL_ERROR) (\<lambda>_.
        Inr (Some (nat toggle_column))))"

definition flecs_table_bloom_filter_add :: "u64 \<Rightarrow> u64 \<Rightarrow> u64" where
  "flecs_table_bloom_filter_add bloom value = bloom OR push_bit (unat (value mod 64)) 1"

definition flecs_table_bloom_filter_test :: "u64 \<Rightarrow> u64 \<Rightarrow> bool" where
  "flecs_table_bloom_filter_test bloom_filter bloom = (bloom_filter AND bloom = bloom)"

text \<open>
  For ids from \<open>FLECS_HI_COMPONENT_ID\<close> on, \<open>record\<close> is the table record that the component record of the id has for the table:
  its position in the type and its column.
\<close>

definition ecs_table_get_type_index :: "(u64 \<Rightarrow> (int \<times> int) option) \<Rightarrow> 'v ecs_table_t \<Rightarrow> u64 \<Rightarrow> int res" where
  "ecs_table_get_type_index record t i =
     (if i < FLECS_HI_COMPONENT_ID then
        bindr (defined_if (unat i < length (tbl_component_map t))) (\<lambda>_.
        let res = tbl_component_map t ! unat i in
        if res > 0 then
          bindr (defined_if (nat (res - 1) < length (tbl_s2t t))) (\<lambda>_. Inr (int (tbl_s2t t ! nat (res - 1))))
        else Inr (- res - 1))
      else Inr (case record i of None \<Rightarrow> - 1 | Some (index, _) \<Rightarrow> index))"

definition ecs_table_get_column_index :: "(u64 \<Rightarrow> (int \<times> int) option) \<Rightarrow> 'v ecs_table_t \<Rightarrow> u64 \<Rightarrow> int res" where
  "ecs_table_get_column_index record t i =
     (if i < FLECS_HI_COMPONENT_ID then
        bindr (defined_if (unat i < length (tbl_component_map t))) (\<lambda>_.
        let res = tbl_component_map t ! unat i in
        Inr (if res > 0 then res - 1 else - 1))
      else Inr (case record i of None \<Rightarrow> - 1 | Some (_, column) \<Rightarrow> column))"

definition ecs_table_type_to_column_index :: "'v ecs_table_t \<Rightarrow> nat \<Rightarrow> int res" where
  "ecs_table_type_to_column_index t index =
     bindr (ecs_assert (index < length (tbl_type t)) ECS_INVALID_PARAMETER) (\<lambda>_.
     Inr (if tbl_columns t \<noteq> [] then tbl_t2s t ! index else - 1))"

definition ecs_table_column_to_type_index :: "'v ecs_table_t \<Rightarrow> nat \<Rightarrow> int res" where
  "ecs_table_column_to_type_index t index =
     bindr (ecs_assert (index < length (tbl_columns t)) ECS_INVALID_PARAMETER) (\<lambda>_.
     Inr (int (tbl_s2t t ! index)))"

text \<open>A pointer to a cell is its column and row.\<close>

definition ecs_table_get_column :: "'v ecs_table_t \<Rightarrow> nat \<Rightarrow> nat \<Rightarrow> (nat \<times> nat) res" where
  "ecs_table_get_column t index offset =
     bindr (ecs_assert (index < length (tbl_columns t)) ECS_INVALID_PARAMETER) (\<lambda>_. Inr (index, offset))"

definition ecs_table_has_id :: "(u64 \<Rightarrow> (int \<times> int) option) \<Rightarrow> 'v ecs_table_t \<Rightarrow> u64 \<Rightarrow> bool res" where
  "ecs_table_has_id record t i = bindr (ecs_table_get_type_index record t i) (\<lambda>x. Inr (x \<noteq> - 1))"

definition ecs_table_has_flags :: "'v ecs_table_t \<Rightarrow> u32 \<Rightarrow> bool" where
  "ecs_table_has_flags t flags = (tbl_flags t AND flags = flags)"

definition ecs_table_has_traversable :: "'v ecs_table_t \<Rightarrow> bool" where
  "ecs_table_has_traversable t = (tbl_traversable_count t \<noteq> 0)"

end
