(* ===== verification/Table_Facts.thy ===== *)
theory Table_Facts
  imports Table
begin

text \<open>
  What the operations of a table do: the invariant of a table, and that every operation keeps it and acts row by row.
\<close>

section \<open>Growth of the columns\<close>

text \<open>The size that \<open>ecs_vec_set_size\<close> gives to a vector.\<close>

definition new_size :: "nat \<Rightarrow> nat \<Rightarrow> nat \<Rightarrow> nat" where
  "new_size cnt sz n =
     (if sz = n then sz
      else let p = sint (flecs_next_pow_of_2 (word_of_nat (if n < cnt then cnt else n))) in if p < 2 then 2 else nat p)"

lemma vec_realloc_same [simp]: "vec_realloc (length xs) xs = xs"
  by (simp add: vec_realloc_def)

lemma length_vec_realloc [simp]: "length (vec_realloc n xs) = n"
  by (simp add: vec_realloc_def)

lemma vec_realloc_nth: "i < n \<Longrightarrow> i < length xs \<Longrightarrow> vec_realloc n xs ! i = xs ! i"
  by (simp add: vec_realloc_def nth_append)

lemma take_vec_realloc: "k \<le> n \<Longrightarrow> k \<le> length xs \<Longrightarrow> take k (vec_realloc n xs) = take k xs"
  by (rule nth_equalityI) (simp_all add: vec_realloc_nth)

lemma ecs_vec_set_size_eq:
  assumes "length (vec_array v) = vec_size v"
  shows "ecs_vec_set_size v n = v\<lparr>vec_array := vec_realloc (new_size (vec_count v) (vec_size v) n) (vec_array v),
    vec_size := new_size (vec_count v) (vec_size v) n\<rparr>"
proof -
  have id: "v = v\<lparr>vec_array := vec_realloc (vec_size v) (vec_array v), vec_size := vec_size v\<rparr>"
    using vec_realloc_same [of "vec_array v"] assms by simp
  show ?thesis
    by (cases "vec_size v = n"; cases "new_size (vec_count v) (vec_size v) n = vec_size v")
      (use id in \<open>simp_all add: ecs_vec_set_size_def new_size_def Let_def\<close>)
qed

definition pow_size :: "nat \<Rightarrow> bool" where
  "pow_size m \<longleftrightarrow> (\<exists>k. 1 \<le> k \<and> k \<le> 30 \<and> m = 2 ^ k)"

lemma new_size_pow:
  assumes "sz \<noteq> n" "n \<le> 2 ^ 30" "cnt \<le> 2 ^ 30"
  shows "pow_size (new_size cnt sz n)" "n \<le> new_size cnt sz n" "cnt \<le> new_size cnt sz n"
proof -
  define c where "c = (if n < cnt then cnt else n)"
  have c: "c \<le> 2 ^ 30" "n \<le> c" "cnt \<le> c" using assms by (auto simp: c_def)
  have eq: "new_size cnt sz n = (let p = sint (flecs_next_pow_of_2 (word_of_nat c)) in if p < 2 then 2 else nat p)"
    using assms(1) by (simp add: new_size_def c_def)
  have "pow_size (new_size cnt sz n) \<and> c \<le> new_size cnt sz n"
  proof (cases "c = 0")
    case True
    then show ?thesis using eq by (auto simp: pow_size_def intro!: exI [of _ 1])
  next
    case False
    then obtain k where k: "k \<le> 30" "sint (flecs_next_pow_of_2 (word_of_nat c)) = 2 ^ k" "c \<le> 2 ^ k"
      using next_pow_sint [of c] c(1) by auto
    show ?thesis
    proof (cases k)
      case 0
      then show ?thesis using eq k by (auto simp: pow_size_def intro!: exI [of _ 1])
    next
      case (Suc l)
      have "\<not> (2 :: int) ^ k < 2" using Suc by (simp add: not_less)
      then have "new_size cnt sz n = nat (2 ^ k)" using eq k(2) by simp
      also have "nat (2 ^ k) = 2 ^ k" by (simp add: nat_power_eq)
      finally show ?thesis using k Suc by (auto simp: pow_size_def)
    qed
  qed
  with c show "pow_size (new_size cnt sz n)" "n \<le> new_size cnt sz n" "cnt \<le> new_size cnt sz n" by auto
qed

lemma pow_size_le: "pow_size m \<Longrightarrow> m \<le> 2 ^ 30"
  using power_increasing [of _ 30 "2 :: nat"] by (auto simp: pow_size_def)

text \<open>A power of two is not rounded again.\<close>

lemma new_size_fixed:
  assumes "pow_size m" "cnt \<le> m"
  shows "new_size cnt sz m = m"
proof (cases "sz = m")
  case False
  obtain k where k: "1 \<le> k" "k \<le> 30" "m = 2 ^ k" using assms(1) by (auto simp: pow_size_def)
  have m: "0 < m" "m \<le> 2 ^ 30" using pow_size_le [OF assms(1)] k by auto
  obtain l where l: "sint (flecs_next_pow_of_2 (word_of_nat m)) = 2 ^ l" "m \<le> 2 ^ l" "l = 0 \<or> 2 ^ (l - 1) < m"
    using next_pow_sint [OF m] by blast
  have "k \<le> l" using l(2) k(3) by (metis one_less_numeral_iff power_increasing_iff semiring_norm(76))
  moreover have "l - 1 < k" using l(3) k(1,3) by (auto dest: power_less_imp_less_exp)
  ultimately have "l = k" by linarith
  with l(1) have "sint (flecs_next_pow_of_2 (word_of_nat m)) = 2 ^ k" by simp
  moreover have "\<not> (2 :: int) ^ k < 2" using k(1) by (cases k) (simp_all add: not_less)
  moreover have "\<not> m < cnt" using assms(2) by simp
  ultimately show ?thesis using False k(3) by (simp add: new_size_def nat_power_eq)
qed (simp add: new_size_def)

definition append_size :: "nat \<Rightarrow> nat \<Rightarrow> nat" where
  "append_size cnt sz = (if sz = cnt then new_size cnt sz (cnt + 1) else sz)"

lemma ecs_vec_append_eq:
  assumes "length (vec_array v) = vec_size v"
  shows "ecs_vec_append v = (v\<lparr>vec_array := vec_realloc (append_size (vec_count v) (vec_size v)) (vec_array v),
    vec_size := append_size (vec_count v) (vec_size v), vec_count := vec_count v + 1\<rparr>, vec_count v)"
  using assms vec_realloc_same [of "vec_array v"]
  by (simp add: ecs_vec_append_def Let_def ecs_vec_set_size_eq append_size_def)

lemma append_size_bounds:
  assumes "cnt \<le> sz" "cnt < 2 ^ 30"
  shows "cnt + 1 \<le> append_size cnt sz" "append_size cnt sz = sz \<or> pow_size (append_size cnt sz)"
  using assms new_size_pow [of sz "cnt + 1" cnt] by (auto simp: append_size_def)

section \<open>Cells\<close>

lemma length_put_cells [simp]: "row + length cs \<le> length buf \<Longrightarrow> length (put_cells buf row cs) = length buf"
  by (simp add: put_cells_def)

lemma put_cells_nth:
  "row + length cs \<le> length buf \<Longrightarrow> i < length buf \<Longrightarrow>
   put_cells buf row cs ! i = (if row \<le> i \<and> i < row + length cs then cs ! (i - row) else buf ! i)"
  by (auto simp: put_cells_def nth_append)

lemma put_cells_one [simp]: "row < length buf \<Longrightarrow> put_cells buf row [c] = buf[row := c]"
  by (simp add: put_cells_def upd_conv_take_nth_drop)

lemma xtor_cells_ok:
  assumes "\<And>c. c \<in> set cs \<Longrightarrow> \<exists>d. f c = Inr (d, l c) \<and> P d"
  shows "\<exists>ds. xtor_cells f cs = Inr (ds, concat (map l cs)) \<and> length ds = length cs \<and> (\<forall>d \<in> set ds. P d)"
  using assms
proof (induction cs)
  case (Cons c cs)
  then obtain ds where ds: "xtor_cells f cs = Inr (ds, concat (map l cs))" "length ds = length cs" "\<forall>d \<in> set ds. P d" by fastforce
  from Cons.prems obtain d where "f c = Inr (d, l c)" "P d" by fastforce
  with ds show ?case by simp
qed simp

lemma move_cells_ok:
  assumes "length ds = length ss"
    and "\<And>d s. d \<in> set ds \<Longrightarrow> s \<in> set ss \<Longrightarrow> \<exists>s'. f d s = Inr ((s, s'), [])"
  shows "\<exists>ss'. move_cells f ds ss = Inr ((ss, ss'), []) \<and> length ss' = length ss"
  using assms
proof (induction ds ss rule: list_induct2)
  case (Cons d ds s ss)
  then obtain ss' where 1: "move_cells f ds ss = Inr ((ss, ss'), [])" "length ss' = length ss" by fastforce
  from Cons.prems obtain s' where "f d s = Inr ((s, s'), [])" by fastforce
  with 1 show ?case by (intro exI [of _ "s' # ss'"]) simp
qed simp

lemma release_Nil [simp]: "release w [] = w" by (simp add: release_def)

lemma take_drop_one: "i < length xs \<Longrightarrow> take (Suc 0) (drop i xs) = [xs ! i]"
  by (simp add: take_Suc hd_drop_conv_nth)

lemma range_xtor_one:
  assumes "row < length buf" "f (buf ! row) = Inr (c, l)"
  shows "range_xtor f w buf row 1 = Inr (release w l, buf[row := c])"
  using assms by (simp add: range_xtor_def take_drop_one)

lemma range_move_one:
  assumes "i < length dst" "j < length src" "f (dst ! i) (src ! j) = Inr ((d, s), l)"
  shows "range_move f w dst i src j 1 = Inr (release w l, dst[i := d], src[j := s])"
  using assms by (simp add: range_move_def take_drop_one)

text \<open>Relocating the first cells of a buffer to new memory.\<close>

lemma range_relocate:
  assumes "n \<le> length dst" "n \<le> length src"
    and "\<And>d i. i < n \<Longrightarrow> \<exists>s'. f d (src ! i) = Inr ((src ! i, s'), [])"
  shows "\<exists>src'. range_move f w dst 0 src 0 n = Inr (w, take n src @ drop n dst, src')"
proof -
  have "\<exists>s'. f d s = Inr ((s, s'), [])" if "s \<in> set (take n src)" for d s
    using that assms(2,3) by (auto simp: in_set_conv_nth)
  then obtain ss' where "move_cells f (take n dst) (take n src) = Inr ((take n src, ss'), [])" "length ss' = n"
    using move_cells_ok [of "take n dst" "take n src" f] assms(1,2) by auto
  then show ?thesis using assms(1,2) by (simp add: range_move_def put_cells_def)
qed

section \<open>Component types\<close>

text \<open>A value that a type manages is released when its cell is destroyed; plain values never are.\<close>

definition rel :: "('v \<Rightarrow> bool) \<Rightarrow> 'v ecs_type_info_t \<Rightarrow> 'v cell \<Rightarrow> 'v list" where
  "rel husk ti c = (if managed husk ti then (case c of None \<Rightarrow> [] | Some v \<Rightarrow> released husk v) else [])"

definition live :: "('v \<Rightarrow> bool) \<Rightarrow> 'v ecs_type_info_t \<Rightarrow> 'v cell \<Rightarrow> bool" where
  "live husk ti c \<longleftrightarrow> (managed husk ti \<longrightarrow> c \<noteq> None)"

definition type_ok :: "('v \<Rightarrow> bool) \<Rightarrow> 'v ecs_type_info_t \<Rightarrow> bool" where
  "type_ok husk ti \<longleftrightarrow> (managed husk ti \<or> plain ti) \<and> ti_size ti \<noteq> 0"

lemma managed_not_plain: "managed husk ti \<Longrightarrow> \<not> plain ti"
  by (simp add: managed_def plain_def)

lemma plain_flags:
  assumes "plain ti"
  shows "\<not> has_flag (h_flags (ti_hooks ti)) ECS_TYPE_HOOK_CTOR_ILLEGAL" "\<not> has_flag (h_flags (ti_hooks ti)) ECS_TYPE_HOOK_DTOR_ILLEGAL"
    "\<not> has_flag (h_flags (ti_hooks ti)) ECS_TYPE_HOOK_MOVE_ILLEGAL" "\<not> has_flag (h_flags (ti_hooks ti)) ECS_TYPE_HOOK_MOVE_CTOR_ILLEGAL"
    "\<not> has_flag (h_flags (ti_hooks ti)) ECS_TYPE_HOOK_CTOR_MOVE_DTOR_ILLEGAL" "\<not> has_flag (h_flags (ti_hooks ti)) ECS_TYPE_HOOK_MOVE_DTOR_ILLEGAL"
proof -
  let ?f = "h_flags (ti_hooks ti)"
  have "?f AND 0x7F400 = 0" using assms by (simp add: plain_def has_flag_def hook_flag_defs)
  moreover have sub: "?f AND m = 0" if "m AND 0x7F400 = m" "?f AND 0x7F400 = 0" for m :: u32
  proof -
    have "?f AND m = ?f AND (m AND 0x7F400)" using that(1) by simp
    also have "\<dots> = (?f AND 0x7F400) AND m" by (simp add: ac_simps)
    finally show ?thesis using that(2) by simp
  qed
  ultimately show "\<not> has_flag ?f ECS_TYPE_HOOK_CTOR_ILLEGAL" "\<not> has_flag ?f ECS_TYPE_HOOK_DTOR_ILLEGAL"
    "\<not> has_flag ?f ECS_TYPE_HOOK_MOVE_ILLEGAL" "\<not> has_flag ?f ECS_TYPE_HOOK_MOVE_CTOR_ILLEGAL"
    "\<not> has_flag ?f ECS_TYPE_HOOK_CTOR_MOVE_DTOR_ILLEGAL" "\<not> has_flag ?f ECS_TYPE_HOOK_MOVE_DTOR_ILLEGAL"
    by (auto simp: has_flag_def hook_flag_defs intro: sub)
qed

lemma type_relocate:
  assumes "type_ok husk ti" "live husk ti s"
  shows "\<exists>s'. flecs_type_info_ctor_move_dtor ti d s = Inr ((s, s'), []) \<and> rel husk ti s' = []"
proof (cases "managed husk ti")
  case True
  then obtain v where "s = Some v" using assms(2) by (auto simp: live_def)
  then show ?thesis using True by (simp add: managed_def relocate_law_def rel_def)
next
  case False
  then have p: "plain ti" using assms(1) by (simp add: type_ok_def)
  then show ?thesis using plain_flags [OF p] False by (simp add: flecs_type_info_ctor_move_dtor_def plain_def rel_def)
qed

lemma type_move_ctor:
  assumes "type_ok husk ti" "live husk ti s"
  shows "\<exists>s'. flecs_type_info_move_ctor ti d s = Inr ((s, s'), []) \<and> rel husk ti s' = [] \<and> live husk ti s'"
proof (cases "managed husk ti")
  case True
  then obtain v where v: "s = Some v" using assms(2) by (auto simp: live_def)
  obtain m where "flecs_type_info_move_ctor ti d (Some v) = Inr ((Some v, Some m), [])" "husk m"
    using True unfolding managed_def move_ctor_law_def by blast
  then show ?thesis using v by (simp add: rel_def released_def live_def)
next
  case False
  then have p: "plain ti" using assms(1) by (simp add: type_ok_def)
  then show ?thesis using plain_flags [OF p] False by (simp add: flecs_type_info_move_ctor_def plain_def rel_def live_def)
qed

lemma type_move_dtor:
  assumes "type_ok husk ti" "live husk ti s" "live husk ti d"
  shows "\<exists>s'. flecs_type_info_move_dtor ti d s = Inr ((s, s'), rel husk ti d)"
proof (cases "managed husk ti")
  case True
  then obtain v w where v: "s = Some v" "d = Some w" using assms(2,3) by (auto simp: live_def)
  show ?thesis using v True by (simp add: managed_def move_dtor_law_def rel_def)
next
  case False
  then have p: "plain ti" using assms(1) by (simp add: type_ok_def)
  then show ?thesis using plain_flags [OF p] False by (simp add: flecs_type_info_move_dtor_def plain_def rel_def)
qed

lemma type_move:
  assumes "type_ok husk ti" "live husk ti s" "live husk ti d"
  shows "\<exists>s'. flecs_type_info_move ti d s = Inr ((s, s'), rel husk ti d) \<and> rel husk ti s' = [] \<and> live husk ti s'"
proof (cases "managed husk ti")
  case True
  then obtain v w where v: "s = Some v" "d = Some w" using assms(2,3) by (auto simp: live_def)
  obtain m where "flecs_type_info_move ti (Some w) (Some v) = Inr ((Some v, Some m), released husk w)" "husk m"
    using True unfolding managed_def move_law_def by blast
  then show ?thesis using v True by (simp add: rel_def released_def live_def)
next
  case False
  then have p: "plain ti" using assms(1) by (simp add: type_ok_def)
  then show ?thesis using plain_flags [OF p] False by (simp add: flecs_type_info_move_def plain_def rel_def live_def)
qed

lemma type_dtor:
  assumes "type_ok husk ti" "live husk ti c"
  shows "\<exists>c'. flecs_type_info_dtor ti c = Inr (c', rel husk ti c) \<and> rel husk ti c' = []"
proof (cases "managed husk ti")
  case True
  then obtain v where "c = Some v" using assms(2) by (auto simp: live_def)
  then show ?thesis using True by (simp add: managed_def dtor_law_def rel_def)
next
  case False
  then have p: "plain ti" using assms(1) by (simp add: type_ok_def)
  then show ?thesis using plain_flags [OF p] False by (simp add: flecs_type_info_dtor_def plain_def rel_def)
qed

text \<open>A constructed cell: a husk for a managed type, some value if the type has a constructor.\<close>

definition made :: "('v \<Rightarrow> bool) \<Rightarrow> 'v ecs_type_info_t \<Rightarrow> 'v cell \<Rightarrow> bool" where
  "made husk ti c \<longleftrightarrow> live husk ti c \<and> rel husk ti c = [] \<and> (h_ctor (ti_hooks ti) \<noteq> None \<longrightarrow> c \<noteq> None)"

lemma type_ctor:
  assumes "type_ok husk ti"
  shows "\<exists>c'. flecs_type_info_ctor ti c = Inr (c', []) \<and> made husk ti c'"
proof (cases "managed husk ti")
  case True
  then obtain d where "flecs_type_info_ctor ti c = Inr (Some d, [])" "husk d"
    unfolding managed_def ctor_law_def by blast
  then show ?thesis by (simp add: made_def rel_def released_def live_def)
next
  case False
  then have p: "plain ti" using assms(1) by (simp add: type_ok_def)
  show ?thesis
  proof (cases "h_ctor (ti_hooks ti)")
    case None
    then show ?thesis using plain_flags [OF p] False by (simp add: flecs_type_info_ctor_def made_def rel_def live_def)
  next
    case (Some h)
    then obtain d where "flecs_type_info_ctor ti c = Inr (Some d, [])" using p unfolding plain_def by blast
    then show ?thesis using False by (simp add: made_def rel_def live_def)
  qed
qed

section \<open>The invariant\<close>

text \<open>What does not change: the maps between type and columns, the flags, and the ids of the bitsets.\<close>

definition table_static :: "('v \<Rightarrow> bool) \<Rightarrow> 'v ecs_table_t \<Rightarrow> bool" where
  "table_static husk t \<longleftrightarrow>
     length (tbl_s2t t) = length (tbl_columns t) \<and> (\<forall>k \<in> set (tbl_s2t t). k < length (tbl_type t)) \<and>
     sorted_wrt (<) (column_ids t) \<and>
     (\<forall>c \<in> set (tbl_columns t). type_ok husk (col_ti c) \<and>
        (\<forall>m. has_flag (flecs_type_info_flags (col_ti c)) m \<longrightarrow> has_flag (tbl_flags t) m)) \<and>
     (tbl_bs_columns t \<noteq> [] \<longrightarrow> has_flag (tbl_flags t) EcsTableHasToggle) \<and>
     length (tbl_bs_columns t) \<le> length (toggle_ids t) \<and> sorted_wrt (<) (toggle_ids t) \<and>
     (\<forall>ds. tbl_dirty_state t = Some ds \<longrightarrow> length ds = length (tbl_columns t) + 1)"

text \<open>
  All columns have the size of the column of ids, and the first \<open>n\<close> rows hold values.  \<open>n\<close> is the number of rows
  except while an entity is on its way from one table to another.
\<close>

definition table_rows :: "('v \<Rightarrow> bool) \<Rightarrow> nat \<Rightarrow> 'v ecs_table_t \<Rightarrow> bool" where
  "table_rows husk n t \<longleftrightarrow>
     length (tbl_entities t) = tbl_size t \<and> tbl_count t \<le> tbl_size t \<and> None \<notin> set (take (tbl_count t) (tbl_entities t)) \<and>
     (\<forall>c \<in> set (tbl_columns t). length (col_data c) = tbl_size t \<and> (\<forall>i < n. live husk (col_ti c) (col_data c ! i))) \<and>
     (\<forall>bs \<in> set (tbl_bs_columns t). bs_wf bs \<and> bs_count bs = tbl_count t)"

definition table_wf :: "('v \<Rightarrow> bool) \<Rightarrow> nat \<Rightarrow> 'v ecs_table_t \<Rightarrow> bool" where
  "table_wf husk n t \<longleftrightarrow> table_static husk t \<and> table_rows husk n t \<and> n \<le> tbl_count t"

text \<open>The ids and the values of the columns, as lists of rows.\<close>

definition entity_list :: "'v ecs_table_t \<Rightarrow> u64 list" where
  "entity_list t = map the (take (tbl_count t) (tbl_entities t))"

definition column_cells :: "'v ecs_table_t \<Rightarrow> nat \<Rightarrow> 'v cell list" where
  "column_cells t i = take (tbl_count t) (col_data (tbl_columns t ! i))"

definition toggle_bits :: "'v ecs_table_t \<Rightarrow> nat \<Rightarrow> bool list" where
  "toggle_bits t i = bs_bits (tbl_bs_columns t ! i)"

text \<open>The parts of a table that rows do not touch.\<close>

definition same_shape :: "'v ecs_table_t \<Rightarrow> 'v ecs_table_t \<Rightarrow> bool" where
  "same_shape t t' \<longleftrightarrow> tbl_type t' = tbl_type t \<and> tbl_flags t' = tbl_flags t \<and> tbl_lock t' = tbl_lock t \<and>
     tbl_s2t t' = tbl_s2t t \<and> tbl_t2s t' = tbl_t2s t \<and> tbl_component_map t' = tbl_component_map t \<and>
     tbl_traversable_count t' = tbl_traversable_count t \<and> tbl_id t' = tbl_id t \<and> tbl_bs_offset t' = tbl_bs_offset t \<and>
     length (tbl_columns t') = length (tbl_columns t) \<and> (\<forall>i < length (tbl_columns t). col_ti (tbl_columns t' ! i) = col_ti (tbl_columns t ! i)) \<and>
     length (tbl_bs_columns t') = length (tbl_bs_columns t) \<and>
     map_option length (tbl_dirty_state t') = map_option length (tbl_dirty_state t)"

lemma same_shape_refl [simp]: "same_shape t t"
  by (simp add: same_shape_def)

lemma same_shape_trans [trans]: "same_shape t t' \<Longrightarrow> same_shape t' t'' \<Longrightarrow> same_shape t t''"
  by (simp add: same_shape_def)

lemma same_shape_ids:
  assumes "same_shape t t'"
  shows "column_ids t' = column_ids t" "toggle_ids t' = toggle_ids t"
  using assms by (simp_all add: same_shape_def column_ids_def flecs_column_id_def toggle_ids_def)

lemma same_shape_static: "same_shape t t' \<Longrightarrow> table_static husk t \<Longrightarrow> table_static husk t'"
proof -
  assume s: "same_shape t t'" and t: "table_static husk t"
  have "\<exists>c' \<in> set (tbl_columns t). col_ti c' = col_ti c" if "c \<in> set (tbl_columns t')" for c
    using that s unfolding same_shape_def in_set_conv_nth by (metis nth_mem)
  then have "\<forall>c \<in> set (tbl_columns t'). type_ok husk (col_ti c) \<and>
        (\<forall>m. has_flag (flecs_type_info_flags (col_ti c)) m \<longrightarrow> has_flag (tbl_flags t') m)"
    using t s unfolding table_static_def same_shape_def by metis
  moreover have "\<forall>ds. tbl_dirty_state t' = Some ds \<longrightarrow> length ds = length (tbl_columns t') + 1"
  proof (intro allI impI)
    fix ds assume "tbl_dirty_state t' = Some ds"
    with s obtain ds0 where "tbl_dirty_state t = Some ds0" "length ds = length ds0"
      by (cases "tbl_dirty_state t") (auto simp: same_shape_def)
    with t s show "length ds = length (tbl_columns t') + 1" by (simp add: table_static_def same_shape_def)
  qed
  moreover have "tbl_bs_columns t' \<noteq> [] \<longrightarrow> tbl_bs_columns t \<noteq> []" using s by (auto simp: same_shape_def)
  ultimately show "table_static husk t'"
    using t same_shape_ids [OF s] s by (simp add: table_static_def same_shape_def)
qed

lemma table_staticD:
  assumes "table_static husk t" "i < length (tbl_columns t)"
  shows "type_ok husk (col_ti (tbl_columns t ! i))"
    "has_flag (flecs_type_info_flags (col_ti (tbl_columns t ! i))) m \<Longrightarrow> has_flag (tbl_flags t) m"
    "tbl_s2t t ! i < length (tbl_type t)" "i < length (tbl_s2t t)"
  using assms nth_mem [OF assms(2)] by (auto simp: table_static_def)

text \<open>Without the flags of complex tables there are no managed types and no bitsets.\<close>

lemma has_flag_or: "has_flag f (a OR b) \<longleftrightarrow> has_flag f a \<or> has_flag f b"
  by (auto simp: has_flag_def bit_eq_iff bit_and_iff bit_or_iff)

lemma has_flag_or_left: "has_flag (a OR b) m \<longleftrightarrow> has_flag a m \<or> has_flag b m"
  by (auto simp: has_flag_def bit_eq_iff bit_and_iff bit_or_iff)

lemma set_flag_has: "has_flag (set_flag b m f) k \<longleftrightarrow> has_flag f k \<or> (b \<and> has_flag m k)"
  by (simp add: set_flag_def has_flag_or_left)

lemma type_info_flags_has:
  "has_flag (flecs_type_info_flags ti) EcsTableHasCtors \<longleftrightarrow> h_ctor (ti_hooks ti) \<noteq> None \<or> h_on_add (ti_hooks ti)"
  "has_flag (flecs_type_info_flags ti) EcsTableHasDtors \<longleftrightarrow> h_dtor (ti_hooks ti) \<noteq> None \<or> h_on_remove (ti_hooks ti)"
  "has_flag (flecs_type_info_flags ti) EcsTableHasMove \<longleftrightarrow> h_move (ti_hooks ti) \<noteq> None"
  unfolding flecs_type_info_flags_def Let_def set_flag_has by (auto simp: has_flag_def table_flag_defs)

lemma simple_table:
  assumes t: "table_static husk t" and flags: "\<not> has_flag (tbl_flags t) EcsTableIsComplex"
  shows "tbl_bs_columns t = []" "i < length (tbl_columns t) \<Longrightarrow> \<not> managed husk (col_ti (tbl_columns t ! i))"
    "i < length (tbl_columns t) \<Longrightarrow> \<not> h_on_remove (ti_hooks (col_ti (tbl_columns t ! i)))"
    "i < length (tbl_columns t) \<Longrightarrow> h_ctor (ti_hooks (col_ti (tbl_columns t ! i))) = None"
proof -
  have f: "\<not> has_flag (tbl_flags t) EcsTableHasToggle" "\<not> has_flag (tbl_flags t) EcsTableHasCtors" "\<not> has_flag (tbl_flags t) EcsTableHasDtors"
    using flags by (simp_all add: EcsTableIsComplex_def EcsTableHasLifecycle_def has_flag_or)
  show "tbl_bs_columns t = []" using t f(1) by (auto simp: table_static_def)
  show "\<not> managed husk (col_ti (tbl_columns t ! i))" if "i < length (tbl_columns t)"
    using table_staticD(2) [OF t that, of EcsTableHasCtors] f(2) by (auto simp: type_info_flags_has managed_def)
  show "\<not> h_on_remove (ti_hooks (col_ti (tbl_columns t ! i)))" if "i < length (tbl_columns t)"
    using table_staticD(2) [OF t that, of EcsTableHasDtors] f(3) by (auto simp: type_info_flags_has)
  show "h_ctor (ti_hooks (col_ti (tbl_columns t ! i))) = None" if "i < length (tbl_columns t)"
    using table_staticD(2) [OF t that, of EcsTableHasCtors] f(2) by (cases "h_ctor (ti_hooks (col_ti (tbl_columns t ! i)))") (auto simp: type_info_flags_has)
qed

section \<open>Loops over the columns\<close>

definition with_columns :: "'v ecs_table_t \<Rightarrow> 'v ecs_column_t list \<Rightarrow> 'v ecs_table_t" where
  "with_columns t cs = t\<lparr>tbl_columns := cs\<rparr>"

lemma set_col_data_with: "set_col_data (with_columns t cs) i d = with_columns t (cs[i := (cs ! i)\<lparr>col_data := d\<rparr>])"
  by (simp add: set_col_data_def with_columns_def)

text \<open>
  A loop whose body replaces the data of one column after the other, and keeps \<open>R\<close> of the world at each
  round: at the end every column has what its round established.
\<close>

lemma columns_loop:
  assumes start: "R 0 w"
    and step: "\<And>i w cs. i < length (tbl_columns t) \<Longrightarrow> R i w \<Longrightarrow> length cs = length (tbl_columns t) \<Longrightarrow> cs ! i = tbl_columns t ! i \<Longrightarrow>
      (\<forall>j < length (tbl_columns t). col_ti (cs ! j) = col_ti (tbl_columns t ! j)) \<Longrightarrow>
      \<exists>w' d. body i (w, with_columns t cs) = Inr (w', set_col_data (with_columns t cs) i d) \<and> Q i d \<and> R (Suc i) w'"
  shows "\<exists>w' cs. for_each [0..<length (tbl_columns t)] body (w, t) = Inr (w', with_columns t cs) \<and>
    length cs = length (tbl_columns t) \<and>
    (\<forall>i < length (tbl_columns t). col_ti (cs ! i) = col_ti (tbl_columns t ! i) \<and> Q i (col_data (cs ! i))) \<and> R (length (tbl_columns t)) w'"
proof -
  let ?n = "length (tbl_columns t)"
  define I where "I i s \<longleftrightarrow> (\<exists>w cs. s = (w, with_columns t cs) \<and> R i w \<and> length cs = ?n \<and>
    (\<forall>j < ?n. col_ti (cs ! j) = col_ti (tbl_columns t ! j) \<and> (if j < i then Q j (col_data (cs ! j)) else cs ! j = tbl_columns t ! j)))" for i s
  have "\<exists>s'. for_each [0..<?n] body (w, t) = Inr s' \<and> I ?n s'"
  proof (rule for_each_upt_rule)
    show "I 0 (w, t)" unfolding I_def
      by (intro exI [of _ w] exI [of _ "tbl_columns t"]) (simp add: start with_columns_def)
    fix i s assume i: "0 \<le> i" "i < ?n" and "I i s"
    then obtain w cs where s: "s = (w, with_columns t cs)" "R i w" "length cs = ?n"
      "\<forall>j < ?n. col_ti (cs ! j) = col_ti (tbl_columns t ! j) \<and> (if j < i then Q j (col_data (cs ! j)) else cs ! j = tbl_columns t ! j)"
      unfolding I_def by blast
    have "cs ! i = tbl_columns t ! i" using s(4) i(2) by simp
    with step [OF i(2) s(2,3)] s(4) obtain w' d where
      b: "body i (w, with_columns t cs) = Inr (w', set_col_data (with_columns t cs) i d)" "Q i d" "R (Suc i) w'" by blast
    let ?cs = "cs[i := (cs ! i)\<lparr>col_data := d\<rparr>]"
    have all: "\<forall>j < ?n. col_ti (?cs ! j) = col_ti (tbl_columns t ! j) \<and> (if j < Suc i then Q j (col_data (?cs ! j)) else ?cs ! j = tbl_columns t ! j)"
      using s(3,4) b(2) i(2) by (auto simp: nth_list_update less_Suc_eq)
    have "I (Suc i) (w', with_columns t ?cs)" unfolding I_def
      by (rule exI [of _ w'], rule exI [of _ ?cs], intro conjI refl b(3) all) (simp add: s(3))
    with b(1) s(1) show "\<exists>s'. body i s = Inr s' \<and> I (Suc i) s'" by (simp add: set_col_data_with)
  qed simp
  then show ?thesis unfolding I_def by auto
qed

text \<open>The same for the bitsets.\<close>

lemma bitsets_loop:
  assumes step: "\<And>i. i < length (tbl_bs_columns t) \<Longrightarrow> \<exists>bs. f (tbl_bs_columns t ! i) = Inr bs \<and> Q i bs"
  shows "\<exists>bss. for_each [0..<length (tbl_bs_columns t)] (\<lambda>i t. bindr (f (tbl_bs_columns t ! i)) (\<lambda>bs.
      Inr (t\<lparr>tbl_bs_columns := (tbl_bs_columns t)[i := bs]\<rparr>))) t = Inr (t\<lparr>tbl_bs_columns := bss\<rparr>) \<and>
    length bss = length (tbl_bs_columns t) \<and> (\<forall>i < length bss. Q i (bss ! i))"
proof -
  let ?n = "length (tbl_bs_columns t)"
  define I where "I i s \<longleftrightarrow> (\<exists>bss. s = t\<lparr>tbl_bs_columns := bss\<rparr> \<and> length bss = ?n \<and>
    (\<forall>j < ?n. if j < i then Q j (bss ! j) else bss ! j = tbl_bs_columns t ! j))" for i s
  let ?body = "\<lambda>i t. bindr (f (tbl_bs_columns t ! i)) (\<lambda>bs. Inr (t\<lparr>tbl_bs_columns := (tbl_bs_columns t)[i := bs]\<rparr>))"
  have "\<exists>s'. for_each [0..<?n] ?body t = Inr s' \<and> I ?n s'"
  proof (rule for_each_upt_rule)
    show "I 0 t" unfolding I_def by (intro exI [of _ "tbl_bs_columns t"]) simp
    fix i s assume i: "0 \<le> i" "i < ?n" and "I i s"
    then obtain bss where s: "s = t\<lparr>tbl_bs_columns := bss\<rparr>" "length bss = ?n"
      "\<forall>j < ?n. if j < i then Q j (bss ! j) else bss ! j = tbl_bs_columns t ! j" unfolding I_def by blast
    obtain bs where "f (tbl_bs_columns t ! i) = Inr bs" "Q i bs" using step i(2) by blast
    moreover have "bss ! i = tbl_bs_columns t ! i" using s(3) i(2) by simp
    moreover have "\<forall>j < ?n. if j < Suc i then Q j (bss[i := bs] ! j) else bss[i := bs] ! j = tbl_bs_columns t ! j"
      using s(2,3) calculation(2) by (auto simp: nth_list_update less_Suc_eq)
    ultimately show "\<exists>s'. ?body i s = Inr s' \<and> I (Suc i) s'"
      unfolding I_def using s(1,2) by (intro exI [of _ "t\<lparr>tbl_bs_columns := bss[i := bs]\<rparr>"] conjI exI [of _ "bss[i := bs]"]) simp_all
  qed simp
  then show ?thesis unfolding I_def by auto
qed

section \<open>Appending\<close>

lemma construct_ok:
  assumes "type_ok husk ti" "row + count \<le> length array" "ov k = None"
  shows "\<exists>cs. flecs_table_invoke_ctor_for_array w tab ov k array row count ti = Inr (w, put_cells array row cs) \<and>
    length cs = count \<and> (\<forall>c \<in> set cs. made husk ti c)"
proof -
  have "\<exists>d. flecs_type_info_ctor ti c = Inr (d, []) \<and> made husk ti d" for c by (rule type_ctor [OF assms(1)])
  then obtain cs where "xtor_cells (flecs_type_info_ctor ti) (take count (drop row array)) = Inr (cs, [])"
    "length cs = count" "\<forall>c \<in> set cs. made husk ti c"
    using xtor_cells_ok [of "take count (drop row array)" "flecs_type_info_ctor ti" "\<lambda>_. []" "made husk ti"] assms(2) by auto
  then show ?thesis
    using assms(2,3) by (intro exI [of _ cs]) (simp add: flecs_table_invoke_ctor_for_array_def range_xtor_def split: option.split)
qed

definition grown :: "('v \<Rightarrow> bool) \<Rightarrow> 'v ecs_type_info_t \<Rightarrow> 'v cell list \<Rightarrow> nat \<Rightarrow> nat \<Rightarrow> nat \<Rightarrow> bool \<Rightarrow> 'v cell list \<Rightarrow> bool" where
  "grown husk ti data cnt to_add dst_size construct array \<longleftrightarrow> length array = dst_size \<and> take cnt array = take cnt data \<and>
     (construct \<longrightarrow> (\<forall>i. cnt \<le> i \<and> i < cnt + to_add \<longrightarrow> made husk ti (array ! i)))"

lemma grown_construct:
  assumes "length array = dst_size" "take cnt array = take cnt data" "cnt + to_add \<le> dst_size"
    and "length cs = to_add" "\<forall>c \<in> set cs. made husk ti c"
  shows "grown husk ti data cnt to_add dst_size b (put_cells array cnt cs)"
proof -
  have "take cnt (put_cells array cnt cs) = take cnt array" using assms(1,3) by (simp add: put_cells_def)
  then show ?thesis using assms by (auto simp: grown_def put_cells_nth)
qed

lemma grow_column_ok:
  assumes ti: "type_ok husk ti" and live: "\<And>i. i < cnt \<Longrightarrow> live husk ti (data ! i)" and len: "length data = sz" "cnt \<le> sz"
    and dst: "cnt + to_add \<le> dst_size" "dst_size = sz \<or> pow_size dst_size" and ov: "ov k = None"
  shows "\<exists>array. flecs_table_grow_column w tab ov k (vec_from_column data cnt sz) ti to_add dst_size construct =
      Inr (w, \<lparr>vec_array = array, vec_count = cnt + to_add, vec_size = dst_size\<rparr>) \<and> grown husk ti data cnt to_add dst_size construct array"
proof (cases "cnt \<noteq> 0 \<and> dst_size \<noteq> sz \<and> h_ctor_move_dtor (ti_hooks ti) \<noteq> None")
  case True
  then have ctor: "h_ctor (ti_hooks ti) \<noteq> None" using ti by (auto simp: type_ok_def managed_def plain_def)
  let ?new = "replicate dst_size None :: 'a cell list"
  have new: "ecs_vec_init dst_size = (\<lparr>vec_array = ?new, vec_count = 0, vec_size = dst_size\<rparr> :: 'a ecs_vec_t)"
    by (simp add: ecs_vec_init_def ecs_vec_init_w_dbg_info_def flecs_vec_alloc_def)
  let ?moved = "take cnt data @ drop cnt ?new"
  have moved: "length ?moved = dst_size" "take cnt ?moved = take cnt data" using len dst(1) by simp_all
  have "\<exists>s'. flecs_type_info_ctor_move_dtor ti d (data ! i) = Inr ((data ! i, s'), [])" if "i < cnt" for d i
    using type_relocate [OF ti live [OF that]] by blast
  then obtain src' where mv: "range_move (flecs_type_info_ctor_move_dtor ti) w ?new 0 data 0 cnt = Inr (w, ?moved, src')"
    using range_relocate [of cnt ?new data "flecs_type_info_ctor_move_dtor ti" w] len dst(1) by auto
  have "cnt + to_add \<le> length ?moved" using dst(1) moved(1) by simp
  then obtain cs where cs: "flecs_table_invoke_ctor_for_array w tab ov k ?moved cnt to_add ti = Inr (w, put_cells ?moved cnt cs)"
    "length cs = to_add" "\<forall>c \<in> set cs. made husk ti c" using construct_ok [OF ti, where ov = ov and k = k] ov by blast
  show ?thesis
  proof (cases construct)
    case c: True
    show ?thesis
      by (rule exI [of _ "put_cells ?moved cnt cs"])
        (use True ctor new mv cs dst(1) grown_construct [OF moved dst(1) cs(2,3)] c in
          \<open>simp add: flecs_table_grow_column_def vec_from_column_def ecs_vec_count_def ecs_vec_size_def Let_def\<close>)
  next
    case c: False
    show ?thesis
      by (rule exI [of _ ?moved])
        (use True ctor new mv dst(1) moved c in
          \<open>simp add: flecs_table_grow_column_def vec_from_column_def ecs_vec_count_def ecs_vec_size_def Let_def grown_def\<close>)
  qed
next
  case False
  let ?v = "vec_from_column data cnt sz"
  let ?arr = "vec_realloc dst_size data"
  have size: "new_size cnt sz dst_size = dst_size" using dst new_size_fixed [of dst_size cnt sz] by (auto simp: new_size_def)
  have v1: "(if dst_size \<noteq> sz then ecs_vec_set_size ?v dst_size else ?v) = \<lparr>vec_array = ?arr, vec_count = cnt, vec_size = dst_size\<rparr>"
    using len(1) size vec_realloc_same [of data] by (auto simp: ecs_vec_set_size_eq vec_from_column_def)
  have v2: "fst (ecs_vec_grow (\<lparr>vec_array = ?arr, vec_count = cnt, vec_size = dst_size\<rparr> :: 'a ecs_vec_t) to_add) =
      \<lparr>vec_array = ?arr, vec_count = cnt + to_add, vec_size = dst_size\<rparr>"
    using dst(1) by (simp add: ecs_vec_grow_def ecs_vec_set_count_def Let_def)
  have arr: "length ?arr = dst_size" "take cnt ?arr = take cnt data" using len dst(1) by (simp_all add: take_vec_realloc)
  have "cnt + to_add \<le> length ?arr" using dst(1) by simp
  then obtain cs where cs: "flecs_table_invoke_ctor_for_array w tab ov k ?arr cnt to_add ti = Inr (w, put_cells ?arr cnt cs)"
    "length cs = to_add" "\<forall>c \<in> set cs. made husk ti c" using construct_ok [OF ti, where ov = ov and k = k] ov by blast
  have sel: "ecs_vec_count ?v = cnt" "ecs_vec_size ?v = sz" by (simp_all add: ecs_vec_count_def ecs_vec_size_def vec_from_column_def)
  show ?thesis
    unfolding flecs_table_grow_column_def Let_def sel if_not_P [OF False] v1 v2
    using cs dst(1) arr grown_construct [OF arr dst(1) cs(2,3)] by (cases construct) (auto simp: grown_def)
qed

text \<open>The parts of the world that appending does not touch.\<close>

definition quiet :: "'v ecs_world_t \<Rightarrow> 'v ecs_world_t \<Rightarrow> bool" where
  "quiet w w' \<longleftrightarrow> w_index w' = w_index w \<and> w_tables w' = w_tables w \<and> w_released w' = w_released w"

lemma quiet_refl [simp]: "quiet w w" by (simp add: quiet_def)

lemma quiet_trans [trans]: "quiet w w' \<Longrightarrow> quiet w' w'' \<Longrightarrow> quiet w w''" by (simp add: quiet_def)

lemma quiet_invoke [simp]: "quiet w (flecs_invoke_hook w ev c es row)" by (simp add: quiet_def flecs_invoke_hook_def)

lemma mark_dirty_ok:
  assumes "table_static husk t" "index \<le> length (tbl_columns t)"
  shows "\<exists>w' ds v. flecs_table_mark_table_dirty w t index = Inr (w', t\<lparr>tbl_dirty_state := ds, tbl_version := v\<rparr>) \<and> quiet w w' \<and>
    map_option length ds = map_option length (tbl_dirty_state t)"
proof -
  have len: "index < length ds" if "tbl_dirty_state t = Some ds" for ds
    using assms that by (simp add: table_static_def)
  show ?thesis
  proof (cases "tbl_dirty_state t")
    case None
    have upd: "t\<lparr>tbl_dirty_state := None, tbl_version := v\<rparr> = t\<lparr>tbl_version := v\<rparr>" for v using None by (cases t) simp
    have "flecs_table_mark_table_dirty w t index = Inr (if index = 0 then flecs_increment_table_version w t else (w, t))"
      using None by (simp add: flecs_table_mark_table_dirty_def)
    also have "(if index = 0 then flecs_increment_table_version w t else (w, t)) =
        (if index = 0 then fst (flecs_increment_table_version w t) else w,
         t\<lparr>tbl_dirty_state := None, tbl_version := if index = 0 then tbl_version t + 1 else tbl_version t\<rparr>)"
      by (simp add: flecs_increment_table_version_def Let_def upd)
    moreover have "quiet w (if index = 0 then fst (flecs_increment_table_version w t) else w)"
      by (simp add: flecs_increment_table_version_def Let_def quiet_def)
    ultimately show ?thesis using None by (intro exI conjI) simp_all
  next
    case (Some ds)
    let ?ds = "Some (ds[index := ds ! index + 1])"
    have "flecs_table_mark_table_dirty w t index =
        Inr (if index = 0 then flecs_increment_table_version w (t\<lparr>tbl_dirty_state := ?ds\<rparr>) else (w, t\<lparr>tbl_dirty_state := ?ds\<rparr>))"
      using Some len by (simp add: flecs_table_mark_table_dirty_def)
    moreover have "(if index = 0 then flecs_increment_table_version w (t\<lparr>tbl_dirty_state := ?ds\<rparr>) else (w, t\<lparr>tbl_dirty_state := ?ds\<rparr>)) =
        (if index = 0 then fst (flecs_increment_table_version w t) else w,
         t\<lparr>tbl_dirty_state := ?ds, tbl_version := if index = 0 then tbl_version t + 1 else tbl_version t\<rparr>)"
      by (simp add: flecs_increment_table_version_def Let_def)
    moreover have "quiet w (if index = 0 then fst (flecs_increment_table_version w t) else w)"
      by (simp add: flecs_increment_table_version_def Let_def quiet_def)
    moreover have "map_option length ?ds = map_option length (tbl_dirty_state t)" using Some by simp
    ultimately show ?thesis
      by (intro exI [of _ "if index = 0 then fst (flecs_increment_table_version w t) else w"] exI [of _ ?ds]
        exI [of _ "if index = 0 then tbl_version t + 1 else tbl_version t"] conjI) simp_all
  qed
qed

lemma table_rowsD:
  assumes "table_rows husk n t"
  shows "length (tbl_entities t) = tbl_size t" "tbl_count t \<le> tbl_size t" "None \<notin> set (take (tbl_count t) (tbl_entities t))"
    "i < length (tbl_columns t) \<Longrightarrow> length (col_data (tbl_columns t ! i)) = tbl_size t"
    "i < length (tbl_columns t) \<Longrightarrow> k < n \<Longrightarrow> live husk (col_ti (tbl_columns t ! i)) (col_data (tbl_columns t ! i) ! k)"
    "i < length (tbl_bs_columns t) \<Longrightarrow> bs_wf (tbl_bs_columns t ! i)"
    "i < length (tbl_bs_columns t) \<Longrightarrow> bs_count (tbl_bs_columns t ! i) = tbl_count t"
  using assms by (simp_all add: table_rows_def)

lemma nth_take_eq: "take k xs = take k ys \<Longrightarrow> i < k \<Longrightarrow> xs ! i = ys ! i"
  by (metis nth_take)

lemma take_snoc_eq:
  assumes "k < length xs" "take k xs = ys" "xs ! k = y"
  shows "take (Suc k) xs = ys @ [y]"
  using assms by (simp add: take_Suc_conv_app_nth)

lemma append_bits_ok:
  assumes "\<And>i. i < length (tbl_bs_columns t) \<Longrightarrow> bs_wf (tbl_bs_columns t ! i) \<and> bs_count (tbl_bs_columns t ! i) + n \<le> 2 ^ 31 - 64"
  shows "append_bits n t = Inr (t\<lparr>tbl_bs_columns := map (\<lambda>bs. bs_grow bs n) (tbl_bs_columns t)\<rparr>)"
proof -
  let ?Q = "\<lambda>i bs. bs = bs_grow (tbl_bs_columns t ! i) n"
  have "\<exists>bs. flecs_bitset_addn (tbl_bs_columns t ! i) n = Inr bs \<and> ?Q i bs" if "i < length (tbl_bs_columns t)" for i
    using assms [OF that] bitset_addn_ok(1) by blast
  from bitsets_loop [where f = "\<lambda>bs. flecs_bitset_addn bs n" and Q = ?Q and t = t, OF this] obtain bss where
    B: "append_bits n t = Inr (t\<lparr>tbl_bs_columns := bss\<rparr>)" "length bss = length (tbl_bs_columns t)" "\<forall>i < length bss. ?Q i (bss ! i)"
    unfolding append_bits_def by blast
  then have "bss = map (\<lambda>bs. bs_grow bs n) (tbl_bs_columns t)" by (intro nth_equalityI) simp_all
  with B(1) show ?thesis by simp
qed

text \<open>A table with a row more.\<close>

lemma append_result:
  fixes e :: u64 and v :: "16 word"
  assumes wf: "table_wf husk (tbl_count t) t" and room: "tbl_count t < 2 ^ 30" and sz: "tbl_count t + 1 \<le> sz"
    and cs: "length cs = length (tbl_columns t)"
      "\<And>i. i < length cs \<Longrightarrow> col_ti (cs ! i) = col_ti (tbl_columns t ! i) \<and>
         grown husk (col_ti (cs ! i)) (col_data (tbl_columns t ! i)) (tbl_count t) 1 sz construct (col_data (cs ! i))"
    and ds: "map_option length ds = map_option length (tbl_dirty_state t)"
  defines "t' \<equiv> t\<lparr>tbl_version := v, tbl_entities := (vec_realloc sz (tbl_entities t))[tbl_count t := Some e], tbl_columns := cs,
     tbl_count := tbl_count t + 1, tbl_size := sz, tbl_dirty_state := ds, tbl_bs_columns := map (\<lambda>bs. bs_grow bs 1) (tbl_bs_columns t)\<rparr>"
  shows "same_shape t t'" "entity_list t' = entity_list t @ [e]" "table_wf husk (if construct then tbl_count t + 1 else tbl_count t) t'"
    "\<And>i. i < length (tbl_bs_columns t) \<Longrightarrow> toggle_bits t' i = toggle_bits t i @ [False]"
proof -
  note R = table_rowsD [OF conjunct1 [OF conjunct2 [OF wf [unfolded table_wf_def]]]]
  show shape: "same_shape t t'" using cs ds by (simp add: same_shape_def t'_def)
  have ents: "take (tbl_count t) (tbl_entities t') = take (tbl_count t) (tbl_entities t)"
    "tbl_entities t' ! tbl_count t = Some e" "length (tbl_entities t') = sz"
    using sz R(1,2) by (simp_all add: t'_def take_vec_realloc)
  then have snoc: "take (Suc (tbl_count t)) (tbl_entities t') = take (tbl_count t) (tbl_entities t) @ [Some e]"
    using sz by (intro take_snoc_eq) simp_all
  then show "entity_list t' = entity_list t @ [e]" by (simp add: entity_list_def t'_def)
  have add: "bs_wf (bs_grow (tbl_bs_columns t ! i) 1)"
    "bs_bits (bs_grow (tbl_bs_columns t ! i) 1) = bs_bits (tbl_bs_columns t ! i) @ [False]"
    if "i < length (tbl_bs_columns t)" for i
    using bitset_addn_ok [OF R(6) [OF that], of 1] R(7) [OF that] room by simp_all
  then show "\<And>i. i < length (tbl_bs_columns t) \<Longrightarrow> toggle_bits t' i = toggle_bits t i @ [False]"
    by (simp add: toggle_bits_def t'_def)
  have "bs_count (bs_grow (tbl_bs_columns t ! i) 1) = tbl_count t + 1" if "i < length (tbl_bs_columns t)" for i
    using arg_cong [OF add(2) [OF that], of length] R(7) [OF that] by simp
  then have bits: "\<forall>bs \<in> set (tbl_bs_columns t'). bs_wf bs \<and> bs_count bs = tbl_count t'"
    using add(1) by (auto simp: t'_def in_set_conv_nth)
  have rows: "length (col_data (cs ! i)) = sz \<and> (\<forall>k < (if construct then tbl_count t + 1 else tbl_count t). live husk (col_ti (cs ! i)) (col_data (cs ! i) ! k))"
    if "i < length cs" for i
  proof -
    note G = cs(2) [OF that, unfolded grown_def]
    have old: "live husk (col_ti (cs ! i)) (col_data (cs ! i) ! k)" if "k < tbl_count t" for k
      using R(5) [of i k] that nth_take_eq [of "tbl_count t" "col_data (cs ! i)" "col_data (tbl_columns t ! i)" k] G \<open>i < length cs\<close> cs(1) by simp
    have "construct \<longrightarrow> live husk (col_ti (cs ! i)) (col_data (cs ! i) ! tbl_count t)" using G by (auto simp: made_def)
    then show ?thesis using G old by (auto simp: less_Suc_eq)
  qed
  then have "\<forall>c \<in> set cs. length (col_data c) = sz \<and> (\<forall>k < (if construct then tbl_count t + 1 else tbl_count t). live husk (col_ti c) (col_data c ! k))"
    by (auto simp: in_set_conv_nth)
  then have "table_rows husk (if construct then tbl_count t + 1 else tbl_count t) t'"
    unfolding table_rows_def using bits snoc ents(3) sz R(3) by (simp add: t'_def)
  then show "table_wf husk (if construct then tbl_count t + 1 else tbl_count t) t'"
    using same_shape_static [OF shape] wf by (simp add: table_wf_def t'_def)
qed


definition append_spec :: "('v \<Rightarrow> bool) \<Rightarrow> 'v ecs_table_t \<Rightarrow> u64 \<Rightarrow> bool \<Rightarrow> 'v ecs_table_t \<Rightarrow> bool" where
  "append_spec husk t e construct t' \<longleftrightarrow> same_shape t t' \<and> tbl_count t' = tbl_count t + 1 \<and> entity_list t' = entity_list t @ [e] \<and>
     table_wf husk (if construct then tbl_count t + 1 else tbl_count t) t' \<and>
     (\<forall>i < length (tbl_columns t). take (tbl_count t) (col_data (tbl_columns t' ! i)) = column_cells t i \<and>
        (construct \<longrightarrow> made husk (col_ti (tbl_columns t ! i)) (col_data (tbl_columns t' ! i) ! tbl_count t))) \<and>
     (\<forall>i < length (tbl_bs_columns t). toggle_bits t' i = toggle_bits t i @ [False])"

lemma append_specI:
  fixes e :: u64 and v :: "16 word"
  assumes wf: "table_wf husk (tbl_count t) t" and room: "tbl_count t < 2 ^ 30" and sz: "tbl_count t + 1 \<le> sz"
    and cs: "length cs = length (tbl_columns t)"
      "\<And>i. i < length cs \<Longrightarrow> col_ti (cs ! i) = col_ti (tbl_columns t ! i) \<and>
         grown husk (col_ti (cs ! i)) (col_data (tbl_columns t ! i)) (tbl_count t) 1 sz construct (col_data (cs ! i))"
    and ds: "map_option length ds = map_option length (tbl_dirty_state t)"
  shows "append_spec husk t e construct (t\<lparr>tbl_version := v, tbl_entities := (vec_realloc sz (tbl_entities t))[tbl_count t := Some e], tbl_columns := cs,
     tbl_count := tbl_count t + 1, tbl_size := sz, tbl_dirty_state := ds, tbl_bs_columns := map (\<lambda>bs. bs_grow bs 1) (tbl_bs_columns t)\<rparr>)"
    (is "append_spec _ _ _ _ ?t'")
proof -
  have "\<forall>i < length (tbl_columns t). take (tbl_count t) (col_data (tbl_columns ?t' ! i)) = column_cells t i \<and>
        (construct \<longrightarrow> made husk (col_ti (tbl_columns t ! i)) (col_data (tbl_columns ?t' ! i) ! tbl_count t))"
  proof (intro allI impI)
    fix i assume i: "i < length (tbl_columns t)"
    then have G: "col_ti (cs ! i) = col_ti (tbl_columns t ! i)"
      "grown husk (col_ti (tbl_columns t ! i)) (col_data (tbl_columns t ! i)) (tbl_count t) 1 sz construct (col_data (cs ! i))"
      using cs(1) cs(2) [of i] by metis+
    show "take (tbl_count t) (col_data (tbl_columns ?t' ! i)) = column_cells t i \<and>
        (construct \<longrightarrow> made husk (col_ti (tbl_columns t ! i)) (col_data (tbl_columns ?t' ! i) ! tbl_count t))"
      using G(2) by (simp add: grown_def column_cells_def)
  qed
  moreover have "tbl_count ?t' = tbl_count t + 1" by simp
  ultimately show ?thesis
    unfolding append_spec_def using append_result [OF wf room sz cs ds, where e = e and v = v] by blast
qed

lemma grown_vec_append:
  assumes "length data = sz" "cnt \<le> sz" "cnt < 2 ^ 30" "\<not> managed husk ti" "h_ctor (ti_hooks ti) = None"
  shows "grown husk ti data cnt 1 (append_size cnt sz) construct (vec_array (fst (ecs_vec_append (vec_from_column data cnt sz))))"
  using assms append_size_bounds [OF assms(2,3)]
  by (simp add: grown_def ecs_vec_append_eq vec_from_column_def take_vec_realloc made_def live_def rel_def)

lemma hook_ok:
  assumes "table_static husk t" "same_shape t t'" "i < length (tbl_columns t)"
  shows "\<exists>w'. flecs_table_invoke_hook w t' ev i es row = Inr w' \<and> quiet w w'"
  using assms(2,3) table_staticD(3,4) [OF assms(1,3)]
  by (simp add: flecs_table_invoke_hook_def same_shape_def Let_def)

lemma read_entities_ok:
  assumes "row + count \<le> tbl_count t" "table_rows husk n t"
  shows "read_entities t row count = Inr (take count (drop row (entity_list t)))"
proof -
  note R = table_rowsD [OF assms(2)]
  have eq: "take count (drop row (tbl_entities t)) = take count (drop row (take (tbl_count t) (tbl_entities t)))"
    using assms(1) by (simp add: take_drop)
  then have "None \<notin> set (take count (drop row (tbl_entities t)))" using R(3) by (metis in_set_dropD in_set_takeD)
  then show ?thesis using assms(1) R(1,2) eq by (simp add: read_entities_def entity_list_def take_map drop_map)
qed

lemma table_append_ok:
  assumes wf: "table_wf husk (tbl_count t) t" and lock: "tbl_lock t = 0" and room: "tbl_count t < 2 ^ 30"
    and ov: "\<And>i. ov i = None"
  shows "\<exists>w' t'. flecs_table_append w t ov e construct on_add = Inr (w', t') \<and> quiet w w' \<and> append_spec husk t e construct t'"
proof -
  have st: "table_static husk t" and rows: "table_rows husk (tbl_count t) t" using wf by (simp_all add: table_wf_def)
  note R = table_rowsD [OF rows]
  let ?c = "tbl_count t" and ?sz = "append_size (tbl_count t) (tbl_size t)"
  note S = append_size_bounds [OF R(2) room]
  let ?ents = "(vec_realloc ?sz (tbl_entities t))[?c := Some e]"
  let ?v = "\<lparr>vec_array = ?ents, vec_count = ?c + 1, vec_size = ?sz\<rparr>"
  have app: "ecs_vec_append (vec_from_entities t) = (\<lparr>vec_array = vec_realloc ?sz (tbl_entities t), vec_count = ?c + 1, vec_size = ?sz\<rparr>, ?c)"
    using R(1) by (simp add: ecs_vec_append_eq vec_from_entities_def)
  have wr: "vec_write \<lparr>vec_array = vec_realloc ?sz (tbl_entities t), vec_count = ?c + 1, vec_size = ?sz\<rparr> ?c e = Inr ?v"
    using S(1) by (simp add: vec_write_def)
  have st1: "table_static husk (t\<lparr>tbl_entities := ?ents\<rparr>)" by (rule same_shape_static [OF _ st]) (simp add: same_shape_def)
  obtain w1 ds v where md: "flecs_table_mark_table_dirty w (t\<lparr>tbl_entities := ?ents\<rparr>) 0 =
      Inr (w1, t\<lparr>tbl_entities := ?ents, tbl_dirty_state := ds, tbl_version := v\<rparr>)" "quiet w w1"
    and ds: "map_option length ds = map_option length (tbl_dirty_state t)"
    using mark_dirty_ok [OF st1, of 0 w] by auto
  let ?t2 = "t\<lparr>tbl_entities := ?ents, tbl_dirty_state := ds, tbl_version := v\<rparr>"
  show ?thesis
  proof (cases "has_flag (tbl_flags t) (EcsTableIsComplex OR EcsTableHasIsA)")
    case False
    then have simple: "\<not> has_flag (tbl_flags t) EcsTableIsComplex" by (simp add: has_flag_or)
    note P = simple_table [OF st simple]
    define cs where "cs = map (\<lambda>column. column\<lparr>col_data := vec_array (fst (ecs_vec_append (vec_from_column (col_data column) ?c (tbl_size t))))\<rparr>) (tbl_columns t)"
    have "append_spec husk t e construct (t\<lparr>tbl_version := v, tbl_entities := ?ents, tbl_columns := cs,
       tbl_count := ?c + 1, tbl_size := ?sz, tbl_dirty_state := ds, tbl_bs_columns := map (\<lambda>bs. bs_grow bs 1) (tbl_bs_columns t)\<rparr>)"
      using grown_vec_append [OF R(4) R(2) room P(2,4), where construct = construct]
      by (intro append_specI [OF wf room S(1) _ _ ds]) (simp_all add: cs_def)
    moreover
    let ?r = "t\<lparr>tbl_version := v, tbl_entities := ?ents, tbl_columns := cs, tbl_count := ?c + 1, tbl_size := ?sz, tbl_dirty_state := ds\<rparr>"
    have "?r = ?r\<lparr>tbl_bs_columns := tbl_bs_columns ?r\<rparr>" by simp
    then have nob: "?r\<lparr>tbl_bs_columns := map (\<lambda>bs. bs_grow bs 1) (tbl_bs_columns t)\<rparr> = ?r" using P(1) by simp
    have "flecs_table_append w t ov e construct on_add = Inr (w1, ?r)"
      unfolding flecs_table_append_def app Let_def prod.case wr bindr_Inr using False
      by (simp add: lock md(1) [simplified] flecs_table_fast_append_def cs_def)
    then have "flecs_table_append w t ov e construct on_add = Inr (w1, ?r\<lparr>tbl_bs_columns := map (\<lambda>bs. bs_grow bs 1) (tbl_bs_columns t)\<rparr>)"
      by (simp only: nob)
    ultimately show ?thesis using md(2) by blast
  next
    case True
    let ?t3 = "?t2\<lparr>tbl_count := ?c + 1, tbl_size := ?sz\<rparr>"
    have shape3: "same_shape t (with_columns ?t3 cs)" if "length cs = length (tbl_columns t)" "\<forall>j < length (tbl_columns t). col_ti (cs ! j) = col_ti (tbl_columns t ! j)" for cs
      using that ds by (simp add: same_shape_def with_columns_def)
    have "\<exists>w' cs. for_each [0..<length (tbl_columns ?t3)] (append_column ov ?v ?c (tbl_size t) construct on_add) (w1, ?t3) = Inr (w', with_columns ?t3 cs) \<and>
      length cs = length (tbl_columns ?t3) \<and>
      (\<forall>i < length (tbl_columns ?t3). col_ti (cs ! i) = col_ti (tbl_columns ?t3 ! i) \<and>
         grown husk (col_ti (tbl_columns t ! i)) (col_data (tbl_columns t ! i)) ?c 1 ?sz construct (col_data (cs ! i))) \<and> quiet w1 w'"
    proof (rule columns_loop [where R = "\<lambda>_. quiet w1"])
      fix i w' and cs :: "'a ecs_column_t list"
      assume i: "i < length (tbl_columns ?t3)" and q: "quiet w1 w'" and len: "length cs = length (tbl_columns ?t3)"
        and csi: "cs ! i = tbl_columns ?t3 ! i" and tis: "\<forall>j < length (tbl_columns ?t3). col_ti (cs ! j) = col_ti (tbl_columns ?t3 ! j)"
      have i': "i < length (tbl_columns t)" using i by simp
      let ?ti = "col_ti (tbl_columns t ! i)" and ?d = "col_data (tbl_columns t ! i)"
      have "?c + 1 \<le> ?sz" "?sz = tbl_size t \<or> pow_size ?sz" using S by auto
      from grow_column_ok [OF table_staticD(1) [OF st i'] R(5) [OF i'] R(4) [OF i'] R(2) this, of ov i w' "Some (with_columns ?t3 cs)" construct]
      obtain array where g: "flecs_table_grow_column w' (Some (with_columns ?t3 cs)) ov i (vec_from_column ?d ?c (tbl_size t)) ?ti 1 ?sz construct =
          Inr (w', \<lparr>vec_array = array, vec_count = ?c + 1, vec_size = ?sz\<rparr>)" "grown husk ?ti ?d ?c 1 ?sz construct array"
        using ov by auto
      let ?t4 = "set_col_data (with_columns ?t3 cs) i array"
      have ents4: "tbl_entities ?t4 = ?ents" by (simp add: set_col_data_def with_columns_def)
      have sh: "same_shape t ?t4"
        using shape3 [of "cs[i := (cs ! i)\<lparr>col_data := array\<rparr>]"] len tis i csi by (simp add: set_col_data_with nth_list_update)
      obtain es where rd: "read_entities ?t4 ?c 1 = Inr es"
        unfolding read_entities_def ents4 using S(1) by (simp add: take_drop_one)
      obtain w3 where h3: "flecs_table_invoke_hook w' ?t4 EcsOnAdd i es ?c = Inr w3" "quiet w' w3" using hook_ok [OF st sh i'] by blast
      define w'' where "w'' = (if on_add \<and> h_on_add (ti_hooks ?ti) then w3 else w')"
      have hk: "(if on_add \<and> h_on_add (ti_hooks ?ti) then
              bindr (read_entities ?t4 ?c 1) (\<lambda>es. flecs_table_invoke_hook w' ?t4 EcsOnAdd i es ?c) else Inr w') = Inr w''" "quiet w' w''"
        unfolding rd bindr_Inr h3(1) w''_def using h3(2) by simp_all
      have "append_column ov ?v ?c (tbl_size t) construct on_add i (w', with_columns ?t3 cs) = Inr (w'', ?t4)"
      proof -
        have col: "tbl_columns (with_columns ?t3 cs) ! i = tbl_columns t ! i" using csi by (simp add: with_columns_def)
        have sel: "vec_size ?v = ?sz" "vec_count ?v = ?c + 1" "\<And>a k z. vec_array \<lparr>vec_array = a, vec_count = k, vec_size = z\<rparr> = a"
          "\<And>a k z. vec_count \<lparr>vec_array = a, vec_count = k, vec_size = z\<rparr> = k" "\<And>a k z. vec_size \<lparr>vec_array = a, vec_count = k, vec_size = z\<rparr> = z"
          by simp_all
        show ?thesis unfolding append_column_def Let_def prod.case col sel g(1) bindr_Inr hk(1) by simp
      qed
      then show "\<exists>w'' d. append_column ov ?v ?c (tbl_size t) construct on_add i (w', with_columns ?t3 cs) = Inr (w'', set_col_data (with_columns ?t3 cs) i d) \<and>
          grown husk ?ti ?d ?c 1 ?sz construct d \<and> quiet w1 w''"
        using g(2) quiet_trans [OF q hk(2)] by blast
    qed simp
    then obtain w2 cs where L: "for_each [0..<length (tbl_columns t)] (append_column ov ?v ?c (tbl_size t) construct on_add) (w1, ?t3) = Inr (w2, with_columns ?t3 cs)"
      "length cs = length (tbl_columns t)" "\<And>i. i < length cs \<Longrightarrow> col_ti (cs ! i) = col_ti (tbl_columns t ! i) \<and>
         grown husk (col_ti (cs ! i)) (col_data (tbl_columns t ! i)) ?c 1 ?sz construct (col_data (cs ! i))" "quiet w1 w2"
      by auto
    have bits: "append_bits 1 (with_columns ?t3 cs) = Inr (with_columns ?t3 cs\<lparr>tbl_bs_columns := map (\<lambda>bs. bs_grow bs 1) (tbl_bs_columns t)\<rparr>)"
      using append_bits_ok [of "with_columns ?t3 cs" 1] R(6,7) room by (simp add: with_columns_def)
    have "flecs_table_append w t ov e construct on_add = Inr (w2, t\<lparr>tbl_version := v, tbl_entities := ?ents, tbl_columns := cs,
       tbl_count := ?c + 1, tbl_size := ?sz, tbl_dirty_state := ds, tbl_bs_columns := map (\<lambda>bs. bs_grow bs 1) (tbl_bs_columns t)\<rparr>)"
      unfolding flecs_table_append_def app Let_def prod.case wr bindr_Inr using True L(1) bits
      by (simp add: lock md(1) [simplified] with_columns_def)
    with append_specI [OF wf room S(1) L(2,3) ds] quiet_trans [OF md(2) L(4)] show ?thesis by blast
  qed
qed

section \<open>Deleting\<close>

definition swap_remove :: "nat \<Rightarrow> 'x list \<Rightarrow> 'x list" where
  "swap_remove row xs = butlast (xs[row := last xs])"

lemma swap_remove_take:
  assumes "row < n" "n \<le> length xs"
  shows "swap_remove row (take n xs) = take (n - 1) (xs[row := xs ! (n - 1)])"
proof -
  have "take n xs \<noteq> []" using assms by auto
  then have last: "last (take n xs) = xs ! (n - 1)" using assms by (simp add: last_conv_nth min_def)
  have "butlast ((take n xs)[row := xs ! (n - 1)]) = take (n - 1) ((take n xs)[row := xs ! (n - 1)])"
    using assms by (simp add: butlast_conv_take min_def)
  also have "\<dots> = take (n - 1) (xs[row := xs ! (n - 1)])" by (simp add: take_update_swap)
  finally show ?thesis by (simp add: swap_remove_def last)
qed

lemma swap_remove_map: "xs \<noteq> [] \<Longrightarrow> swap_remove row (map f xs) = map f (swap_remove row xs)"
  by (simp add: swap_remove_def map_butlast map_update last_map)

lemma length_swap_remove [simp]: "length (swap_remove row xs) = length xs - 1"
  by (simp add: swap_remove_def)

lemma nth_swap_remove:
  assumes "row < length xs" "i < length xs - 1"
  shows "swap_remove row xs ! i = (if i = row then last xs else xs ! i)"
  using assms by (simp add: swap_remove_def nth_butlast nth_list_update)

lemma set_swap_remove:
  assumes "row < length xs"
  shows "set (swap_remove row xs) \<subseteq> set xs"
proof
  fix x assume "x \<in> set (swap_remove row xs)"
  then obtain i where i: "i < length xs - 1" "x = swap_remove row xs ! i" by (auto simp: in_set_conv_nth)
  have "xs \<noteq> []" using assms by auto
  then have "last xs \<in> set xs" by (rule last_in_set)
  then show "x \<in> set xs" using i nth_swap_remove [OF assms i(1)] by (cases "i = row") simp_all
qed

definition delete_spec :: "('v \<Rightarrow> bool) \<Rightarrow> 'v ecs_table_t \<Rightarrow> nat \<Rightarrow> 'v ecs_table_t \<Rightarrow> bool" where
  "delete_spec husk t row t' \<longleftrightarrow> same_shape t t' \<and> tbl_count t' = tbl_count t - 1 \<and> entity_list t' = swap_remove row (entity_list t) \<and>
     table_wf husk (tbl_count t') t' \<and>
     (\<forall>i < length (tbl_columns t). column_cells t' i = swap_remove row (column_cells t i)) \<and>
     (\<forall>i < length (tbl_bs_columns t). toggle_bits t' i = swap_remove row (toggle_bits t i))"

text \<open>The data of a column without the deleted row.\<close>

definition closed :: "nat \<Rightarrow> nat \<Rightarrow> 'c list \<Rightarrow> 'c list \<Rightarrow> bool" where
  "closed row cnt data d \<longleftrightarrow> length d = length data \<and> take (cnt - 1) d = take (cnt - 1) (data[row := data ! (cnt - 1)])"

lemma delete_specI:
  fixes v :: "16 word"
  assumes st: "table_static husk t" and rows: "table_rows husk n t" and row: "row < tbl_count t"
    and n: "n = tbl_count t \<or> row = tbl_count t - 1 \<and> n = tbl_count t - 1"
    and cs: "length cs = length (tbl_columns t)"
      "\<And>i. i < length cs \<Longrightarrow> col_ti (cs ! i) = col_ti (tbl_columns t ! i) \<and> closed row (tbl_count t) (col_data (tbl_columns t ! i)) (col_data (cs ! i))"
    and ds: "map_option length ds = map_option length (tbl_dirty_state t)"
    and bss: "length bss = length (tbl_bs_columns t)"
      "\<And>i. i < length bss \<Longrightarrow> bs_wf (bss ! i) \<and> bs_bits (bss ! i) = swap_remove row (bs_bits (tbl_bs_columns t ! i))"
  shows "delete_spec husk t row (t\<lparr>tbl_version := v, tbl_entities := (tbl_entities t)[row := tbl_entities t ! (tbl_count t - 1)], tbl_columns := cs,
     tbl_count := tbl_count t - 1, tbl_dirty_state := ds, tbl_bs_columns := bss\<rparr>)" (is "delete_spec _ _ _ ?t'")
proof -
  note R = table_rowsD [OF rows]
  have shape: "same_shape t ?t'" using cs ds bss(1) by (simp add: same_shape_def)
  have ents: "take (tbl_count t - 1) ((tbl_entities t)[row := tbl_entities t ! (tbl_count t - 1)]) = swap_remove row (take (tbl_count t) (tbl_entities t))"
    using swap_remove_take [OF row, of "tbl_entities t"] R(1,2) by simp
  have el: "entity_list ?t' = swap_remove row (entity_list t)"
  proof -
    have "take (tbl_count t) (tbl_entities t) \<noteq> []" using row R(1,2) by auto
    from swap_remove_map [OF this, of row the] show ?thesis by (simp add: entity_list_def ents [simplified])
  qed
  have "set (swap_remove row (take (tbl_count t) (tbl_entities t))) \<subseteq> set (take (tbl_count t) (tbl_entities t))"
    using row R(1,2) by (intro set_swap_remove) simp
  then have "None \<notin> set (take (tbl_count ?t') (tbl_entities ?t'))" using ents R(3) by auto
  moreover have cells: "column_cells ?t' i = swap_remove row (column_cells t i)" if "i < length (tbl_columns t)" for i
    unfolding column_cells_def
    using cs(1) cs(2) [of i] that swap_remove_take [OF row, of "col_data (tbl_columns t ! i)"] R(2) R(4) [OF that] by (simp add: closed_def)
  moreover have "length (col_data (cs ! i)) = tbl_size t \<and> (\<forall>k < tbl_count t - 1. live husk (col_ti (cs ! i)) (col_data (cs ! i) ! k))"
    if i: "i < length cs" for i
  proof -
    have i': "i < length (tbl_columns t)" using i cs(1) by simp
    have C: "closed row (tbl_count t) (col_data (tbl_columns t ! i)) (col_data (cs ! i))" "col_ti (cs ! i) = col_ti (tbl_columns t ! i)"
      using cs(2) [OF i] by simp_all
    have "live husk (col_ti (cs ! i)) (col_data (cs ! i) ! k)" if k: "k < tbl_count t - 1" for k
    proof -
      have "col_data (cs ! i) ! k = (col_data (tbl_columns t ! i))[row := col_data (tbl_columns t ! i) ! (tbl_count t - 1)] ! k"
        using C(1) k unfolding closed_def by (metis nth_take)
      also have "\<dots> = col_data (tbl_columns t ! i) ! (if k = row then tbl_count t - 1 else k)"
        using R(2) R(4) [OF i'] k by simp
      finally show ?thesis using R(5) [OF i', of "if k = row then tbl_count t - 1 else k"] n k row C(2) by (auto split: if_splits)
    qed
    then show ?thesis using C(1) R(4) [OF i'] by (simp add: closed_def)
  qed
  moreover have "bs_wf (bss ! i) \<and> bs_count (bss ! i) = tbl_count t - 1" if "i < length bss" for i
  proof -
    have "bs_count (bss ! i) = bs_count (tbl_bs_columns t ! i) - 1" using bss(2) [OF that] by (metis bs_bits_nth(1) length_swap_remove)
    then show ?thesis using bss that R(7) [of i] by simp
  qed
  moreover have "tbl_count t - 1 \<le> tbl_size t" using R(2) by simp
  ultimately have "table_rows husk (tbl_count ?t') ?t'"
    using R(1) unfolding table_rows_def by (auto simp: in_set_conv_nth)
  then have "table_wf husk (tbl_count ?t') ?t'" using same_shape_static [OF shape st] by (simp add: table_wf_def)
  moreover have "\<forall>i < length (tbl_bs_columns t). toggle_bits ?t' i = swap_remove row (toggle_bits t i)"
    using bss by (simp add: toggle_bits_def)
  ultimately show ?thesis unfolding delete_spec_def using shape el cells by simp
qed

text \<open>The values that the table gives up with a row.\<close>

definition row_values :: "('v \<Rightarrow> bool) \<Rightarrow> 'v ecs_table_t \<Rightarrow> nat \<Rightarrow> 'v list" where
  "row_values husk t row = concat (map (\<lambda>i. rel husk (col_ti (tbl_columns t ! i)) (col_data (tbl_columns t ! i) ! row)) [0..<length (tbl_columns t)])"

definition released_upto :: "('v \<Rightarrow> bool) \<Rightarrow> 'v ecs_table_t \<Rightarrow> nat \<Rightarrow> 'v ecs_world_t \<Rightarrow> nat \<Rightarrow> 'v ecs_world_t \<Rightarrow> bool" where
  "released_upto husk t row w i w' \<longleftrightarrow> w_index w' = w_index w \<and> w_tables w' = w_tables w \<and>
     w_released w' = w_released w @ concat (map (\<lambda>i. rel husk (col_ti (tbl_columns t ! i)) (col_data (tbl_columns t ! i) ! row)) [0..<i])"

lemma released_upto_quiet: "released_upto husk t row w i w' \<Longrightarrow> quiet w' w'' \<Longrightarrow> released_upto husk t row w i w''"
  by (simp add: released_upto_def quiet_def)

lemma released_upto_Suc:
  "released_upto husk t row w i w' \<Longrightarrow> l = rel husk (col_ti (tbl_columns t ! i)) (col_data (tbl_columns t ! i) ! row) \<Longrightarrow>
   released_upto husk t row w (Suc i) (release w' l)"
  by (simp add: released_upto_def release_def)

text \<open>Tables without managed types.\<close>

lemma fast_delete_ok:
  assumes st: "table_static husk t" and len: "\<And>i. i < length (tbl_columns t) \<Longrightarrow> length (col_data (tbl_columns t ! i)) = sz"
    and row: "row < tbl_count t" "tbl_count t \<le> sz"
    and plain: "\<And>i. i < length (tbl_columns t) \<Longrightarrow> \<not> managed husk (col_ti (tbl_columns t ! i))"
  shows "\<exists>w' cs. flecs_table_fast_delete w t row = Inr (w', with_columns t cs) \<and> length cs = length (tbl_columns t) \<and>
    (\<forall>i < length (tbl_columns t). col_ti (cs ! i) = col_ti (tbl_columns t ! i) \<and> closed row (tbl_count t) (col_data (tbl_columns t ! i)) (col_data (cs ! i))) \<and>
    released_upto husk t row w (length (tbl_columns t)) w'"
  unfolding flecs_table_fast_delete_def
proof (rule columns_loop)
  fix i w' and cs :: "'a ecs_column_t list"
  assume i: "i < length (tbl_columns t)" and r: "released_upto husk t row w i w'" and csi: "cs ! i = tbl_columns t ! i"
  let ?d = "col_data (tbl_columns t ! i)" and ?n = "tbl_count t - 1"
  have "cell_move copy_elem w' ?d row ?n = Inr (w', ?d[?n := ?d ! ?n, row := ?d ! ?n])"
    using len [OF i] row by (simp add: cell_move_def copy_elem_def)
  moreover have "closed row (tbl_count t) ?d (?d[?n := ?d ! ?n, row := ?d ! ?n])" by (simp add: closed_def)
  moreover have "released_upto husk t row w (Suc i) w'"
    using released_upto_Suc [OF r, of "[]"] plain [OF i] by (simp add: rel_def)
  ultimately show "\<exists>w'' d. (\<lambda>(w, ta). bindr (cell_move copy_elem w (col_data (tbl_columns ta ! i)) row (tbl_count ta - 1)) (\<lambda>(w, data).
       Inr (w, set_col_data ta i data))) (w', with_columns t cs) = Inr (w'', set_col_data (with_columns t cs) i d) \<and>
      closed row (tbl_count t) ?d d \<and> released_upto husk t row w (Suc i) w''"
    using csi by (simp add: with_columns_def del: One_nat_def) blast
qed (simp add: released_upto_def)

lemma managed_move_ctor: "type_ok husk ti \<Longrightarrow> \<not> (h_move_ctor (ti_hooks ti) = None \<and> h_ctor_move_dtor (ti_hooks ti) \<noteq> None)"
  by (auto simp: type_ok_def managed_def plain_def)

text \<open>The last row moves into the hole, with the hooks of the types.\<close>

lemma delete_columns_ok:
  assumes st: "table_static husk t" and rows: "table_rows husk (tbl_count t) t0" and cols: "tbl_columns t0 = tbl_columns t" "tbl_count t0 = tbl_count t"
    and row: "row < tbl_count t - 1"
  shows "\<exists>w' cs. for_each [0..<length (tbl_columns t)] (delete_column destruct e row (tbl_count t - 1)) (w, t) = Inr (w', with_columns t cs) \<and>
    length cs = length (tbl_columns t) \<and>
    (\<forall>i < length (tbl_columns t). col_ti (cs ! i) = col_ti (tbl_columns t ! i) \<and> closed row (tbl_count t) (col_data (tbl_columns t ! i)) (col_data (cs ! i))) \<and>
    released_upto husk t row w (length (tbl_columns t)) w'"
proof (rule columns_loop)
  note R = table_rowsD [OF rows, unfolded cols]
  fix i w' and cs :: "'a ecs_column_t list"
  assume i: "i < length (tbl_columns t)" and r: "released_upto husk t row w i w'" and len: "length cs = length (tbl_columns t)"
    and csi: "cs ! i = tbl_columns t ! i" and tis: "\<forall>j < length (tbl_columns t). col_ti (cs ! j) = col_ti (tbl_columns t ! j)"
  let ?d = "col_data (tbl_columns t ! i)" and ?n = "tbl_count t - 1" and ?ti = "col_ti (tbl_columns t ! i)"
  let ?t = "with_columns t cs"
  note ok = table_staticD(1) [OF st i]
  have sh: "same_shape t ?t" using len tis by (simp add: same_shape_def with_columns_def)
  obtain w1 where h1: "flecs_table_invoke_hook w' ?t EcsOnRemove i [e] row = Inr w1" "quiet w' w1" using hook_ok [OF st sh i] by blast
  define w2 where "w2 = (if destruct \<and> h_on_remove (ti_hooks ?ti) then w1 else w')"
  have hk: "(if destruct \<and> h_on_remove (ti_hooks ?ti) then flecs_table_invoke_hook w' ?t EcsOnRemove i [e] row else Inr w') = Inr w2" "quiet w' w2"
    unfolding h1(1) w2_def using h1(2) by simp_all
  obtain s where s: "flecs_type_info_move_dtor ?ti (?d ! row) (?d ! ?n) = Inr ((?d ! ?n, s), rel husk ?ti (?d ! row))"
    using type_move_dtor [OF ok R(5) [OF i] R(5) [OF i]] row by force
  have mv: "cell_move (flecs_type_info_move_dtor ?ti) w2 ?d row ?n = Inr (release w2 (rel husk ?ti (?d ! row)), ?d[?n := s, row := ?d ! ?n])"
  proof -
    have "row < length ?d" "?n < length ?d" using R(2) R(4) [OF i] row by linarith+
    then show ?thesis unfolding cell_move_def using s by simp
  qed
  have col: "tbl_columns ?t ! i = tbl_columns t ! i" using csi by (simp add: with_columns_def)
  have "delete_column destruct e row ?n i (w', ?t) = Inr (release w2 (rel husk ?ti (?d ! row)), set_col_data ?t i (?d[?n := s, row := ?d ! ?n]))"
    unfolding delete_column_def Let_def prod.case col hk(1) bindr_Inr if_not_P [OF managed_move_ctor [OF ok]] mv by simp
  moreover have "closed row (tbl_count t) ?d (?d[?n := s, row := ?d ! ?n])"
    unfolding closed_def by (simp add: take_update_swap list_update_beyond)
  moreover have "released_upto husk t row w (Suc i) (release w2 (rel husk ?ti (?d ! row)))"
    by (rule released_upto_Suc [OF released_upto_quiet [OF r hk(2)] refl])
  ultimately show "\<exists>w'' d. delete_column destruct e row ?n i (w', ?t) = Inr (w'', set_col_data ?t i d) \<and>
      closed row (tbl_count t) ?d d \<and> released_upto husk t row w (Suc i) w''" by blast
qed (simp add: released_upto_def)

text \<open>The last row itself is destroyed.\<close>

lemma remove_hooks_ok:
  assumes st: "table_static husk t" and sh: "same_shape t t'" and i: "i < length (tbl_columns t)"
    and row: "row < length (col_data (tbl_columns t' ! i))" and lv: "dtor \<Longrightarrow> live husk (col_ti (tbl_columns t ! i)) (col_data (tbl_columns t' ! i) ! row)"
  shows "\<exists>w1 c. flecs_table_invoke_remove_hooks w t' i es row 1 dtor =
      Inr (release w1 (if dtor then rel husk (col_ti (tbl_columns t ! i)) (col_data (tbl_columns t' ! i) ! row) else []),
           set_col_data t' i ((col_data (tbl_columns t' ! i))[row := c])) \<and> quiet w w1 \<and>
      (if dtor then rel husk (col_ti (tbl_columns t ! i)) c = [] else c = col_data (tbl_columns t' ! i) ! row)"
proof -
  let ?d = "col_data (tbl_columns t' ! i)" and ?ti = "col_ti (tbl_columns t ! i)"
  have ti: "col_ti (tbl_columns t' ! i) = ?ti" using sh i by (simp add: same_shape_def)
  obtain w1 where h1: "flecs_table_invoke_hook w t' EcsOnRemove i es row = Inr w1" "quiet w w1" using hook_ok [OF st sh i] by blast
  define w2 where "w2 = (if h_on_remove (ti_hooks ?ti) then w1 else w)"
  have hk: "(if h_on_remove (ti_hooks ?ti) then flecs_table_invoke_hook w t' EcsOnRemove i es row else Inr w) = Inr w2" "quiet w w2"
    unfolding h1(1) w2_def using h1(2) by simp_all
  have ne: "?d \<noteq> []" using row by auto
  show ?thesis
  proof (cases dtor)
    case True
    obtain c where c: "flecs_type_info_dtor ?ti (?d ! row) = Inr (c, rel husk ?ti (?d ! row))" "rel husk ?ti c = []"
      using type_dtor [OF table_staticD(1) [OF st i] lv [OF True]] by blast
    have "flecs_table_invoke_dtor w2 t' i row 1 = Inr (release w2 (rel husk ?ti (?d ! row)), set_col_data t' i (?d[row := c]))"
      unfolding flecs_table_invoke_dtor_def Let_def ti range_xtor_one [where f = "flecs_type_info_dtor (col_ti (tbl_columns t ! i))", OF row c(1)] using ne by simp
    then show ?thesis
      unfolding flecs_table_invoke_remove_hooks_def Let_def ti hk(1) bindr_Inr
      using True ne hk(2) c(2) by (intro exI [of _ w2] exI [of _ c]) simp
  next
    case False
    have "t' = set_col_data t' i (?d[row := ?d ! row])" by (simp add: set_col_data_def)
    then show ?thesis
      unfolding flecs_table_invoke_remove_hooks_def Let_def ti hk(1) bindr_Inr
      using False ne hk(2) by (intro exI [of _ w2] exI [of _ "?d ! row"]) simp
  qed
qed

lemma last_row_loop_ok:
  assumes st: "table_static husk t" and rows: "table_rows husk (tbl_count t) t0" and cols: "tbl_columns t0 = tbl_columns t" "tbl_count t0 = tbl_count t"
    and row: "row = tbl_count t - 1" "0 < tbl_count t"
  shows "\<exists>w' cs. for_each [0..<length (tbl_columns t)] (\<lambda>i (w, t). flecs_table_invoke_remove_hooks w t i es row 1 True) (w, t) = Inr (w', with_columns t cs) \<and>
    length cs = length (tbl_columns t) \<and>
    (\<forall>i < length (tbl_columns t). col_ti (cs ! i) = col_ti (tbl_columns t ! i) \<and> closed row (tbl_count t) (col_data (tbl_columns t ! i)) (col_data (cs ! i))) \<and>
    released_upto husk t row w (length (tbl_columns t)) w'"
proof (rule columns_loop)
  note R = table_rowsD [OF rows, unfolded cols]
  fix i w' and cs :: "'a ecs_column_t list"
  assume i: "i < length (tbl_columns t)" and r: "released_upto husk t row w i w'" and len: "length cs = length (tbl_columns t)"
    and csi: "cs ! i = tbl_columns t ! i" and tis: "\<forall>j < length (tbl_columns t). col_ti (cs ! j) = col_ti (tbl_columns t ! j)"
  let ?d = "col_data (tbl_columns t ! i)" and ?t = "with_columns t cs"
  have sh: "same_shape t ?t" using len tis by (simp add: same_shape_def with_columns_def)
  have col: "tbl_columns ?t ! i = tbl_columns t ! i" using csi by (simp add: with_columns_def)
  have "row < length ?d" "live husk (col_ti (tbl_columns t ! i)) (?d ! row)" using R(2) R(4) [OF i] R(5) [OF i, of row] row by linarith+
  from remove_hooks_ok [OF st sh i, unfolded col, OF this, where w = w' and dtor = True and es = es] obtain w1 c where
    c: "flecs_table_invoke_remove_hooks w' ?t i es row 1 True = Inr (release w1 (rel husk (col_ti (tbl_columns t ! i)) (?d ! row)), set_col_data ?t i (?d[row := c]))"
    "quiet w' w1" by auto
  moreover have "closed row (tbl_count t) ?d (?d[row := c])" unfolding closed_def using row by (simp add: take_update_swap list_update_beyond)
  moreover have "released_upto husk t row w (Suc i) (release w1 (rel husk (col_ti (tbl_columns t ! i)) (?d ! row)))"
    by (rule released_upto_Suc [OF released_upto_quiet [OF r c(2)] refl])
  ultimately show "\<exists>w'' d. (\<lambda>(w, t). flecs_table_invoke_remove_hooks w t i es row 1 True) (w', ?t) = Inr (w'', set_col_data ?t i d) \<and>
      closed row (tbl_count t) ?d d \<and> released_upto husk t row w (Suc i) w''" by auto
qed (simp add: released_upto_def)

lemma no_dtors_no_managed:
  assumes "table_static husk t" "\<not> has_flag (tbl_flags t) EcsTableHasDtors" "i < length (tbl_columns t)"
  shows "\<not> managed husk (col_ti (tbl_columns t ! i))"
  using table_staticD(2) [OF assms(1,3), of EcsTableHasDtors] assms(2) by (auto simp: type_info_flags_has managed_def)

lemma released_nothing:
  assumes "\<And>i. i < length (tbl_columns t) \<Longrightarrow> rel husk (col_ti (tbl_columns t ! i)) (col_data (tbl_columns t ! i) ! row) = []"
  shows "row_values husk t row = []" "released_upto husk t row w (length (tbl_columns t)) w"
  using assms by (simp_all add: row_values_def released_upto_def)

text \<open>What happens to the columns on each path of \<open>flecs_table_delete\<close>.\<close>

lemma delete_paths_ok:
  assumes st: "table_static husk t" and rows: "table_rows husk n t0" and cols: "tbl_columns t0 = tbl_columns t" "tbl_count t0 = tbl_count t"
    and row: "row < tbl_count t" and n: "n = (if row = tbl_count t - 1 \<and> \<not> destruct then tbl_count t - 1 else tbl_count t)"
  defines "cnt \<equiv> tbl_count t - 1"
  shows "\<exists>w' cs. (if row = cnt then
                (if destruct \<and> has_flag (tbl_flags t) EcsTableHasDtors then
                   for_each [0..<length (tbl_columns t)] (\<lambda>i (w, t).
                     flecs_table_invoke_remove_hooks w t i [e] row 1 True) (w, t)
                 else Inr (w, t))
              else if has_flag (tbl_flags t) (EcsTableHasDtors OR EcsTableHasMove) then
                for_each [0..<length (tbl_columns t)] (delete_column destruct e row cnt) (w, t)
              else flecs_table_fast_delete w t row) = Inr (w', with_columns t cs) \<and> length cs = length (tbl_columns t) \<and>
    (\<forall>i < length (tbl_columns t). col_ti (cs ! i) = col_ti (tbl_columns t ! i) \<and> closed row (tbl_count t) (col_data (tbl_columns t ! i)) (col_data (cs ! i))) \<and>
    w_index w' = w_index w \<and> w_tables w' = w_tables w \<and>
    w_released w' = w_released w @ (if row = cnt \<and> \<not> destruct then [] else row_values husk t row)"
    (is "\<exists>w' cs. ?run = _ \<and> _")
proof -
  note R = table_rowsD [OF rows, unfolded cols]
  have rv: "released_upto husk t row w (length (tbl_columns t)) w' \<Longrightarrow>
    w_index w' = w_index w \<and> w_tables w' = w_tables w \<and> w_released w' = w_released w @ row_values husk t row" for w'
    by (simp add: released_upto_def row_values_def)
  have same: "closed row (tbl_count t) d d" if "row = cnt" for d :: "'a cell list"
    using that by (simp add: closed_def cnt_def)
  have wc: "t = with_columns t (tbl_columns t)" by (simp add: with_columns_def)
  consider (destroy) "row = cnt" "destruct" "has_flag (tbl_flags t) EcsTableHasDtors" | (keep) "row = cnt" "\<not> (destruct \<and> has_flag (tbl_flags t) EcsTableHasDtors)"
    | (move) "row \<noteq> cnt" "has_flag (tbl_flags t) (EcsTableHasDtors OR EcsTableHasMove)"
    | (fast) "row \<noteq> cnt" "\<not> has_flag (tbl_flags t) (EcsTableHasDtors OR EcsTableHasMove)" by blast
  then show ?thesis
  proof cases
    case destroy
    then have rows': "table_rows husk (tbl_count t) t0" using rows n by simp
    have "0 < tbl_count t" using row by simp
    from last_row_loop_ok [OF st rows' cols destroy(1) [unfolded cnt_def] this, of "[e]" w] obtain w' cs where
      L: "for_each [0..<length (tbl_columns t)] (\<lambda>i (w, t). flecs_table_invoke_remove_hooks w t i [e] row 1 True) (w, t) = Inr (w', with_columns t cs)"
      "length cs = length (tbl_columns t)"
      "\<forall>i < length (tbl_columns t). col_ti (cs ! i) = col_ti (tbl_columns t ! i) \<and> closed row (tbl_count t) (col_data (tbl_columns t ! i)) (col_data (cs ! i))"
      "released_upto husk t row w (length (tbl_columns t)) w'" by blast
    with rv [OF L(4)] destroy show ?thesis by (intro exI [of _ w'] exI [of _ cs]) simp
  next
    case keep
    have "row_values husk t row = []" if destruct
    proof (rule released_nothing(1))
      show "rel husk (col_ti (tbl_columns t ! i)) (col_data (tbl_columns t ! i) ! row) = []" if "i < length (tbl_columns t)" for i
        using no_dtors_no_managed [OF st _ that] keep \<open>destruct\<close> by (simp add: rel_def)
    qed
    then show ?thesis using keep wc same by (intro exI [of _ w] exI [of _ "tbl_columns t"]) auto
  next
    case move
    then have rows': "table_rows husk (tbl_count t) t0" and "row < tbl_count t - 1" using rows n row by (simp_all add: cnt_def)
    from delete_columns_ok [OF st rows' cols this(2), of destruct e w] obtain w' cs where
      L: "for_each [0..<length (tbl_columns t)] (delete_column destruct e row cnt) (w, t) = Inr (w', with_columns t cs)"
      "length cs = length (tbl_columns t)"
      "\<forall>i < length (tbl_columns t). col_ti (cs ! i) = col_ti (tbl_columns t ! i) \<and> closed row (tbl_count t) (col_data (tbl_columns t ! i)) (col_data (cs ! i))"
      "released_upto husk t row w (length (tbl_columns t)) w'" unfolding cnt_def by blast
    with rv [OF L(4)] move show ?thesis by (intro exI [of _ w'] exI [of _ cs]) simp
  next
    case fast
    then have "\<not> has_flag (tbl_flags t) EcsTableHasDtors" by (simp add: has_flag_or)
    from fast_delete_ok [OF st R(4) row R(2) no_dtors_no_managed [OF st this], of w]
    obtain w' cs where L: "flecs_table_fast_delete w t row = Inr (w', with_columns t cs)" "length cs = length (tbl_columns t)"
      "\<forall>i < length (tbl_columns t). col_ti (cs ! i) = col_ti (tbl_columns t ! i) \<and> closed row (tbl_count t) (col_data (tbl_columns t ! i)) (col_data (cs ! i))"
      "released_upto husk t row w (length (tbl_columns t)) w'" by blast
    with rv [OF L(4)] fast show ?thesis by (intro exI [of _ w'] exI [of _ cs]) simp
  qed
qed

lemma read_entity_ok:
  assumes "table_rows husk n t" "row < tbl_count t"
  shows "read_entity t row = Inr (entity_list t ! row)" "tbl_entities t ! row = Some (entity_list t ! row)"
proof -
  note R = table_rowsD [OF assms(1)]
  have "row < length (tbl_entities t)" using R(1,2) assms(2) by linarith
  moreover have "tbl_entities t ! row \<noteq> None"
    using R(1-3) assms(2) by (metis in_set_conv_nth length_take min_def nth_take order_less_le_trans)
  then obtain e where e: "tbl_entities t ! row = Some e" by blast
  ultimately have el: "entity_list t ! row = e" using R(2) assms(2) by (simp add: entity_list_def)
  show "tbl_entities t ! row = Some (entity_list t ! row)" using e el by simp
  then show "read_entity t row = Inr (entity_list t ! row)"
    using \<open>row < length (tbl_entities t)\<close> by (simp add: read_entity_def vec_read_def vec_from_entities_def)
qed

lemma length_entity_list [simp]: "table_rows husk n t \<Longrightarrow> length (entity_list t) = tbl_count t"
  using table_rowsD(1,2) [of husk n t] by (simp add: entity_list_def)

lemma bitsets_remove_ok:
  assumes "\<And>i. i < length (tbl_bs_columns t) \<Longrightarrow> bs_wf (tbl_bs_columns t ! i) \<and> row < bs_count (tbl_bs_columns t ! i)"
  shows "\<exists>bss. for_each [0..<length (tbl_bs_columns t)] (\<lambda>i t. bindr (flecs_bitset_remove (tbl_bs_columns t ! i) row) (\<lambda>bs.
      Inr (t\<lparr>tbl_bs_columns := (tbl_bs_columns t)[i := bs]\<rparr>))) t = Inr (t\<lparr>tbl_bs_columns := bss\<rparr>) \<and>
    length bss = length (tbl_bs_columns t) \<and>
    (\<forall>i < length bss. bs_wf (bss ! i) \<and> bs_bits (bss ! i) = swap_remove row (bs_bits (tbl_bs_columns t ! i)))"
proof (rule bitsets_loop [where f = "\<lambda>bs. flecs_bitset_remove bs row" and Q = "\<lambda>i bs. bs_wf bs \<and> bs_bits bs = swap_remove row (bs_bits (tbl_bs_columns t ! i))"])
  fix i assume "i < length (tbl_bs_columns t)"
  from assms [OF this] have "bs_wf (tbl_bs_columns t ! i)" "row < bs_count (tbl_bs_columns t ! i)" by simp_all
  from bitset_remove_swap [OF this this(2)]
  show "\<exists>bs. flecs_bitset_remove (tbl_bs_columns t ! i) row = Inr bs \<and> bs_wf bs \<and> bs_bits bs = swap_remove row (bs_bits (tbl_bs_columns t ! i))"
    unfolding swap_remove_def by blast
qed

lemma table_delete_ok:
  assumes st: "table_static husk t" and rows: "table_rows husk n t" and lock: "tbl_lock t = 0" and row: "row < tbl_count t"
    and n: "n = (if row = tbl_count t - 1 \<and> \<not> destruct then tbl_count t - 1 else tbl_count t)"
    and rec: "if row = tbl_count t - 1 then index' = w_index w
      else update_moved_record self (w_index w) (entity_list t ! (tbl_count t - 1)) row = Inr index'"
  shows "\<exists>w' t'. flecs_table_delete self w t row destruct = Inr (w', t') \<and> delete_spec husk t row t' \<and>
    w_index w' = index' \<and> w_tables w' = w_tables w \<and>
    w_released w' = w_released w @ (if row = tbl_count t - 1 \<and> \<not> destruct then [] else row_values husk t row)"
proof -
  note R = table_rowsD [OF rows]
  let ?cnt = "tbl_count t - 1"
  have cnt: "?cnt < tbl_count t" "row \<le> ?cnt" using row by auto
  let ?move = "entity_list t ! ?cnt" and ?del = "entity_list t ! row"
  let ?ents = "(tbl_entities t)[row := Some ?move]"
  have ents: "?ents = (tbl_entities t)[row := tbl_entities t ! ?cnt]" using read_entity_ok(2) [OF rows cnt(1)] by simp
  let ?t1 = "t\<lparr>tbl_entities := ?ents\<rparr>"
  have st1: "table_static husk ?t1" by (rule same_shape_static [OF _ st]) (simp add: same_shape_def)
  let ?w1 = "w\<lparr>w_index := index'\<rparr>"
  obtain w2 ds v where md: "flecs_table_mark_table_dirty ?w1 ?t1 0 = Inr (w2, ?t1\<lparr>tbl_dirty_state := ds, tbl_version := v\<rparr>)" "quiet ?w1 w2"
    and ds: "map_option length ds = map_option length (tbl_dirty_state t)"
    using mark_dirty_ok [OF st1, of 0 ?w1] by auto
  let ?t2 = "?t1\<lparr>tbl_dirty_state := ds, tbl_version := v\<rparr>"
  have st2: "table_static husk ?t2" by (rule same_shape_static [OF _ st]) (simp add: same_shape_def ds)
  have upd: "(if row \<noteq> ?cnt then update_moved_record self (w_index w) ?move row else Inr (w_index w)) = Inr index'"
    using rec by (cases "row = tbl_count t - 1") (simp_all del: One_nat_def)
  have pre: "flecs_table_delete self w t row destruct =
     (if \<not> has_flag (tbl_flags ?t2) EcsTableIsComplex then
       bindr (if row \<noteq> ?cnt then flecs_table_fast_delete w2 ?t2 row else Inr (w2, ?t2)) (\<lambda>(w, t).
       Inr (w, t\<lparr>tbl_count := tbl_count t - 1\<rparr>))
     else
       bindr (if row = ?cnt then
                (if destruct \<and> has_flag (tbl_flags ?t2) EcsTableHasDtors then
                   for_each [0..<length (tbl_columns ?t2)] (\<lambda>i (w, t).
                     flecs_table_invoke_remove_hooks w t i [?del] row 1 True) (w2, ?t2)
                 else Inr (w2, ?t2))
              else if has_flag (tbl_flags ?t2) (EcsTableHasDtors OR EcsTableHasMove) then
                for_each [0..<length (tbl_columns ?t2)] (delete_column destruct ?del row ?cnt) (w2, ?t2)
              else flecs_table_fast_delete w2 ?t2 row) (\<lambda>(w, t).
       bindr (for_each [0..<length (tbl_bs_columns t)] (\<lambda>i t.
                bindr (flecs_bitset_remove (tbl_bs_columns t ! i) row) (\<lambda>bs.
                Inr (t\<lparr>tbl_bs_columns := (tbl_bs_columns t)[i := bs]\<rparr>))) t) (\<lambda>t.
       Inr (w, t\<lparr>tbl_count := tbl_count t - 1\<rparr>))))"
  proof -
    have a: "ecs_assert (tbl_lock t = 0) E = Inr ()" "ecs_assert (tbl_count t > 0) E = Inr ()" "ecs_assert (row \<le> ?cnt) E = Inr ()" for E
      using lock row cnt by simp_all
    show ?thesis
      unfolding flecs_table_delete_def Let_def ecs_table_count_def a bindr_Inr read_entity_ok(1) [OF rows cnt(1)] read_entity_ok(1) [OF rows row]
        upd md(1) prod.case by (rule refl)
  qed
  have result: "\<exists>w' t'. flecs_table_delete self w t row destruct = Inr (w', t') \<and> delete_spec husk t row t' \<and>
      w_index w' = index' \<and> w_tables w' = w_tables w \<and>
      w_released w' = w_released w @ (if row = ?cnt \<and> \<not> destruct then [] else row_values husk t row)"
    if run: "flecs_table_delete self w t row destruct = Inr (w3, (with_columns ?t2 cs)\<lparr>tbl_bs_columns := bss, tbl_count := ?cnt\<rparr>)"
      and cs: "length cs = length (tbl_columns t)"
        "\<forall>i < length (tbl_columns t). col_ti (cs ! i) = col_ti (tbl_columns t ! i) \<and> closed row (tbl_count t) (col_data (tbl_columns t ! i)) (col_data (cs ! i))"
      and w3: "w_index w3 = w_index w2" "w_tables w3 = w_tables w2"
        "w_released w3 = w_released w2 @ (if row = ?cnt \<and> \<not> destruct then [] else row_values husk t row)"
      and bss: "length bss = length (tbl_bs_columns t)"
        "\<forall>i < length bss. bs_wf (bss ! i) \<and> bs_bits (bss ! i) = swap_remove row (bs_bits (tbl_bs_columns t ! i))" for w3 cs bss
  proof -
    have "delete_spec husk t row (t\<lparr>tbl_version := v, tbl_entities := (tbl_entities t)[row := tbl_entities t ! (tbl_count t - 1)], tbl_columns := cs,
       tbl_count := tbl_count t - 1, tbl_dirty_state := ds, tbl_bs_columns := bss\<rparr>)"
      using n cs bss by (intro delete_specI [OF st rows row _ _ _ ds]) auto
    moreover have "(with_columns ?t2 cs)\<lparr>tbl_bs_columns := bss, tbl_count := ?cnt\<rparr> =
       t\<lparr>tbl_version := v, tbl_entities := (tbl_entities t)[row := tbl_entities t ! (tbl_count t - 1)], tbl_columns := cs,
       tbl_count := tbl_count t - 1, tbl_dirty_state := ds, tbl_bs_columns := bss\<rparr>"
      unfolding ents by (simp add: with_columns_def)
    ultimately show ?thesis using run w3 md(2) by (simp add: quiet_def)
  qed
  show ?thesis
  proof (cases "has_flag (tbl_flags t) EcsTableIsComplex")
    case False
    note P = simple_table [OF st False]
    have rv_Nil: "row_values husk t row = []" using P(2) by (intro released_nothing(1)) (simp add: rel_def)
    have bs: "(with_columns ?t2 cs)\<lparr>tbl_count := ?cnt\<rparr> = (with_columns ?t2 cs)\<lparr>tbl_bs_columns := [], tbl_count := ?cnt\<rparr>" for cs
    proof -
      have "tbl_bs_columns (with_columns ?t2 cs) = []" using P(1) by (simp add: with_columns_def)
      then have "with_columns ?t2 cs = (with_columns ?t2 cs)\<lparr>tbl_bs_columns := []\<rparr>" by (cases "with_columns ?t2 cs") simp
      then show ?thesis by metis
    qed
    have len: "length (col_data (tbl_columns ?t2 ! i)) = tbl_size t" if "i < length (tbl_columns ?t2)" for i using that R(4) by simp
    show ?thesis
    proof (cases "row = ?cnt")
      case True
      have "flecs_table_delete self w t row destruct = Inr (w2, (with_columns ?t2 (tbl_columns t))\<lparr>tbl_bs_columns := [], tbl_count := ?cnt\<rparr>)"
        unfolding pre bs [symmetric] using False True by (simp add: with_columns_def)
      moreover have "(if row = ?cnt \<and> \<not> destruct then [] else row_values husk t row) = []"
        unfolding rv_Nil by simp
      moreover have "closed row (tbl_count t) d d" for d :: "'a cell list" using True by (simp add: closed_def)
      ultimately show ?thesis using result [of w2 "[]" "tbl_columns t"] P(1) by simp
    next
      case ne: False
      have "\<not> managed husk (col_ti (tbl_columns ?t2 ! i))" if "i < length (tbl_columns ?t2)" for i using that P(2) by simp
      from fast_delete_ok [OF st2 len _ _ this, of row w2] obtain w3 cs where
        L: "flecs_table_fast_delete w2 ?t2 row = Inr (w3, with_columns ?t2 cs)" "length cs = length (tbl_columns t)"
        "\<forall>i < length (tbl_columns t). col_ti (cs ! i) = col_ti (tbl_columns t ! i) \<and> closed row (tbl_count t) (col_data (tbl_columns t ! i)) (col_data (cs ! i))"
        "released_upto husk ?t2 row w2 (length (tbl_columns t)) w3" using row R(2) by auto
      have "flecs_table_delete self w t row destruct = Inr (w3, (with_columns ?t2 cs)\<lparr>tbl_bs_columns := [], tbl_count := ?cnt\<rparr>)"
        unfolding pre bs [symmetric] using False ne L(1) by (simp add: with_columns_def)
      moreover have "w_released w3 = w_released w2" "w_index w3 = w_index w2" "w_tables w3 = w_tables w2"
        using L(4) rv_Nil by (simp_all add: released_upto_def row_values_def)
      ultimately show ?thesis using result [of w3 "[]" cs] L(2,3) P(1) rv_Nil by simp
    qed
  next
    case True
    have c2: "tbl_count ?t2 = tbl_count t" by simp
    have "tbl_columns t = tbl_columns ?t2" "tbl_count t = tbl_count ?t2" "row < tbl_count ?t2"
      "n = (if row = tbl_count ?t2 - 1 \<and> \<not> destruct then tbl_count ?t2 - 1 else tbl_count ?t2)" using row n by simp_all
    note paths = delete_paths_ok [OF st2 rows this, of ?del w2, unfolded c2]
    then obtain w3 cs where
      L: "(if row = ?cnt then
                (if destruct \<and> has_flag (tbl_flags ?t2) EcsTableHasDtors then
                   for_each [0..<length (tbl_columns ?t2)] (\<lambda>i (w, t).
                     flecs_table_invoke_remove_hooks w t i [?del] row 1 True) (w2, ?t2)
                 else Inr (w2, ?t2))
              else if has_flag (tbl_flags ?t2) (EcsTableHasDtors OR EcsTableHasMove) then
                for_each [0..<length (tbl_columns ?t2)] (delete_column destruct ?del row ?cnt) (w2, ?t2)
              else flecs_table_fast_delete w2 ?t2 row) = Inr (w3, with_columns ?t2 cs)"
      and L': "length cs = length (tbl_columns ?t2)"
      "\<forall>i < length (tbl_columns ?t2). col_ti (cs ! i) = col_ti (tbl_columns ?t2 ! i) \<and> closed row (tbl_count t) (col_data (tbl_columns ?t2 ! i)) (col_data (cs ! i))"
      "w_index w3 = w_index w2" "w_tables w3 = w_tables w2"
      "w_released w3 = w_released w2 @ (if row = ?cnt \<and> \<not> destruct then [] else row_values husk ?t2 row)" by (elim exE conjE) blast
    have LL: "length cs = length (tbl_columns t)"
      "\<forall>i < length (tbl_columns t). col_ti (cs ! i) = col_ti (tbl_columns t ! i) \<and> closed row (tbl_count t) (col_data (tbl_columns t ! i)) (col_data (cs ! i))"
      using L'(1,2) by simp_all
    have rv: "row_values husk ?t2 row = row_values husk t row" by (simp add: row_values_def)
    have bw: "bs_wf (tbl_bs_columns (with_columns ?t2 cs) ! i) \<and> row < bs_count (tbl_bs_columns (with_columns ?t2 cs) ! i)"
      if "i < length (tbl_bs_columns (with_columns ?t2 cs))" for i
      using that R(6,7) row by (simp add: with_columns_def)
    obtain bss where B: "for_each [0..<length (tbl_bs_columns (with_columns ?t2 cs))] (\<lambda>i t. bindr (flecs_bitset_remove (tbl_bs_columns t ! i) row) (\<lambda>bs.
      Inr (t\<lparr>tbl_bs_columns := (tbl_bs_columns t)[i := bs]\<rparr>))) (with_columns ?t2 cs) = Inr ((with_columns ?t2 cs)\<lparr>tbl_bs_columns := bss\<rparr>)"
      "length bss = length (tbl_bs_columns t)" "\<forall>i < length bss. bs_wf (bss ! i) \<and> bs_bits (bss ! i) = swap_remove row (bs_bits (tbl_bs_columns t ! i))"
      using bitsets_remove_ok [of "with_columns ?t2 cs" row] bw by (auto simp: with_columns_def)
    have cmp: "\<not> \<not> has_flag (tbl_flags ?t2) EcsTableIsComplex" using True by simp
    have "flecs_table_delete self w t row destruct = Inr (w3, (with_columns ?t2 cs)\<lparr>tbl_bs_columns := bss, tbl_count := ?cnt\<rparr>)"
      unfolding pre if_not_P [OF cmp] L bindr_Inr prod.case B(1) by (simp add: with_columns_def)
    from result [OF this LL L'(3,4,5) [unfolded rv] B(2,3)] show ?thesis .
  qed
qed

end
