(* ===== verification/Table_Move.thy ===== *)
theory Table_Move
  imports Table_Facts
begin

text \<open>
  Moving an entity between two tables (\<open>flecs_table_move\<close>): the merge of the two sorted column lists, what happens to the
  values of shared, added and removed components.
\<close>

section \<open>The merge of the column lists\<close>

text \<open>The columns a step works on.\<close>

primrec step_dst :: "column_step \<Rightarrow> nat list" where
  "step_dst (Both i j) = [i]" | "step_dst (Dst_only i) = [i]" | "step_dst (Src_only j) = []"

primrec step_src :: "column_step \<Rightarrow> nat list" where
  "step_src (Both i j) = [j]" | "step_src (Dst_only i) = []" | "step_src (Src_only j) = [j]"

text \<open>The loop and the two loops over what is left.\<close>

definition all_steps :: "nat \<Rightarrow> nat \<Rightarrow> u64 list \<Rightarrow> u64 list \<Rightarrow> column_step list" where
  "all_steps i j ds ss = (case zip_columns i j ds ss of (steps, k, l) \<Rightarrow>
     steps @ map Dst_only [k..<i + length ds] @ map Src_only [l..<j + length ss])"

lemma all_steps_simps [simp]:
  "all_steps i j (d # ds) (s # ss) =
     (if d = s then Both i j # all_steps (Suc i) (Suc j) ds ss
      else if d < s then Dst_only i # all_steps (Suc i) j ds (s # ss)
      else Src_only j # all_steps i (Suc j) (d # ds) ss)"
  "all_steps i j [] ss = map Src_only [j..<j + length ss]"
  "all_steps i j ds [] = map Dst_only [i..<i + length ds]"
  by (simp_all add: all_steps_def split: prod.split) 

text \<open>Every column of both tables has exactly one step.\<close>

lemma all_steps_columns:
  "concat (map step_dst (all_steps i j ds ss)) = [i..<i + length ds] \<and>
   concat (map step_src (all_steps i j ds ss)) = [j..<j + length ss]"
proof (induction i j ds ss rule: zip_columns.induct)
  case (1 i j d ds s ss)
  have "i # [Suc i..<Suc (i + length ds)] = [i..<Suc (i + length ds)]" "j # [Suc j..<Suc (j + length ss)] = [j..<Suc (j + length ss)]"
    by (simp_all add: upt_conv_Cons del: upt_Suc)
  with 1 show ?case by (auto simp del: upt_Suc)
qed (simp_all add: comp_def)

text \<open>For sorted lists the steps tell which ids the lists share.\<close>

definition step_ids :: "nat \<Rightarrow> nat \<Rightarrow> u64 list \<Rightarrow> u64 list \<Rightarrow> column_step \<Rightarrow> bool" where
  "step_ids i j ds ss st = (case st of
     Both k l \<Rightarrow> i \<le> k \<and> j \<le> l \<and> k - i < length ds \<and> l - j < length ss \<and> ds ! (k - i) = ss ! (l - j)
   | Dst_only k \<Rightarrow> i \<le> k \<and> k - i < length ds \<and> ds ! (k - i) \<notin> set ss
   | Src_only l \<Rightarrow> j \<le> l \<and> l - j < length ss \<and> ss ! (l - j) \<notin> set ds)"

lemma step_ids_dst:
  assumes "step_ids (Suc i) j ds ss st" "d \<notin> set ss"
  shows "step_ids i j (d # ds) ss st"
  using assms by (auto simp: step_ids_def nth_Cons' less_diff_conv2 split: column_step.splits)

lemma step_ids_src:
  assumes "step_ids i (Suc j) ds ss st" "s \<notin> set ds"
  shows "step_ids i j ds (s # ss) st"
  using assms by (auto simp: step_ids_def nth_Cons' split: column_step.splits)

lemma step_ids_both:
  assumes "step_ids (Suc i) (Suc j) ds ss st" "d \<notin> set ds" "d \<notin> set ss"
  shows "step_ids i j (d # ds) (d # ss) st"
  using assms by (auto simp: step_ids_def nth_Cons' split: column_step.splits)

lemma all_steps_ids:
  assumes "sorted_wrt (<) ds" "sorted_wrt (<) ss"
  shows "\<forall>st \<in> set (all_steps i j ds ss). step_ids i j ds ss st"
  using assms
proof (induction i j ds ss rule: zip_columns.induct)
  case (1 i j d ds s ss)
  consider (both) "d = s" | (dst) "d < s" | (src) "s < d" by fastforce
  then show ?case
  proof cases
    case both
    have "d \<notin> set ds" "d \<notin> set ss" using "1.prems" both by auto
    moreover have "step_ids i j (d # ds) (s # ss) (Both i j)" using both by (simp add: step_ids_def)
    ultimately show ?thesis using 1 both by (auto intro: step_ids_both)
  next
    case dst
    have "d \<notin> set (s # ss)" using "1.prems" dst by auto
    moreover from this have "step_ids i j (d # ds) (s # ss) (Dst_only i)" by (simp add: step_ids_def)
    ultimately show ?thesis using 1 dst by (auto intro!: step_ids_dst)
  next
    case src
    have "s \<notin> set (d # ds)" using "1.prems" src by auto
    moreover from this have "step_ids i j (d # ds) (s # ss) (Src_only j)" by (simp add: step_ids_def)
    ultimately show ?thesis using 1 src by (auto intro!: step_ids_src)
  qed
qed (auto simp: step_ids_def)

text \<open>Replacing the data of the columns in \<open>I\<close>, and what a part of the world's history releases.\<close>

definition cols_upd :: "nat set \<Rightarrow> (nat \<Rightarrow> 'v cell list \<Rightarrow> bool) \<Rightarrow> 'v ecs_column_t list \<Rightarrow> 'v ecs_column_t list \<Rightarrow> bool" where
  "cols_upd I Q cs cs' \<longleftrightarrow> length cs' = length cs \<and>
     (\<forall>i < length cs. col_ti (cs' ! i) = col_ti (cs ! i) \<and> (if i \<in> I then Q i (col_data (cs' ! i)) else cs' ! i = cs ! i))"

definition releases :: "'v list \<Rightarrow> 'v ecs_world_t \<Rightarrow> 'v ecs_world_t \<Rightarrow> bool" where
  "releases l w w' \<longleftrightarrow> w_index w' = w_index w \<and> w_tables w' = w_tables w \<and> w_released w' = w_released w @ l"

lemma releases_trans [trans]: "releases l w w' \<Longrightarrow> releases l' w' w'' \<Longrightarrow> releases (l @ l') w w''"
  by (simp add: releases_def)

lemma releases_Nil [simp]: "releases [] w w" by (simp add: releases_def)

lemma releases_release: "quiet w w' \<Longrightarrow> releases l w (release w' l)"
  by (simp add: quiet_def releases_def release_def)

lemma cols_upd_empty [simp]: "cols_upd {} Q cs cs" by (simp add: cols_upd_def)

lemma cols_upd_one: "i < length cs \<Longrightarrow> Q i d \<Longrightarrow> cols_upd {i} Q cs (cs[i := (cs ! i)\<lparr>col_data := d\<rparr>])"
  by (auto simp: cols_upd_def nth_list_update)

lemma cols_upd_Un:
  assumes "cols_upd I Q cs cs'" "cols_upd J Q cs' cs''" "I \<inter> J = {}"
  shows "cols_upd (I \<union> J) Q cs cs''"
  using assms unfolding cols_upd_def by (metis Un_iff disjoint_iff)

text \<open>A loop over steps that work on different columns.\<close>

lemma steps_loop:
  assumes "distinct (concat (map step_dst L))" "distinct (concat (map step_src L))"
    and step: "\<And>st w D S ds ss. st \<in> set L \<Longrightarrow> cols_upd D (\<lambda>_ _. True) (tbl_columns dst) ds \<Longrightarrow> cols_upd S (\<lambda>_ _. True) (tbl_columns src) ss \<Longrightarrow>
      D \<inter> set (step_dst st) = {} \<Longrightarrow> S \<inter> set (step_src st) = {} \<Longrightarrow>
      \<exists>w' ds' ss'. body st (w, with_columns dst ds, with_columns src ss) = Inr (w', with_columns dst ds', with_columns src ss') \<and>
        cols_upd (set (step_dst st)) Qd ds ds' \<and> cols_upd (set (step_src st)) Qs ss ss' \<and> releases (f st) w w'"
  shows "\<exists>w' ds ss. for_each L body (w, dst, src) = Inr (w', with_columns dst ds, with_columns src ss) \<and>
    cols_upd (set (concat (map step_dst L))) Qd (tbl_columns dst) ds \<and> cols_upd (set (concat (map step_src L))) Qs (tbl_columns src) ss \<and>
    releases (concat (map f L)) w w'"
  using assms
proof (induction L rule: rev_induct)
  case Nil
  then show ?case by (intro exI [of _ w] exI [of _ "tbl_columns dst"] exI [of _ "tbl_columns src"]) (simp add: with_columns_def)
next
  case (snoc st L)
  let ?D = "set (concat (map step_dst L))" and ?S = "set (concat (map step_src L))"
  have d: "distinct (concat (map step_dst L))" "distinct (concat (map step_src L))" "?D \<inter> set (step_dst st) = {}" "?S \<inter> set (step_src st) = {}"
    using snoc.prems(1,2) by simp_all
  from snoc.IH [OF d(1,2)] snoc.prems(3) obtain w1 ds ss where
    I: "for_each L body (w, dst, src) = Inr (w1, with_columns dst ds, with_columns src ss)"
      "cols_upd ?D Qd (tbl_columns dst) ds" "cols_upd ?S Qs (tbl_columns src) ss" "releases (concat (map f L)) w w1"
    by (metis butlast_snoc in_set_butlastD)
  have "cols_upd ?D (\<lambda>_ _. True) (tbl_columns dst) ds" "cols_upd ?S (\<lambda>_ _. True) (tbl_columns src) ss"
    using I(2,3) by (simp_all add: cols_upd_def split: if_splits)
  from snoc.prems(3) [OF _ this d(3,4)] obtain w2 ds' ss' where
    J: "body st (w1, with_columns dst ds, with_columns src ss) = Inr (w2, with_columns dst ds', with_columns src ss')"
      "cols_upd (set (step_dst st)) Qd ds ds'" "cols_upd (set (step_src st)) Qs ss ss'" "releases (f st) w1 w2" by fastforce
  have "for_each (L @ [st]) body (w, dst, src) = Inr (w2, with_columns dst ds', with_columns src ss')"
    using I(1) J(1) by (simp add: for_each_append)
  with cols_upd_Un [OF I(2) J(2) d(3)] cols_upd_Un [OF I(3) J(3) d(4)] releases_trans [OF I(4) J(4)]
  show ?case by (intro exI [of _ w2] exI [of _ ds'] exI [of _ ss']) simp
qed

section \<open>What a move does to a row\<close>

text \<open>
  The cell of column \<open>i\<close> of the destination: the value of the source if the source has the component, otherwise a constructed
  value, or the old cell if the caller constructs it (\<open>emplace_id\<close>).
\<close>

definition dst_moved :: "('v \<Rightarrow> bool) \<Rightarrow> 'v ecs_table_t \<Rightarrow> nat \<Rightarrow> 'v ecs_table_t \<Rightarrow> nat \<Rightarrow> u64 \<Rightarrow> nat \<Rightarrow> 'v cell list \<Rightarrow> bool" where
  "dst_moved husk dst dst_index src src_index emplace_id i d \<longleftrightarrow> (\<exists>c. d = (col_data (tbl_columns dst ! i))[dst_index := c] \<and>
     (\<forall>j < length (tbl_columns src). column_ids src ! j = column_ids dst ! i \<longrightarrow> c = col_data (tbl_columns src ! j) ! src_index) \<and>
     (column_ids dst ! i \<notin> set (column_ids src) \<longrightarrow>
        (if column_ids dst ! i = emplace_id then c = col_data (tbl_columns dst ! i) ! dst_index else made husk (col_ti (tbl_columns dst ! i)) c)))"

text \<open>
  The cell that stays behind in column \<open>j\<close> of the source: nothing to release if the value went to the destination or if it was the
  last row; a live cell otherwise, to be closed by \<open>flecs_table_delete\<close>.
\<close>

definition src_moved :: "('v \<Rightarrow> bool) \<Rightarrow> 'v ecs_table_t \<Rightarrow> 'v ecs_table_t \<Rightarrow> nat \<Rightarrow> bool \<Rightarrow> nat \<Rightarrow> 'v cell list \<Rightarrow> bool" where
  "src_moved husk dst src src_index last_row j d \<longleftrightarrow> (\<exists>c. d = (col_data (tbl_columns src ! j))[src_index := c] \<and>
     (if column_ids src ! j \<in> set (column_ids dst) then rel husk (col_ti (tbl_columns src ! j)) c = [] \<and> (last_row \<or> live husk (col_ti (tbl_columns src ! j)) c)
      else if last_row then rel husk (col_ti (tbl_columns src ! j)) c = [] else c = col_data (tbl_columns src ! j) ! src_index))"

text \<open>The values that a step releases.\<close>

primrec step_releases :: "('v \<Rightarrow> bool) \<Rightarrow> 'v ecs_table_t \<Rightarrow> nat \<Rightarrow> bool \<Rightarrow> column_step \<Rightarrow> 'v list" where
  "step_releases husk src src_index last_row (Both i j) = []"
| "step_releases husk src src_index last_row (Dst_only i) = []"
| "step_releases husk src src_index last_row (Src_only j) =
     (if last_row then rel husk (col_ti (tbl_columns src ! j)) (col_data (tbl_columns src ! j) ! src_index) else [])"

lemma length_column_ids [simp]: "length (column_ids t) = length (tbl_columns t)" by (simp add: column_ids_def)

lemma static_distinct_ids: "table_static husk t \<Longrightarrow> distinct (column_ids t)"
  by (simp add: table_static_def strict_sorted_iff)

lemma cols_upd_shape: "cols_upd I Q (tbl_columns t) cs \<Longrightarrow> same_shape t (with_columns t cs)"
  by (simp add: cols_upd_def same_shape_def with_columns_def)

lemma add_hooks_ok:
  assumes st: "table_static husk t" and sh: "same_shape t t'" and i: "i < length (tbl_columns t)" and ov: "ov i = None"
    and row: "row < length (col_data (tbl_columns t' ! i))"
  shows "\<exists>w1 c. flecs_table_invoke_add_hooks w t' ov i es row 1 construct = Inr (w1, set_col_data t' i ((col_data (tbl_columns t' ! i))[row := c])) \<and>
    quiet w w1 \<and> (if construct then made husk (col_ti (tbl_columns t ! i)) c else c = col_data (tbl_columns t' ! i) ! row)"
proof -
  let ?d = "col_data (tbl_columns t' ! i)" and ?ti = "col_ti (tbl_columns t ! i)"
  have ti: "col_ti (tbl_columns t' ! i) = ?ti" using sh i by (simp add: same_shape_def)
  have ne: "?d \<noteq> []" using row by auto
  have "\<exists>c. (if construct then flecs_table_invoke_ctor w t' ov i row 1 else Inr (w, t')) = Inr (w, set_col_data t' i (?d[row := c])) \<and>
    (if construct then made husk ?ti c else c = ?d ! row)"
  proof (cases construct)
    case True
    obtain cs where cs: "flecs_table_invoke_ctor_for_array w (Some t') ov i ?d row 1 ?ti = Inr (w, put_cells ?d row cs)" "length cs = 1"
      "\<forall>c \<in> set cs. made husk ?ti c"
      using construct_ok [OF table_staticD(1) [OF st i], of row 1 ?d ov i w "Some t'"] row ov by auto
    then obtain c where "cs = [c]" "made husk ?ti c" by (cases cs) auto
    then show ?thesis using True cs(1) ne row by (intro exI [of _ c]) (simp add: flecs_table_invoke_ctor_def ti)
  next
    case False
    have "t' = set_col_data t' i (?d[row := ?d ! row])" by (simp add: set_col_data_def)
    then show ?thesis using False by auto
  qed
  then obtain c where c: "(if construct then flecs_table_invoke_ctor w t' ov i row 1 else Inr (w, t')) = Inr (w, set_col_data t' i (?d[row := c]))"
    "if construct then made husk ?ti c else c = ?d ! row" by blast
  have "same_shape t (set_col_data t' i (?d[row := c]))"
    using sh i by (auto simp: same_shape_def set_col_data_def nth_list_update)
  from hook_ok [OF st this i] obtain w1 where
    h: "flecs_table_invoke_hook w (set_col_data t' i (?d[row := c])) EcsOnAdd i es row = Inr w1" "quiet w w1" by blast
  show ?thesis
    unfolding flecs_table_invoke_add_hooks_def Let_def c(1) bindr_Inr ti
    using ne c(2) h by (cases "h_on_add (ti_hooks ?ti)") auto
qed

text \<open>The two tables of a move: well-formed, with the same type info for the same component.\<close>

definition same_types :: "'v ecs_table_t \<Rightarrow> 'v ecs_table_t \<Rightarrow> bool" where
  "same_types dst src \<longleftrightarrow> (\<forall>i < length (tbl_columns dst). \<forall>j < length (tbl_columns src).
     column_ids dst ! i = column_ids src ! j \<longrightarrow> col_ti (tbl_columns dst ! i) = col_ti (tbl_columns src ! j))"

text \<open>The mover that the code selects for a shared component.\<close>

lemma shared_move:
  assumes "type_ok husk ti" "live husk ti s"
  shows "\<exists>s'. (if b \<or> h_move_ctor (ti_hooks ti) = None then flecs_type_info_ctor_move_dtor ti else flecs_type_info_move_ctor ti) d s =
    Inr ((s, s'), []) \<and> rel husk ti s' = [] \<and> (b \<or> live husk ti s')"
proof (cases "b \<or> h_move_ctor (ti_hooks ti) = None")
  case True
  moreover have "live husk ti s'" if "h_move_ctor (ti_hooks ti) = None" for s'
    using that by (auto simp: live_def managed_def)
  ultimately show ?thesis using type_relocate [OF assms, of d] by auto
next
  case False
  then show ?thesis using type_move_ctor [OF assms, of d] by auto
qed

lemma move_step_ok:
  assumes st: "table_static husk dst" "table_static husk src" and ty: "same_types dst src" and ov: "\<And>i. ov i = None"
    and ids: "step_ids 0 0 (column_ids dst) (column_ids src) step"
    and dst_row: "\<And>i. i < length (tbl_columns dst) \<Longrightarrow> dst_index < length (col_data (tbl_columns dst ! i))"
    and src_row: "\<And>j. j < length (tbl_columns src) \<Longrightarrow> src_index < length (col_data (tbl_columns src ! j)) \<and>
       live husk (col_ti (tbl_columns src ! j)) (col_data (tbl_columns src ! j) ! src_index)"
    and upd: "cols_upd D (\<lambda>_ _. True) (tbl_columns dst) ds" "cols_upd S (\<lambda>_ _. True) (tbl_columns src) ss"
    and dis: "D \<inter> set (step_dst step) = {}" "S \<inter> set (step_src step) = {}"
  shows "\<exists>w' ds' ss'. move_column_step ov e e dst_index src_index emplace_id lst step (w, with_columns dst ds, with_columns src ss) =
      Inr (w', with_columns dst ds', with_columns src ss') \<and>
    cols_upd (set (step_dst step)) (dst_moved husk dst dst_index src src_index emplace_id) ds ds' \<and>
    cols_upd (set (step_src step)) (src_moved husk dst src src_index lst) ss ss' \<and>
    releases (step_releases husk src src_index lst step) w w'"
proof (cases step)
  case (Both i j)
  have i: "i < length (tbl_columns dst)" and j: "j < length (tbl_columns src)" and eq: "column_ids dst ! i = column_ids src ! j"
    using ids Both by (auto simp: step_ids_def)
  have o: "ds ! i = tbl_columns dst ! i" "ss ! j = tbl_columns src ! j" "length ds = length (tbl_columns dst)" "length ss = length (tbl_columns src)"
    using upd dis Both i j by (auto simp: cols_upd_def)
  let ?ti = "col_ti (tbl_columns dst ! i)" and ?d = "col_data (tbl_columns dst ! i)" and ?s = "col_data (tbl_columns src ! j)"
  have ti: "col_ti (tbl_columns src ! j) = ?ti" using ty i j eq by (simp add: same_types_def)
  note t = table_staticD(1) [OF st(1) i]
  obtain s' where m: "(if lst \<or> h_move_ctor (ti_hooks ?ti) = None then flecs_type_info_ctor_move_dtor ?ti else flecs_type_info_move_ctor ?ti)
      (?d ! dst_index) (?s ! src_index) = Inr ((?s ! src_index, s'), [])" "rel husk ?ti s' = []" "lst \<or> live husk ?ti s'"
    using shared_move [OF t, of "?s ! src_index" lst "?d ! dst_index"] src_row [OF j] ti by metis
  have mv: "range_move (if lst \<or> h_move_ctor (ti_hooks ?ti) = None then flecs_type_info_ctor_move_dtor ?ti else flecs_type_info_move_ctor ?ti)
      w ?d dst_index ?s src_index 1 = Inr (w, ?d[dst_index := ?s ! src_index], ?s[src_index := s'])" (is "range_move ?mover _ _ _ _ _ _ = _")
    using range_move_one [where f = ?mover and w = w, OF dst_row [OF i], of src_index ?s] src_row [OF j] m(1) by simp
  let ?ds = "ds[i := (ds ! i)\<lparr>col_data := ?d[dst_index := ?s ! src_index]\<rparr>]" and ?ss = "ss[j := (ss ! j)\<lparr>col_data := ?s[src_index := s']\<rparr>]"
  have run: "move_column_step ov e e dst_index src_index emplace_id lst step (w, with_columns dst ds, with_columns src ss) =
      Inr (w, with_columns dst ?ds, with_columns src ?ss)"
  proof -
    have c: "tbl_columns (with_columns dst ds) ! i = tbl_columns dst ! i" "tbl_columns (with_columns src ss) ! j = tbl_columns src ! j"
      using o by (simp_all add: with_columns_def)
    have a: "ecs_assert (ti_size ?ti \<noteq> 0) ECS_INTERNAL_ERROR = Inr ()" using t by (simp add: type_ok_def)
    show ?thesis unfolding move_column_step_def Both column_step.case prod.case Let_def c a bindr_Inr mv set_col_data_with by (rule refl)
  qed
  have "dst_moved husk dst dst_index src src_index emplace_id i (?d[dst_index := ?s ! src_index])"
    unfolding dst_moved_def
  proof (intro exI [of _ "?s ! src_index"] conjI refl allI impI)
    fix k assume k: "k < length (tbl_columns src)" "column_ids src ! k = column_ids dst ! i"
    then have "k = j" using eq j static_distinct_ids [OF st(2)] by (simp add: nth_eq_iff_index_eq)
    then show "?s ! src_index = col_data (tbl_columns src ! k) ! src_index" by simp
  next
    assume "column_ids dst ! i \<notin> set (column_ids src)"
    then show "if column_ids dst ! i = emplace_id then ?s ! src_index = ?d ! dst_index else made husk ?ti (?s ! src_index)"
      using eq j by (metis length_column_ids nth_mem)
  qed
  moreover have "src_moved husk dst src src_index lst j (?s[src_index := s'])"
    using m(2,3) eq i ti unfolding src_moved_def by (intro exI [of _ s']) (metis length_column_ids nth_mem)
  ultimately show ?thesis
    using run cols_upd_one [of i ds "dst_moved husk dst dst_index src src_index emplace_id"]
      cols_upd_one [of j ss "src_moved husk dst src src_index lst"] i j o Both
    by (intro exI [of _ w] exI [of _ ?ds] exI [of _ ?ss]) simp
next
  case (Dst_only i)
  have i: "i < length (tbl_columns dst)" and ne: "column_ids dst ! i \<notin> set (column_ids src)" using ids Dst_only by (auto simp: step_ids_def)
  have o: "ds ! i = tbl_columns dst ! i" "length ds = length (tbl_columns dst)" using upd dis Dst_only i by (auto simp: cols_upd_def)
  let ?d = "col_data (tbl_columns dst ! i)"
  have cid: "flecs_column_id (with_columns dst ds) i = column_ids dst ! i"
    using i by (simp add: column_ids_def flecs_column_id_def with_columns_def)
  have "dst_index < length (col_data (tbl_columns (with_columns dst ds) ! i))" using dst_row [OF i] o by (simp add: with_columns_def)
  from add_hooks_ok [where ov = ov and w = w and es = "[e]" and construct = "column_ids dst ! i \<noteq> emplace_id",
    OF st(1) cols_upd_shape [OF upd(1)] i ov [of i] this]
  obtain w' c where h: "flecs_table_invoke_add_hooks w (with_columns dst ds) ov i [e] dst_index 1 (column_ids dst ! i \<noteq> emplace_id) =
      Inr (w', set_col_data (with_columns dst ds) i (?d[dst_index := c]))" "quiet w w'"
    "if column_ids dst ! i \<noteq> emplace_id then made husk (col_ti (tbl_columns dst ! i)) c else c = ?d ! dst_index"
    using o by (auto simp: with_columns_def)
  have "dst_moved husk dst dst_index src src_index emplace_id i (?d[dst_index := c])"
    unfolding dst_moved_def using h(3) ne
    by (intro exI [of _ c]) (metis length_column_ids nth_mem)
  moreover have "move_column_step ov e e dst_index src_index emplace_id lst step (w, with_columns dst ds, with_columns src ss) =
      Inr (w', with_columns dst (ds[i := (ds ! i)\<lparr>col_data := ?d[dst_index := c]\<rparr>]), with_columns src ss)"
    unfolding move_column_step_def Dst_only column_step.case prod.case cid h(1) bindr_Inr set_col_data_with by (rule refl)
  moreover have "releases [] w w'" using h(2) by (simp add: quiet_def releases_def)
  ultimately show ?thesis
    using cols_upd_one [of i ds "dst_moved husk dst dst_index src src_index emplace_id"] i o Dst_only
    by (intro exI [of _ w'] exI [of _ "ds[i := (ds ! i)\<lparr>col_data := ?d[dst_index := c]\<rparr>]"] exI [of _ ss]) simp
next
  case (Src_only j)
  have j: "j < length (tbl_columns src)" and ne: "column_ids src ! j \<notin> set (column_ids dst)" using ids Src_only by (auto simp: step_ids_def)
  have o: "ss ! j = tbl_columns src ! j" "length ss = length (tbl_columns src)" using upd dis Src_only j by (auto simp: cols_upd_def)
  let ?s = "col_data (tbl_columns src ! j)" and ?ti = "col_ti (tbl_columns src ! j)"
  have c: "col_data (tbl_columns (with_columns src ss) ! j) = ?s" using o by (simp add: with_columns_def)
  have "src_index < length (col_data (tbl_columns (with_columns src ss) ! j))"
    "live husk ?ti (col_data (tbl_columns (with_columns src ss) ! j) ! src_index)" unfolding c using src_row [OF j] by simp_all
  from remove_hooks_ok [where w = w and es = "[e]" and dtor = lst, OF st(2) cols_upd_shape [OF upd(2)] j this]
  obtain w1 s' where h: "flecs_table_invoke_remove_hooks w (with_columns src ss) j [e] src_index 1 lst =
      Inr (release w1 (if lst then rel husk ?ti (?s ! src_index) else []), set_col_data (with_columns src ss) j (?s[src_index := s']))" "quiet w w1"
    "if lst then rel husk ?ti s' = [] else s' = ?s ! src_index" unfolding c by blast
  have "src_moved husk dst src src_index lst j (?s[src_index := s'])"
    unfolding src_moved_def using h(3) ne by (intro exI [of _ s']) simp
  moreover have "move_column_step ov e e dst_index src_index emplace_id lst step (w, with_columns dst ds, with_columns src ss) =
      Inr (release w1 (step_releases husk src src_index lst step), with_columns dst ds, with_columns src (ss[j := (ss ! j)\<lparr>col_data := ?s[src_index := s']\<rparr>]))"
    unfolding move_column_step_def Src_only column_step.case prod.case h(1) bindr_Inr set_col_data_with by simp
  ultimately show ?thesis
    using cols_upd_one [of j ss "src_moved husk dst src src_index lst"] j o Src_only releases_release [OF h(2)]
    by (intro exI [of _ "release w1 (step_releases husk src src_index lst step)"] exI [of _ ds]
        exI [of _ "ss[j := (ss ! j)\<lparr>col_data := ?s[src_index := s']\<rparr>]"]) simp
qed

section \<open>Toggles\<close>

lemma bitset_copy_one:
  assumes "bs_wf d" "i < bs_count d" "bs_wf s" "j < bs_count s"
  shows "\<exists>bs. bitset_copy d i s j 1 = Inr bs \<and> bs_wf bs \<and> bs_count bs = bs_count d \<and> bs_bits bs = (bs_bits d)[i := bs_bits s ! j]"
  using assms bs_set_bits [OF assms(1,2), of "bs_bit s j"]
  by (auto simp: bitset_copy_def flecs_bitset_ensure_def bitset_get_ok)

text \<open>The bitset ids of a table, and the bits of the destination after a move.\<close>

definition bitset_ids :: "'v ecs_table_t \<Rightarrow> u64 list" where
  "bitset_ids t = take (length (tbl_bs_columns t)) (toggle_ids t)"

definition bits_moved :: "'v ecs_table_t \<Rightarrow> nat \<Rightarrow> 'v ecs_table_t \<Rightarrow> nat \<Rightarrow> nat \<Rightarrow> bool list \<Rightarrow> bool" where
  "bits_moved dst dst_index src src_index i bits \<longleftrightarrow>
     (\<forall>j < length (tbl_bs_columns src). bitset_ids src ! j = bitset_ids dst ! i \<longrightarrow> bits = (toggle_bits dst i)[dst_index := toggle_bits src j ! src_index]) \<and>
     (bitset_ids dst ! i \<notin> set (bitset_ids src) \<longrightarrow> bits = toggle_bits dst i)"

lemma bitset_ids_static:
  assumes "table_static husk t"
  shows "length (bitset_ids t) = length (tbl_bs_columns t)" "sorted_wrt (<) (bitset_ids t)"
  using assms by (simp_all add: table_static_def bitset_ids_def sorted_wrt_take)

text \<open>A loop that replaces the bitsets of shared toggles.\<close>

lemma bits_loop:
  assumes "distinct (concat (map step_dst L))"
    and step: "\<And>i j. Both i j \<in> set L \<Longrightarrow> i < length (tbl_bs_columns dst) \<and> (\<exists>bs. f (tbl_bs_columns dst ! i) (tbl_bs_columns src ! j) = Inr bs \<and> P i j bs)"
    and body: "\<And>i j dst. body (Both i j) (dst, src) = bindr (f (tbl_bs_columns dst ! i) (tbl_bs_columns src ! j)) (\<lambda>bs.
        Inr (dst\<lparr>tbl_bs_columns := (tbl_bs_columns dst)[i := bs]\<rparr>, src))"
      "\<And>i s. body (Dst_only i) s = Inr s" "\<And>i s. body (Src_only i) s = Inr s"
  shows "\<exists>bss. for_each L body (dst, src) = Inr (dst\<lparr>tbl_bs_columns := bss\<rparr>, src) \<and> length bss = length (tbl_bs_columns dst) \<and>
    (\<forall>i j. Both i j \<in> set L \<longrightarrow> P i j (bss ! i)) \<and> (\<forall>i. (\<forall>j. Both i j \<notin> set L) \<longrightarrow> bss ! i = tbl_bs_columns dst ! i)"
  using assms(1) step
proof (induction L rule: rev_induct)
  case Nil
  then show ?case by (intro exI [of _ "tbl_bs_columns dst"]) simp
next
  case (snoc st L)
  from snoc.IH snoc.prems obtain bss where
    I: "for_each L body (dst, src) = Inr (dst\<lparr>tbl_bs_columns := bss\<rparr>, src)" "length bss = length (tbl_bs_columns dst)"
      "\<forall>i j. Both i j \<in> set L \<longrightarrow> P i j (bss ! i)" "\<forall>i. (\<forall>j. Both i j \<notin> set L) \<longrightarrow> bss ! i = tbl_bs_columns dst ! i" by fastforce
  show ?case
  proof (cases st)
    case (Both i j)
    have new: "Both i j' \<notin> set L" for j' using snoc.prems(1) Both by force
    have "i < length bss" using snoc.prems(2) [of i j] I(2) Both by simp
    obtain bs where bs: "f (tbl_bs_columns dst ! i) (tbl_bs_columns src ! j) = Inr bs" "P i j bs" using snoc.prems(2) [of i j] Both by auto
    have "for_each (L @ [st]) body (dst, src) = Inr (dst\<lparr>tbl_bs_columns := bss[i := bs]\<rparr>, src)"
      using I(1) I(4) new bs(1) Both by (simp add: for_each_append body(1))
    moreover have "P k l (bss[i := bs] ! k)" if "Both k l \<in> set (L @ [st])" for k l
      using that new I(3) bs(2) Both \<open>i < length bss\<close> by (cases "k = i") auto
    moreover have "bss[i := bs] ! k = tbl_bs_columns dst ! k" if "\<forall>l. Both k l \<notin> set (L @ [st])" for k
      using that I(4) Both by (cases "k = i") auto
    ultimately show ?thesis using I(2) by (intro exI [of _ "bss[i := bs]"]) simp
  next
    case (Dst_only i)
    with I show ?thesis by (intro exI [of _ bss]) (simp add: for_each_append body)
  next
    case (Src_only j)
    with I show ?thesis by (intro exI [of _ bss]) (simp add: for_each_append body)
  qed
qed

lemma zip_columns_all:
  "set (fst (zip_columns i j ds ss)) \<subseteq> set (all_steps i j ds ss)"
  "Both k l \<in> set (all_steps i j ds ss) \<Longrightarrow> Both k l \<in> set (fst (zip_columns i j ds ss))"
  by (cases "zip_columns i j ds ss"; auto simp: all_steps_def)+

lemma zip_columns_distinct: "distinct (concat (map step_dst (fst (zip_columns i j ds ss))))"
proof -
  have "distinct (concat (map step_dst (all_steps i j ds ss)))" using all_steps_columns [of i j ds ss] by simp
  then show ?thesis by (auto simp: all_steps_def split: prod.splits)
qed

lemma shared_step:
  assumes "sorted_wrt (<) ds" "sorted_wrt (<) ss" "k < length ds" "l < length ss" "ds ! k = ss ! l"
  shows "Both k l \<in> set (all_steps 0 0 ds ss)"
proof -
  have "k \<in> set (concat (map step_dst (all_steps 0 0 ds ss)))" using all_steps_columns [of 0 0 ds ss] assms(3) by simp
  then obtain st where st: "st \<in> set (all_steps 0 0 ds ss)" "k \<in> set (step_dst st)" by auto
  with all_steps_ids [OF assms(1,2)] have "step_ids 0 0 ds ss st" by blast
  have d: "distinct ss" "ss ! l \<in> set ss" using assms by (simp_all add: strict_sorted_iff)
  show ?thesis
  proof (cases st)
    case (Both i j)
    with st(2) \<open>step_ids 0 0 ds ss st\<close> have "i = k" "j < length ss" "ss ! j = ss ! l" using assms(5) by (simp_all add: step_ids_def)
    then show ?thesis using st(1) Both d(1) assms(4) by (simp add: nth_eq_iff_index_eq)
  qed (use st(2) \<open>step_ids 0 0 ds ss st\<close> assms(5) d(2) in \<open>simp_all add: step_ids_def\<close>)
qed

text \<open>Toggles that both tables have are copied.\<close>

lemma move_bitsets_ok:
  assumes st: "table_static husk dst" "table_static husk src" and rows: "table_rows husk n dst" "table_rows husk m src"
    and idx: "dst_index < tbl_count dst" "src_index < tbl_count src"
  shows "\<exists>bss. flecs_table_move_bitset_columns dst dst_index src src_index 1 False = Inr (dst\<lparr>tbl_bs_columns := bss\<rparr>, src) \<and>
    length bss = length (tbl_bs_columns dst) \<and>
    (\<forall>i < length bss. bs_wf (bss ! i) \<and> bs_count (bss ! i) = tbl_count dst \<and> bits_moved dst dst_index src src_index i (bs_bits (bss ! i)))"
proof -
  note R = table_rowsD [OF rows(1)] and R' = table_rowsD [OF rows(2)]
  let ?ds = "bitset_ids dst" and ?ss = "bitset_ids src"
  note S = bitset_ids_static [OF st(1)] and S' = bitset_ids_static [OF st(2)]
  define L where "L = fst (zip_columns 0 0 ?ds ?ss)"
  let ?P = "\<lambda>i j bs. bs_wf bs \<and> bs_count bs = tbl_count dst \<and> bs_bits bs = (toggle_bits dst i)[dst_index := toggle_bits src j ! src_index]"
  let ?f = "\<lambda>d s. bitset_copy d dst_index s src_index 1"
  have both: "Both i j \<in> set L \<longleftrightarrow> i < length (tbl_bs_columns dst) \<and> j < length (tbl_bs_columns src) \<and> ?ds ! i = ?ss ! j" for i j
    using shared_step [OF S(2) S'(2), of i j] all_steps_ids [OF S(2) S'(2), of 0 0] zip_columns_all(1) [of 0 0 ?ds ?ss] zip_columns_all(2) [of i j 0 0 ?ds ?ss] S(1) S'(1)
    unfolding L_def by (auto simp: step_ids_def split: column_step.splits)
  have step: "i < length (tbl_bs_columns dst) \<and> (\<exists>bs. ?f (tbl_bs_columns dst ! i) (tbl_bs_columns src ! j) = Inr bs \<and> ?P i j bs)" if "Both i j \<in> set L" for i j
  proof -
    from that have i: "i < length (tbl_bs_columns dst)" and j: "j < length (tbl_bs_columns src)" by (simp_all add: both)
    have "bs_wf (tbl_bs_columns dst ! i)" "dst_index < bs_count (tbl_bs_columns dst ! i)" "bs_wf (tbl_bs_columns src ! j)"
      "src_index < bs_count (tbl_bs_columns src ! j)" "bs_count (tbl_bs_columns dst ! i) = tbl_count dst"
      using R(6,7) [OF i] R'(6,7) [OF j] idx by simp_all
    with bitset_copy_one [OF this(1-4)] i show ?thesis by (auto simp: toggle_bits_def)
  qed
  let ?body = "\<lambda>step (dst, src). case step of
      Both i j \<Rightarrow> bindr (bitset_copy (tbl_bs_columns dst ! i) dst_index (tbl_bs_columns src ! j) src_index 1) (\<lambda>bs.
        let dst = dst\<lparr>tbl_bs_columns := (tbl_bs_columns dst)[i := bs]\<rparr> in Inr (dst, src))
    | Src_only j \<Rightarrow> Inr (dst, src) | Dst_only _ \<Rightarrow> Inr (dst, src)"
  from bits_loop [of L dst ?f src ?P ?body, OF _ step] obtain bss where
    B: "for_each L ?body (dst, src) = Inr (dst\<lparr>tbl_bs_columns := bss\<rparr>, src)" "length bss = length (tbl_bs_columns dst)"
      "\<forall>i j. Both i j \<in> set L \<longrightarrow> ?P i j (bss ! i)" "\<forall>i. (\<forall>j. Both i j \<notin> set L) \<longrightarrow> bss ! i = tbl_bs_columns dst ! i"
    using zip_columns_distinct by (auto simp: L_def)
  have run: "flecs_table_move_bitset_columns dst dst_index src src_index 1 False = Inr (dst\<lparr>tbl_bs_columns := bss\<rparr>, src)"
  proof (cases "tbl_bs_columns src = [] \<and> tbl_bs_columns dst = []")
    case True
    with B(2) show ?thesis by (simp add: flecs_table_move_bitset_columns_def)
  next
    case False
    obtain k where z: "zip_columns 0 0 ?ds ?ss = (L, k)" unfolding L_def by (cases "zip_columns 0 0 ?ds ?ss") simp
    show ?thesis unfolding flecs_table_move_bitset_columns_def if_not_P [OF False] Let_def bitset_ids_def [symmetric] z if_False
      by (simp only: prod.case B(1) [unfolded Let_def] bindr_Inr split: prod.split) simp
  qed
  have "bs_wf (bss ! i) \<and> bs_count (bss ! i) = tbl_count dst \<and> bits_moved dst dst_index src src_index i (bs_bits (bss ! i))" if i: "i < length bss" for i
  proof (cases "\<exists>j. Both i j \<in> set L")
    case True
    then obtain j where j: "Both i j \<in> set L" by blast
    have "k = j" if "k < length (tbl_bs_columns src)" "?ss ! k = ?ds ! i" for k
      using that j S' unfolding both by (simp add: strict_sorted_iff nth_eq_iff_index_eq)
    moreover have "?ds ! i \<in> set ?ss" using j S'(1) unfolding both by (metis nth_mem)
    ultimately show ?thesis using B(3) j by (auto simp: bits_moved_def)
  next
    case False
    then have "bss ! i = tbl_bs_columns dst ! i" using B(4) by blast
    moreover have "?ss ! j \<noteq> ?ds ! i" if "j < length (tbl_bs_columns src)" for j
      using False that i B(2) by (auto simp: both)
    ultimately show ?thesis using R(6,7) i B(2) by (simp add: bits_moved_def toggle_bits_def)
  qed
  with run B(2) show ?thesis by blast
qed

section \<open>Moving a row\<close>

text \<open>The values of the components that the destination does not have, in the order of the columns.\<close>

definition removed_values :: "('v \<Rightarrow> bool) \<Rightarrow> 'v ecs_table_t \<Rightarrow> 'v ecs_table_t \<Rightarrow> nat \<Rightarrow> 'v list" where
  "removed_values husk dst src row = concat (map (\<lambda>j. if column_ids src ! j \<in> set (column_ids dst) then []
     else rel husk (col_ti (tbl_columns src ! j)) (col_data (tbl_columns src ! j) ! row)) [0..<length (tbl_columns src)])"

definition move_spec ::
  "('v \<Rightarrow> bool) \<Rightarrow> 'v ecs_table_t \<Rightarrow> nat \<Rightarrow> 'v ecs_table_t \<Rightarrow> nat \<Rightarrow> u64 \<Rightarrow> bool \<Rightarrow> 'v ecs_table_t \<Rightarrow> 'v ecs_table_t \<Rightarrow> bool" where
  "move_spec husk dst dst_index src src_index emplace_id lst dst' src' \<longleftrightarrow>
     same_shape dst dst' \<and> tbl_entities dst' = tbl_entities dst \<and> tbl_count dst' = tbl_count dst \<and> tbl_size dst' = tbl_size dst \<and>
     same_shape src src' \<and> tbl_entities src' = tbl_entities src \<and> tbl_count src' = tbl_count src \<and> tbl_size src' = tbl_size src \<and>
     (\<forall>i < length (tbl_columns dst). dst_moved husk dst dst_index src src_index emplace_id i (col_data (tbl_columns dst' ! i))) \<and>
     (\<forall>j < length (tbl_columns src). src_moved husk dst src src_index lst j (col_data (tbl_columns src' ! j))) \<and>
     (\<forall>i < length (tbl_bs_columns dst). bs_wf (tbl_bs_columns dst' ! i) \<and> bs_count (tbl_bs_columns dst' ! i) = tbl_count dst \<and>
        bits_moved dst dst_index src src_index i (toggle_bits dst' i)) \<and>
     tbl_bs_columns src' = tbl_bs_columns src"

lemma concat_map_concat: "concat (map (\<lambda>x. concat (map g (f x))) xs) = concat (map g (concat (map f xs)))"
  by (induction xs) simp_all

lemma all_steps_released:
  assumes "sorted_wrt (<) (column_ids dst)" "sorted_wrt (<) (column_ids src)"
  shows "concat (map (step_releases husk src row lst) (all_steps 0 0 (column_ids dst) (column_ids src))) =
    (if lst then removed_values husk dst src row else [])"
proof (cases lst)
  case True
  let ?L = "all_steps 0 0 (column_ids dst) (column_ids src)"
  let ?g = "\<lambda>j. if column_ids src ! j \<in> set (column_ids dst) then [] else rel husk (col_ti (tbl_columns src ! j)) (col_data (tbl_columns src ! j) ! row)"
  have "step_releases husk src row lst st = concat (map ?g (step_src st))" if "st \<in> set ?L" for st
  proof -
    have ids: "step_ids 0 0 (column_ids dst) (column_ids src) st" using that all_steps_ids [OF assms, of 0 0] by blast
    show ?thesis
    proof (cases st)
      case (Both i j)
      with ids have "i < length (column_ids dst)" "column_ids dst ! i = column_ids src ! j" by (simp_all add: step_ids_def)
      then have "column_ids src ! j \<in> set (column_ids dst)" by (metis nth_mem)
      with Both show ?thesis by simp
    qed (use ids True in \<open>simp_all add: step_ids_def\<close>)
  qed
  then have "concat (map (step_releases husk src row lst) ?L) = concat (map (\<lambda>st. concat (map ?g (step_src st))) ?L)"
    by (intro arg_cong [where f = concat] map_cong refl)
  also have "\<dots> = concat (map ?g (concat (map step_src ?L)))" by (rule concat_map_concat)
  finally show ?thesis using True all_steps_columns [of 0 0 "column_ids dst" "column_ids src"] by (simp add: removed_values_def)
next
  case False
  have "step_releases husk src row False st = []" for st by (cases st) simp_all
  then show ?thesis using False by simp
qed

text \<open>A table without lifecycle hooks moves the values as bytes.\<close>

lemma fast_step_ok:
  assumes st: "table_static husk dst" "table_static husk src" and ty: "same_types dst src"
    and plain: "\<And>i. i < length (tbl_columns dst) \<Longrightarrow> \<not> managed husk (col_ti (tbl_columns dst ! i)) \<and> h_ctor (ti_hooks (col_ti (tbl_columns dst ! i))) = None"
      "\<And>j. j < length (tbl_columns src) \<Longrightarrow> \<not> managed husk (col_ti (tbl_columns src ! j))"
    and ids: "step_ids 0 0 (column_ids dst) (column_ids src) step"
    and dst_row: "\<And>i. i < length (tbl_columns dst) \<Longrightarrow> dst_index < length (col_data (tbl_columns dst ! i))"
    and src_row: "\<And>j. j < length (tbl_columns src) \<Longrightarrow> src_index < length (col_data (tbl_columns src ! j))"
    and upd: "cols_upd D (\<lambda>_ _. True) (tbl_columns dst) ds" "cols_upd S (\<lambda>_ _. True) (tbl_columns src) ss"
    and dis: "D \<inter> set (step_dst step) = {}" "S \<inter> set (step_src step) = {}"
  shows "\<exists>w' ds' ss'. (case step of
         Both i j \<Rightarrow>
           bindr (range_move copy_elem w (col_data (tbl_columns (with_columns dst ds) ! i)) dst_index
                    (col_data (tbl_columns (with_columns src ss) ! j)) src_index 1) (\<lambda>(w, d, s).
           Inr (w, set_col_data (with_columns dst ds) i d, set_col_data (with_columns src ss) j s))
       | _ \<Rightarrow> Inr (w, with_columns dst ds, with_columns src ss)) = Inr (w', with_columns dst ds', with_columns src ss') \<and>
    cols_upd (set (step_dst step)) (dst_moved husk dst dst_index src src_index emplace_id) ds ds' \<and>
    cols_upd (set (step_src step)) (src_moved husk dst src src_index lst) ss ss' \<and>
    releases (step_releases husk src src_index lst step) w w'"
proof (cases step)
  case (Both i j)
  have i: "i < length (tbl_columns dst)" and j: "j < length (tbl_columns src)" and eq: "column_ids dst ! i = column_ids src ! j"
    using ids Both by (auto simp: step_ids_def)
  have o: "ds ! i = tbl_columns dst ! i" "ss ! j = tbl_columns src ! j" "length ds = length (tbl_columns dst)" "length ss = length (tbl_columns src)"
    using upd dis Both i j by (auto simp: cols_upd_def)
  let ?d = "col_data (tbl_columns dst ! i)" and ?s = "col_data (tbl_columns src ! j)"
  have mv: "range_move copy_elem w ?d dst_index ?s src_index 1 = Inr (w, ?d[dst_index := ?s ! src_index], ?s)"
    using range_move_one [where f = copy_elem and w = w, OF dst_row [OF i] src_row [OF j]] by (simp add: copy_elem_def)
  have "k = j" if "k < length (tbl_columns src)" "column_ids src ! k = column_ids dst ! i" for k
    using that eq j static_distinct_ids [OF st(2)] by (simp add: nth_eq_iff_index_eq)
  moreover have m: "column_ids dst ! i \<in> set (column_ids src)" "column_ids src ! j \<in> set (column_ids dst)" using eq i j by (metis length_column_ids nth_mem)+
  ultimately have "dst_moved husk dst dst_index src src_index emplace_id i (?d[dst_index := ?s ! src_index])"
    unfolding dst_moved_def by (intro exI [of _ "?s ! src_index"]) auto
  moreover have "src_moved husk dst src src_index lst j ?s"
    using plain(2) [OF j] m(2) unfolding src_moved_def by (intro exI [of _ "?s ! src_index"]) (simp add: rel_def live_def)
  ultimately show ?thesis
    using mv cols_upd_one [of i ds "dst_moved husk dst dst_index src src_index emplace_id"]
      cols_upd_one [of j ss "src_moved husk dst src src_index lst" ?s] i j o Both
    by (intro exI [of _ w] exI [of _ "ds[i := (ds ! i)\<lparr>col_data := ?d[dst_index := ?s ! src_index]\<rparr>]"] exI [of _ "ss[j := (ss ! j)\<lparr>col_data := ?s\<rparr>]"])
      (simp add: set_col_data_def with_columns_def)
next
  case (Dst_only i)
  have i: "i < length (tbl_columns dst)" and ne: "column_ids dst ! i \<notin> set (column_ids src)" using ids Dst_only by (auto simp: step_ids_def)
  have o: "ds ! i = tbl_columns dst ! i" "length ds = length (tbl_columns dst)" using upd dis Dst_only i by (auto simp: cols_upd_def)
  have "column_ids src ! j \<noteq> column_ids dst ! i" if "j < length (tbl_columns src)" for j using that ne by (metis length_column_ids nth_mem)
  then have "dst_moved husk dst dst_index src src_index emplace_id i (col_data (tbl_columns dst ! i))"
    using plain(1) [OF i] ne unfolding dst_moved_def
    by (intro exI [of _ "col_data (tbl_columns dst ! i) ! dst_index"]) (auto simp: made_def live_def rel_def)
  then have "cols_upd {i} (dst_moved husk dst dst_index src src_index emplace_id) ds ds" using i o by (simp add: cols_upd_def)
  then show ?thesis using Dst_only by (intro exI [of _ w] exI [of _ ds] exI [of _ ss]) simp
next
  case (Src_only j)
  have j: "j < length (tbl_columns src)" and ne: "column_ids src ! j \<notin> set (column_ids dst)" using ids Src_only by (auto simp: step_ids_def)
  have o: "ss ! j = tbl_columns src ! j" "length ss = length (tbl_columns src)" using upd dis Src_only j by (auto simp: cols_upd_def)
  have "src_moved husk dst src src_index lst j (col_data (tbl_columns src ! j))"
    using plain(2) [OF j] ne unfolding src_moved_def by (intro exI [of _ "col_data (tbl_columns src ! j) ! src_index"]) (simp add: rel_def)
  then have "cols_upd {j} (src_moved husk dst src src_index lst) ss ss" using j o by (simp add: cols_upd_def)
  then show ?thesis using Src_only plain(2) [OF j] by (intro exI [of _ w] exI [of _ ds] exI [of _ ss]) (simp add: rel_def)
qed

lemma zip_columns_noop:
  assumes "\<And>i s. body (Dst_only i) s = Inr s" "\<And>j s. body (Src_only j) s = Inr s"
  shows "for_each (fst (zip_columns 0 0 ds ss)) body s = for_each (all_steps 0 0 ds ss) body s"
proof -
  have "for_each (map Dst_only xs) body s = Inr s" "for_each (map Src_only xs) body s = Inr s" for xs s by (induction xs) (simp_all add: assms)
  then show ?thesis by (simp add: all_steps_def for_each_append bindr_def split: prod.split sum.split)
qed

lemma all_steps_distinct: "distinct (concat (map step_dst (all_steps i j ds ss)))" "distinct (concat (map step_src (all_steps i j ds ss)))"
  by (simp_all add: all_steps_columns)

text \<open>All columns, on both paths.\<close>

lemma move_columns_ok:
  assumes st: "table_static husk dst" "table_static husk src" and ty: "same_types dst src" and ov: "\<And>i. ov i = None"
    and dst_row: "\<And>i. i < length (tbl_columns dst) \<Longrightarrow> dst_index < length (col_data (tbl_columns dst ! i))"
    and src_row: "\<And>j. j < length (tbl_columns src) \<Longrightarrow> src_index < length (col_data (tbl_columns src ! j)) \<and>
       live husk (col_ti (tbl_columns src ! j)) (col_data (tbl_columns src ! j) ! src_index)"
  shows "\<exists>w' ds ss. for_each (all_steps 0 0 (column_ids dst) (column_ids src)) (move_column_step ov e e dst_index src_index emplace_id lst) (w, dst, src) =
      Inr (w', with_columns dst ds, with_columns src ss) \<and>
    cols_upd {0..<length (tbl_columns dst)} (dst_moved husk dst dst_index src src_index emplace_id) (tbl_columns dst) ds \<and>
    cols_upd {0..<length (tbl_columns src)} (src_moved husk dst src src_index lst) (tbl_columns src) ss \<and>
    releases (if lst then removed_values husk dst src src_index else []) w w'"
proof -
  have so: "sorted_wrt (<) (column_ids dst)" "sorted_wrt (<) (column_ids src)" using st by (simp_all add: table_static_def)
  have c: "set (concat (map step_dst (all_steps 0 0 (column_ids dst) (column_ids src)))) = {0..<length (tbl_columns dst)}"
    "set (concat (map step_src (all_steps 0 0 (column_ids dst) (column_ids src)))) = {0..<length (tbl_columns src)}"
    by (simp_all only: all_steps_columns set_upt length_column_ids add_0)
  show ?thesis
    unfolding all_steps_released [OF so, symmetric] c [symmetric]
    by (rule steps_loop [OF all_steps_distinct]) (rule move_step_ok [OF st ty ov bspec [OF all_steps_ids [OF so]] dst_row src_row])
qed

lemma fast_move_ok:
  assumes st: "table_static husk dst" "table_static husk src" and ty: "same_types dst src"
    and plain: "\<And>i. i < length (tbl_columns dst) \<Longrightarrow> \<not> managed husk (col_ti (tbl_columns dst ! i)) \<and> h_ctor (ti_hooks (col_ti (tbl_columns dst ! i))) = None"
      "\<And>j. j < length (tbl_columns src) \<Longrightarrow> \<not> managed husk (col_ti (tbl_columns src ! j))"
    and dst_row: "\<And>i. i < length (tbl_columns dst) \<Longrightarrow> dst_index < length (col_data (tbl_columns dst ! i))"
    and src_row: "\<And>j. j < length (tbl_columns src) \<Longrightarrow> src_index < length (col_data (tbl_columns src ! j))"
  shows "\<exists>w' ds ss. flecs_table_fast_move w dst dst_index src src_index = Inr (w', with_columns dst ds, with_columns src ss) \<and>
    cols_upd {0..<length (tbl_columns dst)} (dst_moved husk dst dst_index src src_index emplace_id) (tbl_columns dst) ds \<and>
    cols_upd {0..<length (tbl_columns src)} (src_moved husk dst src src_index lst) (tbl_columns src) ss \<and>
    releases (if lst then removed_values husk dst src src_index else []) w w'"
proof -
  have so: "sorted_wrt (<) (column_ids dst)" "sorted_wrt (<) (column_ids src)" using st by (simp_all add: table_static_def)
  have c: "set (concat (map step_dst (all_steps 0 0 (column_ids dst) (column_ids src)))) = {0..<length (tbl_columns dst)}"
    "set (concat (map step_src (all_steps 0 0 (column_ids dst) (column_ids src)))) = {0..<length (tbl_columns src)}"
    by (simp_all only: all_steps_columns set_upt length_column_ids add_0)
  let ?body = "\<lambda>step (w, dst, src). case step of
         Both i j \<Rightarrow>
           bindr (range_move copy_elem w (col_data (tbl_columns dst ! i)) dst_index (col_data (tbl_columns src ! j)) src_index 1) (\<lambda>(w, d, s).
           Inr (w, set_col_data dst i d, set_col_data src j s))
       | _ \<Rightarrow> Inr (w, dst, src)"
  have z: "for_each (fst (zip_columns 0 0 (column_ids dst) (column_ids src))) ?body (w, dst, src) =
      for_each (all_steps 0 0 (column_ids dst) (column_ids src)) ?body (w, dst, src)" by (rule zip_columns_noop) (simp_all split: prod.split)
  show ?thesis
    unfolding flecs_table_fast_move_def z all_steps_released [OF so, symmetric] c [symmetric]
    apply (rule steps_loop [OF all_steps_distinct])
    unfolding prod.case
    by (rule fast_step_ok [OF st ty plain bspec [OF all_steps_ids [OF so]] dst_row src_row])
qed

lemma column_ids_bs [simp]: "column_ids (dst\<lparr>tbl_bs_columns := bss\<rparr>) = column_ids dst"
  unfolding column_ids_def by (simp add: flecs_column_id_def)

lemma move_bs_columns [simp]:
  "dst_moved husk (dst\<lparr>tbl_bs_columns := bss\<rparr>) = dst_moved husk dst" "src_moved husk (dst\<lparr>tbl_bs_columns := bss\<rparr>) = src_moved husk dst"
  "removed_values husk (dst\<lparr>tbl_bs_columns := bss\<rparr>) = removed_values husk dst" "same_types (dst\<lparr>tbl_bs_columns := bss\<rparr>) src = same_types dst src"
  by (simp_all add: dst_moved_def src_moved_def removed_values_def same_types_def fun_eq_iff)

lemma move_specI:
  assumes "cols_upd {0..<length (tbl_columns dst)} (dst_moved husk dst dst_index src src_index emplace_id) (tbl_columns dst) ds"
    "cols_upd {0..<length (tbl_columns src)} (src_moved husk dst src src_index lst) (tbl_columns src) ss"
    "length bss = length (tbl_bs_columns dst)"
    "\<forall>i < length bss. bs_wf (bss ! i) \<and> bs_count (bss ! i) = tbl_count dst \<and> bits_moved dst dst_index src src_index i (bs_bits (bss ! i))"
  shows "move_spec husk dst dst_index src src_index emplace_id lst (with_columns (dst\<lparr>tbl_bs_columns := bss\<rparr>) ds) (with_columns src ss)"
  using assms unfolding move_spec_def cols_upd_def by (simp add: same_shape_def with_columns_def toggle_bits_def)

lemma table_move_ok:
  assumes st: "table_static husk dst" "table_static husk src" and rows: "table_rows husk n dst" "table_rows husk m src"
    and idx: "dst_index < tbl_count dst" "src_index < tbl_count src" "src_index < m"
    and ty: "same_types dst src" and ov: "\<And>i. ov i = None" and lock: "tbl_lock dst = 0" "tbl_lock src = 0"
  defines "lst \<equiv> tbl_count src = src_index + 1"
  shows "\<exists>w' dst' src'. flecs_table_move w ov e e dst dst_index src src_index emplace_id = Inr (w', dst', src') \<and>
    move_spec husk dst dst_index src src_index emplace_id lst dst' src' \<and>
    releases (if lst then removed_values husk dst src src_index else []) w w'"
proof -
  note R = table_rowsD [OF rows(1)] and R' = table_rowsD [OF rows(2)]
  have dst_row: "dst_index < length (col_data (tbl_columns dst ! i))" if "i < length (tbl_columns dst)" for i using that R(2,4) idx(1) by simp
  have src_row: "src_index < length (col_data (tbl_columns src ! j)) \<and> live husk (col_ti (tbl_columns src ! j)) (col_data (tbl_columns src ! j) ! src_index)"
    if "j < length (tbl_columns src)" for j using that R'(2,4,5) idx(2,3) by simp
  show ?thesis
  proof (cases "has_flag (tbl_flags dst OR tbl_flags src) (EcsTableIsComplex OR EcsTableHasIsA)")
    case False
    then have f: "\<not> has_flag (tbl_flags dst) EcsTableIsComplex" "\<not> has_flag (tbl_flags src) EcsTableIsComplex"
      by (simp_all add: has_flag_or has_flag_or_left)
    note P = simple_table [OF st(1) f(1)] and P' = simple_table [OF st(2) f(2)]
    have "\<exists>w' ds ss. flecs_table_fast_move w dst dst_index src src_index = Inr (w', with_columns dst ds, with_columns src ss) \<and>
      cols_upd {0..<length (tbl_columns dst)} (dst_moved husk dst dst_index src src_index emplace_id) (tbl_columns dst) ds \<and>
      cols_upd {0..<length (tbl_columns src)} (src_moved husk dst src src_index lst) (tbl_columns src) ss \<and>
      releases (if lst then removed_values husk dst src src_index else []) w w'"
      using P(2-) P'(2-) dst_row src_row by (intro fast_move_ok [OF st ty]) auto
    then obtain w' ds ss where m: "flecs_table_fast_move w dst dst_index src src_index = Inr (w', with_columns dst ds, with_columns src ss)"
      "cols_upd {0..<length (tbl_columns dst)} (dst_moved husk dst dst_index src src_index emplace_id) (tbl_columns dst) ds"
      "cols_upd {0..<length (tbl_columns src)} (src_moved husk dst src src_index lst) (tbl_columns src) ss"
      "releases (if lst then removed_values husk dst src src_index else []) w w'" by blast
    have "dst\<lparr>tbl_bs_columns := []\<rparr> = dst" using P(1) by (cases dst) simp
    moreover have "move_spec husk dst dst_index src src_index emplace_id lst (with_columns (dst\<lparr>tbl_bs_columns := []\<rparr>) ds) (with_columns src ss)"
      by (rule move_specI [OF m(2,3)]) (simp_all add: P(1))
    ultimately show ?thesis
      using m(1,4) False lock by (intro exI [of _ w'] exI [of _ "with_columns dst ds"] exI [of _ "with_columns src ss"]) (simp add: flecs_table_move_def)
  next
    case True
    obtain bss where b: "flecs_table_move_bitset_columns dst dst_index src src_index 1 False = Inr (dst\<lparr>tbl_bs_columns := bss\<rparr>, src)"
      "length bss = length (tbl_bs_columns dst)"
      "\<forall>i < length bss. bs_wf (bss ! i) \<and> bs_count (bss ! i) = tbl_count dst \<and> bits_moved dst dst_index src src_index i (bs_bits (bss ! i))"
      using move_bitsets_ok [OF st rows idx(1,2)] by blast
    let ?dst = "dst\<lparr>tbl_bs_columns := bss\<rparr>"
    have st1: "table_static husk ?dst" by (rule same_shape_static [OF _ st(1)]) (simp add: same_shape_def b(2))
    obtain w' ds ss where m: "for_each (all_steps 0 0 (column_ids dst) (column_ids src))
        (move_column_step ov e e dst_index src_index emplace_id lst) (w, ?dst, src) = Inr (w', with_columns ?dst ds, with_columns src ss)"
      "cols_upd {0..<length (tbl_columns dst)} (dst_moved husk dst dst_index src src_index emplace_id) (tbl_columns dst) ds"
      "cols_upd {0..<length (tbl_columns src)} (src_moved husk dst src src_index lst) (tbl_columns src) ss"
      "releases (if lst then removed_values husk dst src src_index else []) w w'"
    proof -
      have "same_types ?dst src" "dst_index < length (col_data (tbl_columns ?dst ! i))" if "i < length (tbl_columns ?dst)" for i
        using ty dst_row that by simp_all
      then have "\<exists>w' ds ss. for_each (all_steps 0 0 (column_ids ?dst) (column_ids src)) (move_column_step ov e e dst_index src_index emplace_id lst) (w, ?dst, src) =
          Inr (w', with_columns ?dst ds, with_columns src ss) \<and>
        cols_upd {0..<length (tbl_columns ?dst)} (dst_moved husk ?dst dst_index src src_index emplace_id) (tbl_columns ?dst) ds \<and>
        cols_upd {0..<length (tbl_columns src)} (src_moved husk ?dst src src_index lst) (tbl_columns src) ss \<and>
        releases (if lst then removed_values husk ?dst src src_index else []) w w'"
        using ty by (intro move_columns_ok [OF st1 st(2) _ ov _ src_row]) simp_all
      moreover have "tbl_columns ?dst = tbl_columns dst" by simp
      ultimately show ?thesis unfolding column_ids_bs move_bs_columns by (elim exE conjE) (rule that, simp_all only:)
    qed
    obtain steps k l where z: "zip_columns 0 0 (column_ids dst) (column_ids src) = (steps, k, l)" by (cases "zip_columns 0 0 (column_ids dst) (column_ids src)") auto
    let ?body = "move_column_step ov e e dst_index src_index emplace_id lst"
    have "bindr (for_each steps ?body (w, ?dst, src)) (\<lambda>s. bindr (for_each (map Dst_only [k..<length (tbl_columns dst)]) ?body s) (\<lambda>s.
        for_each (map Src_only [l..<length (tbl_columns src)]) ?body s)) = Inr (w', with_columns ?dst ds, with_columns src ss)"
      using m(1) unfolding all_steps_def z by (simp add: for_each_append)
    then have "flecs_table_move w ov e e dst dst_index src src_index emplace_id = Inr (w', with_columns ?dst ds, with_columns src ss)"
      using True lock b(1) z by (simp add: flecs_table_move_def Let_def lst_def ecs_table_count_def)
    with move_specI [OF m(2,3) b(2,3)] m(4) show ?thesis by blast
  qed
qed

end
