(* ===== verification/EntityStorage.thy ===== *)
theory EntityStorage
  imports Table_Move
begin

text \<open>
  Entities in tables: the operations of \<open>src/entity.c\<close> that create an entity in a table, move it to another one and
  delete it.  Tables live at addresses of \<open>w_tables\<close>; the root table, of entities without components, is \<open>store_root\<close>.
  Observers and the storage of sparse components are reached through \<open>flecs_actions_*\<close>, which are entries of
  \<open>w_actions\<close> here.  Deferring (\<open>flecs_defer_*\<close>), the journal and performance traces do not touch the storage.
\<close>

section \<open>Tables of a world\<close>

definition store_root :: nat where "store_root = 0"

definition EcsEntityIsTraversable :: u32 where "EcsEntityIsTraversable = 0x20000000"
definition EcsTableHasDontFragment :: u32 where "EcsTableHasDontFragment = 0x400000"

definition get_table :: "'v ecs_world_t \<Rightarrow> nat \<Rightarrow> 'v ecs_table_t res" where
  "get_table w p = (case w_tables w p of None \<Rightarrow> Inl Undefined | Some t \<Rightarrow> Inr t)"

definition put_table :: "'v ecs_world_t \<Rightarrow> nat \<Rightarrow> 'v ecs_table_t \<Rightarrow> 'v ecs_world_t" where
  "put_table w p t = w\<lparr>w_tables := (w_tables w)(p := Some t)\<rparr>"

definition log_action :: "'v ecs_world_t \<Rightarrow> storage_action \<Rightarrow> nat \<Rightarrow> nat \<Rightarrow> 'v ecs_world_t" where
  "log_action w a p row = w\<lparr>w_actions := w_actions w @ [(a, p, row)]\<rparr>"

text \<open>\<open>r->table = p; r->row = ECS_ROW_TO_RECORD(row, r->row & ECS_ROW_FLAGS_MASK)\<close>.\<close>

definition record_place :: "'v ecs_world_t \<Rightarrow> u32 \<Rightarrow> nat \<Rightarrow> nat \<Rightarrow> 'v ecs_world_t res" where
  "record_place w r p row =
     bindr (record_modify (w_index w) r (\<lambda>rec. rec\<lparr>rec_table := Some p,
       rec_row := ECS_ROW_TO_RECORD (word_of_nat row) (rec_row rec AND ECS_ROW_FLAGS_MASK)\<rparr>)) (\<lambda>index.
     Inr (w\<lparr>w_index := index\<rparr>))"

section \<open>Creating\<close>

definition flecs_new_entity ::
  "(nat \<Rightarrow> 'v option) \<Rightarrow> 'v ecs_world_t \<Rightarrow> u64 \<Rightarrow> u32 \<Rightarrow> nat \<Rightarrow> bool \<Rightarrow> 'v ecs_world_t res" where
  "flecs_new_entity ov w entity r table ctor =
     bindr (record_modify (w_index w) r (\<lambda>rec. rec\<lparr>rec_table := Some store_root\<rparr>)) (\<lambda>index.
     let w = w\<lparr>w_index := index\<rparr> in
     bindr (get_table w table) (\<lambda>t.
     bindr (flecs_table_append w t ov entity ctor True) (\<lambda>(w, t).
     let w = put_table w table t; row = ecs_table_count t - 1 in
     bindr (record_place w r table row) (\<lambda>w.
     bindr (ecs_assert (ecs_table_count t > row) ECS_INTERNAL_ERROR) (\<lambda>_.
     let w = log_action w Actions_new table row in
     bindr (record_read (w_index w) r) (\<lambda>rec.
     bindr (ecs_assert (rec_table rec = Some table) ECS_INTERNAL_ERROR) (\<lambda>_.
     Inr w)))))))"

definition flecs_add_to_root_table :: "(nat \<Rightarrow> 'v option) \<Rightarrow> 'v ecs_world_t \<Rightarrow> u64 \<Rightarrow> 'v ecs_world_t res" where
  "flecs_add_to_root_table ov w e =
     bindr (flecs_entity_index_get (w_index w) e) (\<lambda>r.
     bindr (record_read (w_index w) r) (\<lambda>rec.
     bindr (ecs_assert (rec_table rec = None) ECS_INTERNAL_ERROR) (\<lambda>_.
     bindr (get_table w store_root) (\<lambda>t.
     let row = ecs_table_count t in
     bindr (flecs_table_append w t ov e False False) (\<lambda>(w, t).
     record_place (put_table w store_root t) r store_root row)))))"

definition ecs_new :: "(nat \<Rightarrow> 'v option) \<Rightarrow> 'v ecs_world_t \<Rightarrow> ('v ecs_world_t \<times> u64) res" where
  "ecs_new ov w =
     bindr (flecs_new_id (w_index w)) (\<lambda>(index, e).
     bindr (flecs_add_to_root_table ov (w\<lparr>w_index := index\<rparr>) e) (\<lambda>w.
     Inr (w, e)))"

text \<open>The check for multithreaded mode is left out: one thread runs.\<close>

definition ecs_make_alive :: "(nat \<Rightarrow> 'v option) \<Rightarrow> 'v ecs_world_t \<Rightarrow> u64 \<Rightarrow> 'v ecs_world_t res" where
  "ecs_make_alive ov w entity =
     bindr (ecs_assert (entity \<noteq> 0) ECS_INVALID_PARAMETER) (\<lambda>_.
     bindr (ecs_get_alive (w_index w) (to64 (lo32 entity))) (\<lambda>current.
     if current = entity then Inr w
     else
       bindr (ecs_assert (current = 0) ECS_INVALID_OPERATION) (\<lambda>_.
       bindr (flecs_entity_index_make_alive (w_index w) entity) (\<lambda>index.
       bindr (flecs_entity_index_ensure index entity) (\<lambda>(index, r).
       bindr (record_read index r) (\<lambda>rec.
       bindr (ecs_assert (rec_table rec = None) ECS_INTERNAL_ERROR) (\<lambda>_.
       let w = w\<lparr>w_index := index\<rparr> in
       bindr (get_table w store_root) (\<lambda>t.
       let row = ecs_table_count t in
       bindr (flecs_table_append w t ov entity False False) (\<lambda>(w, t).
       record_place (put_table w store_root t) r store_root row)))))))))"

definition ecs_new_w_table :: "(nat \<Rightarrow> 'v option) \<Rightarrow> 'v ecs_world_t \<Rightarrow> nat \<Rightarrow> ('v ecs_world_t \<times> u64) res" where
  "ecs_new_w_table ov w table =
     bindr (flecs_new_id (w_index w)) (\<lambda>(index, entity).
     let w = w\<lparr>w_index := index\<rparr> in
     bindr (flecs_entity_index_get (w_index w) entity) (\<lambda>r.
     bindr (flecs_new_entity ov w entity r table True) (\<lambda>w.
     Inr (w, entity))))"

section \<open>Moving\<close>

definition flecs_move_entity ::
  "(nat \<Rightarrow> 'v option) \<Rightarrow> 'v ecs_world_t \<Rightarrow> u64 \<Rightarrow> u32 \<Rightarrow> nat \<Rightarrow> u64 \<Rightarrow> 'v ecs_world_t res" where
  "flecs_move_entity ov w entity r dst_table emplace_id =
     bindr (record_read (w_index w) r) (\<lambda>rec.
     let src_row = unat (ECS_RECORD_TO_ROW (rec_row rec)) in
     case rec_table rec of
       None \<Rightarrow> Inl (Abort ECS_INTERNAL_ERROR)
     | Some src_table \<Rightarrow>
         bindr (ecs_assert (src_table \<noteq> dst_table) ECS_INTERNAL_ERROR) (\<lambda>_.
         bindr (get_table w src_table) (\<lambda>src.
         bindr (ecs_assert (ecs_table_count src > src_row) ECS_INTERNAL_ERROR) (\<lambda>_.
         bindr (flecs_entity_index_get (w_index w) entity) (\<lambda>r'.
         bindr (ecs_assert (r = r') ECS_INTERNAL_ERROR) (\<lambda>_.
         bindr (get_table w dst_table) (\<lambda>dst.
         let dst_row = ecs_table_count dst in
         bindr (flecs_table_append w dst ov entity False False) (\<lambda>(w, dst).
         let w = log_action w Actions_move_remove src_table src_row in
         bindr (flecs_table_move w ov entity entity dst dst_row src src_row emplace_id) (\<lambda>(w, dst, src).
         bindr (record_place (put_table w dst_table dst) r dst_table dst_row) (\<lambda>w.
         bindr (flecs_table_delete src_table w src src_row False) (\<lambda>(w, src).
         let w = log_action (put_table w src_table src) Actions_move_add dst_table dst_row in
         bindr (record_read (w_index w) r) (\<lambda>rec.
         bindr (ecs_assert (rec_table rec = Some dst_table) ECS_INTERNAL_ERROR) (\<lambda>_.
         Inr w)))))))))))))"

definition commit_traversable :: "'v ecs_world_t \<Rightarrow> nat \<Rightarrow> int \<Rightarrow> 'v ecs_world_t res" where
  "commit_traversable w p value =
     bindr (get_table w p) (\<lambda>t. bindr (flecs_table_traversable_add t value) (\<lambda>t. Inr (put_table w p t)))"

text \<open>
  If the entity is traversable the source also marks the component monitors of the added and removed ids, for query caches.
\<close>

definition flecs_commit ::
  "(nat \<Rightarrow> 'v option) \<Rightarrow> 'v ecs_world_t \<Rightarrow> u64 \<Rightarrow> u32 \<Rightarrow> nat \<Rightarrow> u64 \<Rightarrow> 'v ecs_world_t res" where
  "flecs_commit ov w entity r dst_table emplace_id =
     bindr (record_read (w_index w) r) (\<lambda>rec.
     let is_trav = (if rec_row rec AND EcsEntityIsTraversable \<noteq> 0 then 1 else 0) in
     case rec_table rec of
       None \<Rightarrow> Inl (Abort ECS_INTERNAL_ERROR)
     | Some src_table \<Rightarrow>
         if src_table = dst_table then
           bindr (get_table w src_table) (\<lambda>t.
           let row = unat (ECS_RECORD_TO_ROW (rec_row rec)) in
           Inr (if has_flag (tbl_flags t) EcsTableHasDontFragment
                then log_action (log_action w Actions_move_add src_table row) Actions_move_remove src_table row else w))
         else
           bindr (commit_traversable w dst_table is_trav) (\<lambda>w.
           bindr (flecs_move_entity ov w entity r dst_table emplace_id) (\<lambda>w.
           commit_traversable w src_table (- is_trav))))"

text \<open>\<open>ecs_clear\<close> moves the entity to the root table; non-fragmenting components are stored elsewhere.\<close>

definition ecs_clear :: "(nat \<Rightarrow> 'v option) \<Rightarrow> 'v ecs_world_t \<Rightarrow> u64 \<Rightarrow> 'v ecs_world_t res" where
  "ecs_clear ov w entity =
     bindr (ecs_is_valid (w_index w) entity) (\<lambda>valid.
     bindr (ecs_assert valid ECS_INVALID_PARAMETER) (\<lambda>_.
     bindr (flecs_entity_index_get (w_index w) entity) (\<lambda>r.
     bindr (record_read (w_index w) r) (\<lambda>rec.
     case rec_table rec of
       None \<Rightarrow> Inl (Abort ECS_INTERNAL_ERROR)
     | Some table \<Rightarrow>
         bindr (get_table w table) (\<lambda>t.
         if tbl_type t \<noteq> [] then flecs_commit ov w entity r store_root 0 else Inr w)))))"

section \<open>Deleting\<close>

text \<open>
  \<open>has_panic\<close>: the entity has the pair \<open>(OnDelete, Panic)\<close>; \<open>delete_locked\<close>: a query still uses it.  \<open>on_delete\<close> is what the cleanup of relationships and the merge of
  deferred operations do to the world; they run only for entities with row flags.
\<close>

definition ecs_delete ::
  "bool \<Rightarrow> bool \<Rightarrow> ('v ecs_world_t \<Rightarrow> 'v ecs_world_t res) \<Rightarrow> 'v ecs_world_t \<Rightarrow> u64 \<Rightarrow> 'v ecs_world_t res" where
  "ecs_delete has_panic delete_locked on_delete w entity =
     bindr (ecs_assert (entity \<noteq> 0) ECS_INVALID_PARAMETER) (\<lambda>_.
     bindr (flecs_entity_index_try_get (w_index w) entity) (\<lambda>found.
     case found of
       None \<Rightarrow> Inr w
     | Some r \<Rightarrow>
         bindr (ecs_assert (\<not> has_panic) ECS_CONSTRAINT_VIOLATED) (\<lambda>_.
         bindr (record_read (w_index w) r) (\<lambda>rec.
         let row_flags = ECS_RECORD_TO_ROW_FLAGS (rec_row rec) in
         bindr (if row_flags \<noteq> 0 then on_delete w else Inr w) (\<lambda>w.
         bindr (ecs_assert (\<not> delete_locked) ECS_INVALID_OPERATION) (\<lambda>_.
         bindr (record_read (w_index w) r) (\<lambda>rec.
         bindr (case rec_table rec of
                  None \<Rightarrow> Inr w
                | Some p \<Rightarrow>
                    let row = unat (ECS_RECORD_TO_ROW (rec_row rec)) in
                    bindr (get_table w p) (\<lambda>t.
                    bindr (flecs_table_delete p (log_action w Actions_move_remove p row) t row True) (\<lambda>(w, t).
                    bindr (if row_flags AND EcsEntityIsTraversable \<noteq> 0 then flecs_table_traversable_add t (- 1) else Inr t) (\<lambda>t.
                    Inr (put_table w p t))))) (\<lambda>w.
         bindr (flecs_entity_index_remove (w_index w) entity) (\<lambda>index.
         Inr (w\<lparr>w_index := index\<rparr>))))))))))"

end
