(* ===== verification/EntityStorage_Facts.thy ===== *)
theory EntityStorage_Facts
  imports EntityStorage
begin

text \<open>
  The storage invariant: records and table rows point at each other.  Creating, moving and deleting an entity keep it, and
  act on the map from entities and components to values as an entity component system should: other entities keep their
  values, shared values go along, added components are constructed, removed values are released exactly once.
\<close>

section \<open>Records of alive entities\<close>

lemma alive_get:
  assumes "eis_inv index" "e \<in> alive_set index"
  shows "flecs_entity_index_get index e = Inr (lo32 e)" "record_read index (lo32 e) = Inr (record_of index (lo32 e))"
    "has_page index (lo32 e)"
proof -
  note D = eis_invD [OF assms(1)]
  have a: "0 < pos_of index (lo32 e)" "pos_of index (lo32 e) < eis_alive_count index" "dense_ids index ! pos_of index (lo32 e) = e"
    using assms(2) by (simp_all add: alive_set_iff [OF assms(1)])
  show p: "has_page index (lo32 e)" by (rule has_page_pos [OF a(1)])
  show r: "record_read index (lo32 e) = Inr (record_of index (lo32 e))" using D(1) p by simp
  show "flecs_entity_index_get index e = Inr (lo32 e)"
    using a D r by (simp add: flecs_entity_index_get_def)
qed

lemma alive_lo32:
  assumes "eis_inv index" "a \<in> alive_set index" "b \<in> alive_set index" "lo32 a = lo32 b"
  shows "a = b"
  using assms by (auto simp: alive_set_iff [OF assms(1)])

lemma index_upd:
  assumes inv: "eis_inv index" and e: "e \<in> alive_set index" and f: "\<And>r. rec_dense (f r) = rec_dense r"
  shows "record_modify index (lo32 e) f = Inr (record_upd index (lo32 e) f)"
    "eis_inv (record_upd index (lo32 e) f)" "alive_set (record_upd index (lo32 e) f) = alive_set index"
    "record_of (record_upd index (lo32 e) f) = (record_of index)(lo32 e := f (record_of index (lo32 e)))"
proof -
  note D = eis_invD [OF inv] and p = alive_get(3) [OF inv e]
  show "record_modify index (lo32 e) f = Inr (record_upd index (lo32 e) f)" using D(1) p by simp
  show r: "record_of (record_upd index (lo32 e) f) = (record_of index)(lo32 e := f (record_of index (lo32 e)))"
    using D(1) p by simp
  have pos: "pos_of (record_upd index (lo32 e) f) c = pos_of index c" for c by (simp add: r f)
  have "0 < pos_of index (lo32 e)" "pos_of index (lo32 e) < eis_alive_count index"
    using e by (simp_all add: alive_set_iff [OF inv])
  then have "rec_table (record_of (record_upd index (lo32 e) f) c) = None"
    if "pos_of (record_upd index (lo32 e) f) c = 0 \<or> eis_alive_count index \<le> pos_of (record_upd index (lo32 e) f) c" for c
    using that inv unfolding pos by (cases "c = lo32 e") (auto simp: eis_inv_def r)
  then show "eis_inv (record_upd index (lo32 e) f)"
    using D p unfolding eis_inv_def eis_core_def pos by simp
  show "alive_set (record_upd index (lo32 e) f) = alive_set index" by (simp add: alive_set_def)
qed

text \<open>Rows are stored in the low 28 bits of a record.\<close>

lemma record_row:
  assumes "row < 2 ^ 28"
  shows "unat (ECS_RECORD_TO_ROW (ECS_ROW_TO_RECORD (word_of_nat row) (x AND ECS_ROW_FLAGS_MASK))) = row"
proof -
  have "ECS_RECORD_TO_ROW (ECS_ROW_TO_RECORD (word_of_nat row) (x AND ECS_ROW_FLAGS_MASK)) = word_of_nat row AND ECS_ROW_MASK"
    unfolding ECS_RECORD_TO_ROW_def ECS_ROW_TO_RECORD_def ECS_ROW_FLAGS_MASK_def
    by (auto simp: bit_eq_iff bit_and_iff bit_or_iff bit_not_iff)
  also have "\<dots> = (take_bit 28 (word_of_nat row) :: u32)"
    by (simp add: ECS_ROW_MASK_def take_bit_eq_mask mask_eq_exp_minus_1)
  finally show ?thesis using assms by (simp add: unsigned_take_bit_eq unat_of_nat take_bit_nat_eq_self)
qed

lemma record_flags:
  assumes "row < 2 ^ 28"
  shows "ECS_RECORD_TO_ROW_FLAGS (ECS_ROW_TO_RECORD (word_of_nat row) (x AND ECS_ROW_FLAGS_MASK)) = ECS_RECORD_TO_ROW_FLAGS x"
proof -
  have m: "ECS_ROW_MASK = mask 28" by (simp add: ECS_ROW_MASK_def mask_eq_exp_minus_1)
  have b: "bit ECS_ROW_FLAGS_MASK n \<longleftrightarrow> 28 \<le> n" if "n < 32" for n
    using that unfolding ECS_ROW_FLAGS_MASK_def m bit_not_iff bit_mask_iff by auto
  have "\<not> bit (word_of_nat row :: u32) n" if "28 \<le> n" for n
  proof -
    have "take_bit 28 row = row" using assms by (simp add: take_bit_nat_eq_self)
    then have "\<not> bit row n" using that by (metis bit_take_bit_iff not_less)
    then show ?thesis by (simp add: bit_of_nat_iff)
  qed
  then show ?thesis
    unfolding ECS_RECORD_TO_ROW_FLAGS_def ECS_ROW_TO_RECORD_def
    by (intro bit_word_eqI) (auto simp: bit_and_iff bit_or_iff b)
qed

section \<open>The invariant\<close>

text \<open>Where the record of an entity says it is.\<close>

definition located :: "ecs_entity_index_t \<Rightarrow> u64 \<Rightarrow> (nat \<times> nat) option" where
  "located index e = (case rec_table (record_of index (lo32 e)) of None \<Rightarrow> None
     | Some p \<Rightarrow> Some (p, unat (ECS_RECORD_TO_ROW (rec_row (record_of index (lo32 e))))))"

definition at_row :: "(nat \<Rightarrow> 'v ecs_table_t option) \<Rightarrow> u64 \<Rightarrow> nat \<Rightarrow> nat \<Rightarrow> bool" where
  "at_row tables e p i \<longleftrightarrow> (\<exists>t. tables p = Some t \<and> i < tbl_count t \<and> entity_list t ! i = e)"

definition rows_rel :: "u64 set \<Rightarrow> (u64 \<Rightarrow> (nat \<times> nat) option) \<Rightarrow> (nat \<Rightarrow> 'v ecs_table_t option) \<Rightarrow> bool" where
  "rows_rel A L tables \<longleftrightarrow> (\<forall>e p i. at_row tables e p i \<longleftrightarrow> e \<in> A \<and> L e = Some (p, i))"

definition rows_inv :: "ecs_entity_index_t \<Rightarrow> (nat \<Rightarrow> 'v ecs_table_t option) \<Rightarrow> bool" where
  "rows_inv index tables \<longleftrightarrow> rows_rel (alive_set index) (located index) tables"

definition storage_inv :: "('v \<Rightarrow> bool) \<Rightarrow> 'v ecs_world_t \<Rightarrow> bool" where
  "storage_inv husk w \<longleftrightarrow> eis_inv (w_index w) \<and> rows_inv (w_index w) (w_tables w) \<and>
     (\<forall>p t. w_tables w p = Some t \<longrightarrow> table_wf husk (tbl_count t) t \<and> tbl_count t \<le> 2 ^ 28) \<and>
     (\<forall>p q t u. w_tables w p = Some t \<longrightarrow> w_tables w q = Some u \<longrightarrow> same_types t u)"

text \<open>The value of a component of an entity, the specification of \<open>ecs_get\<close>: \<open>None\<close> if it has no such component.\<close>

definition column_of :: "'v ecs_table_t \<Rightarrow> u64 \<Rightarrow> nat option" where
  "column_of t c = (if c \<in> set (column_ids t) then Some (length (takeWhile (\<lambda>x. x \<noteq> c) (column_ids t))) else None)"

definition cell_in :: "'v ecs_table_t \<Rightarrow> nat \<Rightarrow> u64 \<Rightarrow> 'v cell option" where
  "cell_in t row c = map_option (\<lambda>i. col_data (tbl_columns t ! i) ! row) (column_of t c)"

definition value_of :: "'v ecs_world_t \<Rightarrow> u64 \<Rightarrow> u64 \<Rightarrow> 'v cell option" where
  "value_of w e c = (case located (w_index w) e of None \<Rightarrow> None | Some (p, row) \<Rightarrow>
     (case w_tables w p of None \<Rightarrow> None | Some t \<Rightarrow> cell_in t row c))"

lemma storage_invD:
  assumes "storage_inv husk w"
  shows "eis_inv (w_index w)" "rows_inv (w_index w) (w_tables w)" "w_tables w p = Some t \<Longrightarrow> table_wf husk (tbl_count t) t"
    "w_tables w p = Some t \<Longrightarrow> tbl_count t \<le> 2 ^ 28"
    "w_tables w p = Some t \<Longrightarrow> w_tables w q = Some u \<Longrightarrow> same_types t u"
  using assms by (auto simp: storage_inv_def)

lemma column_of_Some:
  assumes "column_of t c = Some i"
  shows "i < length (tbl_columns t)" "column_ids t ! i = c"
proof -
  have m: "c \<in> set (column_ids t)" and i: "i = length (takeWhile (\<lambda>x. x \<noteq> c) (column_ids t))"
    using assms by (auto simp: column_of_def split: if_splits)
  have l: "i < length (column_ids t)"
    unfolding i using m by (metis (mono_tags, lifting) length_takeWhile_le nat_less_le takeWhile_eq_all_conv takeWhile_eq_take take_all_iff)
  then show "i < length (tbl_columns t)" by simp
  show "column_ids t ! i = c" using nth_length_takeWhile [of "\<lambda>x. x \<noteq> c" "column_ids t"] l i by simp
qed

lemma column_of_iff:
  assumes "distinct (column_ids t)"
  shows "column_of t c = Some i \<longleftrightarrow> i < length (tbl_columns t) \<and> column_ids t ! i = c"
proof
  assume r: "i < length (tbl_columns t) \<and> column_ids t ! i = c"
  then have "c \<in> set (column_ids t)" by (metis length_column_ids nth_mem)
  then obtain j where j: "column_of t c = Some j" by (simp add: column_of_def)
  have "j < length (column_ids t)" "i < length (column_ids t)" "column_ids t ! j = column_ids t ! i"
    using column_of_Some [OF j] r by simp_all
  with nth_eq_iff_index_eq [OF assms] j show "column_of t c = Some i" by blast
qed (auto dest: column_of_Some)

lemma column_of_None: "column_of t c = None \<longleftrightarrow> c \<notin> set (column_ids t)"
  by (simp add: column_of_def)

lemma same_shape_column_of: "same_shape t t' \<Longrightarrow> column_of t' = column_of t"
  by (simp add: column_of_def same_shape_ids fun_eq_iff)

text \<open>How the operations on tables act on cells.\<close>

lemma append_column_of: "append_spec husk t e construct t' \<Longrightarrow> column_of t' = column_of t"
  using same_shape_column_of by (auto simp: append_spec_def)

lemma delete_column_of: "delete_spec husk t row t' \<Longrightarrow> column_of t' = column_of t"
  using same_shape_column_of by (auto simp: delete_spec_def)

lemma append_cells:
  assumes "append_spec husk t e construct t'" "i < tbl_count t" "table_rows husk n t"
  shows "cell_in t' i c = cell_in t i c"
proof (cases "column_of t c")
  case None
  then show ?thesis using append_column_of [OF assms(1)] by (simp add: cell_in_def)
next
  case (Some k)
  note k = column_of_Some [OF Some]
  have "take (tbl_count t) (col_data (tbl_columns t' ! k)) = take (tbl_count t) (col_data (tbl_columns t ! k))"
    using assms(1) k(1) by (simp add: append_spec_def column_cells_def)
  from nth_take_eq [OF this assms(2)] show ?thesis
    using Some append_column_of [OF assms(1)] by (simp add: cell_in_def)
qed

lemma delete_cells:
  assumes d: "delete_spec husk t row t'" and rows: "table_rows husk n t" and row: "row < tbl_count t" and i: "i < tbl_count t - 1"
  shows "cell_in t' i c = cell_in t (if i = row then tbl_count t - 1 else i) c"
proof (cases "column_of t c")
  case None
  then show ?thesis using delete_column_of [OF d] by (simp add: cell_in_def)
next
  case (Some k)
  note k = column_of_Some [OF Some] and R = table_rowsD [OF rows]
  have cs: "column_cells t' k = swap_remove row (column_cells t k)" using d k(1) by (simp add: delete_spec_def)
  have len: "length (column_cells t k) = tbl_count t" using R(2) R(4) [OF k(1)] by (simp add: column_cells_def)
  then have ne: "column_cells t k \<noteq> []" using row by auto
  have "col_data (tbl_columns t' ! k) ! i = column_cells t' k ! i" using d i by (simp add: column_cells_def delete_spec_def)
  also have "\<dots> = (if i = row then last (column_cells t k) else column_cells t k ! i)"
    unfolding cs using row i len by (simp add: nth_swap_remove)
  also have "\<dots> = col_data (tbl_columns t ! k) ! (if i = row then tbl_count t - 1 else i)"
    using len i ne by (simp add: last_conv_nth) (simp add: column_cells_def)
  finally show ?thesis using Some delete_column_of [OF d] by (simp add: cell_in_def)
qed

section \<open>The tables of a move\<close>

lemma move_column_of:
  assumes "move_spec husk dst n src row emplace_id lst dst' src'"
  shows "column_of dst' = column_of dst" "column_of src' = column_of src"
    "entity_list dst' = entity_list dst" "entity_list src' = entity_list src"
  using assms same_shape_column_of by (auto simp: move_spec_def entity_list_def)

lemma move_cells_other:
  assumes m: "move_spec husk dst n src row emplace_id lst dst' src'"
  shows "i \<noteq> n \<Longrightarrow> cell_in dst' i c = cell_in dst i c" "i \<noteq> row \<Longrightarrow> cell_in src' i c = cell_in src i c"
proof -
  show "cell_in dst' i c = cell_in dst i c" if "i \<noteq> n"
  proof (cases "column_of dst c")
    case (Some k)
    have "dst_moved husk dst n src row emplace_id k (col_data (tbl_columns dst' ! k))" using m column_of_Some(1) [OF Some] by (simp add: move_spec_def)
    then show ?thesis using Some that move_column_of(1) [OF m] by (auto simp: cell_in_def dst_moved_def)
  qed (simp add: cell_in_def move_column_of(1) [OF m])
  show "cell_in src' i c = cell_in src i c" if "i \<noteq> row"
  proof (cases "column_of src c")
    case (Some k)
    have "src_moved husk dst src row lst k (col_data (tbl_columns src' ! k))" using m column_of_Some(1) [OF Some] by (simp add: move_spec_def)
    then show ?thesis using Some that move_column_of(2) [OF m] by (auto simp: cell_in_def src_moved_def)
  qed (simp add: cell_in_def move_column_of(2) [OF m])
qed

text \<open>The row that arrived.\<close>

lemma move_cells_dst:
  assumes m: "move_spec husk dst n src row emplace_id lst dst' src'" and st: "table_static husk dst" "table_static husk src"
    and rows: "table_rows husk k dst" and n: "n < tbl_count dst"
  shows "column_of dst c = None \<Longrightarrow> cell_in dst' n c = None"
    "column_of dst c = Some i \<Longrightarrow> column_of src c \<noteq> None \<Longrightarrow> cell_in dst' n c = cell_in src row c"
    "column_of dst c = Some i \<Longrightarrow> column_of src c = None \<Longrightarrow> c \<noteq> emplace_id \<Longrightarrow>
       \<exists>x. cell_in dst' n c = Some x \<and> made husk (col_ti (tbl_columns dst ! i)) x"
proof -
  show "cell_in dst' n c = None" if "column_of dst c = None" using that by (simp add: cell_in_def move_column_of(1) [OF m])
  assume i: "column_of dst c = Some i"
  note I = column_of_Some [OF i] and R = table_rowsD [OF rows]
  obtain x where x: "col_data (tbl_columns dst' ! i) = (col_data (tbl_columns dst ! i))[n := x]"
    "\<forall>j < length (tbl_columns src). column_ids src ! j = column_ids dst ! i \<longrightarrow> x = col_data (tbl_columns src ! j) ! row"
    "column_ids dst ! i \<notin> set (column_ids src) \<longrightarrow>
        (if column_ids dst ! i = emplace_id then x = col_data (tbl_columns dst ! i) ! n else made husk (col_ti (tbl_columns dst ! i)) x)"
    using m I(1) unfolding move_spec_def dst_moved_def by blast
  have c: "cell_in dst' n c = Some x" using i x(1) R(2) R(4) [OF I(1)] n by (simp add: cell_in_def move_column_of(1) [OF m])
  show "cell_in dst' n c = cell_in src row c" if "column_of src c \<noteq> None"
  proof -
    from that obtain j where j: "column_of src c = Some j" by blast
    with column_of_Some [OF j] x(2) I(2) show ?thesis unfolding c by (simp add: cell_in_def)
  qed
  show "\<exists>x. cell_in dst' n c = Some x \<and> made husk (col_ti (tbl_columns dst ! i)) x" if "column_of src c = None" "c \<noteq> emplace_id"
    using that c x(3) I(2) by (simp add: column_of_None)
qed

text \<open>Both tables stay well-formed.\<close>

lemma move_dst_wf:
  assumes m: "move_spec husk dst n src row emplace_id lst dst' src'" and st: "table_static husk dst" "table_static husk src"
    and rows: "table_rows husk n dst" "table_rows husk k src" and n: "tbl_count dst = Suc n" and k: "row < k" and ty: "same_types dst src"
    and em: "emplace_id \<notin> set (column_ids dst) \<or> emplace_id \<in> set (column_ids src)"
  shows "table_wf husk (tbl_count dst') dst'"
proof -
  note R = table_rowsD [OF rows(1)] and R' = table_rowsD [OF rows(2)]
  have sh: "same_shape dst dst'" and eq: "tbl_entities dst' = tbl_entities dst" "tbl_count dst' = tbl_count dst" "tbl_size dst' = tbl_size dst"
    "length (tbl_columns dst') = length (tbl_columns dst)" "length (tbl_bs_columns dst') = length (tbl_bs_columns dst)"
    using m by (simp_all add: move_spec_def same_shape_def)
  have ti: "col_ti (tbl_columns dst' ! i) = col_ti (tbl_columns dst ! i)" if "i < length (tbl_columns dst)" for i
    using sh that by (simp add: same_shape_def)
  have col: "length (col_data (tbl_columns dst' ! i)) = tbl_size dst \<and>
      (\<forall>l < tbl_count dst. live husk (col_ti (tbl_columns dst' ! i)) (col_data (tbl_columns dst' ! i) ! l))" if i: "i < length (tbl_columns dst)" for i
  proof -
    obtain x where x: "col_data (tbl_columns dst' ! i) = (col_data (tbl_columns dst ! i))[n := x]"
      "\<forall>j < length (tbl_columns src). column_ids src ! j = column_ids dst ! i \<longrightarrow> x = col_data (tbl_columns src ! j) ! row"
      "column_ids dst ! i \<notin> set (column_ids src) \<longrightarrow>
          (if column_ids dst ! i = emplace_id then x = col_data (tbl_columns dst ! i) ! n else made husk (col_ti (tbl_columns dst ! i)) x)"
      using m i unfolding move_spec_def dst_moved_def by blast
    have "live husk (col_ti (tbl_columns dst ! i)) x"
    proof (cases "column_ids dst ! i \<in> set (column_ids src)")
      case True
      then obtain j where j: "j < length (tbl_columns src)" "column_ids src ! j = column_ids dst ! i" by (metis in_set_conv_nth length_column_ids)
      then show ?thesis using x(2) R'(5) [OF j(1) k] ty i by (simp add: same_types_def)
    next
      case False
      then have "column_ids dst ! i \<noteq> emplace_id" using em i by (metis length_column_ids nth_mem)
      with False x(3) show ?thesis by (simp add: made_def)
    qed
    then show ?thesis using x(1) R(2,4,5) i n ti [OF i] by (auto simp: nth_list_update less_Suc_eq)
  qed
  have "table_rows husk (tbl_count dst') dst'"
    unfolding table_rows_def eq using R(1-3) col m
    by (auto simp: in_set_conv_nth eq move_spec_def)
  then show ?thesis using same_shape_static [OF sh st(1)] by (simp add: table_wf_def)
qed

lemma move_src_rows:
  assumes m: "move_spec husk dst n src row emplace_id lst dst' src'" and rows: "table_rows husk (tbl_count src) src"
    and row: "row < tbl_count src" and l: "lst \<longleftrightarrow> tbl_count src = row + 1"
  shows "table_rows husk (if row = tbl_count src - 1 then tbl_count src - 1 else tbl_count src) src'"
    "row \<noteq> tbl_count src - 1 \<Longrightarrow> row_values husk src' row = removed_values husk dst src row"
proof -
  note R = table_rowsD [OF rows]
  have eq: "tbl_entities src' = tbl_entities src" "tbl_count src' = tbl_count src" "tbl_size src' = tbl_size src"
    "length (tbl_columns src') = length (tbl_columns src)" "tbl_bs_columns src' = tbl_bs_columns src"
    and ti: "\<And>j. j < length (tbl_columns src) \<Longrightarrow> col_ti (tbl_columns src' ! j) = col_ti (tbl_columns src ! j)"
    using m by (simp_all add: move_spec_def same_shape_def)
  have mv: "\<exists>x. col_data (tbl_columns src' ! j) = (col_data (tbl_columns src ! j))[row := x] \<and>
     (if column_ids src ! j \<in> set (column_ids dst) then rel husk (col_ti (tbl_columns src ! j)) x = [] \<and> (lst \<or> live husk (col_ti (tbl_columns src ! j)) x)
      else if lst then rel husk (col_ti (tbl_columns src ! j)) x = [] else x = col_data (tbl_columns src ! j) ! row)" if "j < length (tbl_columns src)" for j
    using m that unfolding move_spec_def src_moved_def by blast
  let ?n = "if row = tbl_count src - 1 then tbl_count src - 1 else tbl_count src"
  have col: "length (col_data (tbl_columns src' ! j)) = tbl_size src \<and>
      (\<forall>i < ?n. live husk (col_ti (tbl_columns src' ! j)) (col_data (tbl_columns src' ! j) ! i))" if j: "j < length (tbl_columns src)" for j
  proof -
    obtain x where x: "col_data (tbl_columns src' ! j) = (col_data (tbl_columns src ! j))[row := x]"
      "lst \<or> live husk (col_ti (tbl_columns src ! j)) x" using mv [OF j] R(5) [OF j row] by (auto split: if_splits)
    have "live husk (col_ti (tbl_columns src ! j)) (col_data (tbl_columns src' ! j) ! i)" if i: "i < ?n" for i
    proof (cases "i = row")
      case True
      then have "\<not> lst" using i l row by (auto split: if_splits)
      then show ?thesis using x True R(2) R(4) [OF j] row by simp
    next
      case False
      then show ?thesis using x(1) R(5) [OF j, of i] i by (simp split: if_splits)
    qed
    then show ?thesis using x(1) R(4) [OF j] ti [OF j] by simp
  qed
  show "table_rows husk ?n src'"
    unfolding table_rows_def eq using R(1-3) R(6,7) col by (auto simp: in_set_conv_nth eq)
  assume ne: "row \<noteq> tbl_count src - 1"
  then have nl: "\<not> lst" using l row by auto
  have "rel husk (col_ti (tbl_columns src' ! j)) (col_data (tbl_columns src' ! j) ! row) = (if column_ids src ! j \<in> set (column_ids dst) then []
     else rel husk (col_ti (tbl_columns src ! j)) (col_data (tbl_columns src ! j) ! row))" if j: "j < length (tbl_columns src)" for j
    using mv [OF j] nl R(2) R(4) [OF j] row ti [OF j] by (auto split: if_splits)
  then show "row_values husk src' row = removed_values husk dst src row"
    unfolding row_values_def removed_values_def eq by (intro arg_cong [where f = concat] map_cong) auto
qed

section \<open>Records that change\<close>

definition place_at :: "ecs_entity_index_t \<Rightarrow> u64 \<Rightarrow> nat \<Rightarrow> nat \<Rightarrow> ecs_entity_index_t" where
  "place_at index e p row = record_upd index (lo32 e) (\<lambda>rec. rec\<lparr>rec_table := Some p,
     rec_row := ECS_ROW_TO_RECORD (word_of_nat row) (rec_row rec AND ECS_ROW_FLAGS_MASK)\<rparr>)"

lemma place_at_ok:
  assumes "eis_inv index" "e \<in> alive_set index"
  shows "eis_inv (place_at index e p row)" "alive_set (place_at index e p row) = alive_set index"
    "row < 2 ^ 28 \<Longrightarrow> located (place_at index e p row) e' = (if lo32 e' = lo32 e then Some (p, row) else located index e')"
    "rec_table (record_of (place_at index e p row) (lo32 e)) = Some p"
  unfolding place_at_def located_def by (simp_all add: index_upd [OF assms] record_row cong: option.case_cong)

lemma record_place_ok:
  assumes "eis_inv (w_index w)" "e \<in> alive_set (w_index w)"
  shows "record_place w (lo32 e) p row = Inr (w\<lparr>w_index := place_at (w_index w) e p row\<rparr>)"
  unfolding record_place_def place_at_def by (subst index_upd(1) [OF assms]) simp_all

lemma located_table: "located index e = Some (p, i) \<Longrightarrow> rec_table (record_of index (lo32 e)) = Some p"
  by (simp add: located_def split: option.splits)

lemma update_moved_ok:
  assumes inv: "eis_inv index" and e: "e \<in> alive_set index" and p: "rec_table (record_of index (lo32 e)) = Some p"
  shows "update_moved_record p index e row = Inr (place_at index e p row)"
proof -
  let ?f = "\<lambda>rec. rec\<lparr>rec_row := ECS_ROW_TO_RECORD (word_of_nat row) (rec_row rec AND ECS_ROW_FLAGS_MASK)\<rparr>"
  let ?g = "\<lambda>rec. rec\<lparr>rec_table := Some p, rec_row := ECS_ROW_TO_RECORD (word_of_nat row) (rec_row rec AND ECS_ROW_FLAGS_MASK)\<rparr>"
  have "?g (record_of index (lo32 e)) = ?f (record_of index (lo32 e))" using p by (cases "record_of index (lo32 e)") simp
  then have eq: "record_upd index (lo32 e) ?f = place_at index e p row" by (simp add: place_at_def record_upd_def)
  have m: "record_modify index (lo32 e) ?f = Inr (place_at index e p row)" unfolding eq [symmetric] by (rule index_upd(1) [OF inv e]) simp
  note P = place_at_ok [OF inv e, of p row]
  have "record_read (place_at index e p row) (lo32 e) = Inr (record_of (place_at index e p row) (lo32 e))"
    using alive_get(2) [OF P(1)] P(2) e by simp
  then show ?thesis
    unfolding update_moved_record_def alive_get(1) [OF inv e] bindr_Inr m using P(4) by simp
qed

text \<open>The index after a move: the entity is in its new row, and the last entity of the old table takes its place there.\<close>

definition relocated :: "ecs_entity_index_t \<Rightarrow> u64 \<Rightarrow> nat \<Rightarrow> nat \<Rightarrow> u64 \<Rightarrow> nat \<Rightarrow> nat \<Rightarrow> bool \<Rightarrow> ecs_entity_index_t" where
  "relocated index e dst_p n mvd src_p row lst =
     (let index = place_at index e dst_p n in if lst then index else place_at index mvd src_p row)"

lemma relocated_ok:
  assumes "eis_inv index" "e \<in> alive_set index" "mvd \<in> alive_set index" "\<not> lst \<Longrightarrow> lo32 mvd \<noteq> lo32 e" "n < 2 ^ 28" "row < 2 ^ 28"
  shows "eis_inv (relocated index e dst_p n mvd src_p row lst)" "alive_set (relocated index e dst_p n mvd src_p row lst) = alive_set index"
    "located (relocated index e dst_p n mvd src_p row lst) x = (if lo32 x = lo32 e then Some (dst_p, n)
       else if \<not> lst \<and> lo32 x = lo32 mvd then Some (src_p, row) else located index x)"
proof -
  note P = place_at_ok [where p = dst_p and row = n, OF assms(1,2)]
  have "mvd \<in> alive_set (place_at index e dst_p n)" using assms(3) P(2) by simp
  note Q = place_at_ok [where p = src_p and row = row, OF P(1) this]
  show "eis_inv (relocated index e dst_p n mvd src_p row lst)" "alive_set (relocated index e dst_p n mvd src_p row lst) = alive_set index"
    using P Q by (simp_all add: relocated_def Let_def)
  show "located (relocated index e dst_p n mvd src_p row lst) x = (if lo32 x = lo32 e then Some (dst_p, n)
       else if \<not> lst \<and> lo32 x = lo32 mvd then Some (src_p, row) else located index x)"
    using P(3) [OF assms(5), of x] Q(3) [OF assms(6), of x] assms(4) by (auto simp: relocated_def Let_def)
qed

lemma quiet_tables: "quiet w w' \<Longrightarrow> w_index w' = w_index w \<and> w_tables w' = w_tables w \<and> w_released w' = w_released w"
  by (simp add: quiet_def)

lemma log_action_fields [simp]:
  "w_index (log_action w a p row) = w_index w" "w_tables (log_action w a p row) = w_tables w"
  "w_released (log_action w a p row) = w_released w" "w_index (put_table w p t) = w_index w"
  "w_tables (put_table w p t) = (w_tables w)(p := Some t)" "w_released (put_table w p t) = w_released w"
  by (simp_all add: log_action_def put_table_def)

lemma rows_invD:
  assumes "rows_inv index tables"
  shows "tables p = Some t \<Longrightarrow> i < tbl_count t \<Longrightarrow> entity_list t ! i \<in> alive_set index \<and> located index (entity_list t ! i) = Some (p, i)"
    "e \<in> alive_set index \<Longrightarrow> located index e = Some (p, i) \<Longrightarrow> \<exists>t. tables p = Some t \<and> i < tbl_count t \<and> entity_list t ! i = e"
  using assms unfolding rows_inv_def rows_rel_def at_row_def by blast+

section \<open>Moving an entity\<close>

lemma move_entity_run:
  assumes inv: "storage_inv husk w" and e: "e \<in> alive_set (w_index w)" and loc: "located (w_index w) e = Some (src_p, row)"
    and tabs: "w_tables w src_p = Some src" "w_tables w dst_p = Some dst" "src_p \<noteq> dst_p"
    and lock: "tbl_lock src = 0" "tbl_lock dst = 0" and room: "tbl_count dst < 2 ^ 28" and ov: "\<And>i. ov i = None"
  defines "lst \<equiv> tbl_count src = row + 1"
  shows "\<exists>w' dst1 dst2 src2 src3. flecs_move_entity ov w e (lo32 e) dst_p emplace_id = Inr w' \<and>
    append_spec husk dst e False dst1 \<and> move_spec husk dst1 (tbl_count dst) src row emplace_id lst dst2 src2 \<and> delete_spec husk src2 row src3 \<and>
    w_index w' = relocated (w_index w) e dst_p (tbl_count dst) (entity_list src ! (tbl_count src - 1)) src_p row lst \<and>
    w_tables w' = (w_tables w)(dst_p := Some dst2, src_p := Some src3) \<and>
    w_released w' = w_released w @ removed_values husk dst src row"
proof -
  note S = storage_invD [OF inv]
  let ?index = "w_index w" and ?n = "tbl_count dst" and ?last = "tbl_count src - 1"
  note wf = S(3) [OF tabs(1)] S(3) [OF tabs(2)]
  then have st: "table_static husk src" "table_static husk dst" and rows: "table_rows husk (tbl_count src) src" "table_rows husk ?n dst"
    by (simp_all add: table_wf_def)
  have row: "row < tbl_count src" "entity_list src ! row = e" using rows_invD(2) [OF S(2) e loc] tabs(1) by auto
  obtain w1 dst1 where a: "flecs_table_append w dst ov e False False = Inr (w1, dst1)" "quiet w w1" "append_spec husk dst e False dst1"
    using table_append_ok [where w = w and e = e and construct = False and on_add = False and ov = ov, OF wf(2) lock(2) _ ov] room by auto
  have d1: "table_static husk dst1" "table_rows husk ?n dst1" "tbl_count dst1 = Suc ?n" "same_shape dst dst1" "tbl_lock dst1 = 0"
    using a(3) lock(2) by (auto simp: append_spec_def table_wf_def same_shape_def)
  have ty: "same_types dst1 src" using S(5) [OF tabs(2,1)] d1(4) same_shape_ids(1) [OF d1(4)] by (simp add: same_types_def same_shape_def)
  define w2 where "w2 = log_action w1 Actions_move_remove src_p row"
  obtain w3 dst2 src2 where m: "flecs_table_move w2 ov e e dst1 ?n src row emplace_id = Inr (w3, dst2, src2)"
    "move_spec husk dst1 ?n src row emplace_id lst dst2 src2" "releases (if lst then removed_values husk dst1 src row else []) w2 w3"
    using table_move_ok [where ov = ov and w = w2 and e = e and emplace_id = emplace_id and dst_index = ?n and src_index = row,
      OF d1(1) st(1) d1(2) rows(1) _ row(1,1) ty ov d1(5) lock(1)] d1(3) unfolding lst_def by auto
  have rv: "removed_values husk dst1 src row = removed_values husk dst src row"
    using same_shape_ids(1) [OF d1(4)] by (simp add: removed_values_def)
  have i3: "w_index w3 = ?index" "w_tables w3 = w_tables w" "w_released w3 = w_released w @ (if lst then removed_values husk dst src row else [])"
    using m(3) quiet_tables [OF a(2)] rv by (simp_all add: releases_def w2_def)
  let ?i4 = "place_at ?index e dst_p ?n"
  note P = place_at_ok [where p = dst_p and row = ?n, OF S(1) e]
  define w4 where "w4 = (put_table w3 dst_p dst2)\<lparr>w_index := ?i4\<rparr>"
  have w4: "record_place (put_table w3 dst_p dst2) (lo32 e) dst_p ?n = Inr w4"
    unfolding w4_def using record_place_ok [of "put_table w3 dst_p dst2" e dst_p ?n] S(1) e i3(1) by simp
  let ?mvd = "entity_list src ! ?last"
  have mvd: "?mvd \<in> alive_set ?index" "located ?index ?mvd = Some (src_p, ?last)" using rows_invD(1) [OF S(2) tabs(1), of ?last] row(1) by auto
  have up: "if row = ?last then w_index (w4 :: 'a ecs_world_t) = ?i4 else
      update_moved_record src_p (w_index w4) ?mvd row = Inr (place_at ?i4 ?mvd src_p row)"
  proof (cases "row = ?last")
    case False
    have "lo32 ?mvd \<noteq> lo32 e" using alive_lo32 [OF S(1) mvd(1) e] mvd(2) loc False by auto
    then have "rec_table (record_of ?i4 (lo32 ?mvd)) = Some src_p"
      using located_table [of ?i4 ?mvd src_p ?last] P(3) [OF room, of ?mvd] mvd(2) by simp
    from update_moved_ok [OF P(1) _ this, of row] mvd(1) P(2) False show ?thesis by (simp add: w4_def)
  qed (simp add: w4_def)
  have s2: "table_static husk src2" "tbl_lock src2 = 0" "tbl_count src2 = tbl_count src" "entity_list src2 = entity_list src"
    using m(2) same_shape_static [OF _ st(1), of src2] lock(1) move_column_of(4) [OF m(2)] by (auto simp: move_spec_def same_shape_def)
  note sr = move_src_rows [OF m(2) rows(1) row(1)]
  have l: "lst \<longleftrightarrow> row = ?last" using row(1) by (auto simp: lst_def)
  define index' where "index' = relocated ?index e dst_p ?n ?mvd src_p row lst"
  have "\<exists>w5 src3. flecs_table_delete src_p w4 src2 row False = Inr (w5, src3) \<and> delete_spec husk src2 row src3 \<and>
    w_index w5 = index' \<and> w_tables w5 = w_tables w4 \<and>
    w_released w5 = w_released w4 @ (if row = tbl_count src2 - 1 \<and> \<not> False then [] else row_values husk src2 row)"
  proof (rule table_delete_ok [OF s2(1) sr(1) s2(2)])
    show "if row = tbl_count src2 - 1 then index' = w_index w4
      else update_moved_record src_p (w_index w4) (entity_list src2 ! (tbl_count src2 - 1)) row = Inr index'"
      using up unfolding s2(3,4) index'_def relocated_def Let_def l by (auto simp: w4_def)
  qed (use row(1) s2(3) lst_def in simp_all)
  then obtain w5 src3 where dl: "flecs_table_delete src_p w4 src2 row False = Inr (w5, src3)" "delete_spec husk src2 row src3"
    "w_index w5 = index'" "w_tables w5 = w_tables w4" "w_released w5 = w_released w4 @ (if lst then [] else row_values husk src2 row)"
    unfolding s2(3) l by auto
  define w6 where "w6 = log_action (put_table w5 src_p src3) Actions_move_add dst_p ?n"
  have rel: "w_released w6 = w_released w @ removed_values husk dst src row"
    using dl(5) i3(3) sr(2) rv l by (auto simp: w6_def w4_def lst_def)
  have fin: "record_read (w_index w6) (lo32 e) = Inr (record_of index' (lo32 e))" "rec_table (record_of index' (lo32 e)) = Some dst_p"
  proof -
    have "lo32 ?mvd \<noteq> lo32 e" if "\<not> lst" using alive_lo32 [OF S(1) mvd(1) e] mvd(2) loc that l by auto
    moreover have "row < 2 ^ 28" using row(1) S(4) [OF tabs(1)] by simp
    ultimately have I: "eis_inv index'" "alive_set index' = alive_set ?index" "located index' e = Some (dst_p, ?n)"
      using relocated_ok [OF S(1) e mvd(1), of lst ?n row dst_p src_p] room unfolding index'_def by simp_all
    show "record_read (w_index w6) (lo32 e) = Inr (record_of index' (lo32 e))"
      using alive_get(2) [OF I(1)] I(2) e dl(3) by (simp add: w6_def)
    show "rec_table (record_of index' (lo32 e)) = Some dst_p" by (rule located_table [OF I(3)])
  qed
  have rt: "rec_table (record_of ?index (lo32 e)) = Some src_p" "unat (ECS_RECORD_TO_ROW (rec_row (record_of ?index (lo32 e)))) = row"
    using loc by (auto simp: located_def split: option.splits)
  have gt: "get_table w src_p = Inr src" "get_table w dst_p = Inr dst" using tabs by (simp_all add: get_table_def)
  have as: "ecs_assert (src_p \<noteq> dst_p) E = Inr ()" "ecs_assert (row < ecs_table_count src) E = Inr ()" "ecs_assert True E = Inr ()" for E
    using tabs(3) row(1) by (simp_all add: ecs_table_count_def)
  have "flecs_move_entity ov w e (lo32 e) dst_p emplace_id = Inr w6"
    unfolding flecs_move_entity_def alive_get(1,2) [OF S(1) e] bindr_Inr Let_def rt option.case as gt refl [THEN eqTrueI] ecs_table_count_def
      a(1) prod.case w2_def [symmetric] m(1) w4 dl(1) w6_def [symmetric] fin(1)
    using row(1) fin(2) by simp
  then show ?thesis using a(3) m(2) dl(2,3,4) rel i3(2)
    by (intro exI [of _ w6] exI [of _ dst1] exI [of _ dst2] exI [of _ src2] exI [of _ src3]) (simp add: w6_def w4_def index'_def)
qed

text \<open>Records and rows still point at each other.\<close>

lemma rows_relD:
  assumes "rows_rel A L tables" "e \<in> A" "L e = Some (p, i)" "tables p = Some t"
  shows "i < tbl_count t" "entity_list t ! i = e"
  using assms unfolding rows_rel_def at_row_def by (metis option.inject)+

text \<open>A row is closed with the last one.\<close>

lemma rows_close:
  assumes inv: "rows_rel A L tables" and e: "e \<in> A" "L e = Some (p, row)" and tab: "tables p = Some t"
    and len: "length (entity_list t) = tbl_count t"
    and t': "entity_list t' = swap_remove row (entity_list t)" "tbl_count t' = tbl_count t - 1"
    and L': "\<And>x. x \<in> A - {e} \<Longrightarrow> L' x = (if row \<noteq> tbl_count t - 1 \<and> x = entity_list t ! (tbl_count t - 1) then Some (p, row) else L x)"
  shows "rows_rel (A - {e}) L' (tables(p := Some t'))"
proof -
  let ?last = "tbl_count t - 1" let ?mvd = "entity_list t ! ?last"
  note E = rows_relD [OF inv e tab]
  have ri: "at_row tables x q i \<longleftrightarrow> x \<in> A \<and> L x = Some (q, i)" for x q i using inv by (simp add: rows_rel_def)
  have old: "i < tbl_count t \<and> entity_list t ! i = x \<longleftrightarrow> x \<in> A \<and> L x = Some (p, i)" for x i
    using ri [of x p i] tab by (simp add: at_row_def)
  have M: "?mvd \<in> A" "L ?mvd = Some (p, ?last)" using old [of ?last ?mvd] E(1) by auto
  have row': "swap_remove row (entity_list t) ! i = (if i = row then ?mvd else entity_list t ! i)" if "i < ?last" for i
  proof -
    have "entity_list t \<noteq> []" using E(1) len by auto
    then show ?thesis using nth_swap_remove [of row "entity_list t" i] that E(1) len by (simp add: last_conv_nth)
  qed
  have new: "at_row (tables(p := Some t')) x p i \<longleftrightarrow> i < ?last \<and> (if i = row then ?mvd else entity_list t ! i) = x" for x i
    using row' t' by (auto simp: at_row_def)
  have fwd: "x \<in> A - {e} \<and> L' x = Some (p, i)" if l: "i < ?last" "(if i = row then ?mvd else entity_list t ! i) = x" for x i
  proof (cases "i = row")
    case True
    then have "x = ?mvd" "row \<noteq> ?last" using l by auto
    moreover have "x \<noteq> e" using calculation M(2) e(2) by auto
    ultimately show ?thesis using M(1) L' True by simp
  next
    case False
    then have x: "x \<in> A" "L x = Some (p, i)" using l old [of i x] by auto
    moreover have "x \<noteq> e" "x \<noteq> ?mvd" using x(2) e(2) M(2) l(1) False by auto
    ultimately show ?thesis using L' by simp
  qed
  have bwd: "i < ?last \<and> (if i = row then ?mvd else entity_list t ! i) = x" if r: "x \<in> A - {e}" "L' x = Some (p, i)" for x i
  proof (cases "row \<noteq> ?last \<and> x = ?mvd")
    case True
    then have "i = row" using r L' [of x] by simp
    then show ?thesis using True E(1) by auto
  next
    case False
    then have "L x = Some (p, i)" using r L' [of x] by auto
    then have i: "i < tbl_count t" "entity_list t ! i = x" using r old [of i x] by auto
    moreover have "i \<noteq> row" using i(2) r(1) E(2) by auto
    moreover have "i \<noteq> ?last" using False i(2) \<open>i \<noteq> row\<close> by auto
    ultimately show ?thesis by auto
  qed
  have "at_row (tables(p := Some t')) x q i \<longleftrightarrow> x \<in> A - {e} \<and> L' x = Some (q, i)" for x q i
  proof (cases "q = p")
    case True
    show ?thesis unfolding True new using fwd bwd by blast
  next
    case False
    then have "at_row (tables(p := Some t')) x q i \<longleftrightarrow> x \<in> A \<and> L x = Some (q, i)" using ri [of x q i] by (simp add: at_row_def)
    moreover have "L' x = Some (q, i) \<longleftrightarrow> L x = Some (q, i)" if "x \<in> A" "x \<noteq> e"
      using L' [of x] that M(2) False by (cases "x = ?mvd") auto
    moreover have "x \<noteq> e" if "L x = Some (q, i)" using that e(2) False by auto
    ultimately show ?thesis by blast
  qed
  then show ?thesis by (simp add: rows_rel_def)
qed

text \<open>A row is added.\<close>

lemma rows_open:
  assumes inv: "rows_rel A L tables" and e: "e \<notin> A" and tab: "tables p = Some t" and len: "length (entity_list t) = tbl_count t"
    and t': "entity_list t' = entity_list t @ [e]" "tbl_count t' = Suc (tbl_count t)"
    and L': "L' e = Some (p, tbl_count t)" "\<And>x. x \<in> A \<Longrightarrow> L' x = L x"
  shows "rows_rel (insert e A) L' (tables(p := Some t'))"
proof -
  have ri: "at_row tables x q i \<longleftrightarrow> x \<in> A \<and> L x = Some (q, i)" for x q i using inv by (simp add: rows_rel_def)
  have "at_row (tables(p := Some t')) x p i \<longleftrightarrow> i = tbl_count t \<and> x = e \<or> at_row tables x p i" for x i
    using t' len tab by (auto simp: at_row_def nth_append less_Suc_eq)
  moreover have "at_row (tables(p := Some t')) x q i \<longleftrightarrow> at_row tables x q i" if "q \<noteq> p" for x q i using that by (simp add: at_row_def)
  ultimately have "at_row (tables(p := Some t')) x q i \<longleftrightarrow> q = p \<and> i = tbl_count t \<and> x = e \<or> x \<in> A \<and> L x = Some (q, i)" for x q i
    using ri [of x q i] by (cases "q = p") auto
  then show ?thesis unfolding rows_rel_def using e L' by auto
qed

text \<open>A row goes from one table to another.\<close>

lemma rows_relocate:
  assumes inv: "rows_rel A L tables" and e: "e \<in> A" "L e = Some (src_p, row)"
    and tabs: "tables src_p = Some src" "tables dst_p = Some dst" "src_p \<noteq> dst_p"
    and len: "length (entity_list src) = tbl_count src" "length (entity_list dst) = tbl_count dst"
    and dst': "entity_list dst' = entity_list dst @ [e]" "tbl_count dst' = Suc (tbl_count dst)"
    and src': "entity_list src' = swap_remove row (entity_list src)" "tbl_count src' = tbl_count src - 1"
    and L': "\<And>x. x \<in> A \<Longrightarrow> L' x = (if x = e then Some (dst_p, tbl_count dst)
        else if row \<noteq> tbl_count src - 1 \<and> x = entity_list src ! (tbl_count src - 1) then Some (src_p, row) else L x)"
  shows "rows_rel A L' (tables(dst_p := Some dst', src_p := Some src'))"
proof -
  have "rows_rel (A - {e}) L' (tables(src_p := Some src'))"
    by (rule rows_close [OF inv e tabs(1) len(1) src']) (simp add: L')
  then have "rows_rel (insert e (A - {e})) L' ((tables(src_p := Some src'))(dst_p := Some dst'))"
    by (rule rows_open [OF _ _ _ len(2) dst']) (simp_all add: tabs(2) tabs(3) [symmetric] e(1) L')
  then show ?thesis using e(1) tabs(3) by (simp add: insert_absorb fun_upd_twist)
qed

lemma same_types_shape:
  assumes "same_types t u" "same_shape t t'" "same_shape u u'"
  shows "same_types t' u'"
  using assms same_shape_ids(1) [OF assms(2)] same_shape_ids(1) [OF assms(3)] by (simp add: same_types_def same_shape_def)

lemma storage_invI:
  assumes inv: "storage_inv husk w" and index: "eis_inv (w_index w')" "rows_inv (w_index w') (w_tables w')"
    and tabs: "\<And>p t'. w_tables w' p = Some t' \<Longrightarrow> \<exists>t. w_tables w p = Some t \<and> same_shape t t' \<and>
      (t' = t \<or> table_wf husk (tbl_count t') t' \<and> tbl_count t' \<le> 2 ^ 28)"
  shows "storage_inv husk w'"
proof -
  note S = storage_invD [OF inv]
  have "table_wf husk (tbl_count t') t' \<and> tbl_count t' \<le> 2 ^ 28" if "w_tables w' p = Some t'" for p t'
    using tabs [OF that] S(3,4) by blast
  moreover have "same_types t u" if "w_tables w' p = Some t" "w_tables w' q = Some u" for p q t u
    using tabs [OF that(1)] tabs [OF that(2)] S(5) same_types_shape by blast
  ultimately show ?thesis using index by (simp add: storage_inv_def)
qed

lemma value_of_located: "located (w_index w) x = Some (p, i) \<Longrightarrow> w_tables w p = Some t \<Longrightarrow> value_of w x c = cell_in t i c"
  by (simp add: value_of_def)

lemma delete_other_rows:
  assumes "delete_spec husk t row t'" "table_rows husk n t" "row < tbl_count t" "i < tbl_count t" "i \<noteq> row"
  shows "cell_in t' (if i = tbl_count t - 1 then row else i) c = cell_in t i c"
  using delete_cells [OF assms(1-3), of "if i = tbl_count t - 1 then row else i" c] assms(3-5) by auto

text \<open>The operations keep the tables and what identifies them.\<close>

definition same_tables :: "'v ecs_world_t \<Rightarrow> 'v ecs_world_t \<Rightarrow> bool" where
  "same_tables w w' \<longleftrightarrow> (\<forall>p. rel_option same_shape (w_tables w p) (w_tables w' p))"

lemma same_tables_Some: "same_tables w w' \<Longrightarrow> w_tables w' p = Some t' \<Longrightarrow> \<exists>t. w_tables w p = Some t \<and> same_shape t t'"
  unfolding same_tables_def by (metis option_rel_Some2)

lemma same_tables_upd:
  assumes "w_tables w' = (w_tables w)(p := Some t')" "w_tables w p = Some t" "same_shape t t'"
  shows "same_tables w w'"
  using assms by (simp add: same_tables_def option.rel_refl)

lemma place_at_eis_ok:
  assumes "eis_ok index" "e \<in> alive_set index"
  shows "eis_ok (place_at index e p row)"
proof -
  note inv = eis_okD [OF assms(1)]
  have "pos_of (place_at index e p row) c = pos_of index c" for c
    unfolding place_at_def by (subst index_upd(4) [OF inv assms(2)]) simp_all
  then show ?thesis using assms(1) place_at_ok(1) [OF inv assms(2)] by (simp add: eis_ok_def) (simp add: place_at_def)
qed

text \<open>
  What a move promises: the storage invariant holds, the other entities keep their values, and the entity has the
  components of its new table, with its old value for each that it had and a constructed one for the others.
\<close>

definition moved_values :: "('v \<Rightarrow> bool) \<Rightarrow> 'v ecs_world_t \<Rightarrow> u64 \<Rightarrow> 'v ecs_table_t \<Rightarrow> 'v ecs_table_t \<Rightarrow> 'v ecs_world_t \<Rightarrow> bool" where
  "moved_values husk w e dst src w' \<longleftrightarrow>
     (\<forall>x c. x \<in> alive_set (w_index w) \<and> x \<noteq> e \<longrightarrow> value_of w' x c = value_of w x c) \<and>
     (\<forall>c. case column_of dst c of None \<Rightarrow> value_of w' e c = None
        | Some i \<Rightarrow> if column_of src c \<noteq> None then value_of w' e c = value_of w e c
                    else \<exists>v. value_of w' e c = Some v \<and> made husk (col_ti (tbl_columns dst ! i)) v)"

lemma move_entity_ok:
  assumes inv: "storage_inv husk w" and e: "e \<in> alive_set (w_index w)" and loc: "located (w_index w) e = Some (src_p, row)"
    and tabs: "w_tables w src_p = Some src" "w_tables w dst_p = Some dst" "src_p \<noteq> dst_p"
    and lock: "tbl_lock src = 0" "tbl_lock dst = 0" and room: "tbl_count dst < 2 ^ 28" and ov: "\<And>i. ov i = None"
    and em: "emplace_id \<notin> set (column_ids dst) \<or> emplace_id \<in> set (column_ids src)"
  shows "\<exists>w'. flecs_move_entity ov w e (lo32 e) dst_p emplace_id = Inr w' \<and> storage_inv husk w' \<and>
    alive_set (w_index w') = alive_set (w_index w) \<and> located (w_index w') e = Some (dst_p, tbl_count dst) \<and>
    moved_values husk w e dst src w' \<and> w_released w' = w_released w @ removed_values husk dst src row \<and>
    same_tables w w' \<and> (eis_ok (w_index w) \<longrightarrow> eis_ok (w_index w'))"
proof -
  note S = storage_invD [OF inv]
  let ?index = "w_index w" and ?n = "tbl_count dst" and ?last = "tbl_count src - 1"
  define lst where "lst \<longleftrightarrow> tbl_count src = row + 1"
  let ?mvd = "entity_list src ! ?last"
  obtain w' dst1 dst2 src2 src3 where r: "flecs_move_entity ov w e (lo32 e) dst_p emplace_id = Inr w'"
    "append_spec husk dst e False dst1" "move_spec husk dst1 ?n src row emplace_id lst dst2 src2" "delete_spec husk src2 row src3"
    "w_index w' = relocated ?index e dst_p ?n ?mvd src_p row lst"
    "w_tables w' = (w_tables w)(dst_p := Some dst2, src_p := Some src3)" "w_released w' = w_released w @ removed_values husk dst src row"
    using move_entity_run [where ov = ov and emplace_id = emplace_id, OF inv e loc tabs lock room ov] unfolding lst_def by blast
  have wf: "table_wf husk (tbl_count src) src" "table_wf husk ?n dst" using S(3) tabs by auto
  then have st: "table_static husk src" "table_static husk dst" and rows: "table_rows husk (tbl_count src) src" "table_rows husk ?n dst"
    by (simp_all add: table_wf_def)
  have row: "row < tbl_count src" "entity_list src ! row = e" using rows_invD(2) [OF S(2) e loc] tabs(1) by auto
  have d1: "table_static husk dst1" "table_rows husk ?n dst1" "tbl_count dst1 = Suc ?n" "same_shape dst dst1" "entity_list dst1 = entity_list dst @ [e]"
    using r(2) by (auto simp: append_spec_def table_wf_def)
  have ty: "same_types dst1 src" using same_types_shape [OF S(5) [OF tabs(2,1)] d1(4) same_shape_refl] .
  have d2: "table_wf husk (tbl_count dst2) dst2" "tbl_count dst2 = Suc ?n" "same_shape dst dst2" "entity_list dst2 = entity_list dst @ [e]"
    using move_dst_wf [OF r(3) d1(1) st(1) d1(2) rows(1) d1(3) row(1) ty] em same_shape_ids(1) [OF d1(4)] d1 r(3) move_column_of(3) [OF r(3)]
    by (auto simp: move_spec_def intro: same_shape_trans)
  note sr = move_src_rows(1) [OF r(3) rows(1) row(1) lst_def]
  have s2: "tbl_count src2 = tbl_count src" "same_shape src src2" using r(3) by (simp_all add: move_spec_def)
  have s3: "table_wf husk (tbl_count src3) src3" "tbl_count src3 = ?last" "same_shape src src3" "entity_list src3 = swap_remove row (entity_list src)"
    using r(4) s2 move_column_of(4) [OF r(3)] by (auto simp: delete_spec_def intro: same_shape_trans)
  have l: "lst \<longleftrightarrow> row = ?last" using row(1) by (auto simp: lst_def)
  have M: "?mvd \<in> alive_set ?index" "located ?index ?mvd = Some (src_p, ?last)" using rows_invD(1) [OF S(2) tabs(1), of ?last] row(1) by auto
  have ne: "lo32 ?mvd \<noteq> lo32 e" if "\<not> lst" using alive_lo32 [OF S(1) M(1) e] M(2) loc that l by auto
  have "row < 2 ^ 28" using row(1) S(4) [OF tabs(1)] by simp
  note L = relocated_ok [where lst = lst and n = ?n and row = row and dst_p = dst_p and src_p = src_p, OF S(1) e M(1) ne room this, folded r(5)]
  have loc': "located (w_index w') x = (if x = e then Some (dst_p, ?n) else if row \<noteq> ?last \<and> x = ?mvd then Some (src_p, row) else located ?index x)"
    if "x \<in> alive_set ?index" for x
    using L(3) [of x] alive_lo32 [OF S(1) that e] alive_lo32 [OF S(1) that M(1)] l by auto
  have "rows_inv (w_index w') (w_tables w')"
    unfolding r(6) rows_inv_def L(2) using rows
    using rows_relocate [OF S(2) [unfolded rows_inv_def] e loc tabs _ _ d2(4,2) s3(4,2) loc'] L(2) by simp
  moreover have "\<exists>t. w_tables w p = Some t \<and> same_shape t t' \<and> (t' = t \<or> table_wf husk (tbl_count t') t' \<and> tbl_count t' \<le> 2 ^ 28)"
    if "w_tables w' p = Some t'" for p t'
    using that tabs d2(1,2,3) s3(1,2,3) room S(4) [OF tabs(1)] unfolding r(6) by (auto split: if_splits)
  ultimately have SI: "storage_inv husk w'" by (intro storage_invI [OF inv L(1)]) auto
  have others: "value_of w' x c = value_of w x c" if x: "x \<in> alive_set ?index" "x \<noteq> e" for x c
  proof (cases "located ?index x")
    case None
    then have "x \<noteq> ?mvd" using M(2) by auto
    then show ?thesis using loc' [OF x(1)] x(2) None by (simp add: value_of_def)
  next
    case (Some qj)
    obtain q j where q: "located ?index x = Some (q, j)" using Some by (cases qj) simp
    obtain t where t: "w_tables w q = Some t" "j < tbl_count t" "entity_list t ! j = x" using rows_invD(2) [OF S(2) x(1) q] by blast
    note old = value_of_located [OF q t(1)]
    consider (src) "q = src_p" | (dst) "q = dst_p" | (other) "q \<noteq> src_p" "q \<noteq> dst_p" by blast
    then show ?thesis
    proof cases
      case src
      then have j: "t = src" "j < tbl_count src2" "j \<noteq> row" using t tabs(1) s2(1) row(2) x(2) by auto
      have "j = ?last" if "x = ?mvd" using q M(2) unfolding that by simp
      moreover have "x = ?mvd" if "j = ?last" using t(3) unfolding j(1) that by simp
      ultimately have "located (w_index w') x = Some (src_p, if j = ?last then row else j)"
        using loc' [OF x(1)] x(2) q src j(3) by (cases "j = ?last"; cases "x = ?mvd") (simp_all del: One_nat_def)
      then have "value_of w' x c = cell_in src3 (if j = ?last then row else j) c"
        using value_of_located [of w' x src_p _ src3 c] r(6) by simp
      also have "\<dots> = cell_in src2 j c" using delete_other_rows [OF r(4) sr _ j(2,3), of c] row(1) unfolding s2(1) by simp
      finally show ?thesis using move_cells_other(2) [OF r(3) j(3)] old j(1) by simp
    next
      case dst
      then have j: "t = dst" "j < ?n" using t tabs(2) by auto
      have "located (w_index w') x = Some (dst_p, j)" using loc' [OF x(1)] x(2) q dst M(2) tabs(3) by auto
      then have "value_of w' x c = cell_in dst2 j c" using value_of_located [of w' x dst_p j dst2 c] r(6) tabs(3) by simp
      also have "\<dots> = cell_in dst1 j c" using move_cells_other(1) [OF r(3)] j(2) by simp
      finally show ?thesis using append_cells [OF r(2) j(2) rows(2)] old j(1) by simp
    next
      case other
      then have "located (w_index w') x = Some (q, j)" using loc' [OF x(1)] x(2) q M(2) by auto
      then show ?thesis using value_of_located [of w' x q j t c] r(6) t(1) other old by simp
    qed
  qed
  have here: "located (w_index w') e = Some (dst_p, ?n)" using loc' [OF e] by simp
  have val: "value_of w' e c = cell_in dst2 ?n c" for c using value_of_located [OF here, of dst2 c] r(6) tabs(3) by simp
  have old: "value_of w e c = cell_in src row c" for c using value_of_located [OF loc tabs(1)] .
  have co: "column_of dst1 = column_of dst" by (rule append_column_of [OF r(2)])
  have own: "case column_of dst c of None \<Rightarrow> value_of w' e c = None
        | Some i \<Rightarrow> if column_of src c \<noteq> None then value_of w' e c = value_of w e c
                    else \<exists>v. value_of w' e c = Some v \<and> made husk (col_ti (tbl_columns dst ! i)) v" for c
  proof (cases "column_of dst c")
    case None
    then show ?thesis using move_cells_dst(1) [OF r(3) d1(1) st(1) d1(2), of c] d1(3) co val by simp
  next
    case (Some i)
    note D = move_cells_dst(2,3) [OF r(3) d1(1) st(1) d1(2), of c i]
    have "column_of src c = None \<Longrightarrow> c \<noteq> emplace_id" using em column_of_Some [OF Some] nth_mem [of i "column_ids dst"] by (auto simp: column_of_None)
    moreover have "col_ti (tbl_columns dst1 ! i) = col_ti (tbl_columns dst ! i)" using d1(4) column_of_Some(1) [OF Some] by (simp add: same_shape_def)
    ultimately show ?thesis using D d1(3) co Some unfolding val old by (cases "column_of src c = None") auto
  qed
  have "same_tables w w'"
    using tabs(1,2) d2(3) s3(3) by (auto simp: same_tables_def r(6) option.rel_refl)
  moreover have "eis_ok (w_index w')" if "eis_ok ?index"
    unfolding r(5) relocated_def Let_def using place_at_eis_ok [OF place_at_eis_ok [OF that e], of ?mvd] place_at_eis_ok [OF that e]
      place_at_ok(2) [OF S(1) e] M(1) by simp
  ultimately show ?thesis
    using r(1) SI L(2) here others own r(7) by (intro exI [of _ w']) (simp add: moved_values_def)
qed

section \<open>Deleting an entity\<close>

lemma remove_inactive:
  assumes "eis_inv index" "eis_active_range index = None" "e \<in> alive_set index"
  shows "flecs_entity_index_remove index e = Inr (removed index e)"
proof -
  have "eis_active_range (removed index e) = None" using assms(2) by (simp add: removed_def Let_def)
  with assms show ?thesis by (simp add: flecs_entity_index_remove_def remove_intern_ok)
qed

lemma removed_located:
  assumes "eis_inv index" "e \<in> alive_set index" "lo32 x \<noteq> lo32 e"
  shows "located (removed index e) x = located index x"
  unfolding located_def by (simp add: removed_ok(5,6) [OF assms] cong: option.case_cong)

text \<open>The index after the last row was moved into row \<open>row\<close> of table \<open>p\<close>.\<close>

definition closed_index :: "ecs_entity_index_t \<Rightarrow> 'v ecs_table_t \<Rightarrow> nat \<Rightarrow> nat \<Rightarrow> ecs_entity_index_t" where
  "closed_index index t p row = (if row = tbl_count t - 1 then index else place_at index (entity_list t ! (tbl_count t - 1)) p row)"

lemma closed_index_ok:
  assumes inv: "eis_inv index" and mvd: "entity_list t ! (tbl_count t - 1) \<in> alive_set index" and row: "row < 2 ^ 28"
  shows "eis_inv (closed_index index t p row)" "alive_set (closed_index index t p row) = alive_set index"
    "x \<in> alive_set index \<Longrightarrow> located (closed_index index t p row) x =
      (if row \<noteq> tbl_count t - 1 \<and> x = entity_list t ! (tbl_count t - 1) then Some (p, row) else located index x)"
    "eis_active_range (closed_index index t p row) = eis_active_range index"
proof -
  note P = place_at_ok [where p = p and row = row, OF inv mvd]
  show "eis_inv (closed_index index t p row)" "alive_set (closed_index index t p row) = alive_set index"
    using P(1,2) inv by (simp_all add: closed_index_def)
  show "eis_active_range (closed_index index t p row) = eis_active_range index" by (simp add: closed_index_def place_at_def)
  assume x: "x \<in> alive_set index"
  show "located (closed_index index t p row) x =
      (if row \<noteq> tbl_count t - 1 \<and> x = entity_list t ! (tbl_count t - 1) then Some (p, row) else located index x)"
    using P(3) [OF row, of x] alive_lo32 [OF inv x mvd] by (auto simp: closed_index_def)
qed

text \<open>An entity that is in a table and has no row flags stays so when rows move and when another entity is removed.\<close>

definition in_table :: "ecs_entity_index_t \<Rightarrow> u64 \<Rightarrow> bool" where
  "in_table index e \<longleftrightarrow> located index e \<noteq> None \<and> ECS_RECORD_TO_ROW_FLAGS (rec_row (record_of index (lo32 e))) = 0"

lemma in_table_place_at:
  assumes inv: "eis_inv index" and e: "e \<in> alive_set index" and row: "row < 2 ^ 28" and x: "in_table index x"
  shows "in_table (place_at index e p row) x"
  using x place_at_ok(3) [OF inv e row, of p x] record_flags [OF row, of "rec_row (record_of index (lo32 e))"]
  by (auto simp: in_table_def place_at_def index_upd(4) [OF inv e])

lemma in_table_closed:
  assumes inv: "eis_inv index" and mvd: "entity_list t ! (tbl_count t - 1) \<in> alive_set index" and row: "row < 2 ^ 28"
    and e: "e \<in> alive_set index" and x: "in_table index x" and ne: "lo32 x \<noteq> lo32 e"
  shows "in_table (removed (closed_index index t p row) e) x"
proof -
  note C = closed_index_ok [where p = p, OF inv mvd row]
  have e1: "e \<in> alive_set (closed_index index t p row)" using e C(2) by simp
  have "in_table (closed_index index t p row) x" using x in_table_place_at [OF inv mvd row x] by (simp add: closed_index_def)
  then show ?thesis using removed_located [OF C(1) e1 ne] removed_ok(6) [OF C(1) e1 ne] by (simp add: in_table_def)
qed

text \<open>Deleting a row and its effect on the values of the others.\<close>

lemma delete_row_values:
  assumes inv: "rows_rel A L tables" and e: "e \<in> A" "L e = Some (p, row)" and tab: "tables p = Some t"
    and d: "delete_spec husk t row t'" and rows: "table_rows husk n t"
    and L': "\<And>x. x \<in> A - {e} \<Longrightarrow> L' x = (if row \<noteq> tbl_count t - 1 \<and> x = entity_list t ! (tbl_count t - 1) then Some (p, row) else L x)"
    and x: "x \<in> A - {e}" and q: "L x = Some (q, j)" "tables q = Some u"
  shows "\<exists>j' u'. L' x = Some (q, j') \<and> (tables(p := Some t')) q = Some u' \<and> cell_in u' j' c = cell_in u j c"
proof (cases "q = p")
  case True
  note E = rows_relD [OF inv e tab]
  have u: "u = t" and xq: "x \<in> A" "L x = Some (p, j)" using q tab True x by auto
  have j: "j < tbl_count t" "entity_list t ! j = x" using rows_relD [OF inv xq tab] by simp_all
  have jr: "j \<noteq> row" using j(2) E(2) x by auto
  let ?last = "tbl_count t - 1"
  have last: "?last < tbl_count t" using E(1) by simp
  have "entity_list t ! ?last \<in> A" "L (entity_list t ! ?last) = Some (p, ?last)"
    using inv tab last unfolding rows_rel_def at_row_def by blast+
  then have mv: "j = ?last" if "x = entity_list t ! ?last" using xq(2) that by simp
  have "L' x = Some (p, if j = ?last then row else j)"
  proof (cases "j = ?last")
    case True
    then have "x = entity_list t ! ?last" using j(2) by simp
    then show ?thesis using L' [OF x] jr True by simp
  next
    case False
    then have "x \<noteq> entity_list t ! ?last" using mv by blast
    then show ?thesis using L' [OF x] xq(2) False by simp
  qed
  moreover have "cell_in t' (if j = ?last then row else j) c = cell_in t j c"
    by (rule delete_other_rows [OF d rows E(1) j(1) jr])
  ultimately show ?thesis using True u by auto
next
  case False
  have last: "tbl_count t - 1 < tbl_count t" using rows_relD(1) [OF inv e tab] by simp
  have "L (entity_list t ! (tbl_count t - 1)) = Some (p, tbl_count t - 1)" using inv tab last unfolding rows_rel_def at_row_def by blast
  then have "x \<noteq> entity_list t ! (tbl_count t - 1)" using q(1) False by auto
  then have "L' x = Some (q, j)" using L' [OF x] q(1) by auto
  then show ?thesis using q(2) False by auto
qed

lemma delete_entity_ok:
  assumes inv: "storage_inv husk w" and e: "e \<in> alive_set (w_index w)" "e \<noteq> 0" and loc: "located (w_index w) e = Some (p, row)"
    and tab: "w_tables w p = Some t" and lock: "tbl_lock t = 0" and range: "eis_active_range (w_index w) = None"
    and flags: "ECS_RECORD_TO_ROW_FLAGS (rec_row (record_of (w_index w) (lo32 e))) = 0"
  shows "\<exists>w'. ecs_delete False False on_delete w e = Inr w' \<and> storage_inv husk w' \<and> alive_set (w_index w') = alive_set (w_index w) - {e} \<and>
    (\<forall>x \<in> alive_set (w_index w) - {e}. \<forall>c. value_of w' x c = value_of w x c) \<and>
    w_released w' = w_released w @ row_values husk t row \<and> same_tables w w' \<and> (eis_ok (w_index w) \<longrightarrow> eis_ok (w_index w')) \<and>
    (\<forall>x \<in> alive_set (w_index w) - {e}. in_table (w_index w) x \<longrightarrow> in_table (w_index w') x)"
proof -
  note S = storage_invD [OF inv]
  let ?index = "w_index w" and ?last = "tbl_count t - 1"
  have wf: "table_wf husk (tbl_count t) t" using S(3) tab by auto
  then have st: "table_static husk t" and rows: "table_rows husk (tbl_count t) t" by (simp_all add: table_wf_def)
  have row: "row < tbl_count t" "entity_list t ! row = e" using rows_invD(2) [OF S(2) e(1) loc] tab by auto
  have row28: "row < 2 ^ 28" using row(1) S(4) [OF tab] by simp
  let ?mvd = "entity_list t ! ?last"
  have M: "?mvd \<in> alive_set ?index" "located ?index ?mvd = Some (p, ?last)" using rows_invD(1) [OF S(2) tab, of ?last] row(1) by auto
  define i1 where "i1 = closed_index ?index t p row"
  note C = closed_index_ok [where p = p, OF S(1) M(1) row28, folded i1_def]
  define w1 where "w1 = log_action w Actions_move_remove p row"
  have up: "if row = ?last then i1 = w_index w1 else update_moved_record p (w_index w1) ?mvd row = Inr i1"
    using update_moved_ok [OF S(1) M(1) located_table [OF M(2)], of row] by (simp add: i1_def closed_index_def w1_def)
  obtain w2 t' where d: "flecs_table_delete p w1 t row True = Inr (w2, t')" "delete_spec husk t row t'" "w_index w2 = i1" "w_tables w2 = w_tables w"
    "w_released w2 = w_released w @ row_values husk t row"
    using table_delete_ok [OF st rows lock row(1) _ up, of True] by (auto simp: w1_def)
  have e1: "e \<in> alive_set i1" using e C(2) by simp
  define w' where "w' = (put_table w2 p t')\<lparr>w_index := removed i1 e\<rparr>"
  have rem: "flecs_entity_index_remove i1 e = Inr (removed i1 e)" using remove_inactive [OF C(1) _ e1] C(4) range by simp
  have rt: "rec_table (record_of ?index (lo32 e)) = Some p" "unat (ECS_RECORD_TO_ROW (rec_row (record_of ?index (lo32 e)))) = row"
    using loc by (auto simp: located_def split: option.splits)
  have run: "ecs_delete False False on_delete w e = Inr w'"
    unfolding ecs_delete_def try_get_ok [OF S(1)]
    using e flags tab d(1,3) rem
    by (simp add: alive_get(2) [OF S(1) e(1)] rt get_table_def w1_def w'_def Let_def)
  note Rm = removed_ok(1,2) [OF C(1) e1]
  have loc': "located (w_index w') x = (if row \<noteq> ?last \<and> x = ?mvd then Some (p, row) else located ?index x)"
    if "x \<in> alive_set ?index - {e}" for x
  proof -
    have "lo32 x \<noteq> lo32 e" using alive_lo32 [OF S(1) _ e(1), of x] that by auto
    from removed_located [OF C(1) e1 this] C(3) [of x] that show ?thesis by (simp add: w'_def)
  qed
  have al: "alive_set (w_index w') = alive_set ?index - {e}" using Rm(2) C(2) by (simp add: w'_def)
  have t': "entity_list t' = swap_remove row (entity_list t)" "tbl_count t' = tbl_count t - 1" "same_shape t t'" "table_wf husk (tbl_count t') t'"
    using d(2) by (auto simp: delete_spec_def)
  have tabs': "w_tables w' = (w_tables w)(p := Some t')" using d(4) by (simp add: w'_def)
  have "rows_inv (w_index w') (w_tables w')"
    unfolding rows_inv_def al tabs' using rows
    by (intro rows_close [OF S(2) [unfolded rows_inv_def] e(1) loc tab _ t'(1,2) loc']) simp_all
  moreover have "\<exists>u. w_tables w q = Some u \<and> same_shape u u' \<and> (u' = u \<or> table_wf husk (tbl_count u') u' \<and> tbl_count u' \<le> 2 ^ 28)"
    if "w_tables w' q = Some u'" for q u'
    using that tab t' S(4) [OF tab] unfolding tabs' by (auto split: if_splits)
  ultimately have SI: "storage_inv husk w'" using Rm(1) by (intro storage_invI [OF inv]) (auto simp: w'_def)
  have "value_of w' x c = value_of w x c" if x: "x \<in> alive_set ?index - {e}" for x c
  proof (cases "located ?index x")
    case None
    then have "x \<noteq> ?mvd" using M(2) by auto
    then show ?thesis using loc' [OF x] None by (simp add: value_of_def)
  next
    case (Some qj)
    obtain q j where q: "located ?index x = Some (q, j)" using Some by (cases qj) simp
    obtain u where u: "w_tables w q = Some u" using rows_invD(2) [OF S(2) _ q] x by blast
    from delete_row_values [OF S(2) [unfolded rows_inv_def] e(1) loc tab d(2) rows loc' x q u, of c] obtain j' u' where
      "located (w_index w') x = Some (q, j')" "w_tables w' q = Some u'" "cell_in u' j' c = cell_in u j c" unfolding tabs' by blast
    then show ?thesis using q u by (simp add: value_of_def)
  qed
  moreover have "eis_ok (w_index w')" if "eis_ok ?index"
  proof -
    have "eis_ok i1" using that place_at_eis_ok [OF that M(1)] by (simp add: i1_def closed_index_def)
    from remove_step_ok [OF this, of e] show ?thesis using e1 by (simp add: w'_def)
  qed
  moreover have "in_table (w_index w') x" if x: "x \<in> alive_set ?index - {e}" "in_table ?index x" for x
    using in_table_closed [OF S(1) M(1) row28 e(1) x(2)] alive_lo32 [OF S(1) _ e(1), of x] x(1) by (auto simp: w'_def i1_def)
  ultimately show ?thesis using run SI al d(5) same_tables_upd [OF tabs' tab t'(3)] by (intro exI [of _ w']) (simp add: w'_def)
qed

section \<open>Creating an entity\<close>

lemma fresh_no_table:
  assumes "eis_inv index" "e \<notin> alive_set index" "\<forall>c. same_records index index' c" "eis_inv index'" "e \<in> alive_set index'"
    "alive_set index' = insert e (alive_set index)"
  shows "x \<in> alive_set index \<Longrightarrow> located index' x = located index x" "x \<in> alive_set index \<Longrightarrow> lo32 x \<noteq> lo32 e"
proof -
  show "located index' x = located index x" if "x \<in> alive_set index"
    using assms(3) unfolding located_def by (simp add: same_records_def cong: option.case_cong)
  show "lo32 x \<noteq> lo32 e" if "x \<in> alive_set index"
    using alive_lo32 [OF assms(4), of x e] that assms(2,5,6) by auto
qed

lemma made_row:
  assumes a: "append_spec husk t e True t'" and st: "table_static husk t"
  shows "column_of t c = Some i \<Longrightarrow> \<exists>v. cell_in t' (tbl_count t) c = Some v \<and> made husk (col_ti (tbl_columns t ! i)) v"
    "column_of t c = None \<Longrightarrow> cell_in t' (tbl_count t) c = None"
  using append_column_of [OF a] a column_of_Some(1) [of t c i] by (auto simp: cell_in_def append_spec_def)

text \<open>A row more in a table: what the new entity and the others see.\<close>

lemma row_added:
  assumes inv: "storage_inv husk w" and e: "e \<notin> alive_set (w_index w)" and tab: "w_tables w p = Some t" and room: "tbl_count t < 2 ^ 28"
    and t': "append_spec husk t e construct t'" "table_wf husk (tbl_count t') t'" and tabs: "w_tables w' = (w_tables w)(p := Some t')"
    and index: "eis_inv (w_index w')" "alive_set (w_index w') = insert e (alive_set (w_index w))" "located (w_index w') e = Some (p, tbl_count t)"
      "\<And>x. x \<in> alive_set (w_index w) \<Longrightarrow> located (w_index w') x = located (w_index w) x"
  shows "storage_inv husk w'" "x \<in> alive_set (w_index w) \<Longrightarrow> value_of w' x c = value_of w x c"
proof -
  note S = storage_invD [OF inv]
  have rows: "table_rows husk (tbl_count t) t" using S(3) [OF tab] by (simp add: table_wf_def)
  have app: "entity_list t' = entity_list t @ [e]" "tbl_count t' = Suc (tbl_count t)" "same_shape t t'"
    using t'(1) by (simp_all add: append_spec_def)
  have "rows_rel (insert e (alive_set (w_index w))) (located (w_index w')) (w_tables w')"
    unfolding tabs by (rule rows_open [OF S(2) [unfolded rows_inv_def] e tab _ app(1,2) index(3,4)]) (use rows in simp_all)
  then have ri: "rows_inv (w_index w') (w_tables w')" by (simp add: rows_inv_def index(2))
  have "\<exists>u. w_tables w q = Some u \<and> same_shape u u' \<and> (u' = u \<or> table_wf husk (tbl_count u') u' \<and> tbl_count u' \<le> 2 ^ 28)"
    if "w_tables w' q = Some u'" for q u'
    using that tab t'(2) app(2,3) room unfolding tabs by (auto split: if_splits)
  then show "storage_inv husk w'" using index(1) ri by (intro storage_invI [OF inv]) auto
  show "value_of w' x c = value_of w x c" if x: "x \<in> alive_set (w_index w)"
  proof (cases "located (w_index w) x")
    case None
    then show ?thesis using index(4) [OF x] by (simp add: value_of_def)
  next
    case (Some qj)
    obtain q j where q: "located (w_index w) x = Some (q, j)" using Some by (cases qj) simp
    obtain u where u: "w_tables w q = Some u" "j < tbl_count u" using rows_invD(2) [OF S(2) x q] by blast
    show ?thesis
      using append_cells [OF t'(1) _ rows, of j c] u tab q index(4) [OF x] by (cases "q = p") (simp_all add: value_of_def tabs)
  qed
qed

text \<open>The index after a new entity was placed.\<close>

definition created_index :: "ecs_entity_index_t \<Rightarrow> u64 \<Rightarrow> nat \<Rightarrow> nat \<Rightarrow> ecs_entity_index_t" where
  "created_index index e p row = place_at (record_upd index (lo32 e) (\<lambda>rec. rec\<lparr>rec_table := Some store_root\<rparr>)) e p row"

lemma created_index_ok:
  assumes ok: "eis_ok index" and e: "e \<in> alive_set index" and row: "row < 2 ^ 28"
  shows "eis_ok (created_index index e p row)" "alive_set (created_index index e p row) = alive_set index"
    "located (created_index index e p row) x = (if lo32 x = lo32 e then Some (p, row) else located index x)"
    "vec_count (eis_dense (created_index index e p row)) = vec_count (eis_dense index)"
    "eis_max_id (created_index index e p row) = eis_max_id index" "dead_ids (created_index index e p row) = dead_ids index"
    "ECS_RECORD_TO_ROW_FLAGS (rec_row (record_of (created_index index e p row) (lo32 e))) = ECS_RECORD_TO_ROW_FLAGS (rec_row (record_of index (lo32 e)))"
proof -
  note inv = eis_okD [OF ok]
  let ?i = "record_upd index (lo32 e) (\<lambda>rec. rec\<lparr>rec_table := Some store_root\<rparr>)"
  note U = index_upd [where f = "\<lambda>rec. rec\<lparr>rec_table := Some store_root\<rparr>", OF inv e, simplified]
  have e': "e \<in> alive_set ?i" using e U(3) by simp
  note P = place_at_ok [where p = p and row = row, OF U(2) e']
  have pos: "pos_of (created_index index e p row) c = pos_of index c" for c
    unfolding created_index_def place_at_def by (subst index_upd(4) [OF U(2) e']) (simp_all add: U(4))
  show "eis_ok (created_index index e p row)"
    unfolding eis_ok_def pos using ok P(1) by (simp add: eis_ok_def created_index_def) (simp add: place_at_def)
  show "alive_set (created_index index e p row) = alive_set index" using P(2) U(3) by (simp add: created_index_def)
  have "located ?i x = located index x" if "lo32 x \<noteq> lo32 e" using that by (simp add: located_def U(4) cong: option.case_cong)
  then show "located (created_index index e p row) x = (if lo32 x = lo32 e then Some (p, row) else located index x)"
    using P(3) [OF row, of x] by (simp add: created_index_def)
  show "vec_count (eis_dense (created_index index e p row)) = vec_count (eis_dense index)"
    "eis_max_id (created_index index e p row) = eis_max_id index" "dead_ids (created_index index e p row) = dead_ids index"
    by (simp_all add: created_index_def place_at_def dead_ids_def)
  show "ECS_RECORD_TO_ROW_FLAGS (rec_row (record_of (created_index index e p row) (lo32 e))) = ECS_RECORD_TO_ROW_FLAGS (rec_row (record_of index (lo32 e)))"
    unfolding created_index_def place_at_def by (subst index_upd(4) [OF U(2) e']) (simp_all add: U(4) record_flags [OF row])
qed

lemma new_entity_run:
  assumes ok: "eis_ok (w_index w)" and e: "e \<in> alive_set (w_index w)" and tab: "w_tables w p = Some t"
    and wf: "table_wf husk (tbl_count t) t" and lock: "tbl_lock t = 0" and room: "tbl_count t < 2 ^ 28" and ov: "\<And>i. ov i = None"
  shows "\<exists>w' t'. flecs_new_entity ov w e (lo32 e) p True = Inr w' \<and> append_spec husk t e True t' \<and>
    w_index w' = created_index (w_index w) e p (tbl_count t) \<and> w_tables w' = (w_tables w)(p := Some t') \<and> w_released w' = w_released w"
proof -
  note inv = eis_okD [OF ok]
  let ?f = "\<lambda>rec. rec\<lparr>rec_table := Some store_root\<rparr>" let ?i = "record_upd (w_index w) (lo32 e) ?f"
  note U = index_upd [where f = ?f, OF inv e, simplified]
  have e': "e \<in> alive_set ?i" using e U(3) by simp
  obtain w1 t' where a: "flecs_table_append (w\<lparr>w_index := ?i\<rparr>) t ov e True True = Inr (w1, t')" "quiet (w\<lparr>w_index := ?i\<rparr>) w1" "append_spec husk t e True t'"
    using table_append_ok [where w = "w\<lparr>w_index := ?i\<rparr>" and e = e and construct = True and on_add = True and ov = ov, OF wf lock _ ov] room by auto
  have q: "w_index w1 = ?i" "w_tables w1 = w_tables w" "w_released w1 = w_released w" using quiet_tables [OF a(2)] by simp_all
  have n: "ecs_table_count t' = Suc (tbl_count t)" using a(3) by (simp add: append_spec_def ecs_table_count_def)
  define w2 where "w2 = (put_table w1 p t')\<lparr>w_index := place_at ?i e p (tbl_count t)\<rparr>"
  have pl: "record_place (put_table w1 p t') (lo32 e) p (tbl_count t) = Inr w2"
    using record_place_ok [of "put_table w1 p t'" e p "tbl_count t"] U(2) e' q(1) by (simp add: w2_def)
  note P = place_at_ok [where p = p and row = "tbl_count t", OF U(2) e']
  have rd: "record_read (place_at ?i e p (tbl_count t)) (lo32 e) = Inr (record_of (place_at ?i e p (tbl_count t)) (lo32 e))"
    using alive_get(2) [OF P(1)] P(2) e' by simp
  have "flecs_new_entity ov w e (lo32 e) p True = Inr (log_action w2 Actions_new p (tbl_count t))"
    unfolding flecs_new_entity_def U(1) bindr_Inr Let_def
    using tab by (simp add: get_table_def a(1) n pl w2_def rd P(4))
  then show ?thesis using a(3) q by (intro exI [of _ "log_action w2 Actions_new p (tbl_count t)"] exI [of _ t']) (simp add: w2_def created_index_def)
qed

lemma new_w_table_ok:
  assumes inv: "storage_inv husk w" and ok: "eis_ok (w_index w)" and dense: "vec_count (eis_dense (w_index w)) < 2 ^ 30"
    and ids: "dead_ids (w_index w) = [] \<longrightarrow> eis_max_id (w_index w) < 0xFFFFFFFF"
    and tab: "w_tables w p = Some t" and lock: "tbl_lock t = 0" and room: "tbl_count t < 2 ^ 28" and ov: "\<And>i. ov i = None"
  shows "\<exists>w' e t'. ecs_new_w_table ov w p = Inr (w', e) \<and> e \<notin> alive_set (w_index w) \<and> alive_set (w_index w') = insert e (alive_set (w_index w)) \<and>
    storage_inv husk w' \<and> eis_ok (w_index w') \<and> located (w_index w') e = Some (p, tbl_count t) \<and>
    (\<forall>x \<in> alive_set (w_index w). \<forall>c. value_of w' x c = value_of w x c) \<and>
    (\<forall>c. case column_of t c of None \<Rightarrow> value_of w' e c = None
        | Some i \<Rightarrow> \<exists>v. value_of w' e c = Some v \<and> made husk (col_ti (tbl_columns t ! i)) v) \<and>
    w_released w' = w_released w \<and> w_tables w' = (w_tables w)(p := Some t') \<and> append_spec husk t e True t' \<and>
    (\<exists>index. flecs_entity_index_new_id (w_index w) = Inr (index, e) \<and> eis_max_id (w_index w') = eis_max_id index \<and> dead_ids (w_index w') = dead_ids index) \<and>
    ECS_RECORD_TO_ROW_FLAGS (rec_row (record_of (w_index w') (lo32 e))) = ECS_RECORD_TO_ROW_FLAGS (rec_row (record_of (w_index w) (lo32 e)))"
proof -
  note S = storage_invD [OF inv]
  obtain index e where n: "flecs_entity_index_new_id (w_index w) = Inr (index, e)" "eis_ok index" "e \<notin> alive_set (w_index w)"
    "alive_set index = insert e (alive_set (w_index w))" "\<forall>c. same_records (w_index w) index c"
    using issue_ok [OF ok dense ids] by blast
  note oinv = eis_okD [OF n(2)]
  have e: "e \<in> alive_set index" using n(4) by simp
  note F = fresh_no_table [OF S(1) n(3,5) oinv e n(4)]
  have wf: "table_wf husk (tbl_count t) t" using S(3) tab by auto
  then have st: "table_static husk t" and rows: "table_rows husk (tbl_count t) t" by (simp_all add: table_wf_def)
  have id: "flecs_new_id (w_index w) = Inr (index, e)" using n(1,2) by (simp add: flecs_new_id_def eis_ok_def)
  obtain w' t' where r: "flecs_new_entity ov (w\<lparr>w_index := index\<rparr>) e (lo32 e) p True = Inr w'" "append_spec husk t e True t'"
    "w_index w' = created_index index e p (tbl_count t)" "w_tables w' = (w_tables w)(p := Some t')" "w_released w' = w_released w"
    using new_entity_run [where w = "w\<lparr>w_index := index\<rparr>" and e = e and p = p and ov = ov, OF _ _ _ wf lock room ov] n(2) e tab by auto
  have run: "ecs_new_w_table ov w p = Inr (w', e)"
    using id r(1) alive_get(1) [OF oinv e] by (simp add: ecs_new_w_table_def)
  note C = created_index_ok [where p = p, OF n(2) e room, folded r(3)]
  have t': "entity_list t' = entity_list t @ [e]" "tbl_count t' = Suc (tbl_count t)" "same_shape t t'" "table_wf husk (tbl_count t') t'"
    using r(2) by (auto simp: append_spec_def)
  have al: "alive_set (w_index w') = insert e (alive_set (w_index w))" using C(2) n(4) by simp
  have here: "located (w_index w') e = Some (p, tbl_count t)" using C(3) [of e] by simp
  have there: "located (w_index w') x = located (w_index w) x" if "x \<in> alive_set (w_index w)" for x
    using C(3) [of x] F that by simp
  note A = row_added [OF inv n(3) tab room r(2) t'(4) r(4) eis_okD [OF C(1)] al here there]
  have own: "case column_of t c of None \<Rightarrow> value_of w' e c = None
        | Some i \<Rightarrow> \<exists>v. value_of w' e c = Some v \<and> made husk (col_ti (tbl_columns t ! i)) v" for c
    using made_row [OF r(2) st, of c] here by (simp add: value_of_def r(4) split: option.split)
  show ?thesis
    using run n(1,3) al A C(1,5,6,7) n(5) here own r(2,4,5) unfolding same_records_def
    by (intro exI [of _ w'] exI [of _ e] exI [of _ t']) simp
qed

section \<open>Making an id alive\<close>

text \<open>The root table has no columns, so that its rows need no construction.\<close>

lemma append_no_columns:
  assumes "append_spec husk t e False t'" and "tbl_columns t = []"
  shows "table_wf husk (tbl_count t') t'"
proof -
  have "tbl_columns t' = []" "tbl_count t' = tbl_count t + 1" "table_wf husk (tbl_count t) t'"
    using assms by (auto simp: append_spec_def same_shape_def)
  then show ?thesis by (simp add: table_wf_def table_rows_def)
qed

lemma make_alive_run:
  assumes inv: "storage_inv husk w" and ok: "eis_ok (w_index w)" and dense: "vec_count (eis_dense (w_index w)) < 2 ^ 30"
    and e0: "lo32 e \<noteq> 0" and dead: "lo32 e \<notin> lo32 ` alive_set (w_index w)"
    and tab: "w_tables w store_root = Some t" and lock: "tbl_lock t = 0" and room: "tbl_count t < 2 ^ 28" and ov: "\<And>i. ov i = None"
  shows "\<exists>w' t' k. ecs_make_alive ov w e = Inr w' \<and> append_spec husk t e False t' \<and> w_tables w' = (w_tables w)(store_root := Some t') \<and>
    w_index w' = place_at k e store_root (tbl_count t) \<and> w_released w' = w_released w \<and>
    eis_ok k \<and> alive_set k = insert e (alive_set (w_index w)) \<and> (\<forall>c. same_records (w_index w) k c)"
proof -
  note oinv = eis_okD [OF ok]
  have d: "pos_of (w_index w) (lo32 e) = 0 \<or> eis_alive_count (w_index w) \<le> pos_of (w_index w) (lo32 e)"
    using dead alive_index_iff [OF oinv e0] by auto
  obtain j k where k: "flecs_entity_index_make_alive (w_index w) e = Inr j" "flecs_entity_index_ensure j e = Inr (k, lo32 e)"
    "eis_ok k" "alive_set k = insert e (alive_set (w_index w))" "\<forall>c. same_records (w_index w) k c" "rec_table (record_of k (lo32 e)) = None"
    using make_alive_ensure [OF ok dense d] by blast
  have e: "e \<in> alive_set k" using k(4) by simp
  note kinv = eis_okD [OF k(3)]
  have ne: "e \<noteq> 0" using e0 by auto
  have cur: "ecs_get_alive (w_index w) (to64 (lo32 e)) = Inr 0"
    using ecs_get_alive_slot [OF oinv e0] d by auto
  have wf: "table_wf husk (tbl_count t) t" using storage_invD(3) [OF inv tab] .
  obtain w1 t' where a: "flecs_table_append (w\<lparr>w_index := k\<rparr>) t ov e False False = Inr (w1, t')" "quiet (w\<lparr>w_index := k\<rparr>) w1" "append_spec husk t e False t'"
    using table_append_ok [where w = "w\<lparr>w_index := k\<rparr>" and e = e and construct = False and on_add = False and ov = ov, OF wf lock _ ov] room by auto
  have q: "w_index w1 = k" "w_tables w1 = w_tables w" "w_released w1 = w_released w" using quiet_tables [OF a(2)] by simp_all
  define w' where "w' = (put_table w1 store_root t')\<lparr>w_index := place_at k e store_root (tbl_count t)\<rparr>"
  have pl: "record_place (put_table w1 store_root t') (lo32 e) store_root (tbl_count t) = Inr w'"
    using record_place_ok [of "put_table w1 store_root t'" e store_root "tbl_count t"] kinv e q(1) by (simp add: w'_def)
  have "ecs_make_alive ov w e = Inr w'"
    using cur ne k(1,2,6) alive_get(2) [OF kinv e] tab a(1) pl
    by (simp add: ecs_make_alive_def get_table_def ecs_table_count_def)
  then show ?thesis using a(3) q k(3-5) by (intro exI [of _ w'] exI [of _ t'] exI [of _ k]) (simp add: w'_def)
qed

lemma make_alive_ok:
  assumes inv: "storage_inv husk w" and ok: "eis_ok (w_index w)" and dense: "vec_count (eis_dense (w_index w)) < 2 ^ 30"
    and e0: "lo32 e \<noteq> 0" and dead: "lo32 e \<notin> lo32 ` alive_set (w_index w)"
    and tab: "w_tables w store_root = Some t" and root: "tbl_columns t = []" and lock: "tbl_lock t = 0"
    and room: "tbl_count t < 2 ^ 28" and ov: "\<And>i. ov i = None"
  shows "\<exists>w' t'. ecs_make_alive ov w e = Inr w' \<and> storage_inv husk w' \<and> eis_ok (w_index w') \<and>
    alive_set (w_index w') = insert e (alive_set (w_index w)) \<and> located (w_index w') e = Some (store_root, tbl_count t) \<and>
    ECS_RECORD_TO_ROW_FLAGS (rec_row (record_of (w_index w') (lo32 e))) = ECS_RECORD_TO_ROW_FLAGS (rec_row (record_of (w_index w) (lo32 e))) \<and>
    (\<forall>x \<in> alive_set (w_index w). located (w_index w') x = located (w_index w) x \<and> (\<forall>c. value_of w' x c = value_of w x c)) \<and>
    (\<forall>c. value_of w' e c = None) \<and> w_released w' = w_released w \<and>
    w_tables w' = (w_tables w)(store_root := Some t') \<and> same_shape t t' \<and> entity_list t' = entity_list t @ [e]"
proof -
  obtain w' t' k where R: "ecs_make_alive ov w e = Inr w'" "append_spec husk t e False t'" "w_tables w' = (w_tables w)(store_root := Some t')"
    "w_index w' = place_at k e store_root (tbl_count t)" "w_released w' = w_released w"
    "eis_ok k" "alive_set k = insert e (alive_set (w_index w))" "\<forall>c. same_records (w_index w) k c"
    using make_alive_run [where ov = ov, OF inv ok dense e0 dead tab lock room ov] by blast
  note kinv = eis_okD [OF R(6)]
  have e: "e \<in> alive_set k" and na: "e \<notin> alive_set (w_index w)" using R(7) dead by auto
  note P = place_at_ok [where p = store_root and row = "tbl_count t", OF kinv e, folded R(4)]
  have al: "alive_set (w_index w') = insert e (alive_set (w_index w))" using P(2) R(7) by simp
  have here: "located (w_index w') e = Some (store_root, tbl_count t)" using P(3) [OF room, of e] by simp
  have there: "located (w_index w') x = located (w_index w) x" if x: "x \<in> alive_set (w_index w)" for x
  proof -
    have "lo32 x \<noteq> lo32 e" using x dead by (metis imageI)
    moreover have "located k x = located (w_index w) x"
      using R(8) by (simp add: located_def same_records_def cong: option.case_cong)
    ultimately show ?thesis using P(3) [OF room, of x] by simp
  qed
  have wf': "table_wf husk (tbl_count t') t'" by (rule append_no_columns [OF R(2) root])
  note A = row_added [OF inv na tab room R(2) wf' R(3) P(1) al here there]
  have "column_ids t' = []" using R(2) root by (simp add: append_spec_def same_shape_def column_ids_def)
  then have own: "value_of w' e c = None" for c
    using here R(3) by (simp add: value_of_def cell_in_def column_of_def)
  have flags: "ECS_RECORD_TO_ROW_FLAGS (rec_row (record_of (w_index w') (lo32 e))) = ECS_RECORD_TO_ROW_FLAGS (rec_row (record_of (w_index w) (lo32 e)))"
    unfolding R(4) place_at_def by (subst index_upd(4) [OF kinv e]) (use R(8) in \<open>simp_all add: record_flags [OF room] same_records_def\<close>)
  show ?thesis
    using R(1,2,3,5) A al here there own flags place_at_eis_ok [OF R(6) e, of store_root "tbl_count t", folded R(4)]
    by (intro exI [of _ w'] exI [of _ t']) (simp add: append_spec_def)
qed

end
