(* ===== verification/EntityStorage_Values.thy ===== *)
theory EntityStorage_Values
  imports EntityStorage_Facts "HOL-Library.Multiset"
begin

text \<open>
  What the entities own: the values in the cells of their rows that a type manages.  Creating, moving and deleting an
  entity keeps the sum of the values that were released and those that are owned.
\<close>

section \<open>Owned values\<close>

text \<open>The values that the row of an entity owns.\<close>

definition owned :: "('v \<Rightarrow> bool) \<Rightarrow> 'v ecs_world_t \<Rightarrow> u64 \<Rightarrow> 'v multiset" where
  "owned husk w x = (case located (w_index w) x of None \<Rightarrow> {#} | Some (p, row) \<Rightarrow>
     (case w_tables w p of None \<Rightarrow> {#} | Some t \<Rightarrow> mset (row_values husk t row)))"

definition total_values :: "('v \<Rightarrow> bool) \<Rightarrow> 'v ecs_world_t \<Rightarrow> 'v multiset" where
  "total_values husk w = mset (w_released w) + (\<Sum>x \<in> alive_set (w_index w). owned husk w x)"

definition component_values :: "('v \<Rightarrow> bool) \<Rightarrow> 'v ecs_table_t \<Rightarrow> nat \<Rightarrow> u64 \<Rightarrow> 'v multiset" where
  "component_values husk t row c = (case column_of t c of None \<Rightarrow> {#}
     | Some i \<Rightarrow> mset (rel husk (col_ti (tbl_columns t ! i)) (col_data (tbl_columns t ! i) ! row)))"

lemma sum_columns:
  assumes "distinct (column_ids t)"
  shows "mset (concat (map f [0..<length (tbl_columns t)])) = (\<Sum>c \<in> set (column_ids t). case column_of t c of None \<Rightarrow> {#} | Some i \<Rightarrow> mset (f i))"
proof -
  let ?n = "length (tbl_columns t)"
  have "mset (concat (map f [0..<?n])) = (\<Sum>i \<in> {0..<?n}. mset (f i))"
    by (simp add: mset_concat sum_list_sum_nth comp_def)
  also have "\<dots> = (\<Sum>i \<in> {0..<?n}. case column_of t (column_ids t ! i) of None \<Rightarrow> {#} | Some i \<Rightarrow> mset (f i))"
  proof (rule sum.cong [OF refl])
    fix i assume "i \<in> {0..<?n}"
    then have "column_of t (column_ids t ! i) = Some i" using column_of_iff [OF assms] by simp
    then show "mset (f i) = (case column_of t (column_ids t ! i) of None \<Rightarrow> {#} | Some i \<Rightarrow> mset (f i))" by simp
  qed
  also have "\<dots> = (\<Sum>c \<in> (!) (column_ids t) ` {0..<?n}. case column_of t c of None \<Rightarrow> {#} | Some i \<Rightarrow> mset (f i))"
    using assms by (subst sum.reindex) (auto simp: inj_on_def nth_eq_iff_index_eq)
  also have "(!) (column_ids t) ` {0..<?n} = set (column_ids t)"
    by (auto simp: set_conv_nth)
  finally show ?thesis .
qed

lemma row_values_sum:
  assumes "table_static husk t"
  shows "mset (row_values husk t row) = (\<Sum>c \<in> set (column_ids t). component_values husk t row c)"
  unfolding row_values_def component_values_def by (rule sum_columns [OF static_distinct_ids [OF assms]])

lemma removed_values_sum:
  assumes "table_static husk src"
  shows "mset (removed_values husk dst src row) = (\<Sum>c \<in> set (column_ids src) - set (column_ids dst). component_values husk src row c)"
proof -
  have "mset (removed_values husk dst src row) = (\<Sum>c \<in> set (column_ids src). if c \<in> set (column_ids dst) then {#} else component_values husk src row c)"
    unfolding removed_values_def sum_columns [OF static_distinct_ids [OF assms]]
    by (rule sum.cong [OF refl]) (auto simp: component_values_def dest: column_of_Some(2) split: option.split)
  also have "\<dots> = (\<Sum>c \<in> set (column_ids src) - set (column_ids dst). component_values husk src row c)"
    by (rule sum.mono_neutral_cong_right) auto
  finally show ?thesis .
qed

text \<open>The values of a component are determined by its cell and its type info.\<close>

lemma component_values_cong:
  assumes "same_types t t'" "distinct (column_ids t)" "distinct (column_ids t')" "cell_in t row c = cell_in t' row' c"
  shows "component_values husk t row c = component_values husk t' row' c"
proof (cases "column_of t c")
  case None
  then have "column_of t' c = None" using assms(4) by (auto simp: cell_in_def)
  then show ?thesis using None by (simp add: component_values_def)
next
  case (Some i)
  then obtain j where j: "column_of t' c = Some j" using assms(4) by (cases "column_of t' c") (simp_all add: cell_in_def)
  have "col_ti (tbl_columns t ! i) = col_ti (tbl_columns t' ! j)"
    using assms(1) column_of_Some [OF Some] column_of_Some [OF j] by (simp add: same_types_def)
  moreover have "col_data (tbl_columns t ! i) ! row = col_data (tbl_columns t' ! j) ! row'" using assms(4) Some j by (simp add: cell_in_def)
  ultimately show ?thesis using Some j by (simp add: component_values_def)
qed

lemma cell_in_ids: "c \<in> set (column_ids t) \<longleftrightarrow> cell_in t row c \<noteq> None"
  by (auto simp: cell_in_def column_of_def)

lemma same_tables_types:
  assumes "storage_inv husk w" "same_tables w w'" "w_tables w p = Some t" "w_tables w' q = Some t'"
  shows "same_types t t'"
proof -
  obtain u where u: "w_tables w q = Some u" "same_shape u t'" using same_tables_Some [OF assms(2,4)] by blast
  show ?thesis using same_types_shape [OF storage_invD(5) [OF assms(1,3) u(1)] same_shape_refl u(2)] .
qed

lemma owned_eq:
  assumes inv: "storage_inv husk w" "storage_inv husk w'" "same_tables w w'" and al: "x \<in> alive_set (w_index w)" "x \<in> alive_set (w_index w')"
    and val: "\<And>c. value_of w' x c = value_of w x c"
  shows "owned husk w' x = owned husk w x"
proof -
  have table: "\<exists>t. w_tables v p = Some t \<and> table_static husk t \<and> (\<forall>c. value_of v x c = cell_in t row c)"
    if v: "storage_inv husk v" "x \<in> alive_set (w_index v)" "located (w_index v) x = Some (p, row)" for v :: "'a ecs_world_t" and p row
  proof -
    obtain t where t: "w_tables v p = Some t" using rows_invD(2) [OF storage_invD(2) [OF v(1)] v(2,3)] by blast
    then show ?thesis using storage_invD(3) [OF v(1) t] value_of_located [OF v(3) t] by (auto simp: table_wf_def)
  qed
  have empty: "owned husk v x = {#}" if v: "storage_inv husk v" "x \<in> alive_set (w_index v)" "\<And>c. value_of v x c = None" for v :: "'a ecs_world_t"
  proof (cases "located (w_index v) x")
    case None
    then show ?thesis by (simp add: owned_def)
  next
    case (Some pr)
    obtain p row where l: "located (w_index v) x = Some (p, row)" using Some by (cases pr) simp
    from table [OF v(1,2) l] obtain t where t: "w_tables v p = Some t" "table_static husk t" "\<forall>c. value_of v x c = cell_in t row c" by blast
    then have "c \<notin> set (column_ids t)" for c using v(3) cell_in_ids [of c t row] by simp
    then have "set (column_ids t) = {}" unfolding set_eq_iff by simp
    then show ?thesis using l t row_values_sum [OF t(2), of row] by (simp add: owned_def)
  qed
  show ?thesis
  proof (cases "located (w_index w) x = None \<or> located (w_index w') x = None")
    case True
    then have "value_of w x c = None" for c using val [of c] by (auto simp: value_of_def)
    then show ?thesis using empty [OF inv(1) al(1)] empty [OF inv(2) al(2)] val by simp
  next
    case False
    then obtain p row p' row' where l: "located (w_index w) x = Some (p, row)" "located (w_index w') x = Some (p', row')" by auto
    from table [OF inv(1) al(1) l(1)] obtain t where t: "w_tables w p = Some t" "table_static husk t" "\<forall>c. value_of w x c = cell_in t row c" by blast
    from table [OF inv(2) al(2) l(2)] obtain t' where t': "w_tables w' p' = Some t'" "table_static husk t'" "\<forall>c. value_of w' x c = cell_in t' row' c" by blast
    have cells: "cell_in t row c = cell_in t' row' c" for c using val [of c] t(3) t'(3) by simp
    have "set (column_ids t') = set (column_ids t)" using cells cell_in_ids [of _ t row] cell_in_ids [of _ t' row'] by auto
    moreover have "component_values husk t row c = component_values husk t' row' c" for c
      by (rule component_values_cong [OF same_tables_types [OF inv(1,3) t(1) t'(1)] static_distinct_ids [OF t(2)] static_distinct_ids [OF t'(2)] cells])
    ultimately show ?thesis using l t t' by (simp add: owned_def row_values_sum)
  qed
qed

lemma total_eqI:
  assumes inv: "storage_inv husk w" "storage_inv husk w'" "same_tables w w'" and A: "A \<subseteq> alive_set (w_index w)" "A \<subseteq> alive_set (w_index w')"
    and val: "\<And>x c. x \<in> A \<Longrightarrow> value_of w' x c = value_of w x c"
  shows "(\<Sum>x \<in> A. owned husk w' x) = (\<Sum>x \<in> A. owned husk w x)"
  using A val by (intro sum.cong [OF refl] owned_eq [OF inv]) auto

lemma alive_finite: "storage_inv husk w \<Longrightarrow> finite (alive_set (w_index w))"
  by (rule card_alive_set(2)) (rule storage_invD(1))

lemma owned_row:
  assumes "storage_inv husk w" "e \<in> alive_set (w_index w)" "located (w_index w) e = Some (p, row)" "w_tables w p = Some t"
  shows "owned husk w e = mset (row_values husk t row)" "table_static husk t"
    "owned husk w e = (\<Sum>c \<in> set (column_ids t). component_values husk t row c)"
proof -
  show "owned husk w e = mset (row_values husk t row)" using assms(3,4) by (simp add: owned_def)
  moreover show "table_static husk t" using storage_invD(3) [OF assms(1,4)] by (simp add: table_wf_def)
  ultimately show "owned husk w e = (\<Sum>c \<in> set (column_ids t). component_values husk t row c)" by (simp add: row_values_sum)
qed

lemma component_values_made:
  assumes "column_of t c = Some i" "cell_in t row c = Some v" "made husk (col_ti (tbl_columns t ! i)) v"
  shows "component_values husk t row c = {#}"
  using assms by (simp add: component_values_def cell_in_def made_def)

lemma create_total:
  assumes inv: "storage_inv husk w" "storage_inv husk w'" "same_tables w w'"
    and e: "e \<notin> alive_set (w_index w)" "alive_set (w_index w') = insert e (alive_set (w_index w))" "located (w_index w') e = Some (p, n)"
    and tab: "w_tables w p = Some t"
    and val: "\<And>x c. x \<in> alive_set (w_index w) \<Longrightarrow> value_of w' x c = value_of w x c"
    and own: "\<And>c. case column_of t c of None \<Rightarrow> value_of w' e c = None
        | Some i \<Rightarrow> \<exists>v. value_of w' e c = Some v \<and> made husk (col_ti (tbl_columns t ! i)) v"
    and rel: "w_released w' = w_released w"
  shows "total_values husk w' = total_values husk w"
proof -
  obtain t' where t': "w_tables w' p = Some t'" "same_shape t t'"
    using inv(3) tab unfolding same_tables_def by (metis option_rel_Some1)
  have co: "column_of t' = column_of t" using same_shape_column_of [OF t'(2)] .
  have e': "e \<in> alive_set (w_index w')" using e(2) by simp
  have "component_values husk t' n c = {#}" for c
  proof (cases "column_of t c")
    case None
    then show ?thesis by (simp add: component_values_def co)
  next
    case (Some i)
    then obtain v where v: "value_of w' e c = Some v" "made husk (col_ti (tbl_columns t ! i)) v" using own [of c] by auto
    moreover have "col_ti (tbl_columns t' ! i) = col_ti (tbl_columns t ! i)" using t'(2) column_of_Some(1) [OF Some] by (simp add: same_shape_def)
    ultimately show ?thesis using component_values_made [of t' c i n v husk] Some value_of_located [OF e(3) t'(1), of c] by (simp add: co)
  qed
  then have "owned husk w' e = {#}" by (simp add: owned_row(3) [OF inv(2) e' e(3) t'(1)])
  moreover have "(\<Sum>x \<in> alive_set (w_index w). owned husk w' x) = (\<Sum>x \<in> alive_set (w_index w). owned husk w x)"
    by (rule total_eqI [OF inv]) (auto simp: e(2) val)
  ultimately show ?thesis using e(1) alive_finite [OF inv(1)] by (simp add: total_values_def e(2) rel)
qed

lemma move_total:
  assumes inv: "storage_inv husk w" "storage_inv husk w'" "same_tables w w'"
    and e: "e \<in> alive_set (w_index w)" "located (w_index w) e = Some (p, row)" "located (w_index w') e = Some (q, n)"
    and al: "alive_set (w_index w') = alive_set (w_index w)"
    and tabs: "w_tables w p = Some src" "w_tables w q = Some dst"
    and mv: "moved_values husk w e dst src w'" and rel: "w_released w' = w_released w @ removed_values husk dst src row"
  shows "total_values husk w' = total_values husk w"
proof -
  obtain dst' where d: "w_tables w' q = Some dst'" "same_shape dst dst'"
    using inv(3) tabs(2) unfolding same_tables_def by (metis option_rel_Some1)
  have e': "e \<in> alive_set (w_index w')" using e(1) al by simp
  note S = owned_row [OF inv(1) e(1,2) tabs(1)] and D = owned_row [OF inv(2) e' e(3) d(1)]
  note ids = same_shape_ids(1) [OF d(2)] and co = same_shape_column_of [OF d(2)]
  let ?S = "set (column_ids src)" and ?D = "set (column_ids dst)"
  have cell: "value_of w' e c = cell_in dst' n c" "value_of w e c = cell_in src row c" for c
    using value_of_located [OF e(3) d(1)] value_of_located [OF e(2) tabs(1)] by simp_all
  have shared: "component_values husk dst' n c = component_values husk src row c" if "c \<in> ?D" "c \<in> ?S" for c
  proof (rule component_values_cong [symmetric, OF same_tables_types [OF inv(1,3) tabs(1) d(1)] static_distinct_ids [OF S(2)] static_distinct_ids [OF D(2)]])
    show "cell_in src row c = cell_in dst' n c"
      using mv that unfolding moved_values_def cell [symmetric] by (auto simp: column_of_def split: option.splits dest!: spec [of _ c])
  qed
  have added: "component_values husk dst' n c = {#}" if new: "c \<in> ?D" "c \<notin> ?S" for c
  proof -
    obtain i where i: "column_of dst c = Some i" using new(1) column_of_None [of dst c] by (cases "column_of dst c") simp_all
    have cn: "column_of src c = None" using new(2) by (simp add: column_of_None)
    have "case column_of dst c of None \<Rightarrow> value_of w' e c = None
        | Some i \<Rightarrow> if column_of src c \<noteq> None then value_of w' e c = value_of w e c
                    else \<exists>v. value_of w' e c = Some v \<and> made husk (col_ti (tbl_columns dst ! i)) v"
      using mv unfolding moved_values_def by blast
    then obtain v where "value_of w' e c = Some v" "made husk (col_ti (tbl_columns dst ! i)) v"
      unfolding i cn by auto
    moreover have "col_ti (tbl_columns dst' ! i) = col_ti (tbl_columns dst ! i)" using d(2) column_of_Some(1) [OF i] by (simp add: same_shape_def)
    ultimately show ?thesis using component_values_made [of dst' c i n v husk] i by (simp add: co cell)
  qed
  have "owned husk w' e = (\<Sum>c \<in> ?D. component_values husk dst' n c)" by (simp add: D(3) ids)
  also have "\<dots> = (\<Sum>c \<in> ?D \<inter> ?S. component_values husk dst' n c)" using added by (intro sum.mono_neutral_right) auto
  also have "\<dots> = (\<Sum>c \<in> ?S \<inter> ?D. component_values husk src row c)" using shared by (intro sum.cong) auto
  finally have "owned husk w' e + mset (removed_values husk dst src row) = owned husk w e"
    unfolding S(3) removed_values_sum [OF S(2)] using sum.Int_Diff [of ?S "component_values husk src row" ?D] by simp
  moreover have "(\<Sum>x \<in> alive_set (w_index w) - {e}. owned husk w' x) = (\<Sum>x \<in> alive_set (w_index w) - {e}. owned husk w x)"
    using mv by (intro total_eqI [OF inv]) (auto simp: al moved_values_def)
  ultimately show ?thesis
    using alive_finite [OF inv(1)] e(1) by (simp add: total_values_def al rel sum.remove ac_simps)
qed

lemma delete_total:
  assumes inv: "storage_inv husk w" "storage_inv husk w'" "same_tables w w'"
    and e: "e \<in> alive_set (w_index w)" "located (w_index w) e = Some (p, row)" "w_tables w p = Some t"
    and al: "alive_set (w_index w') = alive_set (w_index w) - {e}"
    and val: "\<And>x c. x \<in> alive_set (w_index w) - {e} \<Longrightarrow> value_of w' x c = value_of w x c"
    and rel: "w_released w' = w_released w @ row_values husk t row"
  shows "total_values husk w' = total_values husk w"
proof -
  have "(\<Sum>x \<in> alive_set (w_index w) - {e}. owned husk w' x) = (\<Sum>x \<in> alive_set (w_index w) - {e}. owned husk w x)"
    by (rule total_eqI [OF inv]) (auto simp: al val)
  then show ?thesis
    using alive_finite [OF inv(1)] e(1) by (simp add: total_values_def al rel sum.remove owned_row(1) [OF inv(1) e] ac_simps)
qed

end
