(* ===== verification/EntityStorage_Spec.thy ===== *)
theory EntityStorage_Spec
  imports EntityStorage_Values
begin

text \<open>
  The properties of entities in tables, for single operations and for all sequences of them, on a world with a root
  table and a table with a component whose values are managed by hooks.
\<close>

section \<open>Sequences of operations\<close>

datatype storage_event = Created u64 nat | Moved u64 nat | Deleted u64

text \<open>
  A step is a call that the application may make: its entity is alive and has a table, and the destination has room.
  \<open>od\<close> is the cleanup of relationships, which does not run for entities without row flags.
\<close>

inductive storage_step :: "('v ecs_world_t \<Rightarrow> 'v ecs_world_t res) \<Rightarrow> 'v ecs_world_t \<Rightarrow> storage_event \<Rightarrow> 'v ecs_world_t \<Rightarrow> bool" for od where
  create: "ecs_new_w_table (\<lambda>_. None) w p = Inr (w', e) \<Longrightarrow> vec_count (eis_dense (w_index w)) < 2 ^ 30 \<Longrightarrow>
    (dead_ids (w_index w) = [] \<longrightarrow> eis_max_id (w_index w) < 0xFFFFFFFF) \<Longrightarrow> w_tables w p = Some t \<Longrightarrow> tbl_count t < 2 ^ 28 \<Longrightarrow>
    storage_step od w (Created e p) w'"
| move: "flecs_move_entity (\<lambda>_. None) w e (lo32 e) q 0 = Inr w' \<Longrightarrow> e \<in> alive_set (w_index w) \<Longrightarrow>
    located (w_index w) e = Some (p, row) \<Longrightarrow> p \<noteq> q \<Longrightarrow> w_tables w q = Some dst \<Longrightarrow> tbl_count dst < 2 ^ 28 \<Longrightarrow> 0 \<notin> set (column_ids dst) \<Longrightarrow>
    storage_step od w (Moved e q) w'"
| delete: "ecs_delete False False od w e = Inr w' \<Longrightarrow> e \<in> alive_set (w_index w) \<Longrightarrow> e \<noteq> 0 \<Longrightarrow> located (w_index w) e = Some (p, row) \<Longrightarrow>
    ECS_RECORD_TO_ROW_FLAGS (rec_row (record_of (w_index w) (lo32 e))) = 0 \<Longrightarrow> storage_step od w (Deleted e) w'"

inductive storage_run :: "('v ecs_world_t \<Rightarrow> 'v ecs_world_t res) \<Rightarrow> 'v ecs_world_t \<Rightarrow> storage_event list \<Rightarrow> 'v ecs_world_t \<Rightarrow> bool" for od where
  storage_nil: "storage_run od w [] w"
| storage_cons: "storage_step od w ev w' \<Longrightarrow> storage_run od w' evs w'' \<Longrightarrow> storage_run od w (ev # evs) w''"

inductive_cases storage_run_ConsE: "storage_run od w (ev # evs) w'"

fun event_entity :: "storage_event \<Rightarrow> u64" where
  "event_entity (Created e p) = e" | "event_entity (Moved e p) = e" | "event_entity (Deleted e) = e"

text \<open>The invariant of runs: also, no table is locked and no range is active.\<close>

definition world_ok :: "('v \<Rightarrow> bool) \<Rightarrow> 'v ecs_world_t \<Rightarrow> bool" where
  "world_ok husk w \<longleftrightarrow> storage_inv husk w \<and> eis_ok (w_index w) \<and> (\<forall>p t. w_tables w p = Some t \<longrightarrow> tbl_lock t = 0)"

lemma world_okD:
  assumes "world_ok husk w"
  shows "storage_inv husk w" "eis_ok (w_index w)" "w_tables w p = Some t \<Longrightarrow> tbl_lock t = 0" "eis_active_range (w_index w) = None"
  using assms by (auto simp: world_ok_def eis_ok_def)

lemma world_okI:
  assumes "world_ok husk w" "storage_inv husk w'" "eis_ok (w_index w')" "same_tables w w'"
  shows "world_ok husk w'"
proof -
  have "tbl_lock t' = 0" if "w_tables w' p = Some t'" for p t'
    using same_tables_Some [OF assms(4) that] world_okD(3) [OF assms(1)] by (auto simp: same_shape_def)
  then show ?thesis using assms(2,3) by (simp add: world_ok_def)
qed

lemma located_tables:
  assumes "storage_inv husk w" "e \<in> alive_set (w_index w)" "located (w_index w) e = Some (p, row)"
  shows "\<exists>t. w_tables w p = Some t \<and> row < tbl_count t"
  using rows_invD(2) [OF storage_invD(2) [OF assms(1)] assms(2,3)] by blast

lemma storage_step_ok:
  assumes "storage_step od w ev w'" "world_ok husk w"
  shows "world_ok husk w' \<and> alive_set (w_index w') = (case ev of Created e _ \<Rightarrow> insert e (alive_set (w_index w)) | Moved e _ \<Rightarrow> alive_set (w_index w)
      | Deleted e \<Rightarrow> alive_set (w_index w) - {e}) \<and>
    (\<forall>x \<in> alive_set (w_index w). x \<noteq> event_entity ev \<longrightarrow> (\<forall>c. value_of w' x c = value_of w x c)) \<and>
    (\<forall>e p. ev = Created e p \<longrightarrow> e \<notin> alive_set (w_index w)) \<and> total_values husk w' = total_values husk w"
  using assms(1)
proof cases
  case (create p e t)
  note W = world_okD [OF assms(2)]
  from new_w_table_ok [where ov = "\<lambda>_. None", OF W(1,2) create(3,4,5) W(3) [OF create(5)] create(6) refl] create(2) obtain t' where
    n: "e \<notin> alive_set (w_index w)" "alive_set (w_index w') = insert e (alive_set (w_index w))" "storage_inv husk w'" "eis_ok (w_index w')"
    "\<forall>x \<in> alive_set (w_index w). \<forall>c. value_of w' x c = value_of w x c" "w_tables w' = (w_tables w)(p := Some t')" "append_spec husk t e True t'"
    "located (w_index w') e = Some (p, tbl_count t)" "w_released w' = w_released w"
    "\<forall>c. case column_of t c of None \<Rightarrow> value_of w' e c = None
        | Some i \<Rightarrow> \<exists>v. value_of w' e c = Some v \<and> made husk (col_ti (tbl_columns t ! i)) v" by auto
  have sm: "same_tables w w'" using same_tables_upd [OF n(6) create(5)] n(7) by (simp add: append_spec_def)
  have "total_values husk w' = total_values husk w"
    by (rule create_total [OF W(1) n(3) sm n(1,2,8) create(5)]) (use n(5,9,10) in auto)
  with world_okI [OF assms(2) n(3,4) sm] show ?thesis using n(1,2,5) create(1) by auto
next
  case (move e q p row dst)
  note W = world_okD [OF assms(2)]
  obtain src where src: "w_tables w p = Some src" using located_tables [OF W(1) move(3,4)] by blast
  from move_entity_ok [where ov = "\<lambda>_. None" and emplace_id = 0, OF W(1) move(3,4) src move(6,5) W(3) [OF src] W(3) [OF move(6)] move(7) refl] move(2,8)
  have n: "storage_inv husk w'" "alive_set (w_index w') = alive_set (w_index w)" "moved_values husk w e dst src w'" "same_tables w w'"
    "eis_ok (w_index w')" "located (w_index w') e = Some (q, tbl_count dst)" "w_released w' = w_released w @ removed_values husk dst src row" using W(2) by auto
  have "total_values husk w' = total_values husk w" by (rule move_total [OF W(1) n(1,4) move(3,4) n(6,2) src move(6) n(3,7)])
  with world_okI [OF assms(2) n(1,5,4)] show ?thesis using n(2,3) move(1) by (auto simp: moved_values_def)
next
  case (delete e p row)
  note W = world_okD [OF assms(2)]
  obtain t where t: "w_tables w p = Some t" using located_tables [OF W(1) delete(3,5)] by blast
  from delete_entity_ok [OF W(1) delete(3,4,5) t W(3) [OF t] W(4) delete(6), of od] delete(2)
  have n: "storage_inv husk w'" "alive_set (w_index w') = alive_set (w_index w) - {e}" "same_tables w w'" "eis_ok (w_index w')"
    "\<forall>x \<in> alive_set (w_index w) - {e}. \<forall>c. value_of w' x c = value_of w x c" "w_released w' = w_released w @ row_values husk t row" using W(2) by auto
  have "total_values husk w' = total_values husk w"
    by (rule delete_total [OF W(1) n(1,3) delete(3,5) t n(2) _ n(6)]) (use n(5) in auto)
  with world_okI [OF assms(2) n(1,4,3)] show ?thesis using n(2,5) delete(1) by auto
qed

lemma storage_run_ok: "storage_run od w evs w' \<Longrightarrow> world_ok husk w \<Longrightarrow> world_ok husk w'"
  by (induction rule: storage_run.induct) (auto dest: storage_step_ok)

lemma storage_run_total: "storage_run od w evs w' \<Longrightarrow> world_ok husk w \<Longrightarrow> total_values husk w' = total_values husk w"
  by (induction rule: storage_run.induct) (auto dest: storage_step_ok)

text \<open>Deleting all entities, one after the other.\<close>

lemma drain_run:
  assumes "world_ok husk w" and "\<forall>e \<in> alive_set (w_index w). e \<noteq> 0 \<and> in_table (w_index w) e" and "card (alive_set (w_index w)) = n"
  shows "\<exists>evs w'. storage_run od w evs w' \<and> length evs = n \<and> alive_set (w_index w') = {}"
  using assms
proof (induction n arbitrary: w)
  case 0
  have "finite (alive_set (w_index w))" by (rule alive_finite [OF world_okD(1) [OF 0(1)]])
  then have "alive_set (w_index w) = {}" using 0(3) by simp
  then show ?case by (intro exI [of _ "[]"] exI [of _ w]) (simp add: storage_run.intros)
next
  case (Suc n)
  note W = world_okD [OF Suc.prems(1)]
  obtain e where e: "e \<in> alive_set (w_index w)" using Suc.prems(3) by fastforce
  then have ne: "e \<noteq> 0" and it: "in_table (w_index w) e" using Suc.prems(2) by auto
  obtain p row where loc: "located (w_index w) e = Some (p, row)" using it by (auto simp: in_table_def)
  have fl: "ECS_RECORD_TO_ROW_FLAGS (rec_row (record_of (w_index w) (lo32 e))) = 0" using it by (simp add: in_table_def)
  obtain t where t: "w_tables w p = Some t" using located_tables [OF W(1) e loc] by blast
  from delete_entity_ok [OF W(1) e ne loc t W(3) [OF t] W(4) fl, of od] obtain w1 where
    d: "ecs_delete False False od w e = Inr w1" "alive_set (w_index w1) = alive_set (w_index w) - {e}"
      "\<forall>x \<in> alive_set (w_index w) - {e}. in_table (w_index w) x \<longrightarrow> in_table (w_index w1) x" by blast
  have st: "storage_step od w (Deleted e) w1" by (rule storage_step.delete [OF d(1) e ne loc fl])
  have fin: "finite (alive_set (w_index w))" by (rule alive_finite [OF W(1)])
  have w1: "world_ok husk w1" using storage_step_ok [OF st Suc.prems(1)] by blast
  have ok1: "\<forall>x \<in> alive_set (w_index w1). x \<noteq> 0 \<and> in_table (w_index w1) x" using Suc.prems(2) d(2,3) by auto
  have c1: "card (alive_set (w_index w1)) = n" using Suc.prems(3) d(2) e fin by simp
  from Suc.IH [OF w1 ok1 c1] obtain evs w' where "storage_run od w1 evs w'" "length evs = n" "alive_set (w_index w') = {}" by blast
  then show ?case using st by (intro exI [of _ "Deleted e # evs"] exI [of _ w']) (simp add: storage_run.intros)
qed

section \<open>A world\<close>

text \<open>A component with a destructor and a move, and tables whose columns the code derives from their types.\<close>

definition demo_component :: "u64 \<Rightarrow> nat ecs_type_info_t" where
  "demo_component c = (case ecs_set_hooks_id True False None c
     (no_hooks\<lparr>h_ctor := None, h_dtor := Some (App demo_dtor), h_move := Some (App demo_move)\<rparr>) demo_type of Inr (ti, _) \<Rightarrow> ti | Inl _ \<Rightarrow> demo_type)"

definition demo_blank :: "u64 list \<Rightarrow> nat ecs_table_t" where
  "demo_blank ids = \<lparr>tbl_id = 0, tbl_flags = 0, tbl_version = 0, tbl_type = ids, tbl_entities = [], tbl_columns = [], tbl_count = 0, tbl_size = 0,
      tbl_component_map = replicate 256 0, tbl_dirty_state = None, tbl_t2s = [], tbl_s2t = [], tbl_lock = 0, tbl_traversable_count = 0,
      tbl_bs_offset = 0, tbl_bs_columns = []\<rparr>"

definition demo_record :: "u64 \<Rightarrow> nat ecs_table_record_t" where
  "demo_record c = \<lparr>tr_id = c, tr_type_info = Some (demo_component c), tr_sparse = False, tr_index = 0, tr_column = - 1\<rparr>"

definition demo_table :: "u64 list \<Rightarrow> nat ecs_table_t" where
  "demo_table ids = fst (flecs_table_init_data (demo_blank ids) (map demo_record ids) (length ids) 0)"

definition demo_world :: "nat ecs_world_t" where
  "demo_world = \<lparr>w_index = flecs_entity_index_init zero_entity_index,
     w_tables = [0 \<mapsto> demo_table [], 1 \<mapsto> demo_table [300], 2 \<mapsto> demo_table [300, 301]],
     w_table_version = (\<lambda>_. 0), w_released = [], w_invoked = [], w_actions = []\<rparr>"

abbreviation demo_husk :: "nat \<Rightarrow> bool" where "demo_husk \<equiv> (\<lambda>v. v = 0)"

lemma demo_component_ok: "managed demo_husk (demo_component c)" "type_ok demo_husk (demo_component c)"
proof -
  have "demo_component c = demo_type\<lparr>ti_hooks := no_hooks\<lparr>h_ctor := Some (Default flecs_default_ctor), h_dtor := Some (App demo_dtor),
       h_move := Some (App demo_move), h_move_ctor := Some (Default flecs_default_move_ctor),
       h_ctor_move_dtor := Some (Default flecs_default_ctor_w_move_w_dtor), h_move_dtor := Some (Default flecs_default_move_w_dtor),
       h_cmp := Some Illegal, h_equals := Some Illegal, h_flags := 0x1800EB\<rparr>\<rparr>"
    unfolding demo_component_def by (subst set_hooks_dtor_move) (simp_all add: demo_type_def or_else_def)
  moreover from this show "managed demo_husk (demo_component c)"
    by (intro derived_managed [where ctor = "Some (Default flecs_default_ctor)" and d = demo_dtor and m = demo_move])
      (simp_all add: demo_type_def demo_dtor_def demo_move_def dtor_law_def move_law_def released_def)
  ultimately show "type_ok demo_husk (demo_component c)" by (simp add: type_ok_def demo_type_def)
qed

lemma demo_blank_fields:
  "tbl_count (demo_blank ids) = 0" "tbl_size (demo_blank ids) = 0" "tbl_entities (demo_blank ids) = []" "tbl_lock (demo_blank ids) = 0"
  "tbl_type (demo_blank ids) = ids" "tbl_columns (demo_blank ids) = []" "tbl_dirty_state (demo_blank ids) = None" "tbl_flags (demo_blank ids) = 0"
  "tbl_bs_offset (demo_blank ids) = 0" "tbl_bs_columns (demo_blank ids) = []" "tbl_s2t (demo_blank ids) = []" "tbl_t2s (demo_blank ids) = []"
  by (simp_all add: demo_blank_def)

lemma demo_record_fields: "tr_type_info (demo_record c) = Some (demo_component c)" "tr_sparse (demo_record c) = False"
  by (simp_all add: demo_record_def)

lemma demo_high: "component_map_set cm 300 x = cm" "component_map_set cm 301 x = cm"
  by (simp_all add: component_map_set_def FLECS_HI_COMPONENT_ID_def)

definition demo_column :: "u64 \<Rightarrow> nat ecs_column_t" where
  "demo_column c = \<lparr>col_data = [], col_ti = demo_component c\<rparr>"

lemma demo_table_fields:
  assumes "ids \<in> {[], [300], [300, 301]}"
  shows "tbl_count (demo_table ids) = 0" "tbl_size (demo_table ids) = 0" "tbl_entities (demo_table ids) = []" "tbl_lock (demo_table ids) = 0"
    "tbl_type (demo_table ids) = ids" "tbl_s2t (demo_table ids) = [0..<length ids]" "tbl_bs_columns (demo_table ids) = []"
    "tbl_columns (demo_table ids) = map demo_column ids" "tbl_dirty_state (demo_table ids) = None" "tbl_bs_offset (demo_table ids) = 0"
    "tbl_flags (demo_table ids) = fold (\<lambda>c f. f OR flecs_type_info_flags (demo_component c)) ids 0"
proof -
  note unf = demo_table_def flecs_table_init_data_def flecs_table_init_columns_def init_component_map_def demo_blank_fields demo_record_fields demo_high
    wildcard_columns_def demo_column_def
  consider "ids = []" | "ids = [300]" | "ids = [300, 301]" using assms by auto
  then show "tbl_count (demo_table ids) = 0" "tbl_size (demo_table ids) = 0" "tbl_entities (demo_table ids) = []" "tbl_lock (demo_table ids) = 0"
    "tbl_type (demo_table ids) = ids" "tbl_s2t (demo_table ids) = [0..<length ids]" "tbl_bs_columns (demo_table ids) = []"
    "tbl_columns (demo_table ids) = map demo_column ids" "tbl_dirty_state (demo_table ids) = None" "tbl_bs_offset (demo_table ids) = 0"
    "tbl_flags (demo_table ids) = fold (\<lambda>c f. f OR flecs_type_info_flags (demo_component c)) ids 0"
    by (cases; simp add: unf Let_def upt_rec)+
qed

lemma demo_table_wf:
  assumes ids: "ids \<in> {[], [300], [300, 301]}"
  shows "table_wf demo_husk (tbl_count (demo_table ids)) (demo_table ids)" "column_ids (demo_table ids) = ids"
proof -
  note D = demo_table_fields [OF ids]
  show c: "column_ids (demo_table ids) = ids"
    by (rule nth_equalityI) (simp_all add: D column_ids_def flecs_column_id_def)
  have so: "sorted_wrt (<) ids" using ids by auto
  have tog: "sorted_wrt (<) (toggle_ids (demo_table ids))"
    using ids unfolding toggle_ids_def D by (auto simp: ECS_HAS_ID_FLAG_def)
  have fl: "has_flag (tbl_flags (demo_table ids)) m" if "c \<in> set ids" "has_flag (flecs_type_info_flags (demo_component c)) m" for c m
    using ids that unfolding D by (auto simp: has_flag_or_left)
  have st: "table_static demo_husk (demo_table ids)"
    unfolding table_static_def
  proof (intro conjI ballI)
    fix x assume "x \<in> set (tbl_columns (demo_table ids))"
    then obtain c where x: "x = demo_column c" "c \<in> set ids" by (auto simp: D(8))
    then show "type_ok demo_husk (col_ti x)" using demo_component_ok(2) by (simp add: demo_column_def)
    show "\<forall>m. has_flag (flecs_type_info_flags (col_ti x)) m \<longrightarrow> has_flag (tbl_flags (demo_table ids)) m"
      using fl x by (simp add: demo_column_def)
  qed (simp_all add: so tog c D(5-10))
  have "table_rows demo_husk 0 (demo_table ids)" unfolding table_rows_def D by (simp add: demo_column_def)
  with st show "table_wf demo_husk (tbl_count (demo_table ids)) (demo_table ids)" by (simp add: table_wf_def D(1))
qed

lemma demo_tables: "w_tables demo_world p = Some t \<longleftrightarrow> p = 0 \<and> t = demo_table [] \<or> p = 1 \<and> t = demo_table [300] \<or> p = 2 \<and> t = demo_table [300, 301]"
  by (auto simp: demo_world_def)

lemma demo_world_ok: "world_ok demo_husk demo_world"
proof -
  have inst: "\<exists>ids \<in> {[], [300], [300, 301]}. t = demo_table ids" if "w_tables demo_world p = Some t" for p t
    using that unfolding demo_tables by auto
  have index: "w_index demo_world = flecs_entity_index_init zero_entity_index" by (simp add: demo_world_def)
  have tab: "tbl_count t = 0 \<and> table_wf demo_husk (tbl_count t) t \<and> tbl_lock t = 0 \<and>
      (\<forall>i < length (tbl_columns t). col_ti (tbl_columns t ! i) = demo_component (column_ids t ! i))" if p: "w_tables demo_world p = Some t" for p t
  proof -
    obtain ids where ids: "ids \<in> {[], [300], [300, 301]}" and t: "t = demo_table ids" using inst [OF p] by blast
    note D = demo_table_fields [OF ids] and W = demo_table_wf [OF ids]
    show ?thesis unfolding t W(2) using D(1,4,8) W(1) by (simp add: demo_column_def)
  qed
  have "\<not> at_row (w_tables demo_world) e p i" for e p i
  proof
    assume "at_row (w_tables demo_world) e p i"
    then obtain t where "w_tables demo_world p = Some t" "i < tbl_count t" unfolding at_row_def by blast
    with tab [of p t] show False by simp
  qed
  then have "rows_inv (w_index demo_world) (w_tables demo_world)"
    by (simp add: rows_inv_def rows_rel_def index init_inv(2))
  moreover have "same_types t u" if "w_tables demo_world p = Some t" "w_tables demo_world q = Some u" for p q t u
    using tab [OF that(1)] tab [OF that(2)] by (simp add: same_types_def)
  moreover have "table_wf demo_husk (tbl_count t) t \<and> tbl_count t \<le> 2 ^ 28 \<and> tbl_lock t = 0" if "w_tables demo_world p = Some t" for p t
    using tab [OF that] by (metis le0)
  ultimately show ?thesis
    using eis_ok_init [of zero_entity_index] unfolding world_ok_def storage_inv_def index by (blast intro: eis_okD)
qed

text \<open>The first entity, in the table with one component.\<close>

definition demo_created :: "nat ecs_world_t \<times> u64" where
  "demo_created = (case ecs_new_w_table (\<lambda>_. None) demo_world 1 of Inr r \<Rightarrow> r | Inl _ \<Rightarrow> (demo_world, 0))"

abbreviation demo_world_1 :: "nat ecs_world_t" where "demo_world_1 \<equiv> fst demo_created"
abbreviation demo_entity :: u64 where "demo_entity \<equiv> snd demo_created"

lemma demo_room:
  "vec_count (eis_dense (w_index demo_world)) < 2 ^ 30" "dead_ids (w_index demo_world) = []" "eis_max_id (w_index demo_world) = 0"
  "w_tables demo_world 1 = Some (demo_table [300])" "tbl_count (demo_table [300]) = 0" "pos_of (w_index demo_world) c = 0"
  "alive_set (w_index demo_world) = {}" "rec_row (record_of (w_index demo_world) c) = 0"
proof -
  let ?i = "flecs_entity_index_init zero_entity_index"
  have "eis_alive_count ?i = 1" by (simp add: flecs_entity_index_init_def)
  moreover have "dead_ids ?i = []" by (rule init_inv(3))
  ultimately have "vec_count (eis_dense ?i) = 1" using dead_ids_Nil [OF init_inv(1), of zero_entity_index] by simp
  then show "vec_count (eis_dense (w_index demo_world)) < 2 ^ 30" by (simp add: demo_world_def)
  show "rec_row (record_of (w_index demo_world) c) = 0"
    by (simp add: demo_world_def record_of_def has_page_def flecs_entity_index_init_def zero_record_def)
  show "eis_max_id (w_index demo_world) = 0" by (simp add: demo_world_def flecs_entity_index_init_def zero_entity_index_def)
qed (simp_all add: demo_world_def init_inv demo_table_fields(1))

lemma demo_created_ok:
  "ecs_new_w_table (\<lambda>_. None) demo_world 1 = Inr (demo_world_1, demo_entity)" "world_ok demo_husk demo_world_1"
  "alive_set (w_index demo_world_1) = {demo_entity}" "demo_entity \<noteq> 0" "located (w_index demo_world_1) demo_entity = Some (1, 0)"
  "ECS_RECORD_TO_ROW_FLAGS (rec_row (record_of (w_index demo_world_1) (lo32 demo_entity))) = 0"
  "w_tables demo_world_1 2 = Some (demo_table [300, 301])" "vec_count (eis_dense (w_index demo_world_1)) < 2 ^ 30"
  "eis_max_id (w_index demo_world_1) < 0xFFFFFFFF"
  "\<exists>t. w_tables demo_world_1 1 = Some t \<and> tbl_count t = 1 \<and> column_ids t = [300]"
proof -
  note W = world_okD [OF demo_world_ok]
  have id0: "dead_ids (w_index demo_world) = [] \<longrightarrow> eis_max_id (w_index demo_world) < 0xFFFFFFFF" by (simp add: demo_room)
  have room: "tbl_count (demo_table [300]) < 2 ^ 28" by (simp add: demo_room)
  obtain w' e t' index where n: "ecs_new_w_table (\<lambda>_. None) demo_world 1 = Inr (w', e)"
    "alive_set (w_index w') = insert e (alive_set (w_index demo_world))" "storage_inv demo_husk w'" "eis_ok (w_index w')"
    "located (w_index w') e = Some (1, tbl_count (demo_table [300]))" "w_tables w' = (w_tables demo_world)(1 := Some t')"
    "append_spec demo_husk (demo_table [300]) e True t'" "flecs_entity_index_new_id (w_index demo_world) = Inr (index, e)"
    "eis_max_id (w_index w') = eis_max_id index" "dead_ids (w_index w') = dead_ids index"
    "ECS_RECORD_TO_ROW_FLAGS (rec_row (record_of (w_index w') (lo32 e))) = ECS_RECORD_TO_ROW_FLAGS (rec_row (record_of (w_index demo_world) (lo32 e)))"
    using new_w_table_ok [where ov = "\<lambda>_. None", OF W(1,2) demo_room(1) id0 demo_room(4) W(3) [OF demo_room(4)] room refl] by blast
  have d: "demo_world_1 = w'" "demo_entity = e" using n(1) by (simp_all add: demo_created_def)
  show "ecs_new_w_table (\<lambda>_. None) demo_world 1 = Inr (demo_world_1, demo_entity)" using n(1) by (simp add: d)
  have "same_tables demo_world w'" using same_tables_upd [OF n(6) demo_room(4)] n(7) by (simp add: append_spec_def)
  then show "world_ok demo_husk demo_world_1" unfolding d by (rule world_okI [OF demo_world_ok n(3,4)])
  show al: "alive_set (w_index demo_world_1) = {demo_entity}" by (simp add: d n(2) demo_room)
  show "located (w_index demo_world_1) demo_entity = Some (1, 0)" by (simp add: d n(5) demo_room)
  show "ECS_RECORD_TO_ROW_FLAGS (rec_row (record_of (w_index demo_world_1) (lo32 demo_entity))) = 0"
    unfolding d n(11) by (simp add: demo_room ECS_RECORD_TO_ROW_FLAGS_def)
  show "w_tables demo_world_1 2 = Some (demo_table [300, 301])" by (simp add: d n(6) demo_world_def)
  obtain index' where i: "flecs_entity_index_new_id (w_index demo_world) = Inr (index', to64 1)" "eis_max_id index' = 1" "dead_ids index' = []"
    using new_id_fresh [OF storage_invD(1) [OF W(1)] demo_room(2,1)] by (auto simp: demo_room)
  then have ie: "index = index'" "e = to64 1" using n(8) by simp_all
  then show "demo_entity \<noteq> 0" by (simp add: d)
  show "eis_max_id (w_index demo_world_1) < 0xFFFFFFFF" using n(9) i(2) ie by (simp add: d)
  have "eis_alive_count (w_index w') = vec_count (eis_dense (w_index w'))"
    using dead_ids_Nil [OF storage_invD(1) [OF n(3)]] n(10) i(3) ie by simp
  moreover have "int (card (alive_set (w_index w'))) = int (eis_alive_count (w_index w')) - 1"
    using card_alive_set(1) [OF storage_invD(1) [OF n(3)]] by (simp add: flecs_entity_index_count_def)
  ultimately show "vec_count (eis_dense (w_index demo_world_1)) < 2 ^ 30" using al by (simp add: d)
  have "column_ids t' = [300]" using n(7) same_shape_ids(1) [of "demo_table [300]" t'] demo_table_wf(2) [of "[300]"] by (simp add: append_spec_def)
  then show "\<exists>t. w_tables demo_world_1 1 = Some t \<and> tbl_count t = 1 \<and> column_ids t = [300]"
    using n(6,7) by (simp add: d append_spec_def demo_room)
qed

section \<open>The properties of single operations\<close>

text \<open>
  C6: \<open>ecs_new_w_table\<close> returns a new alive entity, whose record and table row point at each other; it has exactly the
  components of the table, all constructed; no other entity's values change and nothing is released.
\<close>

theorem create_entity_spec:
  assumes "world_ok husk w" and "vec_count (eis_dense (w_index w)) < 2 ^ 30"
    and "dead_ids (w_index w) = [] \<longrightarrow> eis_max_id (w_index w) < 0xFFFFFFFF"
    and "w_tables w p = Some t" and "tbl_count t < 2 ^ 28"
  shows "\<exists>w' e. ecs_new_w_table (\<lambda>_. None) w p = Inr (w', e) \<and> e \<notin> alive_set (w_index w) \<and>
    alive_set (w_index w') = insert e (alive_set (w_index w)) \<and> storage_inv husk w' \<and> located (w_index w') e = Some (p, tbl_count t) \<and>
    (\<forall>x \<in> alive_set (w_index w). \<forall>c. value_of w' x c = value_of w x c) \<and>
    (\<forall>c. case column_of t c of None \<Rightarrow> value_of w' e c = None
        | Some i \<Rightarrow> \<exists>v. value_of w' e c = Some v \<and> made husk (col_ti (tbl_columns t ! i)) v) \<and>
    w_released w' = w_released w"
  using new_w_table_ok [where ov = "\<lambda>_. None", OF world_okD(1,2) [OF assms(1)] assms(2-4) world_okD(3) [OF assms(1,4)] assms(5) refl] by blast

theorem create_entity_spec_witness:
  "\<exists>w' e. ecs_new_w_table (\<lambda>_. None) demo_world 1 = Inr (w', e) \<and> located (w_index w') e = Some (1, 0) \<and> storage_inv demo_husk w'"
  using create_entity_spec [OF demo_world_ok demo_room(1) _ demo_room(4)] by (auto simp: demo_room)

text \<open>
  C2: \<open>flecs_move_entity\<close> of an alive entity into another table returns; the entity has exactly the components of the
  new table, with its old value for each that it had and a constructed value for the others; no other entity's values
  change, although the last one of the old table moved into the free row; records and rows still point at each
  other; and exactly the values of the removed components are released.
\<close>

theorem move_entity_spec:
  assumes "world_ok husk w" and "e \<in> alive_set (w_index w)" and "located (w_index w) e = Some (p, row)"
    and "w_tables w p = Some src" and "w_tables w q = Some dst" and "p \<noteq> q" and "tbl_count dst < 2 ^ 28"
    and "emplace_id \<notin> set (column_ids dst) \<or> emplace_id \<in> set (column_ids src)"
  shows "\<exists>w'. flecs_move_entity (\<lambda>_. None) w e (lo32 e) q emplace_id = Inr w' \<and> storage_inv husk w' \<and>
    alive_set (w_index w') = alive_set (w_index w) \<and> located (w_index w') e = Some (q, tbl_count dst) \<and>
    (\<forall>x c. x \<in> alive_set (w_index w) \<and> x \<noteq> e \<longrightarrow> value_of w' x c = value_of w x c) \<and>
    (\<forall>c. case column_of dst c of None \<Rightarrow> value_of w' e c = None
        | Some i \<Rightarrow> if column_of src c \<noteq> None then value_of w' e c = value_of w e c
                    else \<exists>v. value_of w' e c = Some v \<and> made husk (col_ti (tbl_columns dst ! i)) v) \<and>
    w_released w' = w_released w @ removed_values husk dst src row"
  using move_entity_ok [where ov = "\<lambda>_. None", OF world_okD(1) [OF assms(1)] assms(2-6) world_okD(3) [OF assms(1,4)] world_okD(3) [OF assms(1,5)] assms(7) refl assms(8)]
  unfolding moved_values_def by blast

theorem move_entity_spec_witness:
  "\<exists>w'. flecs_move_entity (\<lambda>_. None) demo_world_1 demo_entity (lo32 demo_entity) 2 0 = Inr w' \<and> storage_inv demo_husk w' \<and>
     located (w_index w') demo_entity = Some (2, 0)"
proof -
  obtain t where "w_tables demo_world_1 1 = Some t" using demo_created_ok(10) by blast
  from move_entity_spec [OF demo_created_ok(2) _ demo_created_ok(5) this demo_created_ok(7), of 0] demo_table_fields(1) [of "[300, 301]"]
    demo_table_wf(2) [of "[300, 301]"] demo_created_ok(3) show ?thesis by auto
qed

text \<open>
  C5: \<open>ecs_delete\<close> of an alive entity without row flags returns; the entity is no longer alive, no other entity's
  values change, records and rows still point at each other, and exactly the values of the entity are released, in
  the order of the columns.
\<close>

theorem delete_entity_spec:
  assumes "world_ok husk w" and "e \<in> alive_set (w_index w)" and "e \<noteq> 0" and "located (w_index w) e = Some (p, row)"
    and "w_tables w p = Some t" and "ECS_RECORD_TO_ROW_FLAGS (rec_row (record_of (w_index w) (lo32 e))) = 0"
  shows "\<exists>w'. ecs_delete False False on_delete w e = Inr w' \<and> storage_inv husk w' \<and> alive_set (w_index w') = alive_set (w_index w) - {e} \<and>
    (\<forall>x \<in> alive_set (w_index w) - {e}. \<forall>c. value_of w' x c = value_of w x c) \<and>
    w_released w' = w_released w @ row_values husk t row"
  using delete_entity_ok [OF world_okD(1) [OF assms(1)] assms(2-5) world_okD(3) [OF assms(1,5)] world_okD(4) [OF assms(1)] assms(6), of on_delete] by blast

theorem delete_entity_spec_witness:
  "\<exists>w'. ecs_delete False False Inr demo_world_1 demo_entity = Inr w' \<and> storage_inv demo_husk w' \<and> alive_set (w_index w') = {}"
proof -
  obtain t where "w_tables demo_world_1 1 = Some t" using demo_created_ok(10) by blast
  from delete_entity_spec [OF demo_created_ok(2) _ demo_created_ok(4,5) this demo_created_ok(6), of Inr] demo_created_ok(3) show ?thesis by auto
qed

text \<open>
  C21: \<open>ecs_make_alive\<close> on every branch.  On an alive entity it changes nothing, and on an index that is alive with
  another generation it fails with \<open>ECS_INVALID_OPERATION\<close>.  On an index that is not alive, known or not and whatever
  its generation, it returns: exactly this id is alive in addition, its record and the new last row of the root table
  point at each other, its row flags are kept, it has no components, and the other entities keep their rows and
  values; nothing is released.  The root table has no columns, and the world has the invariant of runs.
\<close>

theorem ecs_make_alive_spec:
  assumes "world_ok husk w" and "vec_count (eis_dense (w_index w)) < 2 ^ 30" and "lo32 e \<noteq> 0"
    and "w_tables w store_root = Some t" and "tbl_columns t = []" and "tbl_count t < 2 ^ 28"
  shows "if e \<in> alive_set (w_index w) then ecs_make_alive (\<lambda>_. None) w e = Inr w
    else if lo32 e \<in> lo32 ` alive_set (w_index w) then ecs_make_alive (\<lambda>_. None) w e = Inl (Abort ECS_INVALID_OPERATION)
    else \<exists>w' t'. ecs_make_alive (\<lambda>_. None) w e = Inr w' \<and> world_ok husk w' \<and>
      alive_set (w_index w') = insert e (alive_set (w_index w)) \<and> located (w_index w') e = Some (store_root, tbl_count t) \<and>
      ECS_RECORD_TO_ROW_FLAGS (rec_row (record_of (w_index w') (lo32 e))) = ECS_RECORD_TO_ROW_FLAGS (rec_row (record_of (w_index w) (lo32 e))) \<and>
      (\<forall>x \<in> alive_set (w_index w). located (w_index w') x = located (w_index w) x \<and> (\<forall>c. value_of w' x c = value_of w x c)) \<and>
      (\<forall>c. value_of w' e c = None) \<and> w_released w' = w_released w \<and>
      w_tables w' = (w_tables w)(store_root := Some t') \<and> entity_list t' = entity_list t @ [e]"
proof -
  note W = world_okD [OF assms(1)]
  note inv = eis_okD [OF W(2)]
  have e0: "e \<noteq> 0" using assms(3) by auto
  consider "lo32 e \<in> lo32 ` alive_set (w_index w)" | (dead) "lo32 e \<notin> lo32 ` alive_set (w_index w)" by blast
  then show ?thesis
  proof cases
    case 1
    then obtain d where d: "d \<in> alive_set (w_index w)" "lo32 d = lo32 e" by force
    then have "ecs_get_alive (w_index w) (to64 (lo32 e)) = Inr d" "d \<noteq> 0" "e \<in> alive_set (w_index w) \<longleftrightarrow> d = e"
      using ecs_get_alive_slot [OF inv assms(3)] alive_set_iff [OF inv, of d] alive_set_iff [OF inv, of e] assms(3) by auto
    with 1 e0 show ?thesis by (auto simp: ecs_make_alive_def)
  next
    case dead
    then have na: "e \<notin> alive_set (w_index w)" by auto
    obtain w' t' where M: "ecs_make_alive (\<lambda>_. None) w e = Inr w'" "storage_inv husk w'" "eis_ok (w_index w')"
      "w_tables w' = (w_tables w)(store_root := Some t')" "same_shape t t'"
      and R: "alive_set (w_index w') = insert e (alive_set (w_index w))" "located (w_index w') e = Some (store_root, tbl_count t)"
      "ECS_RECORD_TO_ROW_FLAGS (rec_row (record_of (w_index w') (lo32 e))) = ECS_RECORD_TO_ROW_FLAGS (rec_row (record_of (w_index w) (lo32 e)))"
      "\<forall>x \<in> alive_set (w_index w). located (w_index w') x = located (w_index w) x \<and> (\<forall>c. value_of w' x c = value_of w x c)"
      "\<forall>c. value_of w' e c = None" "w_released w' = w_released w" "entity_list t' = entity_list t @ [e]"
      using make_alive_ok [where ov = "\<lambda>_. None", OF W(1,2) assms(2,3) dead assms(4,5) W(3) [OF assms(4)] assms(6) refl] by blast
    have "world_ok husk w'" by (rule world_okI [OF assms(1) M(2,3) same_tables_upd [OF M(4) assms(4) M(5)]])
    with M(1,4) R na dead show ?thesis unfolding if_not_P [OF na] if_not_P [OF dead] by blast
  qed
qed

theorem ecs_make_alive_spec_witness:
  "\<exists>w' t'. ecs_make_alive (\<lambda>_. None) demo_world 0x500000007 = Inr w' \<and> alive_set (w_index w') = {0x500000007} \<and>
     located (w_index w') 0x500000007 = Some (0, 0) \<and> w_tables w' 0 = Some t' \<and> entity_list t' = [0x500000007]"
proof -
  have t: "w_tables demo_world store_root = Some (demo_table [])" by (simp add: demo_world_def store_root_def)
  have "tbl_columns (demo_table []) = []" "tbl_count (demo_table []) < 2 ^ 28" "lo32 0x500000007 \<noteq> 0"
    using demo_table_fields(1,8) [of "[]"] by simp_all
  from ecs_make_alive_spec [OF demo_world_ok demo_room(1) this(3) t this(1,2)] show ?thesis
    using demo_table_fields(1,3) [of "[]"] by (auto simp: demo_room store_root_def entity_list_def)
qed

section \<open>The properties of sequences of operations\<close>

text \<open>
  C1: every sequence of creations, moves and deletions keeps the storage well-formed, and keeps the sum of the values
  that were released and those that alive entities own: no value is lost, and none is released twice or while an
  entity still has it.
\<close>

theorem storage_run_conserves_values:
  assumes "storage_run od w evs w'" and "world_ok husk w"
  shows "world_ok husk w' \<and> total_values husk w' = total_values husk w"
  using storage_run_ok [OF assms] storage_run_total [OF assms] by blast

text \<open>
  C3: an entity that no event of a sequence names stays alive and keeps its components and their values, wherever
  its row is moved to.
\<close>

theorem storage_run_frame:
  assumes "storage_run od w evs w'" and "world_ok husk w" and "x \<in> alive_set (w_index w)" and "\<forall>ev \<in> set evs. event_entity ev \<noteq> x"
  shows "x \<in> alive_set (w_index w') \<and> (\<forall>c. value_of w' x c = value_of w x c)"
  using assms
proof (induction rule: storage_run.induct)
  case (storage_cons w ev w1 evs w2)
  note st = storage_step_ok [OF storage_cons.hyps(1) storage_cons.prems(1)]
  have ne: "event_entity ev \<noteq> x" using storage_cons.prems(3) by simp
  then have "x \<in> alive_set (w_index w1)" using st storage_cons.prems(2) by (cases ev) auto
  moreover have "\<forall>c. value_of w1 x c = value_of w x c" using st ne storage_cons.prems(2) by auto
  ultimately show ?case using storage_cons.IH st storage_cons.prems(3) by simp
qed simp

text \<open>
  C4: from every well-formed storage all entities can be deleted: as long as the alive entities are in tables and have no
  row flags, one deletion per entity returns each time, and afterwards exactly the values that the entities
  owned have been released, so an emptied storage leaks nothing.
\<close>

theorem storage_drains:
  assumes "world_ok husk w" and "\<forall>e \<in> alive_set (w_index w). e \<noteq> 0 \<and> in_table (w_index w) e"
  shows "\<exists>evs w'. storage_run od w evs w' \<and> length evs = card (alive_set (w_index w)) \<and> alive_set (w_index w') = {} \<and>
    mset (w_released w') = mset (w_released w) + (\<Sum>x \<in> alive_set (w_index w). owned husk w x)"
proof -
  obtain evs w' where r: "storage_run od w evs w'" "length evs = card (alive_set (w_index w))" "alive_set (w_index w') = {}"
    using drain_run [OF assms refl] by blast
  have "total_values husk w' = total_values husk w" by (rule storage_run_total [OF r(1) assms(1)])
  then have "mset (w_released w') = mset (w_released w) + (\<Sum>x \<in> alive_set (w_index w). owned husk w x)"
    using r(3) by (simp add: total_values_def)
  with r show ?thesis by blast
qed

theorem storage_drains_witness:
  "\<exists>evs w'. storage_run Inr demo_world_1 evs w' \<and> alive_set (w_index w') = {}"
  using storage_drains [OF demo_created_ok(2), of Inr] by (auto simp: demo_created_ok(3-6) in_table_def)

lemma demo_run: "\<exists>w'. storage_run Inr demo_world [Created demo_entity 1, Moved demo_entity 2] w'"
proof -
  have c: "storage_step Inr demo_world (Created demo_entity 1) demo_world_1"
    by (rule storage_step.create [OF demo_created_ok(1) demo_room(1) _ demo_room(4)]) (simp_all add: demo_room)
  obtain t where t: "w_tables demo_world_1 1 = Some t" using demo_created_ok(10) by blast
  note W = world_okD [OF demo_created_ok(2)]
  have e: "demo_entity \<in> alive_set (w_index demo_world_1)" by (simp add: demo_created_ok(3))
  have D: "tbl_count (demo_table [300, 301]) < 2 ^ 28" "0 \<notin> set (column_ids (demo_table [300, 301]))"
    by (simp_all add: demo_table_fields(1) demo_table_wf(2))
  obtain w2 where m: "flecs_move_entity (\<lambda>_. None) demo_world_1 demo_entity (lo32 demo_entity) 2 0 = Inr w2"
    using move_entity_ok [where ov = "\<lambda>_. None" and emplace_id = 0, OF W(1) e demo_created_ok(5) t demo_created_ok(7) _ W(3) [OF t] W(3) [OF demo_created_ok(7)] D(1) refl] D(2)
    by auto
  have "storage_step Inr demo_world_1 (Moved demo_entity 2) w2"
    by (rule storage_step.move [OF m e demo_created_ok(5) _ demo_created_ok(7) D]) simp
  with c show ?thesis by (blast intro: storage_run.intros)
qed

theorem storage_run_conserves_values_witness:
  "\<exists>w'. storage_run Inr demo_world [Created demo_entity 1, Moved demo_entity 2] w' \<and> total_values demo_husk w' = total_values demo_husk demo_world"
  using demo_run storage_run_conserves_values [OF _ demo_world_ok] by blast

theorem storage_run_frame_witness:
  "\<exists>w' e. storage_run Inr demo_world_1 [Created e 1] w' \<and> demo_entity \<in> alive_set (w_index w') \<and>
     (\<forall>c. value_of w' demo_entity c = value_of demo_world_1 demo_entity c)"
proof -
  note W = world_okD [OF demo_created_ok(2)]
  obtain t where t: "w_tables demo_world_1 1 = Some t" "tbl_count t = 1" using demo_created_ok(10) by blast
  have room: "tbl_count t < 2 ^ 28" using t(2) by simp
  obtain w' e where n: "ecs_new_w_table (\<lambda>_. None) demo_world_1 1 = Inr (w', e)" "e \<notin> alive_set (w_index demo_world_1)"
    using new_w_table_ok [where ov = "\<lambda>_. None", OF W(1,2) demo_created_ok(8) _ t(1) W(3) [OF t(1)] room refl] demo_created_ok(9) by auto
  have r: "storage_run Inr demo_world_1 [Created e 1] w'"
    using storage_step.create [OF n(1) demo_created_ok(8) _ t(1) room] demo_created_ok(9) by (auto intro: storage_run.intros)
  have al: "demo_entity \<in> alive_set (w_index demo_world_1)" "\<forall>ev \<in> set [Created e 1]. event_entity ev \<noteq> demo_entity"
    using n(2) by (auto simp: demo_created_ok(3))
  from storage_run_frame [OF r demo_created_ok(2) al] r show ?thesis by blast
qed

end
