(* ===== verification/Table_Elements.thy ===== *)
theory Table_Elements
  imports Table_Move
begin

text \<open>
  Single elements of columns: the copy of one element by the accesses that its size selects, and the relocation of a
  value whose type has a destructor and no move.
\<close>

section \<open>Copying one element\<close>

lemma memcpy_ok:
  "i + n \<le> length dst \<Longrightarrow> j + n \<le> length src \<Longrightarrow> memcpy dst i src j n = Inr (put_cells dst i (take n (drop j src)))"
  by (simp add: memcpy_def)

lemma copy_ends:
  assumes "k \<le> n" "n \<le> 2 * k" "n \<le> length dst" "n \<le> length src"
  shows "bindr (memcpy dst 0 src 0 k) (\<lambda>dst. memcpy dst (n - k) src (n - k) k) = memcpy dst 0 src 0 n"
proof -
  let ?d = "put_cells dst 0 (take k src)"
  have l: "length ?d = length dst" using assms by (simp add: put_cells_def)
  have "put_cells ?d (n - k) (take k (drop (n - k) src)) = put_cells dst 0 (take n src)"
    using assms by (intro nth_equalityI) (auto simp: put_cells_def nth_append)
  then show ?thesis using assms l by (simp add: memcpy_ok)
qed

text \<open>
  C39: the copy of an element with overlapping accesses is the plain copy of its bytes for every size from 1 on: all
  bytes of the element are written, and none behind it.
\<close>

theorem table_copy_elem_exact:
  assumes "1 \<le> n" and "n \<le> length dst" and "n \<le> length src"
  shows "flecs_table_copy_elem dst src n = Inr (take n src @ drop n dst)"
proof -
  have "flecs_table_copy_elem dst src n = memcpy dst 0 src 0 n"
  proof (cases "n = 1")
    case False
    then have "n \<noteq> 2 \<Longrightarrow> 2 < n" using assms(1) by simp
    then show ?thesis unfolding flecs_table_copy_elem_def using assms by (auto simp: copy_ends)
  qed (simp add: flecs_table_copy_elem_def)
  then show ?thesis using assms by (simp add: memcpy_ok put_cells_def)
qed

theorem table_copy_elem_exact_witness:
  "flecs_table_copy_elem (replicate 24 (0 :: nat)) [1..<24] 23 = Inr ([1..<24] @ [0])"
  using table_copy_elem_exact [of 23 "replicate 24 (0 :: nat)" "[1..<24]"] by simp

section \<open>Types with a destructor only\<close>

text \<open>
  C40: for a component that is registered with a destructor only, the two steps of a move between tables that concern its
  column, for a row that is not the last one, are a copy of the bytes to the new table and a call of the destructor
  for the old bytes: the value that the moved entity has in the new table is released.
\<close>

theorem dtor_only_move_destroys_live_value:
  assumes "ecs_set_hooks_id True False component_ptr component (no_hooks\<lparr>h_dtor := Some (App d)\<rparr>) ti = Inr (ti', non_trivial)"
    and "ti_size ti \<noteq> 0" and "ti_component ti = 0 \<or> ti_component ti = component" and "ti_hooks ti = no_hooks"
    and "dtor_law husk d" and "\<not> husk v"
    and "i < length (tbl_columns dst)" and "col_ti (tbl_columns dst ! i) = ti'" and "dst_row < length (col_data (tbl_columns dst ! i))"
    and "j < length (tbl_columns src)" and "col_ti (tbl_columns src ! j) = ti'" and "lrow < length (col_data (tbl_columns src ! j))"
    and "row < lrow" and "col_data (tbl_columns src ! j) ! row = Some v"
  shows "\<exists>w1 dst' src' w2 src''.
    move_column_step ov e e dst_row row emplace_id False (Both i j) (w, dst, src) = Inr (w1, dst', src') \<and>
    col_data (tbl_columns dst' ! i) ! dst_row = Some v \<and>
    delete_column False e row lrow j (w1, src') = Inr (w2, src'') \<and> w_released w2 = w_released w @ [v]"
proof -
  define t where "t = ti\<lparr>ti_hooks := no_hooks\<lparr>h_ctor := Some (Default flecs_default_ctor), h_dtor := Some (App d),
       h_move_dtor := Some (Default flecs_default_dtor), h_cmp := Some Illegal, h_equals := Some Illegal, h_flags := 0x180083\<rparr>\<rparr>"
  have t: "ti' = t" using assms(1) unfolding set_hooks_dtor_only [OF assms(2-4)] t_def by simp
  have hooks: "ti_size t \<noteq> 0" "h_move_ctor (ti_hooks t) = None" "h_ctor_move_dtor (ti_hooks t) = None" "\<not> h_on_remove (ti_hooks t)"
    using assms(2) by (simp_all add: t_def no_hooks_def)
  have mv: "flecs_type_info_ctor_move_dtor t x (Some v) = Inr ((Some v, Some v), [])" for x
    by (simp add: flecs_type_info_ctor_move_dtor_def t_def no_hooks_def has_flag_def hook_flag_defs)
  have dl: "flecs_type_info_move_dtor t (Some v) y = Inr ((y, y), [v])" for y
    using assms(5,6)
    by (simp add: flecs_type_info_move_dtor_def t_def no_hooks_def has_flag_def hook_flag_defs call_move_def deref_hook_def call_dtor_def call_app_def
        dtor_law_def released_def)
  let ?dd = "col_data (tbl_columns dst ! i)" let ?sd = "col_data (tbl_columns src ! j)"
  have m: "range_move (flecs_type_info_ctor_move_dtor t) w ?dd dst_row ?sd row 1 = Inr (release w [], ?dd[dst_row := Some v], ?sd[row := Some v])"
    using assms by (intro range_move_one) (simp_all add: mv)
  have sd: "?sd[row := Some v] = ?sd" using assms(14) by (metis list_update_id)
  have c: "cell_move (flecs_type_info_move_dtor t) w ?sd row lrow = Inr (release w [v], ?sd[lrow := ?sd ! lrow, row := ?sd ! lrow])"
    using assms by (simp add: cell_move_def dl)
  show ?thesis
    using assms(7-13) hooks m c unfolding t
    by (simp add: move_column_step_def delete_column_def Let_def set_col_data_def sd release_def)
qed

text \<open>A table with one column.\<close>

definition one_column :: "nat cell list \<Rightarrow> nat ecs_type_info_t \<Rightarrow> nat ecs_table_t" where
  "one_column cells ti = \<lparr>tbl_id = 1, tbl_flags = EcsTableHasCtors OR EcsTableHasDtors, tbl_version = 0, tbl_type = [300], tbl_entities = [],
     tbl_columns = [\<lparr>col_data = cells, col_ti = ti\<rparr>], tbl_count = 0, tbl_size = 0, tbl_component_map = [], tbl_dirty_state = None,
     tbl_t2s = [0], tbl_s2t = [0], tbl_lock = 0, tbl_traversable_count = 0, tbl_bs_offset = 0, tbl_bs_columns = []\<rparr>"

theorem dtor_only_move_destroys_live_value_witness:
  "\<forall>w. \<exists>ti' b w1 dst' src' w2 src''.
    ecs_set_hooks_id True False None 300 (no_hooks\<lparr>h_dtor := Some (App demo_dtor)\<rparr>) demo_type = Inr (ti', b) \<and>
    move_column_step (\<lambda>_. None) 7 7 0 0 0 False (Both 0 0) (w, one_column [None] ti', one_column [Some 5, Some 6] ti') = Inr (w1, dst', src') \<and>
    col_data (tbl_columns dst' ! 0) ! 0 = Some 5 \<and>
    delete_column False 7 0 1 0 (w1, src') = Inr (w2, src'') \<and> w_released w2 = w_released w @ [5]"
proof
  fix w :: "nat ecs_world_t"
  have D: "ti_size demo_type \<noteq> 0" "ti_component demo_type = 0 \<or> ti_component demo_type = 300" "ti_hooks demo_type = no_hooks"
    by (simp_all add: demo_type_def)
  obtain ti' b where r: "ecs_set_hooks_id True False None 300 (no_hooks\<lparr>h_dtor := Some (App demo_dtor)\<rparr>) demo_type = Inr (ti', b)"
    using set_hooks_dtor_only [OF D] by blast
  have law: "dtor_law (\<lambda>v. v = 0) demo_dtor" by (simp add: dtor_law_def demo_dtor_def released_def)
  from dtor_only_move_destroys_live_value [OF r D law, of 5 0 "one_column [None] ti'" 0 0 "one_column [Some 5, Some 6] ti'" 1 0 "\<lambda>_. None" 7 0 w] r
  show "\<exists>ti' b w1 dst' src' w2 src''.
    ecs_set_hooks_id True False None 300 (no_hooks\<lparr>h_dtor := Some (App demo_dtor)\<rparr>) demo_type = Inr (ti', b) \<and>
    move_column_step (\<lambda>_. None) 7 7 0 0 0 False (Both 0 0) (w, one_column [None] ti', one_column [Some 5, Some 6] ti') = Inr (w1, dst', src') \<and>
    col_data (tbl_columns dst' ! 0) ! 0 = Some 5 \<and>
    delete_column False 7 0 1 0 (w1, src') = Inr (w2, src'') \<and> w_released w2 = w_released w @ [5]"
    by (simp add: one_column_def)
qed

end
