(* ===== verification/Commands.thy ===== *)
theory Commands
  imports Sparse_Set EntityStorage
begin

text \<open>
  The command queue of a stage (\<open>src/commands.c\<close>, \<open>src/commands.h\<close>, \<open>src/stage.h\<close>): operations that are called while a
  stage is deferred append a command to its queue.  Commands for the same entity are linked by
  \<open>next_for_entity\<close> so that a flush can execute them with a single move between tables; the sparse set \<open>entries\<close> knows the
  first and the last command of each entity.  A stage has two queues: while one is flushed, the other one is filled.

  A pointer to a command is its position in the queue, a pointer to an entry the index of its element in \<open>entries\<close>.
  The fields of a command that \<open>flecs_cmd_new\<close> does not assign are \<open>None\<close> until the caller assigns them.
  Executing the commands of a queue is not part of the model, only the bookkeeping of a flush.
\<close>

section \<open>Commands\<close>

datatype ecs_cmd_kind_t =
    EcsCmdClone
  | EcsCmdBulkNew
  | EcsCmdAdd
  | EcsCmdRemove
  | EcsCmdSet
  | EcsCmdSetDontFragment
  | EcsCmdEmplace
  | EcsCmdEnsure
  | EcsCmdEnsureDontFragment
  | EcsCmdModified
  | EcsCmdModifiedNoHook
  | EcsCmdAddModified
  | EcsCmdPath
  | EcsCmdDelete
  | EcsCmdClear
  | EcsCmdOnDeleteAction
  | EcsCmdEnable
  | EcsCmdDisable
  | EcsCmdEvent
  | EcsCmdSkip

record ecs_cmd_entry_t =
  ce_first :: int
  ce_last :: int

text \<open>What the pointer \<open>value\<close> of a command refers to: a component value or the string of a path.\<close>

datatype 'v cmd_value = Cmd_component 'v | Cmd_name string

record 'v ecs_cmd_1_t =
  c1_value :: "'v cmd_value option"
  c1_size :: "nat option"
  c1_clone_value :: "bool option"

record 'v ecs_cmd_t =
  cmd_kind :: "ecs_cmd_kind_t option"
  cmd_next_for_entity :: int
  cmd_id :: u64
  cmd_entry :: "u32 option"
  cmd_entity :: "u64 option"
  cmd_is_1 :: "'v ecs_cmd_1_t"
  cmd_system :: u64

record 'v ecs_commands_t =
  cq_queue :: "'v ecs_cmd_t ecs_vec_t"
  cq_entries :: "ecs_cmd_entry_t ecs_sparse_t"

record 'v ecs_stage_t =
  st_defer :: int
  st_cmd :: nat
  st_cmd_stack :: "nat \<Rightarrow> 'v ecs_commands_t"
  st_cmd_flushing :: bool
  st_system :: u64

text \<open>\<open>ECS_SIZEOF(ecs_cmd_entry_t)\<close>, and an entry whose bytes are 0.\<close>

definition cmd_entry_size :: nat where "cmd_entry_size = 8"

definition zero_entry :: ecs_cmd_entry_t where "zero_entry = \<lparr>ce_first = 0, ce_last = 0\<rparr>"

definition flecs_commands_init :: "'v ecs_commands_t res" where
  "flecs_commands_init =
     bindr (flecs_sparse_init cmd_entry_size) (\<lambda>entries. Inr \<lparr>cq_queue = ecs_vec_init 0, cq_entries = entries\<rparr>)"

definition flecs_commands_fini :: "'v ecs_commands_t \<Rightarrow> 'v ecs_commands_t res" where
  "flecs_commands_fini cmd =
     bindr (ecs_assert (ecs_vec_count (cq_queue cmd) = 0) ECS_INTERNAL_ERROR) (\<lambda>_.
     bindr (flecs_sparse_fini (cq_entries cmd)) (\<lambda>entries.
     Inr \<lparr>cq_queue = ecs_vec_fini (cq_queue cmd), cq_entries = entries\<rparr>))"

text \<open>The command queues of a new stage.\<close>

definition flecs_stage_new :: "'v ecs_stage_t res" where
  "flecs_stage_new =
     bindr flecs_commands_init (\<lambda>c0.
     bindr flecs_commands_init (\<lambda>c1.
     Inr \<lparr>st_defer = 0, st_cmd = 0, st_cmd_stack = (\<lambda>i. if i = 0 then c0 else c1), st_cmd_flushing = False, st_system = 0\<rparr>))"

section \<open>Access to commands and entries\<close>

abbreviation stage_cmd :: "'v ecs_stage_t \<Rightarrow> 'v ecs_commands_t" where
  "stage_cmd stage \<equiv> st_cmd_stack stage (st_cmd stage)"

definition put_commands :: "'v ecs_stage_t \<Rightarrow> nat \<Rightarrow> 'v ecs_commands_t \<Rightarrow> 'v ecs_stage_t" where
  "put_commands stage k c = stage\<lparr>st_cmd_stack := (st_cmd_stack stage)(k := c)\<rparr>"

definition cmd_modify :: "'v ecs_commands_t \<Rightarrow> nat \<Rightarrow> ('v ecs_cmd_t \<Rightarrow> 'v ecs_cmd_t) \<Rightarrow> 'v ecs_commands_t res" where
  "cmd_modify c i f =
     bindr (vec_read (cq_queue c) i) (\<lambda>cmd.
     bindr (vec_write (cq_queue c) i (f cmd)) (\<lambda>queue. Inr (c\<lparr>cq_queue := queue\<rparr>)))"

definition entry_modify :: "'v ecs_commands_t \<Rightarrow> u32 \<Rightarrow> (ecs_cmd_entry_t \<Rightarrow> ecs_cmd_entry_t) \<Rightarrow> 'v ecs_commands_t res" where
  "entry_modify c p f =
     bindr (sparse_load (cq_entries c) p) (\<lambda>entry.
     bindr (sparse_store (cq_entries c) p (f entry)) (\<lambda>entries. Inr (c\<lparr>cq_entries := entries\<rparr>)))"

section \<open>New commands\<close>

definition flecs_cmd_new :: "u64 \<Rightarrow> 'v ecs_commands_t \<Rightarrow> ('v ecs_commands_t \<times> nat) res" where
  "flecs_cmd_new system c =
     (case ecs_vec_append (cq_queue c) of (queue, cmd) \<Rightarrow>
      bindr (vec_write queue cmd \<lparr>cmd_kind = None, cmd_next_for_entity = 0, cmd_id = 0, cmd_entry = None, cmd_entity = None,
               cmd_is_1 = \<lparr>c1_value = None, c1_size = None, c1_clone_value = None\<rparr>, cmd_system = system\<rparr>) (\<lambda>queue.
      Inr (c\<lparr>cq_queue := queue\<rparr>, cmd)))"

text \<open>
  The part of \<open>flecs_cmd_new_batched\<close> for an entity that has an entry: the command is linked to the last one of the
  entity.  The result tells whether a new entry has to be made (\<open>is_new\<close>).
\<close>

definition cmd_link :: "'v ecs_commands_t \<Rightarrow> u32 \<Rightarrow> nat \<Rightarrow> nat \<Rightarrow> u64 \<Rightarrow> ('v ecs_commands_t \<times> bool) res" where
  "cmd_link c p cmd cur e =
     bindr (sparse_load (cq_entries c) p) (\<lambda>entry.
     if ce_first entry = -1 then
       bindr (entry_modify c p (\<lambda>entry. entry\<lparr>ce_first := int cur\<rparr>)) (\<lambda>c.
       bindr (cmd_modify c cmd (\<lambda>cmd. cmd\<lparr>cmd_entry := Some p\<rparr>)) (\<lambda>c. Inr (c, False)))
     else
       let lst = ce_last entry in
       bindr (defined_if (0 \<le> lst)) (\<lambda>_.
       bindr (vec_read (cq_queue c) (nat lst)) (\<lambda>last_op.
       case cmd_entity last_op of
         None \<Rightarrow> Inl Undefined
       | Some e' \<Rightarrow>
           if e' = e then
             let next = int cur; next = (if lst = ce_first entry then next * (-1) else next) in
             bindr (cmd_modify c (nat lst) (\<lambda>cmd. cmd\<lparr>cmd_next_for_entity := next\<rparr>)) (\<lambda>c. Inr (c, False))
           else Inr (c, True))))"

definition flecs_cmd_new_batched :: "u64 \<Rightarrow> 'v ecs_commands_t \<Rightarrow> u64 \<Rightarrow> ('v ecs_commands_t \<times> nat) res" where
  "flecs_cmd_new_batched system c e =
     bindr (flecs_sparse_get (cq_entries c) cmd_entry_size e) (\<lambda>entry.
     let cur = ecs_vec_count (cq_queue c) in
     bindr (flecs_cmd_new system c) (\<lambda>(c, cmd).
     bindr (case entry of None \<Rightarrow> Inr (c, True) | Some p \<Rightarrow> cmd_link c p cmd cur e) (\<lambda>(c, is_new).
     bindr (if is_new then
              bindr (flecs_sparse_ensure_fast zero_entry (cq_entries c) cmd_entry_size e) (\<lambda>(entries, entry).
              case entry of
                None \<Rightarrow> Inl Undefined
              | Some p \<Rightarrow>
                  bindr (cmd_modify (c\<lparr>cq_entries := entries\<rparr>) cmd (\<lambda>cmd. cmd\<lparr>cmd_entry := Some p\<rparr>)) (\<lambda>c.
                  bindr (entry_modify c p (\<lambda>entry. entry\<lparr>ce_first := int cur\<rparr>)) (\<lambda>c. Inr (c, p))))
            else case entry of None \<Rightarrow> Inl Undefined | Some p \<Rightarrow> Inr (c, p)) (\<lambda>(c, p).
     bindr (entry_modify c p (\<lambda>entry. entry\<lparr>ce_last := int cur\<rparr>)) (\<lambda>c. Inr (c, cmd))))))"

section \<open>Deferring\<close>

definition flecs_defer_begin :: "'v ecs_stage_t \<Rightarrow> 'v ecs_stage_t \<times> bool" where
  "flecs_defer_begin stage =
     (if st_defer stage < 0 then (stage, False)
      else let stage = stage\<lparr>st_defer := st_defer stage + 1\<rparr> in (stage, st_defer stage = 1))"

definition flecs_defer_cmd :: "'v ecs_stage_t \<Rightarrow> 'v ecs_stage_t \<times> bool" where
  "flecs_defer_cmd stage =
     (if st_defer stage \<noteq> 0 then (stage, st_defer stage > 0)
      else (stage\<lparr>st_defer := st_defer stage + 1\<rparr>, False))"

definition ecs_defer_suspend :: "'v ecs_stage_t \<Rightarrow> 'v ecs_stage_t res" where
  "ecs_defer_suspend stage =
     bindr (ecs_assert (st_defer stage \<noteq> 0) ECS_INVALID_OPERATION) (\<lambda>_.
     bindr (ecs_assert (st_defer stage > 0) ECS_INVALID_OPERATION) (\<lambda>_.
     Inr (stage\<lparr>st_defer := - st_defer stage\<rparr>)))"

definition ecs_defer_resume :: "'v ecs_stage_t \<Rightarrow> 'v ecs_stage_t res" where
  "ecs_defer_resume stage =
     bindr (ecs_assert (st_defer stage < 0) ECS_INVALID_OPERATION) (\<lambda>_.
     Inr (stage\<lparr>st_defer := - st_defer stage\<rparr>))"

text \<open>
  The shape that the deferred operations share: nothing when the operation is to be executed right away; otherwise
  a command, of a chain or not, with the fields that the operation assigns.
\<close>

definition defer_with ::
  "bool \<Rightarrow> 'v ecs_stage_t \<Rightarrow> u64 \<Rightarrow> ('v ecs_cmd_t \<Rightarrow> 'v ecs_cmd_t) \<Rightarrow> 'v ecs_stage_t res" where
  "defer_with batched stage entity f =
     bindr (if batched then flecs_cmd_new_batched (st_system stage) (stage_cmd stage) entity
            else flecs_cmd_new (st_system stage) (stage_cmd stage)) (\<lambda>(c, cmd).
     bindr (cmd_modify c cmd (f \<circ> cmd_entity_update (\<lambda>_. Some entity))) (\<lambda>c.
     Inr (put_commands stage (st_cmd stage) c)))"

definition flecs_defer_modified :: "'v ecs_stage_t \<Rightarrow> u64 \<Rightarrow> u64 \<Rightarrow> ('v ecs_stage_t \<times> bool) res" where
  "flecs_defer_modified stage entity cid =
     (case flecs_defer_cmd stage of (stage, deferred) \<Rightarrow>
      if deferred then
        bindr (defer_with False stage entity (\<lambda>cmd. cmd\<lparr>cmd_kind := Some EcsCmdModified, cmd_id := cid\<rparr>)) (\<lambda>stage.
        Inr (stage, True))
      else Inr (stage, False))"

definition flecs_defer_clone :: "'v ecs_stage_t \<Rightarrow> u64 \<Rightarrow> u64 \<Rightarrow> bool \<Rightarrow> ('v ecs_stage_t \<times> bool) res" where
  "flecs_defer_clone stage entity src clone_value =
     (case flecs_defer_cmd stage of (stage, deferred) \<Rightarrow>
      if deferred then
        bindr (defer_with False stage entity (\<lambda>cmd. cmd\<lparr>cmd_kind := Some EcsCmdClone, cmd_id := src,
                 cmd_is_1 := (cmd_is_1 cmd)\<lparr>c1_clone_value := Some clone_value\<rparr>\<rparr>)) (\<lambda>stage.
        Inr (stage, True))
      else Inr (stage, False))"

definition flecs_defer_path :: "'v ecs_stage_t \<Rightarrow> u64 \<Rightarrow> u64 \<Rightarrow> string \<Rightarrow> ('v ecs_stage_t \<times> bool) res" where
  "flecs_defer_path stage parent entity name =
     (if st_defer stage > 0 then
        bindr (defer_with False stage entity (\<lambda>cmd. cmd\<lparr>cmd_kind := Some EcsCmdPath, cmd_id := parent,
                 cmd_is_1 := (cmd_is_1 cmd)\<lparr>c1_value := Some (Cmd_name name)\<rparr>\<rparr>)) (\<lambda>stage.
        Inr (stage, True))
      else Inr (stage, False))"

definition flecs_defer_delete :: "'v ecs_stage_t \<Rightarrow> u64 \<Rightarrow> ('v ecs_stage_t \<times> bool) res" where
  "flecs_defer_delete stage entity =
     (case flecs_defer_cmd stage of (stage, deferred) \<Rightarrow>
      if deferred then
        bindr (defer_with True stage entity (\<lambda>cmd. cmd\<lparr>cmd_kind := Some EcsCmdDelete\<rparr>)) (\<lambda>stage. Inr (stage, True))
      else Inr (stage, False))"

definition flecs_defer_clear :: "'v ecs_stage_t \<Rightarrow> u64 \<Rightarrow> ('v ecs_stage_t \<times> bool) res" where
  "flecs_defer_clear stage entity =
     (case flecs_defer_cmd stage of (stage, deferred) \<Rightarrow>
      if deferred then
        bindr (defer_with True stage entity (\<lambda>cmd. cmd\<lparr>cmd_kind := Some EcsCmdClear\<rparr>)) (\<lambda>stage. Inr (stage, True))
      else Inr (stage, False))"

definition flecs_defer_on_delete_action :: "'v ecs_stage_t \<Rightarrow> u64 \<Rightarrow> u64 \<Rightarrow> ('v ecs_stage_t \<times> bool) res" where
  "flecs_defer_on_delete_action stage cid action =
     (case flecs_defer_cmd stage of (stage, deferred) \<Rightarrow>
      if deferred then
        bindr (defer_with False stage action (\<lambda>cmd. cmd\<lparr>cmd_kind := Some EcsCmdOnDeleteAction, cmd_id := cid\<rparr>)) (\<lambda>stage.
        Inr (stage, True))
      else Inr (stage, False))"

definition flecs_defer_enable :: "'v ecs_stage_t \<Rightarrow> u64 \<Rightarrow> u64 \<Rightarrow> bool \<Rightarrow> ('v ecs_stage_t \<times> bool) res" where
  "flecs_defer_enable stage entity cid enable =
     (case flecs_defer_cmd stage of (stage, deferred) \<Rightarrow>
      if deferred then
        bindr (defer_with False stage entity
                 (\<lambda>cmd. cmd\<lparr>cmd_kind := Some (if enable then EcsCmdEnable else EcsCmdDisable), cmd_id := cid\<rparr>)) (\<lambda>stage.
        Inr (stage, True))
      else Inr (stage, False))"

definition flecs_defer_add :: "'v ecs_stage_t \<Rightarrow> u64 \<Rightarrow> u64 \<Rightarrow> ('v ecs_stage_t \<times> bool) res" where
  "flecs_defer_add stage entity cid =
     (case flecs_defer_cmd stage of (stage, deferred) \<Rightarrow>
      if deferred then
        bindr (ecs_assert (cid \<noteq> 0) ECS_INTERNAL_ERROR) (\<lambda>_.
        bindr (defer_with True stage entity (\<lambda>cmd. cmd\<lparr>cmd_kind := Some EcsCmdAdd, cmd_id := cid\<rparr>)) (\<lambda>stage.
        Inr (stage, True)))
      else Inr (stage, False))"

text \<open>
  Removing: the value that a component inherits is restored at once when its override is removed.  For a table
  with an \<open>IsA\<close> relationship that is \<open>restore\<close>, which changes values of the storage only.
\<close>

definition flecs_defer_remove ::
  "('v ecs_world_t \<Rightarrow> u64 \<Rightarrow> u64 \<Rightarrow> 'v ecs_world_t res) \<Rightarrow> 'v ecs_world_t \<Rightarrow> 'v ecs_stage_t \<Rightarrow> u64 \<Rightarrow> u64 \<Rightarrow>
   ('v ecs_world_t \<times> 'v ecs_stage_t \<times> bool) res" where
  "flecs_defer_remove restore w stage entity cid =
     (case flecs_defer_cmd stage of (stage, deferred) \<Rightarrow>
      if deferred then
        bindr (ecs_assert (cid \<noteq> 0) ECS_INTERNAL_ERROR) (\<lambda>_.
        bindr (defer_with True stage entity (\<lambda>cmd. cmd\<lparr>cmd_kind := Some EcsCmdRemove, cmd_id := cid\<rparr>)) (\<lambda>stage.
        bindr (flecs_entity_index_get (w_index w) entity) (\<lambda>r.
        bindr (record_read (w_index w) r) (\<lambda>rec.
        case rec_table rec of
          None \<Rightarrow> Inl Undefined
        | Some p \<Rightarrow>
            bindr (get_table w p) (\<lambda>t.
            bindr (if has_flag (tbl_flags t) EcsTableHasIsA then restore w entity cid else Inr w) (\<lambda>w.
            Inr (w, stage, True)))))))
      else Inr (w, stage, False))"

section \<open>Flushing\<close>

text \<open>
  The chain of the commands of an entity as \<open>flecs_cmd_batch_for_entity\<close> walks it: from the first command along
  \<open>next_for_entity\<close> to the end or to a deletion.  The fuel bounds the number of commands.  (The loop also returns when
  an id has become invalid and its policy deletes the entity; validity of ids is not part of this model.)
\<close>

primrec batch_walk :: "nat \<Rightarrow> 'v ecs_cmd_t list \<Rightarrow> nat \<Rightarrow> nat list option" where
  "batch_walk 0 cmds cur = None"
| "batch_walk (Suc fuel) cmds cur =
     (let cmd = cmds ! cur;
          next_for_entity = cmd_next_for_entity cmd;
          next_for_entity = (if next_for_entity < 0 then next_for_entity * (-1) else next_for_entity);
          next_for_entity = (if cmd_kind cmd = Some EcsCmdDelete then 0 else next_for_entity)
      in if next_for_entity \<noteq> 0 then map_option (\<lambda>cs. cur # cs) (batch_walk fuel cmds (nat next_for_entity)) else Some [cur])"

text \<open>
  A round of \<open>flecs_defer_end\<close>: the queue that has been filled is taken and the stage switches to the other one; the entry
  of every command is invalidated as the command is executed; at the end the queue is cleared.
\<close>

definition flush_take :: "'v ecs_stage_t \<Rightarrow> 'v ecs_stage_t \<times> nat option" where
  "flush_take stage =
     (let k = st_cmd stage; stage = stage\<lparr>st_cmd := (if k = 0 then 1 else 0)\<rparr> in
      if ecs_vec_count (cq_queue (st_cmd_stack stage k)) = 0 then (stage, None)
      else (stage\<lparr>st_cmd_flushing := True\<rparr>, Some k))"

definition flush_invalidate :: "'v ecs_stage_t \<Rightarrow> nat \<Rightarrow> nat \<Rightarrow> 'v ecs_stage_t res" where
  "flush_invalidate stage k i =
     bindr (vec_read (cq_queue (st_cmd_stack stage k)) i) (\<lambda>cmd.
     case cmd_entry cmd of
       None \<Rightarrow> Inr stage
     | Some p \<Rightarrow> bindr (entry_modify (st_cmd_stack stage k) p (\<lambda>entry. entry\<lparr>ce_first := -1\<rparr>)) (\<lambda>c. Inr (put_commands stage k c)))"

definition flush_done :: "'v ecs_stage_t \<Rightarrow> nat \<Rightarrow> 'v ecs_stage_t" where
  "flush_done stage k =
     (let stage = stage\<lparr>st_cmd_flushing := False\<rparr>; c = st_cmd_stack stage k in
      put_commands stage k (c\<lparr>cq_queue := ecs_vec_clear (cq_queue c)\<rparr>))"

text \<open>The beginning of \<open>flecs_defer_end\<close>: the result is the value it returns and the queue of its first round.\<close>

definition flecs_defer_end_enter :: "'v ecs_stage_t \<Rightarrow> ('v ecs_stage_t \<times> bool \<times> nat option) res" where
  "flecs_defer_end_enter stage =
     (if st_defer stage < 0 then Inr (stage, False, None)
      else
        bindr (ecs_assert (st_defer stage > 0) ECS_INTERNAL_ERROR) (\<lambda>_.
        let stage = stage\<lparr>st_defer := st_defer stage - 1\<rparr> in
        if st_defer stage = 0 \<and> \<not> st_cmd_flushing stage then
          case flush_take stage of (stage, k) \<Rightarrow> Inr (stage, True, k)
        else Inr (stage, False, None)))"

section \<open>Discarding\<close>

text \<open>
  Discarding the value of a command (the kinds with lists of entities and events are not in the model).
  \<open>type_info\<close> is the answer of \<open>ecs_get_type_info\<close>, which does not accept the id 0.
\<close>

definition flecs_discard_cmd ::
  "(u64 \<Rightarrow> 'v ecs_type_info_t option) \<Rightarrow> 'v ecs_world_t \<Rightarrow> 'v ecs_cmd_t \<Rightarrow> 'v ecs_world_t res" where
  "flecs_discard_cmd type_info w cmd =
     (case c1_value (cmd_is_1 cmd) of
        None \<Rightarrow> Inr w
      | Some value \<Rightarrow>
          bindr (ecs_assert (cmd_id cmd \<noteq> 0) ECS_INVALID_PARAMETER) (\<lambda>_.
           case type_info (cmd_id cmd) of
             None \<Rightarrow> Inl (Abort ECS_INTERNAL_ERROR)
           | Some ti \<Rightarrow>
               (case value of
                  Cmd_name _ \<Rightarrow> Inl Undefined
                | Cmd_component v \<Rightarrow>
                    bindr (flecs_type_info_dtor ti (Some v)) (\<lambda>(_, l).
                    bindr (defined_if (c1_size (cmd_is_1 cmd) \<noteq> None)) (\<lambda>_. Inr (release w l))))))"

definition flecs_defer_purge ::
  "(u64 \<Rightarrow> 'v ecs_type_info_t option) \<Rightarrow> 'v ecs_world_t \<Rightarrow> 'v ecs_stage_t \<Rightarrow> ('v ecs_world_t \<times> 'v ecs_stage_t \<times> bool) res" where
  "flecs_defer_purge type_info w stage =
     (let stage = stage\<lparr>st_defer := st_defer stage - 1\<rparr> in
      if st_defer stage = 0 then
        let commands = cq_queue (stage_cmd stage) in
        if ecs_vec_count commands \<noteq> 0 then
          bindr (for_each [0..<ecs_vec_count commands] (\<lambda>i w.
                   bindr (vec_read commands i) (\<lambda>cmd. flecs_discard_cmd type_info w cmd)) w) (\<lambda>w.
          bindr (flecs_sparse_clear (cq_entries (stage_cmd stage))) (\<lambda>entries.
          Inr (w, put_commands stage (st_cmd stage) \<lparr>cq_queue = ecs_vec_fini commands, cq_entries = entries\<rparr>, True)))
        else Inr (w, stage, True)
      else Inr (w, stage, False))"

end
