(* ===== verification/Command_Chains.thy ===== *)
theory Command_Chains
  imports Commands
begin

text \<open>
  The chains of commands: which command of a queue follows which one for the same entity, described by positions in
  the list of the entities that the commands are for (\<open>None\<close> for a command that is not chained).  The chains of
  entities with the same 32-bit index are consecutive: when the index is reused with another generation a
  new chain begins.
\<close>

section \<open>Positions\<close>

definition slot :: "u64 option \<Rightarrow> u32 option" where
  "slot t = (case t of None \<Rightarrow> None | Some e \<Rightarrow> Some (lo32 e))"

lemma slot_simps [simp]: "slot None = None" "slot (Some e) = Some (lo32 e)"
  by (simp_all add: slot_def)

definition is_last :: "u64 option list \<Rightarrow> u32 \<Rightarrow> nat \<Rightarrow> bool" where
  "is_last ts s i \<longleftrightarrow> i < length ts \<and> slot (ts ! i) = Some s \<and> (\<forall>j. i < j \<and> j < length ts \<longrightarrow> slot (ts ! j) \<noteq> Some s)"

definition chain_next :: "u64 option list \<Rightarrow> nat \<Rightarrow> nat \<Rightarrow> bool" where
  "chain_next ts i j \<longleftrightarrow> i < j \<and> j < length ts \<and> ts ! i \<noteq> None \<and> ts ! j = ts ! i \<and>
     (\<forall>k. i < k \<and> k < j \<longrightarrow> slot (ts ! k) \<noteq> slot (ts ! i))"

definition chain_start :: "u64 option list \<Rightarrow> nat \<Rightarrow> bool" where
  "chain_start ts i \<longleftrightarrow> i < length ts \<and> ts ! i \<noteq> None \<and> (\<forall>j. \<not> chain_next ts j i)"

text \<open>The chain from a position: the positions with its entity up to the next one with another generation.\<close>

definition chain_from :: "u64 option list \<Rightarrow> nat \<Rightarrow> nat list" where
  "chain_from ts i = takeWhile (\<lambda>j. ts ! j = ts ! i) (filter (\<lambda>j. slot (ts ! j) = slot (ts ! i)) [i..<length ts])"

lemma is_last_snoc: "is_last (ts @ [t]) s i \<longleftrightarrow> (if slot t = Some s then i = length ts else is_last ts s i)"
proof (cases "i < length ts")
  case True
  have "(\<forall>j. i < j \<and> j < Suc (length ts) \<longrightarrow> slot ((ts @ [t]) ! j) \<noteq> Some s) \<longleftrightarrow>
    (\<forall>j. i < j \<and> j < length ts \<longrightarrow> slot (ts ! j) \<noteq> Some s) \<and> slot t \<noteq> Some s"
    using True by (fastforce simp: nth_append less_Suc_eq)
  then show ?thesis using True by (auto simp: is_last_def nth_append)
next
  case False
  then show ?thesis by (auto simp: is_last_def nth_append less_Suc_eq)
qed

lemma chain_next_snoc:
  "chain_next (ts @ [t]) i j \<longleftrightarrow> chain_next ts i j \<or> (j = length ts \<and> (\<exists>e. t = Some e \<and> is_last ts (lo32 e) i \<and> ts ! i = t))"
proof (cases j "length ts" rule: linorder_cases)
  case less
  then show ?thesis by (auto simp: chain_next_def nth_append)
next
  case equal
  have "(\<forall>k. i < k \<and> k < length ts \<longrightarrow> slot ((ts @ [t]) ! k) \<noteq> slot ((ts @ [t]) ! i)) \<longleftrightarrow>
    (\<forall>k. i < k \<and> k < length ts \<longrightarrow> slot (ts ! k) \<noteq> slot (ts ! i))" if "i < length ts"
    using that by (simp add: nth_append)
  then show ?thesis using equal by (cases t) (auto simp: chain_next_def is_last_def nth_append)
next
  case greater
  then show ?thesis by (simp add: chain_next_def)
qed

lemma chain_next_bound: "chain_next ts i j \<Longrightarrow> i < j \<and> j < length ts"
  by (simp add: chain_next_def)

lemma chain_next_unique: "chain_next ts i j \<Longrightarrow> chain_next ts i j' \<Longrightarrow> j' = j"
  by (cases j j' rule: linorder_cases) (auto simp: chain_next_def)

lemma last_no_next: "is_last ts s i \<Longrightarrow> \<not> chain_next ts i j"
  by (auto simp: is_last_def chain_next_def)

lemma is_last_unique: "is_last ts s i \<Longrightarrow> is_last ts s j \<Longrightarrow> j = i"
  by (cases i j rule: linorder_cases) (auto simp: is_last_def)

lemma chain_start_snoc:
  "chain_start (ts @ [t]) i \<longleftrightarrow>
     (if i < length ts then chain_start ts i
      else i = length ts \<and> (\<exists>e. t = Some e \<and> (\<forall>j. is_last ts (lo32 e) j \<longrightarrow> ts ! j \<noteq> t)))"
  using chain_next_bound [of ts _ i] by (auto simp: chain_start_def chain_next_snoc nth_append)

lemma start_of_slot:
  assumes "i < length ts" and "slot (ts ! i) = Some s"
  shows "\<exists>j. chain_start ts j \<and> slot (ts ! j) = Some s"
proof -
  define P where "P j \<longleftrightarrow> j < length ts \<and> slot (ts ! j) = Some s" for j
  define j where "j = (LEAST j. P j)"
  have "P i" using assms by (simp add: P_def)
  then have j: "P j" unfolding j_def by (rule LeastI)
  have "\<not> chain_next ts k j" for k
  proof
    assume k: "chain_next ts k j"
    then have "k < j" by (simp add: chain_next_def)
    moreover have "P k" using k j by (simp add: chain_next_def P_def)
    ultimately show False unfolding j_def using not_less_Least by blast
  qed
  moreover have "ts ! j \<noteq> None" "j < length ts" "slot (ts ! j) = Some s" using j by (cases "ts ! j"; simp add: P_def)+
  ultimately show ?thesis unfolding chain_start_def by blast
qed

lemma last_of_slot:
  assumes "i < length ts" and "slot (ts ! i) = Some s"
  shows "\<exists>j. is_last ts s j"
proof -
  define S where "S = {j. j < length ts \<and> slot (ts ! j) = Some s}"
  have S: "finite S" "S \<noteq> {}" using assms by (auto simp: S_def)
  have m: "Max S \<in> S" by (rule Max_in [OF S])
  have "slot (ts ! j) \<noteq> Some s" if "Max S < j" "j < length ts" for j
  proof
    assume "slot (ts ! j) = Some s"
    then have "j \<le> Max S" using that(2) S(1) by (intro Max_ge) (simp_all add: S_def)
    then show False using that(1) by simp
  qed
  then have "is_last ts s (Max S)" using m unfolding is_last_def S_def by blast
  then show ?thesis by blast
qed

lemma chain_from_next:
  assumes "chain_next ts i j"
  shows "chain_from ts i = i # chain_from ts j"
proof -
  have C: "i < j" "j < length ts" "ts ! j = ts ! i" using assms by (simp_all add: chain_next_def)
  have u: "[i..<length ts] = i # [Suc i..<j] @ [j..<length ts]"
    using C upt_add_eq_append [of "Suc i" j "length ts - j"] by (simp add: upt_conv_Cons)
  have e: "filter (\<lambda>k. slot (ts ! k) = slot (ts ! i)) [Suc i..<j] = []"
    using assms by (auto simp: filter_empty_conv chain_next_def)
  show ?thesis unfolding chain_from_def u by (simp add: e C(3))
qed

lemma chain_from_last:
  assumes "i < length ts" and "ts ! i \<noteq> None" and "\<And>j. \<not> chain_next ts i j"
  shows "chain_from ts i = [i]"
proof -
  let ?F = "filter (\<lambda>k. slot (ts ! k) = slot (ts ! i)) [Suc i..<length ts]"
  have u: "[i..<length ts] = i # [Suc i..<length ts]" using assms(1) by (simp add: upt_conv_Cons)
  have "takeWhile (\<lambda>j. ts ! j = ts ! i) ?F = []"
  proof (cases ?F)
    case (Cons k ks)
    from Cons obtain us vs where F: "[Suc i..<length ts] = us @ k # vs" "\<forall>u \<in> set us. slot (ts ! u) \<noteq> slot (ts ! i)"
      unfolding filter_eq_Cons_iff by blast
    have k: "Suc i \<le> k" "k < length ts"
    proof -
      have "k \<in> set [Suc i..<length ts]" unfolding F(1) by simp
      then show "Suc i \<le> k" "k < length ts" by simp_all
    qed
    have len: "length us = k - Suc i"
    proof -
      have "length us < length [Suc i..<length ts]" unfolding F(1) by simp
      then have "[Suc i..<length ts] ! length us = Suc i + length us" by simp
      then show ?thesis unfolding F(1) by simp
    qed
    have "us = [Suc i..<k]"
    proof -
      have "us = take (k - Suc i) [Suc i..<length ts]" unfolding F(1) using len by simp
      then show ?thesis using k by (simp add: take_upt)
    qed
    then have "\<forall>m. i < m \<and> m < k \<longrightarrow> slot (ts ! m) \<noteq> slot (ts ! i)" using F(2) by auto
    then have "ts ! k \<noteq> ts ! i" using assms(2) assms(3) [of k] k by (auto simp: chain_next_def)
    then show ?thesis unfolding Cons by simp
  qed simp
  then show ?thesis unfolding chain_from_def u by simp
qed

section \<open>Links\<close>

text \<open>The entity of a chained command.\<close>

definition chained :: "ecs_cmd_kind_t \<Rightarrow> bool" where
  "chained k \<longleftrightarrow> k \<in> {EcsCmdAdd, EcsCmdRemove, EcsCmdDelete, EcsCmdClear}"

definition cmd_tag :: "'v ecs_cmd_t \<Rightarrow> u64 option" where
  "cmd_tag cmd = (if chained (the (cmd_kind cmd)) then cmd_entity cmd else None)"

abbreviation tags :: "'v ecs_cmd_t list \<Rightarrow> u64 option list" where
  "tags cs \<equiv> map cmd_tag cs"

definition link_value :: "u64 option list \<Rightarrow> nat \<Rightarrow> int \<Rightarrow> bool" where
  "link_value ts i n \<longleftrightarrow>
     (\<forall>j. chain_next ts i j \<longrightarrow> n = (if chain_start ts i then - int j else int j)) \<and> ((\<forall>j. \<not> chain_next ts i j) \<longrightarrow> n = 0)"

text \<open>What the walk over a chain does after a deletion.\<close>

primrec until_delete :: "(nat \<Rightarrow> bool) \<Rightarrow> nat list \<Rightarrow> nat list" where
  "until_delete del [] = []"
| "until_delete del (i # is) = (if del i then [i] else i # until_delete del is)"

lemma until_delete_cong: "(\<And>i. i \<in> set is \<Longrightarrow> del i = del' i) \<Longrightarrow> until_delete del is = until_delete del' is"
  by (induction "is") simp_all

lemma batch_walk_chain:
  assumes links: "\<forall>i < length cs. link_value (tags cs) i (cmd_next_for_entity (cs ! i))"
    and "i < length cs" and "cmd_tag (cs ! i) \<noteq> None" and "length cs \<le> i + fuel"
  shows "batch_walk fuel cs i = Some (until_delete (\<lambda>i. cmd_kind (cs ! i) = Some EcsCmdDelete) (chain_from (tags cs) i))"
  using assms(2-4)
proof (induction fuel arbitrary: i)
  case (Suc fuel)
  let ?ts = "tags cs" and ?del = "\<lambda>i. cmd_kind (cs ! i) = Some EcsCmdDelete"
  have l: "link_value ?ts i (cmd_next_for_entity (cs ! i))" using links Suc.prems by simp
  show ?case
  proof (cases "\<exists>j. chain_next ?ts i j")
    case True
    then obtain j where j: "chain_next ?ts i j" by blast
    then have b: "i < j" "j < length cs" "cmd_tag (cs ! j) = cmd_tag (cs ! i)" using Suc.prems(1) by (auto simp: chain_next_def)
    have n: "cmd_next_for_entity (cs ! i) = (if chain_start ?ts i then - int j else int j)" using l j by (auto simp: link_value_def)
    have IH: "batch_walk fuel cs j = Some (until_delete ?del (chain_from ?ts j))" using Suc.IH [of j] b Suc.prems by simp
    show ?thesis unfolding chain_from_next [OF j] using n IH b(1) by (simp add: Let_def)
  next
    case False
    then have n: "cmd_next_for_entity (cs ! i) = 0" using l by (simp add: link_value_def)
    show ?thesis using n chain_from_last [of i ?ts] False Suc.prems by (simp add: Let_def)
  qed
qed simp

lemma link_negative:
  assumes "link_value ts i n" and "i < length ts" and "ts ! i \<noteq> None"
  shows "n < 0 \<longleftrightarrow> chain_start ts i \<and> 1 < length (chain_from ts i)"
proof (cases "\<exists>j. chain_next ts i j")
  case True
  then obtain j where j: "chain_next ts i j" by blast
  have b: "0 < j" "j < length ts" "ts ! j = ts ! i" using j by (auto simp: chain_next_def)
  have "chain_from ts j \<noteq> []" unfolding chain_from_def using b by (simp add: upt_conv_Cons)
  then show ?thesis using assms(1) j b unfolding chain_from_next [OF j] by (auto simp: link_value_def)
next
  case False
  then show ?thesis using assms chain_from_last [of i ts] by (simp add: link_value_def)
qed

end
