(* ===== verification/Command_Queue.thy ===== *)
theory Command_Queue
  imports Command_Chains Refine
begin

text \<open>
  The command queue of a stage: the invariant that links the commands with their entries, the effect of every
  operation, and the refinement of a stage by the lists of the commands that were issued.
\<close>

section \<open>Entries\<close>

definition entries_ok :: "ecs_cmd_entry_t ecs_sparse_t \<Rightarrow> bool" where
  "entries_ok s \<longleftrightarrow> sparse_core s \<and> sp_size s = cmd_entry_size \<and> sp_count s = vec_count (sp_dense s) \<and>
     sp_count s = Suc (card {i. 0 < spos s i})"

abbreviation entry_at :: "'v ecs_commands_t \<Rightarrow> u32 \<Rightarrow> ecs_cmd_entry_t" where
  "entry_at c \<equiv> sdat zero_entry (cq_entries c)"

abbreviation has_entry :: "'v ecs_commands_t \<Rightarrow> u32 \<Rightarrow> bool" where
  "has_entry c s \<equiv> 0 < spos (cq_entries c) s"

lemma entries_okD:
  assumes "entries_ok s"
  shows "sparse_core s" "pages_ok s" "vec_ok (sp_dense s)" "sp_size s \<noteq> 0" "sp_size s = cmd_entry_size"
    "sp_count s = vec_count (sp_dense s)" "0 < spos s i \<Longrightarrow> spos s i < sp_count s"
  using assms spos_bound [of s i] by (auto simp: entries_ok_def sparse_core_def cmd_entry_size_def)

lemma entries_get_ok:
  assumes "entries_ok s"
  shows "flecs_sparse_get s cmd_entry_size e = Inr (if 0 < spos s (lo32 e) then Some (lo32 e) else None)"
proof -
  note E = entries_okD [OF assms]
  obtain p where p: "flecs_sparse_get_page s (FLECS_SPARSE_PAGE e) = Inr p"
    "(p = None \<or> page_sparse (the p) = None) = (\<not> mapped s e)" by (rule get_page_mapped [OF E(2)])
  have size: "cmd_entry_size = 0 \<or> cmd_entry_size = sp_size s" using E(5) by simp
  show ?thesis
    unfolding flecs_sparse_get_def Let_def sparse_slot_low ecs_assert_simps(1) [OF size] bindr_Inr p
    using E(4) E(7) [of "lo32 e"] spos_mapped [of s e] page_position_ok [OF E(2), of e] data_ptr_ok [OF E(2), of e]
    by (cases "mapped s e") auto
qed

lemma entry_modify_ok:
  assumes "entries_ok (cq_entries c)" and "has_entry c p"
  shows "\<exists>s. entry_modify c p f = Inr (c\<lparr>cq_entries := s\<rparr>) \<and> entries_ok s \<and> spos s = spos (cq_entries c) \<and>
    sdat zero_entry s = (entry_at c)(p := f (entry_at c p)) \<and> sp_count s = sp_count (cq_entries c)"
proof -
  let ?s = "cq_entries c"
  note E = entries_okD [OF assms(1)]
  have m: "mapped ?s (to64 p)" using assms(2) spos_mapped [of ?s "to64 p"] by simp
  have l: "sparse_load ?s p = Inr (entry_at c p)" using sparse_load_ok [OF E(2) m E(4), of zero_entry] by simp
  obtain t where t: "set_page_data ?s (FLECS_SPARSE_PAGE (to64 p)) (FLECS_SPARSE_OFFSET (to64 p)) (f (entry_at c p)) = Inr t" "pages_ok t"
    "sp_frame t ?s" "sp_dense t = sp_dense ?s" "spos t = spos ?s" "sdat zero_entry t = (entry_at c)(p := f (entry_at c p))"
    using set_page_data_ok [OF E(2) m E(4), of "f (entry_at c p)" zero_entry] by auto
  have "entries_ok t" using assms(1) sparse_core_cong [OF E(1) t(2,4,5)] t(3,4,5) by (simp add: entries_ok_def)
  then show ?thesis using t l by (intro exI [of _ t]) (simp add: entry_modify_def sparse_store_def)
qed

lemma entries_ensure_ok:
  assumes ok: "entries_ok s" and room: "sp_count s < 2 ^ 30"
  shows "\<exists>s'. flecs_sparse_ensure_fast zero_entry s cmd_entry_size e = Inr (s', Some (lo32 e)) \<and> entries_ok s' \<and>
    (\<forall>i. 0 < spos s' i \<longleftrightarrow> 0 < spos s i \<or> i = lo32 e) \<and> sdat zero_entry s' = sdat zero_entry s"
proof -
  let ?i = "lo32 e"
  note E = entries_okD [OF ok]
  obtain t where t: "flecs_sparse_get_or_create_page zero_entry s (FLECS_SPARSE_PAGE e) = Inr t" "pages_ok t" "mapped t e"
    "sp_frame t s" "sp_dense t = sp_dense s" "spos t = spos s" "sdat zero_entry t = sdat zero_entry s"
    using get_or_create_page_ok [OF E(2), of zero_entry e] by blast
  have pos: "page_position t (FLECS_SPARSE_PAGE e) (FLECS_SPARSE_OFFSET e) = Inr (spos s ?i)"
    using page_position_ok [OF t(2,3)] t(6) by simp
  have size: "cmd_entry_size = 0 \<or> cmd_entry_size = sp_size s" using E(5) by simp
  have c1: "1 \<le> sp_count s" using ok by (simp add: entries_ok_def)
  then have cnt: "0 < ecs_vec_count (sp_dense s)" using E(6) by (simp add: ecs_vec_count_def)
  note unfold = flecs_sparse_ensure_fast_def [of zero_entry s cmd_entry_size e] Let_def sparse_slot_low ecs_assert_simps(1) [OF size]
    ecs_assert_simps(1) [OF cnt] bindr_Inr t(1) pos
  show ?thesis
  proof (cases "spos s ?i = 0")
    case False
    have "entries_ok t" using ok sparse_core_cong [OF E(1) t(2,5,6)] t(4-6) by (simp add: entries_ok_def)
    moreover have "flecs_sparse_ensure_fast zero_entry s cmd_entry_size e = Inr (t, Some ?i)"
      unfolding unfold using False data_ptr_ok [OF t(2,3)] t(4) E(4) by simp
    ultimately show ?thesis using False t(6,7) by (intro exI [of _ t]) auto
  next
    case True
    let ?n = "sp_count s" and ?v = "sp_dense s" and ?D = "Sparse_Facts.dense_ids s"
    let ?x = "to64 ?i"
    note A = vec_append_facts [OF E(3) room [unfolded E(6)]]
    define u where "u = t\<lparr>sp_count := ?n + 1, sp_dense := fst (ecs_vec_append ?v)\<rparr>"
    have u: "pages_ok u" "mapped u ?x" "vec_wf (sp_dense u)" "?n < vec_count (sp_dense u)"
      using t(2,3) A(1,2) E(6) by (simp_all add: u_def)
    obtain w where w: "flecs_sparse_assign_index u (FLECS_SPARSE_PAGE ?x) ?x ?n = Inr w" "pages_ok w" "sp_frame w u"
      "sp_dense w = vec_upd (sp_dense u) ?n ?x" "mapped w = mapped u" "spos w = (spos u)(lo32 ?x := ?n)"
      "sdat zero_entry w = sdat zero_entry u"
      using assign_index_ok [OF u, of zero_entry] by blast
    have grow: "ecs_vec_count (sp_dense t) = ?n" "flecs_sparse_grow_dense (t\<lparr>sp_count := Suc ?n\<rparr>) = u"
      using E(6) t(5) by (simp_all add: ecs_vec_count_def flecs_sparse_grow_dense_def u_def)
    have wz: "sp_size w = sp_size s" using w(3) t(4) by (simp add: u_def)
    have wm: "mapped w e" using t(3) w(5) by (simp add: u_def)
    have run: "flecs_sparse_ensure_fast zero_entry s cmd_entry_size e = Inr (w, Some ?i)"
      unfolding unfold using True t(4) grow w(1) wz data_ptr_ok [OF w(2) wm] E(4) by simp
    have wd: "sp_dense w = vec_snoc ?v ?x" using w(4) A(3) E(6) by (simp add: u_def)
    have wv: "vec_ok (sp_dense w)" "Sparse_Facts.dense_ids w = ?D @ [?x]" "vec_count (sp_dense w) = Suc ?n"
      using E(3) room E(6) by (simp_all add: wd)
    have ws: "spos w = (spos s)(?i := ?n)" using w(6) t(6) by (simp add: u_def)
    have D: "dense_consistent lo32 ?D (spos s)" "length ?D = ?n" using E(1,3,6) by (simp_all add: sparse_core_def)
    have "dense_consistent lo32 (?D @ [?x]) ((spos s)(lo32 ?x := length ?D))"
      by (rule dense_consistent_append [OF D(1)]) (use D(2) c1 True in simp_all)
    then have core: "sparse_core w" using w(2) wv(1,2) ws D(2) by (simp add: sparse_core_def)
    have known: "{i. 0 < spos w i} = insert ?i {i. 0 < spos s i}" using ws c1 by auto
    have "card {i. 0 < spos w i} = Suc (card {i. 0 < spos s i})" unfolding known using True by simp
    then have "entries_ok w" using core w(3) t(4) wv(3) E(5) ok by (simp add: entries_ok_def u_def)
    moreover have "\<forall>i. 0 < spos w i \<longleftrightarrow> 0 < spos s i \<or> i = ?i" using known by auto
    ultimately show ?thesis using run w(7) t(7) by (intro exI [of _ w]) (simp add: u_def)
  qed
qed

lemma entries_init_ok:
  "\<exists>s. flecs_sparse_init cmd_entry_size = Inr s \<and> entries_ok s \<and> (\<forall>i. spos s i = 0)"
proof -
  obtain s :: "ecs_cmd_entry_t ecs_sparse_t" where s: "flecs_sparse_init cmd_entry_size = Inr s" "sparse_inv zero_entry s" "sabs zero_entry s = Map.empty"
    "sp_size s = cmd_entry_size" "vec_count (sp_dense s) = 1"
    using sparse_init_ok [of cmd_entry_size zero_entry] by blast
  have c: "sp_count s = 1" using sparse_invD(5,6) [OF s(2)] s(5) by simp
  have z: "spos s i = 0" for i using fun_cong [OF s(3), of i] by (auto simp: sabs_def split: if_splits)
  then have "entries_ok s" using sparse_invD(1) [OF s(2)] s(4,5) c by (simp add: entries_ok_def)
  then show ?thesis using s(1) z by blast
qed

section \<open>Access to commands\<close>

abbreviation cmds :: "'v ecs_commands_t \<Rightarrow> 'v ecs_cmd_t list" where
  "cmds c \<equiv> vec_elems (cq_queue c)"

definition blank_cmd :: "u64 \<Rightarrow> 'v ecs_cmd_t" where
  "blank_cmd system = \<lparr>cmd_kind = None, cmd_next_for_entity = 0, cmd_id = 0, cmd_entry = None, cmd_entity = None,
     cmd_is_1 = \<lparr>c1_value = None, c1_size = None, c1_clone_value = None\<rparr>, cmd_system = system\<rparr>"

lemma cmd_new_ok:
  assumes "vec_ok (cq_queue c)" and "vec_count (cq_queue c) < 2 ^ 30"
  shows "flecs_cmd_new system c = Inr (c\<lparr>cq_queue := vec_snoc (cq_queue c) (blank_cmd system)\<rparr>, vec_count (cq_queue c))"
proof -
  obtain v k where a: "ecs_vec_append (cq_queue c) = (v, k)" by (cases "ecs_vec_append (cq_queue c)")
  have "k = vec_count (cq_queue c)" using a by (auto simp: ecs_vec_append_def Let_def)
  moreover have "vec_write v k (blank_cmd system) = Inr (vec_snoc (cq_queue c) (blank_cmd system))"
    using vec_snoc_ok(4) [OF assms, of "blank_cmd system"] a by (simp add: ecs_vec_push_def)
  ultimately show ?thesis using a by (simp add: flecs_cmd_new_def blank_cmd_def)
qed

lemma cmd_modify_ok:
  "vec_ok (cq_queue c) \<Longrightarrow> i < vec_count (cq_queue c) \<Longrightarrow>
   cmd_modify c i f = Inr (c\<lparr>cq_queue := vec_upd (cq_queue c) i (f (cmds c ! i))\<rparr>)"
  by (simp add: cmd_modify_def)

section \<open>The invariant of a queue\<close>

text \<open>What the entry of an index says about the chains.\<close>

definition entry_matches :: "u64 option list \<Rightarrow> u32 \<Rightarrow> ecs_cmd_entry_t \<Rightarrow> bool" where
  "entry_matches ts s d \<longleftrightarrow>
     (if ce_first d = -1 then \<forall>i. \<not> is_last ts s i
      else 0 \<le> ce_first d \<and> ce_first d \<le> ce_last d \<and> is_last ts s (nat (ce_last d)) \<and>
        (ce_first d = ce_last d \<longleftrightarrow> chain_start ts (nat (ce_last d))))"

text \<open>Of the commands of the model only a path has a value, its name.\<close>

definition carries :: "ecs_cmd_kind_t \<Rightarrow> 'v cmd_value option \<Rightarrow> bool" where
  "carries k v \<longleftrightarrow> (if k = EcsCmdPath then \<exists>name. v = Some (Cmd_name name) else v = None)"

definition cmd_ok :: "u64 option list \<Rightarrow> nat \<Rightarrow> 'v ecs_cmd_t \<Rightarrow> bool" where
  "cmd_ok ts i cmd \<longleftrightarrow> cmd_kind cmd \<noteq> None \<and> cmd_entity cmd \<noteq> None \<and> link_value ts i (cmd_next_for_entity cmd) \<and>
     cmd_entry cmd = (if chain_start ts i then slot (ts ! i) else None) \<and> carries (the (cmd_kind cmd)) (c1_value (cmd_is_1 cmd))"

definition queue_links :: "'v ecs_commands_t \<Rightarrow> bool" where
  "queue_links c \<longleftrightarrow> vec_ok (cq_queue c) \<and> entries_ok (cq_entries c) \<and>
     (\<forall>i < length (cmds c). cmd_ok (tags (cmds c)) i (cmds c ! i)) \<and>
     (\<forall>s i. is_last (tags (cmds c)) s i \<longrightarrow> has_entry c s)"

definition queue_ok :: "'v ecs_commands_t \<Rightarrow> bool" where
  "queue_ok c \<longleftrightarrow> queue_links c \<and> (\<forall>s. has_entry c s \<longrightarrow> entry_matches (tags (cmds c)) s (entry_at c s))"

section \<open>Linking a new command\<close>

text \<open>What \<open>flecs_cmd_new_batched\<close> leaves behind; \<open>start\<close> tells whether the command begins a chain.\<close>

definition batched_result ::
  "u64 \<Rightarrow> 'v ecs_commands_t \<Rightarrow> u64 \<Rightarrow> bool \<Rightarrow> 'v ecs_cmd_t list \<Rightarrow> 'v ecs_commands_t \<Rightarrow> bool" where
  "batched_result system c e start cs c' \<longleftrightarrow>
     vec_ok (cq_queue c') \<and> cmds c' = cs @ [(blank_cmd system)\<lparr>cmd_entry := if start then Some (lo32 e) else None\<rparr>] \<and>
     entries_ok (cq_entries c') \<and> (\<forall>i. has_entry c' i \<longleftrightarrow> has_entry c i \<or> i = lo32 e) \<and>
     entry_at c' = (entry_at c)(lo32 e := \<lparr>ce_first = if start then int (vec_count (cq_queue c)) else ce_first (entry_at c (lo32 e)),
       ce_last = int (vec_count (cq_queue c))\<rparr>)"

lemma set_last_ok:
  assumes "entries_ok (cq_entries c)" and "has_entry c p"
  shows "\<exists>c'. entry_modify c p (\<lambda>entry. entry\<lparr>ce_last := l\<rparr>) = Inr c' \<and> cq_queue c' = cq_queue c \<and> entries_ok (cq_entries c') \<and>
    (\<forall>i. has_entry c' i = has_entry c i) \<and> entry_at c' = (entry_at c)(p := \<lparr>ce_first = ce_first (entry_at c p), ce_last = l\<rparr>)"
proof -
  obtain s where s: "entry_modify c p (\<lambda>entry. entry\<lparr>ce_last := l\<rparr>) = Inr (c\<lparr>cq_entries := s\<rparr>)" "entries_ok s"
    "spos s = spos (cq_entries c)" "sdat zero_entry s = (entry_at c)(p := (entry_at c p)\<lparr>ce_last := l\<rparr>)"
    using entry_modify_ok [OF assms, of "\<lambda>entry. entry\<lparr>ce_last := l\<rparr>"] by blast
  then show ?thesis by (intro exI [of _ "c\<lparr>cq_entries := s\<rparr>"]) (cases "entry_at c p", simp)
qed

lemma set_first_ok:
  assumes "entries_ok (cq_entries c)" and "has_entry c p"
  shows "\<exists>c'. entry_modify c p (\<lambda>entry. entry\<lparr>ce_first := l\<rparr>) = Inr c' \<and> cq_queue c' = cq_queue c \<and> entries_ok (cq_entries c') \<and>
    (\<forall>i. has_entry c' i = has_entry c i) \<and> entry_at c' = (entry_at c)(p := \<lparr>ce_first = l, ce_last = ce_last (entry_at c p)\<rparr>)"
proof -
  obtain s where s: "entry_modify c p (\<lambda>entry. entry\<lparr>ce_first := l\<rparr>) = Inr (c\<lparr>cq_entries := s\<rparr>)" "entries_ok s"
    "spos s = spos (cq_entries c)" "sdat zero_entry s = (entry_at c)(p := (entry_at c p)\<lparr>ce_first := l\<rparr>)"
    using entry_modify_ok [OF assms, of "\<lambda>entry. entry\<lparr>ce_first := l\<rparr>"] by blast
  then show ?thesis by (intro exI [of _ "c\<lparr>cq_entries := s\<rparr>"]) (cases "entry_at c p", simp)
qed

text \<open>A command that begins a chain, with a new entry and with one that was there.\<close>

lemma start_new_entry_ok:
  fixes system e :: u64
  assumes "vec_ok (cq_queue c)" and "vec_count (cq_queue c) < 2 ^ 30" and ok: "entries_ok (cq_entries c)"
    and "sp_count (cq_entries c) < 2 ^ 30"
  defines "n \<equiv> vec_count (cq_queue c)" and "c1 \<equiv> c\<lparr>cq_queue := vec_snoc (cq_queue c) (blank_cmd system)\<rparr>"
  shows "\<exists>s c2 c3 c4. flecs_sparse_ensure_fast zero_entry (cq_entries c1) cmd_entry_size e = Inr (s, Some (lo32 e)) \<and>
    cmd_modify (c1\<lparr>cq_entries := s\<rparr>) n (\<lambda>cmd. cmd\<lparr>cmd_entry := Some (lo32 e)\<rparr>) = Inr c2 \<and>
    entry_modify c2 (lo32 e) (\<lambda>entry. entry\<lparr>ce_first := int n\<rparr>) = Inr c3 \<and>
    entry_modify c3 (lo32 e) (\<lambda>entry. entry\<lparr>ce_last := int n\<rparr>) = Inr c4 \<and> batched_result system c e True (cmds c) c4"
proof -
  obtain s where s: "flecs_sparse_ensure_fast zero_entry (cq_entries c1) cmd_entry_size e = Inr (s, Some (lo32 e))" "entries_ok s"
    "\<forall>i. 0 < spos s i \<longleftrightarrow> has_entry c i \<or> i = lo32 e" "sdat zero_entry s = entry_at c"
    using entries_ensure_ok [OF ok assms(4), of e] by (auto simp: c1_def)
  let ?x = "(blank_cmd system)\<lparr>cmd_entry := Some (lo32 e)\<rparr>"
  define c2 where "c2 = c1\<lparr>cq_entries := s, cq_queue := vec_upd (cq_queue c1) n ?x\<rparr>"
  have v1: "vec_ok (cq_queue c1)" "cmds c1 = cmds c @ [blank_cmd system]" "vec_count (cq_queue c1) = Suc n" "length (cmds c) = n"
    "(cmds c @ [blank_cmd system]) ! n = blank_cmd system"
    using assms(1,2) by (simp_all add: c1_def n_def nth_append)
  have m: "cmd_modify (c1\<lparr>cq_entries := s\<rparr>) n (\<lambda>cmd. cmd\<lparr>cmd_entry := Some (lo32 e)\<rparr>) = Inr c2"
    using cmd_modify_ok [of "c1\<lparr>cq_entries := s\<rparr>" n] v1 by (simp add: c2_def)
  have q2: "vec_ok (cq_queue c2)" "cmds c2 = cmds c @ [?x]" using v1 by (simp_all add: c2_def list_update_append)
  have e2: "entries_ok (cq_entries c2)" "has_entry c2 (lo32 e)" "has_entry c2 i \<longleftrightarrow> has_entry c i \<or> i = lo32 e" "entry_at c2 = entry_at c" for i
    using s by (simp_all add: c2_def)
  obtain c3 where c3: "entry_modify c2 (lo32 e) (\<lambda>entry. entry\<lparr>ce_first := int n\<rparr>) = Inr c3" "cq_queue c3 = cq_queue c2"
    "entries_ok (cq_entries c3)" "\<forall>i. has_entry c3 i = has_entry c2 i"
    "entry_at c3 = (entry_at c2)(lo32 e := \<lparr>ce_first = int n, ce_last = ce_last (entry_at c2 (lo32 e))\<rparr>)"
    using set_first_ok [OF e2(1,2)] by blast
  obtain c4 where c4: "entry_modify c3 (lo32 e) (\<lambda>entry. entry\<lparr>ce_last := int n\<rparr>) = Inr c4" "cq_queue c4 = cq_queue c3"
    "entries_ok (cq_entries c4)" "\<forall>i. has_entry c4 i = has_entry c3 i"
    "entry_at c4 = (entry_at c3)(lo32 e := \<lparr>ce_first = ce_first (entry_at c3 (lo32 e)), ce_last = int n\<rparr>)"
    using set_last_ok [OF c3(3)] c3(4) e2(2) by blast
  have "batched_result system c e True (cmds c) c4"
    using q2 c3 c4 e2 by (simp add: batched_result_def n_def)
  then show ?thesis using s(1) m c3(1) c4(1) by blast
qed

text \<open>The commands after linking: the last one of the chain gets the position of the new one.\<close>

definition relink :: "'v ecs_cmd_t list \<Rightarrow> u64 \<Rightarrow> 'v ecs_cmd_t list" where
  "relink cs e = map (\<lambda>i. if is_last (tags cs) (lo32 e) i \<and> cmd_tag (cs ! i) = Some e
     then (cs ! i)\<lparr>cmd_next_for_entity := if chain_start (tags cs) i then - int (length cs) else int (length cs)\<rparr> else cs ! i) [0..<length cs]"

definition starts_chain :: "u64 option list \<Rightarrow> u64 \<Rightarrow> bool" where
  "starts_chain ts e \<longleftrightarrow> (\<forall>i. is_last ts (lo32 e) i \<longrightarrow> ts ! i \<noteq> Some e)"

lemma relink_start: "starts_chain (tags cs) e \<Longrightarrow> relink cs e = cs"
  unfolding relink_def starts_chain_def by (intro nth_equalityI) (auto simp: is_last_def)

lemma relink_link:
  assumes "is_last (tags cs) (lo32 e) i" and "tags cs ! i = Some e"
  shows "relink cs e = cs[i := (cs ! i)\<lparr>cmd_next_for_entity := if chain_start (tags cs) i then - int (length cs) else int (length cs)\<rparr>]"
proof -
  have "is_last (tags cs) (lo32 e) j \<longleftrightarrow> j = i" for j using assms(1) is_last_unique by blast
  then show ?thesis using assms unfolding relink_def
    by (intro nth_equalityI) (auto simp: is_last_def nth_list_update)
qed


lemma batched_link_ok:
  fixes system :: u64
  assumes "vec_ok (cq_queue c)" and "vec_count (cq_queue c) < 2 ^ 30" and "entries_ok (cq_entries c)" and "has_entry c (lo32 e)"
    and m: "entry_matches (tags (cmds c)) (lo32 e) (entry_at c (lo32 e))" and i: "is_last (tags (cmds c)) (lo32 e) i"
    and tag: "\<And>j. j < length (cmds c) \<Longrightarrow> cmd_entity (cmds c ! j) \<noteq> None"
  defines "n \<equiv> vec_count (cq_queue c)" and "c1 \<equiv> c\<lparr>cq_queue := vec_snoc (cq_queue c) (blank_cmd system)\<rparr>"
  shows "\<exists>c2. cmd_link c1 (lo32 e) n n e = Inr (c2, cmd_tag (cmds c ! i) \<noteq> Some e) \<and>
    (cmd_tag (cmds c ! i) \<noteq> Some e \<longrightarrow> c2 = c1) \<and>
    (cmd_tag (cmds c ! i) = Some e \<longrightarrow> cq_entries c2 = cq_entries c \<and> vec_ok (cq_queue c2) \<and>
       cmds c2 = relink (cmds c) e @ [blank_cmd system])"
proof -
  let ?ts = "tags (cmds c)" and ?d = "entry_at c (lo32 e)"
  have len: "length (cmds c) = n" using assms(1) by (simp add: n_def)
  have f: "ce_first ?d \<noteq> -1" using m i by (auto simp: entry_matches_def)
  then have M: "0 \<le> ce_first ?d" "ce_first ?d \<le> ce_last ?d" "is_last ?ts (lo32 e) (nat (ce_last ?d))"
    "ce_first ?d = ce_last ?d \<longleftrightarrow> chain_start ?ts (nat (ce_last ?d))" using m by (simp_all add: entry_matches_def)
  have li: "nat (ce_last ?d) = i" using is_last_unique [OF i M(3)] .
  have ib: "i < n" "slot (?ts ! i) = Some (lo32 e)" using i len by (auto simp: is_last_def)
  then obtain e' where e': "cmd_tag (cmds c ! i) = Some e'" using len by (cases "cmd_tag (cmds c ! i)") simp_all
  then have ent: "cmd_entity (cmds c ! i) = Some e'" by (simp add: cmd_tag_def split: if_splits)
  have v1: "vec_ok (cq_queue c1)" "cmds c1 = cmds c @ [blank_cmd system]" "vec_count (cq_queue c1) = Suc n"
    using assms(1,2) by (simp_all add: c1_def n_def)
  have c1i: "cmds c1 ! i = cmds c ! i" using v1(2) ib(1) len by (simp add: nth_append)
  have load: "sparse_load (cq_entries c1) (lo32 e) = Inr ?d"
  proof -
    note E = entries_okD [OF assms(3)]
    have "mapped (cq_entries c) e" using assms(4) spos_mapped by blast
    then show ?thesis using sparse_load_ok [OF E(2) _ E(4), of e zero_entry] by (simp add: c1_def)
  qed
  have read: "vec_read (cq_queue c1) i = Inr (cmds c ! i)" using v1 c1i ib(1) by simp
  have pos: "0 \<le> ce_last ?d" using M(1,2) by simp
  show ?thesis
  proof (cases "e' = e")
    case False
    then show ?thesis unfolding cmd_link_def using load f pos read li ent e' by (simp add: Let_def)
  next
    case True
    define m where "m = (if chain_start ?ts i then - int n else int n)"
    have mv: "(if ce_last ?d = ce_first ?d then - int n else int n) = m" using M(4) li by (auto simp: m_def)
    let ?c2 = "c1\<lparr>cq_queue := vec_upd (cq_queue c1) i ((cmds c ! i)\<lparr>cmd_next_for_entity := m\<rparr>)\<rparr>"
    have mod: "cmd_modify c1 i (\<lambda>cmd. cmd\<lparr>cmd_next_for_entity := m\<rparr>) = Inr ?c2"
      using cmd_modify_ok [OF v1(1), of i] v1(3) ib(1) c1i by simp
    have "cmd_link c1 (lo32 e) n n e = Inr (?c2, False)"
      unfolding cmd_link_def using load f pos read li ent True mv mod
      by (cases "ce_last ?d = ce_first ?d") (simp_all add: Let_def)
    moreover have "cmds ?c2 = relink (cmds c) e @ [blank_cmd system]"
      using v1 ib(1) len relink_link [OF i] e' True by (simp add: list_update_append m_def)
    ultimately show ?thesis using e' True v1 ib(1) by (intro exI [of _ ?c2]) (simp add: c1_def)
  qed
qed

lemma new_batched_ok:
  assumes ok: "queue_ok c" and room: "vec_count (cq_queue c) < 2 ^ 30" "sp_count (cq_entries c) < 2 ^ 30"
  shows "\<exists>c'. flecs_cmd_new_batched system c e = Inr (c', vec_count (cq_queue c)) \<and>
    batched_result system c e (starts_chain (tags (cmds c)) e) (relink (cmds c) e) c'"
proof -
  let ?ts = "tags (cmds c)" and ?s = "lo32 e" and ?n = "vec_count (cq_queue c)"
  let ?c1 = "c\<lparr>cq_queue := vec_snoc (cq_queue c) (blank_cmd system)\<rparr>"
  have L: "vec_ok (cq_queue c)" "entries_ok (cq_entries c)" "\<And>s i. is_last ?ts s i \<Longrightarrow> has_entry c s"
    "\<And>i. i < length (cmds c) \<Longrightarrow> cmd_entity (cmds c ! i) \<noteq> None"
    "has_entry c ?s \<Longrightarrow> entry_matches ?ts ?s (entry_at c ?s)"
    using ok by (auto simp: queue_ok_def queue_links_def cmd_ok_def)
  note unfold = flecs_cmd_new_batched_def entries_get_ok [OF L(2)] bindr_Inr cmd_new_ok [OF L(1) room(1)] Let_def ecs_vec_count_def prod.case
  consider (none) "\<not> has_entry c ?s" | (idle) "has_entry c ?s" "ce_first (entry_at c ?s) = -1"
    | (busy) i where "has_entry c ?s" "is_last ?ts ?s i"
  proof (cases "has_entry c ?s \<and> ce_first (entry_at c ?s) \<noteq> -1")
    case True
    then have "is_last ?ts ?s (nat (ce_last (entry_at c ?s)))" using L(5) by (simp add: entry_matches_def)
    then show thesis using True that(3) by blast
  next
    case False
    then show thesis using that(1,2) by argo
  qed
  then show ?thesis
  proof cases
    case none
    then have st: "starts_chain ?ts e" using L(3) [of ?s] unfolding starts_chain_def by metis
    from start_new_entry_ok [OF L(1) room(1) L(2) room(2), of system e] none st show ?thesis
      unfolding unfold relink_start [OF st] by auto
  next
    case busy
    note B = batched_link_ok [OF L(1) room(1) L(2) busy(1) L(5) [OF busy(1)] busy(2) L(4), of system]
    have tg: "?ts ! i = cmd_tag (cmds c ! i)" using busy(2) by (simp add: is_last_def)
    have start: "starts_chain ?ts e \<longleftrightarrow> cmd_tag (cmds c ! i) \<noteq> Some e"
      unfolding starts_chain_def using busy(2) is_last_unique [OF busy(2)] tg by metis
    show ?thesis
    proof (cases "cmd_tag (cmds c ! i) = Some e")
      case False
      then have st: "starts_chain ?ts e" using start by simp
      from start_new_entry_ok [OF L(1) room(1) L(2) room(2), of system e] B False st busy(1) show ?thesis
        unfolding unfold relink_start [OF st] by auto
    next
      case True
      then have st: "\<not> starts_chain ?ts e" using start by simp
      obtain c2 where c2: "cmd_link ?c1 ?s ?n ?n e = Inr (c2, False)" "cq_entries c2 = cq_entries c" "vec_ok (cq_queue c2)"
        "cmds c2 = relink (cmds c) e @ [blank_cmd system]" using B True by auto
      have e2: "entries_ok (cq_entries c2)" "has_entry c2 ?s" using L(2) busy(1) c2(2) by simp_all
      obtain c3 where c3: "entry_modify c2 ?s (\<lambda>entry. entry\<lparr>ce_last := int ?n\<rparr>) = Inr c3" "cq_queue c3 = cq_queue c2"
        "entries_ok (cq_entries c3)" "\<forall>i. has_entry c3 i = has_entry c2 i"
        "entry_at c3 = (entry_at c2)(?s := \<lparr>ce_first = ce_first (entry_at c2 ?s), ce_last = int ?n\<rparr>)"
        using set_last_ok [OF e2] by blast
      have run: "flecs_cmd_new_batched system c e = Inr (c3, ?n)" unfolding unfold using busy(1) c2(1) c3(1) by simp
      have "batched_result system c e False (relink (cmds c) e) c3"
        using c2 c3 busy(1) by (auto simp: batched_result_def blank_cmd_def)
      then show ?thesis using run st by auto
    qed
  next
    case idle
    have no: "\<not> is_last ?ts ?s i" for i using L(5) [OF idle(1)] idle(2) by (simp add: entry_matches_def)
    then have st: "starts_chain ?ts e" by (simp add: starts_chain_def)
    have v1: "vec_ok (cq_queue ?c1)" "cmds ?c1 = cmds c @ [blank_cmd system]" "vec_count (cq_queue ?c1) = Suc ?n"
      "(cmds c @ [blank_cmd system]) ! ?n = blank_cmd system" "length (cmds c) = ?n"
      using L(1) room(1) by (simp_all add: nth_append)
    have e1: "entries_ok (cq_entries ?c1)" "has_entry ?c1 ?s" using L(2) idle(1) by simp_all
    obtain c2 where c2: "entry_modify ?c1 ?s (\<lambda>entry. entry\<lparr>ce_first := int ?n\<rparr>) = Inr c2" "cq_queue c2 = cq_queue ?c1"
      "entries_ok (cq_entries c2)" "\<forall>i. has_entry c2 i = has_entry ?c1 i"
      "entry_at c2 = (entry_at ?c1)(?s := \<lparr>ce_first = int ?n, ce_last = ce_last (entry_at ?c1 ?s)\<rparr>)"
      using set_first_ok [OF e1] by blast
    let ?x = "(blank_cmd system)\<lparr>cmd_entry := Some ?s\<rparr>"
    let ?c3 = "c2\<lparr>cq_queue := vec_upd (cq_queue c2) ?n ?x\<rparr>"
    have m: "cmd_modify c2 ?n (\<lambda>cmd. cmd\<lparr>cmd_entry := Some ?s\<rparr>) = Inr ?c3"
      using cmd_modify_ok [of c2 ?n] c2(2) v1 by simp
    have q3: "vec_ok (cq_queue ?c3)" "cmds ?c3 = cmds c @ [?x]" using c2(2) v1 by (simp_all add: list_update_append)
    have e3: "entries_ok (cq_entries ?c3)" "has_entry ?c3 ?s" using c2(3,4) idle(1) by simp_all
    obtain c4 where c4: "entry_modify ?c3 ?s (\<lambda>entry. entry\<lparr>ce_last := int ?n\<rparr>) = Inr c4" "cq_queue c4 = cq_queue ?c3"
      "entries_ok (cq_entries c4)" "\<forall>i. has_entry c4 i = has_entry ?c3 i"
      "entry_at c4 = (entry_at ?c3)(?s := \<lparr>ce_first = ce_first (entry_at ?c3 ?s), ce_last = int ?n\<rparr>)"
      using set_last_ok [OF e3] by blast
    have load: "sparse_load (cq_entries ?c1) ?s = Inr (entry_at c ?s)"
    proof -
      note E = entries_okD [OF L(2)]
      have "mapped (cq_entries c) e" using idle(1) spos_mapped by blast
      then show ?thesis using sparse_load_ok [OF E(2) _ E(4), of e zero_entry] by simp
    qed
    have link: "cmd_link ?c1 ?s ?n ?n e = Inr (?c3, False)"
      unfolding cmd_link_def using load idle(2) c2(1) m by simp
    have run: "flecs_cmd_new_batched system c e = Inr (c4, ?n)" unfolding unfold using idle(1) link c4(1) by simp
    have "batched_result system c e True (cmds c) c4"
      using q3 c2(4,5) c4 idle(1) by (auto simp: batched_result_def)
    then show ?thesis using run st relink_start [OF st] by auto
  qed
qed


section \<open>Queues grow\<close>

lemma link_value_snoc:
  assumes "i < length ts" and "\<not> (\<exists>e. t = Some e \<and> is_last ts (lo32 e) i \<and> ts ! i = t)"
  shows "link_value (ts @ [t]) i n = link_value ts i n"
  using assms by (auto simp: link_value_def chain_next_snoc chain_start_snoc)

lemma link_value_new:
  "is_last ts (lo32 e) i \<Longrightarrow> ts ! i = Some e \<Longrightarrow>
   link_value (ts @ [Some e]) i (if chain_start ts i then - int (length ts) else int (length ts))"
  using last_no_next [of ts "lo32 e" i] by (auto simp: link_value_def chain_next_snoc chain_start_snoc is_last_def)

lemma link_value_end: "link_value (ts @ [t]) (length ts) 0"
  by (auto simp: link_value_def chain_next_def)

lemma chain_start_end: "chain_start (ts @ [t]) (length ts) \<longleftrightarrow> (\<exists>e. t = Some e \<and> starts_chain ts e)"
  by (auto simp: chain_start_snoc starts_chain_def)

lemma tags_relink: "tags (relink cs e) = tags cs" "length (relink cs e) = length cs"
  unfolding relink_def by (auto intro!: nth_equalityI simp: cmd_tag_def)

lemma relink_nth:
  "i < length cs \<Longrightarrow> relink cs e ! i = (if is_last (tags cs) (lo32 e) i \<and> cmd_tag (cs ! i) = Some e
     then (cs ! i)\<lparr>cmd_next_for_entity := if chain_start (tags cs) i then - int (length cs) else int (length cs)\<rparr> else cs ! i)"
  by (simp add: relink_def)

text \<open>The old commands are still linked right.\<close>

lemma cmd_ok_relink:
  assumes "cmd_ok (tags cs) i (cs ! i)" and i: "i < length cs"
  shows "cmd_ok (tags cs @ [Some e]) i (relink cs e ! i)"
proof (cases "is_last (tags cs) (lo32 e) i \<and> cmd_tag (cs ! i) = Some e")
  case True
  then show ?thesis
    using assms link_value_new [of "tags cs" e i] by (auto simp: cmd_ok_def relink_nth nth_append chain_start_snoc)
next
  case False
  then show ?thesis
    using assms link_value_snoc [of i "tags cs" "Some e"] by (auto simp: cmd_ok_def relink_nth nth_append chain_start_snoc)
qed

lemma cmd_ok_unchained:
  assumes "cmd_ok ts i cmd" and "i < length ts"
  shows "cmd_ok (ts @ [None]) i cmd"
  using assms link_value_snoc [of i ts None] by (simp add: cmd_ok_def nth_append chain_start_snoc)

lemma entry_matches_snoc:
  assumes "slot t \<noteq> Some s"
  shows "entry_matches (ts @ [t]) s d = entry_matches ts s d"
proof -
  have l: "is_last (ts @ [t]) s i = is_last ts s i" for i using assms by (simp add: is_last_snoc)
  have "is_last ts s i \<Longrightarrow> chain_start (ts @ [t]) i = chain_start ts i" for i by (simp add: is_last_def chain_start_snoc)
  then show ?thesis unfolding entry_matches_def l by auto
qed

definition issue_cmd :: "u64 \<Rightarrow> ('v ecs_cmd_t \<Rightarrow> 'v ecs_cmd_t) \<Rightarrow> ecs_cmd_kind_t \<Rightarrow> bool" where
  "issue_cmd e f k \<longleftrightarrow> (\<forall>cmd. cmd_kind (f cmd) = Some k \<and> cmd_entity (f cmd) = cmd_entity cmd \<and>
     cmd_next_for_entity (f cmd) = cmd_next_for_entity cmd \<and> cmd_entry (f cmd) = cmd_entry cmd \<and>
     (c1_value (cmd_is_1 cmd) = None \<longrightarrow> carries k (c1_value (cmd_is_1 (f cmd)))))"

lemma queue_ok_chained:
  assumes ok: "queue_ok c" and res: "batched_result system c e (starts_chain (tags (cmds c)) e) (relink (cmds c) e) c'"
    and f: "issue_cmd e f k" and k: "chained k"
  defines "n \<equiv> vec_count (cq_queue c)"
  defines "x \<equiv> f ((blank_cmd system)\<lparr>cmd_entry := if starts_chain (tags (cmds c)) e then Some (lo32 e) else None, cmd_entity := Some e\<rparr>)"
  shows "\<exists>c''. cmd_modify c' n (f \<circ> cmd_entity_update (\<lambda>_. Some e)) = Inr c'' \<and> queue_ok c'' \<and> cmds c'' = relink (cmds c) e @ [x] \<and>
    (\<forall>i. has_entry c'' i \<longleftrightarrow> has_entry c i \<or> i = lo32 e)"
proof -
  let ?ts = "tags (cmds c)" and ?cs = "relink (cmds c) e" and ?s = "lo32 e" and ?st = "starts_chain (tags (cmds c)) e"
  have L: "vec_ok (cq_queue c)" "\<And>i. i < length (cmds c) \<Longrightarrow> cmd_ok ?ts i (cmds c ! i)" "\<And>s i. is_last ?ts s i \<Longrightarrow> has_entry c s"
    "\<And>s. has_entry c s \<Longrightarrow> entry_matches ?ts s (entry_at c s)"
    using ok unfolding queue_ok_def queue_links_def by blast+
  have R: "vec_ok (cq_queue c')" "entries_ok (cq_entries c')" "\<And>i. has_entry c' i \<longleftrightarrow> has_entry c i \<or> i = ?s"
    "cmds c' = ?cs @ [(blank_cmd system)\<lparr>cmd_entry := if ?st then Some ?s else None\<rparr>]"
    "entry_at c' = (entry_at c)(?s := \<lparr>ce_first = if ?st then int n else ce_first (entry_at c ?s), ce_last = int n\<rparr>)"
    using res by (simp_all add: batched_result_def n_def)
  have len: "length (cmds c) = n" "length ?cs = n" "length ?ts = n" using L(1) by (simp_all add: n_def tags_relink)
  have cnt: "vec_count (cq_queue c') = Suc n" using R(1,4) len(2) length_vec_elems [OF R(1)] by simp
  let ?c = "c'\<lparr>cq_queue := vec_upd (cq_queue c') n x\<rparr>"
  have mod: "cmd_modify c' n (f \<circ> cmd_entity_update (\<lambda>_. Some e)) = Inr ?c"
    using cmd_modify_ok [OF R(1), of n] cnt R(4) len(2) by (simp add: x_def nth_append)
  have q: "vec_ok (cq_queue ?c)" "cmds ?c = ?cs @ [x]" using R(1,4) cnt len(2) by (simp_all add: list_update_append)
  have xf: "cmd_kind x = Some k" "cmd_entity x = Some e" "cmd_next_for_entity x = 0" "cmd_entry x = (if ?st then Some ?s else None)"
    "carries k (c1_value (cmd_is_1 x))"
    using f by (simp_all add: issue_cmd_def x_def blank_cmd_def)
  have tx: "cmd_tag x = Some e" using xf k by (simp add: cmd_tag_def)
  have T: "tags (cmds ?c) = ?ts @ [Some e]" unfolding q(2) using tx tags_relink(1) by simp
  have new: "cmd_ok (?ts @ [Some e]) n x"
    using xf len(3) link_value_end [of ?ts "Some e"] chain_start_end [of ?ts "Some e"] by (simp add: cmd_ok_def nth_append)
  have "cmd_ok (?ts @ [Some e]) i (cmds ?c ! i)" if "i < length (cmds ?c)" for i
    using that new cmd_ok_relink [OF L(2), of i e] len unfolding q(2) by (auto simp: nth_append less_Suc_eq)
  moreover have "has_entry ?c s" if "is_last (?ts @ [Some e]) s i" for s i
    using that L(3) R(3) by (auto simp: is_last_snoc split: if_splits)
  ultimately have links: "queue_links ?c" unfolding queue_links_def T using q(1) R(2) by simp
  have "entry_matches (?ts @ [Some e]) s (entry_at ?c s)" if h: "has_entry ?c s" for s
  proof (cases "s = ?s")
    case False
    then have "has_entry c s" using h R(3) by simp
    then show ?thesis using L(4) [of s] entry_matches_snoc [of "Some e" s ?ts] R(5) False by simp
  next
    case True
    have d: "entry_at ?c s = \<lparr>ce_first = if ?st then int n else ce_first (entry_at c ?s), ce_last = int n\<rparr>" using R(5) True by simp
    have l: "is_last (?ts @ [Some e]) s n" using True len(3) by (simp add: is_last_snoc)
    have st: "chain_start (?ts @ [Some e]) n \<longleftrightarrow> ?st" using chain_start_end [of ?ts "Some e"] len(3) by simp
    have "\<not> ?st \<Longrightarrow> 0 \<le> ce_first (entry_at c ?s) \<and> ce_first (entry_at c ?s) < int n"
    proof -
      assume "\<not> ?st"
      then obtain i where i: "is_last ?ts ?s i" unfolding starts_chain_def by metis
      have m: "entry_matches ?ts ?s (entry_at c ?s)" using L(3) [OF i] L(4) by simp
      then have b: "0 \<le> ce_first (entry_at c ?s)" "ce_first (entry_at c ?s) \<le> ce_last (entry_at c ?s)"
        "is_last ?ts ?s (nat (ce_last (entry_at c ?s)))" using i unfolding entry_matches_def by metis+
      then have "nat (ce_last (entry_at c ?s)) < n" using len(3) by (simp add: is_last_def)
      then show ?thesis using b(1,2) by simp
    qed
    then show ?thesis using l st unfolding entry_matches_def d by auto
  qed
  then have "queue_ok ?c" using links unfolding queue_ok_def T by simp
  then show ?thesis using mod q(2) R(3) by (intro exI [of _ ?c]) simp
qed

lemma queue_ok_unchained:
  assumes ok: "queue_ok c" and room: "vec_count (cq_queue c) < 2 ^ 30" and f: "issue_cmd e f k" and k: "\<not> chained k"
  defines "n \<equiv> vec_count (cq_queue c)"
  shows "\<exists>c1 c2. flecs_cmd_new system c = Inr (c1, n) \<and> cmd_modify c1 n (f \<circ> cmd_entity_update (\<lambda>_. Some e)) = Inr c2 \<and> queue_ok c2 \<and>
    cmds c2 = cmds c @ [f ((blank_cmd system)\<lparr>cmd_entity := Some e\<rparr>)] \<and> cq_entries c2 = cq_entries c"
proof -
  let ?ts = "tags (cmds c)" and ?x = "f ((blank_cmd system)\<lparr>cmd_entity := Some e\<rparr>)"
  have L: "vec_ok (cq_queue c)" "\<And>i. i < length (cmds c) \<Longrightarrow> cmd_ok ?ts i (cmds c ! i)" "\<And>s i. is_last ?ts s i \<Longrightarrow> has_entry c s"
    "\<And>s. has_entry c s \<Longrightarrow> entry_matches ?ts s (entry_at c s)" "entries_ok (cq_entries c)"
    using ok unfolding queue_ok_def queue_links_def by blast+
  let ?c1 = "c\<lparr>cq_queue := vec_snoc (cq_queue c) (blank_cmd system)\<rparr>"
  let ?c = "?c1\<lparr>cq_queue := vec_upd (cq_queue ?c1) n ?x\<rparr>"
  have len: "length (cmds c) = n" using L(1) by (simp add: n_def)
  have v1: "vec_ok (cq_queue ?c1)" "cmds ?c1 = cmds c @ [blank_cmd system]" "vec_count (cq_queue ?c1) = Suc n"
    using L(1) room by (simp_all add: n_def)
  have mod: "cmd_modify ?c1 n (f \<circ> cmd_entity_update (\<lambda>_. Some e)) = Inr ?c"
    using cmd_modify_ok [OF v1(1), of n] v1(2,3) len by (simp add: nth_append)
  have q: "vec_ok (cq_queue ?c)" "cmds ?c = cmds c @ [?x]" using v1 len by (simp_all add: list_update_append)
  have xf: "cmd_kind ?x = Some k" "cmd_entity ?x = Some e" "cmd_next_for_entity ?x = 0" "cmd_entry ?x = None"
    "carries k (c1_value (cmd_is_1 ?x))"
    using f by (simp_all add: issue_cmd_def blank_cmd_def)
  have T: "tags (cmds ?c) = ?ts @ [None]" unfolding q(2) using xf k by (simp add: cmd_tag_def)
  have new: "cmd_ok (?ts @ [None]) n ?x"
    using xf len link_value_end [of ?ts None] chain_start_end [of ?ts None] by (simp add: cmd_ok_def)
  have "cmd_ok (?ts @ [None]) i (cmds ?c ! i)" if "i < length (cmds ?c)" for i
    using that new cmd_ok_unchained [OF L(2), of i] len unfolding q(2) by (auto simp: nth_append less_Suc_eq)
  moreover have "is_last (?ts @ [None]) s i = is_last ?ts s i" for s i by (simp add: is_last_snoc)
  ultimately have "queue_links ?c" unfolding queue_links_def T using q(1) L(3,5) by simp
  then have "queue_ok ?c" unfolding queue_ok_def T using L(4) entry_matches_snoc [of None _ ?ts] by simp
  then show ?thesis using cmd_new_ok [OF L(1) room] mod q(2) by (intro exI [of _ ?c1] exI [of _ ?c]) (simp add: n_def)
qed

end
