(* ===== verification/Command_Runs.thy ===== *)
theory Command_Runs
  imports Command_Queue
begin

text \<open>
  Sequences of calls on a stage: deferred operations, nested deferring, suspending, and rounds of a flush during which
  further commands are issued.  The specification keeps the commands that were issued to each of the two queues.
\<close>

section \<open>Flushing a queue\<close>

text \<open>A queue of which the first \<open>r\<close> commands have been executed: only the entries of later chains are still valid.\<close>

definition queue_flush :: "'v ecs_commands_t \<Rightarrow> nat \<Rightarrow> bool" where
  "queue_flush c r \<longleftrightarrow> queue_links c \<and>
     (\<forall>s. has_entry c s \<and> ce_first (entry_at c s) \<noteq> -1 \<longrightarrow> (\<exists>i. r \<le> i \<and> i < length (cmds c) \<and> cmd_entry (cmds c ! i) = Some s))"

lemma queue_flush_start:
  assumes "queue_ok c"
  shows "queue_flush c 0"
proof -
  let ?ts = "tags (cmds c)"
  have "\<exists>i < length (cmds c). cmd_entry (cmds c ! i) = Some s" if h: "has_entry c s" "ce_first (entry_at c s) \<noteq> -1" for s
  proof -
    have "entry_matches ?ts s (entry_at c s)" using assms h(1) by (simp add: queue_ok_def)
    then obtain i where "is_last ?ts s i" using h(2) unfolding entry_matches_def by metis
    then have "i < length ?ts" "slot (?ts ! i) = Some s" unfolding is_last_def by blast+
    then obtain j where j: "chain_start ?ts j" "slot (?ts ! j) = Some s" using start_of_slot by blast
    then have "j < length (cmds c)" by (simp add: chain_start_def)
    moreover from this have "cmd_ok ?ts j (cmds c ! j)" using assms by (simp add: queue_ok_def queue_links_def)
    ultimately show ?thesis using j unfolding cmd_ok_def by metis
  qed
  then show ?thesis using assms by (auto simp: queue_flush_def queue_ok_def)
qed

lemma queue_flush_step:
  assumes fl: "queue_flush (st_cmd_stack stage k) r" and r: "r < length (cmds (st_cmd_stack stage k))"
  shows "\<exists>c. flush_invalidate stage k r = Inr (stage\<lparr>st_cmd_stack := (st_cmd_stack stage)(k := c)\<rparr>) \<and> queue_flush c (Suc r) \<and>
    cq_queue c = cq_queue (st_cmd_stack stage k) \<and> (\<forall>s. has_entry c s = has_entry (st_cmd_stack stage k) s)"
proof -
  let ?c = "st_cmd_stack stage k"
  let ?ts = "tags (cmds ?c)"
  have L: "vec_ok (cq_queue ?c)" "entries_ok (cq_entries ?c)" "\<And>i. i < length (cmds ?c) \<Longrightarrow> cmd_ok ?ts i (cmds ?c ! i)"
    "\<And>s i. is_last ?ts s i \<Longrightarrow> has_entry ?c s"
    using fl unfolding queue_flush_def queue_links_def by blast+
  have read: "vec_read (cq_queue ?c) r = Inr (cmds ?c ! r)" using L(1) r by simp
  have left: "\<exists>i. Suc r \<le> i \<and> i < length (cmds ?c) \<and> cmd_entry (cmds ?c ! i) = Some s"
    if h: "has_entry ?c s" "ce_first (entry_at ?c s) \<noteq> -1" "cmd_entry (cmds ?c ! r) \<noteq> Some s" for s
  proof -
    obtain i where i: "r \<le> i" "i < length (cmds ?c)" "cmd_entry (cmds ?c ! i) = Some s"
      using fl h(1,2) unfolding queue_flush_def by blast
    then have "i \<noteq> r" using h(3) by auto
    then show ?thesis using i by (intro exI [of _ i]) simp
  qed
  show ?thesis
  proof (cases "cmd_entry (cmds ?c ! r)")
    case None
    then have "flush_invalidate stage k r = Inr (stage\<lparr>st_cmd_stack := (st_cmd_stack stage)(k := ?c)\<rparr>)"
      using read by (simp add: flush_invalidate_def)
    moreover have "queue_flush ?c (Suc r)" using fl left None by (simp add: queue_flush_def)
    ultimately show ?thesis by blast
  next
    case (Some p)
    have "cmd_entry (cmds ?c ! r) = (if chain_start ?ts r then slot (?ts ! r) else None)" using L(3) [OF r] by (simp add: cmd_ok_def)
    then have "slot (?ts ! r) = Some p" using Some by (simp split: if_splits)
    then obtain j where "is_last ?ts p j" using last_of_slot [of r ?ts p] r by auto
    then have h: "has_entry ?c p" by (rule L(4))
    obtain c where c: "entry_modify ?c p (\<lambda>entry. entry\<lparr>ce_first := -1\<rparr>) = Inr c" "cq_queue c = cq_queue ?c" "entries_ok (cq_entries c)"
      "\<forall>i. has_entry c i = has_entry ?c i" "entry_at c = (entry_at ?c)(p := \<lparr>ce_first = -1, ce_last = ce_last (entry_at ?c p)\<rparr>)"
      using set_first_ok [OF L(2) h] by blast
    have "queue_links c" using fl c(2-4) by (simp add: queue_flush_def queue_links_def)
    moreover have "\<exists>i. Suc r \<le> i \<and> i < length (cmds ?c) \<and> cmd_entry (cmds ?c ! i) = Some s"
      if "has_entry c s" "ce_first (entry_at c s) \<noteq> -1" for s
      using left [of s] that c(4,5) Some by (cases "s = p") simp_all
    ultimately have "queue_flush c (Suc r)" using c(2) by (simp add: queue_flush_def)
    then show ?thesis using read Some c by (intro exI [of _ c]) (simp add: flush_invalidate_def put_commands_def)
  qed
qed

lemma queue_flush_done:
  assumes "queue_flush c (length (cmds c))"
  shows "queue_ok (c\<lparr>cq_queue := ecs_vec_clear (cq_queue c)\<rparr>)"
  using assms by (auto simp: queue_flush_def queue_ok_def queue_links_def entry_matches_def is_last_def)

section \<open>The specification\<close>

type_synonym issued = "ecs_cmd_kind_t \<times> u64 \<times> u64"

record stage_spec =
  ss_defer :: int
  ss_cur :: nat
  ss_flushing :: bool
  ss_issued :: "nat \<Rightarrow> issued list"
  ss_known :: "nat \<Rightarrow> u32 set"
  ss_round :: "(nat \<times> nat) option"

definition issued_of :: "'v ecs_cmd_t \<Rightarrow> issued" where
  "issued_of cmd = (the (cmd_kind cmd), cmd_id cmd, the (cmd_entity cmd))"

definition issued_tag :: "issued \<Rightarrow> u64 option" where
  "issued_tag = (\<lambda>(k, cid, e). if chained k then Some e else None)"

text \<open>The positions that a batch visits from a command on.\<close>

definition issued_chain :: "issued list \<Rightarrow> nat \<Rightarrow> nat list" where
  "issued_chain xs i = until_delete (\<lambda>j. fst (xs ! j) = EcsCmdDelete) (chain_from (map issued_tag xs) i)"

datatype 'v stage_event =
    Ev_begin
  | Ev_end
  | Ev_suspend
  | Ev_resume
  | Ev_add u64 u64
  | Ev_remove "'v ecs_world_t" u64 u64
  | Ev_delete u64
  | Ev_clear u64
  | Ev_modified u64 u64
  | Ev_clone u64 u64 bool
  | Ev_path u64 u64 string
  | Ev_on_delete_action u64 u64
  | Ev_enable u64 u64 bool
  | Ev_flush_command
  | Ev_flush_done

type_synonym 'v stage_run_state = "'v ecs_stage_t \<times> (nat \<times> nat) option"

text \<open>A call on the stage; the second component of the state is the queue and the position of a running flush.\<close>

fun stage_step ::
  "('v ecs_world_t \<Rightarrow> u64 \<Rightarrow> u64 \<Rightarrow> 'v ecs_world_t res) \<Rightarrow> 'v stage_event \<Rightarrow> 'v stage_run_state \<Rightarrow> ('v stage_run_state \<times> bool) res" where
  "stage_step restore Ev_begin (st, rd) = (case flecs_defer_begin st of (st, b) \<Rightarrow> Inr ((st, rd), b))"
| "stage_step restore Ev_end (st, rd) =
     bindr (flecs_defer_end_enter st) (\<lambda>(st, b, k). Inr ((st, case k of None \<Rightarrow> rd | Some k \<Rightarrow> Some (k, 0)), b))"
| "stage_step restore Ev_suspend (st, rd) = bindr (ecs_defer_suspend st) (\<lambda>st. Inr ((st, rd), True))"
| "stage_step restore Ev_resume (st, rd) = bindr (ecs_defer_resume st) (\<lambda>st. Inr ((st, rd), True))"
| "stage_step restore (Ev_add e cid) (st, rd) = bindr (flecs_defer_add st e cid) (\<lambda>(st, b). Inr ((st, rd), b))"
| "stage_step restore (Ev_remove w e cid) (st, rd) =
     bindr (flecs_defer_remove restore w st e cid) (\<lambda>(w, st, b). Inr ((st, rd), b))"
| "stage_step restore (Ev_delete e) (st, rd) = bindr (flecs_defer_delete st e) (\<lambda>(st, b). Inr ((st, rd), b))"
| "stage_step restore (Ev_clear e) (st, rd) = bindr (flecs_defer_clear st e) (\<lambda>(st, b). Inr ((st, rd), b))"
| "stage_step restore (Ev_modified e cid) (st, rd) = bindr (flecs_defer_modified st e cid) (\<lambda>(st, b). Inr ((st, rd), b))"
| "stage_step restore (Ev_clone e src v) (st, rd) = bindr (flecs_defer_clone st e src v) (\<lambda>(st, b). Inr ((st, rd), b))"
| "stage_step restore (Ev_path parent e name) (st, rd) = bindr (flecs_defer_path st parent e name) (\<lambda>(st, b). Inr ((st, rd), b))"
| "stage_step restore (Ev_on_delete_action cid action) (st, rd) =
     bindr (flecs_defer_on_delete_action st cid action) (\<lambda>(st, b). Inr ((st, rd), b))"
| "stage_step restore (Ev_enable e cid v) (st, rd) = bindr (flecs_defer_enable st e cid v) (\<lambda>(st, b). Inr ((st, rd), b))"
| "stage_step restore Ev_flush_command (st, rd) =
     (case rd of None \<Rightarrow> Inl Undefined
      | Some (k, i) \<Rightarrow> bindr (flush_invalidate st k i) (\<lambda>st. Inr ((st, Some (k, Suc i)), True)))"
| "stage_step restore Ev_flush_done (st, rd) =
     (case rd of None \<Rightarrow> Inl Undefined
      | Some (k, i) \<Rightarrow> (case flush_take (flush_done st k) of (st, k') \<Rightarrow> Inr ((st, map_option (\<lambda>k. (k, 0)) k'), True)))"

definition spec_issue :: "ecs_cmd_kind_t \<Rightarrow> u64 \<Rightarrow> u64 \<Rightarrow> stage_spec \<Rightarrow> stage_spec \<times> bool" where
  "spec_issue k cid e a =
     (if ss_defer a > 0 then
        (a\<lparr>ss_issued := (ss_issued a)(ss_cur a := ss_issued a (ss_cur a) @ [(k, cid, e)]),
           ss_known := (ss_known a)(ss_cur a := (if chained k then insert (lo32 e) (ss_known a (ss_cur a)) else ss_known a (ss_cur a)))\<rparr>, True)
      else (if ss_defer a = 0 \<and> k \<noteq> EcsCmdPath then a\<lparr>ss_defer := 1\<rparr> else a, False))"

definition spec_take :: "stage_spec \<Rightarrow> stage_spec" where
  "spec_take a =
     (let k = ss_cur a; a = a\<lparr>ss_cur := (if k = 0 then 1 else 0)\<rparr> in
      if ss_issued a k = [] then a\<lparr>ss_round := None\<rparr> else a\<lparr>ss_flushing := True, ss_round := Some (k, 0)\<rparr>)"

fun stage_spec_step :: "'v stage_event \<Rightarrow> stage_spec \<Rightarrow> stage_spec \<times> bool" where
  "stage_spec_step Ev_begin a = (if ss_defer a < 0 then (a, False) else (a\<lparr>ss_defer := ss_defer a + 1\<rparr>, ss_defer a = 0))"
| "stage_spec_step Ev_end a =
     (if ss_defer a < 0 then (a, False)
      else let a = a\<lparr>ss_defer := ss_defer a - 1\<rparr> in if ss_defer a = 0 \<and> \<not> ss_flushing a then (spec_take a, True) else (a, False))"
| "stage_spec_step Ev_suspend a = (a\<lparr>ss_defer := - ss_defer a\<rparr>, True)"
| "stage_spec_step Ev_resume a = (a\<lparr>ss_defer := - ss_defer a\<rparr>, True)"
| "stage_spec_step (Ev_add e cid) a = spec_issue EcsCmdAdd cid e a"
| "stage_spec_step (Ev_remove w e cid) a = spec_issue EcsCmdRemove cid e a"
| "stage_spec_step (Ev_delete e) a = spec_issue EcsCmdDelete 0 e a"
| "stage_spec_step (Ev_clear e) a = spec_issue EcsCmdClear 0 e a"
| "stage_spec_step (Ev_modified e cid) a = spec_issue EcsCmdModified cid e a"
| "stage_spec_step (Ev_clone e src v) a = spec_issue EcsCmdClone src e a"
| "stage_spec_step (Ev_path parent e name) a = spec_issue EcsCmdPath parent e a"
| "stage_spec_step (Ev_on_delete_action cid action) a = spec_issue EcsCmdOnDeleteAction cid action a"
| "stage_spec_step (Ev_enable e cid v) a = spec_issue (if v then EcsCmdEnable else EcsCmdDisable) cid e a"
| "stage_spec_step Ev_flush_command a = (a\<lparr>ss_round := map_option (\<lambda>(k, i). (k, Suc i)) (ss_round a)\<rparr>, True)"
| "stage_spec_step Ev_flush_done a =
     (spec_take (a\<lparr>ss_flushing := False, ss_issued := (ss_issued a)(fst (the (ss_round a)) := [])\<rparr>), True)"

text \<open>Room in the queue that is filled and among its entries.\<close>

definition queue_room :: "ecs_cmd_kind_t \<Rightarrow> stage_spec \<Rightarrow> bool" where
  "queue_room k a \<longleftrightarrow> length (ss_issued a (ss_cur a)) < 2 ^ 30 \<and> (chained k \<longrightarrow> Suc (card (ss_known a (ss_cur a))) < 2 ^ 30)"

text \<open>An entity from which a component can be removed: it is alive and in a table.\<close>

definition removable ::
  "('v ecs_world_t \<Rightarrow> u64 \<Rightarrow> u64 \<Rightarrow> 'v ecs_world_t res) \<Rightarrow> 'v ecs_world_t \<Rightarrow> u64 \<Rightarrow> u64 \<Rightarrow> bool" where
  "removable restore w e cid \<longleftrightarrow> (\<exists>r rec p t. flecs_entity_index_get (w_index w) e = Inr r \<and> record_read (w_index w) r = Inr rec \<and>
     rec_table rec = Some p \<and> get_table w p = Inr t \<and> (has_flag (tbl_flags t) EcsTableHasIsA \<longrightarrow> returns (restore w e cid)))"

fun stage_enabled :: "('v ecs_world_t \<Rightarrow> u64 \<Rightarrow> u64 \<Rightarrow> 'v ecs_world_t res) \<Rightarrow> 'v stage_event \<Rightarrow> stage_spec \<Rightarrow> bool" where
  "stage_enabled restore Ev_begin a \<longleftrightarrow> ss_defer a < 2 ^ 31 - 1"
| "stage_enabled restore Ev_end a \<longleftrightarrow> ss_defer a \<noteq> 0"
| "stage_enabled restore Ev_suspend a \<longleftrightarrow> ss_defer a > 0"
| "stage_enabled restore Ev_resume a \<longleftrightarrow> ss_defer a < 0"
| "stage_enabled restore (Ev_add e cid) a \<longleftrightarrow> cid \<noteq> 0 \<and> queue_room EcsCmdAdd a"
| "stage_enabled restore (Ev_remove w e cid) a \<longleftrightarrow> cid \<noteq> 0 \<and> queue_room EcsCmdRemove a \<and> removable restore w e cid"
| "stage_enabled restore (Ev_delete e) a \<longleftrightarrow> queue_room EcsCmdDelete a"
| "stage_enabled restore (Ev_clear e) a \<longleftrightarrow> queue_room EcsCmdClear a"
| "stage_enabled restore (Ev_modified e cid) a \<longleftrightarrow> queue_room EcsCmdModified a"
| "stage_enabled restore (Ev_clone e src v) a \<longleftrightarrow> queue_room EcsCmdClone a"
| "stage_enabled restore (Ev_path parent e name) a \<longleftrightarrow> queue_room EcsCmdPath a"
| "stage_enabled restore (Ev_on_delete_action cid action) a \<longleftrightarrow> queue_room EcsCmdOnDeleteAction a"
| "stage_enabled restore (Ev_enable e cid v) a \<longleftrightarrow> queue_room (if v then EcsCmdEnable else EcsCmdDisable) a"
| "stage_enabled restore Ev_flush_command a \<longleftrightarrow> (\<exists>k i. ss_round a = Some (k, i) \<and> i < length (ss_issued a k))"
| "stage_enabled restore Ev_flush_done a \<longleftrightarrow> (\<exists>k i. ss_round a = Some (k, i) \<and> i = length (ss_issued a k))"


section \<open>Refinement\<close>

definition stage_abs :: "'v stage_run_state \<Rightarrow> stage_spec" where
  "stage_abs = (\<lambda>(st, rd). \<lparr>ss_defer = st_defer st, ss_cur = st_cmd st, ss_flushing = st_cmd_flushing st,
     ss_issued = (\<lambda>k. map issued_of (cmds (st_cmd_stack st k))), ss_known = (\<lambda>k. {s. has_entry (st_cmd_stack st k) s}),
     ss_round = rd\<rparr>)"

definition stage_inv :: "'v stage_run_state \<Rightarrow> bool" where
  "stage_inv = (\<lambda>(st, rd). st_cmd st \<in> {0, 1} \<and> (st_cmd_flushing st \<longleftrightarrow> rd \<noteq> None) \<and>
     (\<forall>k. case rd of None \<Rightarrow> queue_ok (st_cmd_stack st k)
        | Some (k', i) \<Rightarrow> k' \<noteq> st_cmd st \<and> (if k = k' then queue_flush (st_cmd_stack st k) i else queue_ok (st_cmd_stack st k))))"

lemma stage_inv_cur: "stage_inv (st, rd) \<Longrightarrow> queue_ok (stage_cmd st)"
  by (auto simp: stage_inv_def split: option.splits)

lemma stage_inv_put:
  assumes "stage_inv (st, rd)" and "queue_ok c"
  shows "stage_inv (put_commands st (st_cmd st) c, rd)"
  using assms by (auto simp: stage_inv_def put_commands_def split: option.splits prod.splits)

lemma stage_inv_defer: "stage_inv (st\<lparr>st_defer := d\<rparr>, rd) = stage_inv (st, rd)"
  by (cases rd) (auto simp: stage_inv_def)

lemma stage_abs_sel [simp]:
  "ss_defer (stage_abs (st, rd)) = st_defer st" "ss_cur (stage_abs (st, rd)) = st_cmd st"
  "ss_flushing (stage_abs (st, rd)) = st_cmd_flushing st" "ss_round (stage_abs (st, rd)) = rd"
  "ss_issued (stage_abs (st, rd)) k = map issued_of (cmds (st_cmd_stack st k))"
  "ss_known (stage_abs (st, rd)) k = {s. has_entry (st_cmd_stack st k) s}"
  by (simp_all add: stage_abs_def)

lemma queue_ok_length: "queue_ok c \<Longrightarrow> length (cmds c) = vec_count (cq_queue c)"
  by (simp add: queue_ok_def queue_links_def)

lemma defer_issue_ok:
  assumes inv: "stage_inv (st, rd)" and d: "0 < st_defer st" and room: "queue_room k (stage_abs (st, rd))"
    and f: "issue_cmd e f k" and cid: "\<And>cmd. cmd_id cmd = 0 \<Longrightarrow> cmd_id (f cmd) = cid"
  shows "\<exists>st'. defer_with (chained k) st e f = Inr st' \<and> stage_inv (st', rd) \<and>
    spec_issue k cid e (stage_abs (st, rd)) = (stage_abs (st', rd), True)"
proof -
  let ?c = "stage_cmd st" and ?sys = "st_system st"
  have ok: "queue_ok ?c" by (rule stage_inv_cur [OF inv])
  have count: "vec_count (cq_queue ?c) < 2 ^ 30" using room queue_ok_length [OF ok] by (simp add: queue_room_def)
  have "\<exists>c. defer_with (chained k) st e f = Inr (put_commands st (st_cmd st) c) \<and> queue_ok c \<and>
    map issued_of (cmds c) = map issued_of (cmds ?c) @ [(k, cid, e)] \<and>
    {s. has_entry c s} = (if chained k then insert (lo32 e) {s. has_entry ?c s} else {s. has_entry ?c s})"
  proof (cases "chained k")
    case True
    have "entries_ok (cq_entries ?c)" using ok by (simp add: queue_ok_def queue_links_def)
    then have sp: "sp_count (cq_entries ?c) < 2 ^ 30" using room True by (simp add: queue_room_def entries_ok_def)
    obtain c1 where c1: "flecs_cmd_new_batched ?sys ?c e = Inr (c1, vec_count (cq_queue ?c))"
      "batched_result ?sys ?c e (starts_chain (tags (cmds ?c)) e) (relink (cmds ?c) e) c1"
      using new_batched_ok [OF ok count sp] by blast
    let ?x = "f ((blank_cmd ?sys)\<lparr>cmd_entry := if starts_chain (tags (cmds ?c)) e then Some (lo32 e) else None, cmd_entity := Some e\<rparr>)"
    obtain c2 where c2: "cmd_modify c1 (vec_count (cq_queue ?c)) (f \<circ> cmd_entity_update (\<lambda>_. Some e)) = Inr c2" "queue_ok c2"
      "cmds c2 = relink (cmds ?c) e @ [?x]" "\<forall>i. has_entry c2 i \<longleftrightarrow> has_entry ?c i \<or> i = lo32 e"
      using queue_ok_chained [OF ok c1(2) f True] by blast
    have x: "issued_of ?x = (k, cid, e)" using f cid by (simp add: issued_of_def issue_cmd_def blank_cmd_def)
    have r: "map issued_of (relink (cmds ?c) e) = map issued_of (cmds ?c)"
      by (intro nth_equalityI) (auto simp: relink_nth tags_relink issued_of_def)
    have "{s. has_entry c2 s} = insert (lo32 e) {s. has_entry ?c s}" using c2(4) by auto
    then show ?thesis using True c1(1) c2(1-3) x r by (intro exI [of _ c2]) (simp add: defer_with_def)
  next
    case False
    obtain c1 c2 where c2: "flecs_cmd_new ?sys ?c = Inr (c1, vec_count (cq_queue ?c))"
      "cmd_modify c1 (vec_count (cq_queue ?c)) (f \<circ> cmd_entity_update (\<lambda>_. Some e)) = Inr c2" "queue_ok c2"
      "cmds c2 = cmds ?c @ [f ((blank_cmd ?sys)\<lparr>cmd_entity := Some e\<rparr>)]" "cq_entries c2 = cq_entries ?c"
      using queue_ok_unchained [OF ok count f False, of ?sys] by blast
    have "issued_of (f ((blank_cmd ?sys)\<lparr>cmd_entity := Some e\<rparr>)) = (k, cid, e)"
      using f cid by (simp add: issued_of_def issue_cmd_def blank_cmd_def)
    then show ?thesis using False c2 by (intro exI [of _ c2]) (simp add: defer_with_def)
  qed
  then obtain c where c: "defer_with (chained k) st e f = Inr (put_commands st (st_cmd st) c)" "queue_ok c"
    "map issued_of (cmds c) = map issued_of (cmds ?c) @ [(k, cid, e)]"
    "{s. has_entry c s} = (if chained k then insert (lo32 e) {s. has_entry ?c s} else {s. has_entry ?c s})" by blast
  let ?st = "put_commands st (st_cmd st) c"
  have "spec_issue k cid e (stage_abs (st, rd)) = (stage_abs (?st, rd), True)"
    using d c(3,4) by (simp add: spec_issue_def stage_abs_def put_commands_def fun_eq_iff)
  then show ?thesis using c(1) stage_inv_put [OF inv c(2)] by blast
qed

text \<open>An operation that is deferred, or that is to be executed right away.\<close>

lemma deferred_ok:
  assumes inv: "stage_inv (st, rd)" and room: "queue_room k (stage_abs (st, rd))" and k: "k \<noteq> EcsCmdPath"
    and f: "issue_cmd e f k" and cid: "\<And>cmd. cmd_id cmd = 0 \<Longrightarrow> cmd_id (f cmd) = cid"
  obtains (deferred) st' where "flecs_defer_cmd st = (st, True)" "defer_with (chained k) st e f = Inr st'" "stage_inv (st', rd)"
    "spec_issue k cid e (stage_abs (st, rd)) = (stage_abs (st', rd), True)"
  | (immediate) st' where "flecs_defer_cmd st = (st', False)" "stage_inv (st', rd)"
    "spec_issue k cid e (stage_abs (st, rd)) = (stage_abs (st', rd), False)"
proof (cases "0 < st_defer st")
  case True
  from defer_issue_ok [OF inv True room f cid] True show thesis by (auto simp: flecs_defer_cmd_def intro: deferred)
next
  case False
  let ?st = "if st_defer st = 0 then st\<lparr>st_defer := 1\<rparr> else st"
  have "flecs_defer_cmd st = (?st, False)" using False by (simp add: flecs_defer_cmd_def)
  moreover have "stage_inv (?st, rd)" using inv by (simp add: stage_inv_defer)
  moreover have "spec_issue k cid e (stage_abs (st, rd)) = (stage_abs (?st, rd), False)"
    using False k by (simp add: spec_issue_def stage_abs_def)
  ultimately show thesis by (rule immediate)
qed

lemma flush_take_ok:
  assumes cur: "st_cmd st \<in> {0, 1}" and q: "\<And>k. queue_ok (st_cmd_stack st k)" and fl: "\<not> st_cmd_flushing st"
  shows "\<exists>st' k. flush_take st = (st', k) \<and> stage_inv (st', map_option (\<lambda>k. (k, 0)) k) \<and>
    spec_take (stage_abs (st, rd)) = stage_abs (st', map_option (\<lambda>k. (k, 0)) k)"
proof -
  let ?k = "st_cmd st"
  have len: "vec_count (cq_queue (st_cmd_stack st ?k)) = length (cmds (st_cmd_stack st ?k))" using queue_ok_length [OF q] by simp
  show ?thesis
  proof (cases "cmds (st_cmd_stack st ?k) = []")
    case True
    then show ?thesis using cur q fl len
      by (simp add: flush_take_def Let_def ecs_vec_count_def spec_take_def stage_inv_def stage_abs_def)
  next
    case False
    then show ?thesis using cur q queue_flush_start [OF q] len
      by (auto simp: flush_take_def Let_def ecs_vec_count_def spec_take_def stage_inv_def stage_abs_def)
  qed
qed


lemma flush_done_ok:
  assumes inv: "stage_inv (st, Some (k, i))" and i: "i = length (cmds (st_cmd_stack st k))"
  shows "\<exists>st' k'. flush_take (flush_done st k) = (st', k') \<and> stage_inv (st', map_option (\<lambda>k. (k, 0)) k') \<and>
    spec_take ((stage_abs (st, Some (k, i)))\<lparr>ss_flushing := False, ss_issued := (ss_issued (stage_abs (st, Some (k, i))))(k := [])\<rparr>) =
      stage_abs (st', map_option (\<lambda>k. (k, 0)) k')"
proof -
  let ?st = "flush_done st k"
  have I: "st_cmd st \<in> {0, 1}" "queue_flush (st_cmd_stack st k) (length (cmds (st_cmd_stack st k)))"
    "\<And>k'. k' \<noteq> k \<Longrightarrow> queue_ok (st_cmd_stack st k')" using inv i unfolding stage_inv_def by auto
  have F: "st_cmd ?st = st_cmd st" "\<not> st_cmd_flushing ?st" "st_defer ?st = st_defer st" "st_cmd_stack ?st =
    (st_cmd_stack st)(k := (st_cmd_stack st k)\<lparr>cq_queue := ecs_vec_clear (cq_queue (st_cmd_stack st k))\<rparr>)"
    by (simp_all add: flush_done_def Let_def put_commands_def)
  have q: "queue_ok (st_cmd_stack ?st k')" for k' using F(4) I(3) queue_flush_done [OF I(2)] by simp
  have "stage_abs (?st, Some (k, i)) =
    (stage_abs (st, Some (k, i)))\<lparr>ss_flushing := False, ss_issued := (ss_issued (stage_abs (st, Some (k, i))))(k := [])\<rparr>"
    by (simp add: stage_abs_def F(1-3)) (simp add: F(4) fun_eq_iff)
  then show ?thesis using flush_take_ok [of ?st "Some (k, i)"] I(1) F(1,2) q by auto
qed

lemma ex_bool [simp]: "\<exists>b. b" "\<exists>b. \<not> b"
  by auto

lemma stage_step_ok:
  assumes inv: "stage_inv s" and en: "stage_enabled restore ev (stage_abs s)"
  shows "\<exists>s' b. stage_step restore ev s = Inr (s', b) \<and> stage_inv s' \<and> stage_spec_step ev (stage_abs s) = (stage_abs s', b)"
proof -
  obtain st rd where s: "s = (st, rd)" by (cases s)
  note inv = inv [unfolded s] and en = en [unfolded s]
  note kinds = issue_cmd_def chained_def carries_def
  show ?thesis unfolding s
  proof (cases ev)
    case Ev_begin
    then show "\<exists>s' b. stage_step restore ev (st, rd) = Inr (s', b) \<and> stage_inv s' \<and> stage_spec_step ev (stage_abs (st, rd)) = (stage_abs s', b)"
      using inv by (cases "st_defer st < 0") (auto simp: flecs_defer_begin_def Let_def stage_inv_defer stage_abs_def)
  next
    case Ev_end
    show "\<exists>s' b. stage_step restore ev (st, rd) = Inr (s', b) \<and> stage_inv s' \<and> stage_spec_step ev (stage_abs (st, rd)) = (stage_abs s', b)"
    proof (cases "st_defer st = 1 \<and> \<not> st_cmd_flushing st")
      case True
      let ?st = "st\<lparr>st_defer := 0\<rparr>"
      have rd0: "rd = None" using inv True by (cases rd) (auto simp: stage_inv_def)
      have rd: "rd = None" "st_cmd ?st \<in> {0, 1}" "\<And>k. queue_ok (st_cmd_stack ?st k)" using inv rd0 by (auto simp: stage_inv_def)
      have a: "(stage_abs (st, rd))\<lparr>ss_defer := 0\<rparr> = stage_abs (?st, rd)" by (simp add: stage_abs_def)
      from flush_take_ok [OF rd(2,3), of None] True obtain st' k where
        t: "flush_take ?st = (st', k)" "stage_inv (st', map_option (\<lambda>k. (k, 0)) k)"
        "spec_take (stage_abs (?st, None)) = stage_abs (st', map_option (\<lambda>k. (k, 0)) k)" by auto
      have k: "(case k of None \<Rightarrow> None | Some k \<Rightarrow> Some (k, 0)) = map_option (\<lambda>k. (k, 0 :: nat)) k" by (cases k) simp_all
      show ?thesis using True Ev_end t a k rd(1) by (auto simp: flecs_defer_end_enter_def Let_def)
    next
      case False
      have d: "st_defer st \<noteq> 0" using en Ev_end by simp
      show ?thesis using False d Ev_end inv
        by (simp add: flecs_defer_end_enter_def Let_def stage_inv_defer) (auto simp: stage_abs_def)
    qed
  next
    case Ev_suspend
    then show "\<exists>s' b. stage_step restore ev (st, rd) = Inr (s', b) \<and> stage_inv s' \<and> stage_spec_step ev (stage_abs (st, rd)) = (stage_abs s', b)"
      using inv en by (auto simp: ecs_defer_suspend_def stage_inv_defer stage_abs_def)
  next
    case Ev_resume
    then show "\<exists>s' b. stage_step restore ev (st, rd) = Inr (s', b) \<and> stage_inv s' \<and> stage_spec_step ev (stage_abs (st, rd)) = (stage_abs s', b)"
      using inv en by (auto simp: ecs_defer_resume_def stage_inv_defer stage_abs_def)
  next
    case (Ev_add e cid)
    then have room: "queue_room EcsCmdAdd (stage_abs (st, rd))" and c: "cid \<noteq> 0" using en by simp_all
    show "\<exists>s' b. stage_step restore ev (st, rd) = Inr (s', b) \<and> stage_inv s' \<and> stage_spec_step ev (stage_abs (st, rd)) = (stage_abs s', b)"
      by (rule deferred_ok [OF inv room, of e "\<lambda>cmd. cmd\<lparr>cmd_kind := Some EcsCmdAdd, cmd_id := cid\<rparr>" cid])
        (use Ev_add c in \<open>simp_all add: flecs_defer_add_def kinds\<close>)
  next
    case (Ev_remove w e cid)
    then have room: "queue_room EcsCmdRemove (stage_abs (st, rd))" and c: "cid \<noteq> 0" "removable restore w e cid" using en by simp_all
    show "\<exists>s' b. stage_step restore ev (st, rd) = Inr (s', b) \<and> stage_inv s' \<and> stage_spec_step ev (stage_abs (st, rd)) = (stage_abs s', b)"
      by (rule deferred_ok [OF inv room, of e "\<lambda>cmd. cmd\<lparr>cmd_kind := Some EcsCmdRemove, cmd_id := cid\<rparr>" cid])
        (use Ev_remove c in \<open>auto simp add: flecs_defer_remove_def kinds removable_def returns_iff\<close>)
  next
    case (Ev_delete e)
    then have room: "queue_room EcsCmdDelete (stage_abs (st, rd))" using en by simp
    show "\<exists>s' b. stage_step restore ev (st, rd) = Inr (s', b) \<and> stage_inv s' \<and> stage_spec_step ev (stage_abs (st, rd)) = (stage_abs s', b)"
      by (rule deferred_ok [OF inv room, of e "\<lambda>cmd. cmd\<lparr>cmd_kind := Some EcsCmdDelete\<rparr>" 0])
        (use Ev_delete in \<open>simp_all add: flecs_defer_delete_def kinds\<close>)
  next
    case (Ev_clear e)
    then have room: "queue_room EcsCmdClear (stage_abs (st, rd))" using en by simp
    show "\<exists>s' b. stage_step restore ev (st, rd) = Inr (s', b) \<and> stage_inv s' \<and> stage_spec_step ev (stage_abs (st, rd)) = (stage_abs s', b)"
      by (rule deferred_ok [OF inv room, of e "\<lambda>cmd. cmd\<lparr>cmd_kind := Some EcsCmdClear\<rparr>" 0])
        (use Ev_clear in \<open>simp_all add: flecs_defer_clear_def kinds\<close>)
  next
    case (Ev_modified e cid)
    then have room: "queue_room EcsCmdModified (stage_abs (st, rd))" using en by simp
    show "\<exists>s' b. stage_step restore ev (st, rd) = Inr (s', b) \<and> stage_inv s' \<and> stage_spec_step ev (stage_abs (st, rd)) = (stage_abs s', b)"
      by (rule deferred_ok [OF inv room, of e "\<lambda>cmd. cmd\<lparr>cmd_kind := Some EcsCmdModified, cmd_id := cid\<rparr>" cid])
        (use Ev_modified in \<open>simp_all add: flecs_defer_modified_def kinds\<close>)
  next
    case (Ev_clone e src v)
    then have room: "queue_room EcsCmdClone (stage_abs (st, rd))" using en by simp
    show "\<exists>s' b. stage_step restore ev (st, rd) = Inr (s', b) \<and> stage_inv s' \<and> stage_spec_step ev (stage_abs (st, rd)) = (stage_abs s', b)"
      by (rule deferred_ok [OF inv room, of e "\<lambda>cmd. cmd\<lparr>cmd_kind := Some EcsCmdClone, cmd_id := src,
            cmd_is_1 := (cmd_is_1 cmd)\<lparr>c1_clone_value := Some v\<rparr>\<rparr>" src])
        (use Ev_clone in \<open>simp_all add: flecs_defer_clone_def kinds\<close>)
  next
    case (Ev_path parent e name)
    then have room: "queue_room EcsCmdPath (stage_abs (st, rd))" using en by simp
    show "\<exists>s' b. stage_step restore ev (st, rd) = Inr (s', b) \<and> stage_inv s' \<and> stage_spec_step ev (stage_abs (st, rd)) = (stage_abs s', b)"
    proof (cases "0 < st_defer st")
      case True
      have "\<exists>st'. defer_with (chained EcsCmdPath) st e (\<lambda>cmd. cmd\<lparr>cmd_kind := Some EcsCmdPath, cmd_id := parent,
          cmd_is_1 := (cmd_is_1 cmd)\<lparr>c1_value := Some (Cmd_name name)\<rparr>\<rparr>) = Inr st' \<and> stage_inv (st', rd) \<and>
          spec_issue EcsCmdPath parent e (stage_abs (st, rd)) = (stage_abs (st', rd), True)"
        by (rule defer_issue_ok [OF inv True room]) (simp_all add: kinds)
      then show ?thesis using True Ev_path by (auto simp: flecs_defer_path_def chained_def)
    next
      case False
      then show ?thesis using Ev_path inv by (simp add: flecs_defer_path_def spec_issue_def)
    qed
  next
    case (Ev_on_delete_action cid action)
    then have room: "queue_room EcsCmdOnDeleteAction (stage_abs (st, rd))" using en by simp
    show "\<exists>s' b. stage_step restore ev (st, rd) = Inr (s', b) \<and> stage_inv s' \<and> stage_spec_step ev (stage_abs (st, rd)) = (stage_abs s', b)"
      by (rule deferred_ok [OF inv room, of action "\<lambda>cmd. cmd\<lparr>cmd_kind := Some EcsCmdOnDeleteAction, cmd_id := cid\<rparr>" cid])
        (use Ev_on_delete_action in \<open>simp_all add: flecs_defer_on_delete_action_def kinds\<close>)
  next
    case (Ev_enable e cid v)
    let ?k = "if v then EcsCmdEnable else EcsCmdDisable"
    have room: "queue_room ?k (stage_abs (st, rd))" using en Ev_enable by simp
    show "\<exists>s' b. stage_step restore ev (st, rd) = Inr (s', b) \<and> stage_inv s' \<and> stage_spec_step ev (stage_abs (st, rd)) = (stage_abs s', b)"
      by (rule deferred_ok [OF inv room, of e "\<lambda>cmd. cmd\<lparr>cmd_kind := Some ?k, cmd_id := cid\<rparr>" cid])
        (use Ev_enable in \<open>cases v; simp add: flecs_defer_enable_def kinds\<close>)+
  next
    case Ev_flush_command
    then obtain k i where rd: "rd = Some (k, i)" "i < length (cmds (st_cmd_stack st k))" using en by auto
    have "queue_flush (st_cmd_stack st k) i" using inv rd(1) by (auto simp: stage_inv_def)
    from queue_flush_step [OF this rd(2)] obtain c where
      c: "flush_invalidate st k i = Inr (st\<lparr>st_cmd_stack := (st_cmd_stack st)(k := c)\<rparr>)" "queue_flush c (Suc i)"
      "cq_queue c = cq_queue (st_cmd_stack st k)" "\<forall>s. has_entry c s = has_entry (st_cmd_stack st k) s" by blast
    let ?st = "st\<lparr>st_cmd_stack := (st_cmd_stack st)(k := c)\<rparr>"
    have "stage_inv (?st, Some (k, Suc i))" using inv rd(1) c(2) by (auto simp: stage_inv_def)
    moreover have "stage_abs (?st, Some (k, Suc i)) = (stage_abs (st, rd))\<lparr>ss_round := Some (k, Suc i)\<rparr>"
      using c(3,4) by (simp add: stage_abs_def fun_eq_iff)
    ultimately show "\<exists>s' b. stage_step restore ev (st, rd) = Inr (s', b) \<and> stage_inv s' \<and> stage_spec_step ev (stage_abs (st, rd)) = (stage_abs s', b)"
      using rd(1) c(1) Ev_flush_command by simp
  next
    case Ev_flush_done
    then obtain k i where rd: "rd = Some (k, i)" "i = length (cmds (st_cmd_stack st k))" using en by auto
    from flush_done_ok [OF inv [unfolded rd(1)] rd(2)]
    show "\<exists>s' b. stage_step restore ev (st, rd) = Inr (s', b) \<and> stage_inv s' \<and> stage_spec_step ev (stage_abs (st, rd)) = (stage_abs s', b)"
      using rd(1) Ev_flush_done by auto
  qed
qed

interpretation stage_sim: simulation stage_inv stage_abs "stage_step restore" stage_spec_step "stage_enabled restore"
  by unfold_locales (rule stage_step_ok)


section \<open>Properties\<close>

lemma map_tag:
  assumes "queue_links c"
  shows "map issued_tag (map issued_of (cmds c)) = tags (cmds c)"
  using assms unfolding queue_links_def
  by (intro nth_equalityI) (auto simp: cmd_ok_def issued_tag_def issued_of_def cmd_tag_def)

lemma chain_from_bound: "j \<in> set (chain_from ts i) \<Longrightarrow> j < length ts"
  unfolding chain_from_def by (auto dest: set_takeWhileD)

lemma queue_chains:
  assumes q: "queue_links c" and i: "i < length (cmds c)" and tag: "issued_tag (issued_of (cmds c ! i)) \<noteq> None"
  shows "batch_walk (length (cmds c)) (cmds c) i = Some (issued_chain (map issued_of (cmds c)) i)"
    and "cmd_next_for_entity (cmds c ! i) < 0 \<longleftrightarrow>
      chain_start (tags (cmds c)) i \<and> 1 < length (chain_from (tags (cmds c)) i)"
proof -
  let ?cs = "cmds c"
  have ok: "\<forall>i < length ?cs. cmd_ok (tags ?cs) i (?cs ! i)" using q by (simp add: queue_links_def)
  have t: "map issued_tag (map issued_of ?cs) = tags ?cs" by (rule map_tag [OF q])
  have ti: "cmd_tag (?cs ! i) = issued_tag (issued_of (?cs ! i))" using arg_cong [OF t, of "\<lambda>ts. ts ! i"] i by simp
  have links: "\<forall>i < length ?cs. link_value (tags ?cs) i (cmd_next_for_entity (?cs ! i))" using ok by (simp add: cmd_ok_def)
  have "batch_walk (length ?cs) ?cs i = Some (until_delete (\<lambda>i. cmd_kind (?cs ! i) = Some EcsCmdDelete) (chain_from (tags ?cs) i))"
    using batch_walk_chain [OF links i] ti tag by simp
  moreover have "until_delete (\<lambda>i. cmd_kind (?cs ! i) = Some EcsCmdDelete) (chain_from (tags ?cs) i) =
    until_delete (\<lambda>j. fst (map issued_of ?cs ! j) = EcsCmdDelete) (chain_from (tags ?cs) i)"
  proof (rule until_delete_cong)
    fix j
    assume "j \<in> set (chain_from (tags ?cs) i)"
    then have "j < length ?cs" using chain_from_bound by fastforce
    then show "(cmd_kind (?cs ! j) = Some EcsCmdDelete) = (fst (map issued_of ?cs ! j) = EcsCmdDelete)"
      using ok by (auto simp: cmd_ok_def issued_of_def)
  qed
  ultimately show "batch_walk (length ?cs) ?cs i = Some (issued_chain (map issued_of ?cs) i)" unfolding issued_chain_def t by simp
  show "cmd_next_for_entity (?cs ! i) < 0 \<longleftrightarrow> chain_start (tags ?cs) i \<and> 1 < length (chain_from (tags ?cs) i)"
    by (rule link_negative) (use links i ti tag in auto)
qed

lemma stage_inv_links: "stage_inv (st, rd) \<Longrightarrow> queue_links (st_cmd_stack st k)"
proof (cases rd)
  case None
  then show "stage_inv (st, rd) \<Longrightarrow> queue_links (st_cmd_stack st k)" by (simp add: stage_inv_def queue_ok_def)
next
  case (Some r)
  obtain k' i where r: "r = (k', i)" by (cases r)
  show "stage_inv (st, rd) \<Longrightarrow> queue_links (st_cmd_stack st k)"
    unfolding Some r stage_inv_def prod.case option.case queue_ok_def queue_flush_def by metis
qed

definition new_stage_spec :: stage_spec where
  "new_stage_spec = \<lparr>ss_defer = 0, ss_cur = 0, ss_flushing = False, ss_issued = (\<lambda>_. []), ss_known = (\<lambda>_. {}), ss_round = None\<rparr>"

lemma stage_new_ok: "\<exists>st :: 'v ecs_stage_t. flecs_stage_new = Inr st \<and> stage_inv (st, None) \<and> stage_abs (st, None) = new_stage_spec"
proof -
  obtain s where s: "flecs_sparse_init cmd_entry_size = Inr s" "entries_ok s" "\<forall>i. spos s i = 0" using entries_init_ok by blast
  define c :: "'v ecs_commands_t" where "c = \<lparr>cq_queue = ecs_vec_init 0, cq_entries = s\<rparr>"
  define st where "st = \<lparr>st_defer = 0, st_cmd = 0, st_cmd_stack = (\<lambda>i. c), st_cmd_flushing = False, st_system = 0\<rparr>"
  have init: "flecs_commands_init = Inr c" using s(1) by (simp add: flecs_commands_init_def c_def)
  have new: "flecs_stage_new = Inr st" unfolding flecs_stage_new_def init bindr_Inr st_def by (simp add: if_cancel)
  have q: "queue_ok c" using s(2,3) by (simp add: queue_ok_def queue_links_def is_last_def c_def)
  have "stage_inv (st, None)" using q by (simp add: stage_inv_def st_def)
  moreover have "stage_abs (st, None) = new_stage_spec" using s(3) by (simp add: stage_abs_def new_stage_spec_def st_def c_def)
  ultimately show ?thesis using new by blast
qed

text \<open>
  C8: from a new stage, every sequence of deferred operations, nested and suspended deferring, and rounds of flushes,
  during which operations may be deferred again, returns at every call; each queue holds the commands that were issued
  since it was last flushed, in the order they were issued, and no operation is both deferred and executed.
  In the queues at every moment the walk of a batch from any command of an entity visits exactly the later commands of
  that entity in their order, up to a deletion or to the reuse of the index with another generation, and a
  command is marked as the first of a batch when and only when it begins such a chain of at least two commands.
\<close>

theorem command_queue_refines:
  fixes restore :: "'v ecs_world_t \<Rightarrow> u64 \<Rightarrow> u64 \<Rightarrow> 'v ecs_world_t res"
  assumes "run_enabled stage_spec_step (stage_enabled restore) evs new_stage_spec"
  shows "\<exists>st rd rs a. bindr flecs_stage_new (\<lambda>st. run_ops (stage_step restore) evs (st, None)) = Inr ((st, rd), rs) \<and>
    run_spec stage_spec_step evs new_stage_spec = (a, rs) \<and>
    (\<forall>k. map issued_of (vec_elems (cq_queue (st_cmd_stack st k))) = ss_issued a k) \<and>
    (\<forall>k i. i < length (ss_issued a k) \<and> issued_tag (ss_issued a k ! i) \<noteq> None \<longrightarrow>
       batch_walk (length (ss_issued a k)) (vec_elems (cq_queue (st_cmd_stack st k))) i = Some (issued_chain (ss_issued a k) i) \<and>
       (cmd_next_for_entity (vec_elems (cq_queue (st_cmd_stack st k)) ! i) < 0 \<longleftrightarrow>
          chain_start (map issued_tag (ss_issued a k)) i \<and> 1 < length (chain_from (map issued_tag (ss_issued a k)) i)))"
proof -
  obtain st0 :: "'v ecs_stage_t" where st0: "flecs_stage_new = Inr st0" "stage_inv (st0, None)" "stage_abs (st0, None) = new_stage_spec"
    using stage_new_ok by blast
  obtain s rs where r: "run_ops (stage_step restore) evs (st0, None) = Inr (s, rs)" "stage_inv s"
    "run_spec stage_spec_step evs new_stage_spec = (stage_abs s, rs)"
    using stage_sim.run_refines [OF st0(2), of restore evs] assms st0(3) by auto
  obtain st rd where s: "s = (st, rd)" by (cases s)
  note links = stage_inv_links [OF r(2) [unfolded s]]
  have sel: "ss_issued (stage_abs s) k = map issued_of (cmds (st_cmd_stack st k))" for k by (simp add: s)
  have tags: "map issued_tag (map issued_of (cmds (st_cmd_stack st k))) = tags (cmds (st_cmd_stack st k))" for k by (rule map_tag [OF links])
  have "batch_walk (length (ss_issued (stage_abs s) k)) (cmds (st_cmd_stack st k)) i = Some (issued_chain (ss_issued (stage_abs s) k) i) \<and>
      (cmd_next_for_entity (cmds (st_cmd_stack st k) ! i) < 0 \<longleftrightarrow>
        chain_start (map issued_tag (ss_issued (stage_abs s) k)) i \<and> 1 < length (chain_from (map issued_tag (ss_issued (stage_abs s) k)) i))"
    if i: "i < length (ss_issued (stage_abs s) k) \<and> issued_tag (ss_issued (stage_abs s) k ! i) \<noteq> None" for k i
  proof -
    have "i < length (cmds (st_cmd_stack st k))" "issued_tag (issued_of (cmds (st_cmd_stack st k) ! i)) \<noteq> None" using i unfolding sel by auto
    from queue_chains [OF links this] show ?thesis unfolding sel tags length_map by blast
  qed
  moreover have "bindr flecs_stage_new (\<lambda>st. run_ops (stage_step restore) evs (st, None)) = Inr ((st, rd), rs)"
    unfolding st0(1) bindr_Inr using r(1) s by simp
  moreover have "\<forall>k. map issued_of (cmds (st_cmd_stack st k)) = ss_issued (stage_abs s) k" by (simp add: sel)
  ultimately show ?thesis using r(3) by blast
qed


text \<open>Two entities, one of them deleted; the commands of the first one are a batch.\<close>

definition demo_calls :: "nat stage_event list" where
  "demo_calls = [Ev_begin, Ev_add 7 300, Ev_add 8 300, Ev_modified 7 300, Ev_add 7 301, Ev_delete 8, Ev_end, Ev_flush_command]"

theorem command_queue_refines_witness:
  "\<exists>st rd rs. bindr flecs_stage_new (\<lambda>st. run_ops (stage_step (\<lambda>w _ _. Inr w)) demo_calls (st, None)) = Inr ((st, rd), rs) \<and>
    batch_walk 5 (vec_elems (cq_queue (st_cmd_stack st 0))) 0 = Some [0, 3]"
proof -
  let ?issued = "[(EcsCmdAdd, 300, 7), (EcsCmdAdd, 300, 8), (EcsCmdModified, 300, 7), (EcsCmdAdd, 301, 7), (EcsCmdDelete, 0, 8)]"
  have s: "ss_issued (fst (run_spec stage_spec_step demo_calls new_stage_spec)) 0 = ?issued"
    by (simp add: demo_calls_def new_stage_spec_def spec_issue_def spec_take_def Let_def)
  have en: "run_enabled stage_spec_step (stage_enabled (\<lambda>w _ _. Inr w)) demo_calls new_stage_spec"
    by (simp add: demo_calls_def new_stage_spec_def spec_issue_def spec_take_def queue_room_def chained_def card_insert_if Let_def)
  have ch: "issued_chain ?issued 0 = [0, 3]"
    by (simp add: issued_chain_def chain_from_def issued_tag_def chained_def upt_rec slot_def)
  from command_queue_refines [OF en] obtain st rd rs a where
    r: "bindr flecs_stage_new (\<lambda>st. run_ops (stage_step (\<lambda>w _ _. Inr w)) demo_calls (st, None)) = Inr ((st, rd), rs)"
      "run_spec stage_spec_step demo_calls new_stage_spec = (a, rs)"
    and w: "\<And>k i. i < length (ss_issued a k) \<and> issued_tag (ss_issued a k ! i) \<noteq> None \<Longrightarrow>
       batch_walk (length (ss_issued a k)) (vec_elems (cq_queue (st_cmd_stack st k))) i = Some (issued_chain (ss_issued a k) i)" by blast
  have "ss_issued a 0 = ?issued" using s r(2) by simp
  then have "batch_walk 5 (vec_elems (cq_queue (st_cmd_stack st 0))) 0 = Some [0, 3]"
    using w [of 0 0] ch by (simp add: issued_tag_def chained_def eval_nat_numeral del: batch_walk.simps)
  then show ?thesis using r(1) by blast
qed


section \<open>Discarding the commands of a stage\<close>







end
