(* ===== verification/Spec2Isabelle.thy ===== *)
theory Spec2Isabelle
  imports EntityRanges Bitset Map_Iteration Sparse_Set NameIndex TableCache_Facts Strings EntityStorage_Spec Table_Elements Command_Runs
begin

text \<open>
  A verification development for the storage core of the Flecs entity component system.  The C sources are
  named relative to \<open>src/\<close> of the repository.

  \<^bold>\<open>The program.\<close>  A world stores entities, 64-bit ids with a 32-bit index and a 16-bit generation.  The entity
  index issues and recycles ids and keeps, for every entity, the table and the row of its data.  A table
  is identified by its type, the sorted vector of the component ids of its entities; the table graph
  computes the types that result from adding and removing a component.  Sparse sets hold components that
  are not in tables, maps and name indices resolve ids and names, bitsets hold the components that are
  switched on.  All of them are built on a dynamic vector.  A table stores its entities row by row: a column of ids, a
  column of values per component and a bitset per component that can be switched.  Adding a component to an
  entity, or removing one, moves it to another table; the last row of the old table takes its place there.
  The values are handled with the hooks (constructor, destructor, copy, move) that the application registers.
  While a stage is deferred, operations are not executed but appended to a command queue, which is flushed later.

  \<^bold>\<open>Theories and the code they model.\<close>
  \<^item> \<open>Prelude\<close>: outcomes (a value, an abort with an error code, or an undefined access), loops, lists and words.
    \<open>Refine\<close>: sequences of operations and the interface \<open>simulation\<close> of data refinement.
  \<^item> \<open>Ids\<close>: \<open>id.c\<close> and the id macros of \<open>include/flecs/private/api_defines.h\<close>.
  \<^item> \<open>Misc\<close>: \<open>flecs_next_pow_of_2\<close> of \<open>misc.c\<close>.
  \<^item> \<open>Vec\<close>: \<open>datastructures/vec.c\<close>.
  \<^item> \<open>Types\<close>: the type utilities and the table diff builder of \<open>storage/table_graph.c\<close>.
  \<^item> \<open>Dense\<close>: the dense array with positions that the entity index and the sparse set share.
  \<^item> \<open>EntityIndex\<close>: \<open>storage/entity_index.c\<close> and the ranges of \<open>world.c\<close>; \<open>EntityLifecycle\<close>: the liveness
    queries of \<open>entity.c\<close> and the runs of the index; \<open>EntityRanges\<close>: the properties of ranges.
  \<^item> \<open>Bitset\<close>: \<open>datastructures/bitset.c\<close>.
  \<^item> \<open>Ecs_Map\<close> and \<open>Map_Iteration\<close>: \<open>datastructures/map.c\<close>.
  \<^item> \<open>Sparse\<close>, \<open>Sparse_Facts\<close> and \<open>Sparse_Set\<close>: \<open>datastructures/sparse.c\<close>.
  \<^item> \<open>Hash\<close>: \<open>datastructures/hash.c\<close>.
  \<^item> \<open>Hashmap\<close> and \<open>Hashmap_Facts\<close>: \<open>datastructures/hashmap.c\<close>.
  \<^item> \<open>NameIndex\<close>: \<open>datastructures/name_index.c\<close>, on top of the hash map and the hash function.
  \<^item> \<open>TableCache\<close> and \<open>TableCache_Facts\<close>: \<open>storage/table_cache.c\<close>, doubly linked lists in an explicit memory.
  \<^item> \<open>TypeInfo\<close>: \<open>type_info.c\<close>, the hooks of component types and the defaults that are derived from them.
  \<^item> \<open>Table\<close>: \<open>storage/table.c\<close>; \<open>Table_Facts\<close>: the well-formedness of a table, appending and deleting a row;
    \<open>Table_Move\<close>: the loops over two tables and moving a row; \<open>Table_Elements\<close>: single elements of columns.
  \<^item> \<open>EntityStorage\<close>: the operations of \<open>entity.c\<close> that create, move, clear and delete an entity in tables or make a
    given id alive, on a world with the entity index and the tables; \<open>EntityStorage_Facts\<close>: the invariant that records and rows point at each
    other, and the single operations; \<open>EntityStorage_Values\<close>: the values that entities own; \<open>EntityStorage_Spec\<close>:
    sequences of operations.
  \<^item> \<open>Commands\<close>: the command queues of a stage, \<open>commands.c\<close>, \<open>commands.h\<close>, \<open>stage.h\<close> (\<open>ecs_stage_t\<close>, \<open>ecs_commands_t\<close>,
    \<open>ecs_cmd_t\<close>): deferring operations, the chains that link the commands of an entity, the switch between the two
    queues, the invalidation of entries during a flush, purging; \<open>Command_Chains\<close>: chains as a function of the sequence
    of entities; \<open>Command_Queue\<close>: the invariant of a queue and its entries; \<open>Command_Runs\<close>: sequences of calls on a stage.
  \<^item> \<open>Strings\<close>: the string, number and comparison helpers of \<open>misc.c\<close>.

  A struct is a record with the fields of the source, an operation takes the state and returns the new one,
  and carries the name of the C function (less a trailing underscore).  A pointer into a container is the
  key or index that it stands for; an access through it is defined only while the container has it.
  Memory is a value: a cell that has not been written is \<open>None\<close>, and reading it is undefined.

  \<^bold>\<open>Interfaces.\<close>  \<open>dyn_array\<close> (in \<open>Vec\<close>) is what the clients of a vector rely on; \<open>value_map\<close> (in \<open>Ecs_Map\<close>) what
  the hash map for arbitrary keys relies on; \<open>hash_keys\<close> (in \<open>Hashmap_Facts\<close>) what a hash function and a
  comparison have to satisfy, interpreted on those of the name index; \<open>simulation\<close> (in \<open>Refine\<close>) is
  interpreted on the map, the sparse set, the name index, the table cache, the bitset and the stage.

  \<^bold>\<open>What is shown.\<close>
  \<^item> Entity storage: creating, moving and deleting an entity return, keep every record and every row consistent, and
    change the values of no other entity, although rows are moved; over all sequences of operations the
    values that were released and those that entities own stay the same multiset, so nothing leaks and
    nothing is destroyed twice; every storage can be emptied, and then all values have been released.  The hooks of the application are assumed to do what is documented (\<open>managed\<close>), and the
    derived hooks are proved to.
  \<^item> Refinement: after any sequence of calls the entity index is a set of ids, the map a finite map, the sparse
    set a map from indices to elements, the name index a map from names to entities, the table cache the list of
    its tables, the bitset a list of bits, the two queues of a stage the lists of the commands that were issued, with
    the batch of an entity being exactly its later commands; all calls return as long as the stated capacities hold.
  \<^item> Invariants: types stay strictly sorted, ranges sorted and disjoint; the index, the map, the sparse set
    and the hash map keep their well-formedness in every operation.
  \<^item> Generations: a removed handle stays dead until its generation has wrapped around, and the period of the
    counter is exact, for the entity index and for the sparse set.
  \<^item> Termination: the binary search for a range, the iteration of a map with removals, the hash function.
  \<^item> Round trips and equivalences: pairs, adding and removing a component, switching ranges, copying a map,
    escaped strings, the two multiplications of the hash function.
  \<^item> Errors: iterating a modified map, updating a name by another one, moving a component with a destructor only, and the situations in which the code
    does not do what its comments say (shrinking the entity index or the sparse set, clearing a sparse set,
    ids above the active range, the wrap-around of the id counter, growth of a vector at its limit, purging a queue
    with a path command).

  \<^bold>\<open>Bounds and fuel.\<close>  Machine words are kept where the code wraps or shifts (ids, hashes, generations, the id
  counter, the rounding to powers of two, bit fields of the map); counts and positions are natural numbers
  and the theorems state the capacities below which the 32-bit counters do not overflow: \<open>2 ^ 30\<close> elements of
  a vector (and commands of a queue), \<open>2 ^ 26\<close> entries of a map, \<open>2 ^ 28\<close> rows of a table (the bits of a row in a
  record).  The signed counters of the bitset and of \<open>flecs_stresc\<close> are checked in the model: a sum that leaves 32 bits is
  undefined, so a bitset holds at most \<open>2 ^ 31 - 64\<close> bits and an escaped string is shorter than \<open>2 ^ 31\<close> characters.  The loops over a map iterator take fuel; one round more than there are
  entries is proved to be enough for the iteration and the copy of a map.  The walk along a batch of commands takes the
  length of the queue as fuel, which is proved to be enough.

  \<^bold>\<open>Build.\<close>  Assertions are enabled, so a failing \<open>ecs_assert\<close> or \<open>ecs_check\<close> is an abort.  Allocation does not fail.

  \<^bold>\<open>Parameters.\<close>  Functions of the application are values of the model: the hooks of a type, and the callbacks and
  observers, whose invocations are recorded in \<open>w_invoked\<close> and \<open>w_actions\<close>.  The value that an override reference of an
  inherited component resolves to is the parameter \<open>ov\<close>; the theorems about whole operations take tables without
  overrides.  The relationship cleanup of a deletion is the parameter \<open>on_delete\<close>, which runs only for entities with
  row flags.  For commands, the value that a removed override gets back is the parameter \<open>restore\<close> and the registry of
  component types the parameter \<open>type_info\<close>.

  \<^bold>\<open>Not modelled.\<close>  Memory allocators and the operating system interface (memory is a value here); string
  formatting; the edges between tables and the creation of tables from a type, the component index, the execution
  of commands and the deferred operations with a value (set, ensure, emplace), bulk creation and events, observers, queries and the setup of the world, which are about matching tables and calling the application rather
  than about the storage of entities; the addons.  Each of them is listed with its reason in the manifest.
\<close>

end
